(* ===== verification/Bridge_Prelude.thy ===== *)
theory Bridge_Prelude
  imports Main "HOL-Library.Sublist" "HOL-Library.Char_ord" "HOL-Library.List_Lexorder"
begin

text \<open>
  What every component of the development shares: the names of the machine types, the parts of
  the Rust standard library the sources call (checked and saturating arithmetic, ASCII case,
  prefixes, splitting and joining text, decimal text), and the collections of rewrite rules the
  component proofs are carried by.

  A byte of the sources (\<open>u8\<close>) is a HOL \<^typ>\<open>char\<close>, which has exactly 256 values; a
  \<open>&str\<close> is the list of its UTF-8 bytes, on which \<open>len\<close>, \<open>starts_with\<close>, \<open>strip_prefix\<close> and
  \<open>split\<close> at an ASCII character are what they are on the text. A fallible operation is a value
  of \<open>'e + 'a\<close> with \<^const>\<open>Inl\<close> for the error, the order of the checks kept.
\<close>

named_theorems result_simps \<open>how a fallible step continues\<close>
named_theorems rust_simps \<open>the standard library operations the sources call\<close>

type_synonym byte = char

subsection \<open>Fallible steps\<close>

text \<open>The \<open>?\<close> operator: an error leaves at once, a value goes on.\<close>

definition and_then :: "'e + 'a \<Rightarrow> ('a \<Rightarrow> 'e + 'b) \<Rightarrow> 'e + 'b" where
  "and_then r f = (case r of Inl e \<Rightarrow> Inl e | Inr a \<Rightarrow> f a)"

lemma and_then_Inl [simp, result_simps]: "and_then (Inl e) f = Inl e"
  by (simp add: and_then_def)

lemma and_then_Inr [simp, result_simps]: "and_then (Inr a) f = f a"
  by (simp add: and_then_def)

lemma and_then_Inr_eq [result_simps]: "and_then r f = Inr b \<longleftrightarrow> (\<exists>a. r = Inr a \<and> f a = Inr b)"
  by (cases r) auto

lemma and_then_Inl_eq [result_simps]:
  "and_then r f = Inl e \<longleftrightarrow> r = Inl e \<or> (\<exists>a. r = Inr a \<and> f a = Inl e)"
  by (cases r) auto

lemma and_then_assoc [result_simps]: "and_then (and_then r f) g = and_then r (\<lambda>a. and_then (f a) g)"
  by (cases r) auto

lemma and_then_Inr_id [simp]: "and_then r Inr = r"
  by (cases r) auto

definition ok_or :: "'e \<Rightarrow> 'a option \<Rightarrow> 'e + 'a" where
  "ok_or e x = (case x of None \<Rightarrow> Inl e | Some a \<Rightarrow> Inr a)"

lemma ok_or_simps [simp, result_simps]: "ok_or e None = Inl e" "ok_or e (Some a) = Inr a"
  by (simp_all add: ok_or_def)

text \<open>\<open>try_for_each\<close> and the loops with \<open>?\<close> in their body: a state threaded through a list.\<close>

fun try_fold :: "('s \<Rightarrow> 'a \<Rightarrow> 'e + 's) \<Rightarrow> 's \<Rightarrow> 'a list \<Rightarrow> 'e + 's" where
  "try_fold f s [] = Inr s"
| "try_fold f s (x # xs) = and_then (f s x) (\<lambda>s'. try_fold f s' xs)"

lemma try_fold_append [result_simps]:
  "try_fold f s (xs @ ys) = and_then (try_fold f s xs) (\<lambda>s'. try_fold f s' ys)"
  by (induction xs arbitrary: s) (auto simp: result_simps)

lemma try_fold_invariant:
  assumes "try_fold f s xs = Inr s'" "P s"
    and step: "\<And>s x s'. P s \<Longrightarrow> x \<in> set xs \<Longrightarrow> f s x = Inr s' \<Longrightarrow> P s'"
  shows "P s'"
  using assms
proof (induction xs arbitrary: s)
  case Nil
  then show ?case by simp
next
  case (Cons x xs)
  from Cons.prems(1) obtain t where t: "f s x = Inr t" "try_fold f t xs = Inr s'"
    by (auto simp: and_then_Inr_eq)
  have "P t" by (rule Cons.prems(3)[OF Cons.prems(2) _ t(1)]) simp
  show ?case
  proof (rule Cons.IH[OF t(2) \<open>P t\<close>])
    fix a y a' assume "P a" "y \<in> set xs" "f a y = Inr a'"
    then show "P a'" by (intro Cons.prems(3)[of a y a']) simp_all
  qed
qed

subsection \<open>Machine integers\<close>

text \<open>
  \<open>usize\<close> and \<open>u64\<close> have 64 bits, \<open>u32\<close> has 32. They are natural numbers with the bound
  written out where the sources check it.
\<close>

definition usize_max :: nat where "usize_max = 2 ^ 64 - 1"
definition u64_max :: nat where "u64_max = 2 ^ 64 - 1"
definition u32_max :: nat where "u32_max = 2 ^ 32 - 1"

lemma max_values [rust_simps]:
  "usize_max = 18446744073709551615" "u64_max = 18446744073709551615" "u32_max = 4294967295"
  by (simp_all add: usize_max_def u64_max_def u32_max_def)

definition saturating_add :: "nat \<Rightarrow> nat \<Rightarrow> nat" where
  "saturating_add a b = min (a + b) usize_max"

definition checked_mul_u32 :: "nat \<Rightarrow> nat \<Rightarrow> nat option" where
  "checked_mul_u32 a b = (if a * b \<le> u32_max then Some (a * b) else None)"

definition checked_add_u32 :: "nat \<Rightarrow> nat \<Rightarrow> nat option" where
  "checked_add_u32 a b = (if a + b \<le> u32_max then Some (a + b) else None)"

subsection \<open>ASCII\<close>

abbreviation code :: "byte \<Rightarrow> nat" where "code c \<equiv> of_char c"

definition is_ascii_digit :: "byte \<Rightarrow> bool" where
  "is_ascii_digit c \<longleftrightarrow> 48 \<le> code c \<and> code c \<le> 57"

definition is_ascii_upper :: "byte \<Rightarrow> bool" where
  "is_ascii_upper c \<longleftrightarrow> 65 \<le> code c \<and> code c \<le> 90"

definition is_ascii_lower :: "byte \<Rightarrow> bool" where
  "is_ascii_lower c \<longleftrightarrow> 97 \<le> code c \<and> code c \<le> 122"

definition is_ascii_alphanumeric :: "byte \<Rightarrow> bool" where
  "is_ascii_alphanumeric c \<longleftrightarrow> is_ascii_digit c \<or> is_ascii_upper c \<or> is_ascii_lower c"

definition is_ascii_hexdigit :: "byte \<Rightarrow> bool" where
  "is_ascii_hexdigit c \<longleftrightarrow>
     is_ascii_digit c \<or> (65 \<le> code c \<and> code c \<le> 70) \<or> (97 \<le> code c \<and> code c \<le> 102)"

definition to_upper_byte :: "byte \<Rightarrow> byte" where
  "to_upper_byte c = (if is_ascii_lower c then char_of (code c - 32) else c)"

definition to_lower_byte :: "byte \<Rightarrow> byte" where
  "to_lower_byte c = (if is_ascii_upper c then char_of (code c + 32) else c)"

definition to_ascii_uppercase :: "string \<Rightarrow> string" where
  "to_ascii_uppercase = map to_upper_byte"

definition to_ascii_lowercase :: "string \<Rightarrow> string" where
  "to_ascii_lowercase = map to_lower_byte"

definition eq_ignore_ascii_case :: "string \<Rightarrow> string \<Rightarrow> bool" where
  "eq_ignore_ascii_case s t \<longleftrightarrow> to_ascii_lowercase s = to_ascii_lowercase t"

abbreviation CRb :: byte where "CRb \<equiv> CHR 0x0D"
abbreviation LFb :: byte where "LFb \<equiv> CHR 0x0A"

lemma code_less_256 [simp]: "code c < 256"
  using of_char_mod_256 [of c]
  by (metis mod_less_divisor zero_less_numeral)

lemma code_char_of [simp]: "n < 256 \<Longrightarrow> code (char_of n) = n"
  by (simp add: of_char_of)

lemma code_eq_iff: "code c = code d \<longleftrightarrow> c = d"
  by simp

lemma to_lower_byte_idem [simp]: "to_lower_byte (to_lower_byte c) = to_lower_byte c"
  by (auto simp: to_lower_byte_def is_ascii_upper_def)

lemma to_upper_byte_idem [simp]: "to_upper_byte (to_upper_byte c) = to_upper_byte c"
  by (auto simp: to_upper_byte_def is_ascii_lower_def)

lemma to_ascii_uppercase_idem [simp]:
  "to_ascii_uppercase (to_ascii_uppercase s) = to_ascii_uppercase s"
  by (simp add: to_ascii_uppercase_def)

lemma eq_ignore_ascii_case_refl [simp]: "eq_ignore_ascii_case s s"
  by (simp add: eq_ignore_ascii_case_def)

lemma eq_ignore_ascii_case_sym: "eq_ignore_ascii_case s t \<Longrightarrow> eq_ignore_ascii_case t s"
  by (simp add: eq_ignore_ascii_case_def)

lemma eq_ignore_ascii_case_trans:
  "eq_ignore_ascii_case s t \<Longrightarrow> eq_ignore_ascii_case t u \<Longrightarrow> eq_ignore_ascii_case s u"
  by (simp add: eq_ignore_ascii_case_def)

subsection \<open>Text\<close>

definition starts_with :: "string \<Rightarrow> string \<Rightarrow> bool" where
  "starts_with s p \<longleftrightarrow> take (length p) s = p"

definition strip_prefix :: "string \<Rightarrow> string \<Rightarrow> string option" where
  "strip_prefix s p = (if starts_with s p then Some (drop (length p) s) else None)"

lemma starts_with_prefix: "starts_with s p \<longleftrightarrow> prefix p s"
  by (auto simp: starts_with_def prefix_def) (metis append_take_drop_id)

lemma strip_prefix_Some [rust_simps]: "strip_prefix s p = Some r \<longleftrightarrow> s = p @ r"
  by (auto simp: strip_prefix_def starts_with_def split: if_splits) (metis append_take_drop_id)

lemma strip_prefix_append [simp]: "strip_prefix (p @ r) p = Some r"
  by (simp add: rust_simps)

text \<open>\<open>str::split(c)\<close>: the pieces between the separators, one more than there are of them.\<close>

fun split_on :: "'a \<Rightarrow> 'a list \<Rightarrow> 'a list list" where
  "split_on c [] = [[]]"
| "split_on c (x # xs) =
     (if x = c then [] # split_on c xs
      else (case split_on c xs of [] \<Rightarrow> [[x]] | p # ps \<Rightarrow> (x # p) # ps))"

fun join_with :: "'a \<Rightarrow> 'a list list \<Rightarrow> 'a list" where
  "join_with c [] = []"
| "join_with c [p] = p"
| "join_with c (p # q # ps) = p @ c # join_with c (q # ps)"

lemma split_on_nonempty [simp]: "split_on c xs \<noteq> []"
  by (cases xs) (auto split: list.splits)

lemma split_on_parts: "p \<in> set (split_on c xs) \<Longrightarrow> c \<notin> set p"
  by (induction xs arbitrary: p) (auto split: if_splits list.splits)

lemma join_split [simp]: "join_with c (split_on c xs) = xs"
proof (induction xs)
  case Nil
  then show ?case by simp
next
  case (Cons x xs)
  obtain p ps where s: "split_on c xs = p # ps"
    using split_on_nonempty [of c xs] by (cases "split_on c xs") auto
  with Cons show ?case by (cases ps) auto
qed

lemma split_on_no_sep: "c \<notin> set xs \<Longrightarrow> split_on c xs = [xs]"
  by (induction xs) auto

lemma split_on_append_sep: "c \<notin> set p \<Longrightarrow> split_on c (p @ c # xs) = p # split_on c xs"
  by (induction p) auto

lemma split_join:
  "ps \<noteq> [] \<Longrightarrow> \<forall>p \<in> set ps. c \<notin> set p \<Longrightarrow> split_on c (join_with c ps) = ps"
  by (induction c ps rule: join_with.induct) (auto simp: split_on_no_sep split_on_append_sep)

text \<open>\<open>str::replace\<close> of one character by another.\<close>

definition replace_char :: "'a \<Rightarrow> 'a \<Rightarrow> 'a list \<Rightarrow> 'a list" where
  "replace_char a b = map (\<lambda>x. if x = a then b else x)"

lemma replace_char_back: "b \<notin> set xs \<Longrightarrow> replace_char b a (replace_char a b xs) = xs"
  unfolding replace_char_def by (induction xs) auto

lemma replace_char_split:
  "b \<notin> set xs \<Longrightarrow> split_on b (replace_char a b xs) = split_on a xs"
  unfolding replace_char_def by (induction xs) auto

text \<open>\<open>find(c)\<close> on a sequence: the index of the first occurrence.\<close>

fun find_index :: "('a \<Rightarrow> bool) \<Rightarrow> 'a list \<Rightarrow> nat option" where
  "find_index P [] = None"
| "find_index P (x # xs) = (if P x then Some 0 else map_option Suc (find_index P xs))"

lemma find_index_None: "find_index P xs = None \<longleftrightarrow> (\<forall>x \<in> set xs. \<not> P x)"
  by (induction xs) auto

lemma find_index_Some:
  "find_index P xs = Some i \<longleftrightarrow> i < length xs \<and> P (xs ! i) \<and> (\<forall>j < i. \<not> P (xs ! j))"
proof (induction xs arbitrary: i)
  case Nil
  then show ?case by simp
next
  case (Cons x xs)
  show ?case
  proof (cases i)
    case 0
    then show ?thesis by auto
  next
    case (Suc k)
    with Cons show ?thesis by (auto simp: less_Suc_eq_0_disj)
  qed
qed

lemma find_index_append:
  "\<forall>x \<in> set xs. \<not> P x \<Longrightarrow> P y \<Longrightarrow> find_index P (xs @ y # ys) = Some (length xs)"
  by (induction xs) auto

text \<open>\<open>sort_unstable\<close> and \<open>dedup\<close>, and the order a \<open>BTreeSet\<close> iterates in.\<close>

lemma distinct_remdups_adj: "sorted xs \<Longrightarrow> distinct (remdups_adj xs)"
  by (induction xs rule: remdups_adj.induct) (auto simp: antisym)

subsection \<open>Decimal text\<close>

text \<open>\<open>to_string\<close> of an unsigned number.\<close>

fun digits :: "nat \<Rightarrow> string" where
  "digits n = (if n < 10 then [char_of (48 + n)] else digits (n div 10) @ [char_of (48 + n mod 10)])"

declare digits.simps [simp del]

text \<open>
  \<open>str::parse\<close> of an unsigned number with a largest value: one optional plus sign, at least one
  digit, nothing else and no value past the bound.
\<close>

definition digits_value :: "string \<Rightarrow> nat" where
  "digits_value = foldl (\<lambda>n c. 10 * n + (code c - 48)) 0"

definition parse_unsigned :: "nat \<Rightarrow> string \<Rightarrow> nat option" where
  "parse_unsigned bound s =
     (let t = (case s of c # r \<Rightarrow> if c = CHR ''+'' then r else s | [] \<Rightarrow> s)
      in if t \<noteq> [] \<and> list_all is_ascii_digit t \<and> digits_value t \<le> bound
         then Some (digits_value t) else None)"

lemma digits_value_snoc: "digits_value (s @ [c]) = 10 * digits_value s + (code c - 48)"
  by (simp add: digits_value_def)

lemma digits_all: "list_all is_ascii_digit (digits n) \<and> digits n \<noteq> []"
proof (induction n rule: digits.induct)
  case (1 n)
  have "n mod 10 < 10" by simp
  then have "is_ascii_digit (char_of (48 + n mod 10))"
    by (simp add: is_ascii_digit_def)
  with 1 show ?case
    by (subst (1 2) digits.simps) (auto simp: is_ascii_digit_def [of "char_of (48 + n)"])
qed

lemma digits_value_digits [simp]: "digits_value (digits n) = n"
proof (induction n rule: digits.induct)
  case (1 n)
  show ?case
  proof (cases "n < 10")
    case True
    then show ?thesis by (subst digits.simps) (simp add: digits_value_def)
  next
    case False
    then have "digits_value (digits (n div 10)) = n div 10" by (rule 1)
    with False show ?thesis
      by (subst digits.simps) (simp add: digits_value_snoc)
  qed
qed

lemma digits_no_plus: "digits n = c # r \<Longrightarrow> c \<noteq> CHR ''+''"
  using digits_all [of n] by (auto simp: is_ascii_digit_def)

lemma parse_digits [simp]: "n \<le> bound \<Longrightarrow> parse_unsigned bound (digits n) = Some n"
proof -
  assume le: "n \<le> bound"
  obtain c r where d: "digits n = c # r" using digits_all [of n] by (cases "digits n") auto
  have "digits_value (c # r) = n" using d digits_value_digits [of n] by simp
  moreover have "c \<noteq> CHR ''+''" using d by (rule digits_no_plus)
  ultimately show ?thesis
    using digits_all [of n] le d by (simp add: parse_unsigned_def)
qed

lemma digits_inj: "digits m = digits n \<Longrightarrow> m = n"
  by (metis digits_value_digits)

subsection \<open>Reading a stream piece by piece\<close>

text \<open>
  The contract of a reader that takes its input in chunks: reading two chunks one after the other
  is reading them as one, and what it accepts keeps its invariant. What follows for any such
  reader: where the chunks are cut changes nothing, what is accepted is accepted in every prefix
  and a failure stays.
\<close>

locale incremental_reader =
  fixes feed :: "'s \<Rightarrow> 'b list \<Rightarrow> 'e + 's"
    and ok :: "'s \<Rightarrow> bool"
  assumes feed_nil: "feed s [] = Inr s"
    and feed_two: "ok s \<Longrightarrow> feed s (xs @ ys) = and_then (feed s xs) (\<lambda>t. feed t ys)"
    and feed_keeps: "ok s \<Longrightarrow> feed s xs = Inr t \<Longrightarrow> ok t"
begin

lemma feed_chunks: "ok s \<Longrightarrow> try_fold feed s chunks = feed s (concat chunks)"
proof (induction chunks arbitrary: s)
  case Nil
  then show ?case by (simp add: feed_nil)
next
  case (Cons c chunks)
  show ?case
  proof (cases "feed s c")
    case (Inl e)
    with Cons.prems show ?thesis by (simp add: feed_two)
  next
    case (Inr t)
    with Cons.prems have "ok t" by (rule feed_keeps)
    with Cons Inr show ?thesis by (simp add: feed_two)
  qed
qed

lemma feed_recut:
  "ok s \<Longrightarrow> concat chunks = concat chunks' \<Longrightarrow> try_fold feed s chunks = try_fold feed s chunks'"
  by (simp add: feed_chunks)

lemma feed_prefix: "ok s \<Longrightarrow> feed s (xs @ ys) = Inr t \<Longrightarrow> \<exists>u. feed s xs = Inr u \<and> feed u ys = Inr t"
  by (simp add: feed_two and_then_Inr_eq)

lemma feed_failed: "ok s \<Longrightarrow> feed s xs = Inl e \<Longrightarrow> feed s (xs @ ys) = Inl e"
  by (simp add: feed_two)

end

end
