(* ===== verification/Guard_Lexer.thy ===== *)
theory Guard_Lexer
  imports Bridge_Prelude
begin

text \<open>
  The guard between the socket and the IMAP client library (\<open>session/guard.rs\<close>,
  \<open>session/guard/lexer.rs\<close>): a byte lexer that follows enough of the response grammar to know
  the parenthesis depth, the size and the structured size of the response under way, and the
  reader that stops handing bytes on once a bound is passed.

  The lexer is a record with the fields of the source; every method is one function that returns
  the new record or the bound that was passed. When a method fails the source leaves a partly
  updated lexer behind, which nothing reads again: the reader keeps the limit in \<open>tripped\<close> and
  answers every later read with it. The model drops that dead value.
\<close>

subsection \<open>Bounds and state\<close>

definition MAX_NESTING :: nat where "MAX_NESTING = 32"
definition MAX_RESPONSE_BYTES :: nat where "MAX_RESPONSE_BYTES = 1024 * 1024"
definition MAX_STRUCTURED_BYTES :: nat where "MAX_STRUCTURED_BYTES = 64 * 1024"
definition WORD_BYTES :: nat where "WORD_BYTES = 7"

definition STATUS_WORDS :: "string list" where
  "STATUS_WORDS = [''OK'', ''NO'', ''BAD'', ''BYE'', ''PREAUTH'']"

datatype limit = Nesting | Size | Structure | LiteralInText

datatype marker = Absent | Open | Digits | Closed | MarkerCr | Complete

definition marker_after :: "marker \<Rightarrow> byte \<Rightarrow> marker" where
  "marker_after m b =
     (if b = CHR ''{'' then Open
      else if (m = Open \<or> m = Digits) \<and> is_ascii_digit b then Digits
      else if m = Digits \<and> b = CHR ''}'' then Closed
      else if m = Closed \<and> b = CRb then MarkerCr
      else if m = MarkerCr \<and> b = LFb then Complete
      else Absent)"

datatype mode =
    Plain | Quoted | Escaped
  | SizeOf "nat option" | SizeCr nat | SizeLf nat | Literal nat

datatype line = Start | Star | Word "byte list" nat | Text | Data mode

record lexer =
  line :: line
  depth :: nat
  bytes :: nat
  structured :: nat
  cr :: bool
  marker :: marker

definition lexer_default :: lexer where
  "lexer_default = \<lparr>line = Start, depth = 0, bytes = 0, structured = 0, cr = False, marker = Absent\<rparr>"

subsection \<open>Counting\<close>

definition count :: "lexer \<Rightarrow> nat \<Rightarrow> limit + lexer" where
  "count s n =
     (let s' = s\<lparr>bytes := saturating_add (bytes s) n\<rparr>
      in if bytes s' > MAX_RESPONSE_BYTES then Inl Size else Inr s')"

definition count_structured :: "lexer \<Rightarrow> limit + lexer" where
  "count_structured s =
     (let s' = s\<lparr>structured := structured s + 1\<rparr>
      in if structured s' > MAX_STRUCTURED_BYTES then Inl Structure else count s' 1)"

subsection \<open>One byte\<close>

definition end_of_line :: "lexer \<Rightarrow> byte \<Rightarrow> lexer" where
  "end_of_line s b = (if b = LFb \<and> cr s then lexer_default else s\<lparr>cr := (b = CRb)\<rparr>)"

definition text_byte :: "lexer \<Rightarrow> byte \<Rightarrow> limit + lexer" where
  "text_byte s b =
     (if b = CHR ''('' then
        (let s' = s\<lparr>depth := depth s + 1\<rparr>
         in if depth s' > MAX_NESTING then Inl Nesting else Inr (end_of_line s' b))
      else if b = CHR '')'' then Inr (end_of_line (s\<lparr>depth := depth s - 1\<rparr>) b)
      else Inr (end_of_line s b))"

definition free_text :: "lexer \<Rightarrow> byte \<Rightarrow> limit + lexer" where
  "free_text s b =
     (let s' = s\<lparr>marker := marker_after (marker s) b\<rparr>
      in if marker s' = Complete then Inl LiteralInText else text_byte s' b)"

text \<open>
  The kind of a line once the word after the star ends or fills. The array is written at index
  \<open>len\<close>; \<open>lexer_ok\<close> below keeps \<open>len\<close> inside it.
\<close>

definition word :: "byte list \<Rightarrow> nat \<Rightarrow> byte \<Rightarrow> line" where
  "word bs len b =
     (let ended = (b = CHR '' '' \<or> b = CRb);
          bs' = (if ended then bs else bs[len := to_upper_byte b]);
          len' = (if ended then len else len + 1)
      in if \<not> ended \<and> len' < WORD_BYTES then Word bs' len'
         else if list_ex (starts_with (take len' bs')) STATUS_WORDS then Text
         else Data Plain)"

definition enter :: "lexer \<Rightarrow> mode \<Rightarrow> lexer" where
  "enter s m = s\<lparr>line := Data m, cr := False\<rparr>"

definition size_digit :: "nat option \<Rightarrow> byte \<Rightarrow> mode" where
  "size_digit ds b =
     (case Option.bind (checked_mul_u32 (case ds of None \<Rightarrow> 0 | Some n \<Rightarrow> n) 10)
             (\<lambda>n. checked_add_u32 n (code b - 48)) of
        None \<Rightarrow> Plain | Some n \<Rightarrow> SizeOf (Some n))"

text \<open>
  A byte on a data line. A byte that turns out to belong to the mode around a size or an escape
  is read once more there (\<open>again\<close>), in \<open>Plain\<close> or \<open>Quoted\<close>, which never ask again.
\<close>

fun mode_rank :: "mode \<Rightarrow> nat" where
  "mode_rank Plain = 0"
| "mode_rank Quoted = 0"
| "mode_rank _ = 1"

function (sequential) data :: "lexer \<Rightarrow> mode \<Rightarrow> byte \<Rightarrow> limit + lexer"
  and again :: "lexer \<Rightarrow> mode \<Rightarrow> byte \<Rightarrow> limit + lexer" where
  "data s Plain b =
     (if b = CHR 0x22 then Inr (enter s Quoted)
      else if b = CHR ''{'' then Inr (enter s (SizeOf None))
      else text_byte s b)"
| "data s Quoted b =
     (if b = CHR 0x5C then Inr (enter s Escaped)
      else if b = CHR 0x22 then Inr (enter s Plain)
      else Inr (end_of_line s b))"
| "data s Escaped b =
     (if b = CHR 0x5C \<or> b = CHR 0x22 then Inr (enter s Quoted)
      else again s Quoted b)"
| "data s (SizeOf ds) b =
     (if is_ascii_digit b then Inr (enter s (size_digit ds b))
      else (case ds of
              Some n \<Rightarrow> if b = CHR ''}'' then Inr (enter s (SizeCr n)) else again s Plain b
            | None \<Rightarrow> again s Plain b))"
| "data s (SizeCr n) b =
     (if b = CRb then Inr (enter s (SizeLf n)) else again s Plain b)"
| "data s (SizeLf n) b =
     (if b = LFb then Inr (enter s (if n = 0 then Plain else Literal n)) else again s Plain b)"
| "data s (Literal left) b =
     Inr (enter s (if left > 1 then Literal (left - 1) else Plain))"
| "again s m b = data (s\<lparr>line := Data m\<rparr>) m b"
  by pat_completeness auto
termination
  by (relation "measure (\<lambda>x. case x of Inl (s, m, b) \<Rightarrow> 2 * mode_rank m
                                     | Inr (s, m, b) \<Rightarrow> 2 * mode_rank m + 1)") auto

definition step :: "lexer \<Rightarrow> byte \<Rightarrow> limit + lexer" where
  "step s b =
     (case line s of
        Start \<Rightarrow> free_text (s\<lparr>line := (if b = CHR ''*'' then Star else Text)\<rparr>) b
      | Star \<Rightarrow> free_text (s\<lparr>line := (if b = CHR '' '' then Word (replicate WORD_BYTES (CHR 0x00)) 0
                                    else Text)\<rparr>) b
      | Word bs len \<Rightarrow> free_text (s\<lparr>line := word bs len b\<rparr>) b
      | Text \<Rightarrow> free_text s b
      | Data m \<Rightarrow> data s m b)"

subsection \<open>A chunk\<close>

text \<open>
  The loop of \<open>feed\<close>: inside a literal a whole run of bytes is skipped at once. \<open>usize\<close> holds
  every \<open>u32\<close> and the bytes skipped never exceed what is left, so both conversions succeed.
\<close>

function feed :: "lexer \<Rightarrow> byte list \<Rightarrow> limit + lexer" where
  "feed s rest =
     (case rest of
        [] \<Rightarrow> Inr s
      | b # tail \<Rightarrow>
          (case line s of
             Data (Literal left) \<Rightarrow>
               (let skipped = min left (length rest);
                    left' = left - skipped
                in and_then (count s skipped)
                     (\<lambda>s'. feed (s'\<lparr>line := Data (if left' = 0 then Plain else Literal left')\<rparr>)
                                (drop skipped rest)))
           | _ \<Rightarrow> and_then (count_structured s) (\<lambda>s'. and_then (step s' b) (\<lambda>s''. feed s'' tail))))"
  by pat_completeness auto
termination
proof (relation "measure (\<lambda>(s, rest). 2 * length rest + (if line s = Data (Literal 0) then 1 else 0))",
    goal_cases)
  case 1
  show ?case by simp
next
  case 2
  then show ?case by (auto simp: min_def)
qed auto

declare feed.simps [simp del]

subsection \<open>The guarded reader\<close>

record guarded =
  lexer_of :: lexer
  tripped :: "limit option"

definition guarded_new :: guarded where
  "guarded_new = \<lparr>lexer_of = lexer_default, tripped = None\<rparr>"

text \<open>What the stream underneath answers a poll, and what the guard answers.\<close>

datatype inner_poll = InnerPending | InnerFailed | InnerRead "byte list"
datatype poll = Pending | IoFailed | Tripped limit | Ready "byte list"

definition poll_read :: "guarded \<Rightarrow> inner_poll \<Rightarrow> guarded \<times> poll" where
  "poll_read g inner =
     (case tripped g of
        Some l \<Rightarrow> (g, Tripped l)
      | None \<Rightarrow>
          (case inner of
             InnerPending \<Rightarrow> (g, Pending)
           | InnerFailed \<Rightarrow> (g, IoFailed)
           | InnerRead chunk \<Rightarrow>
               (case feed (lexer_of g) chunk of
                  Inl l \<Rightarrow> (g\<lparr>tripped := Some l\<rparr>, Tripped l)
                | Inr s \<Rightarrow> (g\<lparr>lexer_of := s\<rparr>, Ready chunk))))"

definition admits :: "byte list \<Rightarrow> nat \<Rightarrow> bool" where
  "admits bs at =
     (let k = min at (length bs)
      in case and_then (feed lexer_default (take k bs)) (\<lambda>s. feed s (drop k bs)) of
           Inl _ \<Rightarrow> False | Inr _ \<Rightarrow> True)"

subsection \<open>The byte-wise reading\<close>

text \<open>
  The reference the bulk loop is measured against: one byte at a time, a byte of a literal
  counted on its own.
\<close>

definition lex_byte :: "lexer \<Rightarrow> byte \<Rightarrow> limit + lexer" where
  "lex_byte s b =
     (case line s of
        Data (Literal left) \<Rightarrow>
          and_then (count s 1)
            (\<lambda>s'. Inr (s'\<lparr>line := Data (if left > 1 then Literal (left - 1) else Plain)\<rparr>))
      | _ \<Rightarrow> and_then (count_structured s) (\<lambda>s'. step s' b))"

fun mode_ok :: "mode \<Rightarrow> bool" where
  "mode_ok (SizeOf (Some n)) = (n \<le> u32_max)"
| "mode_ok (SizeCr n) = (n \<le> u32_max)"
| "mode_ok (SizeLf n) = (n \<le> u32_max)"
| "mode_ok (Literal n) = (0 < n \<and> n \<le> u32_max)"
| "mode_ok _ = True"

fun line_ok :: "line \<Rightarrow> bool" where
  "line_ok (Word bs len) = (length bs = WORD_BYTES \<and> len < WORD_BYTES)"
| "line_ok (Data m) = mode_ok m"
| "line_ok _ = True"

definition lexer_ok :: "lexer \<Rightarrow> bool" where
  "lexer_ok s \<longleftrightarrow>
     line_ok (line s) \<and> depth s \<le> MAX_NESTING \<and> bytes s \<le> MAX_RESPONSE_BYTES \<and>
     structured s \<le> MAX_STRUCTURED_BYTES \<and> structured s \<le> bytes s"

lemmas lexer_bounds = MAX_NESTING_def MAX_RESPONSE_BYTES_def MAX_STRUCTURED_BYTES_def WORD_BYTES_def

lemma lexer_ok_default [simp]: "lexer_ok lexer_default"
  by (simp add: lexer_ok_def lexer_default_def)

lemma count_simp:
  "count s n = (if bytes s + n > MAX_RESPONSE_BYTES then Inl Size else Inr (s\<lparr>bytes := bytes s + n\<rparr>))"
  by (auto simp: count_def saturating_add_def Let_def lexer_bounds max_values)

lemma count_structured_simp:
  "count_structured s =
     (if structured s \<ge> MAX_STRUCTURED_BYTES then Inl Structure
      else if bytes s \<ge> MAX_RESPONSE_BYTES then Inl Size
      else Inr (s\<lparr>structured := structured s + 1, bytes := bytes s + 1\<rparr>))"
  by (auto simp: count_structured_def Let_def count_simp)

lemma word_ok: "length bs = WORD_BYTES \<Longrightarrow> len < WORD_BYTES \<Longrightarrow> line_ok (word bs len b)"
  by (auto simp: word_def Let_def)

lemma end_of_line_ok: "lexer_ok s \<Longrightarrow> lexer_ok (end_of_line s b)"
  by (auto simp: end_of_line_def lexer_ok_def lexer_default_def)

lemma text_byte_ok: "lexer_ok s \<Longrightarrow> text_byte s b = Inr s' \<Longrightarrow> lexer_ok s'"
  by (auto simp: text_byte_def Let_def split: if_splits intro!: end_of_line_ok)
    (auto simp: lexer_ok_def)

lemma free_text_ok: "lexer_ok s \<Longrightarrow> free_text s b = Inr s' \<Longrightarrow> lexer_ok s'"
  by (auto simp: free_text_def Let_def lexer_ok_def split: if_splits
      dest!: text_byte_ok [rotated])

lemma enter_ok: "lexer_ok s \<Longrightarrow> mode_ok m \<Longrightarrow> lexer_ok (enter s m)"
  by (simp add: enter_def lexer_ok_def)

lemma size_digit_ok: "mode_ok (size_digit ds b)"
  by (auto simp: size_digit_def checked_add_u32_def split: option.splits bind_splits if_splits)

lemma data_ok:
  "lexer_ok s \<Longrightarrow> mode_ok m \<Longrightarrow> data s m b = Inr s' \<Longrightarrow> lexer_ok s'"
  "lexer_ok s \<Longrightarrow> mode_ok m \<Longrightarrow> again s m b = Inr s' \<Longrightarrow> lexer_ok s'"
proof (induction s m b and s m b rule: data_again.induct)
  case (1 s b)
  then show ?case by (auto split: if_splits intro: enter_ok text_byte_ok)
next
  case (8 s m b)
  then show ?case by (auto simp: lexer_ok_def)
qed (auto split: if_splits option.splits intro: enter_ok end_of_line_ok size_digit_ok)

lemma lexer_ok_set_line: "lexer_ok s \<Longrightarrow> line_ok l \<Longrightarrow> lexer_ok (s\<lparr>line := l\<rparr>)"
  by (simp add: lexer_ok_def)

lemma lexer_ok_line: "lexer_ok s \<Longrightarrow> line_ok (line s)"
  by (simp add: lexer_ok_def)

lemma step_ok:
  assumes "lexer_ok s" "step s b = Inr s'"
  shows "lexer_ok s'"
proof (cases "line s")
  case (Word bs len)
  with assms show ?thesis
    using lexer_ok_line [OF assms(1)] word_ok [of bs len b]
    by (auto simp: step_def intro: free_text_ok lexer_ok_set_line)
next
  case (Data m)
  with assms show ?thesis
    using lexer_ok_line [OF assms(1)] by (auto simp: step_def intro: data_ok(1))
qed (use assms in \<open>auto simp: step_def lexer_bounds intro!: lexer_ok_set_line
        elim!: free_text_ok [rotated] split: if_splits\<close>)

lemma lex_byte_ok:
  assumes "lexer_ok s" "lex_byte s b = Inr s'"
  shows "lexer_ok s'"
proof (cases "\<exists>left. line s = Data (Literal left)")
  case True
  then show ?thesis
    using assms by (auto simp: lex_byte_def count_simp lexer_ok_def split: if_splits)
next
  case False
  then have "and_then (count_structured s) (\<lambda>t. step t b) = Inr s'"
    using assms(2) by (auto simp: lex_byte_def split: line.splits mode.splits)
  then obtain t where t: "count_structured s = Inr t" "step t b = Inr s'"
    by (auto simp: and_then_Inr_eq)
  then have "lexer_ok t"
    using assms(1) by (auto simp: count_structured_simp lexer_ok_def split: if_splits)
  with t(2) show ?thesis by (simp add: step_ok)
qed

subsection \<open>The bulk loop is the byte-wise reading\<close>

lemma lex_literal_run:
  assumes "line s = Data (Literal left)" "n \<le> left" "0 < n" "length xs = n"
  shows "try_fold lex_byte s xs =
     and_then (count s n) (\<lambda>s'. Inr (s'\<lparr>line := Data (if left - n = 0 then Plain else Literal (left - n))\<rparr>))"
  using assms
proof (induction n arbitrary: s left xs)
  case 0
  then show ?case by simp
next
  case (Suc n)
  then obtain x xs' where xs: "xs = x # xs'" "length xs' = n"
    by (cases xs) auto
  show ?case
  proof (cases "n = 0")
    case True
    with Suc.prems xs show ?thesis
      by (auto simp: lex_byte_def count_simp)
  next
    case False
    let ?t = "s\<lparr>bytes := bytes s + 1, line := Data (Literal (left - 1))\<rparr>"
    have IH: "try_fold lex_byte ?t xs' =
        and_then (count ?t n) (\<lambda>s'. Inr (s'\<lparr>line := Data (if left - 1 - n = 0 then Plain else Literal (left - 1 - n))\<rparr>))"
      using Suc.prems False xs by (intro Suc.IH) auto
    from Suc.prems False have "left > 1" by simp
    with Suc.prems have first: "lex_byte s x = and_then (count s 1) (\<lambda>s'. Inr (s'\<lparr>line := Data (Literal (left - 1))\<rparr>))"
      by (simp add: lex_byte_def)
    show ?thesis
      unfolding xs(1) try_fold.simps first using IH by (auto simp: count_simp)
  qed
qed

lemma feed_Nil [simp]: "feed s [] = Inr s"
  by (simp add: feed.simps)

lemma feed_literal:
  assumes "line s = Data (Literal left)" "rest \<noteq> []"
  shows "feed s rest =
     (let n = min left (length rest)
      in and_then (count s n)
           (\<lambda>t. feed (t\<lparr>line := Data (if left - n = 0 then Plain else Literal (left - n))\<rparr>) (drop n rest)))"
  using assms by (cases rest) (simp_all add: feed.simps [of s] Let_def)

lemma feed_other:
  assumes "\<nexists>left. line s = Data (Literal left)"
  shows "feed s (b # tail) = and_then (lex_byte s b) (\<lambda>t. feed t tail)"
  using assms
  by (auto simp: feed.simps [of s "b # tail"] lex_byte_def and_then_assoc
      split: line.splits mode.splits)

lemma feed_is_lex_byte: "lexer_ok s \<Longrightarrow> feed s rest = try_fold lex_byte s rest"
proof (induction rest arbitrary: s rule: length_induct)
  case (1 rest)
  note IH = "1.IH" [rule_format] and ok = "1.prems"
  show ?case
  proof (cases rest)
    case Nil
    then show ?thesis by simp
  next
    case (Cons b tail)
    show ?thesis
    proof (cases "\<exists>left. line s = Data (Literal left)")
      case True
      then obtain left where l: "line s = Data (Literal left)" by blast
      let ?n = "min left (length rest)"
      let ?set = "\<lambda>s'. s'\<lparr>line := Data (if left - ?n = 0 then Plain else Literal (left - ?n))\<rparr>"
      have pos: "0 < left" "left \<le> u32_max"
        using lexer_ok_line [OF ok] l by auto
      have run: "try_fold lex_byte s (take ?n rest) = and_then (count s ?n) (\<lambda>s'. Inr (?set s'))"
        using l pos Cons by (intro lex_literal_run) auto
      have "try_fold lex_byte s rest = try_fold lex_byte s (take ?n rest @ drop ?n rest)"
        by simp
      also have "\<dots> = and_then (count s ?n) (\<lambda>s'. try_fold lex_byte (?set s') (drop ?n rest))"
        by (simp only: try_fold_append run and_then_assoc and_then_Inr)
      also have "\<dots> = and_then (count s ?n) (\<lambda>s'. feed (?set s') (drop ?n rest))"
      proof (cases "count s ?n")
        case (Inr t)
        have "lexer_ok (?set t)"
          using Inr ok pos by (auto simp: count_simp lexer_ok_def split: if_splits)
        then show ?thesis
          using IH [of "drop ?n rest" "?set t"] pos Cons Inr by simp
      qed simp
      also have "\<dots> = feed s rest"
        using feed_literal [OF l, of rest] Cons by (simp add: Let_def)
      finally show ?thesis by simp
    next
      case False
      note bulk = feed_other [OF False, of b tail]
      show ?thesis
      proof (cases "lex_byte s b")
        case (Inl l)
        with bulk Cons show ?thesis by simp
      next
        case (Inr t)
        then have "lexer_ok t" using ok by (rule lex_byte_ok [rotated])
        then have "feed t tail = try_fold lex_byte t tail" using IH Cons by simp
        with bulk Cons Inr show ?thesis by simp
      qed
    qed
  qed
qed

lemma feed_ok: "lexer_ok s \<Longrightarrow> feed s rest = Inr s' \<Longrightarrow> lexer_ok s'"
  by (auto simp: feed_is_lex_byte intro: try_fold_invariant [where P = lexer_ok] lex_byte_ok)

lemma feed_append:
  assumes "lexer_ok s"
  shows "feed s (xs @ ys) = and_then (feed s xs) (\<lambda>t. feed t ys)"
proof (cases "feed s xs")
  case (Inl l)
  then show ?thesis using assms by (simp add: feed_is_lex_byte try_fold_append)
next
  case (Inr t)
  then have "lexer_ok t" using assms by (rule feed_ok [rotated])
  then show ?thesis using assms Inr by (simp add: feed_is_lex_byte try_fold_append)
qed

interpretation guard: incremental_reader feed lexer_ok
  by unfold_locales (auto simp: feed_append intro: feed_ok)

end
