(* ===== verification/Guard_Nesting.thy ===== *)
theory Guard_Nesting
  imports Guard_Lexer
begin

text \<open>
  What the lexer's depth means. The data of an untagged line is a sequence of atoms, quoted
  strings, literals and parenthesised groups (RFC 3501 section 9); \<open>render\<close> writes such a value
  down, \<open>nest\<close> is the number of groups inside one another. The lemmas show that the lexer, in the
  plain mode of a data line, takes a rendered value exactly when its nesting fits below the bound,
  whatever parentheses stand inside its strings and literals.
\<close>

datatype sexp = Atom string | Str string | Lit "byte list" | Group "sexp list"

definition atom_char :: "byte \<Rightarrow> bool" where
  "atom_char c \<longleftrightarrow> c \<notin> {CHR 0x22, CHR ''{'', CHR ''('', CHR '')'', CRb, LFb}"

definition text_char :: "byte \<Rightarrow> bool" where
  "text_char c \<longleftrightarrow> c \<noteq> CRb \<and> c \<noteq> LFb"

definition escape :: "string \<Rightarrow> string" where
  "escape t = concat (map (\<lambda>c. if c = CHR 0x22 \<or> c = CHR 0x5C then [CHR 0x5C, c] else [c]) t)"

fun render :: "sexp \<Rightarrow> byte list" where
  "render (Atom a) = a"
| "render (Str t) = CHR 0x22 # escape t @ [CHR 0x22]"
| "render (Lit bs) = CHR ''{'' # digits (length bs) @ [CHR ''}'', CRb, LFb] @ bs"
| "render (Group es) = CHR ''('' # join_with (CHR '' '') (map render es) @ [CHR '')'']"

fun sexp_ok :: "sexp \<Rightarrow> bool" where
  "sexp_ok (Atom a) = list_all atom_char a"
| "sexp_ok (Str t) = list_all text_char t"
| "sexp_ok (Lit bs) = True"
| "sexp_ok (Group es) = list_all sexp_ok es"

fun nest :: "sexp \<Rightarrow> nat" where
  "nest (Group es) = Suc (foldr max (map nest es) 0)"
| "nest _ = 0"

text \<open>The bytes of a rendered value outside its literals.\<close>

fun outside :: "sexp \<Rightarrow> nat" where
  "outside (Lit bs) = length (digits (length bs)) + 4"
| "outside (Group es) = 2 + sum_list (map outside es) + (length es - 1)"
| "outside e = length (render e)"

definition plain_at :: "lexer \<Rightarrow> bool" where
  "plain_at s \<longleftrightarrow> lexer_ok s \<and> line s = Data Plain \<and> \<not> cr s"

definition moved :: "lexer \<Rightarrow> nat \<Rightarrow> nat \<Rightarrow> lexer" where
  "moved s n m = s\<lparr>structured := structured s + m, bytes := bytes s + n\<rparr>"

definition room :: "lexer \<Rightarrow> nat \<Rightarrow> nat \<Rightarrow> bool" where
  "room s n m \<longleftrightarrow> bytes s + n \<le> MAX_RESPONSE_BYTES \<and> structured s + m \<le> MAX_STRUCTURED_BYTES"

subsection \<open>One byte at a time\<close>

lemma feed_Cons: "lexer_ok s \<Longrightarrow> feed s (b # xs) = and_then (lex_byte s b) (\<lambda>t. feed t xs)"
proof -
  assume ok: "lexer_ok s"
  show ?thesis
  proof (cases "lex_byte s b")
    case (Inl l)
    with ok show ?thesis by (simp add: feed_is_lex_byte)
  next
    case (Inr t)
    with ok have "lexer_ok t" by (simp add: lex_byte_ok)
    with ok Inr show ?thesis by (simp add: feed_is_lex_byte)
  qed
qed

lemma lex_data:
  assumes "line s = Data m" "\<nexists>n. m = Literal n" "room s 1 1"
  shows "lex_byte s b = data (moved s 1 1) m b"
  using assms
  by (cases m)
    (auto simp: lex_byte_def count_structured_simp step_def moved_def room_def
      simp del: data.simps again.simps)

lemma feed_data:
  assumes "lexer_ok s" "line s = Data m" "\<nexists>n. m = Literal n" "room s 1 1"
  shows "feed s (b # xs) = and_then (data (moved s 1 1) m b) (\<lambda>t. feed t xs)"
  using assms by (simp add: feed_Cons lex_data)

lemma moved_moved [simp]: "moved (moved s n m) n' m' = moved s (n + n') (m + m')"
  by (simp add: moved_def)

lemma moved_0 [simp]: "moved s 0 0 = s"
  by (simp add: moved_def)

lemma moved_sel [simp]:
  "line (moved s n m) = line s" "depth (moved s n m) = depth s" "cr (moved s n m) = cr s"
  "bytes (moved s n m) = bytes s + n" "structured (moved s n m) = structured s + m"
  by (simp_all add: moved_def)

lemma moved_upd [simp]:
  "moved (s\<lparr>line := l\<rparr>) n m = (moved s n m)\<lparr>line := l\<rparr>"
  "moved (s\<lparr>depth := d\<rparr>) n m = (moved s n m)\<lparr>depth := d\<rparr>"
  "moved (s\<lparr>cr := c\<rparr>) n m = (moved s n m)\<lparr>cr := c\<rparr>"
  by (simp_all add: moved_def)

lemma moved_ok: "lexer_ok s \<Longrightarrow> room s n m \<Longrightarrow> m \<le> n \<Longrightarrow> lexer_ok (moved s n m)"
  by (simp add: lexer_ok_def room_def moved_def)

lemma room_moved: "room (moved s n m) n' m' \<longleftrightarrow> room s (n + n') (m + m')"
  by (simp add: room_def add.assoc)

lemma room_mono: "room s n m \<Longrightarrow> n' \<le> n \<Longrightarrow> m' \<le> m \<Longrightarrow> room s n' m'"
  by (simp add: room_def)

lemma room_upd [simp]:
  "room (s\<lparr>line := l\<rparr>) n m = room s n m" "room (s\<lparr>depth := d\<rparr>) n m = room s n m"
  "room (s\<lparr>cr := c\<rparr>) n m = room s n m"
  by (simp_all add: room_def)

lemma cr_same: "\<not> cr s \<Longrightarrow> s\<lparr>cr := False\<rparr> = s"
  by (cases s) simp

lemma line_same: "line s = l \<Longrightarrow> s\<lparr>line := l\<rparr> = s"
  by (cases s) simp

lemma depth_same: "depth s = d \<Longrightarrow> s\<lparr>depth := d\<rparr> = s"
  by (cases s) simp

lemma enter_simp: "\<not> cr s \<Longrightarrow> enter s m = s\<lparr>line := Data m\<rparr>"
  by (cases s) (simp add: enter_def)

lemma plain_atD: "plain_at s \<Longrightarrow> lexer_ok s" "plain_at s \<Longrightarrow> line s = Data Plain" "plain_at s \<Longrightarrow> \<not> cr s"
  by (simp_all add: plain_at_def)

lemma plain_at_moved: "plain_at s \<Longrightarrow> room s n m \<Longrightarrow> m \<le> n \<Longrightarrow> plain_at (moved s n m)"
  by (simp add: plain_at_def moved_ok)

lemma plain_at_depth: "plain_at s \<Longrightarrow> d \<le> MAX_NESTING \<Longrightarrow> plain_at (s\<lparr>depth := d\<rparr>)"
  by (simp add: plain_at_def lexer_ok_def)

lemma in_mode_ok: "lexer_ok s \<Longrightarrow> mode_ok m \<Longrightarrow> lexer_ok (s\<lparr>line := Data m\<rparr>)"
  by (simp add: lexer_ok_set_line)

subsection \<open>Atoms, quoted strings, literals\<close>

lemma feed_atom:
  "plain_at s \<Longrightarrow> list_all atom_char a \<Longrightarrow> room s (length a) (length a) \<Longrightarrow>
   feed s a = Inr (moved s (length a) (length a))"
proof (induction a arbitrary: s)
  case Nil
  then show ?case by simp
next
  case (Cons b a)
  have r: "room s 1 1" using Cons.prems(3) by (rule room_mono) auto
  have p: "plain_at (moved s 1 1)" using Cons.prems(1) r by (rule plain_at_moved) simp
  have "data (moved s 1 1) Plain b = Inr (moved s 1 1)"
    using Cons.prems(2) plain_atD(3) [OF p]
    by (simp add: atom_char_def text_byte_def end_of_line_def cr_same)
  moreover have "feed (moved s 1 1) a = Inr (moved (moved s 1 1) (length a) (length a))"
    using Cons.prems p by (intro Cons.IH) (simp_all add: room_moved)
  ultimately show ?case
    using Cons.prems r by (simp add: feed_data plain_at_def)
qed

lemma feed_quoted_text:
  "lexer_ok s \<Longrightarrow> line s = Data Quoted \<Longrightarrow> \<not> cr s \<Longrightarrow> list_all text_char t \<Longrightarrow>
   room s (length (escape t)) (length (escape t)) \<Longrightarrow>
   feed s (escape t) = Inr (moved s (length (escape t)) (length (escape t)))"
proof (induction t arbitrary: s)
  case Nil
  then show ?case by (simp add: escape_def)
next
  case (Cons c t)
  note prems = Cons.prems
  show ?case
  proof (cases "c = CHR 0x22 \<or> c = CHR 0x5C")
    case True
    let ?e = "moved s 1 1\<lparr>line := Data Escaped\<rparr>"
    have esc: "escape (c # t) = CHR 0x5C # c # escape t" using True by (simp add: escape_def)
    have r: "room s 1 1" "room s 2 2" using prems(5) esc by (auto elim!: room_mono)
    have one: "feed s (CHR 0x5C # c # escape t) = feed ?e (c # escape t)"
      using prems r by (simp add: feed_data enter_simp)
    have "feed ?e (c # escape t) = feed (moved s 2 2) (escape t)"
      using prems r True moved_ok [OF prems(1) r(1)]
      by (auto simp: feed_data in_mode_ok room_moved enter_simp line_same numeral_2_eq_2)
    also have "\<dots> = Inr (moved (moved s 2 2) (length (escape t)) (length (escape t)))"
      using prems r esc by (intro Cons.IH) (simp_all add: moved_ok room_moved)
    finally show ?thesis using one esc by simp
  next
    case False
    have esc: "escape (c # t) = c # escape t" using False by (simp add: escape_def)
    have r: "room s 1 1" using prems(5) esc by (auto elim!: room_mono)
    have "feed s (c # escape t) = feed (moved s 1 1) (escape t)"
      using prems r False by (simp add: feed_data end_of_line_def text_char_def cr_same)
    also have "\<dots> = Inr (moved (moved s 1 1) (length (escape t)) (length (escape t)))"
      using prems r esc by (intro Cons.IH) (simp_all add: moved_ok room_moved)
    finally show ?thesis using esc by simp
  qed
qed

lemma feed_string:
  assumes "plain_at s" "list_all text_char t" "room s (length (escape t) + 2) (length (escape t) + 2)"
  shows "feed s (CHR 0x22 # escape t @ [CHR 0x22]) = Inr (moved s (length (escape t) + 2) (length (escape t) + 2))"
proof -
  let ?n = "length (escape t)"
  let ?q = "moved s 1 1\<lparr>line := Data Quoted\<rparr>"
  note s = plain_atD [OF assms(1)]
  have r: "room s 1 1" "room s (1 + ?n) (1 + ?n)" using assms(3) by (auto elim!: room_mono)
  have q: "lexer_ok ?q" using moved_ok [OF s(1) r(1)] by (simp add: in_mode_ok)
  have "feed s (CHR 0x22 # escape t @ [CHR 0x22]) = feed ?q (escape t @ [CHR 0x22])"
    using s r by (simp add: feed_data enter_simp)
  also have "\<dots> = and_then (feed ?q (escape t)) (\<lambda>u. feed u [CHR 0x22])"
    using q by (rule feed_append)
  also have "feed ?q (escape t) = Inr (moved ?q ?n ?n)"
    using q s r assms by (intro feed_quoted_text) (simp_all add: room_moved)
  also have "and_then (Inr (moved ?q ?n ?n)) (\<lambda>u. feed u [CHR 0x22]) = Inr (moved s (?n + 2) (?n + 2))"
    using moved_ok [OF s(1) r(2)] s r assms(3)
    by (simp add: feed_data in_mode_ok room_moved enter_simp line_same)
  finally show ?thesis .
qed

lemma digit_char: "d < 10 \<Longrightarrow> is_ascii_digit (char_of (48 + d)) \<and> code (char_of (48 + d)) - 48 = d"
  by (simp add: is_ascii_digit_def)

lemma size_digit_value:
  "n \<le> u32_max \<Longrightarrow> 10 \<le> n \<Longrightarrow> size_digit (Some (n div 10)) (char_of (48 + n mod 10)) = SizeOf (Some n)"
  using digit_char [of "n mod 10"]
  by (auto simp: size_digit_def checked_mul_u32_def checked_add_u32_def max_values)

lemma feed_size:
  "lexer_ok s \<Longrightarrow> line s = Data (SizeOf None) \<Longrightarrow> \<not> cr s \<Longrightarrow> n \<le> u32_max \<Longrightarrow>
   room s (length (digits n)) (length (digits n)) \<Longrightarrow>
   feed s (digits n) =
     Inr (moved s (length (digits n)) (length (digits n))\<lparr>line := Data (SizeOf (Some n))\<rparr>)"
proof (induction n arbitrary: s rule: digits.induct)
  case (1 n)
  note prems = "1.prems"
  show ?case
  proof (cases "n < 10")
    case True
    with digit_char [of n] have d: "is_ascii_digit (char_of (48 + n))"
        "size_digit None (char_of (48 + n)) = SizeOf (Some n)"
      by (auto simp: size_digit_def checked_mul_u32_def checked_add_u32_def max_values)
    have one: "digits n = [char_of (48 + n)]" using True by (simp add: digits.simps)
    with prems d show ?thesis by (simp add: feed_data enter_simp)
  next
    case False
    let ?m = "length (digits (n div 10))"
    let ?t = "moved s ?m ?m\<lparr>line := Data (SizeOf (Some (n div 10)))\<rparr>"
    let ?d = "char_of (48 + n mod 10) :: byte"
    have ds: "digits n = digits (n div 10) @ [?d]" using False by (simp add: digits.simps [of n])
    have r: "room s ?m ?m" "room s (?m + 1) (?m + 1)" using prems(5) ds by (auto elim!: room_mono)
    have "n div 10 \<le> u32_max" using prems(4) by simp
    with "1.IH" [OF False, of s] prems r have IH: "feed s (digits (n div 10)) = Inr ?t" by simp
    have "lexer_ok ?t"
      using prems r(1) \<open>n div 10 \<le> u32_max\<close> by (simp add: in_mode_ok moved_ok)
    moreover have "is_ascii_digit ?d" using digit_char [of "n mod 10"] by simp
    moreover have "size_digit (Some (n div 10)) ?d = SizeOf (Some n)"
      using False prems(4) by (intro size_digit_value) simp_all
    ultimately have "feed ?t [?d] = Inr (moved s (?m + 1) (?m + 1)\<lparr>line := Data (SizeOf (Some n))\<rparr>)"
      using prems r by (simp add: feed_data room_moved enter_simp)
    with IH prems(1) show ?thesis by (simp add: ds feed_append)
  qed
qed

lemma feed_literal_body:
  assumes "lexer_ok s" "line s = Data (Literal (length bs))" "bs \<noteq> []" "room s (length bs) 0"
  shows "feed s bs = Inr (moved s (length bs) 0\<lparr>line := Data Plain\<rparr>)"
  using assms feed_literal [OF assms(2,3)] by (simp add: count_simp room_def moved_def)

lemma feed_literal_value:
  assumes "plain_at s" "room s (length (digits (length bs)) + 4 + length bs) (length (digits (length bs)) + 4)"
  shows "feed s (CHR ''{'' # digits (length bs) @ [CHR ''}'', CRb, LFb] @ bs) =
     Inr (moved s (length (digits (length bs)) + 4 + length bs) (length (digits (length bs)) + 4))"
proof -
  let ?n = "length bs" and ?d = "length (digits (length bs))"
  let ?a = "moved s 1 1\<lparr>line := Data (SizeOf None)\<rparr>"
  let ?b = "moved s (1 + ?d) (1 + ?d)\<lparr>line := Data (SizeOf (Some ?n))\<rparr>"
  let ?c = "moved s (4 + ?d) (4 + ?d)\<lparr>line := Data (if ?n = 0 then Plain else Literal ?n)\<rparr>"
  note s = plain_atD [OF assms(1)]
  have r: "room s 1 1" "room s (1 + ?d) (1 + ?d)" "room s (2 + ?d) (2 + ?d)" "room s (3 + ?d) (3 + ?d)"
      "room s (4 + ?d) (4 + ?d)"
    using assms(2) by (auto elim!: room_mono)
  have n: "?n \<le> u32_max" using assms(2) by (simp add: room_def lexer_bounds max_values)
  have a: "lexer_ok ?a" using moved_ok [OF s(1) r(1)] by (simp add: in_mode_ok)
  have b: "lexer_ok ?b" using moved_ok [OF s(1) r(2)] n by (simp add: in_mode_ok)
  have c: "lexer_ok ?c" using moved_ok [OF s(1) r(5)] n by (simp add: in_mode_ok)
  have first: "feed s (CHR ''{'' # xs) = feed ?a xs" for xs
    using s r by (simp add: feed_data enter_simp)
  have size: "feed ?a (digits ?n) = Inr ?b"
    using feed_size [OF a, of ?n] s r n by (simp add: room_moved)
  have close: "feed ?b [CHR ''}'', CRb, LFb] = Inr ?c"
  proof -
    have "feed ?b [CHR ''}'', CRb, LFb] = feed (moved s (2 + ?d) (2 + ?d)\<lparr>line := Data (SizeCr ?n)\<rparr>) [CRb, LFb]"
      using s r b by (simp add: feed_data room_moved enter_simp is_ascii_digit_def)
    also have "\<dots> = feed (moved s (3 + ?d) (3 + ?d)\<lparr>line := Data (SizeLf ?n)\<rparr>) [LFb]"
      using s r moved_ok [OF s(1) r(3)] n
      by (simp add: feed_data room_moved enter_simp in_mode_ok numeral_eq_Suc)
    also have "\<dots> = Inr ?c"
      using s r moved_ok [OF s(1) r(4)] n
      by (simp add: feed_data room_moved enter_simp in_mode_ok numeral_eq_Suc)
    finally show ?thesis .
  qed
  have body: "feed ?c bs = Inr (moved s (?d + 4 + ?n) (?d + 4))"
  proof (cases "bs = []")
    case True
    then show ?thesis using s by (simp add: line_same add.commute)
  next
    case False
    have "room ?c ?n 0" using assms(2) by (simp add: room_def ac_simps)
    then show ?thesis
      using feed_literal_body [OF c, of bs] False s by (simp add: line_same add.commute)
  qed
  have "feed s (CHR ''{'' # digits ?n @ [CHR ''}'', CRb, LFb] @ bs) =
      and_then (feed ?a (digits ?n)) (\<lambda>u. and_then (feed u [CHR ''}'', CRb, LFb]) (\<lambda>v. feed v bs))"
    unfolding first by (simp only: feed_append [OF a] size and_then_Inr feed_append [OF b])
  then show ?thesis by (simp only: size close body and_then_Inr)
qed

subsection \<open>Groups\<close>

definition judged :: "lexer \<Rightarrow> nat \<Rightarrow> nat \<Rightarrow> nat \<Rightarrow> limit + lexer" where
  "judged s d n m = (if depth s + d \<le> MAX_NESTING then Inr (moved s n m) else Inl Nesting)"

lemma outside_le: "outside e \<le> length (render e)"
proof (induction e)
  case (Group es)
  have "sum_list (map outside es) + (length es - 1) \<le> length (join_with (CHR '' '') (map render es))"
    using Group.IH
  proof (induction es)
    case (Cons e es)
    have "outside e \<le> length (render e)" by (rule Cons.prems) simp
    moreover have "sum_list (map outside es) + (length es - 1) \<le> length (join_with (CHR '' '') (map render es))"
      by (rule Cons.IH) (simp add: Cons.prems)
    ultimately show ?case by (cases es) auto
  qed simp
  then show ?case by simp
qed auto

lemma outside_joined_le:
  "sum_list (map outside es) + (length es - 1) \<le> length (join_with (CHR '' '') (map render es))"
proof (induction es)
  case (Cons e es)
  then show ?case using outside_le [of e] by (cases es) auto
qed simp

lemma feed_joined:
  assumes each: "\<And>e s. e \<in> set es \<Longrightarrow> plain_at s \<Longrightarrow> sexp_ok e \<Longrightarrow>
      room s (length (render e)) (outside e) \<Longrightarrow>
      feed s (render e) = judged s (nest e) (length (render e)) (outside e)"
    and "plain_at s" "list_all sexp_ok es"
    and "room s (length (join_with (CHR '' '') (map render es))) (sum_list (map outside es) + (length es - 1))"
  shows "feed s (join_with (CHR '' '') (map render es)) =
    judged s (foldr max (map nest es) 0) (length (join_with (CHR '' '') (map render es)))
      (sum_list (map outside es) + (length es - 1))"
  using assms
proof (induction es arbitrary: s)
  case Nil
  then show ?case using lexer_ok_def plain_at_def by (simp add: judged_def)
next
  case (Cons e es)
  let ?n = "length (render e)"
  have ok: "lexer_ok s" using Cons.prems(2) by (rule plain_atD)
  have r: "room s ?n (outside e)"
    using Cons.prems(4) by (rule room_mono) (cases es; simp)+
  have head: "feed s (render e) = judged s (nest e) ?n (outside e)"
    using Cons.prems r by (intro Cons.prems(1)) simp_all
  show ?case
  proof (cases es)
    case Nil
    with head show ?thesis by simp
  next
    case (Cons e' es')
    let ?rest = "join_with (CHR '' '') (map render es)"
    let ?t = "moved s ?n (outside e)"
    have shape: "join_with (CHR '' '') (map render (e # es)) = render e @ CHR '' '' # ?rest"
      using Cons by simp
    show ?thesis
    proof (cases "depth s + nest e \<le> MAX_NESTING")
      case False
      then have "feed s (render e) = Inl Nesting" using head by (simp add: judged_def)
      then have "feed s (render e @ CHR '' '' # ?rest) = Inl Nesting"
        using ok by (simp add: feed_append)
      then show ?thesis using False shape by (simp add: judged_def)
    next
      case True
      have big: "room s (?n + 1 + length ?rest) (outside e + 1 + (sum_list (map outside es) + (length es - 1)))"
        using Cons.prems(4) Cons by (simp add: ac_simps)
      have t: "plain_at ?t" using Cons.prems(2) r outside_le by (rule plain_at_moved)
      have r1: "room ?t 1 1" using big by (simp add: room_moved) (erule room_mono, simp_all)
      let ?u = "moved ?t 1 1"
      have u: "plain_at ?u" using t r1 by (rule plain_at_moved) simp
      have gap: "feed ?t (CHR '' '' # ?rest) = feed ?u ?rest"
        using feed_append [OF plain_atD(1) [OF t], of "[CHR '' '']" ?rest]
          feed_atom [OF t, of "[CHR '' '']"] r1 by (simp add: atom_char_def)
      have tail: "feed ?u ?rest = judged ?u (foldr max (map nest es) 0) (length ?rest)
          (sum_list (map outside es) + (length es - 1))"
        using Cons.prems(1,3) u big by (intro Cons.IH) (simp_all add: room_moved)
      have "feed s (render e @ CHR '' '' # ?rest) = feed ?u ?rest"
        using feed_append [OF ok, of "render e"] head True gap by (simp add: judged_def)
      with tail shape True Cons show ?thesis by (auto simp: judged_def ac_simps)
    qed
  qed
qed

lemma feed_render:
  "plain_at s \<Longrightarrow> sexp_ok e \<Longrightarrow> room s (length (render e)) (outside e) \<Longrightarrow>
   feed s (render e) = judged s (nest e) (length (render e)) (outside e)"
proof (induction e arbitrary: s)
  case (Atom a)
  then show ?case using feed_atom [of s a] plain_atD(1) [OF Atom.prems(1)]
    by (simp add: judged_def lexer_ok_def)
next
  case (Str t)
  then show ?case using feed_string [of s t] plain_atD(1) [OF Str.prems(1)]
    by (simp add: judged_def lexer_ok_def)
next
  case (Lit bs)
  have len: "length (render (Lit bs)) = length (digits (length bs)) + 4 + length bs" by simp
  have "feed s (render (Lit bs)) = Inr (moved s (length (render (Lit bs))) (outside (Lit bs)))"
    using Lit.prems feed_literal_value [of s bs] unfolding len by simp
  then show ?case
    using plain_atD(1) [OF Lit.prems(1)] by (simp add: judged_def lexer_ok_def)
next
  case (Group es)
  let ?j = "join_with (CHR '' '') (map render es)"
  let ?m = "sum_list (map outside es) + (length es - 1)"
  note s = plain_atD [OF Group.prems(1)]
  have r: "room s 1 1" "room s (1 + length ?j) (1 + ?m)" "room s (2 + length ?j) (2 + ?m)"
    using Group.prems(3) by (auto elim!: room_mono)
  let ?o = "moved s 1 1\<lparr>depth := depth s + 1\<rparr>"
  have opens: "feed s (CHR ''('' # xs) = (if depth s + 1 \<le> MAX_NESTING then feed ?o xs else Inl Nesting)" for xs
    using s r by (auto simp: feed_data text_byte_def end_of_line_def cr_same Let_def)
  show ?case
  proof (cases "depth s + 1 \<le> MAX_NESTING")
    case False
    then show ?thesis by (simp add: opens judged_def)
  next
    case True
    have o: "plain_at ?o"
      using Group.prems(1) r True by (simp add: plain_at_depth plain_at_moved)
    have inner: "feed ?o ?j = judged ?o (foldr max (map nest es) 0) (length ?j) ?m"
    proof (rule feed_joined [OF Group.IH o])
      show "list_all sexp_ok es" "room ?o (length ?j) ?m" using Group.prems r by (simp_all add: room_moved)
    qed simp_all
    have all: "feed s (render (Group es)) = and_then (feed ?o ?j) (\<lambda>u. feed u [CHR '')''])"
      using True feed_append [OF plain_atD(1) [OF o], of ?j] by (simp add: opens)
    show ?thesis
    proof (cases "depth ?o + foldr max (map nest es) 0 \<le> MAX_NESTING")
      case False
      then show ?thesis using all inner by (simp add: judged_def)
    next
      case True
      let ?u = "moved ?o (length ?j) ?m"
      have u: "plain_at ?u" using o r(2) outside_joined_le by (intro plain_at_moved) (simp_all add: room_moved)
      have "feed ?u [CHR '')''] = Inr (moved s (length ?j + 2) (?m + 2))"
        using plain_atD [OF u] s r
        by (simp add: feed_data room_moved text_byte_def end_of_line_def cr_same depth_same)
      then show ?thesis using all inner True by (simp add: judged_def ac_simps)
    qed
  qed
qed

end
