(* ===== verification/Guard_Reader.thy ===== *)
theory Guard_Reader
  imports Guard_Nesting
begin

text \<open>
  The guarded reader over a whole connection, and the properties of the guard: the verdict does
  not depend on how the network cuts the stream into reads, the client library only ever sees
  bytes the lexer took, the counters stay below their bounds, the depth is the nesting of the data
  and a size marker in free text ends the connection.
\<close>

fun guarded_run :: "guarded \<Rightarrow> inner_poll list \<Rightarrow> guarded \<times> poll list" where
  "guarded_run g [] = (g, [])"
| "guarded_run g (p # ps) =
     (let (g', out) = poll_read g p; (g'', outs) = guarded_run g' ps in (g'', out # outs))"

fun received :: "inner_poll list \<Rightarrow> byte list" where
  "received [] = []"
| "received (InnerRead chunk # ps) = chunk @ received ps"
| "received (_ # ps) = received ps"

fun delivered :: "poll list \<Rightarrow> byte list" where
  "delivered [] = []"
| "delivered (Ready chunk # ps) = chunk @ delivered ps"
| "delivered (_ # ps) = delivered ps"

text \<open>What a reader that keeps the verdict of the whole stream answers.\<close>

definition verdict :: "lexer \<Rightarrow> byte list \<Rightarrow> guarded \<Rightarrow> byte list \<Rightarrow> bool" where
  "verdict s stream g handed \<longleftrightarrow>
     (case feed s stream of
        Inr t \<Rightarrow> tripped g = None \<and> lexer_of g = t \<and> handed = stream
      | Inl l \<Rightarrow> tripped g = Some l \<and> prefix handed stream \<and> feed s handed = Inr (lexer_of g))"

lemma tripped_run: "tripped g = Some l \<Longrightarrow> fst (guarded_run g ps) = g \<and> delivered (snd (guarded_run g ps)) = []"
  by (induction ps) (auto simp: poll_read_def split: prod.splits)

lemma guarded_run_verdict:
  "lexer_ok (lexer_of g) \<Longrightarrow> tripped g = None \<Longrightarrow>
   verdict (lexer_of g) (received ps) (fst (guarded_run g ps)) (delivered (snd (guarded_run g ps)))"
proof (induction ps arbitrary: g)
  case Nil
  then show ?case by (simp add: verdict_def)
next
  case (Cons p ps)
  show ?case
  proof (cases p)
    case (InnerRead chunk)
    show ?thesis
    proof (cases "feed (lexer_of g) chunk")
      case (Inl l)
      then have "poll_read g p = (g\<lparr>tripped := Some l\<rparr>, Tripped l)"
        using InnerRead Cons.prems by (simp add: poll_read_def)
      moreover have "feed (lexer_of g) (received (p # ps)) = Inl l"
        using InnerRead Inl Cons.prems by (simp add: guard.feed_failed)
      ultimately show ?thesis
        using tripped_run [of "g\<lparr>tripped := Some l\<rparr>" l ps] by (auto simp: verdict_def split: prod.splits)
    next
      case (Inr t)
      let ?g = "g\<lparr>lexer_of := t\<rparr>"
      have step: "poll_read g p = (?g, Ready chunk)"
        using InnerRead Inr Cons.prems by (simp add: poll_read_def)
      have "lexer_ok t" using Cons.prems(1) Inr by (rule feed_ok)
      then have IH: "verdict t (received ps) (fst (guarded_run ?g ps)) (delivered (snd (guarded_run ?g ps)))"
        using Cons.IH [of ?g] Cons.prems by simp
      have "feed (lexer_of g) (chunk @ xs) = feed t xs" for xs
        using Inr Cons.prems by (simp add: feed_append)
      with IH step InnerRead show ?thesis
        by (auto simp: verdict_def split: prod.splits sum.splits)
    qed
  qed (use Cons.IH [OF Cons.prems] Cons.prems in \<open>auto simp: poll_read_def split: prod.splits\<close>)
qed

text \<open>
  C14: however the network cuts the stream into reads, and wherever it pauses or fails, the guard
  ends in the state the lexer reaches on the whole stream: while the lexer takes the stream, every
  byte is handed on; once a bound is passed the reader stays tripped with that bound, and what it
  handed on is a prefix of the stream that the lexer takes.
\<close>

theorem guard_verdict_of_stream:
  "verdict lexer_default (received ps) (fst (guarded_run guarded_new ps))
     (delivered (snd (guarded_run guarded_new ps)))"
  using guarded_run_verdict [of guarded_new ps] by (simp add: guarded_new_def)

text \<open>
  C36: whatever bytes a server sends, as long as the lexer takes them it stands at most
  \<open>MAX_NESTING\<close> levels deep, has counted at most \<open>MAX_RESPONSE_BYTES\<close> bytes and at most
  \<open>MAX_STRUCTURED_BYTES\<close> of them outside literals, keeps every literal size in 32 bits and writes
  the word array inside its bounds.
\<close>

theorem lexer_within_bounds:
  assumes "feed lexer_default stream = Inr s"
  shows "depth s \<le> MAX_NESTING \<and> bytes s \<le> MAX_RESPONSE_BYTES \<and>
    structured s \<le> MAX_STRUCTURED_BYTES \<and> structured s \<le> bytes s \<and> line_ok (line s)"
  using feed_ok [OF lexer_ok_default assms] by (simp add: lexer_ok_def)

lemmas lexer_eval = lex_byte_def count_structured_simp count_simp step_def free_text_def text_byte_def
  end_of_line_def marker_after_def word_def enter_def size_digit_def checked_mul_u32_def checked_add_u32_def
  is_ascii_digit_def is_ascii_lower_def to_upper_byte_def STATUS_WORDS_def starts_with_def lexer_default_def
  lexer_bounds max_values Let_def

lemma word_array: "replicate 7 (CHR 0x00) = CHR 0x00 # replicate 6 (CHR 0x00)"
  by (simp add: numeral_eq_Suc)

theorem lexer_within_bounds_witness:
  "\<exists>s. feed lexer_default ''* X (a {3}'' = Inr s \<and> line s = Data (SizeCr 3) \<and> depth s = 1 \<and>
     depth s \<le> MAX_NESTING \<and> line_ok (line s)"
proof -
  let ?s = "\<lparr>line = Data (SizeCr 3), depth = 1, bytes = 10, structured = 10, cr = False, marker = Absent\<rparr>"
  have "feed lexer_default ''* X (a {3}'' = Inr ?s"
    unfolding feed_is_lex_byte [OF lexer_ok_default]
    by (simp add: lexer_eval word_array)
  from lexer_within_bounds [OF this] this show ?thesis by (intro exI [of _ ?s]) auto
qed

text \<open>
  C21: on a data line the guard judges the nesting and nothing else. A value written down with its
  strings escaped and its literals sized, followed by the end of the line, resets the lexer when
  its nesting on top of the open levels stays within \<open>MAX_NESTING\<close> and fails with \<open>Nesting\<close>
  otherwise; parentheses, quotes and line ends inside strings and literals never count.
\<close>

theorem guard_judges_nesting:
  assumes "plain_at s" "sexp_ok e" "room s (length (render e) + 2) (outside e + 2)"
  shows "feed s (render e @ [CRb, LFb]) =
    (if depth s + nest e \<le> MAX_NESTING then Inr lexer_default else Inl Nesting)"
proof -
  note s = plain_atD [OF assms(1)]
  have r: "room s (length (render e)) (outside e)" using assms(3) by (rule room_mono) simp_all
  have v: "feed s (render e) = judged s (nest e) (length (render e)) (outside e)"
    using assms r by (intro feed_render)
  let ?t = "moved s (length (render e)) (outside e)"
  have t: "plain_at ?t" using assms(1) r outside_le by (rule plain_at_moved)
  have "feed ?t [CRb, LFb] = Inr lexer_default"
  proof -
    have r1: "room ?t 1 1" "room ?t 2 2" using assms(3) by (auto simp: room_moved elim!: room_mono)
    have ok: "lexer_ok (moved ?t 1 1\<lparr>cr := True\<rparr>)"
      using moved_ok [OF plain_atD(1) [OF t] r1(1)] by (simp add: lexer_ok_def)
    have "feed ?t [CRb, LFb] = feed (moved ?t 1 1\<lparr>cr := True\<rparr>) [LFb]"
      using plain_atD [OF t] r1 by (simp add: feed_data text_byte_def end_of_line_def)
    also have "\<dots> = Inr lexer_default"
      using plain_atD [OF t] r1 ok
      by (simp add: feed_data room_moved text_byte_def end_of_line_def numeral_2_eq_2)
    finally show ?thesis .
  qed
  with v s show ?thesis by (simp add: feed_append judged_def)
qed

definition witness_value :: sexp where
  "witness_value = Group [Atom ''NIL'', Str ''a)(b'', Lit ''((('', Group []]"

theorem guard_judges_nesting_witness:
  "feed (lexer_default\<lparr>line := Data Plain, depth := 30\<rparr>) (render witness_value @ [CRb, LFb]) = Inr lexer_default
   \<and> feed (lexer_default\<lparr>line := Data Plain, depth := 31\<rparr>) (render witness_value @ [CRb, LFb]) = Inl Nesting"
proof -
  have d: "digits (Suc (Suc (Suc 0))) = ''3''" by code_simp
  have p: "plain_at (lexer_default\<lparr>line := Data Plain, depth := 30\<rparr>)" "plain_at (lexer_default\<lparr>line := Data Plain, depth := 31\<rparr>)"
    by (simp_all add: plain_at_def lexer_ok_def lexer_default_def lexer_bounds)
  have ok: "sexp_ok witness_value" by code_simp
  have n: "nest witness_value = 2" by code_simp
  have r: "room (lexer_default\<lparr>line := Data Plain, depth := k\<rparr>) (length (render witness_value) + 2) (outside witness_value + 2)" for k
    by (simp add: room_def lexer_default_def witness_value_def escape_def d lexer_bounds)
  from guard_judges_nesting [OF p(1) ok r] guard_judges_nesting [OF p(2) ok r] show ?thesis
    by (simp add: n lexer_bounds)
qed

text \<open>A size marker passes through the markers of free text.\<close>

lemma feed_text_byte:
  assumes "lexer_ok s" "line s = Text" "room s 1 1" "b \<notin> {CHR ''('', CHR '')'', LFb}"
    and "marker_after (marker s) b \<noteq> Complete"
  shows "feed s (b # xs) = feed (moved s 1 1\<lparr>marker := marker_after (marker s) b, cr := (b = CRb)\<rparr>) xs"
  using assms
  by (simp add: feed_Cons lex_byte_def count_structured_simp room_def step_def free_text_def
      text_byte_def end_of_line_def moved_def Let_def)

lemma digit_not_special:
  "is_ascii_digit d \<Longrightarrow> d \<notin> {CHR ''('', CHR '')'', LFb} \<and> d \<noteq> CHR ''{'' \<and> d \<noteq> CRb"
  by (auto simp: is_ascii_digit_def)

lemma feed_text_digits:
  "lexer_ok s \<Longrightarrow> line s = Text \<Longrightarrow> marker s = Open \<or> marker s = Digits \<Longrightarrow>
   list_all is_ascii_digit ds \<Longrightarrow> ds \<noteq> [] \<Longrightarrow> room s (length ds) (length ds) \<Longrightarrow>
   feed s (ds @ xs) = feed (moved s (length ds) (length ds)\<lparr>marker := Digits, cr := False\<rparr>) xs"
proof (induction ds arbitrary: s)
  case Nil
  then show ?case by simp
next
  case (Cons d ds)
  let ?t = "moved s 1 1\<lparr>marker := Digits, cr := False\<rparr>"
  have r: "room s 1 1" using Cons.prems(6) by (rule room_mono) auto
  have m: "marker_after (marker s) d = Digits"
    using Cons.prems digit_not_special [of d] by (auto simp: marker_after_def)
  have one: "feed s (d # ds @ xs) = feed ?t (ds @ xs)"
    using feed_text_byte [OF Cons.prems(1,2) r, of d] Cons.prems(4) digit_not_special [of d] m by simp
  show ?case
  proof (cases "ds = []")
    case True
    with one show ?thesis by simp
  next
    case False
    have "lexer_ok ?t" using moved_ok [OF Cons.prems(1) r] by (simp add: lexer_ok_def)
    with Cons.prems False have "feed ?t (ds @ xs) =
        feed (moved ?t (length ds) (length ds)\<lparr>marker := Digits, cr := False\<rparr>) xs"
      by (intro Cons.IH) (simp_all add: room_def)
    with one show ?thesis by (simp add: moved_def)
  qed
qed

text \<open>
  On a status line, a tagged line or a continuation the size marker of a literal, an open
  brace, digits, a closing brace and the line end, fails the read, so the parser never starts a
  literal the lexer does not follow.
\<close>

theorem literal_in_free_text_fails:
  assumes "lexer_ok s" "line s = Text" "list_all is_ascii_digit ds" "ds \<noteq> []"
    and "room s (length ds + 4) (length ds + 4)"
  shows "feed s (CHR ''{'' # ds @ CHR ''}'' # CRb # LFb # rest) = Inl LiteralInText"
proof -
  let ?n = "length ds"
  let ?at = "\<lambda>n m c. moved s n n\<lparr>marker := m, cr := c\<rparr>"
  have r: "room s n n" if "n \<le> ?n + 4" for n using assms(5) by (rule room_mono) (use that in simp_all)
  have ok: "lexer_ok (?at n m c)" if "n \<le> ?n + 4" for m c n
    using moved_ok [OF assms(1) r [OF that]] by (simp add: lexer_ok_def)
  have "feed s (CHR ''{'' # ds @ CHR ''}'' # CRb # LFb # rest) =
      feed (?at 1 Open False) (ds @ CHR ''}'' # CRb # LFb # rest)"
    using feed_text_byte [of s "CHR ''{''"] assms r [of 1] by (simp add: marker_after_def)
  also have "\<dots> = feed (?at (1 + ?n) Digits False) (CHR ''}'' # CRb # LFb # rest)"
    using feed_text_digits [of "?at 1 Open False" ds] ok [of 1] assms(2-4) r [of "1 + ?n"]
    by (simp add: room_def moved_def)
  also have "\<dots> = feed (?at (2 + ?n) Closed False) (CRb # LFb # rest)"
    using feed_text_byte [of "?at (1 + ?n) Digits False" "CHR ''}''"] ok [of "1 + ?n"] assms(2) r [of "2 + ?n"]
    by (simp add: room_def moved_def marker_after_def is_ascii_digit_def)
  also have "\<dots> = feed (?at (3 + ?n) MarkerCr True) (LFb # rest)"
    using feed_text_byte [of "?at (2 + ?n) Closed False" CRb] ok [of "2 + ?n"] assms(2) r [of "3 + ?n"]
    by (simp add: room_def moved_def marker_after_def is_ascii_digit_def numeral_3_eq_3 numeral_2_eq_2)
  also have "\<dots> = Inl LiteralInText"
    using ok [of "3 + ?n"] assms(2) r [of "4 + ?n"]
    by (simp add: feed_Cons lex_byte_def count_structured_simp room_def moved_def step_def
        free_text_def marker_after_def is_ascii_digit_def numeral_3_eq_3 numeral_eq_Suc)
  finally show ?thesis .
qed

theorem literal_in_free_text_fails_witness:
  "feed (lexer_default\<lparr>line := Text\<rparr>) (CHR ''{'' # ''12'' @ CHR ''}'' # CRb # LFb # ''x'') = Inl LiteralInText"
  by (rule literal_in_free_text_fails)
    (simp_all add: lexer_ok_def lexer_default_def room_def lexer_bounds is_ascii_digit_def)

end
