(* ===== verification/Ordered_Map.thy ===== *)
theory Ordered_Map
  imports Bridge_Prelude "HOL-Library.Product_Lexorder"
begin

text \<open>
  The maps the sources keep in order of their keys (\<open>BTreeMap\<close>): a list of pairs with strictly
  rising keys, with \<open>get\<close>, \<open>insert\<close>, \<open>remove\<close> and the entries in key order. The locale states
  what a client relies on and holds the lemma both ledgers of changes use: a map built by moving
  the entry of one key per event holds, for each key, what that key's own events make of it.
\<close>

type_synonym ('k, 'v) bt = "('k \<times> 'v) list"

abbreviation bt_get :: "('k, 'v) bt \<Rightarrow> 'k \<Rightarrow> 'v option" where "bt_get \<equiv> map_of"

fun bt_insert :: "'k::linorder \<Rightarrow> 'v \<Rightarrow> ('k, 'v) bt \<Rightarrow> ('k, 'v) bt" where
  "bt_insert k v [] = [(k, v)]"
| "bt_insert k v ((a, b) # m) =
     (if k < a then (k, v) # (a, b) # m else if k = a then (k, v) # m else (a, b) # bt_insert k v m)"

definition bt_remove :: "'k \<Rightarrow> ('k, 'v) bt \<Rightarrow> ('k, 'v) bt" where
  "bt_remove k m = filter (\<lambda>e. fst e \<noteq> k) m"

definition bt_ok :: "('k::linorder, 'v) bt \<Rightarrow> bool" where
  "bt_ok m \<longleftrightarrow> sorted_wrt (<) (map fst m)"

locale keyed_map =
  fixes get :: "'m \<Rightarrow> 'k \<Rightarrow> 'v option"
    and put :: "'k \<Rightarrow> 'v \<Rightarrow> 'm \<Rightarrow> 'm"
    and remove :: "'k \<Rightarrow> 'm \<Rightarrow> 'm"
    and entries :: "'m \<Rightarrow> ('k \<times> 'v) list"
    and ok :: "'m \<Rightarrow> bool"
  assumes get_put: "get (put k v m) = (get m)(k \<mapsto> v)"
    and get_remove: "get (remove k m) = (get m)(k := None)"
    and ok_put: "ok m \<Longrightarrow> ok (put k v m)"
    and ok_remove: "ok m \<Longrightarrow> ok (remove k m)"
    and entries_get: "ok m \<Longrightarrow> (k, v) \<in> set (entries m) \<longleftrightarrow> get m k = Some v"
begin

definition put_or_remove :: "'k \<Rightarrow> 'v option \<Rightarrow> 'm \<Rightarrow> 'm" where
  "put_or_remove k v m = (case v of None \<Rightarrow> remove k m | Some x \<Rightarrow> put k x m)"

lemma get_put_or_remove: "get (put_or_remove k v m) = (get m)(k := v)"
  by (simp add: put_or_remove_def get_put get_remove split: option.split)

lemma ok_put_or_remove: "ok m \<Longrightarrow> ok (put_or_remove k v m)"
  by (simp add: put_or_remove_def ok_put ok_remove split: option.split)

lemma get_events:
  assumes step: "\<And>m e. move m e = put_or_remove (key e) (upd (get m (key e)) e) m"
  shows "get (foldl move m es) k = foldl upd (get m k) (filter (\<lambda>e. key e = k) es)"
  by (induction es arbitrary: m) (auto simp: step get_put_or_remove)

lemma ok_events:
  assumes "\<And>m e. move m e = put_or_remove (key e) (upd (get m (key e)) e) m" "ok m"
  shows "ok (foldl move m es)"
  using assms(2) by (induction es arbitrary: m) (auto simp: assms(1) ok_put_or_remove)

end

lemma map_of_filter_neq: "map_of (filter (\<lambda>e. fst e \<noteq> k) m) = (map_of m)(k := None)"
  by (induction m) auto

lemma bt_get_insert: "map_of (bt_insert k v m) = (map_of m)(k \<mapsto> v)"
  by (induction k v m rule: bt_insert.induct) auto

lemma bt_insert_keys: "fst ` set (bt_insert k v m) = insert k (fst ` set m)"
  by (induction k v m rule: bt_insert.induct) auto

lemma bt_ok_Nil [simp]: "bt_ok []"
  by (simp add: bt_ok_def)

lemma bt_ok_insert: "bt_ok m \<Longrightarrow> bt_ok (bt_insert k v m)"
proof (induction k v m rule: bt_insert.induct)
  case (2 k v a b m)
  from 2 have "\<forall>x \<in> fst ` set m. a < x" by (auto simp: bt_ok_def)
  then have "\<not> k < a \<Longrightarrow> k \<noteq> a \<Longrightarrow> \<forall>x \<in> fst ` set (bt_insert k v m). a < x"
    by (simp add: bt_insert_keys)
  with 2 show ?case by (auto simp: bt_ok_def)
qed (simp add: bt_ok_def)

lemma bt_ok_filter: "bt_ok m \<Longrightarrow> bt_ok (filter P m)"
  by (induction m) (auto simp: bt_ok_def)

lemma bt_ok_distinct: "bt_ok m \<Longrightarrow> distinct (map fst m)"
  unfolding bt_ok_def by (simp add: strict_sorted_iff)

lemma bt_entries: "bt_ok m \<Longrightarrow> (k, v) \<in> set m \<longleftrightarrow> map_of m k = Some v"
  using map_of_eq_Some_iff [OF bt_ok_distinct] by fastforce

interpretation btree: keyed_map map_of "bt_insert :: 'k::linorder \<Rightarrow> 'v \<Rightarrow> _" bt_remove "\<lambda>m. m" bt_ok
  by unfold_locales
    (auto simp: bt_get_insert bt_remove_def map_of_filter_neq bt_ok_insert bt_ok_filter bt_entries)

end
