(* ===== verification/Change_Log.thy ===== *)
theory Change_Log
  imports Ordered_Map
begin

text \<open>
  The per-account state counter, the change log and the ledger of one write
  (\<open>store/changes.rs\<close>, \<open>store/ledger.rs\<close>, the closing of a write in \<open>store/refresh.rs\<close> and
  \<open>store/previews.rs\<close>). The two tables \<open>bridge_state\<close> and \<open>bridge_changes\<close> are a record; each
  SQL statement is one function over it, with the account key in every filter as the statement has
  it and the primary key of the log as the one failure an insert has. Sequences are natural
  numbers: the counter moves by one per write and stays far below the 63 bits SQLite keeps.
\<close>

type_synonym account_key = string

datatype object_type = Mailbox | Email | Thread

fun type_str :: "object_type \<Rightarrow> string" where
  "type_str Mailbox = ''Mailbox''"
| "type_str Email = ''Email''"
| "type_str Thread = ''Thread''"

datatype change_kind = Created | Updated | Destroyed

fun kind_str :: "change_kind \<Rightarrow> string" where
  "kind_str Created = ''created''"
| "kind_str Updated = ''updated''"
| "kind_str Destroyed = ''destroyed''"

definition kind_column :: "string \<Rightarrow> change_kind option" where
  "kind_column s =
     (if s = ''created'' then Some Created
      else if s = ''updated'' then Some Updated
      else if s = ''destroyed'' then Some Destroyed
      else None)"

definition CHANGES_HORIZON :: nat where "CHANGES_HORIZON = 10000"

datatype store_error = Database

record log_row =
  lr_key :: account_key
  lr_sequence :: nat
  lr_type :: object_type
  lr_id :: string
  lr_kind :: change_kind

record change =
  sequence :: nat
  change_id :: string
  kind :: change_kind

record log_db =
  states :: "account_key \<Rightarrow> nat option"
  log_rows :: "log_row list"

definition log_empty :: log_db where
  "log_empty = \<lparr>states = Map.empty, log_rows = []\<rparr>"

subsection \<open>Reading\<close>

definition rows_of :: "log_db \<Rightarrow> account_key \<Rightarrow> log_row list" where
  "rows_of db key = filter (\<lambda>r. lr_key r = key) (log_rows db)"

definition state_of :: "log_db \<Rightarrow> account_key \<Rightarrow> nat" where
  "state_of db key = (case states db key of None \<Rightarrow> 0 | Some n \<Rightarrow> n)"

definition oldest_kept :: "log_db \<Rightarrow> account_key \<Rightarrow> nat option" where
  "oldest_kept db key =
     (case map lr_sequence (rows_of db key) of [] \<Rightarrow> None | s # ss \<Rightarrow> Some (fold min ss s))"

definition read_changes :: "log_db \<Rightarrow> account_key \<Rightarrow> object_type \<Rightarrow> nat \<Rightarrow> change list" where
  "read_changes db key object since =
     map (\<lambda>r. \<lparr>sequence = lr_sequence r, change_id = lr_id r, kind = lr_kind r\<rparr>)
       (sort_key (\<lambda>r. (lr_sequence r, lr_id r))
          (filter (\<lambda>r. lr_type r = object \<and> lr_sequence r > since) (rows_of db key)))"

record changes_read =
  cs_state :: nat
  cs_changes :: "change list option"

definition changes_since :: "log_db \<Rightarrow> account_key \<Rightarrow> object_type \<Rightarrow> nat \<Rightarrow> changes_read" where
  "changes_since db key object since =
     (let state = state_of db key;
          found = (if since > state then None
                   else case oldest_kept db key of
                          None \<Rightarrow> if since = state then Some [] else None
                        | Some oldest \<Rightarrow>
                            if since + 1 < oldest then None
                            else Some (read_changes db key object since))
      in \<lparr>cs_state = state, cs_changes = found\<rparr>)"

subsection \<open>Writing\<close>

definition next_sequence :: "log_db \<Rightarrow> account_key \<Rightarrow> nat \<times> log_db" where
  "next_sequence db key =
     (let n = (case states db key of None \<Rightarrow> 1 | Some n \<Rightarrow> n + 1)
      in (n, db\<lparr>states := (states db)(key \<mapsto> n)\<rparr>))"

definition log_change ::
  "log_db \<Rightarrow> account_key \<Rightarrow> nat \<times> object_type \<Rightarrow> string \<times> change_kind \<Rightarrow> store_error + log_db" where
  "log_change db key entry change =
     (let (seq, object) = entry; (ident, k) = change in
      if list_ex (\<lambda>r. lr_key r = key \<and> lr_sequence r = seq \<and> lr_type r = object \<and> lr_id r = ident)
           (log_rows db)
      then Inl Database
      else Inr (db\<lparr>log_rows := log_rows db @
             [\<lparr>lr_key = key, lr_sequence = seq, lr_type = object, lr_id = ident, lr_kind = k\<rparr>]\<rparr>))"

definition prune :: "log_db \<Rightarrow> account_key \<Rightarrow> log_db" where
  "prune db key =
     (case take CHANGES_HORIZON (rev (sort (map lr_sequence (rows_of db key)))) of
        [] \<Rightarrow> db
      | s # ss \<Rightarrow>
          db\<lparr>log_rows := filter (\<lambda>r. \<not> (lr_key r = key \<and> lr_sequence r < fold min ss s)) (log_rows db)\<rparr>)"

subsection \<open>The ledger of one write\<close>

type_synonym slot = "string \<times> string"
type_synonym ledger = "(slot, object_type \<times> change_kind) bt"

definition folded :: "change_kind option \<Rightarrow> change_kind \<Rightarrow> change_kind option" where
  "folded before k =
     (case (before, k) of
        (Some Created, Destroyed) \<Rightarrow> None
      | (Some Created, _) \<Rightarrow> Some Created
      | (Some Destroyed, Created) \<Rightarrow> Some Updated
      | (Some Updated, Created) \<Rightarrow> Some Updated
      | (Some Destroyed, _) \<Rightarrow> Some Destroyed
      | (_, _) \<Rightarrow> Some k)"

definition ledger_note :: "ledger \<Rightarrow> object_type \<times> string \<times> change_kind \<Rightarrow> ledger" where
  "ledger_note l n =
     (let (object, ident, k) = n; slot = (type_str object, ident)
      in case folded (map_option snd (bt_get l slot)) k of
           Some k' \<Rightarrow> bt_insert slot (object, k') l
         | None \<Rightarrow> bt_remove slot l)"

definition ledger_is_empty :: "ledger \<Rightarrow> bool" where
  "ledger_is_empty l \<longleftrightarrow> l = []"

definition ledger_write :: "ledger \<Rightarrow> log_db \<Rightarrow> account_key \<Rightarrow> nat \<Rightarrow> store_error + log_db" where
  "ledger_write l db key seq =
     try_fold (\<lambda>db ((_, ident), (object, k)). log_change db key (seq, object) (ident, k)) db l"

text \<open>
  How a write ends: with nothing in the ledger the state stands; otherwise one new state holds
  every entry, the mailbox of the folder reads as updated where the write is one on a folder
  (\<open>close\<close> of \<open>refresh.rs\<close>), and the log is pruned. \<open>save_previews\<close> ends the same way without
  the mailbox. The pair is the answered state and the tables.
\<close>

definition close_previews :: "log_db \<Rightarrow> account_key \<Rightarrow> ledger \<Rightarrow> store_error + (nat \<times> log_db)" where
  "close_previews db key l =
     (if ledger_is_empty l then Inr (state_of db key, db)
      else let (seq, db1) = next_sequence db key
           in and_then (ledger_write l db1 key seq) (\<lambda>db2. Inr (seq, prune db2 key)))"

definition close_write :: "log_db \<Rightarrow> account_key \<Rightarrow> string \<Rightarrow> ledger \<Rightarrow> store_error + (nat \<times> log_db)" where
  "close_write db key folder l =
     (if ledger_is_empty l then Inr (state_of db key, db)
      else let (seq, db1) = next_sequence db key
           in and_then (ledger_write l db1 key seq)
                (\<lambda>db2. and_then (log_change db2 key (seq, Mailbox) (folder, Updated))
                  (\<lambda>db3. Inr (seq, prune db3 key))))"

end
