(* ===== verification/Change_History.thy ===== *)
theory Change_History
  imports Change_Log
begin

text \<open>
  What the change log promises. The abstract view of an account is the set of objects it holds at
  each state; a write is a list of changes that are legal one after the other (created while
  absent, updated and destroyed while present). The ledger folds a write to one entry per object
  that says how the object came out of it, the tables keep these entries for every state the log
  still reaches, and a reader that asks from a state gets rows that describe the way from the
  objects of that state to the objects of now.
\<close>

subsection \<open>Net change of one object\<close>

fun legal :: "bool \<Rightarrow> change_kind \<Rightarrow> bool option" where
  "legal False Created = Some True"
| "legal True Updated = Some True"
| "legal True Destroyed = Some False"
| "legal _ _ = None"

fun legal_run :: "bool \<Rightarrow> change_kind list \<Rightarrow> bool option" where
  "legal_run p [] = Some p"
| "legal_run p (k # ks) = Option.bind (legal p k) (\<lambda>q. legal_run q ks)"

text \<open>
  A way of folding the changes of one object into one entry: \<open>shows e p q\<close> says the entry fits an
  object that was there before (\<open>p\<close>) and is there after (\<open>q\<close>). The ledger of a write and the
  fates of a \<open>/changes\<close> answer are both such folds.
\<close>

locale net_change =
  fixes start :: "'e"
    and move :: "'e \<Rightarrow> change_kind \<Rightarrow> 'e"
    and shows_as :: "'e \<Rightarrow> bool \<Rightarrow> bool \<Rightarrow> bool"
  assumes start_shows: "shows_as start p p"
    and move_shows: "shows_as e p q \<Longrightarrow> legal q k = Some q' \<Longrightarrow> shows_as (move e k) p q'"
begin

lemma run_shows: "shows_as e p q \<Longrightarrow> legal_run q ks = Some q' \<Longrightarrow> shows_as (foldl move e ks) p q'"
  by (induction ks arbitrary: e q) (auto simp: bind_eq_Some_conv intro: move_shows)

lemma run_from_start: "legal_run p ks = Some q \<Longrightarrow> shows_as (foldl move start ks) p q"
  by (rule run_shows [OF start_shows])

end

fun entry_shows :: "change_kind option \<Rightarrow> bool \<Rightarrow> bool \<Rightarrow> bool" where
  "entry_shows None p q = (p = q)"
| "entry_shows (Some Created) p q = (\<not> p \<and> q)"
| "entry_shows (Some Updated) p q = (p \<and> q)"
| "entry_shows (Some Destroyed) p q = (p \<and> \<not> q)"

interpretation ledger_fold: net_change None folded entry_shows
proof unfold_locales
  fix e p q k q'
  assume "entry_shows e p q" "legal q k = Some q'"
  then show "entry_shows (folded e k) p q'"
    by (cases "(e, p, q)" rule: entry_shows.cases; cases k; cases q) (simp_all add: folded_def)
qed simp

lemma entry_shows_legal: "entry_shows (Some k) p q \<longleftrightarrow> legal p k = Some q"
  by (cases k; cases p; cases q) simp_all

subsection \<open>The ledger of a whole write\<close>

type_synonym noted = "object_type \<times> string \<times> change_kind"
type_synonym object = "object_type \<times> string"

fun legal_notes :: "object set \<Rightarrow> noted list \<Rightarrow> object set option" where
  "legal_notes objs [] = Some objs"
| "legal_notes objs ((t, i, k) # ns) =
     Option.bind (legal ((t, i) \<in> objs) k)
       (\<lambda>q. legal_notes (if q then insert (t, i) objs else objs - {(t, i)}) ns)"

definition notes_of :: "object \<Rightarrow> noted list \<Rightarrow> change_kind list" where
  "notes_of x ns = map (snd \<circ> snd) (filter (\<lambda>(t, i, k). (t, i) = x) ns)"

lemma legal_notes_run:
  "legal_notes objs ns = Some objs' \<Longrightarrow> legal_run (x \<in> objs) (notes_of x ns) = Some (x \<in> objs')"
proof (induction ns arbitrary: objs)
  case (Cons n ns)
  obtain t i k where n: "n = (t, i, k)" by (cases n)
  with Cons.prems obtain q where q: "legal ((t, i) \<in> objs) k = Some q"
      "legal_notes (if q then insert (t, i) objs else objs - {(t, i)}) ns = Some objs'"
    by (auto simp: bind_eq_Some_conv)
  from Cons.IH [OF q(2)] q(1) n show ?case
    by (cases "x = (t, i)") (auto simp: notes_of_def split: if_splits)
qed (simp add: notes_of_def)

definition ledger_of :: "noted list \<Rightarrow> ledger" where
  "ledger_of ns = foldl ledger_note [] ns"

definition slot_of :: "object \<Rightarrow> slot" where
  "slot_of x = (type_str (fst x), snd x)"

lemma type_str_inj: "type_str a = type_str b \<Longrightarrow> a = b"
  by (cases a; cases b) simp_all

lemma slot_of_inj: "slot_of x = slot_of y \<longleftrightarrow> x = y"
  by (auto simp: slot_of_def dest: type_str_inj intro: prod_eqI)

text \<open>The entry of a slot, with the type it carries, moves by the folding of its kind.\<close>

definition note_upd :: "(object_type \<times> change_kind) option \<Rightarrow> noted \<Rightarrow> (object_type \<times> change_kind) option" where
  "note_upd e n = map_option (Pair (fst n)) (folded (map_option snd e) (snd (snd n)))"

definition note_slot :: "noted \<Rightarrow> slot" where
  "note_slot n = (type_str (fst n), fst (snd n))"

lemma ledger_note_moves:
  "ledger_note l n = btree.put_or_remove (note_slot n) (note_upd (map_of l (note_slot n)) n) l"
  by (cases n)
    (auto simp: ledger_note_def note_slot_def note_upd_def btree.put_or_remove_def Let_def split: option.split)

lemma ledger_ok: "bt_ok (ledger_of ns)"
  unfolding ledger_of_def by (rule btree.ok_events [OF ledger_note_moves bt_ok_Nil])

lemma note_upd_fold:
  assumes "\<forall>n \<in> set ns. fst n = t"
  shows "foldl note_upd (map_option (Pair t) e) ns =
    map_option (Pair t) (foldl folded e (map (snd \<circ> snd) ns))"
  using assms
proof (induction ns arbitrary: e)
  case (Cons n ns)
  have "note_upd (map_option (Pair t) e) n = map_option (Pair t) (folded e (snd (snd n)))"
    using Cons.prems by (cases e) (simp_all add: note_upd_def)
  with Cons show ?case by simp
qed simp

lemma note_slot_filter: "filter (\<lambda>n. note_slot n = slot_of (t, i)) ns = filter (\<lambda>(t', i', k). (t', i') = (t, i)) ns"
  by (rule filter_cong) (auto simp: note_slot_def slot_of_def dest: type_str_inj)

lemma ledger_entry:
  "map_of (ledger_of ns) (slot_of (t, i)) = map_option (Pair t) (foldl folded None (notes_of (t, i) ns))"
proof -
  let ?mine = "filter (\<lambda>(t', i', k). (t', i') = (t, i)) ns"
  have "map_of (ledger_of ns) (slot_of (t, i)) = foldl note_upd None ?mine"
    unfolding ledger_of_def
    by (subst btree.get_events [OF ledger_note_moves]) (simp only: map_of.simps note_slot_filter)
  also have "\<dots> = map_option (Pair t) (foldl folded None (notes_of (t, i) ns))"
    unfolding notes_of_def by (subst note_upd_fold [where e = None, symmetric]) auto
  finally show ?thesis .
qed

lemma ledger_shows:
  assumes "legal_notes objs ns = Some objs'"
  shows "entry_shows (map_option snd (map_of (ledger_of ns) (slot_of x))) (x \<in> objs) (x \<in> objs')"
proof -
  obtain t i where x: "x = (t, i)" by (cases x)
  have "entry_shows (foldl folded None (notes_of x ns)) (x \<in> objs) (x \<in> objs')"
    by (rule ledger_fold.run_from_start [OF legal_notes_run [OF assms]])
  then show ?thesis by (simp add: x ledger_entry option.map_comp o_def map_option.identity)
qed

lemma ledger_typed: "(s, (t, k)) \<in> set (ledger_of ns) \<Longrightarrow> \<exists>i. s = slot_of (t, i)"
proof -
  assume "(s, (t, k)) \<in> set (ledger_of ns)"
  moreover have "\<forall>(s, (t, k)) \<in> set (foldl ledger_note l ns). \<exists>i. s = slot_of (t, i)"
    if "\<forall>(s, (t, k)) \<in> set l. \<exists>i. s = slot_of (t, i)" "bt_ok l" for l :: ledger
    using that
  proof (induction ns arbitrary: l)
    case (Cons n ns)
    have ok: "bt_ok (ledger_note l n)"
      unfolding ledger_note_moves by (rule btree.ok_put_or_remove [OF Cons.prems(2)])
    have "\<forall>(s, (t, k)) \<in> set (ledger_note l n). \<exists>i. s = slot_of (t, i)"
    proof safe
      fix a b t k assume e: "((a, b), t, k) \<in> set (ledger_note l n)"
      then have "map_of (ledger_note l n) (a, b) = Some (t, k)" using bt_entries [OF ok] by blast
      then have "(if (a, b) = note_slot n then note_upd (map_of l (note_slot n)) n else map_of l (a, b)) = Some (t, k)"
        unfolding ledger_note_moves btree.get_put_or_remove by (auto split: if_splits)
      then show "\<exists>i. (a, b) = slot_of (t, i)"
        using Cons.prems(1) by (fastforce simp: note_upd_def note_slot_def slot_of_def split: if_splits dest!: map_of_SomeD)
    qed
    then show ?case using Cons.IH ok by simp
  qed simp
  from this [of "[]"] have "\<forall>(s, (t, k)) \<in> set (ledger_of ns). \<exists>i. s = slot_of (t, i)"
    by (simp add: ledger_of_def)
  ultimately show ?thesis by fastforce
qed

end
