(* ===== verification/Change_Store.thy ===== *)
theory Change_Store
  imports Change_History
begin

text \<open>
  The tables under the writes of the store: a write adds one state with one row per object that
  changed, never meets the primary key of the log, leaves every other account alone, and pruning
  takes whole states from the old end only. \<open>log_inv\<close> ties the rows of an account to the objects
  it held at each state.
\<close>

definition row_kind :: "log_row list \<Rightarrow> nat \<Rightarrow> object \<Rightarrow> change_kind option" where
  "row_kind rows n x =
     map_option lr_kind (List.find (\<lambda>r. lr_sequence r = n \<and> (lr_type r, lr_id r) = x) rows)"

definition row_pk :: "log_row \<Rightarrow> nat \<times> object" where
  "row_pk r = (lr_sequence r, (lr_type r, lr_id r))"

definition reaches :: "log_row list \<Rightarrow> nat \<Rightarrow> bool" where
  "reaches rows n \<longleftrightarrow> (\<exists>r \<in> set rows. lr_sequence r \<le> n)"

definition log_inv :: "log_row list \<Rightarrow> nat \<Rightarrow> (nat \<Rightarrow> object set) \<Rightarrow> bool" where
  "log_inv rows state h \<longleftrightarrow>
     (\<forall>r \<in> set rows. 1 \<le> lr_sequence r \<and> lr_sequence r \<le> state) \<and>
     distinct (map row_pk rows) \<and>
     (\<forall>n x. 1 \<le> n \<longrightarrow> n \<le> state \<longrightarrow> reaches rows n \<longrightarrow>
        entry_shows (row_kind rows n x) (x \<in> h (n - 1)) (x \<in> h n))"

lemma log_invD:
  assumes "log_inv rows state h"
  shows "r \<in> set rows \<Longrightarrow> 1 \<le> lr_sequence r \<and> lr_sequence r \<le> state"
    and "distinct (map row_pk rows)"
    and "1 \<le> n \<Longrightarrow> n \<le> state \<Longrightarrow> reaches rows n \<Longrightarrow>
      entry_shows (row_kind rows n x) (x \<in> h (n - 1)) (x \<in> h n)"
  using assms unfolding log_inv_def by blast+

lemma find_append:
  "List.find P (xs @ ys) = (case List.find P xs of None \<Rightarrow> List.find P ys | Some x \<Rightarrow> Some x)"
  by (induction xs) auto

lemma row_kind_append_old:
  "\<forall>r \<in> set new. lr_sequence r \<noteq> n \<Longrightarrow> row_kind (rows @ new) n x = row_kind rows n x"
proof -
  assume "\<forall>r \<in> set new. lr_sequence r \<noteq> n"
  then have "List.find (\<lambda>r. lr_sequence r = n \<and> (lr_type r, lr_id r) = x) new = None"
    by (auto simp: find_None_iff)
  then show ?thesis by (simp add: row_kind_def find_append split: option.split)
qed

lemma row_kind_append_new:
  "\<forall>r \<in> set rows. lr_sequence r \<noteq> n \<Longrightarrow> row_kind (rows @ new) n x = row_kind new n x"
proof -
  assume "\<forall>r \<in> set rows. lr_sequence r \<noteq> n"
  then have "List.find (\<lambda>r. lr_sequence r = n \<and> (lr_type r, lr_id r) = x) rows = None"
    by (auto simp: find_None_iff)
  then show ?thesis by (simp add: row_kind_def find_append)
qed

lemma row_kind_Some:
  assumes "distinct (map row_pk rows)"
  shows "row_kind rows n x = Some k \<longleftrightarrow> (\<exists>r \<in> set rows. row_pk r = (n, x) \<and> lr_kind r = k)"
  using assms
proof (induction rows)
  case (Cons r rows)
  then show ?case
    by (auto simp: row_kind_def row_pk_def split: if_splits)
qed (simp add: row_kind_def)

lemma log_inv_extend:
  assumes inv: "log_inv rows state h"
    and seq: "\<forall>r \<in> set new. lr_sequence r = state + 1" and "distinct (map row_pk new)"
    and entries: "\<And>x. entry_shows (row_kind new (state + 1) x) (x \<in> h state) (x \<in> objs)"
  shows "log_inv (rows @ new) (state + 1) (h(state + 1 := objs))"
  unfolding log_inv_def
proof (intro conjI allI impI)
  show "\<forall>r \<in> set (rows @ new). 1 \<le> lr_sequence r \<and> lr_sequence r \<le> state + 1"
    using inv seq by (auto simp: log_inv_def)
  show "distinct (map row_pk (rows @ new))"
    using inv seq assms(3) by (force simp: log_inv_def row_pk_def)
  fix n x assume n: "1 \<le> n" "n \<le> state + 1" "reaches (rows @ new) n"
  show "entry_shows (row_kind (rows @ new) n x) (x \<in> (h(state + 1 := objs)) (n - 1))
          (x \<in> (h(state + 1 := objs)) n)"
  proof (cases "n = state + 1")
    case True
    have "\<forall>r \<in> set rows. lr_sequence r \<noteq> state + 1" using inv by (auto simp: log_inv_def)
    then show ?thesis using entries [of x] True by (simp add: row_kind_append_new)
  next
    case False
    then have le: "n \<le> state" using n(2) by simp
    then have "\<forall>r \<in> set new. lr_sequence r \<noteq> n" using seq by auto
    moreover have "reaches rows n" using n(3) seq le by (auto simp: reaches_def)
    ultimately show ?thesis
      using log_invD(3) [OF inv n(1) le, of x] le n(1) by (auto simp: row_kind_append_old)
  qed
qed

lemma log_inv_forget:
  assumes inv: "log_inv rows state h"
  shows "log_inv (filter (\<lambda>r. \<not> lr_sequence r < th) rows) state h"
  unfolding log_inv_def
proof (intro conjI allI impI)
  let ?rows = "filter (\<lambda>r. \<not> lr_sequence r < th) rows"
  have d: "distinct (map row_pk rows)" using inv by (simp add: log_inv_def)
  show "distinct (map row_pk ?rows)" using d by (rule distinct_map_filter)
  show "\<forall>r \<in> set ?rows. 1 \<le> lr_sequence r \<and> lr_sequence r \<le> state"
    using inv by (auto simp: log_inv_def)
  fix n x assume n: "1 \<le> n" "n \<le> state" "reaches ?rows n"
  then have "reaches rows n" and th: "th \<le> n" by (auto simp: reaches_def)
  moreover have "row_kind ?rows n x = row_kind rows n x"
  proof -
    have "row_kind ?rows n x = Some k \<longleftrightarrow> row_kind rows n x = Some k" for k
      using th by (auto simp: row_kind_Some [OF d] row_kind_Some [OF \<open>distinct (map row_pk ?rows)\<close>] row_pk_def)
    then show ?thesis by (metis option.exhaust)
  qed
  ultimately show "entry_shows (row_kind ?rows n x) (x \<in> h (n - 1)) (x \<in> h n)"
    using log_invD(3) [OF inv n(1,2), of x] by simp
qed

subsection \<open>Writing the ledger\<close>

fun entry_row :: "account_key \<Rightarrow> nat \<Rightarrow> slot \<times> (object_type \<times> change_kind) \<Rightarrow> log_row" where
  "entry_row key seq ((_, i), (t, k)) =
     \<lparr>lr_key = key, lr_sequence = seq, lr_type = t, lr_id = i, lr_kind = k\<rparr>"

definition append_rows :: "log_db \<Rightarrow> log_row list \<Rightarrow> log_db" where
  "append_rows db new = db\<lparr>log_rows := log_rows db @ new\<rparr>"


lemma append_rows_simps [simp]:
  "append_rows db [] = db" "append_rows (append_rows db xs) ys = append_rows db (xs @ ys)"
  "log_rows (append_rows db new) = log_rows db @ new" "states (append_rows db new) = states db"
  by (simp_all add: append_rows_def)

lemma log_change_ok:
  assumes "\<forall>r \<in> set (rows_of db key). row_pk r \<noteq> (seq, (t, i))"
  shows "log_change db key (seq, t) (i, k) =
     Inr (append_rows db [\<lparr>lr_key = key, lr_sequence = seq, lr_type = t, lr_id = i, lr_kind = k\<rparr>])"
  using assms by (auto simp: log_change_def rows_of_def row_pk_def append_rows_def list_ex_iff)

lemma rows_of_append [simp]:
  "rows_of (append_rows db new) key = rows_of db key @ filter (\<lambda>r. lr_key r = key) new"
  by (simp add: rows_of_def)

definition entry_object :: "slot \<times> (object_type \<times> change_kind) \<Rightarrow> object" where
  "entry_object e = (fst (snd e), snd (fst e))"

lemma ledger_write_ok:
  "\<forall>e \<in> set l. \<forall>r \<in> set (rows_of db key). row_pk r \<noteq> (seq, entry_object e) \<Longrightarrow>
   distinct (map entry_object l) \<Longrightarrow>
   ledger_write l db key seq = Inr (append_rows db (map (entry_row key seq) l))"
proof (induction l arbitrary: db)
  case Nil
  then show ?case by (simp add: ledger_write_def)
next
  case (Cons e l)
  obtain s i t k where e: "e = ((s, i), (t, k))" by (metis surj_pair)
  have one: "log_change db key (seq, t) (i, k) = Inr (append_rows db [entry_row key seq e])"
    using Cons.prems(1) e by (subst log_change_ok) (auto simp: entry_object_def)
  have "ledger_write l (append_rows db [entry_row key seq e]) key seq =
      Inr (append_rows (append_rows db [entry_row key seq e]) (map (entry_row key seq) l))"
    using Cons.prems e by (intro Cons.IH) (auto simp: row_pk_def entry_object_def)
  with one e show ?case by (simp add: ledger_write_def)
qed

lemma ledger_objects_distinct: "distinct (map entry_object (ledger_of ns))"
proof -
  have "distinct (map fst (ledger_of ns))" by (rule bt_ok_distinct [OF ledger_ok])
  moreover have "inj_on (\<lambda>e. entry_object e) (set (ledger_of ns))"
  proof (rule inj_onI)
    fix e f assume in_l: "e \<in> set (ledger_of ns)" "f \<in> set (ledger_of ns)" "entry_object e = entry_object f"
    have "fst e = slot_of (entry_object e)" if "e \<in> set (ledger_of ns)" for e
      using that ledger_typed [of "fst e" "fst (snd e)" "snd (snd e)" ns]
      by (auto simp: entry_object_def slot_of_def)
    with in_l have "fst e = fst f" by metis
    with in_l \<open>distinct (map fst (ledger_of ns))\<close> show "e = f"
      by (metis eq_key_imp_eq_value prod.collapse)
  qed
  ultimately show ?thesis by (simp add: distinct_map)
qed

lemma ledger_row_kind:
  "row_kind (map (entry_row key seq) (ledger_of ns)) seq x = map_option snd (map_of (ledger_of ns) (slot_of x))"
proof -
  let ?rows = "map (entry_row key seq) (ledger_of ns)"
  have pk: "row_pk (entry_row key seq e) = (seq, entry_object e)" "lr_kind (entry_row key seq e) = snd (snd e)" for e
    by (cases e; cases "fst e"; cases "snd e"; simp add: row_pk_def entry_object_def)+
  have d: "distinct (map row_pk ?rows)"
    using ledger_objects_distinct [of ns] by (simp add: o_def pk distinct_map inj_on_def)
  have "row_kind ?rows seq x = Some k \<longleftrightarrow> map_option snd (map_of (ledger_of ns) (slot_of x)) = Some k" for k
  proof -
    have "row_kind ?rows seq x = Some k \<longleftrightarrow> (\<exists>e \<in> set (ledger_of ns). entry_object e = x \<and> snd (snd e) = k)"
      unfolding row_kind_Some [OF d] by (auto simp: pk)
    also have "\<dots> \<longleftrightarrow> (\<exists>t. (slot_of x, (t, k)) \<in> set (ledger_of ns))"
    proof
      assume "\<exists>e \<in> set (ledger_of ns). entry_object e = x \<and> snd (snd e) = k"
      then obtain s t where "(s, (t, k)) \<in> set (ledger_of ns)" "(t, snd s) = x"
        by (force simp: entry_object_def)
      then show "\<exists>t. (slot_of x, (t, k)) \<in> set (ledger_of ns)"
      proof -
        assume e: "(s, (t, k)) \<in> set (ledger_of ns)" "(t, snd s) = x"
        from ledger_typed [OF e(1)] obtain i where "s = slot_of (t, i)" by blast
        with e(2) have "s = slot_of x" by (auto simp: slot_of_def)
        with e(1) show ?thesis by blast
      qed
    next
      assume "\<exists>t. (slot_of x, (t, k)) \<in> set (ledger_of ns)"
      then obtain t where e: "(slot_of x, (t, k)) \<in> set (ledger_of ns)" by blast
      then obtain i where "slot_of x = slot_of (t, i)" using ledger_typed by blast
      then have "x = (t, i)" by (simp add: slot_of_inj)
      with e show "\<exists>e \<in> set (ledger_of ns). entry_object e = x \<and> snd (snd e) = k"
        by (intro bexI [of _ "(slot_of x, (t, k))"]) (auto simp: entry_object_def slot_of_def)
    qed
    also have "\<dots> \<longleftrightarrow> map_option snd (map_of (ledger_of ns) (slot_of x)) = Some k"
      by (auto simp: bt_entries [OF ledger_ok])
    finally show ?thesis .
  qed
  then show ?thesis by (metis option.exhaust)
qed

subsection \<open>Pruning\<close>

lemma prune_shape:
  obtains th where "log_rows (prune db key) =
      filter (\<lambda>r. \<not> (lr_key r = key \<and> lr_sequence r < th)) (log_rows db)" "states (prune db key) = states db"
proof (cases "take CHANGES_HORIZON (rev (sort (map lr_sequence (rows_of db key))))")
  case Nil
  then have "prune db key = db" by (simp only: prune_def list.case)
  then show ?thesis using that [of 0] by simp
next
  case (Cons s ss)
  then show ?thesis using that [of "fold min ss s"] by (simp add: prune_def)
qed

lemma prune_rows:
  obtains th where "rows_of (prune db key) key = filter (\<lambda>r. \<not> lr_sequence r < th) (rows_of db key)"
    "\<And>k. k \<noteq> key \<Longrightarrow> rows_of (prune db key) k = rows_of db k" "\<And>k. state_of (prune db key) k = state_of db k"
proof -
  obtain th where th: "log_rows (prune db key) =
      filter (\<lambda>r. \<not> (lr_key r = key \<and> lr_sequence r < th)) (log_rows db)" "states (prune db key) = states db"
    by (rule prune_shape)
  show ?thesis
  proof (rule that [of th])
    show "rows_of (prune db key) key = filter (\<lambda>r. \<not> lr_sequence r < th) (rows_of db key)"
      by (auto simp: rows_of_def th conj_commute intro!: filter_cong)
    show "rows_of (prune db key) k = rows_of db k" if "k \<noteq> key" for k
      using that by (auto simp: rows_of_def th intro!: filter_cong)
    show "state_of (prune db key) k = state_of db k" for k
      by (simp add: state_of_def th)
  qed
qed

subsection \<open>A whole write\<close>

text \<open>What a write leaves behind, seen from the account and from every other account.\<close>

definition written :: "log_db \<Rightarrow> account_key \<Rightarrow> (nat \<Rightarrow> object set) \<Rightarrow> object set \<Rightarrow> nat \<times> log_db \<Rightarrow> bool" where
  "written db key h objs out \<longleftrightarrow>
     state_of (snd out) key = fst out \<and>
     log_inv (rows_of (snd out) key) (fst out) (h(fst out := objs)) \<and>
     (\<forall>k. k \<noteq> key \<longrightarrow> rows_of (snd out) k = rows_of db k \<and> state_of (snd out) k = state_of db k)"

lemma next_sequence_simp:
  "next_sequence db key = (state_of db key + 1, db\<lparr>states := (states db)(key \<mapsto> state_of db key + 1)\<rparr>)"
  by (simp add: next_sequence_def state_of_def Let_def split: option.split)

lemma rows_of_states [simp]: "rows_of (db\<lparr>states := f\<rparr>) k = rows_of db k"
  by (simp add: rows_of_def)

lemma state_of_append [simp]: "state_of (append_rows db new) k = state_of db k"
  by (simp add: state_of_def)

lemma written_rows:
  assumes inv: "log_inv (rows_of db key) (state_of db key) h"
    and new: "\<forall>r \<in> set new. lr_key r = key \<and> lr_sequence r = state_of db key + 1" "distinct (map row_pk new)"
    and entries: "\<And>x. entry_shows (row_kind new (state_of db key + 1) x) (x \<in> h (state_of db key)) (x \<in> objs)"
  shows "written db key h objs (state_of db key + 1,
     prune (append_rows (db\<lparr>states := (states db)(key \<mapsto> state_of db key + 1)\<rparr>) new) key)"
proof -
  let ?n = "state_of db key + 1"
  let ?db = "append_rows (db\<lparr>states := (states db)(key \<mapsto> ?n)\<rparr>) new"
  obtain th where th: "rows_of (prune ?db key) key = filter (\<lambda>r. \<not> lr_sequence r < th) (rows_of ?db key)"
      "\<And>k. k \<noteq> key \<Longrightarrow> rows_of (prune ?db key) k = rows_of ?db k" "\<And>k. state_of (prune ?db key) k = state_of ?db k"
    using prune_rows [of ?db key] by blast
  have mine: "filter (\<lambda>r. lr_key r = key) new = new" using new(1) by (simp add: filter_id_conv)
  have others: "filter (\<lambda>r. lr_key r = k) new = []" if "k \<noteq> key" for k
    using new(1) that by (auto simp: filter_empty_conv)
  have "log_inv (rows_of ?db key) ?n (h(?n := objs))"
    using log_inv_extend [OF inv _ new(2) entries] new(1) by (simp add: mine)
  then have "log_inv (rows_of (prune ?db key) key) ?n (h(?n := objs))"
    unfolding th(1) by (rule log_inv_forget)
  moreover have "state_of ?db key = ?n" by (simp add: state_of_def)
  moreover have "state_of ?db k = state_of db k" if "k \<noteq> key" for k
    using that by (simp add: state_of_def)
  ultimately show ?thesis using th others by (simp add: written_def)
qed

lemma ledger_rows:
  "\<forall>r \<in> set (map (entry_row key seq) l). lr_key r = key \<and> lr_sequence r = seq"
  by auto

lemma ledger_rows_distinct: "distinct (map row_pk (map (entry_row key seq) (ledger_of ns)))"
proof -
  have "row_pk (entry_row key seq e) = (seq, entry_object e)" for e
    by (cases e; cases "fst e"; cases "snd e"; simp add: row_pk_def entry_object_def)
  then show ?thesis
    using ledger_objects_distinct [of ns] by (simp add: o_def distinct_map inj_on_def)
qed

lemma fresh_sequence:
  "log_inv (rows_of db key) (state_of db key) h \<Longrightarrow> r \<in> set (rows_of db key) \<Longrightarrow> row_pk r \<noteq> (state_of db key + 1, x)"
  by (auto simp: row_pk_def dest: log_invD(1))

lemma empty_ledger_same:
  assumes "legal_notes objs ns = Some objs'" "ledger_of ns = []"
  shows "objs' = objs"
proof -
  have "(x \<in> objs) = (x \<in> objs')" for x using ledger_shows [OF assms(1), of x] assms(2) by simp
  then show ?thesis by blast
qed

lemma written_nothing:
  "log_inv (rows_of db key) (state_of db key) h \<Longrightarrow> written db key h (h (state_of db key)) (state_of db key, db)"
  by (simp add: written_def)

lemma close_previews_written:
  assumes inv: "log_inv (rows_of db key) (state_of db key) h"
    and legal: "legal_notes (h (state_of db key)) ns = Some objs"
  shows "\<exists>out. close_previews db key (ledger_of ns) = Inr out \<and> written db key h objs out"
proof (cases "ledger_of ns = []")
  case True
  then have "objs = h (state_of db key)" using empty_ledger_same [OF legal] by simp
  with True written_nothing [OF inv] show ?thesis by (simp add: close_previews_def ledger_is_empty_def)
next
  case False
  let ?n = "state_of db key + 1"
  let ?db = "db\<lparr>states := (states db)(key \<mapsto> ?n)\<rparr>"
  let ?rows = "map (entry_row key ?n) (ledger_of ns)"
  have w: "ledger_write (ledger_of ns) ?db key ?n = Inr (append_rows ?db ?rows)"
    using fresh_sequence [OF inv] by (intro ledger_write_ok ledger_objects_distinct) auto
  have "entry_shows (row_kind ?rows ?n x) (x \<in> h (state_of db key)) (x \<in> objs)" for x
    unfolding ledger_row_kind by (rule ledger_shows [OF legal])
  from written_rows [OF inv ledger_rows ledger_rows_distinct this] w False show ?thesis
    by (simp add: close_previews_def ledger_is_empty_def next_sequence_simp del: map_map)
qed

lemma close_write_written:
  assumes inv: "log_inv (rows_of db key) (state_of db key) h"
    and legal: "legal_notes (h (state_of db key)) ns = Some objs"
    and folder: "(Mailbox, folder) \<in> h (state_of db key)" "notes_of (Mailbox, folder) ns = []"
  shows "\<exists>out. close_write db key folder (ledger_of ns) = Inr out \<and> written db key h objs out"
proof (cases "ledger_of ns = []")
  case True
  then have "objs = h (state_of db key)" using empty_ledger_same [OF legal] by simp
  with True written_nothing [OF inv] show ?thesis by (simp add: close_write_def ledger_is_empty_def)
next
  case False
  let ?n = "state_of db key + 1"
  let ?db = "db\<lparr>states := (states db)(key \<mapsto> ?n)\<rparr>"
  let ?rows = "map (entry_row key ?n) (ledger_of ns)"
  let ?box = "\<lparr>lr_key = key, lr_sequence = ?n, lr_type = Mailbox, lr_id = folder, lr_kind = Updated\<rparr>"
  have none: "row_kind ?rows ?n (Mailbox, folder) = None"
    by (simp add: ledger_row_kind ledger_entry folder(2) del: map_map)
  have absent: "\<forall>r \<in> set ?rows. row_pk r \<noteq> (?n, (Mailbox, folder))"
    using none row_kind_Some [OF ledger_rows_distinct, of key ?n ns ?n "(Mailbox, folder)"] by (metis option.distinct(1))
  have w: "ledger_write (ledger_of ns) ?db key ?n = Inr (append_rows ?db ?rows)"
    using fresh_sequence [OF inv] by (intro ledger_write_ok ledger_objects_distinct) auto
  have b: "log_change (append_rows ?db ?rows) key (?n, Mailbox) (folder, Updated) = Inr (append_rows ?db (?rows @ [?box]))"
    using fresh_sequence [OF inv] absent by (subst log_change_ok) auto
  have in_objs: "(Mailbox, folder) \<in> objs"
    using legal_notes_run [OF legal, of "(Mailbox, folder)"] folder by simp
  have old: "row_kind (?rows @ [?box]) ?n x = (if x = (Mailbox, folder) then Some Updated else row_kind ?rows ?n x)" for x
    using none by (auto simp: row_kind_def find_append split: option.split)
  have entries: "entry_shows (row_kind (?rows @ [?box]) ?n x) (x \<in> h (state_of db key)) (x \<in> objs)" for x
    unfolding old using ledger_shows [OF legal, of x] folder(1) in_objs by (auto simp: ledger_row_kind)
  have "distinct (map row_pk (?rows @ [?box]))"
    using ledger_rows_distinct [of key ?n ns] absent by (auto simp: row_pk_def)
  moreover have "\<forall>r \<in> set (?rows @ [?box]). lr_key r = key \<and> lr_sequence r = ?n"
    using ledger_rows [of key ?n "ledger_of ns"] by auto
  ultimately have "written db key h objs (?n, prune (append_rows ?db (?rows @ [?box])) key)"
    using entries by (intro written_rows [OF inv])
  with w b False show ?thesis
    by (simp add: close_write_def ledger_is_empty_def next_sequence_simp del: map_map)
qed

subsection \<open>How much of the log pruning keeps\<close>

lemma fold_min_last:
  assumes "sorted_wrt (\<ge>) (s # ss)"
  shows "fold min ss (s :: nat) = last (s # ss)"
  using assms
proof (induction ss arbitrary: s)
  case (Cons y ss)
  then have "min y s = y" by simp
  then show ?case using Cons by simp
qed simp

lemma newest_cut:
  fixes d :: "nat list"
  assumes d: "sorted_wrt (\<ge>) d" and k: "0 < k" "k \<le> length d"
  defines "th \<equiv> d ! (k - 1)"
  shows "k \<le> length (filter (\<lambda>x. \<not> x < th) d)" "length (filter (\<lambda>x. th < x) d) < k"
proof -
  have ge: "th \<le> d ! i" if "i < k" for i
    using sorted_wrt_nth_less [OF d, of i "k - 1"] that k by (cases "i = k - 1") (auto simp: th_def)
  have "filter (\<lambda>x. \<not> x < th) (take k d) = take k d"
    using ge k by (force simp: filter_id_conv in_set_conv_nth)
  then have "filter (\<lambda>x. \<not> x < th) (take k d @ drop k d) = take k d @ filter (\<lambda>x. \<not> x < th) (drop k d)"
    by (simp only: filter_append)
  then have "length (filter (\<lambda>x. \<not> x < th) d) = k + length (filter (\<lambda>x. \<not> x < th) (drop k d))"
    using k by simp
  then show "k \<le> length (filter (\<lambda>x. \<not> x < th) d)" by simp
  have le: "d ! i \<le> th" if "k - 1 \<le> i" "i < length d" for i
    using sorted_wrt_nth_less [OF d, of "k - 1" i] that k by (cases "i = k - 1") (auto simp: th_def)
  have "filter (\<lambda>x. th < x) (drop (k - 1) d) = []"
  proof -
    have "x \<le> th" if x: "x \<in> set (drop (k - 1) d)" for x
    proof -
      obtain j where "j < length d - (k - 1)" "x = d ! (k - 1 + j)"
        using x by (auto simp: in_set_conv_nth)
      then show ?thesis using le [of "k - 1 + j"] by simp
    qed
    then show ?thesis by (simp add: filter_empty_conv leD)
  qed
  then have "filter (\<lambda>x. th < x) (take (k - 1) d @ drop (k - 1) d) = filter (\<lambda>x. th < x) (take (k - 1) d)"
    by (simp only: filter_append append_Nil2)
  moreover have "length (filter (\<lambda>x. th < x) (take (k - 1) d)) \<le> k - 1"
    by (rule le_trans [OF length_filter_le]) simp
  ultimately have "length (filter (\<lambda>x. th < x) d) \<le> k - 1" by simp
  then show "length (filter (\<lambda>x. th < x) d) < k" using k by simp
qed

lemma filter_newest_first:
  "length (filter P (rev (sort (map f xs)))) = length (filter (\<lambda>x. P (f x)) xs)"
proof -
  have "length (filter P (rev (sort ys))) = length (filter P ys)" for ys
    by (simp add: rev_filter [symmetric] filter_sort)
  then show ?thesis by (simp add: filter_map o_def)
qed

lemma prune_threshold:
  assumes rows: "rows_of db key \<noteq> []"
  defines "d \<equiv> rev (sort (map lr_sequence (rows_of db key)))"
  defines "th \<equiv> d ! (min CHANGES_HORIZON (length d) - 1)"
  shows "prune db key = db\<lparr>log_rows := filter (\<lambda>r. \<not> (lr_key r = key \<and> lr_sequence r < th)) (log_rows db)\<rparr>"
proof -
  have len: "0 < length d" using rows by (simp add: d_def)
  have pos: "0 < CHANGES_HORIZON" by (simp add: CHANGES_HORIZON_def)
  have desc: "sorted_wrt (\<ge>) d" unfolding d_def by (simp add: sorted_wrt_rev)
  obtain s ss where t: "take CHANGES_HORIZON d = s # ss"
    using len pos by (cases "take CHANGES_HORIZON d") auto
  have "sorted_wrt (\<ge>) (s # ss)" using sorted_wrt_take [OF desc, of CHANGES_HORIZON] t by simp
  then have "fold min ss s = last (take CHANGES_HORIZON d)" using t by (simp add: fold_min_last)
  also have "\<dots> = th" using len pos by (simp add: th_def last_conv_nth min.commute)
  finally have "fold min ss s = th" .
  then show ?thesis using t by (simp add: prune_def d_def)
qed

text \<open>
  Pruning drops whole states from the old end of one account's log and nothing else: it keeps
  at least as many rows as the horizon asks (or all there are), it keeps a state whole or not at
  all, it would fall under the horizon if it dropped one state more, and it touches neither the
  rows of another account nor any counter.
\<close>

theorem prune_keeps_horizon:
  "\<exists>th. rows_of (prune db key) key = filter (\<lambda>r. \<not> lr_sequence r < th) (rows_of db key) \<and>
     min CHANGES_HORIZON (length (rows_of db key)) \<le> length (rows_of (prune db key) key) \<and>
     length (filter (\<lambda>r. th < lr_sequence r) (rows_of db key)) < CHANGES_HORIZON \<and>
     states (prune db key) = states db \<and>
     filter (\<lambda>r. lr_key r \<noteq> key) (log_rows (prune db key)) = filter (\<lambda>r. lr_key r \<noteq> key) (log_rows db)"
proof (cases "rows_of db key = []")
  case True
  then have "prune db key = db" by (simp add: prune_def)
  with True show ?thesis by (simp add: CHANGES_HORIZON_def)
next
  case False
  let ?d = "rev (sort (map lr_sequence (rows_of db key)))"
  let ?k = "min CHANGES_HORIZON (length ?d)"
  let ?th = "?d ! (?k - 1)"
  have k: "0 < ?k" "?k \<le> length ?d" using False by (simp_all add: CHANGES_HORIZON_def)
  have desc: "sorted_wrt (\<ge>) ?d" by (simp add: sorted_wrt_rev)
  note p = prune_threshold [OF False]
  have mine: "rows_of (prune db key) key = filter (\<lambda>r. \<not> lr_sequence r < ?th) (rows_of db key)"
    unfolding p by (auto simp: rows_of_def intro!: filter_cong)
  have others: "filter (\<lambda>r. lr_key r \<noteq> key) (log_rows (prune db key)) = filter (\<lambda>r. lr_key r \<noteq> key) (log_rows db)"
    unfolding p by (auto intro!: filter_cong)
  have kept: "?k \<le> length (filter (\<lambda>r. \<not> lr_sequence r < ?th) (rows_of db key))"
    using newest_cut(1) [OF desc k] by (simp only: filter_newest_first)
  have newer: "length (filter (\<lambda>r. ?th < lr_sequence r) (rows_of db key)) < ?k"
    using newest_cut(2) [OF desc k] by (simp only: filter_newest_first)
  show ?thesis
    using mine kept newer others p by (intro exI [of _ ?th]) simp
qed

end
