(* ===== verification/Jmap_Method.thy ===== *)
theory Jmap_Method
  imports Bridge_Prelude
begin

text \<open>
  JSON values as the sources hold them and the errors a JMAP method answers with
  (\<open>jmap/mod.rs\<close>). An object is the list of its members in key order, which is the order
  \<open>serde_json\<close> keeps and iterates them in; a number is kept as its text, since no modelled code
  computes with one.
\<close>

datatype json =
    Null | Bool bool | Number string | String string
  | Array "json list" | Object "(string \<times> json) list"

datatype method_error =
    UnknownMethod
  | InvalidArguments string
  | InvalidResultReference string
  | AccountNotFound
  | AccountNotSupportedByMethod
  | RequestTooLarge
  | CannotCalculateChanges
  | UnsupportedFilter string
  | UnsupportedSort
  | AnchorNotFound
  | StateMismatch
  | ServerFail
  | ServerUnavailable

fun error_type :: "method_error \<Rightarrow> string" where
  "error_type UnknownMethod = ''unknownMethod''"
| "error_type (InvalidArguments _) = ''invalidArguments''"
| "error_type (InvalidResultReference _) = ''invalidResultReference''"
| "error_type AccountNotFound = ''accountNotFound''"
| "error_type AccountNotSupportedByMethod = ''accountNotSupportedByMethod''"
| "error_type RequestTooLarge = ''requestTooLarge''"
| "error_type CannotCalculateChanges = ''cannotCalculateChanges''"
| "error_type (UnsupportedFilter _) = ''unsupportedFilter''"
| "error_type UnsupportedSort = ''unsupportedSort''"
| "error_type AnchorNotFound = ''anchorNotFound''"
| "error_type StateMismatch = ''stateMismatch''"
| "error_type ServerFail = ''serverFail''"
| "error_type ServerUnavailable = ''serverUnavailable''"

fun error_description :: "method_error \<Rightarrow> string option" where
  "error_description (InvalidArguments why) = Some why"
| "error_description (InvalidResultReference why) = Some why"
| "error_description (UnsupportedFilter why) = Some why"
| "error_description _ = None"

definition error_object :: "method_error \<Rightarrow> json" where
  "error_object e =
     Object ((case error_description e of None \<Rightarrow> [] | Some why \<Rightarrow> [(''description'', String why)])
             @ [(''type'', String (error_type e))])"

text \<open>The one account an endpoint serves.\<close>

definition account_check :: "string \<Rightarrow> string \<Rightarrow> method_error + unit" where
  "account_check key ident = (if ident = key then Inr () else Inl AccountNotFound)"

end
