(* ===== verification/Changes_Window.thy ===== *)
theory Changes_Window
  imports Change_Store Jmap_Method
begin

text \<open>
  \<open>/changes\<close> over the log (\<open>jmap/changes.rs\<close>): the rows since a state folded into the three
  lists, cut between two states where the client caps the answer. The typed arguments stand for
  the object \<open>serde\<close> reads them from; the answer is a record with the fields the source writes.
\<close>

record changes_arguments =
  arg_account_id :: string
  arg_since_state :: string
  arg_max_changes :: "nat option"

definition changes_checked :: "changes_arguments \<Rightarrow> method_error + unit" where
  "changes_checked a =
     (if arg_max_changes a = Some 0 then Inl (InvalidArguments ''maxChanges must be above zero'')
      else Inr ())"

record window =
  w_created :: "string list"
  w_updated :: "string list"
  w_destroyed :: "string list"
  w_new_state :: nat
  w_has_more :: bool

datatype fate = FCreated | FUpdated | FDestroyed | FGone

fun fate_start :: "change_kind \<Rightarrow> fate" where
  "fate_start Created = FCreated"
| "fate_start Updated = FUpdated"
| "fate_start Destroyed = FDestroyed"

definition fate_listed :: "fate \<Rightarrow> bool" where
  "fate_listed f \<longleftrightarrow> f \<noteq> FGone"

fun fate_then :: "fate \<Rightarrow> change_kind \<Rightarrow> fate" where
  "fate_then FGone Created = FCreated"
| "fate_then FGone _ = FGone"
| "fate_then FCreated Destroyed = FGone"
| "fate_then FCreated _ = FCreated"
| "fate_then _ Destroyed = FDestroyed"
| "fate_then f Updated = f"
| "fate_then f Created = FUpdated"

type_synonym fates = "(string, fate) bt"

definition advance :: "fates \<Rightarrow> change \<Rightarrow> fates \<times> fate option \<times> fate" where
  "advance fates row =
     (let before = bt_get fates (change_id row);
          after = (case before of None \<Rightarrow> fate_start (kind row) | Some f \<Rightarrow> fate_then f (kind row))
      in (bt_insert (change_id row) after fates, before, after))"

text \<open>The loop of \<open>cut\<close>: \<open>rest\<close> is what is left of the rows from \<open>index\<close> on.\<close>

fun cut_loop :: "change list \<Rightarrow> nat \<Rightarrow> nat \<Rightarrow> change list \<Rightarrow> fates \<Rightarrow> nat \<Rightarrow> nat \<Rightarrow> nat" where
  "cut_loop rows max_ids index [] fates listed start = length rows"
| "cut_loop rows max_ids index (row # rest) fates listed start =
     (let start' = (if sequence row \<noteq> sequence (rows ! start) then index else start);
          (fates', before, after) = advance fates row;
          listed' = listed + (if fate_listed after then 1 else 0)
                    - (case before of Some f \<Rightarrow> if fate_listed f then 1 else 0 | None \<Rightarrow> 0);
          closes = (case rest of [] \<Rightarrow> True | next # _ \<Rightarrow> sequence next \<noteq> sequence row)
      in if closes \<and> listed' > max_ids then start'
         else cut_loop rows max_ids (index + 1) rest fates' listed' start')"

definition cut_at :: "change list \<Rightarrow> nat \<Rightarrow> nat" where
  "cut_at rows max_ids = cut_loop rows max_ids 0 rows [] 0 0"

definition fates_of :: "change list \<Rightarrow> fates" where
  "fates_of rows = foldl (\<lambda>fates row. fst (advance fates row)) [] rows"

definition ids_with :: "fate \<Rightarrow> fates \<Rightarrow> string list" where
  "ids_with f fates = map fst (filter (\<lambda>e. snd e = f) fates)"

definition fold_window :: "change list \<Rightarrow> nat option \<Rightarrow> nat \<Rightarrow> window option" where
  "fold_window rows max_changes current =
     (let c = (case max_changes of None \<Rightarrow> length rows | Some m \<Rightarrow> cut_at rows m);
          fates = fates_of (take c rows);
          full = \<lparr>w_created = ids_with FCreated fates, w_updated = ids_with FUpdated fates,
                  w_destroyed = ids_with FDestroyed fates, w_new_state = current, w_has_more = False\<rparr>
      in if c < length rows
         then (if c = 0 then None
               else Some (full\<lparr>w_new_state := sequence (last (take c rows)), w_has_more := True\<rparr>))
         else Some full)"

record changes_answer =
  ans_account_id :: string
  ans_old_state :: string
  ans_new_state :: string
  ans_has_more :: bool
  ans_created :: "string list"
  ans_updated :: "string list"
  ans_destroyed :: "string list"

definition parse_state :: "string \<Rightarrow> nat option" where
  "parse_state s = (case parse_unsigned u64_max s of
      None \<Rightarrow> None | Some n \<Rightarrow> if digits n = s then Some n else None)"

definition changes ::
  "log_db \<Rightarrow> account_key \<Rightarrow> changes_arguments \<Rightarrow> object_type \<Rightarrow> method_error + changes_answer" where
  "changes db key a object =
     and_then (account_check key (arg_account_id a)) (\<lambda>_.
     and_then (changes_checked a) (\<lambda>_.
     and_then (ok_or CannotCalculateChanges (parse_state (arg_since_state a))) (\<lambda>since.
     let read = changes_since db key object since in
     and_then (ok_or CannotCalculateChanges (cs_changes read)) (\<lambda>rows.
     and_then (ok_or CannotCalculateChanges (fold_window rows (arg_max_changes a) (cs_state read))) (\<lambda>w.
     Inr \<lparr>ans_account_id = key, ans_old_state = arg_since_state a,
          ans_new_state = digits (w_new_state w), ans_has_more = w_has_more w,
          ans_created = w_created w, ans_updated = w_updated w, ans_destroyed = w_destroyed w\<rparr>)))))"

subsection \<open>The fate of one id\<close>

definition fate_upd :: "fate option \<Rightarrow> change_kind \<Rightarrow> fate option" where
  "fate_upd e k = Some (case e of None \<Rightarrow> fate_start k | Some f \<Rightarrow> fate_then f k)"

fun fate_shows :: "fate option \<Rightarrow> bool \<Rightarrow> bool \<Rightarrow> bool" where
  "fate_shows None p q = (p = q)"
| "fate_shows (Some FCreated) p q = (\<not> p \<and> q)"
| "fate_shows (Some FUpdated) p q = (p \<and> q)"
| "fate_shows (Some FDestroyed) p q = (p \<and> \<not> q)"
| "fate_shows (Some FGone) p q = (\<not> p \<and> \<not> q)"

interpretation fate_fold: net_change None fate_upd fate_shows
proof unfold_locales
  fix e p q k q'
  assume "fate_shows e p q" "legal q k = Some q'"
  then show "fate_shows (fate_upd e k) p q'"
    by (cases "(e, p, q)" rule: fate_shows.cases; cases k; cases q) (simp_all add: fate_upd_def)
qed simp

lemma advance_moves:
  "fst (advance m row) =
     btree.put_or_remove (change_id row) ((\<lambda>e row. fate_upd e (kind row)) (map_of m (change_id row)) row) m"
  by (simp add: advance_def Let_def fate_upd_def btree.put_or_remove_def split: option.split)

lemma fates_ok: "bt_ok (fates_of rows)"
  unfolding fates_of_def by (rule btree.ok_events [OF advance_moves bt_ok_Nil])

definition kinds_of :: "string \<Rightarrow> change list \<Rightarrow> change_kind list" where
  "kinds_of i rows = map kind (filter (\<lambda>r. change_id r = i) rows)"

lemma fates_entry: "map_of (fates_of rows) i = foldl fate_upd None (kinds_of i rows)"
proof -
  have "foldl (\<lambda>e row. fate_upd e (kind row)) e rs = foldl fate_upd e (map kind rs)" for e rs
    by (induction rs arbitrary: e) auto
  then show ?thesis
    unfolding fates_of_def kinds_of_def
    by (subst btree.get_events [OF advance_moves]) simp
qed

lemma ids_with_set: "i \<in> set (ids_with f (fates_of rows)) \<longleftrightarrow> map_of (fates_of rows) i = Some f"
  unfolding ids_with_def using bt_entries [OF fates_ok, of i f rows] by force

lemma ids_with_distinct: "distinct (ids_with f (fates_of rows))"
  unfolding ids_with_def by (rule distinct_map_filter [OF bt_ok_distinct [OF fates_ok]])

subsection \<open>Where the rows are cut\<close>

definition listed_count :: "change list \<Rightarrow> nat" where
  "listed_count rows = length (filter (\<lambda>e. fate_listed (snd e)) (fates_of rows))"

lemma filter_bt_insert:
  assumes "bt_ok m"
  shows "length (filter (\<lambda>e. P (snd e)) (bt_insert k v m)) =
    length (filter (\<lambda>e. P (snd e)) m) + (if P v then 1 else 0)
      - (case map_of m k of Some u \<Rightarrow> if P u then 1 else 0 | None \<Rightarrow> 0)"
    and "map_of m k = Some u \<Longrightarrow> P u \<Longrightarrow> 0 < length (filter (\<lambda>e. P (snd e)) m)"
proof -
  show "0 < length (filter (\<lambda>e. P (snd e)) m)" if "map_of m k = Some u" "P u"
    using map_of_SomeD [OF that(1)] that(2) by (force simp: filter_empty_conv)
  show "length (filter (\<lambda>e. P (snd e)) (bt_insert k v m)) =
    length (filter (\<lambda>e. P (snd e)) m) + (if P v then 1 else 0)
      - (case map_of m k of Some u \<Rightarrow> if P u then 1 else 0 | None \<Rightarrow> 0)"
    using assms
  proof (induction k v m rule: bt_insert.induct)
    case (2 k v a b m)
    have gt: "map_of m x = None" if "x \<le> a" for x
      using 2(2) that by (force simp: bt_ok_def map_of_eq_None_iff)
    have pos: "map_of m k = Some u \<Longrightarrow> P u \<Longrightarrow> 0 < length (filter (\<lambda>e. P (snd e)) m)" for u
      by (force simp: filter_empty_conv dest!: map_of_SomeD)
    show ?case
      using 2 gt [of k] gt [of a] by (auto simp: bt_ok_def split: option.splits dest: pos)
  qed simp
qed

lemma fates_of_snoc: "fates_of (rows @ [r]) = fst (advance (fates_of rows) r)"
  by (simp add: fates_of_def)

lemma listed_count_step:
  "listed_count (rows @ [r]) =
     listed_count rows + (if fate_listed (snd (snd (advance (fates_of rows) r))) then 1 else 0)
       - (case map_of (fates_of rows) (change_id r) of Some f \<Rightarrow> if fate_listed f then 1 else 0 | None \<Rightarrow> 0)"
  unfolding listed_count_def fates_of_snoc
  by (subst advance_def) (simp add: Let_def filter_bt_insert(1) [OF fates_ok] advance_def)

text \<open>A place between two states: nothing before it, or another sequence on each side.\<close>

definition boundary :: "change list \<Rightarrow> nat \<Rightarrow> bool" where
  "boundary rows c \<longleftrightarrow> c \<le> length rows \<and>
     (0 < c \<longrightarrow> c < length rows \<longrightarrow> sequence (rows ! (c - 1)) \<noteq> sequence (rows ! c))"

definition cut_ok :: "change list \<Rightarrow> nat \<Rightarrow> nat \<Rightarrow> bool" where
  "cut_ok rows m c \<longleftrightarrow> boundary rows c \<and> listed_count (take c rows) \<le> m"

definition loop_inv :: "change list \<Rightarrow> nat \<Rightarrow> nat \<Rightarrow> nat \<Rightarrow> bool" where
  "loop_inv rows m index start \<longleftrightarrow>
     index \<le> length rows \<and> start \<le> index \<and> cut_ok rows m start \<and>
     (0 < index \<longrightarrow> start < index \<and> sequence (rows ! start) = sequence (rows ! (index - 1)) \<and>
        (boundary rows index \<longrightarrow> cut_ok rows m index))"

lemma cut_loop_ok:
  assumes "rest = drop index rows" "fates = fates_of (take index rows)"
    "listed = listed_count (take index rows)" "loop_inv rows m index start"
  shows "cut_ok rows m (cut_loop rows m index rest fates listed start)"
  using assms
proof (induction rest arbitrary: index fates listed start)
  case Nil
  then have "index = length rows" by (simp add: loop_inv_def)
  with Nil.prems(4) show ?case
    by (cases "rows = []") (auto simp: loop_inv_def boundary_def cut_ok_def)
next
  case (Cons row rest)
  have lt: "index < length rows" and row: "row = rows ! index" and rest: "rest = drop (index + 1) rows"
    using Cons.prems(1) by (metis drop_eq_Nil2 list.discI not_le,
        metis Cons_nth_drop_Suc drop_eq_Nil2 list.discI list.inject not_le,
        metis Cons_nth_drop_Suc Suc_eq_plus1 drop_eq_Nil2 list.discI list.inject not_le)
  let ?start = "if sequence row \<noteq> sequence (rows ! start) then index else start"
  let ?closes = "case rest of [] \<Rightarrow> True | next # _ \<Rightarrow> sequence next \<noteq> sequence row"
  let ?listed = "listed_count (take (index + 1) rows)"
  have snoc: "take (index + 1) rows = take index rows @ [row]"
    using lt row by (simp add: take_Suc_conv_app_nth)
  have closes: "?closes \<longleftrightarrow> boundary rows (index + 1)"
    using lt row by (cases "index + 1 < length rows")
      (auto simp: rest boundary_def simp flip: Cons_nth_drop_Suc)
  have start: "cut_ok rows m ?start" "?start \<le> index" "sequence (rows ! ?start) = sequence row"
    using Cons.prems(4) lt row by (auto simp: loop_inv_def boundary_def)
  obtain fates' before after where adv: "advance fates row = (fates', before, after)"
    by (metis prod_cases3)
  have "fates' = fates_of (take (index + 1) rows)"
    unfolding snoc fates_of_snoc using adv Cons.prems(2) by simp
  moreover have "before = map_of fates (change_id row)"
    using adv by (simp add: advance_def Let_def)
  ultimately have f: "fates' = fates_of (take (index + 1) rows)" "before = map_of fates (change_id row)"
    by simp_all
  have l: "listed + (if fate_listed after then 1 else 0)
      - (case before of Some f \<Rightarrow> if fate_listed f then 1 else 0 | None \<Rightarrow> 0) = ?listed"
    unfolding snoc listed_count_step using Cons.prems(2,3) adv f(2) by simp
  have unfold: "cut_loop rows m index (row # rest) fates listed start =
      (if ?closes \<and> ?listed > m then ?start else cut_loop rows m (index + 1) rest fates' ?listed ?start)"
    by (simp only: cut_loop.simps Let_def adv prod.case l)
  show ?case
  proof (cases "?closes \<and> ?listed > m")
    case True
    then show ?thesis unfolding unfold using start by simp
  next
    case False
    then have "loop_inv rows m (index + 1) ?start"
      using start lt row closes by (auto simp: loop_inv_def cut_ok_def)
    then show ?thesis
      unfolding unfold if_not_P [OF False] using Cons.IH [of "index + 1" fates' ?listed ?start] rest f by simp
  qed
qed

lemma cut_at_ok: "cut_ok rows m (cut_at rows m)"
  unfolding cut_at_def
  by (rule cut_loop_ok) (auto simp: loop_inv_def cut_ok_def boundary_def listed_count_def fates_of_def)

subsection \<open>What rows say about the objects\<close>

text \<open>
  \<open>describes rows a b h\<close>: the rows tell, for every id, how it went from the ids of state \<open>a\<close> to
  the ids of state \<open>b\<close>, where \<open>h n\<close> are the ids at state \<open>n\<close>.
\<close>

definition row_at :: "change list \<Rightarrow> nat \<Rightarrow> string \<Rightarrow> change_kind option" where
  "row_at rows n i = map_option kind (List.find (\<lambda>r. sequence r = n \<and> change_id r = i) rows)"

definition describes :: "change list \<Rightarrow> nat \<Rightarrow> nat \<Rightarrow> (nat \<Rightarrow> string set) \<Rightarrow> bool" where
  "describes rows a b h \<longleftrightarrow>
     a \<le> b \<and> sorted (map sequence rows) \<and> distinct (map (\<lambda>r. (sequence r, change_id r)) rows) \<and>
     (\<forall>r \<in> set rows. a < sequence r \<and> sequence r \<le> b) \<and>
     (\<forall>n i. a < n \<longrightarrow> n \<le> b \<longrightarrow> entry_shows (row_at rows n i) (i \<in> h (n - 1)) (i \<in> h n))"

lemma constant_run:
  fixes a b :: nat and p :: "nat \<Rightarrow> bool"
  shows "a \<le> b \<Longrightarrow> (\<And>n. a < n \<Longrightarrow> n \<le> b \<Longrightarrow> p (n - 1) = p n) \<Longrightarrow> p a = p b"
proof (induction b)
  case (Suc b)
  show ?case
  proof (cases "a = Suc b")
    case False
    with Suc.prems(1) have "a \<le> b" by simp
    then have "p a = p b" using Suc.prems(2) by (intro Suc.IH) simp_all
    also have "p b = p (Suc b)" using Suc.prems(2) [of "Suc b"] \<open>a \<le> b\<close> by simp
    finally show ?thesis .
  qed simp
qed simp

text \<open>The rows of one id, in order, are a legal run between its presence at the two ends.\<close>

lemma id_run:
  assumes "a \<le> b" "sorted_wrt (<) (map sequence rs)" "\<forall>r \<in> set rs. a < sequence r \<and> sequence r \<le> b"
    and "\<And>n. a < n \<Longrightarrow> n \<le> b \<Longrightarrow>
      entry_shows (map_option kind (List.find (\<lambda>r. sequence r = n) rs)) (p (n - 1)) (p n)"
  shows "legal_run (p a) (map kind rs) = Some (p b)"
  using assms
proof (induction rs arbitrary: a)
  case Nil
  then show ?case using constant_run [of a b p] by simp
next
  case (Cons r rs)
  let ?n = "sequence r"
  have n: "a < ?n" "?n \<le> b" using Cons.prems(3) by auto
  have later: "\<forall>s \<in> set rs. ?n < sequence s" using Cons.prems(2) by auto
  have none: "List.find (\<lambda>r. sequence r = m) (r # rs) = None" if "m < ?n" for m
    using later that by (auto simp: find_None_iff)
  have "p a = p (?n - 1)"
  proof (rule constant_run)
    fix m assume m: "a < m" "m \<le> ?n - 1"
    then have "m < ?n" "m \<le> b" using n by linarith+
    then show "p (m - 1) = p m" using Cons.prems(4) [OF m(1)] none [of m] by (simp del: find.simps)
  qed (use n in simp)
  moreover have "legal (p (?n - 1)) (kind r) = Some (p ?n)"
    using Cons.prems(4) [OF n] by (simp flip: entry_shows_legal)
  moreover have "legal_run (p ?n) (map kind rs) = Some (p b)"
  proof (rule Cons.IH [OF n(2)])
    show "sorted_wrt (<) (map sequence rs)" using Cons.prems(2) by simp
    show "\<forall>r \<in> set rs. ?n < sequence r \<and> sequence r \<le> b" using later Cons.prems(3) by auto
    fix m assume "?n < m" "m \<le> b"
    then show "entry_shows (map_option kind (List.find (\<lambda>r. sequence r = m) rs)) (p (m - 1)) (p m)"
      using Cons.prems(4) [of m] n by auto
  qed
  ultimately show ?case by simp
qed

lemma find_filter_id:
  "List.find (\<lambda>r. sequence r = n) (filter (\<lambda>r. change_id r = i) rows) =
   List.find (\<lambda>r. sequence r = n \<and> change_id r = i) rows"
  by (induction rows) auto

lemma describes_run:
  assumes "describes rows a b h"
  shows "legal_run (i \<in> h a) (kinds_of i rows) = Some (i \<in> h b)"
proof -
  let ?rs = "filter (\<lambda>r. change_id r = i) rows"
  have "distinct (map (\<lambda>r. (sequence r, change_id r)) rows)" using assms by (simp add: describes_def)
  then have "distinct (map sequence ?rs)" by (induction rows) (auto simp: image_iff)
  moreover have "sorted (map sequence ?rs)"
    using assms by (simp add: describes_def sorted_filter)
  ultimately have "sorted_wrt (<) (map sequence ?rs)" by (simp add: strict_sorted_iff)
  moreover have "entry_shows (map_option kind (List.find (\<lambda>r. sequence r = n) ?rs)) (i \<in> h (n - 1)) (i \<in> h n)"
    if "a < n" "n \<le> b" for n
    unfolding find_filter_id using assms that by (simp add: describes_def row_at_def)
  ultimately show ?thesis
    unfolding kinds_of_def using assms by (intro id_run) (auto simp: describes_def)
qed

text \<open>The three lists are the difference of the two sets, and what is in both and was touched.\<close>

definition tells :: "window \<Rightarrow> change list \<Rightarrow> string set \<Rightarrow> string set \<Rightarrow> bool" where
  "tells w rows old new \<longleftrightarrow>
     set (w_created w) = new - old \<and> set (w_destroyed w) = old - new \<and>
     set (w_updated w) = {i \<in> old \<inter> new. i \<in> change_id ` set rows} \<and>
     distinct (w_created w @ w_updated w @ w_destroyed w)"

lemma fates_tell:
  assumes "describes rows a b h"
    and "w_created w = ids_with FCreated (fates_of rows)" "w_updated w = ids_with FUpdated (fates_of rows)"
    and "w_destroyed w = ids_with FDestroyed (fates_of rows)"
  shows "tells w rows (h a) (h b)"
proof -
  have sh: "fate_shows (map_of (fates_of rows) i) (i \<in> h a) (i \<in> h b)" for i
    unfolding fates_entry by (rule fate_fold.run_from_start [OF describes_run [OF assms(1)]])
  have some: "map_of (fates_of rows) i = None \<longleftrightarrow> i \<notin> change_id ` set rows" for i
  proof -
    have "foldl fate_upd e ks = None \<longleftrightarrow> e = None \<and> ks = []" for e ks
      by (induction ks arbitrary: e) (simp_all add: fate_upd_def)
    then show ?thesis by (auto simp: fates_entry kinds_of_def filter_empty_conv)
  qed
  have cases: "i \<in> set (ids_with f (fates_of rows)) \<longleftrightarrow> map_of (fates_of rows) i = Some f" for i f
    by (rule ids_with_set)
  have fate: "map_of (fates_of rows) i =
      (if i \<in> change_id ` set rows
       then Some (if i \<in> h a then if i \<in> h b then FUpdated else FDestroyed
                  else if i \<in> h b then FCreated else FGone)
       else None)" for i
    using sh [of i] some [of i]
    by (cases "map_of (fates_of rows) i"; cases "the (map_of (fates_of rows) i)") auto
  have touched: "i \<in> h a \<longleftrightarrow> i \<in> h b" if "i \<notin> change_id ` set rows" for i
    using sh [of i] some [of i] that by simp
  have sets: "set (ids_with FCreated (fates_of rows)) = h b - h a"
      "set (ids_with FDestroyed (fates_of rows)) = h a - h b"
      "set (ids_with FUpdated (fates_of rows)) = {i \<in> h a \<inter> h b. i \<in> change_id ` set rows}"
    using touched by (auto simp: cases fate split: if_splits) (metis+)
  then show ?thesis
    unfolding tells_def assms(2-4) by (auto simp: ids_with_distinct)
qed

lemma describes_take:
  assumes d: "describes rows a b h" and c: "boundary rows c" "0 < c" "c < length rows"
  shows "describes (take c rows) a (sequence (last (take c rows))) h \<and>
    a < sequence (last (take c rows)) \<and> sequence (last (take c rows)) < b"
proof -
  let ?s = "sequence (last (take c rows))"
  have last: "last (take c rows) = rows ! (c - 1)"
    using c(2,3) by (subst last_conv_nth) (auto simp: min_def)
  have sorted: "sorted (map sequence rows)" using d by (simp add: describes_def)
  have le: "sequence (rows ! i) \<le> sequence (rows ! j)" if "i \<le> j" "j < length rows" for i j
    using sorted_nth_mono [OF sorted that(1)] that by simp
  have low: "sequence r \<le> ?s" if "r \<in> set (take c rows)" for r
    using that c(3) le unfolding last by (auto simp: in_set_conv_nth)
  have high: "?s < sequence r" if "r \<in> set (drop c rows)" for r
  proof -
    from that obtain i where i: "i < length rows - c" "r = rows ! (c + i)"
      by (auto simp: in_set_conv_nth)
    define j where "j = c + i"
    with i have j: "j < length rows" "c \<le> j" "r = rows ! j" by auto
    have "?s \<le> sequence (rows ! c)" unfolding last using c le [of "c - 1" c] by simp
    moreover have "?s \<noteq> sequence (rows ! c)" using c unfolding last by (simp add: boundary_def)
    moreover have "sequence (rows ! c) \<le> sequence r" using le [of c j] j by simp
    ultimately show ?thesis by simp
  qed
  have in_rows: "last (take c rows) \<in> set rows" "rows ! c \<in> set rows"
    unfolding last using c by (simp_all add: nth_mem less_imp_diff_less)
  have s: "a < ?s" "?s < b"
  proof -
    show "a < ?s" using d in_rows by (simp add: describes_def)
    have "drop c rows = rows ! c # drop (Suc c) rows" using c by (simp add: Cons_nth_drop_Suc)
    then have "rows ! c \<in> set (drop c rows)" by simp
    from high [OF this] show "?s < b" using d in_rows(2) by (fastforce simp: describes_def)
  qed
  have same: "row_at (take c rows) n i = row_at rows n i" if "n \<le> ?s" for n i
  proof -
    have "List.find (\<lambda>r. sequence r = n \<and> change_id r = i) (drop c rows) = None"
      using high that by (fastforce simp: find_None_iff)
    then have "List.find (\<lambda>r. sequence r = n \<and> change_id r = i) (take c rows @ drop c rows) =
        List.find (\<lambda>r. sequence r = n \<and> change_id r = i) (take c rows)"
      by (simp only: find_append) (simp split: option.split)
    then show ?thesis by (simp add: row_at_def)
  qed
  have "describes (take c rows) a ?s h"
    unfolding describes_def
  proof (intro conjI allI impI)
    show "sorted (map sequence (take c rows))" using sorted_wrt_take [OF sorted, of c] by (simp only: take_map)
    show "distinct (map (\<lambda>r. (sequence r, change_id r)) (take c rows))"
      using d by (simp add: describes_def take_map [symmetric] distinct_take)
    show "\<forall>r \<in> set (take c rows). a < sequence r \<and> sequence r \<le> ?s"
      using d low by (auto simp: describes_def dest: in_set_takeD)
    fix n i assume "a < n" "n \<le> ?s"
    then show "entry_shows (row_at (take c rows) n i) (i \<in> h (n - 1)) (i \<in> h n)"
      using d s same by (simp add: describes_def)
  qed (use s in simp)
  with s show ?thesis by simp
qed

end
