(* ===== verification/Change_Sync.thy ===== *)
theory Change_Sync
  imports Changes_Window
begin

text \<open>
  The log and its readers together: every store a run of writes can reach answers \<open>/changes\<close> with
  the exact difference between the objects of two states, a capped answer makes progress and stays
  below its cap, and a client that asks until nothing is left holds the objects of the store.
\<close>

record world =
  w_db :: log_db
  w_hist :: "account_key \<Rightarrow> nat \<Rightarrow> object set"

definition world_start :: world where
  "world_start = \<lparr>w_db = log_empty, w_hist = \<lambda>_ _. {}\<rparr>"

abbreviation objects_now :: "world \<Rightarrow> account_key \<Rightarrow> object set" where
  "objects_now w key \<equiv> w_hist w key (state_of (w_db w) key)"

definition world_after :: "world \<Rightarrow> account_key \<Rightarrow> object set \<Rightarrow> nat \<Rightarrow> log_db \<Rightarrow> world" where
  "world_after w key objs seq db =
     \<lparr>w_db = db, w_hist = (w_hist w)(key := (w_hist w key)(seq := objs))\<rparr>"

text \<open>The writes: one on a folder the account holds and one that touches emails alone.\<close>

inductive log_step :: "world \<Rightarrow> world \<Rightarrow> bool" where
  folder_write:
    "legal_notes (objects_now w key) ns = Some objs \<Longrightarrow>
     (Mailbox, folder) \<in> objects_now w key \<Longrightarrow> notes_of (Mailbox, folder) ns = [] \<Longrightarrow>
     close_write (w_db w) key folder (ledger_of ns) = Inr (seq, db) \<Longrightarrow>
     log_step w (world_after w key objs seq db)"
| plain_write:
    "legal_notes (objects_now w key) ns = Some objs \<Longrightarrow>
     close_previews (w_db w) key (ledger_of ns) = Inr (seq, db) \<Longrightarrow>
     log_step w (world_after w key objs seq db)"

inductive log_reachable :: "world \<Rightarrow> bool" where
  start: "log_reachable world_start"
| step: "log_reachable w \<Longrightarrow> log_step w w' \<Longrightarrow> log_reachable w'"

definition world_inv :: "world \<Rightarrow> bool" where
  "world_inv w \<longleftrightarrow> (\<forall>key. log_inv (rows_of (w_db w) key) (state_of (w_db w) key) (w_hist w key))"

lemma written_inv:
  assumes "world_inv w" "written (w_db w) key (w_hist w key) objs (seq, db)"
  shows "world_inv (world_after w key objs seq db)"
  using assms by (auto simp: world_inv_def written_def world_after_def)

lemma log_step_inv: "log_step w w' \<Longrightarrow> world_inv w \<Longrightarrow> world_inv w'"
proof (induction rule: log_step.induct)
  case (folder_write w key ns objs folder seq db)
  then have "log_inv (rows_of (w_db w) key) (state_of (w_db w) key) (w_hist w key)"
    by (simp add: world_inv_def)
  from close_write_written [OF this folder_write.hyps(1-3)] folder_write show ?case
    by (auto intro: written_inv)
next
  case (plain_write w key ns objs seq db)
  then have "log_inv (rows_of (w_db w) key) (state_of (w_db w) key) (w_hist w key)"
    by (simp add: world_inv_def)
  from close_previews_written [OF this plain_write.hyps(1)] plain_write show ?case
    by (auto intro: written_inv)
qed

lemma reachable_inv: "log_reachable w \<Longrightarrow> world_inv w"
proof (induction rule: log_reachable.induct)
  case start
  then show ?case
    by (simp add: world_inv_def world_start_def log_empty_def log_inv_def rows_of_def state_of_def)
next
  case (step w w')
  then show ?case by (blast intro: log_step_inv)
qed

lemma reachable_log_inv:
  "log_reachable w \<Longrightarrow> log_inv (rows_of (w_db w) key) (state_of (w_db w) key) (w_hist w key)"
  using reachable_inv by (simp add: world_inv_def)

subsection \<open>What a reader gets\<close>

definition ids_at :: "(nat \<Rightarrow> object set) \<Rightarrow> object_type \<Rightarrow> nat \<Rightarrow> string set" where
  "ids_at h t n = {i. (t, i) \<in> h n}"

lemma fold_min_le: "fold min ss (s :: nat) \<le> s" "x \<in> set ss \<Longrightarrow> fold min ss s \<le> x"
proof (induction ss arbitrary: s)
  case (Cons y ss)
  { case 1 then show ?case using Cons.IH(1) [of "min y s"] by simp }
  { case 2 then show ?case using Cons.IH(1) [of "min y s"] Cons.IH(2) [of "min y s"] by auto }
qed simp_all

lemma fold_min_in: "fold min ss (s :: nat) \<in> insert s (set ss)"
proof (induction ss arbitrary: s)
  case (Cons y ss)
  then show ?case using Cons [of "min y s"] by (auto simp: min_def split: if_splits)
qed simp

lemma oldest_kept_Some:
  assumes "oldest_kept db key = Some n"
  shows "\<exists>r \<in> set (rows_of db key). lr_sequence r = n"
proof -
  obtain s ss where m: "map lr_sequence (rows_of db key) = s # ss" "n = fold min ss s"
    using assms by (auto simp: oldest_kept_def split: list.splits)
  then have "n \<in> set (map lr_sequence (rows_of db key))" using fold_min_in [of ss s] by simp
  then show ?thesis by auto
qed

definition to_change :: "log_row \<Rightarrow> change" where
  "to_change r = \<lparr>sequence = lr_sequence r, change_id = lr_id r, kind = lr_kind r\<rparr>"

lemma row_at_Some:
  assumes "distinct (map (\<lambda>r. (sequence r, change_id r)) rows)"
  shows "row_at rows n i = Some k \<longleftrightarrow> (\<exists>r \<in> set rows. sequence r = n \<and> change_id r = i \<and> kind r = k)"
  using assms by (induction rows) (auto simp: row_at_def split: if_splits)

lemma read_changes_describes:
  assumes inv: "log_inv (rows_of db key) (state_of db key) h"
    and since: "since \<le> state_of db key"
    and reach: "\<And>n. since < n \<Longrightarrow> n \<le> state_of db key \<Longrightarrow> reaches (rows_of db key) n"
  shows "describes (read_changes db key object since) since (state_of db key) (ids_at h object)"
proof -
  let ?sel = "filter (\<lambda>r. lr_type r = object \<and> lr_sequence r > since) (rows_of db key)"
  let ?sorted = "sort_key (\<lambda>r. (lr_sequence r, lr_id r)) ?sel"
  let ?rows = "read_changes db key object since"
  have rows: "?rows = map to_change ?sorted" by (simp add: read_changes_def to_change_def)
  have set: "set ?rows = to_change ` set ?sel" by (simp add: rows)
  have "sorted (map (\<lambda>r. (lr_sequence r, lr_id r)) ?sorted)" by simp
  then have sorted: "sorted (map sequence ?rows)"
    by (simp add: rows to_change_def sorted_map o_def)
      (erule sorted_wrt_mono_rel [rotated], auto simp: less_eq_prod_def)
  have "distinct (map row_pk (rows_of db key))" by (rule log_invD(2) [OF inv])
  then have "distinct (map (\<lambda>r. (lr_sequence r, lr_id r)) ?sel)"
    by (auto simp: distinct_map inj_on_def row_pk_def)
  then have dist: "distinct (map (\<lambda>r. (sequence r, change_id r)) ?rows)"
    by (simp add: rows to_change_def o_def distinct_map)
  have at: "row_at ?rows n i = row_kind (rows_of db key) n (object, i)" if "since < n" for n i
  proof -
    have "row_at ?rows n i = Some k \<longleftrightarrow> row_kind (rows_of db key) n (object, i) = Some k" for k
      unfolding row_at_Some [OF dist] row_kind_Some [OF log_invD(2) [OF inv]] set
      using that by (auto simp: to_change_def row_pk_def)
    then show ?thesis by (metis option.exhaust)
  qed
  show ?thesis
    unfolding describes_def
  proof (intro conjI allI impI)
    show "\<forall>r \<in> set ?rows. since < sequence r \<and> sequence r \<le> state_of db key"
      unfolding set using log_invD(1) [OF inv] by (auto simp: to_change_def)
    fix n i assume n: "since < n" "n \<le> state_of db key"
    show "entry_shows (row_at ?rows n i) (i \<in> ids_at h object (n - 1)) (i \<in> ids_at h object n)"
      using log_invD(3) [OF inv _ n(2) reach [OF n], of "(object, i)"] n by (simp add: at ids_at_def)
  qed (use since sorted dist in auto)
qed

lemma changes_since_describes:
  assumes inv: "log_inv (rows_of db key) (state_of db key) h"
    and read: "cs_changes (changes_since db key object since) = Some rows"
  shows "describes rows since (state_of db key) (ids_at h object)"
proof (cases "oldest_kept db key")
  case None
  then have "rows = [] \<and> since = state_of db key"
    using read by (auto simp: changes_since_def Let_def split: if_splits)
  then show ?thesis by (simp add: describes_def)
next
  case (Some oldest)
  then have s: "since \<le> state_of db key" "oldest \<le> since + 1" "rows = read_changes db key object since"
    using read by (auto simp: changes_since_def Let_def split: if_splits)
  obtain r where "r \<in> set (rows_of db key)" "lr_sequence r = oldest"
    using oldest_kept_Some [OF Some] by blast
  then have "reaches (rows_of db key) n" if "since < n" for n
    using s(2) that by (force simp: reaches_def)
  then show ?thesis using inv s by (auto intro: read_changes_describes)
qed

lemma fold_window_Some:
  assumes d: "describes rows since current h" and w: "fold_window rows m current = Some w"
  obtains c where "w_created w = ids_with FCreated (fates_of (take c rows))"
    "w_updated w = ids_with FUpdated (fates_of (take c rows))"
    "w_destroyed w = ids_with FDestroyed (fates_of (take c rows))"
    "describes (take c rows) since (w_new_state w) h"
    "if w_has_more w then since < w_new_state w \<and> w_new_state w < current else w_new_state w = current"
    "\<forall>k. m = Some k \<longrightarrow> listed_count (take c rows) \<le> k"
proof -
  let ?c = "case m of None \<Rightarrow> length rows | Some m \<Rightarrow> cut_at rows m"
  have bound: "boundary rows ?c" "\<forall>k. m = Some k \<longrightarrow> listed_count (take ?c rows) \<le> k"
    using cut_at_ok [of rows] by (auto simp: cut_ok_def boundary_def split: option.splits)
  show ?thesis
  proof (cases "?c < length rows")
    case True
    then have pos: "0 < ?c" using w by (auto simp: fold_window_def Let_def split: if_splits)
    have "w_created w = ids_with FCreated (fates_of (take ?c rows)) \<and>
        w_updated w = ids_with FUpdated (fates_of (take ?c rows)) \<and>
        w_destroyed w = ids_with FDestroyed (fates_of (take ?c rows)) \<and>
        w_new_state w = sequence (last (take ?c rows)) \<and> w_has_more w"
      using w True pos by (auto simp: fold_window_def Let_def split: if_splits)
    with that [of ?c] describes_take [OF d bound(1) pos True] bound(2) show ?thesis by simp
  next
    case False
    then have all: "take ?c rows = rows" by simp
    have "w_created w = ids_with FCreated (fates_of rows) \<and>
        w_updated w = ids_with FUpdated (fates_of rows) \<and>
        w_destroyed w = ids_with FDestroyed (fates_of rows) \<and> w_new_state w = current \<and> \<not> w_has_more w"
      using w False all by (auto simp: fold_window_def Let_def split: if_splits)
    with that [of ?c] all bound(2) d show ?thesis by simp
  qed
qed

lemma listed_count_lists:
  "length (ids_with FCreated (fates_of rows)) + length (ids_with FUpdated (fates_of rows))
     + length (ids_with FDestroyed (fates_of rows)) = listed_count rows"
proof -
  have "length (filter (\<lambda>e. snd e = FCreated) m) + length (filter (\<lambda>e. snd e = FUpdated) m)
      + length (filter (\<lambda>e. snd e = FDestroyed) m) = length (filter (\<lambda>e. fate_listed (snd e)) m)" for m :: fates
  proof (induction m)
    case (Cons e m)
    then show ?case by (cases "snd e") (auto simp: fate_listed_def)
  qed simp
  then show ?thesis by (simp add: ids_with_def listed_count_def)
qed

text \<open>What an answer of \<open>/changes\<close> owes its client.\<close>

definition answer_sound :: "changes_answer \<Rightarrow> changes_arguments \<Rightarrow> (nat \<Rightarrow> string set) \<Rightarrow> nat \<Rightarrow> bool" where
  "answer_sound ans a h current \<longleftrightarrow>
     (\<exists>since new. arg_since_state a = digits since \<and> ans_old_state ans = digits since \<and>
        ans_new_state ans = digits new \<and> since \<le> new \<and> new \<le> current \<and>
        set (ans_created ans) = h new - h since \<and> set (ans_destroyed ans) = h since - h new \<and>
        set (ans_updated ans) \<subseteq> h since \<inter> h new \<and>
        distinct (ans_created ans @ ans_updated ans @ ans_destroyed ans) \<and>
        (if ans_has_more ans then since < new \<and> new < current else new = current) \<and>
        (\<forall>m. arg_max_changes a = Some m \<longrightarrow>
           length (ans_created ans) + length (ans_updated ans) + length (ans_destroyed ans) \<le> m))"

lemma cs_state_simp: "cs_state (changes_since db key object since) = state_of db key"
  by (simp add: changes_since_def Let_def)

lemma changes_answer_sound:
  assumes inv: "log_inv (rows_of db key) (state_of db key) h"
    and ans: "changes db key a object = Inr ans"
  shows "answer_sound ans a (ids_at h object) (state_of db key)"
proof -
  let ?h = "ids_at h object"
  from ans obtain since rows w where p: "parse_state (arg_since_state a) = Some since"
      "cs_changes (changes_since db key object since) = Some rows"
      "fold_window rows (arg_max_changes a) (state_of db key) = Some w"
      "ans = \<lparr>ans_account_id = key, ans_old_state = arg_since_state a,
          ans_new_state = digits (w_new_state w), ans_has_more = w_has_more w,
          ans_created = w_created w, ans_updated = w_updated w, ans_destroyed = w_destroyed w\<rparr>"
    by (auto simp: changes_def and_then_Inr_eq ok_or_def Let_def cs_state_simp split: option.splits)
  have state: "arg_since_state a = digits since"
    using p(1) by (auto simp: parse_state_def split: option.splits if_splits)
  have d: "describes rows since (state_of db key) ?h"
    by (rule changes_since_describes [OF inv p(2)])
  obtain c where c: "w_created w = ids_with FCreated (fates_of (take c rows))"
    "w_updated w = ids_with FUpdated (fates_of (take c rows))"
    "w_destroyed w = ids_with FDestroyed (fates_of (take c rows))"
    "describes (take c rows) since (w_new_state w) ?h"
    "if w_has_more w then since < w_new_state w \<and> w_new_state w < state_of db key else w_new_state w = state_of db key"
    "\<forall>k. arg_max_changes a = Some k \<longrightarrow> listed_count (take c rows) \<le> k"
    by (rule fold_window_Some [OF d p(3)])
  have t: "tells w (take c rows) (?h since) (?h (w_new_state w))"
    by (rule fates_tell [OF c(4,1,2,3)])
  have le: "since \<le> w_new_state w \<and> w_new_state w \<le> state_of db key"
    using c(4,5) by (auto simp: describes_def split: if_splits)
  show ?thesis
    unfolding answer_sound_def
    using t le c(5,6) state p(4) listed_count_lists [of "take c rows"] c(1-3)
    by (intro exI [of _ since] exI [of _ "w_new_state w"]) (auto simp: tells_def)
qed

subsection \<open>A client that keeps up\<close>

text \<open>
  The loop a client runs: it asks from the state it holds, folds the answer into its ids, and asks
  again from the new state while the answer has more. \<open>Inr None\<close> is a loop that has not ended.
\<close>

fun sync_client ::
  "nat \<Rightarrow> log_db \<Rightarrow> account_key \<Rightarrow> object_type \<Rightarrow> nat option \<Rightarrow> string \<Rightarrow> string set
     \<Rightarrow> method_error + (string \<times> string set) option" where
  "sync_client 0 db key object cap state ids = Inr None"
| "sync_client (Suc fuel) db key object cap state ids =
     and_then (changes db key
         \<lparr>arg_account_id = key, arg_since_state = state, arg_max_changes = cap\<rparr> object)
       (\<lambda>ans. let ids' = (ids - set (ans_destroyed ans)) \<union> set (ans_created ans) in
          if ans_has_more ans then sync_client fuel db key object cap (ans_new_state ans) ids'
          else Inr (Some (ans_new_state ans, ids')))"

lemma changes_error_kind:
  assumes "changes db key a object = Inl e" "arg_account_id a = key" "arg_max_changes a \<noteq> Some 0"
  shows "e = CannotCalculateChanges"
  using assms
  by (auto simp: changes_def account_check_def changes_checked_def ok_or_def Let_def and_then_def
      split: option.splits if_splits)

lemma sync_client_ends:
  assumes inv: "log_inv (rows_of db key) (state_of db key) h" and cap: "cap \<noteq> Some 0"
    and fuel: "state_of db key - since < fuel" "since \<le> state_of db key"
    and ids: "ids = ids_at h object since"
  shows "sync_client fuel db key object cap (digits since) ids \<in>
     {Inl CannotCalculateChanges,
      Inr (Some (digits (state_of db key), ids_at h object (state_of db key)))}"
  using fuel ids
proof (induction fuel arbitrary: since ids)
  case (Suc fuel)
  let ?a = "\<lparr>arg_account_id = key, arg_since_state = digits since, arg_max_changes = cap\<rparr>"
  show ?case
  proof (cases "changes db key ?a object")
    case (Inl e)
    then show ?thesis using changes_error_kind [OF Inl] cap by (simp add: and_then_def)
  next
    case (Inr ans)
    from changes_answer_sound [OF inv Inr] obtain new where n:
      "ans_new_state ans = digits new" "since \<le> new" "new \<le> state_of db key"
      "set (ans_created ans) = ids_at h object new - ids_at h object since"
      "set (ans_destroyed ans) = ids_at h object since - ids_at h object new"
      "if ans_has_more ans then since < new \<and> new < state_of db key else new = state_of db key"
      unfolding answer_sound_def by (auto dest: digits_inj)
    have ids: "(ids - set (ans_destroyed ans)) \<union> set (ans_created ans) = ids_at h object new"
      using n(4,5) Suc.prems(3) by blast
    show ?thesis
    proof (cases "ans_has_more ans")
      case True
      with n Suc.prems have "state_of db key - new < fuel" by auto
      from Suc.IH [OF this n(3) refl] True Inr show ?thesis by (simp add: n(1) ids and_then_def)
    next
      case False
      with n Inr ids show ?thesis by (simp add: and_then_def)
    qed
  qed
qed simp

subsection \<open>Properties\<close>

text \<open>
  C9: Whatever writes led to the store, an answer of \<open>/changes\<close> names exactly the ids that came
  and went between the client's state and the answered one, names as updated only ids present at
  both, names no id twice, never exceeds the client's cap, and moves strictly forward while it has
  more.
\<close>

theorem changes_tells_difference:
  assumes "log_reachable w" "changes (w_db w) key a object = Inr ans"
  shows "answer_sound ans a (ids_at (w_hist w key) object) (state_of (w_db w) key)"
  by (rule changes_answer_sound [OF reachable_log_inv [OF assms(1)] assms(2)])

definition demo_notes :: "noted list" where
  "demo_notes = [(Mailbox, ''m'', Created), (Email, ''e'', Created), (Email, ''e'', Updated)]"

definition demo_db :: log_db where
  "demo_db = \<lparr>states = [''acc'' \<mapsto> 1], log_rows =
     [\<lparr>lr_key = ''acc'', lr_sequence = 1, lr_type = Email, lr_id = ''e'', lr_kind = Created\<rparr>,
      \<lparr>lr_key = ''acc'', lr_sequence = 1, lr_type = Mailbox, lr_id = ''m'', lr_kind = Created\<rparr>]\<rparr>"

definition demo_world :: world where
  "demo_world = world_after world_start ''acc'' {(Mailbox, ''m''), (Email, ''e'')} 1 demo_db"

lemma demo_close: "close_previews log_empty ''acc'' (ledger_of demo_notes) = Inr (1, demo_db)"
proof -
  have l: "ledger_of demo_notes = [((''Email'', ''e''), (Email, Created)), ((''Mailbox'', ''m''), (Mailbox, Created))]"
    by code_simp
  have p: "prune demo_db ''acc'' = demo_db"
    by (simp add: prune_def demo_db_def rows_of_def CHANGES_HORIZON_def)
  show ?thesis
    using p by (simp add: close_previews_def l ledger_is_empty_def next_sequence_def log_empty_def
        ledger_write_def log_change_def demo_db_def Let_def)
qed

lemma demo_reachable: "log_reachable demo_world"
proof -
  have "legal_notes {} demo_notes = Some {(Mailbox, ''m''), (Email, ''e'')}"
    by (auto simp: demo_notes_def)
  then have "log_step world_start demo_world"
    unfolding demo_world_def
    by (intro plain_write [where ns = demo_notes]) (simp_all add: world_start_def demo_close)
  with log_reachable.start show ?thesis by (rule log_reachable.step)
qed

lemma demo_changes:
  "changes demo_db ''acc'' \<lparr>arg_account_id = ''acc'', arg_since_state = ''0'', arg_max_changes = Some 5\<rparr> Email =
     Inr \<lparr>ans_account_id = ''acc'', ans_old_state = ''0'', ans_new_state = ''1'', ans_has_more = False,
          ans_created = [''e''], ans_updated = [], ans_destroyed = []\<rparr>"
proof -
  have d: "digits 0 = ''0''" "digits 1 = ''1''" by code_simp+
  have "parse_unsigned u64_max ''0'' = Some 0"
    using parse_digits [of 0 u64_max] by (simp add: d)
  then have "parse_state ''0'' = Some 0" by (simp add: parse_state_def d)
  moreover have "cs_changes (changes_since demo_db ''acc'' Email 0) =
      Some [\<lparr>sequence = 1, change_id = ''e'', kind = Created\<rparr>]" by code_simp
  moreover have "cs_state (changes_since demo_db ''acc'' Email 0) = 1" by code_simp
  moreover have "fold_window [\<lparr>sequence = 1, change_id = ''e'', kind = Created\<rparr>] (Some 5) 1 =
      Some \<lparr>w_created = [''e''], w_updated = [], w_destroyed = [], w_new_state = 1, w_has_more = False\<rparr>"
    by code_simp
  ultimately show ?thesis
    by (simp add: changes_def account_check_def changes_checked_def ok_or_def and_then_def Let_def d [unfolded One_nat_def])
qed

theorem changes_tells_difference_witness:
  "log_reachable demo_world \<and>
   answer_sound \<lparr>ans_account_id = ''acc'', ans_old_state = ''0'', ans_new_state = ''1'', ans_has_more = False,
          ans_created = [''e''], ans_updated = [], ans_destroyed = []\<rparr>
     \<lparr>arg_account_id = ''acc'', arg_since_state = ''0'', arg_max_changes = Some 5\<rparr>
     (ids_at (w_hist demo_world ''acc'') Email) (state_of (w_db demo_world) ''acc'')"
  using changes_tells_difference [OF demo_reachable, of "''acc''"
      "\<lparr>arg_account_id = ''acc'', arg_since_state = ''0'', arg_max_changes = Some 5\<rparr>" Email] demo_changes
    demo_reachable
  by (simp add: demo_world_def world_after_def)

text \<open>
  C12: A client that asks with any cap and folds each answer in ends after at most as many rounds
  as there are states to catch up, holding exactly the ids and the state of the store, or is told
  that the changes cannot be calculated; it never loops and never holds a wrong set.
\<close>

theorem client_catches_up:
  assumes "log_reachable w" "cap \<noteq> Some 0" "since \<le> state_of (w_db w) key"
    and "fuel = state_of (w_db w) key - since + 1"
  shows "sync_client fuel (w_db w) key object cap (digits since) (ids_at (w_hist w key) object since) \<in>
     {Inl CannotCalculateChanges,
      Inr (Some (digits (state_of (w_db w) key), ids_at (w_hist w key) object (state_of (w_db w) key)))}"
  using assms(2-4) by (intro sync_client_ends [OF reachable_log_inv [OF assms(1)]]) simp_all

theorem client_catches_up_witness:
  "sync_client 2 demo_db ''acc'' Email (Some 5) ''0'' {} = Inr (Some (''1'', {''e''}))
   \<and> sync_client 2 demo_db ''acc'' Email (Some 5) ''0'' {} \<in>
     {Inl CannotCalculateChanges, Inr (Some (''1'', {''e''}))}"
proof -
  have "digits 0 = ''0''" "digits 1 = ''1''" by code_simp+
  moreover have "state_of demo_db ''acc'' = 1" by (simp add: state_of_def demo_db_def)
  moreover have "ids_at (w_hist demo_world ''acc'') Email 0 = {}" "ids_at (w_hist demo_world ''acc'') Email 1 = {''e''}"
    by (auto simp: demo_world_def world_after_def world_start_def ids_at_def)
  moreover have "w_db demo_world = demo_db" by (simp add: demo_world_def world_after_def)
  ultimately show ?thesis
    using client_catches_up [OF demo_reachable, of "Some 5" 0 "''acc''" 2 Email]
    by (simp add: numeral_2_eq_2 demo_changes and_then_def)
qed

text \<open>
  C23: Closing a write on a folder never meets the primary key of the log: for every reachable
  store and every legal list of changes it returns, the counter is the state it returns, the rows
  of the new state say for each object how it came out of the write, every state the log still
  reaches stays described, and no other account sees a difference.
\<close>

theorem close_write_never_fails:
  assumes "log_reachable w" "legal_notes (objects_now w key) ns = Some objs"
    and "(Mailbox, folder) \<in> objects_now w key" "notes_of (Mailbox, folder) ns = []"
  shows "\<exists>seq db. close_write (w_db w) key folder (ledger_of ns) = Inr (seq, db) \<and>
     written (w_db w) key (w_hist w key) objs (seq, db)"
  using close_write_written [OF reachable_log_inv [OF assms(1)] assms(2-4)] by auto

theorem close_write_never_fails_witness:
  "\<exists>seq db. close_write demo_db ''acc'' ''m'' (ledger_of [(Email, ''e'', Destroyed), (Email, ''f'', Created)])
       = Inr (seq, db) \<and>
     written demo_db ''acc'' (w_hist demo_world ''acc'') {(Mailbox, ''m''), (Email, ''f'')} (seq, db)"
proof -
  have w: "w_db demo_world = demo_db" by (simp add: demo_world_def world_after_def)
  have now: "w_hist demo_world ''acc'' (state_of demo_db ''acc'') = {(Mailbox, ''m''), (Email, ''e'')}"
    by (simp add: demo_world_def world_after_def state_of_def demo_db_def)
  have "legal_notes {(Mailbox, ''m''), (Email, ''e'')} [(Email, ''e'', Destroyed), (Email, ''f'', Created)]
      = Some {(Mailbox, ''m''), (Email, ''f'')}"
    by (auto simp: insert_commute)
  from close_write_never_fails [OF demo_reachable, of "''acc''", unfolded w now, OF this, of "''m''"]
  show ?thesis by (simp add: notes_of_def)
qed

end
