(* ===== verification/Modified_Utf7.thy ===== *)
theory Modified_Utf7
  imports Bridge_Prelude
begin

text \<open>
  Mailbox names in modified UTF-7 (\<open>utf7.rs\<close>). A Rust \<open>char\<close> is its Unicode scalar value, a
  \<open>String\<close> the list of them, a \<open>u16\<close> and a \<open>u8\<close> a natural number. The two base64 operations
  belong to the \<open>base64\<close> crate and are parameters; what the code relies on is the locale
  \<open>base64_engine\<close>: bytes come back from their encoding, nothing encodes to nothing, and an
  encoding is written in the configured alphabet. A codec after RFC 4648 with that alphabet, no
  padding and no stray trailing bits has all three.
\<close>

type_synonym uchar = nat
type_synonym utext = "uchar list"

definition is_scalar :: "uchar \<Rightarrow> bool" where
  "is_scalar c \<longleftrightarrow> c < 0xD800 \<or> (0xE000 \<le> c \<and> c < 0x110000)"

definition uascii :: "string \<Rightarrow> utext" where
  "uascii = map of_char"

definition MODIFIED_ALPHABET :: utext where
  "MODIFIED_ALPHABET = uascii ''ABCDEFGHIJKLMNOPQRSTUVWXYZabcdefghijklmnopqrstuvwxyz0123456789+,''"

definition SHIFT :: uchar where "SHIFT = 38"
definition UNSHIFT :: uchar where "UNSHIFT = 45"

definition is_direct :: "uchar \<Rightarrow> bool" where
  "is_direct c \<longleftrightarrow> (32 \<le> c \<and> c \<le> 126) \<and> c \<noteq> SHIFT"

subsection \<open>UTF-16 and byte order, as the standard library has them\<close>

definition encode_utf16 :: "uchar \<Rightarrow> nat list" where
  "encode_utf16 c =
     (if c < 0x10000 then [c]
      else [0xD800 + (c - 0x10000) div 0x400, 0xDC00 + (c - 0x10000) mod 0x400])"

fun from_utf16 :: "nat list \<Rightarrow> utext option" where
  "from_utf16 [] = Some []"
| "from_utf16 (u # us) =
     (if u < 0xD800 \<or> 0xE000 \<le> u then map_option (Cons u) (from_utf16 us)
      else case us of
             [] \<Rightarrow> None
           | v # vs \<Rightarrow>
               if u < 0xDC00 \<and> 0xDC00 \<le> v \<and> v < 0xE000
               then map_option (Cons (0x10000 + (u - 0xD800) * 0x400 + (v - 0xDC00))) (from_utf16 vs)
               else None)"

definition to_be_bytes :: "nat \<Rightarrow> nat list" where
  "to_be_bytes u = [u div 256, u mod 256]"

fun be_units :: "nat list \<Rightarrow> nat list" where
  "be_units (a # b # r) = (256 * a + b) # be_units r"
| "be_units _ = []"

subsection \<open>Decoding\<close>

definition decode_run :: "(utext \<Rightarrow> nat list option) \<Rightarrow> utext \<Rightarrow> utext option" where
  "decode_run dec run =
     (if run = [] then Some [SHIFT]
      else case dec run of
             None \<Rightarrow> None
           | Some bytes \<Rightarrow> if length bytes mod 2 \<noteq> 0 then None else from_utf16 (be_units bytes))"

function decode_loop :: "(utext \<Rightarrow> nat list option) \<Rightarrow> utext \<Rightarrow> utext \<Rightarrow> utext" where
  "decode_loop dec out rest =
     (case find_index (\<lambda>c. c = SHIFT) rest of
        None \<Rightarrow> out @ rest
      | Some start \<Rightarrow>
          (let out = out @ take start rest; after = drop (start + 1) rest
           in case find_index (\<lambda>c. c = UNSHIFT) after of
                None \<Rightarrow> out @ drop start rest
              | Some e \<Rightarrow>
                  (let run = take e after;
                       out = (case decode_run dec run of
                                Some t \<Rightarrow> out @ t
                              | None \<Rightarrow> out @ take (e + 2) (drop start rest))
                   in decode_loop dec out (drop (e + 1) after))))"
  by pat_completeness auto
termination
  by (relation "measure (\<lambda>(dec, out, rest). length rest)") (auto simp: find_index_Some)

declare decode_loop.simps [simp del]

definition decode :: "(utext \<Rightarrow> nat list option) \<Rightarrow> utext \<Rightarrow> utext" where
  "decode dec name = decode_loop dec [] name"

subsection \<open>Encoding\<close>

definition flush :: "(nat list \<Rightarrow> utext) \<Rightarrow> utext \<Rightarrow> nat list \<Rightarrow> utext \<times> nat list" where
  "flush enc out run = (if run = [] then (out, run) else (out @ [SHIFT] @ enc run @ [UNSHIFT], []))"

fun encode_loop :: "(nat list \<Rightarrow> utext) \<Rightarrow> utext \<Rightarrow> nat list \<Rightarrow> utext \<Rightarrow> utext" where
  "encode_loop enc out run [] = fst (flush enc out run)"
| "encode_loop enc out run (c # name) =
     (if is_direct c then
        (let (out, run) = flush enc out run in encode_loop enc (out @ [c]) run name)
      else if c = SHIFT then
        (let (out, run) = flush enc out run in encode_loop enc (out @ [SHIFT] @ [UNSHIFT]) run name)
      else encode_loop enc out (run @ concat (map to_be_bytes (encode_utf16 c))) name)"

definition encode :: "(nat list \<Rightarrow> utext) \<Rightarrow> utext \<Rightarrow> utext" where
  "encode enc name = encode_loop enc [] [] name"

subsection \<open>Helper facts\<close>

lemma encode_utf16_units: "is_scalar c \<Longrightarrow> \<forall>u \<in> set (encode_utf16 c). u < 0x10000"
  by (auto simp: encode_utf16_def is_scalar_def)

lemma from_utf16_encode:
  "is_scalar c \<Longrightarrow> from_utf16 (encode_utf16 c @ us) = map_option (Cons c) (from_utf16 us)"
proof -
  assume s: "is_scalar c"
  show ?thesis
  proof (cases "c < 0x10000")
    case True
    with s show ?thesis by (auto simp: encode_utf16_def is_scalar_def)
  next
    case False
    let ?d = "c - 0x10000"
    have d: "?d < 0x100000" using s False by (auto simp: is_scalar_def)
    then have "?d div 0x400 < 0x400" by (simp add: less_mult_imp_div_less)
    moreover have "?d mod 0x400 < 0x400" by simp
    moreover have "0x10000 + ?d div 0x400 * 0x400 + ?d mod 0x400 = c"
      using False div_mult_mod_eq [of ?d "0x400"] by simp
    ultimately show ?thesis using False by (simp add: encode_utf16_def)
  qed
qed

lemma be_units_bytes: "be_units (concat (map to_be_bytes us)) = us"
  by (induction us) (auto simp: to_be_bytes_def)

lemma be_bytes_length: "length (concat (map to_be_bytes us)) = 2 * length us"
  by (induction us) (auto simp: to_be_bytes_def)

lemma be_bytes_bounded: "\<forall>u \<in> set us. u < 0x10000 \<Longrightarrow> \<forall>b \<in> set (concat (map to_be_bytes us)). b < 256"
  by (auto simp: to_be_bytes_def less_mult_imp_div_less)

definition run_bytes :: "utext \<Rightarrow> nat list" where
  "run_bytes cs = concat (map to_be_bytes (concat (map encode_utf16 cs)))"

lemma run_bytes_snoc: "run_bytes cs @ concat (map to_be_bytes (encode_utf16 c)) = run_bytes (cs @ [c])"
  by (simp add: run_bytes_def)

lemma encode_utf16_nonempty: "encode_utf16 c \<noteq> []"
  by (simp add: encode_utf16_def)

lemma run_bytes_Nil [simp]: "run_bytes cs = [] \<longleftrightarrow> cs = []"
  by (cases cs) (simp_all add: run_bytes_def to_be_bytes_def encode_utf16_def)

lemma run_bytes_bounded: "\<forall>c \<in> set cs. is_scalar c \<Longrightarrow> \<forall>b \<in> set (run_bytes cs). b < 256"
  unfolding run_bytes_def by (rule be_bytes_bounded) (use encode_utf16_units in auto)

lemma run_bytes_text: "\<forall>c \<in> set cs. is_scalar c \<Longrightarrow> from_utf16 (be_units (run_bytes cs)) = Some cs"
  unfolding run_bytes_def be_units_bytes
  by (induction cs) (simp_all add: from_utf16_encode)

lemma decode_loop_plain: "SHIFT \<notin> set rest \<Longrightarrow> decode_loop dec out rest = out @ rest"
  using find_index_None [of "\<lambda>c. c = SHIFT" rest] by (subst decode_loop.simps) auto

lemma decode_loop_direct:
  "c \<noteq> SHIFT \<Longrightarrow> decode_loop dec out (c # rest) = decode_loop dec (out @ [c]) rest"
  by (subst (1 2) decode_loop.simps) (simp add: Let_def split: option.split)

lemma decode_loop_shifted:
  assumes "UNSHIFT \<notin> set run" "decode_run dec run = Some t"
  shows "decode_loop dec out (SHIFT # run @ UNSHIFT # rest) = decode_loop dec (out @ t) rest"
proof -
  have "find_index (\<lambda>c. c = UNSHIFT) (run @ UNSHIFT # rest) = Some (length run)"
    using assms(1) by (intro find_index_append) auto
  then show ?thesis using assms(2) by (subst decode_loop.simps) (simp add: Let_def)
qed

lemma decode_loop_invalid:
  assumes "UNSHIFT \<notin> set run" "decode_run dec run = None"
  shows "decode_loop dec out (SHIFT # run @ UNSHIFT # rest) = decode_loop dec (out @ SHIFT # run @ [UNSHIFT]) rest"
proof -
  have "find_index (\<lambda>c. c = UNSHIFT) (run @ UNSHIFT # rest) = Some (length run)"
    using assms(1) by (intro find_index_append) auto
  then show ?thesis using assms(2) by (subst decode_loop.simps) (simp add: Let_def)
qed

lemma decode_loop_open:
  assumes "UNSHIFT \<notin> set run"
  shows "decode_loop dec out (SHIFT # run) = out @ SHIFT # run"
proof -
  have "find_index (\<lambda>c. c = UNSHIFT) run = None" using assms by (auto simp: find_index_None)
  then show ?thesis by (subst decode_loop.simps) (simp add: Let_def)
qed

lemma decode_loop_out: "decode_loop dec out rest = out @ decode_loop dec [] rest"
proof (induction rest arbitrary: out rule: length_induct)
  case (1 rest)
  note ih = "1.IH" [rule_format]
  show ?case
  proof (cases rest)
    case Nil
    then show ?thesis by (simp add: decode_loop_plain)
  next
    case (Cons c tail)
    consider "c \<noteq> SHIFT" | "c = SHIFT" "UNSHIFT \<notin> set tail" | "c = SHIFT" "UNSHIFT \<in> set tail" by blast
    then show ?thesis
    proof cases
      case 1
      then show ?thesis using ih [of tail "out @ [c]"] ih [of tail "[c]"] Cons by (simp add: decode_loop_direct)
    next
      case 2
      then show ?thesis using Cons by (simp add: decode_loop_open)
    next
      case 3
      then obtain run more where t: "tail = run @ UNSHIFT # more" "UNSHIFT \<notin> set run"
        by (metis split_list_first)
      have go: "decode_loop dec out' more = out' @ decode_loop dec [] more" for out'
        using ih [of more out'] t Cons by simp
      show ?thesis
      proof (cases "decode_run dec run")
        case None
        let ?kept = "SHIFT # run @ [UNSHIFT]"
        from None go [of "out @ ?kept"] go [of ?kept] show ?thesis
          using t Cons 3 by (simp add: decode_loop_invalid)
      next
        case (Some x)
        from Some go [of "out @ x"] go [of x] show ?thesis
          using t Cons 3 by (simp add: decode_loop_shifted)
      qed
    qed
  qed
qed

lemma decode_before: "SHIFT \<notin> set before \<Longrightarrow> decode_loop dec out (before @ rest) = decode_loop dec (out @ before) rest"
  by (induction before arbitrary: out) (simp_all add: decode_loop_direct)

lemma encode_loop_out: "encode_loop enc out run name = out @ encode_loop enc [] run name"
proof (induction name arbitrary: out run)
  case (Cons c name)
  note ih = Cons.IH
  have "encode_loop enc (a @ b) r name = a @ encode_loop enc b r name" for a b r
    using ih [of "a @ b" r] ih [of b r] by simp
  then show ?case
    by (simp add: flush_def) (metis append.assoc append_Nil2)
qed (simp add: flush_def)

lemma encode_loop_Cons:
  "encode_loop enc [] run (c # name) =
     (if is_direct c then fst (flush enc [] run) @ [c] @ encode_loop enc [] [] name
      else if c = SHIFT then fst (flush enc [] run) @ [SHIFT, UNSHIFT] @ encode_loop enc [] [] name
      else encode_loop enc [] (run @ concat (map to_be_bytes (encode_utf16 c))) name)"
proof -
  have "snd (flush enc [] run) = []" by (simp add: flush_def)
  then show ?thesis
    using encode_loop_out [of enc "fst (flush enc [] run) @ [c]" "[]" name]
      encode_loop_out [of enc "fst (flush enc [] run) @ [SHIFT] @ [UNSHIFT]" "[]" name]
    by (simp add: case_prod_beta)
qed

subsection \<open>Names come back\<close>

locale base64_engine =
  fixes enc :: "nat list \<Rightarrow> utext"
    and dec :: "utext \<Rightarrow> nat list option"
  assumes dec_enc: "\<forall>b \<in> set bytes. b < 256 \<Longrightarrow> dec (enc bytes) = Some bytes"
    and enc_Nil: "enc [] = []"
    and enc_alphabet: "set (enc bytes) \<subseteq> set MODIFIED_ALPHABET"
begin

lemma enc_nonempty: "\<forall>b \<in> set bytes. b < 256 \<Longrightarrow> bytes \<noteq> [] \<Longrightarrow> enc bytes \<noteq> []"
  using dec_enc [of bytes] dec_enc [of "[]"] enc_Nil by force

lemma enc_unshift: "UNSHIFT \<notin> set (enc bytes)"
proof
  assume "UNSHIFT \<in> set (enc bytes)"
  then have "UNSHIFT \<in> set MODIFIED_ALPHABET" using enc_alphabet by blast
  moreover have "UNSHIFT \<notin> set MODIFIED_ALPHABET" by code_simp
  ultimately show False by blast
qed

lemma enc_printable: "c \<in> set (enc bytes) \<Longrightarrow> is_direct c"
proof -
  assume "c \<in> set (enc bytes)"
  moreover have "list_all is_direct MODIFIED_ALPHABET" by code_simp
  ultimately show ?thesis using enc_alphabet by (auto simp: list_all_iff)
qed

lemma decode_run_enc:
  assumes "\<forall>c \<in> set cs. is_scalar c" "cs \<noteq> []"
  shows "decode_run dec (enc (run_bytes cs)) = Some cs"
proof -
  have "length (run_bytes cs) mod 2 = 0" by (simp add: run_bytes_def be_bytes_length)
  with enc_nonempty [OF run_bytes_bounded [OF assms(1)]] dec_enc [OF run_bytes_bounded [OF assms(1)]]
  show ?thesis using assms run_bytes_text [OF assms(1)] by (simp add: decode_run_def)
qed

lemma decode_flushed:
  assumes "\<forall>c \<in> set cs. is_scalar c"
  shows "decode_loop dec out (fst (flush enc [] (run_bytes cs)) @ rest) = decode_loop dec (out @ cs) rest"
  using decode_loop_shifted [OF enc_unshift decode_run_enc [OF assms]] by (simp add: flush_def)

lemma decode_encode_loop:
  assumes "\<forall>c \<in> set cs. is_scalar c" "\<forall>c \<in> set name. is_scalar c"
  shows "decode_loop dec out (encode_loop enc [] (run_bytes cs) name) = out @ cs @ name"
  using assms
proof (induction name arbitrary: cs out)
  case Nil
  then show ?case using decode_flushed [of cs out "[]"] by (simp add: decode_loop_plain)
next
  case (Cons c name)
  let ?tail = "encode_loop enc [] [] name"
  have ih: "decode_loop dec out' ?tail = out' @ name" for out'
    using Cons.IH [of "[]" out'] Cons.prems by (simp add: run_bytes_def)
  consider "is_direct c" | "\<not> is_direct c" "c = SHIFT" | "\<not> is_direct c" "c \<noteq> SHIFT" by blast
  then show ?case
  proof cases
    case 1
    then have "c \<noteq> SHIFT" by (simp add: is_direct_def)
    then have "decode_loop dec out' (c # ?tail) = out' @ c # name" for out'
      by (simp add: decode_loop_direct ih)
    then show ?thesis
      using 1 decode_flushed [of cs out "c # ?tail"] Cons.prems by (simp add: encode_loop_Cons del: encode_loop.simps)
  next
    case 2
    have "decode_run dec [] = Some [SHIFT]" by (simp add: decode_run_def)
    from decode_loop_shifted [OF _ this]
    have "decode_loop dec out' (SHIFT # UNSHIFT # ?tail) = out' @ SHIFT # name" for out'
      by (simp add: ih)
    then show ?thesis
      using 2 decode_flushed [of cs out "SHIFT # UNSHIFT # ?tail"] Cons.prems
      by (simp add: encode_loop_Cons del: encode_loop.simps)
  next
    case 3
    then show ?thesis using Cons.IH [of "cs @ [c]" out] Cons.prems by (simp add: run_bytes_snoc)
  qed
qed

lemma name_round_trip: "\<forall>c \<in> set name. is_scalar c \<Longrightarrow> decode dec (encode enc name) = name"
  using decode_encode_loop [of "[]" name "[]"] by (simp add: decode_def encode_def run_bytes_def)

lemma wire_printable: "\<forall>c \<in> set (encode_loop enc [] run name). 32 \<le> c \<and> c \<le> 126"
proof (induction name arbitrary: run)
  case Nil
  then show ?case using enc_printable by (auto simp: flush_def SHIFT_def UNSHIFT_def is_direct_def)
next
  case (Cons c name)
  have "\<forall>c \<in> set (fst (flush enc [] run)). 32 \<le> c \<and> c \<le> 126"
    using enc_printable by (auto simp: flush_def SHIFT_def UNSHIFT_def is_direct_def)
  then show ?case
    unfolding encode_loop_Cons using Cons.IH by (auto simp: is_direct_def SHIFT_def UNSHIFT_def)
qed

end

subsection \<open>A codec with the alphabet\<close>

fun sextets :: "nat list \<Rightarrow> nat list" where
  "sextets [] = []"
| "sextets [a] = [a div 4, a mod 4 * 16]"
| "sextets [a, b] = [a div 4, a mod 4 * 16 + b div 16, b mod 16 * 4]"
| "sextets (a # b # c # r) = a div 4 # (a mod 4 * 16 + b div 16) # (b mod 16 * 4 + c div 64) # c mod 64 # sextets r"

fun unsextets :: "nat list \<Rightarrow> nat list option" where
  "unsextets [] = Some []"
| "unsextets [s] = None"
| "unsextets [s, t] = (if t mod 16 = 0 then Some [s * 4 + t div 16] else None)"
| "unsextets [s, t, u] =
     (if u mod 4 = 0 then Some [s * 4 + t div 16, t mod 16 * 16 + u div 4] else None)"
| "unsextets (s # t # u # v # r) =
     map_option (\<lambda>bs. (s * 4 + t div 16) # (t mod 16 * 16 + u div 4) # (u mod 4 * 64 + v) # bs) (unsextets r)"

definition b64_encode :: "nat list \<Rightarrow> utext" where
  "b64_encode bytes = map (\<lambda>s. MODIFIED_ALPHABET ! (s mod 64)) (sextets bytes)"

definition b64_decode :: "utext \<Rightarrow> nat list option" where
  "b64_decode t =
     Option.bind (those (map (\<lambda>c. find_index (\<lambda>d. d = c) MODIFIED_ALPHABET) t)) unsextets"

lemma sextets_bounded: "\<forall>b \<in> set bytes. b < 256 \<Longrightarrow> \<forall>s \<in> set (sextets bytes). s < 64"
proof (induction bytes rule: sextets.induct)
  case (2 a)
  have "a mod 4 < 4" by simp
  then show ?case using 2 by (auto simp: less_mult_imp_div_less)
next
  case (3 a b)
  have "a mod 4 < 4" "b mod 16 < 16" by simp_all
  moreover have "b div 16 < 16" using 3 by auto
  ultimately show ?case using 3 by (auto simp: less_mult_imp_div_less)
next
  case (4 a b c r)
  have "a mod 4 < 4" "b mod 16 < 16" "c mod 64 < 64" by simp_all
  moreover have "b div 16 < 16" "c div 64 < 4" using 4 by auto
  ultimately show ?case using 4 by (auto simp: less_mult_imp_div_less)
qed simp

lemma unsextets_sextets: "\<forall>b \<in> set bytes. b < 256 \<Longrightarrow> unsextets (sextets bytes) = Some bytes"
proof (induction bytes rule: sextets.induct)
  case (3 a b)
  then have "b div 16 < 16" by auto
  then have "(a mod 4 * 16 + b div 16) div 16 = a mod 4" "(a mod 4 * 16 + b div 16) mod 16 = b div 16"
    by simp_all
  then show ?case by simp
next
  case (4 a b c r)
  then have bc: "b div 16 < 16" "c div 64 < 4" by auto
  then have "(a mod 4 * 16 + b div 16) div 16 = a mod 4" "(a mod 4 * 16 + b div 16) mod 16 = b div 16"
    "(b mod 16 * 4 + c div 64) div 4 = b mod 16" "(b mod 16 * 4 + c div 64) mod 4 = c div 64"
    by simp_all
  then show ?case using 4 by simp
qed simp_all

lemma alphabet_distinct: "distinct MODIFIED_ALPHABET" "length MODIFIED_ALPHABET = 64"
  by code_simp+

lemma alphabet_index: "s < 64 \<Longrightarrow> find_index (\<lambda>d. d = MODIFIED_ALPHABET ! s) MODIFIED_ALPHABET = Some s"
  using alphabet_distinct by (auto simp: find_index_Some nth_eq_iff_index_eq)

lemma those_alphabet:
  "\<forall>s \<in> set ss. s < 64 \<Longrightarrow>
     those (map (\<lambda>c. find_index (\<lambda>d. d = c) MODIFIED_ALPHABET) (map (\<lambda>s. MODIFIED_ALPHABET ! (s mod 64)) ss)) = Some ss"
  by (induction ss) (simp_all add: alphabet_index)

interpretation rfc4648: base64_engine b64_encode b64_decode
proof unfold_locales
  show "b64_decode (b64_encode bytes) = Some bytes" if "\<forall>b \<in> set bytes. b < 256" for bytes
    unfolding b64_decode_def b64_encode_def
    using those_alphabet [OF sextets_bounded [OF that]] unsextets_sextets [OF that] by simp
  show "b64_encode [] = []" by (simp add: b64_encode_def)
  show "set (b64_encode bytes) \<subseteq> set MODIFIED_ALPHABET" for bytes
    unfolding b64_encode_def using alphabet_distinct by auto
qed

subsection \<open>Properties\<close>

text \<open>
  C37: A mailbox name of any Unicode characters comes back from its modified UTF-7 form unchanged,
  and that form is printable ASCII, so two names never share a form on the wire; whatever base64
  engine keeps its contract.
\<close>

theorem mailbox_name_round_trip:
  assumes "base64_engine enc dec" "\<forall>c \<in> set name. is_scalar c"
  shows "decode dec (encode enc name) = name \<and> (\<forall>c \<in> set (encode enc name). 32 \<le> c \<and> c \<le> 126)"
  using base64_engine.name_round_trip [OF assms] base64_engine.wire_printable [OF assms(1)]
  by (simp add: encode_def)

theorem mailbox_name_round_trip_witness:
  "decode b64_decode (encode b64_encode (uascii ''A&B'' @ [0x65E5, 0x1F4E7])) = uascii ''A&B'' @ [0x65E5, 0x1F4E7] \<and>
   encode b64_encode [0x65E5, 0x672C, 0x8A9E] = uascii ''&ZeVnLIqe-''"
proof -
  have "\<forall>c \<in> set (uascii ''A&B'' @ [0x65E5, 0x1F4E7]). is_scalar c"
    by (simp add: uascii_def is_scalar_def)
  from mailbox_name_round_trip [OF rfc4648.base64_engine_axioms this]
  show ?thesis by (simp add: encode_def flush_def uascii_def is_direct_def SHIFT_def UNSHIFT_def
        encode_utf16_def to_be_bytes_def b64_encode_def MODIFIED_ALPHABET_def)
qed

text \<open>
  A name never disappears: a name without the shift character reads as itself, and a run that
  is not valid modified UTF-7 stays in the name exactly as it was received, whatever the engine
  makes of it, while decoding goes on behind it.
\<close>

theorem invalid_run_kept:
  "(SHIFT \<notin> set plain \<longrightarrow> decode dec plain = plain) \<and>
   (SHIFT \<notin> set before \<and> UNSHIFT \<notin> set run \<and> decode_run dec run = None \<longrightarrow>
    decode dec (before @ SHIFT # run @ UNSHIFT # rest) = before @ SHIFT # run @ UNSHIFT # decode dec rest) \<and>
   (SHIFT \<notin> set before \<and> UNSHIFT \<notin> set run \<longrightarrow>
    decode dec (before @ SHIFT # run) = before @ SHIFT # run)"
proof -
  have "decode_loop dec (before @ SHIFT # run @ [UNSHIFT]) rest = before @ SHIFT # run @ UNSHIFT # decode_loop dec [] rest"
    using decode_loop_out [of dec "before @ SHIFT # run @ [UNSHIFT]" rest] by simp
  then show ?thesis
    by (simp add: decode_def decode_loop_plain decode_before decode_loop_open decode_loop_invalid)
qed

theorem invalid_run_kept_witness:
  "decode b64_decode (uascii ''a&*-b&AOk-'') = uascii ''a&*-b'' @ [0xE9]"
proof -
  have "decode_run b64_decode (uascii ''*'') = None" by code_simp
  moreover have "SHIFT \<notin> set (uascii ''a'')" "UNSHIFT \<notin> set (uascii ''*'')" by code_simp+
  ultimately have "decode b64_decode (uascii ''a'' @ SHIFT # uascii ''*'' @ UNSHIFT # uascii ''b&AOk-'') =
      uascii ''a'' @ SHIFT # uascii ''*'' @ UNSHIFT # decode b64_decode (uascii ''b&AOk-'')"
    using invalid_run_kept [of "[]" b64_decode "uascii ''a''" "uascii ''*''" "uascii ''b&AOk-''"] by blast
  moreover have "decode b64_decode (uascii ''b&AOk-'') = uascii ''b'' @ [0xE9]" by code_simp
  ultimately show ?thesis by (simp add: uascii_def SHIFT_def UNSHIFT_def)
qed

end
