(* ===== verification/Result_Reference.thy ===== *)
theory Result_Reference
  imports Jmap_Method Ordered_Map
begin

text \<open>
  Result references (\<open>jmap/references.rs\<close>): an argument written as \<open>#name\<close> points into an earlier
  response through a JSON pointer, and everything the references of one request copy is charged to
  one budget before it is copied. The budget is the \<open>Cell\<close> the calls share, so every operation
  takes what is left and returns what is left beside its result, on failure too. The size of a
  JSON node in memory (\<open>size_of::<Value>()\<close>) and the reading of a \<open>ResultReference\<close> object
  belong to \<open>serde_json\<close>; they are the parameters \<open>node\<close> and \<open>de\<close>.
\<close>

type_synonym members = "(string \<times> json) list"

datatype invocation = Invocation string members string

record result_reference =
  result_of :: string
  ref_name :: string
  ref_path :: string

definition MAX_SIZE_REQUEST :: nat where "MAX_SIZE_REQUEST = 1024 * 1024"
definition MAX_REFERENCE_WEIGHT :: nat where "MAX_REFERENCE_WEIGHT = MAX_SIZE_REQUEST"

definition NOTHING_THERE :: method_error where
  "NOTHING_THERE = InvalidResultReference ''the path of a reference points at nothing''"

definition WRONG_NAME :: method_error where
  "WRONG_NAME = InvalidResultReference ''a reference names another method than the response''"

definition OVER_BUDGET :: method_error where
  "OVER_BUDGET = InvalidResultReference
     ''the references of the request resolve to more than the server allows''"

subsection \<open>Steps that share the budget\<close>

type_synonym 'a charged = "nat \<Rightarrow> (method_error + 'a) \<times> nat"

definition c_return :: "'a \<Rightarrow> 'a charged" where
  "c_return a left = (Inr a, left)"

definition c_fail :: "method_error \<Rightarrow> 'a charged" where
  "c_fail e left = (Inl e, left)"

definition c_bind :: "'a charged \<Rightarrow> ('a \<Rightarrow> 'b charged) \<Rightarrow> 'b charged" where
  "c_bind f g left =
     (case f left of (Inl e, left') \<Rightarrow> (Inl e, left') | (Inr a, left') \<Rightarrow> g a left')"

definition c_ok_or :: "method_error \<Rightarrow> 'a option \<Rightarrow> 'a charged" where
  "c_ok_or e x = (case x of None \<Rightarrow> c_fail e | Some a \<Rightarrow> c_return a)"

fun c_each :: "('a \<Rightarrow> unit charged) \<Rightarrow> 'a list \<Rightarrow> unit charged" where
  "c_each f [] = c_return ()"
| "c_each f (x # xs) = c_bind (f x) (\<lambda>_. c_each f xs)"

fun c_fold :: "('s \<Rightarrow> 'a \<Rightarrow> 's charged) \<Rightarrow> 's \<Rightarrow> 'a list \<Rightarrow> 's charged" where
  "c_fold f s [] = c_return s"
| "c_fold f s (x # xs) = c_bind (f s x) (\<lambda>s'. c_fold f s' xs)"

lemma c_each_cong [fundef_cong]:
  "xs = ys \<Longrightarrow> (\<And>x. x \<in> set ys \<Longrightarrow> f x = g x) \<Longrightarrow> c_each f xs = c_each g ys"
proof -
  assume "xs = ys" and eq: "\<And>x. x \<in> set ys \<Longrightarrow> f x = g x"
  from eq have "c_each f ys = c_each g ys" by (induction ys) simp_all
  with \<open>xs = ys\<close> show ?thesis by simp
qed

subsection \<open>The budget\<close>

definition budget_full :: nat where "budget_full = MAX_REFERENCE_WEIGHT"

definition budget_take :: "nat \<Rightarrow> unit charged" where
  "budget_take weight left = (if weight \<le> left then (Inr (), left - weight) else (Inl OVER_BUDGET, left))"

fun charge :: "nat \<Rightarrow> json \<Rightarrow> unit charged" where
  "charge node (String t) = budget_take (node + length t)"
| "charge node (Array items) = c_bind (budget_take node) (\<lambda>_. c_each (\<lambda>item. charge node item) items)"
| "charge node (Object ms) =
     c_bind (budget_take node) (\<lambda>_.
       c_each (\<lambda>m. c_bind (budget_take (length (fst m))) (\<lambda>_. charge node (snd m))) ms)"
| "charge node Null = budget_take node"
| "charge node (Bool b) = budget_take node"
| "charge node (Number n) = budget_take node"

definition charge_object :: "nat \<Rightarrow> members \<Rightarrow> unit charged" where
  "charge_object node ms =
     c_bind (budget_take node) (\<lambda>_.
       c_each (\<lambda>m. c_bind (budget_take (length (fst m))) (\<lambda>_. charge node (snd m))) ms)"

subsection \<open>Pointers\<close>

fun unescaped :: "string \<Rightarrow> string option" where
  "unescaped [] = Some []"
| "unescaped (c # cs) =
     (if c = CHR ''~'' then
        (case cs of
           [] \<Rightarrow> None
         | d # ds \<Rightarrow>
             if d = CHR ''0'' then map_option (Cons (CHR ''~'')) (unescaped ds)
             else if d = CHR ''1'' then map_option (Cons (CHR ''/'')) (unescaped ds)
             else None)
      else map_option (Cons c) (unescaped cs))"

definition array_index :: "string \<Rightarrow> nat option" where
  "array_index token =
     (case parse_unsigned usize_max token of
        None \<Rightarrow> None | Some i \<Rightarrow> if digits i = token then Some i else None)"

definition item_at :: "json list \<Rightarrow> nat \<Rightarrow> json option" where
  "item_at items i = (if i < length items then Some (items ! i) else None)"

definition child :: "json \<Rightarrow> string \<Rightarrow> json option" where
  "child value token =
     (case value of
        Array items \<Rightarrow> Option.bind (array_index token) (item_at items)
      | Object ms \<Rightarrow> map_of ms token
      | _ \<Rightarrow> None)"

definition flattened :: "json list \<Rightarrow> json \<Rightarrow> json list" where
  "flattened out v = (case v of Array inner \<Rightarrow> out @ inner | other \<Rightarrow> out @ [other])"

fun walk :: "nat \<Rightarrow> json \<Rightarrow> string list \<Rightarrow> json charged" where
  "walk node value [] = c_bind (charge node value) (\<lambda>_. c_return value)"
| "walk node value (token # rest) =
     (case (value, token = ''*'') of
        (Array items, True) \<Rightarrow>
          c_bind (budget_take node) (\<lambda>_.
          c_bind (c_fold (\<lambda>out item. c_bind (walk node item rest) (\<lambda>v. c_return (flattened out v))) [] items)
            (\<lambda>out. c_return (Array out)))
      | _ \<Rightarrow> c_bind (c_ok_or NOTHING_THERE (child value token)) (\<lambda>next. walk node next rest))"

definition pointer :: "nat \<Rightarrow> members \<Rightarrow> string \<Rightarrow> json charged" where
  "pointer node response path =
     (if path = [] then c_bind (charge_object node response) (\<lambda>_. c_return (Object response))
      else
        c_bind (c_ok_or NOTHING_THERE (strip_prefix path ''/'')) (\<lambda>body.
        c_bind (c_ok_or NOTHING_THERE (those (map unescaped (split_on (CHR ''/'') body)))) (\<lambda>tokens.
        case tokens of
          [] \<Rightarrow> c_fail NOTHING_THERE
        | first # rest \<Rightarrow>
            c_bind (c_ok_or NOTHING_THERE (map_of response first)) (\<lambda>value. walk node value rest))))"

definition resolve_one ::
  "nat \<Rightarrow> (json \<Rightarrow> result_reference option) \<Rightarrow> members \<Rightarrow> invocation list
     \<Rightarrow> (string, json) bt \<Rightarrow> string \<times> json \<Rightarrow> (string, json) bt charged" where
  "resolve_one node de arguments previous resolved entry =
     (let (name, value) = entry in
      case strip_prefix name ''#'' of
        None \<Rightarrow> c_return (bt_insert name value resolved)
      | Some plain \<Rightarrow>
          if map_of arguments plain \<noteq> None
          then c_fail (InvalidArguments ''an argument was given both plainly and as a reference'')
          else
            c_bind (c_ok_or (InvalidResultReference ''a reference is not a ResultReference object'') (de value)) (\<lambda>reference.
            c_bind (c_ok_or (InvalidResultReference ''a reference names no earlier response'')
              (List.find (\<lambda>inv. case inv of Invocation _ _ ident \<Rightarrow> ident = result_of reference) previous)) (\<lambda>inv.
            case inv of Invocation method_name response _ \<Rightarrow>
              if method_name \<noteq> ref_name reference then c_fail WRONG_NAME
              else c_bind (pointer node response (ref_path reference)) (\<lambda>found.
                   c_return (bt_insert plain found resolved)))))"

definition resolve ::
  "nat \<Rightarrow> (json \<Rightarrow> result_reference option) \<Rightarrow> members \<Rightarrow> invocation list \<Rightarrow> (string, json) bt charged" where
  "resolve node de arguments previous = c_fold (resolve_one node de arguments previous) [] arguments"

subsection \<open>What is charged\<close>

fun weight :: "nat \<Rightarrow> json \<Rightarrow> nat" where
  "weight node (String t) = node + length t"
| "weight node (Array items) = node + sum_list (map (weight node) items)"
| "weight node (Object ms) = node + sum_list (map (\<lambda>m. length (fst m) + weight node (snd m)) ms)"
| "weight node Null = node"
| "weight node (Bool b) = node"
| "weight node (Number n) = node"

text \<open>A step that takes exactly \<open>w\<close> or fails over the budget, never giving anything back.\<close>

definition costs :: "unit charged \<Rightarrow> nat \<Rightarrow> bool" where
  "costs f w \<longleftrightarrow> (\<forall>left. if w \<le> left then f left = (Inr (), left - w)
     else \<exists>l \<le> left. f left = (Inl OVER_BUDGET, l))"

lemma costs_take: "costs (budget_take w) w"
  by (simp add: costs_def budget_take_def)

lemma costs_bind:
  assumes f: "costs f w" and g: "costs g v"
  shows "costs (c_bind f (\<lambda>_. g)) (w + v)"
  unfolding costs_def
proof
  fix left
  consider "w + v \<le> left" | "w \<le> left" "left < w + v" | "left < w" by linarith
  then show "if w + v \<le> left then c_bind f (\<lambda>_. g) left = (Inr (), left - (w + v))
     else \<exists>l \<le> left. c_bind f (\<lambda>_. g) left = (Inl OVER_BUDGET, l)"
  proof cases
    case 1
    then have "f left = (Inr (), left - w)" "g (left - w) = (Inr (), left - w - v)"
      using f [unfolded costs_def, rule_format, of left] g [unfolded costs_def, rule_format, of "left - w"] by auto
    then show ?thesis using 1 by (simp add: c_bind_def)
  next
    case 2
    then have "f left = (Inr (), left - w)" "\<exists>l \<le> left - w. g (left - w) = (Inl OVER_BUDGET, l)"
      using f [unfolded costs_def, rule_format, of left] g [unfolded costs_def, rule_format, of "left - w"] by auto
    then obtain l where "l \<le> left - w" "c_bind f (\<lambda>_. g) left = (Inl OVER_BUDGET, l)"
      by (auto simp: c_bind_def)
    then show ?thesis using 2 by (auto intro: exI [of _ l])
  next
    case 3
    then obtain l where "l \<le> left" "f left = (Inl OVER_BUDGET, l)"
      using f [unfolded costs_def, rule_format, of left] by auto
    then show ?thesis using 3 by (auto simp: c_bind_def)
  qed
qed

lemma costs_each: "(\<And>x. x \<in> set xs \<Longrightarrow> costs (f x) (w x)) \<Longrightarrow> costs (c_each f xs) (sum_list (map w xs))"
proof (induction xs)
  case Nil
  then show ?case by (simp add: costs_def c_return_def)
next
  case (Cons x xs)
  then show ?case by (simp add: costs_bind)
qed

lemma charge_costs: "costs (charge node v) (weight node v)"
proof (induction node v rule: charge.induct)
  case (2 node items)
  then show ?case by (simp add: costs_bind costs_take costs_each)
next
  case (3 node ms)
  have "costs (c_bind (budget_take (length (fst m))) (\<lambda>_. charge node (snd m))) (length (fst m) + weight node (snd m))"
    if "m \<in> set ms" for m
    using 3 [OF that] by (intro costs_bind costs_take)
  then show ?case by (simp add: costs_bind costs_take costs_each)
qed (simp_all add: costs_take)

lemma charge_object_eq: "charge_object node ms = charge node (Object ms)"
  by (simp add: charge_object_def)

text \<open>
  A step that pays: what it leaves and the weight of its result are together within what was
  there; a failure leaves no more than there was.
\<close>

definition pays :: "('a \<Rightarrow> nat) \<Rightarrow> 'a charged \<Rightarrow> bool" where
  "pays w f \<longleftrightarrow> (\<forall>left. case f left of (Inl e, l) \<Rightarrow> l \<le> left | (Inr a, l) \<Rightarrow> w a + l \<le> left)"

lemma paysD:
  assumes "pays w f"
  shows "f left = (Inr a, l) \<Longrightarrow> w a + l \<le> left" "f left = (r, l) \<Longrightarrow> l \<le> left"
  using assms [unfolded pays_def, rule_format, of left] by (auto split: sum.splits)

lemma paysI:
  assumes "\<And>left a l. f left = (Inr a, l) \<Longrightarrow> w a + l \<le> left"
    and "\<And>left e l. f left = (Inl e, l) \<Longrightarrow> l \<le> left"
  shows "pays w f"
  unfolding pays_def using assms by (auto split: sum.splits prod.splits)

lemma pays_bind:
  assumes f: "pays u f" and g: "\<And>a left l b. g a left = (Inr b, l) \<Longrightarrow> w b + l \<le> left + u a"
    and ge: "\<And>a left l e. g a left = (Inl e, l) \<Longrightarrow> l \<le> left"
  shows "pays w (c_bind f g)"
proof (rule paysI)
  fix left b l assume "c_bind f g left = (Inr b, l)"
  then obtain a m where "f left = (Inr a, m)" "g a m = (Inr b, l)"
    by (auto simp: c_bind_def split: prod.splits sum.splits)
  with g paysD(1) [OF f] show "w b + l \<le> left" by fastforce
next
  fix left e l assume "c_bind f g left = (Inl e, l)"
  then show "l \<le> left" using ge paysD(2) [OF f]
    by (auto simp: c_bind_def split: prod.splits sum.splits) (metis le_trans)+
qed

lemma pays_charge: "pays (\<lambda>_. weight node v) (charge node v)"
proof (rule paysI)
  fix left a l assume c: "charge node v left = (Inr a, l)"
  show "weight node v + l \<le> left"
    using charge_costs [of node v, unfolded costs_def, rule_format, of left] c by (cases "weight node v \<le> left") auto
next
  fix left e l assume "charge node v left = (Inl e, l)"
  then show "l \<le> left"
    using charge_costs [of node v, unfolded costs_def, rule_format, of left] by (cases "weight node v \<le> left") auto
qed

lemma pays_ok_or: "pays (\<lambda>_. 0) (c_ok_or e x)"
  by (auto simp: pays_def c_ok_or_def c_fail_def c_return_def split: option.split)

abbreviation weights :: "nat \<Rightarrow> json list \<Rightarrow> nat" where
  "weights node vs \<equiv> sum_list (map (weight node) vs)"

lemma flattened_weight: "weights node (flattened out v) \<le> weights node out + weight node v"
  by (cases v) (simp_all add: flattened_def)

lemma fold_pays:
  assumes step: "\<And>item. item \<in> set items \<Longrightarrow> pays (weight node) (f item)"
  shows "pays (\<lambda>out'. weights node out' - weights node out)
    (c_fold (\<lambda>out item. c_bind (f item) (\<lambda>v. c_return (flattened out v))) out items)"
  using step
proof (induction items arbitrary: out)
  case Nil
  then show ?case by (simp add: pays_def c_return_def)
next
  case (Cons item items)
  let ?rest = "\<lambda>out. c_fold (\<lambda>out item. c_bind (f item) (\<lambda>v. c_return (flattened out v))) out items"
  have head: "pays (\<lambda>out'. weights node out' - weights node out)
      (c_bind (f item) (\<lambda>v. c_return (flattened out v)))"
  proof (rule pays_bind [of "weight node"])
    show "pays (weight node) (f item)" by (rule Cons.prems) simp
    fix a left l b assume "c_return (flattened out a) left = (Inr b, l)"
    then show "weights node b - weights node out + l \<le> left + weight node a"
      using flattened_weight [of node out a] by (auto simp: c_return_def)
  qed (simp add: c_return_def)
  have rest: "pays (\<lambda>out'. weights node out' - weights node out1) (?rest out1)" for out1
    by (rule Cons.IH) (rule Cons.prems, simp)
  show ?case
  proof (simp only: c_fold.simps, rule pays_bind [OF head])
    fix a left l b assume "?rest a left = (Inr b, l)"
    from paysD(1) [OF rest this]
    show "weights node b - weights node out + l \<le> left + (weights node a - weights node out)" by linarith
  next
    fix a left l e assume "?rest a left = (Inl e, l)"
    then show "l \<le> left" by (rule paysD(2) [OF rest])
  qed
qed

lemma walk_pays: "pays (weight node) (walk node v0 tokens)"
proof (induction tokens arbitrary: v0)
  case Nil
  show ?case
    unfolding walk.simps by (rule pays_bind [OF pays_charge]) (auto simp: c_return_def)
next
  case (Cons token rest)
  have down: "pays (weight node) (c_bind (c_ok_or NOTHING_THERE (child v0 token)) (\<lambda>next. walk node next rest))"
    by (rule pays_bind [OF pays_ok_or]) (use paysD(1) [OF Cons] paysD(2) [OF Cons] in fastforce)+
  show ?case
  proof (cases "\<exists>items. v0 = Array items \<and> token = ''*''")
    case True
    then obtain items where v: "v0 = Array items" "token = ''*''" by blast
    let ?fold = "c_fold (\<lambda>out item. c_bind (walk node item rest) (\<lambda>v. c_return (flattened out v))) [] items"
    have fold: "pays (\<lambda>out. weights node out) ?fold"
      using fold_pays [of items node "\<lambda>item. walk node item rest" "[]"] Cons by simp
    have inner: "pays (\<lambda>v. weight node v - node) (c_bind ?fold (\<lambda>out. c_return (Array out)))"
      by (rule pays_bind [OF fold]) (auto simp: c_return_def)
    have take_pays: "pays (\<lambda>_. node) (budget_take node)"
      by (auto simp: pays_def budget_take_def)
    have "pays (weight node) (c_bind (budget_take node) (\<lambda>_. c_bind ?fold (\<lambda>out. c_return (Array out))))"
    proof (rule pays_bind [OF take_pays])
      fix left l b assume "c_bind ?fold (\<lambda>out. c_return (Array out)) left = (Inr b, l)"
      from paysD(1) [OF inner this] show "weight node b + l \<le> left + node" by linarith
    next
      fix left l e assume "c_bind ?fold (\<lambda>out. c_return (Array out)) left = (Inl e, l)"
      then show "l \<le> left" by (rule paysD(2) [OF inner])
    qed
    then show ?thesis using v by simp
  next
    case False
    then show ?thesis using down by (cases v0) simp_all
  qed
qed

lemma pointer_pays: "pays (weight node) (pointer node response path)"
proof -
  have obj: "pays (weight node) (c_bind (charge_object node response) (\<lambda>_. c_return (Object response)))"
    unfolding charge_object_eq
    by (rule pays_bind [OF pays_charge]) (auto simp: c_return_def)
  have last: "pays (weight node) (c_bind (c_ok_or NOTHING_THERE (map_of response first)) (\<lambda>value. walk node value rest))"
    for first rest
    by (rule pays_bind [OF pays_ok_or]) (use paysD [OF walk_pays] in fastforce)+
  have toks: "pays (weight node) (case tokens of [] \<Rightarrow> c_fail NOTHING_THERE
      | first # rest \<Rightarrow> c_bind (c_ok_or NOTHING_THERE (map_of response first)) (\<lambda>value. walk node value rest))" for tokens
    using last by (cases tokens) (auto simp: pays_def c_fail_def)
  have mid: "pays (weight node) (c_bind (c_ok_or NOTHING_THERE ts) (\<lambda>tokens. case tokens of [] \<Rightarrow> c_fail NOTHING_THERE
      | first # rest \<Rightarrow> c_bind (c_ok_or NOTHING_THERE (map_of response first)) (\<lambda>value. walk node value rest)))" for ts
    by (rule pays_bind [OF pays_ok_or]) (use paysD [OF toks] in fastforce)+
  show ?thesis
  proof (cases "path = []")
    case True
    then show ?thesis using obj by (simp add: pointer_def)
  next
    case False
    have "pays (weight node) (c_bind (c_ok_or NOTHING_THERE (strip_prefix path ''/'')) (\<lambda>body.
        c_bind (c_ok_or NOTHING_THERE (those (map unescaped (split_on (CHR ''/'') body)))) (\<lambda>tokens. case tokens of [] \<Rightarrow> c_fail NOTHING_THERE
      | first # rest \<Rightarrow> c_bind (c_ok_or NOTHING_THERE (map_of response first)) (\<lambda>value. walk node value rest))))"
      by (rule pays_bind [OF pays_ok_or]) (use paysD [OF mid] in fastforce)+
    with False show ?thesis by (simp add: pointer_def)
  qed
qed

subsection \<open>What a pointer denotes\<close>

text \<open>
  RFC 6901 with the star of RFC 8620 section 3.7, with no budget in sight: a member by its name,
  an item by its plain decimal index, and under a star the rest of the path on every item, arrays
  among the results flattened once.
\<close>

inductive points_to :: "json \<Rightarrow> string list \<Rightarrow> json \<Rightarrow> bool" where
  here: "points_to v [] v"
| member: "map_of ms k = Some w \<Longrightarrow> points_to w ts r \<Longrightarrow> points_to (Object ms) (k # ts) r"
| item: "i < length items \<Longrightarrow> i \<le> usize_max \<Longrightarrow> points_to (items ! i) ts r \<Longrightarrow>
    points_to (Array items) (digits i # ts) r"
| star: "list_all2 (\<lambda>item r. points_to item ts r) items rs \<Longrightarrow>
    points_to (Array items) (''*'' # ts) (Array (foldl flattened [] rs))"

lemma digits_not_star: "digits i \<noteq> ''*''"
  using digits_all [of i] by (auto simp: is_ascii_digit_def)

lemma array_index_Some: "array_index t = Some i \<longleftrightarrow> t = digits i \<and> i \<le> usize_max"
proof
  assume "array_index t = Some i"
  then show "t = digits i \<and> i \<le> usize_max"
    by (auto simp: array_index_def parse_unsigned_def Let_def split: option.splits if_splits)
qed (simp add: array_index_def)

text \<open>A run that succeeds with \<open>r\<close> at an exact price.\<close>

definition yields :: "'a charged \<Rightarrow> 'a \<Rightarrow> bool" where
  "yields f r \<longleftrightarrow> (\<exists>n. \<forall>left. n \<le> left \<longrightarrow> f left = (Inr r, left - n))"

lemma yields_return [simp]: "yields (c_return a) a"
  unfolding yields_def c_return_def by (intro exI [of _ 0]) simp

lemma yields_take: "yields (budget_take w) ()"
  unfolding yields_def budget_take_def by (intro exI [of _ w]) simp

lemma yields_charge: "yields (charge node v) ()"
  unfolding yields_def using charge_costs [of node v]
  by (intro exI [of _ "weight node v"]) (simp add: costs_def)

lemma yields_bind:
  assumes "yields f a" "yields (g a) b"
  shows "yields (c_bind f g) b"
proof -
  from assms obtain n m where n: "\<And>left. n \<le> left \<Longrightarrow> f left = (Inr a, left - n)"
    and m: "\<And>left. m \<le> left \<Longrightarrow> g a left = (Inr b, left - m)"
    by (auto simp: yields_def)
  have "c_bind f g left = (Inr b, left - (n + m))" if "n + m \<le> left" for left
    using n [of left] m [of "left - n"] that by (simp add: c_bind_def)
  then show ?thesis unfolding yields_def by blast
qed

lemma yields_fold:
  "list_all2 (\<lambda>item r. yields (f item) r) items rs \<Longrightarrow>
     yields (c_fold (\<lambda>out item. c_bind (f item) (\<lambda>v. c_return (flattened out v))) out items) (foldl flattened out rs)"
proof (induction items rs arbitrary: out rule: list_all2_induct)
  case (Cons item items r rs)
  show ?case
    unfolding c_fold.simps foldl_Cons
    by (intro yields_bind [OF yields_bind [OF Cons(1) yields_return]] Cons(3))
qed simp

lemma points_to_yields: "points_to v ts r \<Longrightarrow> yields (walk node v ts) r"
proof (induction rule: points_to.induct)
  case (here v)
  then show ?case by (simp add: yields_bind [OF yields_charge])
next
  case (member ms k w ts r)
  then show ?case by (simp add: child_def c_ok_or_def yields_bind [OF yields_return])
next
  case (item i items ts r)
  then have "child (Array items) (digits i) = Some (items ! i)"
    by (simp add: child_def array_index_Some [THEN iffD2] item_at_def)
  with item show ?case
    using digits_not_star [of i] by (simp add: c_ok_or_def yields_bind [OF yields_return])
next
  case (star ts items rs)
  then have "list_all2 (\<lambda>item r. yields (walk node item ts) r) items rs"
    by (auto elim: list_all2_mono)
  from yields_fold [OF this, of "[]"] show ?case
    by (auto intro!: yields_bind [OF yields_take yields_bind [OF _ yields_return]])
qed

lemma c_bind_Inr:
  "c_bind f g left = (Inr b, l) \<longleftrightarrow> (\<exists>a m. f left = (Inr a, m) \<and> g a m = (Inr b, l))"
  by (auto simp: c_bind_def split: prod.splits sum.splits)

lemma c_return_Inr: "c_return a left = (Inr b, l) \<longleftrightarrow> b = a \<and> l = left"
  by (auto simp: c_return_def)

lemma fold_results:
  assumes "c_fold (\<lambda>out item. c_bind (f item) (\<lambda>v. c_return (flattened out v))) out items left = (Inr res, l)"
    and "\<And>item left v l. item \<in> set items \<Longrightarrow> f item left = (Inr v, l) \<Longrightarrow> P item v"
  shows "\<exists>rs. list_all2 P items rs \<and> res = foldl flattened out rs"
  using assms
proof (induction items arbitrary: out left)
  case Nil
  then show ?case by (auto simp: c_return_def)
next
  case (Cons item items)
  from Cons.prems(1) obtain v m1 m2 where v: "f item left = (Inr v, m1)"
      "c_fold (\<lambda>out item. c_bind (f item) (\<lambda>v. c_return (flattened out v))) (flattened out v) items m2 = (Inr res, l)"
    by (auto simp: c_bind_Inr c_return_Inr)
  from Cons.IH [OF v(2)] Cons.prems(2) obtain rs where "list_all2 P items rs" "res = foldl flattened (flattened out v) rs"
    by (meson list.set_intros(2))
  moreover have "P item v" by (rule Cons.prems(2) [OF _ v(1)]) simp
  ultimately show ?case by (intro exI [of _ "v # rs"]) simp
qed

lemma walk_points_to: "walk node v ts left = (Inr r, l) \<Longrightarrow> points_to v ts r"
proof (induction ts arbitrary: v left r l)
  case Nil
  then show ?case by (auto simp: c_bind_Inr c_return_Inr intro: points_to.here)
next
  case (Cons t ts)
  show ?case
  proof (cases "\<exists>items. v = Array items \<and> t = ''*''")
    case True
    then obtain items where v: "v = Array items" "t = ''*''" by blast
    with Cons.prems obtain m out l' where f: "c_fold (\<lambda>out item. c_bind (walk node item ts) (\<lambda>v. c_return (flattened out v))) [] items m = (Inr out, l')"
        "r = Array out"
      by (auto simp: c_bind_Inr c_return_Inr)
    have "points_to item ts w" if "walk node item ts left = (Inr w, l)" for item left w l
      using Cons.IH [OF that] .
    from fold_results [OF f(1), of "\<lambda>item r. points_to item ts r"] this
    obtain rs where "list_all2 (\<lambda>item r. points_to item ts r) items rs" "out = foldl flattened [] rs" by blast
    with v f(2) show ?thesis by (simp add: points_to.star)
  next
    case False
    then have "c_bind (c_ok_or NOTHING_THERE (child v t)) (\<lambda>next. walk node next ts) left = (Inr r, l)"
      using Cons.prems by (cases v) simp_all
    then obtain w m where w: "child v t = Some w" "walk node w ts m = (Inr r, l)"
      by (auto simp: c_bind_Inr c_ok_or_def c_fail_def c_return_def split: option.splits)
    from Cons.IH [OF w(2)] w(1) show ?thesis
      by (cases v) (auto simp: child_def item_at_def array_index_Some bind_eq_Some_conv
          split: if_splits intro: points_to.intros)
  qed
qed

lemma walk_iff: "(\<exists>left l. walk node v ts left = (Inr r, l)) \<longleftrightarrow> points_to v ts r"
  using walk_points_to points_to_yields [of v ts r node] by (fastforce simp: yields_def)

definition ref_target :: "members \<Rightarrow> string \<Rightarrow> json \<Rightarrow> bool" where
  "ref_target response path r \<longleftrightarrow>
     (if path = [] then r = Object response
      else \<exists>body tokens. path = ''/'' @ body \<and>
        those (map unescaped (split_on (CHR ''/'') body)) = Some tokens \<and>
        points_to (Object response) tokens r)"

lemma those_nonempty: "xs \<noteq> [] \<Longrightarrow> those xs = Some ys \<Longrightarrow> ys \<noteq> []"
  by (cases xs) (auto split: option.splits)

lemma points_to_Object: "points_to (Object ms) (k # ts) r \<longleftrightarrow> (\<exists>w. map_of ms k = Some w \<and> points_to w ts r)"
  by (auto elim: points_to.cases intro: points_to.member)

lemma pointer_iff: "(\<exists>left l. pointer node response path left = (Inr r, l)) \<longleftrightarrow> ref_target response path r"
proof (cases "path = []")
  case True
  have "yields (c_bind (charge node (Object response)) (\<lambda>_. c_return (Object response))) (Object response)"
    by (rule yields_bind [OF yields_charge yields_return])
  then have "\<exists>left l. pointer node response path left = (Inr (Object response), l)"
    using True by (auto simp: pointer_def charge_object_eq yields_def)
  moreover have "pointer node response path left = (Inr r, l) \<Longrightarrow> r = Object response" for left l
    using True by (auto simp: pointer_def c_bind_Inr c_return_Inr)
  ultimately show ?thesis using True by (auto simp: ref_target_def)
next
  case False
  have unfold: "(\<exists>left l. pointer node response path left = (Inr r, l)) \<longleftrightarrow>
     (\<exists>body first rest value. strip_prefix path ''/'' = Some body \<and>
        those (map unescaped (split_on (CHR ''/'') body)) = Some (first # rest) \<and>
        map_of response first = Some value \<and> (\<exists>left l. walk node value rest left = (Inr r, l)))"
    using False
    by (auto simp: pointer_def c_bind_Inr c_ok_or_def c_fail_def c_return_def split: option.splits list.splits)
  have tokens: "\<exists>first rest. ts = first # rest"
    if "those (map unescaped (split_on (CHR ''/'') b)) = Some ts" for b ts
    using those_nonempty [OF _ that] by (simp add: neq_Nil_conv)
  have "(\<exists>body first rest w. path = ''/'' @ body \<and>
        those (map unescaped (split_on (CHR ''/'') body)) = Some (first # rest) \<and>
        map_of response first = Some w \<and> points_to w rest r) \<longleftrightarrow> ref_target response path r"
    unfolding ref_target_def
    using False points_to_Object [of response _ _ r] tokens by (auto 0 3) metis
  then show ?thesis unfolding unfold walk_iff strip_prefix_Some .
qed

subsection \<open>Escapes\<close>

fun escaped :: "string \<Rightarrow> string" where
  "escaped [] = []"
| "escaped (c # cs) =
     (if c = CHR ''~'' then ''~0'' else if c = CHR ''/'' then ''~1'' else [c]) @ escaped cs"

lemma unescaped_escaped: "unescaped (escaped name) = Some name"
  by (induction name) simp_all

lemma escaped_no_slash: "CHR ''/'' \<notin> set (escaped name)"
  by (induction name) simp_all

lemma escaped_unescaped:
  "unescaped token = Some name \<Longrightarrow> CHR ''/'' \<notin> set token \<Longrightarrow> token = escaped name"
proof (induction token arbitrary: name rule: unescaped.induct)
  case (2 c cs)
  show ?case
  proof (cases "c = CHR ''~''")
    case True
    with 2(4) obtain d ds where cs: "cs = d # ds" by (cases cs) auto
    consider "d = CHR ''0''" | "d = CHR ''1''" using 2(4) True cs by (auto split: if_splits)
    then show ?thesis
    proof cases
      case 1
      with 2(4) True cs obtain n where "unescaped ds = Some n" "name = CHR ''~'' # n" by auto
      with 2(1) [OF True cs 1] 2(5) True cs 1 show ?thesis by simp
    next
      case 2
      with "2.prems"(1) True cs obtain n where "unescaped ds = Some n" "name = CHR ''/'' # n" by auto
      with "2.IH"(2) [OF True cs _ 2] "2.prems"(2) True cs 2 show ?thesis by simp
    qed
  next
    case False
    with 2(4) obtain n where "unescaped cs = Some n" "name = c # n" by auto
    with 2(3) [OF False] 2(5) False show ?thesis by auto
  qed
qed simp

lemma those_map_Some: "those (map (\<lambda>x. Some (f x)) xs) = Some (map f xs)"
  by (induction xs) simp_all

subsection \<open>Resolving the arguments\<close>

lemma c_fold_snoc: "c_fold f s (xs @ [x]) left = c_bind (c_fold f s xs) (\<lambda>s'. f s' x) left"
proof (induction xs arbitrary: s left)
  case Nil
  have "c_bind g (\<lambda>s'. c_return s') left = g left" for g :: "'a charged" and left
    by (auto simp: c_bind_def c_return_def split: prod.split sum.split)
  then show ?case by (simp add: c_bind_def c_return_def split: prod.split sum.split)
next
  case (Cons y ys)
  then show ?case by (auto simp: c_bind_def split: prod.split sum.split)
qed

definition is_reference :: "string \<Rightarrow> bool" where
  "is_reference name \<longleftrightarrow> starts_with name ''#''"

text \<open>Where a resolved argument comes from: itself, or the target of its reference.\<close>

definition argument_source ::
  "(json \<Rightarrow> result_reference option) \<Rightarrow> invocation list \<Rightarrow> string \<times> json \<Rightarrow> string \<Rightarrow> json \<Rightarrow> bool" where
  "argument_source de previous entry name v \<longleftrightarrow>
     (if is_reference (fst entry)
      then fst entry = CHR ''#'' # name \<and>
        (\<exists>reference response. de (snd entry) = Some reference \<and>
           List.find (\<lambda>inv. case inv of Invocation _ _ ident \<Rightarrow> ident = result_of reference) previous
             = Some (Invocation (ref_name reference) response (result_of reference)) \<and>
           ref_target response (ref_path reference) v)
      else entry = (name, v))"

lemma resolve_one_source:
  assumes "resolve_one node de arguments previous resolved entry left = (Inr resolved', l)"
  shows "\<exists>name v. argument_source de previous entry name v \<and> resolved' = bt_insert name v resolved \<and>
     (is_reference (fst entry) \<longrightarrow> map_of arguments name = None \<and> weight node v + l \<le> left) \<and>
     (\<not> is_reference (fst entry) \<longrightarrow> l = left)"
proof (cases "strip_prefix (fst entry) ''#''")
  case None
  then have "\<not> is_reference (fst entry)" by (auto simp: strip_prefix_def is_reference_def split: if_splits)
  with None assms show ?thesis
    by (cases entry) (auto simp: resolve_one_def argument_source_def c_return_def)
next
  case (Some plain)
  then have ref: "is_reference (fst entry)" "fst entry = CHR ''#'' # plain"
    by (auto simp: strip_prefix_def is_reference_def starts_with_def split: if_splits) (metis append_Cons append_Nil append_take_drop_id)+
  from assms Some obtain reference inv found m where r: "map_of arguments plain = None"
    "de (snd entry) = Some reference"
    "List.find (\<lambda>inv. case inv of Invocation _ _ ident \<Rightarrow> ident = result_of reference) previous = Some inv"
    "(case inv of Invocation method_name response _ \<Rightarrow> method_name = ref_name reference \<and>
       pointer node response (ref_path reference) left = (Inr found, l))"
    "resolved' = bt_insert plain found resolved"
    by (auto simp: resolve_one_def case_prod_beta c_bind_Inr c_ok_or_def c_fail_def c_return_def
        split: if_splits option.splits invocation.splits)
  obtain method_name response ident where inv: "inv = Invocation method_name response ident" by (cases inv)
  have "case inv of Invocation _ _ ident \<Rightarrow> ident = result_of reference"
    using r(3) by (auto simp: find_Some_iff)
  then have "ident = result_of reference" by (simp add: inv)
  moreover have "ref_target response (ref_path reference) found" "weight node found + l \<le> left"
    using r(4) inv pointer_iff [of node response "ref_path reference" found] paysD(1) [OF pointer_pays] by auto
  ultimately show ?thesis
    using ref r inv by (intro exI [of _ plain] exI [of _ found]) (auto simp: argument_source_def)
qed

lemma resolve_one_left: "resolve_one node de arguments previous resolved entry left = (r, l) \<Longrightarrow> l \<le> left"
proof -
  assume r: "resolve_one node de arguments previous resolved entry left = (r, l)"
  have "snd (pointer node response path left) \<le> left" for response path
    using paysD(2) [OF pointer_pays] by (metis surjective_pairing)
  with r show ?thesis
    by (fastforce simp: resolve_one_def case_prod_beta c_bind_def c_ok_or_def c_fail_def c_return_def
        split: if_splits option.splits invocation.splits prod.splits sum.splits)
qed

lemma argument_name_neq:
  assumes "argument_source de previous e name v" "argument_source de previous e' name' v'"
    and "fst e \<noteq> fst e'" "is_reference (fst e) \<longrightarrow> map_of arguments name = None"
    and "is_reference (fst e') \<longrightarrow> map_of arguments name' = None"
    and "map_of arguments (fst e) \<noteq> None" "map_of arguments (fst e') \<noteq> None"
  shows "name \<noteq> name'"
  using assms by (auto simp: argument_source_def split: if_splits)

lemma resolve_sources:
  assumes "c_fold (resolve_one node de arguments previous) [] es left = (Inr out, l)"
    and "distinct (map fst es)" "\<forall>e \<in> set es. map_of arguments (fst e) \<noteq> None"
  shows "(\<forall>e \<in> set es. \<exists>name v. argument_source de previous e name v \<and> map_of out name = Some v \<and>
        (is_reference (fst e) \<longrightarrow> map_of arguments name = None)) \<and>
     (\<forall>name v. map_of out name = Some v \<longrightarrow> (\<exists>e \<in> set es. argument_source de previous e name v)) \<and>
     bt_ok out"
  using assms
proof (induction es arbitrary: out l rule: rev_induct)
  case Nil
  then show ?case by (auto simp: c_return_def)
next
  case (snoc e es)
  from snoc.prems(1) obtain mid m where f: "c_fold (resolve_one node de arguments previous) [] es left = (Inr mid, m)"
      "resolve_one node de arguments previous mid e m = (Inr out, l)"
    by (auto simp: c_fold_snoc c_bind_Inr)
  from resolve_one_source [OF f(2)] obtain name v where e: "argument_source de previous e name v"
      "out = bt_insert name v mid" "is_reference (fst e) \<longrightarrow> map_of arguments name = None" by blast
  note ih = snoc.IH [OF f(1)]
  have ih': "bt_ok mid" "\<forall>name v. map_of mid name = Some v \<longrightarrow> (\<exists>e \<in> set es. argument_source de previous e name v)"
    "\<forall>e \<in> set es. \<exists>name v. argument_source de previous e name v \<and> map_of mid name = Some v \<and>
        (is_reference (fst e) \<longrightarrow> map_of arguments name = None)"
    using ih snoc.prems by auto
  have keep: "\<exists>name' v'. argument_source de previous e' name' v' \<and> map_of out name' = Some v' \<and>
        (is_reference (fst e') \<longrightarrow> map_of arguments name' = None)" if e': "e' \<in> set es" for e'
  proof -
    obtain name' v' where s: "argument_source de previous e' name' v'" "map_of mid name' = Some v'"
        "is_reference (fst e') \<longrightarrow> map_of arguments name' = None" using ih'(3) e' by blast
    have "fst e \<noteq> fst e'" using snoc.prems(2) e' by force
    then have "name \<noteq> name'"
      using argument_name_neq [OF e(1) s(1) _ e(3) s(3)] snoc.prems(3) e' by auto
    with s show ?thesis by (auto simp: e(2) bt_get_insert)
  qed
  show ?case
    using keep e ih'(1,2) by (auto simp: bt_get_insert bt_ok_insert)
qed

subsection \<open>Properties\<close>

text \<open>
  C38: Resolving the arguments of a call gives every argument exactly once: a plain one unchanged,
  a \<open>#name\<close> one under \<open>name\<close> with the value its pointer denotes in the first earlier response
  under its call id, which has the method name the reference gives; nothing else is in the result.
\<close>

theorem resolve_gives_every_argument:
  assumes "distinct (map fst arguments)"
    and "resolve node de arguments previous left = (Inr out, l)"
  shows "(\<forall>e \<in> set arguments. \<exists>name v. argument_source de previous e name v \<and> map_of out name = Some v) \<and>
     (\<forall>name v. map_of out name = Some v \<longrightarrow> (\<exists>e \<in> set arguments. argument_source de previous e name v))"
proof -
  have "\<forall>e \<in> set arguments. map_of arguments (fst e) \<noteq> None"
    by (auto simp: map_of_eq_None_iff)
  from resolve_sources [OF assms(2) [unfolded resolve_def] assms(1) this] show ?thesis by blast
qed

definition demo_de :: "json \<Rightarrow> result_reference option" where
  "demo_de v = (case v of
      Object [(a, String s), (b, String t), (c, String u)] \<Rightarrow>
        if a = ''name'' \<and> b = ''path'' \<and> c = ''resultOf''
        then Some \<lparr>result_of = u, ref_name = s, ref_path = t\<rparr> else None
    | _ \<Rightarrow> None)"

definition demo_arguments :: members where
  "demo_arguments =
     [(''#ids'', Object [(''name'', String ''Email/query''), (''path'', String ''/list/*/ids''), (''resultOf'', String ''c0'')]),
      (''accountId'', String ''a'')]"

definition demo_previous :: "invocation list" where
  "demo_previous = [Invocation ''Email/query''
     [(''list'', Array [Object [(''ids'', Array [String ''x'', String ''y''])], Object [(''ids'', String ''z'')]])] ''c0'']"

definition demo_resolved :: "(string, json) bt" where
  "demo_resolved = [(''accountId'', String ''a''), (''ids'', Array [String ''x'', String ''y'', String ''z''])]"

lemma demo_resolve:
  "resolve 1 demo_de demo_arguments demo_previous 20 = (Inr demo_resolved, 12)"
  by code_simp

theorem resolve_gives_every_argument_witness:
  "\<exists>e. e \<in> set demo_arguments \<and>
     argument_source demo_de demo_previous e ''ids'' (Array [String ''x'', String ''y'', String ''z''])"
proof -
  have "map_of demo_resolved ''ids'' = Some (Array [String ''x'', String ''y'', String ''z''])"
    by (simp add: demo_resolved_def)
  moreover have "distinct (map fst demo_arguments)" by (simp add: demo_arguments_def)
  ultimately show ?thesis using resolve_gives_every_argument [OF _ demo_resolve] by blast
qed

fun resolve_calls ::
  "nat \<Rightarrow> (json \<Rightarrow> result_reference option) \<Rightarrow> (members \<times> invocation list) list \<Rightarrow> nat
     \<Rightarrow> (method_error + (string, json) bt) list \<times> nat" where
  "resolve_calls node de [] left = ([], left)"
| "resolve_calls node de ((arguments, previous) # calls) left =
     (let (r, left1) = resolve node de arguments previous left;
          (rs, left2) = resolve_calls node de calls left1
      in (r # rs, left2))"

definition copied_weight :: "nat \<Rightarrow> members \<Rightarrow> method_error + (string, json) bt \<Rightarrow> nat" where
  "copied_weight node arguments r =
     (case r of Inl e \<Rightarrow> 0
      | Inr out \<Rightarrow> sum_list (map (\<lambda>(name, v). if map_of arguments name = None then weight node v else 0) out))"

lemma sum_insert_new:
  "map_of m k = None \<Longrightarrow> sum_list (map f (bt_insert k v m)) = f (k, v) + (sum_list (map f m) :: nat)"
  by (induction k v m rule: bt_insert.induct) auto

lemma resolve_fold_weight:
  assumes "c_fold (resolve_one node de arguments previous) [] es left = (r, l)"
    and "distinct (map fst es)" "\<forall>e \<in> set es. map_of arguments (fst e) \<noteq> None"
  shows "copied_weight node arguments r + l \<le> left"
  using assms
proof (induction es arbitrary: r l rule: rev_induct)
  case Nil
  then show ?case by (auto simp: c_return_def copied_weight_def)
next
  case (snoc e es)
  obtain r1 m where f: "c_fold (resolve_one node de arguments previous) [] es left = (r1, m)" by fastforce
  have ih: "copied_weight node arguments r1 + m \<le> left" using snoc.IH [OF f] snoc.prems by simp
  show ?case
  proof (cases r1)
    case (Inl err)
    with f snoc.prems(1) ih show ?thesis by (auto simp: c_fold_snoc c_bind_def copied_weight_def)
  next
    case (Inr mid)
    with f snoc.prems(1) have one: "resolve_one node de arguments previous mid e m = (r, l)"
      by (simp add: c_fold_snoc c_bind_def)
    show ?thesis
    proof (cases r)
      case (Inl err)
      then show ?thesis using resolve_one_left [OF one] ih by (simp add: copied_weight_def)
    next
      case (Inr out)
      from resolve_one_source [OF one [unfolded Inr]] obtain name v where s: "argument_source de previous e name v"
        "out = bt_insert name v mid"
        "is_reference (fst e) \<longrightarrow> map_of arguments name = None \<and> weight node v + l \<le> m"
        "\<not> is_reference (fst e) \<longrightarrow> l = m" by blast
      have fresh: "map_of mid name = None"
      proof (rule ccontr)
        assume "map_of mid name \<noteq> None"
        then obtain w where w: "map_of mid name = Some w" by blast
        have src: "(\<forall>e \<in> set es. \<exists>name v. argument_source de previous e name v \<and> map_of mid name = Some v \<and>
              (is_reference (fst e) \<longrightarrow> map_of arguments name = None)) \<and>
           (\<forall>name v. map_of mid name = Some v \<longrightarrow> (\<exists>e \<in> set es. argument_source de previous e name v))"
          using resolve_sources [OF f [unfolded \<open>r1 = Inr mid\<close>]] snoc.prems by simp
        then obtain e' where e': "e' \<in> set es" "argument_source de previous e' name w" using w by blast
        moreover have "is_reference (fst e') \<longrightarrow> map_of arguments name = None"
          using src e' by (fastforce simp: argument_source_def split: if_splits)
        moreover have "fst e \<noteq> fst e'" using snoc.prems(2) e'(1) by force
        ultimately show False
          using argument_name_neq [OF s(1) e'(2), of arguments] s(3) snoc.prems(3) by simp
      qed
      have "map_of arguments name \<noteq> None" if "\<not> is_reference (fst e)"
        using s(1) that snoc.prems(3) by (auto simp: argument_source_def)
      then show ?thesis
        using ih s Inr \<open>r1 = Inr mid\<close> fresh by (cases "is_reference (fst e)") (auto simp: copied_weight_def sum_insert_new)
    qed
  qed
qed

text \<open>
  What a run clones on its way, whether it ends well or fails: every target a walk reaches once its
  charge went through, each with the budget as it is then.
\<close>

fun each_clones :: "(json \<Rightarrow> json charged) \<Rightarrow> (json \<Rightarrow> nat \<Rightarrow> json list) \<Rightarrow> json list \<Rightarrow> nat \<Rightarrow> json list" where
  "each_clones f c [] left = []"
| "each_clones f c (item # items) left =
     c item left @ (case f item left of (Inr _, l) \<Rightarrow> each_clones f c items l | (Inl _, _) \<Rightarrow> [])"

fun walk_clones :: "nat \<Rightarrow> json \<Rightarrow> string list \<Rightarrow> nat \<Rightarrow> json list" where
  "walk_clones node value [] left = (case charge node value left of (Inr _, _) \<Rightarrow> [value] | (Inl _, _) \<Rightarrow> [])"
| "walk_clones node value (token # rest) left =
     (case (value, token = ''*'') of
        (Array items, True) \<Rightarrow>
          (case budget_take node left of
             (Inr _, l) \<Rightarrow> each_clones (\<lambda>item. walk node item rest) (\<lambda>item. walk_clones node item rest) items l
           | (Inl _, _) \<Rightarrow> [])
      | _ \<Rightarrow> (case child value token of None \<Rightarrow> [] | Some next \<Rightarrow> walk_clones node next rest left))"

definition pointer_clones :: "nat \<Rightarrow> members \<Rightarrow> string \<Rightarrow> nat \<Rightarrow> json list" where
  "pointer_clones node response path left =
     (if path = [] then (case charge_object node response left of (Inr _, _) \<Rightarrow> [Object response] | (Inl _, _) \<Rightarrow> [])
      else case Option.bind (strip_prefix path ''/'') (\<lambda>body. those (map unescaped (split_on (CHR ''/'') body))) of
             Some (first # rest) \<Rightarrow> (case map_of response first of None \<Rightarrow> [] | Some value \<Rightarrow> walk_clones node value rest left)
           | _ \<Rightarrow> [])"

definition entry_clones ::
  "nat \<Rightarrow> (json \<Rightarrow> result_reference option) \<Rightarrow> members \<Rightarrow> invocation list \<Rightarrow> string \<times> json \<Rightarrow> nat \<Rightarrow> json list" where
  "entry_clones node de arguments previous entry left =
     (case strip_prefix (fst entry) ''#'' of
        None \<Rightarrow> []
      | Some plain \<Rightarrow>
          if map_of arguments plain \<noteq> None then []
          else case de (snd entry) of
                 None \<Rightarrow> []
               | Some reference \<Rightarrow>
                   (case List.find (\<lambda>inv. case inv of Invocation _ _ ident \<Rightarrow> ident = result_of reference) previous of
                      Some (Invocation method_name response _) \<Rightarrow>
                        if method_name \<noteq> ref_name reference then [] else pointer_clones node response (ref_path reference) left
                    | None \<Rightarrow> []))"

fun entries_clones ::
  "nat \<Rightarrow> (json \<Rightarrow> result_reference option) \<Rightarrow> members \<Rightarrow> invocation list \<Rightarrow> (string, json) bt \<Rightarrow> members \<Rightarrow> nat \<Rightarrow> json list" where
  "entries_clones node de arguments previous resolved [] left = []"
| "entries_clones node de arguments previous resolved (e # es) left =
     entry_clones node de arguments previous e left @
     (case resolve_one node de arguments previous resolved e left of
        (Inr resolved', l) \<Rightarrow> entries_clones node de arguments previous resolved' es l
      | (Inl _, _) \<Rightarrow> [])"

text \<open>What the calls of a request copy, one after the other: a call that fails, all it cloned up to there.\<close>

fun calls_copied :: "nat \<Rightarrow> (json \<Rightarrow> result_reference option) \<Rightarrow> (members \<times> invocation list) list \<Rightarrow> nat \<Rightarrow> nat" where
  "calls_copied node de [] left = 0"
| "calls_copied node de ((arguments, previous) # calls) left =
     (let (r, l) = resolve node de arguments previous left
      in (case r of
            Inr _ \<Rightarrow> copied_weight node arguments r
          | Inl _ \<Rightarrow> weights node (entries_clones node de arguments previous [] arguments left)) + calls_copied node de calls l)"

definition clones_paid :: "nat \<Rightarrow> (nat \<Rightarrow> json list) \<Rightarrow> 'a charged \<Rightarrow> bool" where
  "clones_paid node c f \<longleftrightarrow> (\<forall>left. weights node (c left) + snd (f left) \<le> left)"

lemma charge_paid: "clones_paid node (\<lambda>left. case charge node v left of (Inr _, _) \<Rightarrow> [v] | (Inl _, _) \<Rightarrow> []) (charge node v)"
  unfolding clones_paid_def
proof
  fix left
  show "weights node (case charge node v left of (Inr _, _) \<Rightarrow> [v] | (Inl _, _) \<Rightarrow> []) + snd (charge node v left) \<le> left"
    using paysD [OF pays_charge [of node v], of left] by (auto split: prod.split sum.split)
qed

lemma paid_after: "clones_paid node c f \<Longrightarrow> clones_paid node c (c_bind f (\<lambda>a. c_return (g a)))"
  by (auto simp: clones_paid_def c_bind_def c_return_def split: prod.split sum.split) (metis snd_conv)+

lemma each_paid:
  assumes "\<And>item. clones_paid node (c item) (f item)"
  shows "clones_paid node (each_clones f c items) (c_fold (\<lambda>out item. c_bind (f item) (\<lambda>v. c_return (flattened out v))) out items)"
proof (induction items arbitrary: out)
  case Nil
  then show ?case by (simp add: clones_paid_def c_return_def)
next
  case (Cons item items)
  show ?case unfolding clones_paid_def
  proof
    fix left
    obtain r l where r: "f item left = (r, l)" by fastforce
    have head: "weights node (c item left) + l \<le> left" using assms [of item] r by (auto simp: clones_paid_def) (metis snd_conv)
    show "weights node (each_clones f c (item # items) left) +
      snd (c_fold (\<lambda>out item. c_bind (f item) (\<lambda>v. c_return (flattened out v))) out (item # items) left) \<le> left"
    proof (cases r)
      case (Inr v)
      have "weights node (each_clones f c items l) + snd (c_fold (\<lambda>out item. c_bind (f item) (\<lambda>v. c_return (flattened out v))) (flattened out v) items l) \<le> l"
        using Cons.IH [of "flattened out v"] by (simp add: clones_paid_def)
      then show ?thesis using head r Inr by (simp add: c_bind_def c_return_def)
    qed (use head r in \<open>simp add: c_bind_def\<close>)
  qed
qed

lemma walk_paid: "clones_paid node (walk_clones node v0 tokens) (walk node v0 tokens)"
proof (induction tokens arbitrary: v0)
  case Nil
  show ?case using paid_after [OF charge_paid [of node v0], of "\<lambda>_. v0"] by (simp add: clones_paid_def)
next
  case (Cons token rest)
  show ?case
  proof (cases "\<exists>items. v0 = Array items \<and> token = ''*''")
    case True
    then obtain items where v: "v0 = Array items" "token = ''*''" by blast
    have "clones_paid node (each_clones (\<lambda>item. walk node item rest) (\<lambda>item. walk_clones node item rest) items)
      (c_bind (c_fold (\<lambda>out item. c_bind (walk node item rest) (\<lambda>v. c_return (flattened out v))) [] items) (\<lambda>out. c_return (Array out)))"
      by (rule paid_after [OF each_paid [OF Cons.IH]])
    then show ?thesis unfolding clones_paid_def v
      by (auto simp: c_bind_def budget_take_def split: prod.splits sum.splits) (metis (no_types, lifting) le_trans diff_le_self)+
  next
    case False
    then have "walk node v0 (token # rest) = c_bind (c_ok_or NOTHING_THERE (child v0 token)) (\<lambda>next. walk node next rest)"
      "walk_clones node v0 (token # rest) = (\<lambda>left. case child v0 token of None \<Rightarrow> [] | Some next \<Rightarrow> walk_clones node next rest left)"
      by (cases v0; auto)+
    then show ?thesis using Cons.IH
      by (auto simp: clones_paid_def c_bind_def c_ok_or_def c_fail_def c_return_def split: option.split)
  qed
qed

lemma pointer_paid: "clones_paid node (pointer_clones node response path) (pointer node response path)"
proof (cases "path = []")
  case True
  then show ?thesis using paid_after [OF charge_paid [of node "Object response"], of "\<lambda>_. Object response"]
    by (simp add: clones_paid_def pointer_clones_def pointer_def charge_object_eq)
next
  case False
  then show ?thesis using walk_paid
    by (auto simp: clones_paid_def pointer_clones_def pointer_def c_bind_def c_ok_or_def c_fail_def c_return_def
        split: option.split list.split)
qed

lemma entry_paid: "clones_paid node (entry_clones node de arguments previous e) (resolve_one node de arguments previous resolved e)"
proof -
  have "clones_paid node (pointer_clones node response path)
    (c_bind (pointer node response path) (\<lambda>found. c_return (bt_insert plain found resolved)))" for response path plain
    by (rule paid_after [OF pointer_paid])
  then show ?thesis
    by (auto simp: clones_paid_def entry_clones_def resolve_one_def Let_def c_bind_def c_ok_or_def c_fail_def c_return_def
        split: option.split prod.split invocation.split)
qed

lemma entries_paid:
  "clones_paid node (entries_clones node de arguments previous resolved es) (c_fold (resolve_one node de arguments previous) resolved es)"
proof (induction es arbitrary: resolved)
  case Nil
  then show ?case by (simp add: clones_paid_def c_return_def)
next
  case (Cons e es)
  show ?case unfolding clones_paid_def
  proof
    fix left
    obtain r l where r: "resolve_one node de arguments previous resolved e left = (r, l)" by fastforce
    have head: "weights node (entry_clones node de arguments previous e left) + l \<le> left"
      using entry_paid [of node de arguments previous e resolved] r by (auto simp: clones_paid_def) (metis snd_conv)
    show "weights node (entries_clones node de arguments previous resolved (e # es) left) +
      snd (c_fold (resolve_one node de arguments previous) resolved (e # es) left) \<le> left"
    proof (cases r)
      case (Inr resolved')
      have "weights node (entries_clones node de arguments previous resolved' es l) + snd (c_fold (resolve_one node de arguments previous) resolved' es l) \<le> l"
        using Cons.IH [of resolved'] by (simp add: clones_paid_def)
      then show ?thesis using head r Inr by (simp add: c_bind_def)
    qed (use head r in \<open>simp add: c_bind_def\<close>)
  qed
qed

text \<open>
  C39: The budget bounds what references copy: over any sequence of calls of one request, the weights of
  the values the references of the calls that resolve come to and of everything a call that fails cloned
  before it failed add up to at most what the budget started with, and what was taken stays taken.
\<close>

theorem references_within_budget:
  assumes "\<forall>(arguments, previous) \<in> set calls. distinct (map fst arguments)"
    and "resolve_calls node de calls budget_full = (rs, l)"
  shows "calls_copied node de calls budget_full + l \<le> MAX_REFERENCE_WEIGHT"
proof -
  have "calls_copied node de calls left + l \<le> left"
    if "resolve_calls node de calls left = (rs, l)" for left
    using assms(1) that
  proof (induction calls arbitrary: left rs)
    case (Cons call calls)
    obtain arguments previous where c: "call = (arguments, previous)" by (cases call)
    obtain r m where r: "resolve node de arguments previous left = (r, m)" by fastforce
    obtain rs' where rs: "resolve_calls node de calls m = (rs', l)" "rs = r # rs'"
      using Cons.prems(2) c r by (auto split: prod.splits)
    have "\<forall>e \<in> set arguments. map_of arguments (fst e) \<noteq> None" by (auto simp: map_of_eq_None_iff)
    then have "copied_weight node arguments r + m \<le> left"
      using resolve_fold_weight [OF r [unfolded resolve_def]] Cons.prems(1) c by simp
    moreover have "weights node (entries_clones node de arguments previous [] arguments left) + m \<le> left"
      using entries_paid [of node de arguments previous "[]" arguments] r by (auto simp: clones_paid_def resolve_def) (metis snd_conv)
    moreover have "calls_copied node de calls m + l \<le> m" using Cons.IH [OF _ rs(1)] Cons.prems(1) by simp
    ultimately show ?case using c r by (auto split: sum.split)
  qed simp
  from this [OF assms(2)] show ?thesis by (simp add: budget_full_def)
qed

theorem references_within_budget_witness:
  "\<exists>rs l. resolve_calls 1 demo_de [(demo_arguments, demo_previous), (demo_arguments, [])] budget_full = (rs, l) \<and>
     calls_copied 1 demo_de [(demo_arguments, demo_previous), (demo_arguments, [])] budget_full + l \<le> MAX_REFERENCE_WEIGHT"
proof -
  obtain rs l where r: "resolve_calls 1 demo_de [(demo_arguments, demo_previous), (demo_arguments, [])] budget_full = (rs, l)"
    by fastforce
  have "\<forall>(arguments, previous) \<in> set [(demo_arguments, demo_previous), (demo_arguments, [])]. distinct (map fst arguments)"
    by (simp add: demo_arguments_def)
  from references_within_budget [OF this r] r show ?thesis by blast
qed

text \<open>
  A JSON pointer written from member names with RFC 6901's escapes reads as exactly those
  names, and no token without a slash other than the escaped form of a name reads as that name.
\<close>

theorem pointer_escapes_round_trip:
  assumes "names \<noteq> []"
  shows "those (map unescaped (split_on (CHR ''/'') (join_with (CHR ''/'') (map escaped names)))) = Some names \<and>
     (\<forall>token name. CHR ''/'' \<notin> set token \<longrightarrow> unescaped token = Some name \<longrightarrow> token = escaped name)"
proof -
  have "split_on (CHR ''/'') (join_with (CHR ''/'') (map escaped names)) = map escaped names"
    using assms escaped_no_slash by (intro split_join) auto
  then show ?thesis using escaped_unescaped those_map_Some [of "\<lambda>x. x" names] by (simp add: unescaped_escaped o_def)
qed

theorem pointer_escapes_round_trip_witness:
  "those (map unescaped (split_on (CHR ''/'') ''keywords/a~1b~0'')) = Some [''keywords'', ''a/b~'']"
  using pointer_escapes_round_trip [of "[''keywords'', ''a/b~'']"] by simp

end
