(* ===== verification/Gmail_Labels.thy ===== *)
theory Gmail_Labels
  imports Bridge_Prelude
begin

text \<open>
  The Gmail label model (\<open>gmail.rs\<close>): which folders are stores, which label every other folder
  shows, and the two spellings of a system label, the bridge's and the one a STORE writes.
\<close>

record list_entry =
  le_name :: string
  le_delimiter :: "char option"
  le_attributes :: "string list"

definition INBOX :: string where "INBOX = ''INBOX''"

definition bs :: "string \<Rightarrow> string" where
  "bs s = CHR 92 # s"

definition GMAIL_CAPABILITY :: string where "GMAIL_CAPABILITY = ''X-GM-EXT-1''"
definition ALL_MAIL_ROLE :: string where "ALL_MAIL_ROLE = ''archive''"

definition STORE_ATTRIBUTES :: "string list" where
  "STORE_ATTRIBUTES = [bs ''ALL'', bs ''JUNK'', bs ''TRASH'']"

definition LABELED_ATTRIBUTES :: "(string \<times> string) list" where
  "LABELED_ATTRIBUTES =
     [(bs ''SENT'', bs ''Sent''), (bs ''DRAFTS'', bs ''Drafts''),
      (bs ''FLAGGED'', bs ''Flagged''), (bs ''IMPORTANT'', bs ''Important'')]"

definition INBOX_LABEL :: string where "INBOX_LABEL = bs ''Inbox''"

definition SYSTEM_LABELS :: "(string \<times> string) list" where
  "SYSTEM_LABELS =
     [(bs ''Inbox'', INBOX_LABEL), (bs ''Sent'', bs ''Sent''), (bs ''Drafts'', bs ''Drafts''),
      (bs ''Draft'', bs ''Drafts''), (bs ''Flagged'', bs ''Flagged''),
      (bs ''Starred'', bs ''Flagged''), (bs ''Important'', bs ''Important'')]"

definition WRITTEN_LABELS :: "(string \<times> string) list" where
  "WRITTEN_LABELS = [(bs ''Flagged'', bs ''Starred''), (bs ''Drafts'', bs ''Draft'')]"

definition is_store :: "string list \<Rightarrow> bool" where
  "is_store attributes = list_ex (\<lambda>a. a \<in> set STORE_ATTRIBUTES) attributes"

definition gmail_role :: "string \<Rightarrow> string" where
  "gmail_role attribute_role = (if attribute_role = ''all'' then ALL_MAIL_ROLE else attribute_role)"

definition label_of :: "list_entry \<Rightarrow> string" where
  "label_of entry =
     (if eq_ignore_ascii_case (le_name entry) INBOX then INBOX_LABEL
      else case List.find (\<lambda>(attribute, _). attribute \<in> set (le_attributes entry)) LABELED_ATTRIBUTES of
             None \<Rightarrow> le_name entry
           | Some (_, label) \<Rightarrow> label)"

definition canonical :: "string \<Rightarrow> string" where
  "canonical label =
     (if \<not> starts_with label (bs []) then label
      else case List.find (\<lambda>(spelling, _). eq_ignore_ascii_case label spelling) SYSTEM_LABELS of
             None \<Rightarrow> label
           | Some (_, folded) \<Rightarrow> folded)"

definition written_label :: "string \<Rightarrow> string" where
  "written_label label =
     (case List.find (\<lambda>(kept, _). kept = label) WRITTEN_LABELS of
        None \<Rightarrow> label
      | Some (_, w) \<Rightarrow> w)"

lemma lower_backslash: "to_lower_byte c = to_lower_byte (CHR 92) \<Longrightarrow> c = CHR 92"
proof -
  assume eq: "to_lower_byte c = to_lower_byte (CHR 92)"
  have b: "to_lower_byte (CHR 92) = CHR 92" by code_simp
  show ?thesis
  proof (cases "is_ascii_upper c")
    case True
    then have "code (to_lower_byte c) = code c + 32" "65 \<le> code c"
      by (simp_all add: to_lower_byte_def is_ascii_upper_def)
    then have "code (CHR 92) \<ge> 97" using eq b by simp
    then show ?thesis by simp
  next
    case False
    with eq b show ?thesis by (simp add: to_lower_byte_def)
  qed
qed

lemma canonical_cases:
  "canonical label = label \<and> List.find (\<lambda>(spelling, _). eq_ignore_ascii_case label spelling) SYSTEM_LABELS = None
   \<or> canonical label = label \<and> \<not> starts_with label (bs [])
   \<or> canonical label \<in> {bs ''Inbox'', bs ''Sent'', bs ''Drafts'', bs ''Flagged'', bs ''Important''}"
proof (cases "starts_with label (bs [])")
  case True
  then show ?thesis
    by (auto simp: canonical_def SYSTEM_LABELS_def INBOX_LABEL_def split: option.split)
qed (simp add: canonical_def)

lemma canonical_system:
  "canonical (bs ''Inbox'') = bs ''Inbox''" "canonical (bs ''Sent'') = bs ''Sent''"
  "canonical (bs ''Drafts'') = bs ''Drafts''" "canonical (bs ''Flagged'') = bs ''Flagged''"
  "canonical (bs ''Important'') = bs ''Important''" "canonical (bs ''Starred'') = bs ''Flagged''"
  "canonical (bs ''Draft'') = bs ''Drafts''"
  by code_simp+

lemma canonical_idem: "canonical (canonical label) = canonical label"
  using canonical_cases [of label] by (auto simp: canonical_system)

lemma written_label_cases:
  "written_label label = label \<or> label = bs ''Flagged'' \<and> written_label label = bs ''Starred'' \<or>
   label = bs ''Drafts'' \<and> written_label label = bs ''Draft''"
  by (auto simp: written_label_def WRITTEN_LABELS_def)

text \<open>
  Labels survive the way to Gmail and back: folding a label is final, two spellings of one
  label that differ in case fold to the same, and a label in the bridge's spelling that a STORE
  writes reads back from the server's answer, in whatever case the server spells a system label,
  as the label that was stored.
\<close>

theorem label_store_round_trip:
  assumes kept: "canonical label = label"
    and answer: "found = written_label label \<or>
      starts_with label (bs []) \<and> label \<in> snd ` set SYSTEM_LABELS \<and> eq_ignore_ascii_case found (written_label label)"
  shows "canonical found = label \<and> canonical (canonical found) = canonical found"
proof -
  have plain: "canonical (written_label label) = label"
    using written_label_cases [of label] kept by (auto simp: canonical_system)
  have "canonical found = canonical (written_label label)"
    if sys: "label \<in> snd ` set SYSTEM_LABELS" and eq: "eq_ignore_ascii_case found (written_label label)"
  proof -
    from sys have "label \<in> {bs ''Inbox'', bs ''Sent'', bs ''Drafts'', bs ''Flagged'', bs ''Important''}"
      by (auto simp: SYSTEM_LABELS_def INBOX_LABEL_def)
    then have w: "written_label label \<in> {bs ''Inbox'', bs ''Sent'', bs ''Draft'', bs ''Starred'', bs ''Important''}"
      by (auto simp: written_label_def WRITTEN_LABELS_def bs_def)
    obtain c r where f: "found = c # r" "to_lower_byte c = to_lower_byte (CHR 92)"
      using eq w by (cases found) (auto simp: eq_ignore_ascii_case_def to_ascii_lowercase_def bs_def)
    from lower_backslash [OF f(2)] have "c = CHR 92" .
    then have "starts_with found (bs [])" "starts_with (written_label label) (bs [])"
      using f w by (auto simp: starts_with_def bs_def)
    moreover have "eq_ignore_ascii_case found s = eq_ignore_ascii_case (written_label label) s" for s
      using eq by (auto simp: eq_ignore_ascii_case_def)
    moreover have "List.find (\<lambda>(spelling, _). eq_ignore_ascii_case (written_label label) spelling) SYSTEM_LABELS \<noteq> None"
      using w by (auto simp: find_None_iff SYSTEM_LABELS_def)
    ultimately show ?thesis by (auto simp: canonical_def split: option.split)
  qed
  with answer plain show ?thesis using canonical_idem by auto
qed

theorem label_store_round_trip_witness:
  "canonical (bs ''STARRED'') = bs ''Flagged'' \<and> written_label (bs ''Flagged'') = bs ''Starred''"
proof -
  have "canonical (bs ''Flagged'') = bs ''Flagged''" by (simp add: canonical_system)
  moreover have "starts_with (bs ''Flagged'') (bs []) \<and> bs ''Flagged'' \<in> snd ` set SYSTEM_LABELS \<and>
      eq_ignore_ascii_case (bs ''STARRED'') (written_label (bs ''Flagged''))" by code_simp
  moreover have "written_label (bs ''Flagged'') = bs ''Starred''" by code_simp
  ultimately show ?thesis using label_store_round_trip [of "bs ''Flagged''" "bs ''STARRED''"] by blast
qed

end
