(* ===== verification/Keyword_Flags.thy ===== *)
theory Keyword_Flags
  imports Gmail_Labels Ordered_Map
begin

text \<open>
  IMAP flags to JMAP keywords and back (\<open>sync/mapping.rs\<close>). A keyword map of the store is the
  list of its keys in order with the value true.
\<close>

definition SYSTEM_KEYWORDS :: "(string \<times> string) list" where
  "SYSTEM_KEYWORDS =
     [(bs ''Seen'', ''$seen''), (bs ''Flagged'', ''$flagged''),
      (bs ''Answered'', ''$answered''), (bs ''Draft'', ''$draft'')]"

definition DRAFT_KEYWORD :: string where "DRAFT_KEYWORD = ''$draft''"
definition DRAFT_LABEL :: string where "DRAFT_LABEL = bs ''Drafts''"

definition KEYWORD_FORBIDDEN :: "byte list" where
  "KEYWORD_FORBIDDEN = ''(){]%*'' @ [CHR 34, CHR 92]"

definition MAX_KEYWORD_BYTES :: nat where "MAX_KEYWORD_BYTES = 255"

definition is_ascii_graphic :: "byte \<Rightarrow> bool" where
  "is_ascii_graphic c \<longleftrightarrow> 33 \<le> code c \<and> code c \<le> 126"

definition labels :: "string list \<Rightarrow> string list" where
  "labels found = foldl (\<lambda>ls label. if canonical label \<in> set ls then ls else ls @ [canonical label]) [] found"

definition is_deleted :: "string list \<Rightarrow> bool" where
  "is_deleted flags = list_ex (\<lambda>f. eq_ignore_ascii_case f (bs ''Deleted'')) flags"

definition canonical_keyword :: "string \<Rightarrow> string option" where
  "canonical_keyword t =
     (if t \<noteq> [] \<and> length t \<le> MAX_KEYWORD_BYTES \<and>
         list_all (\<lambda>b. is_ascii_graphic b \<and> b \<notin> set KEYWORD_FORBIDDEN) t
      then Some (to_ascii_lowercase t) else None)"

definition keyword :: "string \<Rightarrow> string option" where
  "keyword flag =
     (case List.find (\<lambda>(name, _). eq_ignore_ascii_case flag name) SYSTEM_KEYWORDS of
        Some (_, k) \<Rightarrow> Some k
      | None \<Rightarrow> canonical_keyword flag)"

definition keywords_of :: "string list \<Rightarrow> (string, bool) bt" where
  "keywords_of flags = foldl (\<lambda>m k. bt_insert k True m) [] (List.map_filter keyword flags)"

definition labeled_keywords :: "string list \<Rightarrow> string list option \<Rightarrow> (string, bool) bt" where
  "labeled_keywords flags ls =
     (let found = keywords_of flags;
          found_label = list_ex (\<lambda>l. canonical l = DRAFT_LABEL) (case ls of None \<Rightarrow> [] | Some l \<Rightarrow> l)
      in if found_label then bt_insert DRAFT_KEYWORD True found else found)"

definition flag :: "string \<Rightarrow> string" where
  "flag k =
     (case List.find (\<lambda>(_, name). name = k) SYSTEM_KEYWORDS of
        None \<Rightarrow> k
      | Some (f, _) \<Rightarrow> f)"

definition is_system_flag :: "string \<Rightarrow> bool" where
  "is_system_flag f = list_ex (\<lambda>(name, _). name = f) SYSTEM_KEYWORDS"

subsection \<open>Facts\<close>

lemma lower_keeps_class:
  "is_ascii_graphic b \<and> b \<notin> set KEYWORD_FORBIDDEN \<Longrightarrow>
   is_ascii_graphic (to_lower_byte b) \<and> to_lower_byte b \<notin> set KEYWORD_FORBIDDEN"
proof -
  assume b: "is_ascii_graphic b \<and> b \<notin> set KEYWORD_FORBIDDEN"
  show ?thesis
  proof (cases "is_ascii_upper b")
    case True
    then have "code (to_lower_byte b) = code b + 32" "65 \<le> code b" "code b \<le> 90"
      by (simp_all add: to_lower_byte_def is_ascii_upper_def)
    then have "97 \<le> code (to_lower_byte b)" "code (to_lower_byte b) \<le> 122" by simp_all
    then show ?thesis by (auto simp: is_ascii_graphic_def KEYWORD_FORBIDDEN_def)
  next
    case False
    with b show ?thesis by (simp add: to_lower_byte_def)
  qed
qed

lemma canonical_keyword_Some:
  assumes "canonical_keyword t = Some k"
  shows "canonical_keyword k = Some k" "CHR 92 \<notin> set k" "k \<noteq> []" "length k \<le> MAX_KEYWORD_BYTES"
    "\<forall>b \<in> set k. is_ascii_graphic b \<and> b \<notin> set KEYWORD_FORBIDDEN"
proof -
  have k: "k = to_ascii_lowercase t" "t \<noteq> []" "length t \<le> MAX_KEYWORD_BYTES"
      "\<forall>b \<in> set t. is_ascii_graphic b \<and> b \<notin> set KEYWORD_FORBIDDEN"
    using assms by (auto simp: canonical_keyword_def list_all_iff split: if_splits)
  show ok: "\<forall>b \<in> set k. is_ascii_graphic b \<and> b \<notin> set KEYWORD_FORBIDDEN"
    using k(4) lower_keeps_class by (auto simp: k(1) to_ascii_lowercase_def)
  show "k \<noteq> []" "length k \<le> MAX_KEYWORD_BYTES" using k by (simp_all add: to_ascii_lowercase_def)
  show "CHR 92 \<notin> set k" using ok by (auto simp: KEYWORD_FORBIDDEN_def)
  have "to_ascii_lowercase k = k" by (simp add: k(1) to_ascii_lowercase_def)
  then show "canonical_keyword k = Some k"
    using ok \<open>k \<noteq> []\<close> \<open>length k \<le> MAX_KEYWORD_BYTES\<close> by (simp add: canonical_keyword_def list_all_iff)
qed

lemma find_flag_plain:
  assumes "CHR 92 \<notin> set k"
  shows "List.find (\<lambda>(name, _). eq_ignore_ascii_case k name) SYSTEM_KEYWORDS = None"
proof -
  have "\<not> eq_ignore_ascii_case k (bs s)" for s
  proof
    assume "eq_ignore_ascii_case k (bs s)"
    then obtain c r where "k = c # r" "to_lower_byte c = to_lower_byte (CHR 92)"
      by (cases k) (auto simp: eq_ignore_ascii_case_def to_ascii_lowercase_def bs_def)
    with lower_backslash assms show False by auto
  qed
  then show ?thesis by (auto simp: SYSTEM_KEYWORDS_def find_None_iff)
qed

lemma flag_cases:
  "flag k = k \<and> k \<notin> snd ` set SYSTEM_KEYWORDS \<or> (flag k, k) \<in> set SYSTEM_KEYWORDS"
  by (auto simp: flag_def SYSTEM_KEYWORDS_def)

lemma keyword_flag:
  assumes "canonical_keyword t = Some k"
  shows "keyword (flag k) = Some k"
proof -
  consider "flag k = k" | "(flag k, k) \<in> set SYSTEM_KEYWORDS" using flag_cases by blast
  then show ?thesis
  proof cases
    case 1
    with find_flag_plain [OF canonical_keyword_Some(2) [OF assms]] canonical_keyword_Some(1) [OF assms]
    show ?thesis by (simp add: keyword_def)
  next
    case 2
    have "list_all (\<lambda>(f, k). keyword f = Some k) SYSTEM_KEYWORDS" by code_simp
    with 2 show ?thesis by (auto simp: list_all_iff)
  qed
qed

lemma keywords_get: "map_of (keywords_of flags) k = (if k \<in> set (List.map_filter keyword flags) then Some True else None)"
proof -
  have "map_of (foldl (\<lambda>m k. bt_insert k True m) m ks) k = (if k \<in> set ks then Some True else map_of m k)"
    for m :: "(string, bool) bt" and ks
    by (induction ks arbitrary: m) (auto simp: bt_get_insert)
  then show ?thesis by (simp add: keywords_of_def)
qed

lemma keywords_ok: "bt_ok (keywords_of flags)"
proof -
  have "bt_ok (foldl (\<lambda>m k. bt_insert k True m) m ks)" if "bt_ok m" for m :: "(string, bool) bt" and ks
    using that by (induction ks arbitrary: m) (auto simp: bt_ok_insert)
  then show ?thesis by (simp add: keywords_of_def)
qed

text \<open>
  Keywords survive the way to the server and back: storing the flags of any set of valid
  keywords and reading those flags gives exactly these keywords, each in lower case.
\<close>

theorem keywords_store_round_trip:
  assumes "\<forall>k \<in> set ks. \<exists>t. canonical_keyword t = Some k"
  shows "bt_ok (keywords_of (map flag ks)) \<and>
     (\<forall>k. map_of (keywords_of (map flag ks)) k = (if k \<in> set ks then Some True else None))"
proof -
  have "List.map_filter keyword (map flag ks) = ks"
    using assms by (induction ks) (auto simp: List.map_filter_def keyword_flag)
  then show ?thesis by (simp add: keywords_get keywords_ok)
qed

theorem keywords_store_round_trip_witness:
  "keywords_of (map flag [''$seen'', ''work'']) = [(''$seen'', True), (''work'', True)] \<and>
   map_of (keywords_of (map flag [''$seen'', ''work''])) ''$seen'' = Some True"
proof -
  have "canonical_keyword ''$Seen'' = Some ''$seen''" "canonical_keyword ''Work'' = Some ''work''"
    by code_simp+
  then have "\<forall>k \<in> set [''$seen'', ''work'']. \<exists>t. canonical_keyword t = Some k"
    by (simp only: list.set ball_simps) blast
  from keywords_store_round_trip [OF this]
  have "map_of (keywords_of (map flag [''$seen'', ''work''])) ''$seen'' = Some True" by simp
  moreover have "keywords_of (map flag [''$seen'', ''work'']) = [(''$seen'', True), (''work'', True)]" by code_simp
  ultimately show ?thesis by blast
qed

end
