(* ===== verification/Set_Patch.thy ===== *)
theory Set_Patch
  imports Result_Reference Keyword_Flags
begin

text \<open>
  What a patch of \<open>Email/set\<close> reads as (\<open>jmap/set/patch.rs\<close>) and the errors one object of a set
  ends with (\<open>SetError\<close> of \<open>jmap/set.rs\<close>). The closure of the source that reads one path changes
  the patch it is given and says whether the path was one the update may name; here it returns
  both.
\<close>

datatype set_error =
    SForbidden | SNotFound | SInvalidPatch | SInvalidProperties "string list" | STooManyKeywords
  | STooManyMailboxes | SWillDestroy | SBlobNotFound "string list" | STooLarge | SServerFail
  | SServerUnavailable

fun set_error_type :: "set_error \<Rightarrow> string" where
  "set_error_type SForbidden = ''forbidden''"
| "set_error_type SNotFound = ''notFound''"
| "set_error_type SInvalidPatch = ''invalidPatch''"
| "set_error_type (SInvalidProperties _) = ''invalidProperties''"
| "set_error_type STooManyKeywords = ''tooManyKeywords''"
| "set_error_type STooManyMailboxes = ''tooManyMailboxes''"
| "set_error_type SWillDestroy = ''willDestroy''"
| "set_error_type (SBlobNotFound _) = ''blobNotFound''"
| "set_error_type STooLarge = ''tooLarge''"
| "set_error_type SServerFail = ''serverFail''"
| "set_error_type SServerUnavailable = ''serverUnavailable''"

fun set_error_object :: "set_error \<Rightarrow> json" where
  "set_error_object (SInvalidProperties properties) =
     Object [(''properties'', Array (map String properties)), (''type'', String ''invalidProperties'')]"
| "set_error_object (SBlobNotFound ids) =
     Object [(''notFound'', Array (map String ids)), (''type'', String ''blobNotFound'')]"
| "set_error_object e = Object [(''type'', String (set_error_type e))]"

definition KEYWORDS :: string where "KEYWORDS = ''keywords''"
definition MAILBOX_IDS :: string where "MAILBOX_IDS = ''mailboxIds''"
definition MAX_UPDATE_KEYWORD_BYTES :: nat where "MAX_UPDATE_KEYWORD_BYTES = 4096"

record edit =
  e_set :: "string list"
  e_clear :: "string list"
  e_whole :: bool
  e_named :: "(string \<times> string) list"

record mailbox_edit =
  m_add :: "string list"
  m_remove :: "string list"
  m_whole :: bool
  m_named :: "(string \<times> string) list"

record patch =
  p_keywords :: edit
  p_mailboxes :: "mailbox_edit option"

definition edit_default :: edit where
  "edit_default = \<lparr>e_set = [], e_clear = [], e_whole = False, e_named = []\<rparr>"

definition mailbox_edit_default :: mailbox_edit where
  "mailbox_edit_default = \<lparr>m_add = [], m_remove = [], m_whole = False, m_named = []\<rparr>"

definition patch_default :: patch where
  "patch_default = \<lparr>p_keywords = edit_default, p_mailboxes = None\<rparr>"

definition path_of :: "(string \<times> string) list \<Rightarrow> string \<Rightarrow> string \<Rightarrow> string" where
  "path_of named name whole =
     (case List.find (\<lambda>(found, _). found = name) named of None \<Rightarrow> whole | Some (_, path) \<Rightarrow> path)"

definition edit_path :: "edit \<Rightarrow> string \<Rightarrow> string" where
  "edit_path e k = path_of (e_named e) k KEYWORDS"

definition mailbox_edit_path :: "mailbox_edit \<Rightarrow> string \<Rightarrow> string" where
  "mailbox_edit_path e mailbox = path_of (m_named e) mailbox MAILBOX_IDS"

definition creation_id :: "string \<Rightarrow> string option" where
  "creation_id reference = strip_prefix reference ''#''"

definition resolve_id :: "(string, string) bt \<Rightarrow> string \<Rightarrow> string" where
  "resolve_id created mailbox =
     (case Option.bind (creation_id mailbox) (bt_get created) of None \<Rightarrow> mailbox | Some ident \<Rightarrow> ident)"

definition mailbox_edit_resolve :: "(string, string) bt \<Rightarrow> mailbox_edit \<Rightarrow> mailbox_edit" where
  "mailbox_edit_resolve created e =
     e\<lparr>m_add := map (resolve_id created) (m_add e), m_remove := map (resolve_id created) (m_remove e),
       m_named := map (\<lambda>(mailbox, path). (resolve_id created mailbox, path)) (m_named e)\<rparr>"

definition keyword_of :: "string \<Rightarrow> string option" where
  "keyword_of token =
     (if CHR ''/'' \<in> set token then None else Option.bind (unescaped token) canonical_keyword)"

definition mailbox_of :: "string \<Rightarrow> string option" where
  "mailbox_of token =
     (if CHR ''/'' \<in> set token then None
      else case unescaped token of None \<Rightarrow> None | Some ident \<Rightarrow> if ident \<noteq> [] then Some ident else None)"

definition keep :: "string list \<Rightarrow> string \<Rightarrow> string list" where
  "keep names name = (if name \<in> set names then names else names @ [name])"

fun whole_loop :: "(string \<Rightarrow> string option) \<Rightarrow> string list \<Rightarrow> members \<Rightarrow> string list option" where
  "whole_loop rd names [] = Some names"
| "whole_loop rd names ((name, v) # ms) =
     (if v \<noteq> Bool True then None
      else case rd name of None \<Rightarrow> None | Some n \<Rightarrow> whole_loop rd (keep names n) ms)"

definition whole :: "json \<Rightarrow> (string \<Rightarrow> string option) \<Rightarrow> string list option" where
  "whole v rd = (case v of Object ms \<Rightarrow> whole_loop rd [] ms | _ \<Rightarrow> None)"

definition inside :: "string \<Rightarrow> string \<Rightarrow> string option" where
  "inside path property = Option.bind (strip_prefix path property) (\<lambda>rest. strip_prefix rest ''/'')"

definition mailboxes_or_default :: "patch \<Rightarrow> mailbox_edit" where
  "mailboxes_or_default p = (case p_mailboxes p of None \<Rightarrow> mailbox_edit_default | Some e \<Rightarrow> e)"

definition read_entry :: "patch \<Rightarrow> string \<Rightarrow> json \<Rightarrow> patch \<times> bool" where
  "read_entry into path v =
     (let put = (v = Bool True);
          pathed = (put \<or> v = Null)
      in if path = KEYWORDS then
           (case whole v canonical_keyword of
              None \<Rightarrow> (into, False)
            | Some ks \<Rightarrow> (into\<lparr>p_keywords := (p_keywords into)\<lparr>e_whole := True, e_set := ks\<rparr>\<rparr>, True))
         else if path = MAILBOX_IDS then
           (let e = mailboxes_or_default into
            in case whole v mailbox_of of
                 None \<Rightarrow> (into\<lparr>p_mailboxes := Some e\<rparr>, False)
               | Some ms \<Rightarrow> (into\<lparr>p_mailboxes := Some (e\<lparr>m_whole := True, m_add := ms\<rparr>)\<rparr>, True))
         else case (if pathed then Option.bind (inside path KEYWORDS) keyword_of else None) of
                Some k \<Rightarrow>
                  (let e = p_keywords into; e = e\<lparr>e_named := e_named e @ [(k, path)]\<rparr>
                   in (into\<lparr>p_keywords :=
                         (if put then e\<lparr>e_set := keep (e_set e) k\<rparr> else e\<lparr>e_clear := keep (e_clear e) k\<rparr>)\<rparr>, True))
              | None \<Rightarrow>
                  (case (if pathed then Option.bind (inside path MAILBOX_IDS) mailbox_of else None) of
                     Some mb \<Rightarrow>
                       (let e = mailboxes_or_default into; e = e\<lparr>m_named := m_named e @ [(mb, path)]\<rparr>
                        in (into\<lparr>p_mailboxes :=
                              Some (if put then e\<lparr>m_add := keep (m_add e) mb\<rparr>
                                    else e\<lparr>m_remove := keep (m_remove e) mb\<rparr>)\<rparr>, True))
                   | None \<Rightarrow> (into, False)))"

fun read_entries :: "patch \<Rightarrow> members \<Rightarrow> patch \<times> string list" where
  "read_entries p [] = (p, [])"
| "read_entries p ((path, v) # es) =
     (let (p1, ok) = read_entry p path v; (p2, invalid) = read_entries p1 es
      in (p2, if ok then invalid else path # invalid))"

definition read_patch :: "json \<Rightarrow> set_error + patch" where
  "read_patch v =
     (case v of
        Object entries \<Rightarrow>
          (let (p, invalid) = read_entries patch_default entries;
               ks = p_keywords p;
               keyword_paths = length (filter (\<lambda>e. starts_with (fst e) KEYWORDS) entries);
               mailbox_paths = length (filter (\<lambda>e. starts_with (fst e) MAILBOX_IDS) entries);
               bytes = sum_list (map (\<lambda>k. length k + 1) (e_set ks @ e_clear ks))
           in if invalid \<noteq> [] then Inl (SInvalidProperties invalid)
              else if e_whole ks \<and> keyword_paths > 1 then Inl SInvalidPatch
              else if list_ex (\<lambda>k. k \<in> set (e_clear ks)) (e_set ks) then Inl SInvalidPatch
              else and_then
                (case p_mailboxes p of
                   None \<Rightarrow> Inr ()
                 | Some mb \<Rightarrow>
                     if m_whole mb \<and> mailbox_paths > 1 then Inl SInvalidPatch
                     else if m_whole mb \<and> m_add mb = [] then Inl (SInvalidProperties [MAILBOX_IDS])
                     else Inr ())
                (\<lambda>_. if bytes > MAX_UPDATE_KEYWORD_BYTES then Inl STooManyKeywords else Inr p))
      | _ \<Rightarrow> Inl SInvalidPatch)"

subsection \<open>One property of a patch\<close>

text \<open>
  Keywords and mailboxes are patched the same way. What one entry does to the names of a property
  is an effect; \<open>half\<close> is what has been put, taken and whether the whole object was given.
\<close>

datatype effect = Whole "string list" | Put string | Take string

type_synonym half = "string list \<times> string list \<times> bool"

definition effect_of ::
  "string \<Rightarrow> (string \<Rightarrow> string option) \<Rightarrow> (string \<Rightarrow> string option) \<Rightarrow> string \<times> json \<Rightarrow> effect option" where
  "effect_of property rk rt e =
     (if fst e = property then map_option Whole (whole (snd e) rk)
      else if snd e = Bool True then map_option Put (Option.bind (inside (fst e) property) rt)
      else if snd e = Null then map_option Take (Option.bind (inside (fst e) property) rt)
      else None)"

fun half_apply :: "half \<Rightarrow> effect option \<Rightarrow> half" where
  "half_apply (s, c, w) (Some (Whole ns)) = (ns, c, True)"
| "half_apply (s, c, w) (Some (Put n)) = (keep s n, c, w)"
| "half_apply (s, c, w) (Some (Take n)) = (s, keep c n, w)"
| "half_apply h None = h"

abbreviation kw_effect :: "string \<times> json \<Rightarrow> effect option" where
  "kw_effect \<equiv> effect_of KEYWORDS canonical_keyword keyword_of"

abbreviation mb_effect :: "string \<times> json \<Rightarrow> effect option" where
  "mb_effect \<equiv> effect_of MAILBOX_IDS mailbox_of mailbox_of"

definition kw_half :: "patch \<Rightarrow> half" where
  "kw_half p = (e_set (p_keywords p), e_clear (p_keywords p), e_whole (p_keywords p))"

definition mb_half :: "patch \<Rightarrow> half" where
  "mb_half p = (let e = mailboxes_or_default p in (m_add e, m_remove e, m_whole e))"

lemma inside_Some: "inside path property = Some t \<longleftrightarrow> path = property @ ''/'' @ t"
  by (auto simp: inside_def bind_eq_Some_conv strip_prefix_Some)

lemma properties_differ [simp]: "KEYWORDS \<noteq> MAILBOX_IDS" "MAILBOX_IDS \<noteq> KEYWORDS"
  by (simp_all add: KEYWORDS_def MAILBOX_IDS_def)

lemma inside_self [simp]:
  "inside KEYWORDS KEYWORDS = None" "inside KEYWORDS MAILBOX_IDS = None"
  "inside MAILBOX_IDS KEYWORDS = None" "inside MAILBOX_IDS MAILBOX_IDS = None"
  by code_simp+

lemma inside_keywords:
  "inside path KEYWORDS = Some t \<Longrightarrow> inside path MAILBOX_IDS = None \<and> path \<noteq> KEYWORDS \<and> path \<noteq> MAILBOX_IDS"
proof -
  assume path: "inside path KEYWORDS = Some t"
  then have "inside path MAILBOX_IDS \<noteq> Some u" for u
    by (auto simp: inside_Some KEYWORDS_def MAILBOX_IDS_def)
  with path show ?thesis by (metis inside_self(1,3) not_None_eq)
qed

text \<open>Every path is one of five: a property, inside one, or neither.\<close>

lemma path_cases:
  obtains (kw_path) "path = KEYWORDS" "path \<noteq> MAILBOX_IDS"
  | (mb_path) "path = MAILBOX_IDS" "path \<noteq> KEYWORDS"
  | (in_keywords) t where "path \<noteq> KEYWORDS" "path \<noteq> MAILBOX_IDS" "inside path KEYWORDS = Some t"
      "inside path MAILBOX_IDS = None"
  | (in_mailboxes) t where "path \<noteq> KEYWORDS" "path \<noteq> MAILBOX_IDS" "inside path KEYWORDS = None"
      "inside path MAILBOX_IDS = Some t"
  | (other) "path \<noteq> KEYWORDS" "path \<noteq> MAILBOX_IDS" "inside path KEYWORDS = None" "inside path MAILBOX_IDS = None"
  using inside_keywords by (metis option.exhaust properties_differ(1))

lemma effects_apart: "kw_effect e \<noteq> None \<Longrightarrow> mb_effect e = None"
  by (cases "fst e" rule: path_cases) (auto simp: effect_of_def split: if_splits)

lemma read_entry_ok:
  "snd (read_entry p path v) \<longleftrightarrow> kw_effect (path, v) \<noteq> None \<or> mb_effect (path, v) \<noteq> None"
  by (cases path rule: path_cases) (auto simp: read_entry_def effect_of_def Let_def split: option.split)

lemma read_entry_keywords:
  assumes "snd (read_entry p path v)"
  shows "kw_half (fst (read_entry p path v)) = half_apply (kw_half p) (kw_effect (path, v))"
  using assms
  by (cases path rule: path_cases)
    (auto simp: read_entry_def effect_of_def Let_def kw_half_def split: option.splits if_splits)

lemma read_entry_mailboxes:
  assumes "snd (read_entry p path v)"
  shows "mb_half (fst (read_entry p path v)) = half_apply (mb_half p) (mb_effect (path, v))"
    and "p_mailboxes (fst (read_entry p path v)) = None \<longleftrightarrow> p_mailboxes p = None \<and> mb_effect (path, v) = None"
  using assms
  by (cases path rule: path_cases;
      auto simp: read_entry_def effect_of_def Let_def mb_half_def mailboxes_or_default_def split: option.splits if_splits)+

lemma read_entries_Cons:
  assumes "read_entries p ((path, v) # es) = (q, [])"
  shows "snd (read_entry p path v)" "read_entries (fst (read_entry p path v)) es = (q, [])"
  using assms by (auto simp: Let_def case_prod_beta prod_eq_iff split: if_splits)

lemma read_entries_halves:
  assumes "read_entries p es = (q, [])"
  shows "kw_half q = foldl half_apply (kw_half p) (map kw_effect es) \<and>
    mb_half q = foldl half_apply (mb_half p) (map mb_effect es) \<and>
    (p_mailboxes q = None \<longleftrightarrow> p_mailboxes p = None \<and> (\<forall>e \<in> set es. mb_effect e = None))"
  using assms
proof (induction es arbitrary: p)
  case (Cons e es)
  obtain path v where e: "e = (path, v)" by (cases e)
  note step = read_entries_Cons [OF Cons.prems [unfolded e]]
  from Cons.IH [OF step(2)] read_entry_keywords [OF step(1)] read_entry_mailboxes [OF step(1)] show ?case
    unfolding e by simp
qed simp

lemma read_entries_invalid:
  "snd (read_entries p es) = map fst (filter (\<lambda>e. kw_effect e = None \<and> mb_effect e = None) es)"
proof (induction es arbitrary: p)
  case (Cons e es)
  obtain path v where e: "e = (path, v)" by (cases e)
  have "snd (read_entries p (e # es)) =
      (if snd (read_entry p path v) then snd (read_entries (fst (read_entry p path v)) es)
       else path # snd (read_entries (fst (read_entry p path v)) es))"
    by (simp add: e Let_def case_prod_beta)
  then show ?case using Cons e read_entry_ok [of p path v] by auto
qed simp

subsection \<open>Folding the effects\<close>

definition half_after :: "half \<Rightarrow> string set \<Rightarrow> string set" where
  "half_after h before = (case h of (s, c, w) \<Rightarrow> ((if w then {} else before) - set c) \<union> set s)"

lemma keep_set [simp]: "set (keep names n) = insert n (set names)"
  by (auto simp: keep_def)

lemma keep_distinct: "distinct names \<Longrightarrow> distinct (keep names n)"
  by (auto simp: keep_def)

lemma half_fold_pathed:
  assumes "\<forall>e \<in> set effs. \<forall>ns. e \<noteq> Some (Whole ns)"
  shows "foldl half_apply (s, c, w) effs = (s', c', w') \<Longrightarrow>
    set s' = set s \<union> {n. Some (Put n) \<in> set effs} \<and> set c' = set c \<union> {n. Some (Take n) \<in> set effs} \<and> w' = w \<and>
    (distinct s \<longrightarrow> distinct s') \<and> (distinct c \<longrightarrow> distinct c')"
  using assms
proof (induction effs arbitrary: s c w)
  case (Cons e effs)
  consider "e = None" | n where "e = Some (Put n)" | n where "e = Some (Take n)"
    using Cons.prems(2) by (metis effect.exhaust list.set_intros(1) option.exhaust)
  then show ?case
  proof cases
    case 1
    with Cons show ?thesis by auto
  next
    case 2
    with Cons.prems Cons.IH [of "keep s n" c w] keep_distinct [of s n] show ?thesis by auto
  next
    case 3
    with Cons.prems Cons.IH [of s "keep c n" w] keep_distinct [of c n] show ?thesis by auto
  qed
qed auto

lemma half_apply_None [simp]: "half_apply h None = h"
  by (cases h) simp

lemma half_fold_some: "foldl half_apply h effs = foldl half_apply h (filter (\<lambda>e. e \<noteq> None) effs)"
  by (induction effs arbitrary: h) auto

lemma half_apply_stays: "snd (snd h) \<Longrightarrow> snd (snd (half_apply h e))"
  by (induction h e rule: half_apply.induct) auto

lemma half_fold_stays: "snd (snd h) \<Longrightarrow> snd (snd (foldl half_apply h effs))"
  by (induction effs arbitrary: h) (simp_all add: half_apply_stays)

lemma half_fold_whole: "Some (Whole ns) \<in> set effs \<Longrightarrow> snd (snd (foldl half_apply h effs))"
proof (induction effs arbitrary: h)
  case (Cons e effs)
  show ?case
  proof (cases "e = Some (Whole ns)")
    case True
    then have "snd (snd (half_apply h e))" by (cases h) simp
    then show ?thesis by (simp add: half_fold_stays)
  next
    case False
    with Cons show ?thesis by simp
  qed
qed simp

lemma length_filter_imp: "(\<And>x. P x \<Longrightarrow> Q x) \<Longrightarrow> length (filter P xs) \<le> length (filter Q xs)"
  by (induction xs) (auto simp: le_SucI)

lemma effect_starts: "effect_of property rk rt e \<noteq> None \<Longrightarrow> starts_with (fst e) property"
  by (auto simp: effect_of_def starts_with_def inside_Some bind_eq_Some_conv split: if_splits)

lemma effect_whole: "effect_of property rk rt e = Some (Whole ns) \<longleftrightarrow> fst e = property \<and> whole (snd e) rk = Some ns"
  by (auto simp: effect_of_def split: if_splits)

lemma half_whole:
  assumes "foldl half_apply ([], [], False) (map (effect_of property rk rt) es) = (s, c, True)"
    and one: "length (filter (\<lambda>e. starts_with (fst e) property) es) \<le> 1"
  obtains e where "e \<in> set es" "fst e = property" "whole (snd e) rk = Some s" "c = []"
    "filter (\<lambda>e. effect_of property rk rt e \<noteq> None) es = [e]"
proof -
  let ?eff = "effect_of property rk rt"
  have "\<exists>e \<in> set es. \<exists>ns. ?eff e = Some (Whole ns)"
  proof (rule ccontr)
    assume "\<not> (\<exists>e \<in> set es. \<exists>ns. ?eff e = Some (Whole ns))"
    then have "\<forall>e \<in> set (map ?eff es). \<forall>ns. e \<noteq> Some (Whole ns)" by auto
    from half_fold_pathed [OF this assms(1)] show False by simp
  qed
  then obtain e ns where e: "e \<in> set es" "?eff e = Some (Whole ns)" by blast
  have sub: "length (filter (\<lambda>e. ?eff e \<noteq> None) es) \<le> length (filter (\<lambda>e. starts_with (fst e) property) es)"
    by (rule length_filter_imp) (rule effect_starts)
  have "e \<in> set (filter (\<lambda>e. ?eff e \<noteq> None) es)" using e by simp
  moreover have "length (filter (\<lambda>e. ?eff e \<noteq> None) es) \<le> 1" using sub one by linarith
  moreover have "xs = [x]" if "x \<in> set xs" "length xs \<le> 1" for x and xs :: members
    using that by (cases xs) auto
  ultimately have "filter (\<lambda>e. ?eff e \<noteq> None) es = [e]" by blast
  then have "foldl half_apply ([], [], False) (map ?eff es) = (ns, [], True)"
    by (subst half_fold_some) (simp add: filter_map o_def e(2))
  with assms(1) e effect_whole [of property rk rt e ns] \<open>filter _ es = [e]\<close> show ?thesis
    by (intro that [of e]) simp_all
qed

text \<open>
  What a patch means (RFC 8620 section 5.3), read off the JSON: a property given whole replaces
  the names; otherwise a path with true adds its name and one with null takes it away.
\<close>

definition names_after ::
  "string \<Rightarrow> (string \<Rightarrow> string option) \<Rightarrow> (string \<Rightarrow> string option) \<Rightarrow> members \<Rightarrow> string set \<Rightarrow> string \<Rightarrow> bool" where
  "names_after property rk rt entries before n \<longleftrightarrow>
     (case map_of entries property of
        Some (Object ms) \<Rightarrow> \<exists>name. (name, Bool True) \<in> set ms \<and> rk name = Some n
      | Some _ \<Rightarrow> False
      | None \<Rightarrow>
          (\<exists>token. (property @ ''/'' @ token, Bool True) \<in> set entries \<and> rt token = Some n) \<or>
          (n \<in> before \<and> \<not> (\<exists>token. (property @ ''/'' @ token, Null) \<in> set entries \<and> rt token = Some n)))"

lemma whole_loop_names:
  "whole_loop rd names ms = Some ns \<Longrightarrow>
     set ns = set names \<union> {n. \<exists>name. (name, Bool True) \<in> set ms \<and> rd name = Some n} \<and> (distinct names \<longrightarrow> distinct ns)"
proof (induction rd names ms rule: whole_loop.induct)
  case (2 rd names name v ms)
  then obtain n where "v = Bool True" "rd name = Some n" "whole_loop rd (keep names n) ms = Some ns"
    by (auto split: if_splits option.splits)
  with 2 keep_distinct [of names n] show ?case by auto
qed auto

lemma whole_names:
  "whole v rd = Some ns \<Longrightarrow> \<exists>ms. v = Object ms \<and> set ns = {n. \<exists>name. (name, Bool True) \<in> set ms \<and> rd name = Some n} \<and> distinct ns"
  using whole_loop_names [of rd "[]"] by (cases v) (auto simp: whole_def)

lemma effect_put:
  "effect_of property rk rt (path, v) = Some (Put n) \<longleftrightarrow>
     path \<noteq> property \<and> v = Bool True \<and> (\<exists>t. path = property @ ''/'' @ t \<and> rt t = Some n)"
  by (auto simp: effect_of_def bind_eq_Some_conv inside_Some)

lemma effect_take:
  "effect_of property rk rt (path, v) = Some (Take n) \<longleftrightarrow>
     path \<noteq> property \<and> v = Null \<and> (\<exists>t. path = property @ ''/'' @ t \<and> rt t = Some n)"
  by (auto simp: effect_of_def bind_eq_Some_conv inside_Some)

lemma half_means:
  assumes fold: "foldl half_apply ([], [], False) (map (effect_of property rk rt) es) = (s, c, w)"
    and keys: "distinct (map fst es)"
    and one: "w \<longrightarrow> length (filter (\<lambda>e. starts_with (fst e) property) es) \<le> 1"
    and ok: "\<forall>e \<in> set es. fst e = property \<longrightarrow> effect_of property rk rt e \<noteq> None"
  shows "n \<in> half_after (s, c, w) before \<longleftrightarrow> names_after property rk rt es before n"
proof (cases w)
  case True
  from fold True have f: "foldl half_apply ([], [], False) (map (effect_of property rk rt) es) = (s, c, True)" by simp
  have "\<exists>e. e \<in> set es \<and> fst e = property \<and> whole (snd e) rk = Some s \<and> c = []"
    by (rule half_whole [OF f]) (use True one in auto)
  then obtain e where e: "e \<in> set es" "fst e = property" "whole (snd e) rk = Some s" "c = []" by blast
  then have "map_of es property = Some (snd e)" using keys by (metis map_of_is_SomeI prod.collapse)
  with e True whole_names [OF e(3)] show ?thesis by (auto simp: names_after_def half_after_def)
next
  case False
  have no: "fst e \<noteq> property" if e: "e \<in> set es" for e
  proof
    assume f: "fst e = property"
    have "effect_of property rk rt e \<noteq> None" using ok e f by blast
    with f obtain ns where "effect_of property rk rt e = Some (Whole ns)"
      by (auto simp: effect_of_def)
    then have "Some (Whole ns) \<in> set (map (effect_of property rk rt) es)" using e by force
    from half_fold_whole [OF this, of "([], [], False)"] have "snd (snd (s, c, w))" unfolding fold .
    with False show False by simp
  qed
  then have "map_of es property = None" by (force simp: map_of_eq_None_iff)
  have "\<forall>e \<in> set (map (effect_of property rk rt) es). \<forall>ns. e \<noteq> Some (Whole ns)"
    using no by (auto simp: effect_whole)
  from half_fold_pathed [OF this fold] have
    "set s = {n. Some (Put n) \<in> set (map (effect_of property rk rt) es)}"
    "set c = {n. Some (Take n) \<in> set (map (effect_of property rk rt) es)}" by auto
  moreover have "Some (Put n) \<in> set (map (effect_of property rk rt) es) \<longleftrightarrow>
      (\<exists>token. (property @ ''/'' @ token, Bool True) \<in> set es \<and> rt token = Some n)" for n
  proof -
    have "Some (Put n) \<in> set (map (effect_of property rk rt) es) \<longleftrightarrow>
        (\<exists>path v. (path, v) \<in> set es \<and> effect_of property rk rt (path, v) = Some (Put n))" by (force simp: image_iff)
    then show ?thesis unfolding effect_put by fastforce
  qed
  moreover have "Some (Take n) \<in> set (map (effect_of property rk rt) es) \<longleftrightarrow>
      (\<exists>token. (property @ ''/'' @ token, Null) \<in> set es \<and> rt token = Some n)" for n
  proof -
    have "Some (Take n) \<in> set (map (effect_of property rk rt) es) \<longleftrightarrow>
        (\<exists>path v. (path, v) \<in> set es \<and> effect_of property rk rt (path, v) = Some (Take n))" by (force simp: image_iff)
    then show ?thesis unfolding effect_take by fastforce
  qed
  ultimately show ?thesis
    using False \<open>map_of es property = None\<close> by (auto simp: names_after_def half_after_def)
qed

subsection \<open>A whole patch\<close>

lemma read_patch_Inr:
  assumes "read_patch (Object entries) = Inr p"
  shows "read_entries patch_default entries = (p, [])"
    "e_whole (p_keywords p) \<longrightarrow> length (filter (\<lambda>e. starts_with (fst e) KEYWORDS) entries) \<le> 1"
    "set (e_set (p_keywords p)) \<inter> set (e_clear (p_keywords p)) = {}"
    "p_mailboxes p = Some mb \<Longrightarrow> m_whole mb \<longrightarrow> length (filter (\<lambda>e. starts_with (fst e) MAILBOX_IDS) entries) \<le> 1 \<and> m_add mb \<noteq> []"
    "sum_list (map (\<lambda>k. length k + 1) (e_set (p_keywords p) @ e_clear (p_keywords p))) \<le> MAX_UPDATE_KEYWORD_BYTES"
proof -
  obtain q invalid where r: "read_entries patch_default entries = (q, invalid)" by fastforce
  note d = assms [unfolded read_patch_def json.case Let_def r case_prod_conv]
  show "read_entries patch_default entries = (p, [])"
    using d r by (auto simp: and_then_Inr_eq split: if_splits)
  have q: "q = p" using d by (auto simp: and_then_Inr_eq split: if_splits)
  note d = d [unfolded q]
  show "e_whole (p_keywords p) \<longrightarrow> length (filter (\<lambda>e. starts_with (fst e) KEYWORDS) entries) \<le> 1"
    using d by (auto simp: case_prod_beta split: if_splits)
  show "set (e_set (p_keywords p)) \<inter> set (e_clear (p_keywords p)) = {}"
    using d by (auto simp: list_ex_iff split: if_splits)
  show "m_whole mb \<longrightarrow> length (filter (\<lambda>e. starts_with (fst e) MAILBOX_IDS) entries) \<le> 1 \<and> m_add mb \<noteq> []"
    if "p_mailboxes p = Some mb"
    using d that by (auto simp: and_then_Inr_eq case_prod_beta split: if_splits)
  show "sum_list (map (\<lambda>k. length k + 1) (e_set (p_keywords p) @ e_clear (p_keywords p))) \<le> MAX_UPDATE_KEYWORD_BYTES"
    using d by (auto simp: and_then_Inr_eq split: if_splits)
qed

lemma patch_default_halves [simp]: "kw_half patch_default = ([], [], False)" "mb_half patch_default = ([], [], False)"
  "p_mailboxes patch_default = None"
  by (simp_all add: kw_half_def mb_half_def patch_default_def edit_default_def mailboxes_or_default_def mailbox_edit_default_def)

lemma read_patch_folds:
  assumes "read_patch (Object entries) = Inr p"
  shows "kw_half p = foldl half_apply ([], [], False) (map kw_effect entries)"
    "mb_half p = foldl half_apply ([], [], False) (map mb_effect entries)"
    "p_mailboxes p = None \<longleftrightarrow> (\<forall>e \<in> set entries. mb_effect e = None)"
    "\<forall>e \<in> set entries. kw_effect e \<noteq> None \<or> mb_effect e \<noteq> None"
proof -
  note r = read_patch_Inr(1) [OF assms]
  show "kw_half p = foldl half_apply ([], [], False) (map kw_effect entries)"
    "mb_half p = foldl half_apply ([], [], False) (map mb_effect entries)"
    "p_mailboxes p = None \<longleftrightarrow> (\<forall>e \<in> set entries. mb_effect e = None)"
    using read_entries_halves [OF r] by simp_all
  have "filter (\<lambda>e. kw_effect e = None \<and> mb_effect e = None) entries = []"
    using read_entries_invalid [of patch_default entries] r by simp
  then show "\<forall>e \<in> set entries. kw_effect e \<noteq> None \<or> mb_effect e \<noteq> None" by (simp add: filter_empty_conv)
qed

lemma effect_own:
  "kw_effect (KEYWORDS, v) = None \<Longrightarrow> mb_effect (KEYWORDS, v) = None"
  "mb_effect (MAILBOX_IDS, v) = None \<Longrightarrow> kw_effect (MAILBOX_IDS, v) = None"
  by (simp_all add: effect_of_def)

lemma patch_keywords_mean:
  assumes patch: "read_patch (Object entries) = Inr p" and keys: "distinct (map fst entries)"
  shows "n \<in> half_after (kw_half p) before \<longleftrightarrow> names_after KEYWORDS canonical_keyword keyword_of entries before n"
proof -
  obtain s c w where h: "kw_half p = (s, c, w)" by (metis surj_pair)
  have ok: "\<forall>e \<in> set entries. fst e = KEYWORDS \<longrightarrow> kw_effect e \<noteq> None"
  proof (intro ballI impI)
    fix e assume e: "e \<in> set entries" "fst e = KEYWORDS"
    then show "kw_effect e \<noteq> None"
      using bspec [OF read_patch_folds(4) [OF patch] e(1)] effect_own(1) [of "snd e"] by (metis e(2) prod.collapse)
  qed
  have one: "w \<longrightarrow> length (filter (\<lambda>e. starts_with (fst e) KEYWORDS) entries) \<le> 1"
    using read_patch_Inr(2) [OF patch] h by (simp add: kw_half_def)
  show ?thesis
    unfolding h
    by (rule half_means [OF _ keys one ok]) (use read_patch_folds(1) [OF patch] h in simp)
qed

lemma patch_mailboxes_mean:
  assumes patch: "read_patch (Object entries) = Inr p" and keys: "distinct (map fst entries)"
  shows "n \<in> half_after (mb_half p) before \<longleftrightarrow> names_after MAILBOX_IDS mailbox_of mailbox_of entries before n"
proof -
  obtain s c w where h: "mb_half p = (s, c, w)" by (metis surj_pair)
  have ok: "\<forall>e \<in> set entries. fst e = MAILBOX_IDS \<longrightarrow> mb_effect e \<noteq> None"
  proof (intro ballI impI)
    fix e assume e: "e \<in> set entries" "fst e = MAILBOX_IDS"
    then show "mb_effect e \<noteq> None"
      using bspec [OF read_patch_folds(4) [OF patch] e(1)] effect_own(2) [of "snd e"] by (metis e(2) prod.collapse)
  qed
  have one: "w \<longrightarrow> length (filter (\<lambda>e. starts_with (fst e) MAILBOX_IDS) entries) \<le> 1"
  proof (cases "p_mailboxes p")
    case None
    then show ?thesis using h by (auto simp: mb_half_def mailboxes_or_default_def mailbox_edit_default_def)
  next
    case (Some mb)
    with read_patch_Inr(4) [OF patch Some] h show ?thesis by (auto simp: mb_half_def mailboxes_or_default_def)
  qed
  show ?thesis
    unfolding h
    by (rule half_means [OF _ keys one ok]) (use read_patch_folds(2) [OF patch] h in simp)
qed

lemma half_disjoint:
  assumes fold: "foldl half_apply ([], [], False) (map mb_effect es) = (s, c, w)"
    and keys: "distinct (map fst es)" and one: "w \<longrightarrow> length (filter (\<lambda>e. starts_with (fst e) MAILBOX_IDS) es) \<le> 1"
  shows "set s \<inter> set c = {}"
proof (cases w)
  case True
  from fold True have f: "foldl half_apply ([], [], False) (map mb_effect es) = (s, c, True)" by simp
  have "c = []" by (rule half_whole [OF f]) (use True one in auto)
  then show ?thesis by simp
next
  case False
  have no: "\<forall>e \<in> set (map mb_effect es). \<forall>ns. e \<noteq> Some (Whole ns)"
    using half_fold_whole [of _ "map mb_effect es" "([], [], False)"] fold False by fastforce
  have "False" if n: "n \<in> set s" "n \<in> set c" for n
  proof -
    from half_fold_pathed [OF no fold] n obtain e e' where e: "e \<in> set es" "mb_effect e = Some (Put n)"
        "e' \<in> set es" "mb_effect e' = Some (Take n)" by auto
    from e(2) obtain t where t: "e = (MAILBOX_IDS @ ''/'' @ t, Bool True)" "mailbox_of t = Some n"
      by (cases e) (auto simp: effect_put)
    from e(4) obtain t' where t': "e' = (MAILBOX_IDS @ ''/'' @ t', Null)" "mailbox_of t' = Some n"
      by (cases e') (auto simp: effect_take)
    have "u = escaped n" if "mailbox_of u = Some n" for u
      using that by (auto simp: mailbox_of_def split: if_splits option.splits intro: escaped_unescaped)
    with t t' have "t = t'" by blast
    then have "(MAILBOX_IDS @ ''/'' @ t, Bool True) \<in> set es" "(MAILBOX_IDS @ ''/'' @ t, Null) \<in> set es"
      using e t t' by simp_all
    from eq_key_imp_eq_value [OF keys this] show False by simp
  qed
  then show ?thesis by blast
qed

fun effect_names :: "effect option \<Rightarrow> string set" where
  "effect_names None = {}"
| "effect_names (Some (Whole ns)) = set ns"
| "effect_names (Some (Put n)) = {n}"
| "effect_names (Some (Take n)) = {n}"

lemma half_names:
  "foldl half_apply (s, c, w) effs = (s', c', w') \<Longrightarrow>
     set s' \<union> set c' \<subseteq> set s \<union> set c \<union> \<Union> (effect_names ` set effs)"
proof (induction effs arbitrary: s c w)
  case (Cons e effs)
  obtain s1 c1 w1 where h: "half_apply (s, c, w) e = (s1, c1, w1)" by (metis surj_pair)
  have "set s1 \<union> set c1 \<subseteq> set s \<union> set c \<union> effect_names e"
    using h by (cases e rule: effect_names.cases) auto
  with Cons.IH [of s1 c1 w1] Cons.prems h show ?case by auto
qed simp

lemma kw_effect_canonical: "n \<in> effect_names (kw_effect e) \<Longrightarrow> canonical_keyword n = Some n"
proof -
  assume n: "n \<in> effect_names (kw_effect e)"
  have "\<exists>t. canonical_keyword t = Some n"
  proof (cases "kw_effect e" rule: effect_names.cases)
    case (2 ns)
    then have "whole (snd e) canonical_keyword = Some ns" by (simp add: effect_whole)
    from whole_names [OF this] n 2 show ?thesis by auto
  next
    case (3 k)
    then show ?thesis using n effect_put [of _ _ _ "fst e" "snd e" k]
      by (auto simp: keyword_of_def bind_eq_Some_conv split: if_splits)
  next
    case (4 k)
    then show ?thesis using n effect_take [of _ _ _ "fst e" "snd e" k]
      by (auto simp: keyword_of_def bind_eq_Some_conv split: if_splits)
  qed (use n in simp)
  then show ?thesis using canonical_keyword_Some(1) by blast
qed

subsection \<open>Properties\<close>

text \<open>
  A patch that is accepted is coherent: no keyword is both set and cleared and no mailbox both
  entered and left, every keyword is a valid one in lower case, the keywords together stay within
  the bytes one update may name, and an update that gives all mailboxes names one at least and
  removes none on the side.
\<close>

theorem accepted_patch_is_coherent:
  assumes patch: "read_patch (Object entries) = Inr p" and keys: "distinct (map fst entries)"
  shows "set (e_set (p_keywords p)) \<inter> set (e_clear (p_keywords p)) = {} \<and>
     (\<forall>k. k \<in> set (e_set (p_keywords p)) \<union> set (e_clear (p_keywords p)) \<longrightarrow> canonical_keyword k = Some k) \<and>
     sum_list (map (\<lambda>k. length k + 1) (e_set (p_keywords p) @ e_clear (p_keywords p))) \<le> MAX_UPDATE_KEYWORD_BYTES \<and>
     (\<forall>mb. p_mailboxes p = Some mb \<longrightarrow> set (m_add mb) \<inter> set (m_remove mb) = {} \<and>
        (m_whole mb \<longrightarrow> m_add mb \<noteq> [] \<and> m_remove mb = []))"
proof (intro conjI allI impI)
  show "set (e_set (p_keywords p)) \<inter> set (e_clear (p_keywords p)) = {}"
    by (rule read_patch_Inr(3) [OF patch])
  show "sum_list (map (\<lambda>k. length k + 1) (e_set (p_keywords p) @ e_clear (p_keywords p))) \<le> MAX_UPDATE_KEYWORD_BYTES"
    by (rule read_patch_Inr(5) [OF patch])
  fix k assume "k \<in> set (e_set (p_keywords p)) \<union> set (e_clear (p_keywords p))"
  then have "k \<in> \<Union> (effect_names ` set (map kw_effect entries))"
    using half_names [OF read_patch_folds(1) [OF patch, symmetric, unfolded kw_half_def]] by auto
  then show "canonical_keyword k = Some k" using kw_effect_canonical by auto
next
  fix mb assume mb: "p_mailboxes p = Some mb"
  have fold: "foldl half_apply ([], [], False) (map mb_effect entries) = (m_add mb, m_remove mb, m_whole mb)"
    using read_patch_folds(2) [OF patch] mb by (simp add: mb_half_def mailboxes_or_default_def)
  note whole = read_patch_Inr(4) [OF patch mb]
  show "set (m_add mb) \<inter> set (m_remove mb) = {}"
    by (rule half_disjoint [OF fold keys]) (use whole in blast)
  assume w: "m_whole mb"
  then show "m_add mb \<noteq> []" using whole by blast
  from fold w have f: "foldl half_apply ([], [], False) (map mb_effect entries) = (m_add mb, m_remove mb, True)" by simp
  show "m_remove mb = []" by (rule half_whole [OF f]) (use whole w in auto)
qed

definition demo_entries :: members where
  "demo_entries = [(''keywords/$seen'', Bool True), (''keywords/work'', Null), (''mailboxIds/in~1box'', Bool True)]"

definition demo_patch :: patch where
  "demo_patch =
     \<lparr>p_keywords = \<lparr>e_set = [''$seen''], e_clear = [''work''], e_whole = False,
        e_named = [(''$seen'', ''keywords/$seen''), (''work'', ''keywords/work'')]\<rparr>,
      p_mailboxes = Some \<lparr>m_add = [''in/box''], m_remove = [], m_whole = False,
        m_named = [(''in/box'', ''mailboxIds/in~1box'')]\<rparr>\<rparr>"

lemma demo_read: "read_patch (Object demo_entries) = Inr demo_patch"
proof -
  have "read_entries patch_default demo_entries = (demo_patch, [])" by code_simp
  then show ?thesis
    by (simp add: read_patch_def demo_patch_def MAX_UPDATE_KEYWORD_BYTES_def)
qed

theorem accepted_patch_is_coherent_witness:
  "read_patch (Object demo_entries) = Inr demo_patch \<and>
   set (e_set (p_keywords demo_patch)) \<inter> set (e_clear (p_keywords demo_patch)) = {}"
  using accepted_patch_is_coherent [OF demo_read] demo_read by (simp add: demo_entries_def)

text \<open>
  A patch with paths or values the update may not name is refused with exactly those paths,
  in the order of the patch; a patch that is no object is no patch.
\<close>

theorem bad_paths_named_back:
  assumes "e \<in> set entries" "kw_effect e = None" "mb_effect e = None"
  shows "read_patch (Object entries) =
     Inl (SInvalidProperties (map fst (filter (\<lambda>e. kw_effect e = None \<and> mb_effect e = None) entries))) \<and>
     read_patch (Array []) = Inl SInvalidPatch"
proof -
  obtain q invalid where r: "read_entries patch_default entries = (q, invalid)" by fastforce
  have inv: "invalid = map fst (filter (\<lambda>e. kw_effect e = None \<and> mb_effect e = None) entries)"
    using read_entries_invalid [of patch_default entries] r by simp
  have "filter (\<lambda>e. kw_effect e = None \<and> mb_effect e = None) entries \<noteq> []"
    using assms by (auto simp: filter_empty_conv)
  then have "invalid \<noteq> []" using inv by simp
  then show ?thesis by (simp add: read_patch_def r inv [symmetric])
qed

theorem bad_paths_named_back_witness:
  "read_patch (Object [(''keywords/a b'', Bool True), (''mailboxIds/x'', Bool True), (''subject'', String ''s'')]) =
     Inl (SInvalidProperties [''keywords/a b'', ''subject''])"
proof -
  have "kw_effect (''subject'', String ''s'') = None" "mb_effect (''subject'', String ''s'') = None"
    by code_simp+
  from bad_paths_named_back [OF _ this, of "[(''keywords/a b'', Bool True), (''mailboxIds/x'', Bool True), (''subject'', String ''s'')]"]
  have "read_patch (Object [(''keywords/a b'', Bool True), (''mailboxIds/x'', Bool True), (''subject'', String ''s'')]) =
     Inl (SInvalidProperties (map fst (filter (\<lambda>e. kw_effect e = None \<and> mb_effect e = None)
       [(''keywords/a b'', Bool True), (''mailboxIds/x'', Bool True), (''subject'', String ''s'')])))" by simp
  moreover have "map fst (filter (\<lambda>e. kw_effect e = None \<and> mb_effect e = None)
       [(''keywords/a b'', Bool True), (''mailboxIds/x'', Bool True), (''subject'', String ''s'')]) = [''keywords/a b'', ''subject'']"
    by code_simp
  ultimately show ?thesis by simp
qed

end
