(* ===== verification/Mailbox_Rights.thy ===== *)
theory Mailbox_Rights
  imports Jmap_Method Gmail_Labels
begin

text \<open>
  Mailboxes as the table holds them (\<open>store/mailboxes.rs\<close>), the commands a server offers for
  moving mail (\<open>Moving\<close> of \<open>session/capability.rs\<close>), the letters MYRIGHTS named (\<open>Rights\<close> of
  \<open>session/mailbox.rs\<close>) and what the user may do with a mailbox (\<open>mailboxes/rights.rs\<close>). The
  array of nine booleans of the source is a function from the right; the snapshot holds the parts
  the rights are computed from.
\<close>

type_synonym mailbox_id = string

record mailbox_facts =
  name :: string
  imap_name :: string
  parent_imap_name :: "string option"
  role :: "string option"
  sort_order :: nat
  subscribed :: bool
  selectable :: bool
  store :: bool
  gmail_label :: "string option"
  uid_validity :: "nat option"
  uid_next :: "nat option"
  highest_modseq :: "nat option"
  total_emails :: nat
  unread_emails :: nat

record mailbox_row =
  row_id :: mailbox_id
  parent_id :: "mailbox_id option"
  facts :: mailbox_facts

record moving =
  move_command :: bool
  uidplus :: bool

definition moves :: "moving \<Rightarrow> bool" where
  "moves m \<longleftrightarrow> move_command m \<or> uidplus m"

record mailbox_snapshot =
  snap_gmail :: bool
  snap_moving :: moving
  snap_rights :: "mailbox_id \<Rightarrow> string option"

subsection \<open>Letters\<close>

definition EVERY_RIGHT :: string where "EVERY_RIGHT = ''aeiklprstwx''"

text \<open>\<open>Rights::of\<close>: the lowercase letters and digits the server named, once each, in order.\<close>

definition rights_of_line :: "string \<Rightarrow> string" where
  "rights_of_line found =
     remdups_adj (sort (filter (\<lambda>c. is_ascii_lower c \<or> is_ascii_digit c) found))"

definition kept :: "string \<Rightarrow> bool \<Rightarrow> string" where
  "kept rights obsolete =
     (let create = (CHR ''c'' \<in> set rights); delete = (CHR ''d'' \<in> set rights);
          letters = rights @
            (if obsolete then
               (if create then ''k'' else []) @ (if delete then ''t'' else []) @
               (if delete then ''e'' else []) @ (if create \<and> delete then ''x'' else [])
             else [])
      in remdups_adj (sort letters))"

datatype right =
    ReadItems | AddItems | RemoveItems | SetSeen | SetKeywords | CreateChild | Rename | Delete | Submit

definition ALL_RIGHTS :: "right list" where
  "ALL_RIGHTS = [ReadItems, AddItems, RemoveItems, SetSeen, SetKeywords, CreateChild, Rename, Delete, Submit]"

fun right_property :: "right \<Rightarrow> string" where
  "right_property ReadItems = ''mayReadItems''"
| "right_property AddItems = ''mayAddItems''"
| "right_property RemoveItems = ''mayRemoveItems''"
| "right_property SetSeen = ''maySetSeen''"
| "right_property SetKeywords = ''maySetKeywords''"
| "right_property CreateChild = ''mayCreateChild''"
| "right_property Rename = ''mayRename''"
| "right_property Delete = ''mayDelete''"
| "right_property Submit = ''maySubmit''"

fun right_letters :: "right \<Rightarrow> string option" where
  "right_letters ReadItems = Some ''r''"
| "right_letters AddItems = Some ''i''"
| "right_letters RemoveItems = Some ''te''"
| "right_letters SetSeen = Some ''s''"
| "right_letters SetKeywords = Some ''w''"
| "right_letters CreateChild = Some ''k''"
| "right_letters Rename = Some ''x''"
| "right_letters Delete = Some ''x''"
| "right_letters Submit = None"

definition allows :: "string option \<Rightarrow> right \<Rightarrow> bool" where
  "allows letters right =
     (case right_letters right of
        None \<Rightarrow> False
      | Some needed \<Rightarrow> (case letters of None \<Rightarrow> True | Some held \<Rightarrow> list_all (\<lambda>c. c \<in> set held) needed))"

subsection \<open>Rights on a mailbox\<close>

type_synonym mailbox_rights = "right \<Rightarrow> bool"

definition rights_default :: mailbox_rights where "rights_default = (\<lambda>_. False)"

definition rights_with :: "mailbox_rights \<Rightarrow> right \<Rightarrow> bool \<Rightarrow> mailbox_rights" where
  "rights_with r right held = r(right := held)"

definition rights_object :: "mailbox_rights \<Rightarrow> json" where
  "rights_object r = Object (sort_key fst (map (\<lambda>right. (right_property right, Bool (r right))) ALL_RIGHTS))"

definition is_gmail_own :: "mailbox_row \<Rightarrow> bool" where
  "is_gmail_own row =
     (let f = facts row;
          system = (case gmail_label f of None \<Rightarrow> False | Some label \<Rightarrow> starts_with label (bs []))
      in store f \<or> system \<or> \<not> selectable f)"

definition rights_of :: "mailbox_row \<Rightarrow> mailbox_snapshot \<Rightarrow> mailbox_rights" where
  "rights_of row snapshot =
     (let f = facts row;
          letters = snap_rights snapshot (row_id row);
          held = allows letters;
          fixed = (snap_gmail snapshot \<and> is_gmail_own row);
          child = (held CreateChild \<and> \<not> fixed)
      in if \<not> selectable f then rights_with rights_default CreateChild child
         else
           let may_move = (if snap_gmail snapshot \<and> store f then move_command (snap_moving snapshot)
                           else moves (snap_moving snapshot));
               editable = (held Delete \<and> \<not> fixed \<and> \<not> eq_ignore_ascii_case (imap_name f) INBOX);
               r = rights_with rights_default ReadItems (held ReadItems);
               r = rights_with r AddItems (may_move \<and> held AddItems);
               r = rights_with r RemoveItems (may_move \<and> held RemoveItems);
               r = rights_with r SetSeen (held SetSeen);
               r = rights_with r SetKeywords (held SetKeywords);
               r = rights_with r CreateChild child;
               r = rights_with r Rename editable
           in rights_with r Delete (editable \<and> role f = None))"

subsection \<open>Facts\<close>

lemma rights_of_simps:
  "\<not> selectable (facts row) \<Longrightarrow>
     rights_of row s r = (r = CreateChild \<and> allows (snap_rights s (row_id row)) CreateChild \<and>
       \<not> (snap_gmail s \<and> is_gmail_own row))"
  "selectable (facts row) \<Longrightarrow> rights_of row s r =
     (case r of
        Submit \<Rightarrow> False
      | CreateChild \<Rightarrow> allows (snap_rights s (row_id row)) CreateChild \<and> \<not> (snap_gmail s \<and> is_gmail_own row)
      | Rename \<Rightarrow> allows (snap_rights s (row_id row)) Delete \<and> \<not> (snap_gmail s \<and> is_gmail_own row) \<and>
          \<not> eq_ignore_ascii_case (imap_name (facts row)) INBOX
      | Delete \<Rightarrow> allows (snap_rights s (row_id row)) Delete \<and> \<not> (snap_gmail s \<and> is_gmail_own row) \<and>
          \<not> eq_ignore_ascii_case (imap_name (facts row)) INBOX \<and> role (facts row) = None
      | AddItems \<Rightarrow> (if snap_gmail s \<and> store (facts row) then move_command (snap_moving s) else moves (snap_moving s)) \<and>
          allows (snap_rights s (row_id row)) AddItems
      | RemoveItems \<Rightarrow> (if snap_gmail s \<and> store (facts row) then move_command (snap_moving s) else moves (snap_moving s)) \<and>
          allows (snap_rights s (row_id row)) RemoveItems
      | _ \<Rightarrow> allows (snap_rights s (row_id row)) r)"
  by (cases r; simp add: rights_of_def Let_def rights_with_def rights_default_def)+

lemma allows_rename: "allows letters Rename = allows letters Delete"
  by (simp add: allows_def)

text \<open>
  A right the bridge shows on a mailbox is one the server granted, and the fixed rules hold
  whatever the letters say: nobody submits through a mailbox, a name that cannot be selected takes
  at most a child, the INBOX is never renamed or deleted, a mailbox with a role is never deleted,
  what Gmail keeps for itself is never renamed, deleted or given a child, and mail is added or
  removed only where the server can move it.
\<close>

theorem shown_rights_are_granted:
  assumes "rights_of row snapshot r"
  shows "allows (snap_rights snapshot (row_id row)) r \<and> r \<noteq> Submit \<and>
     (\<not> selectable (facts row) \<longrightarrow> r = CreateChild) \<and>
     (r \<in> {Rename, Delete} \<longrightarrow> \<not> eq_ignore_ascii_case (imap_name (facts row)) INBOX) \<and>
     (r = Delete \<longrightarrow> role (facts row) = None) \<and>
     (snap_gmail snapshot \<and> is_gmail_own row \<longrightarrow> r \<notin> {Rename, Delete, CreateChild}) \<and>
     (r \<in> {AddItems, RemoveItems} \<longrightarrow> moves (snap_moving snapshot))"
proof (cases "selectable (facts row)")
  case False
  with assms show ?thesis by (auto simp: rights_of_simps(1))
next
  case True
  with assms show ?thesis
    by (cases r) (auto simp: rights_of_simps(2) moves_def allows_rename split: if_splits)
qed

definition demo_row :: mailbox_row where
  "demo_row = \<lparr>row_id = ''m1'', parent_id = None, facts = \<lparr>name = ''Work'', imap_name = ''Work'',
     parent_imap_name = None, role = None, sort_order = 6, subscribed = True, selectable = True,
     store = True, gmail_label = None, uid_validity = Some 1, uid_next = None, highest_modseq = None,
     total_emails = 0, unread_emails = 0\<rparr>\<rparr>"

definition demo_snapshot :: mailbox_snapshot where
  "demo_snapshot = \<lparr>snap_gmail = False, snap_moving = \<lparr>move_command = True, uidplus = False\<rparr>,
     snap_rights = [''m1'' \<mapsto> ''rx'']\<rparr>"

theorem shown_rights_are_granted_witness:
  "rights_of demo_row demo_snapshot Delete \<and> allows (Some ''rx'') Delete \<and> \<not> rights_of demo_row demo_snapshot AddItems"
proof -
  have d: "rights_of demo_row demo_snapshot Delete" by code_simp
  have a: "\<not> rights_of demo_row demo_snapshot AddItems" by code_simp
  have "snap_rights demo_snapshot (row_id demo_row) = Some ''rx''" by (simp add: demo_snapshot_def demo_row_def)
  with shown_rights_are_granted [OF d] d a show ?thesis by simp
qed

text \<open>
  The letters of a server that predates RFC 4314 are read so that they never grant more than
  the server does: the kept letters are the named ones with exactly the rights the obsolete \<open>c\<close>
  and \<open>d\<close> cover in either reading, so renaming or deleting takes \<open>x\<close> itself or both.
\<close>

theorem obsolete_letters_never_grant_more:
  "set (kept letters obsolete) = set letters \<union>
     (if obsolete then {l. l = CHR ''k'' \<and> CHR ''c'' \<in> set letters} \<union>
        {l. (l = CHR ''t'' \<or> l = CHR ''e'') \<and> CHR ''d'' \<in> set letters} \<union>
        {l. l = CHR ''x'' \<and> CHR ''c'' \<in> set letters \<and> CHR ''d'' \<in> set letters} else {}) \<and>
   sorted (kept letters obsolete) \<and> distinct (kept letters obsolete) \<and>
   (allows (Some (kept letters obsolete)) Delete = (CHR ''x'' \<in> set letters \<or>
      obsolete \<and> CHR ''c'' \<in> set letters \<and> CHR ''d'' \<in> set letters)) \<and>
   (allows (Some (kept letters obsolete)) ReadItems = (CHR ''r'' \<in> set letters))"
proof -
  have s: "set (kept letters obsolete) = set letters \<union>
     (if obsolete then {l. l = CHR ''k'' \<and> CHR ''c'' \<in> set letters} \<union>
        {l. (l = CHR ''t'' \<or> l = CHR ''e'') \<and> CHR ''d'' \<in> set letters} \<union>
        {l. l = CHR ''x'' \<and> CHR ''c'' \<in> set letters \<and> CHR ''d'' \<in> set letters} else {})"
    by (auto simp: kept_def Let_def)
  have o: "sorted (kept letters obsolete)" "distinct (kept letters obsolete)"
    by (simp_all add: kept_def Let_def distinct_remdups_adj)
  show ?thesis using s o by (auto simp: allows_def)
qed

end
