(* ===== verification/Wire_Commands.thy ===== *)
theory Wire_Commands
  imports Keyword_Flags
begin

text \<open>
  The write commands as they go on the wire (\<open>session/write.rs\<close>, \<open>sequence_set\<close> of
  \<open>session/read/preview.rs\<close>, \<open>quoted\<close> of \<open>session/read.rs\<close>) and the \<open>COPYUID\<close> code of an answer
  (\<open>session/write/copyuid.rs\<close>). Errors that carry an operating system error are constructors
  without it: nothing here looks inside. A response line is given by what the reader matches on:
  the \<open>COPYUID\<close> code of an OK line, or nothing.
\<close>

datatype session_error =
    NoAddress | Connect | ServerName | Tls | StarttlsAbsent | StarttlsRefused | Timeout | Closed
  | CredentialRejected | AuthUnavailable | Unavailable | Refused | BadCharset | Protocol string | Io

definition STORABLE_SYSTEM_FLAGS :: "string list" where
  "STORABLE_SYSTEM_FLAGS = [bs ''Seen'', bs ''Flagged'', bs ''Answered'', bs ''Draft'']"

definition STORABLE_SYSTEM_LABELS :: "string list" where
  "STORABLE_SYSTEM_LABELS = [bs ''Inbox'', bs ''Starred'', bs ''Important'', bs ''Sent'', bs ''Draft'']"

definition DELETED :: string where "DELETED = bs ''Deleted''"
definition MAX_COMMAND_BYTES :: nat where "MAX_COMMAND_BYTES = 8192"
definition MAX_STORE_UIDS :: nat where "MAX_STORE_UIDS = 100"
definition MAX_WIRE_NAME_BYTES :: nat where "MAX_WIRE_NAME_BYTES = 4096"

definition NO_MESSAGE :: string where "NO_MESSAGE = ''a write names no message or too many''"
definition NO_FLAG :: string where "NO_FLAG = ''a STORE names nothing or something that cannot be sent''"
definition LINE_LIMIT :: string where "LINE_LIMIT = ''the command passes the line limit''"

definition ATOM_SPECIALS :: "byte list" where
  "ATOM_SPECIALS = ''(){%*'' @ [CHR 34, CHR 92] @ '']''"

datatype store_item = Flags | Labels

record store_ask =
  sa_uids :: "nat list"
  sa_flags :: "string list"
  sa_add :: bool
  sa_item :: store_item

record move_ask =
  ma_uids :: "nat list"
  ma_target :: string

record moved =
  mv_uid_validity :: nat
  mv_uids :: "(nat \<times> nat) list"

datatype transfer = Move | Copy

subsection \<open>UID sets\<close>

definition push_run :: "string \<Rightarrow> nat \<times> nat \<Rightarrow> string" where
  "push_run set0 run =
     (let (first, final) = run
      in (if set0 = [] then set0 else set0 @ '','') @ digits first @
         (if final \<noteq> first then '':'' @ digits final else []))"

fun sequence_loop :: "string \<Rightarrow> (nat \<times> nat) option \<Rightarrow> nat list \<Rightarrow> string" where
  "sequence_loop set0 run [] = (case run of None \<Rightarrow> set0 | Some ended \<Rightarrow> push_run set0 ended)"
| "sequence_loop set0 run (uid # uids) =
     (case run of
        None \<Rightarrow> sequence_loop set0 (Some (uid, uid)) uids
      | Some (first, final) \<Rightarrow>
          if checked_add_u32 final 1 = Some uid then sequence_loop set0 (Some (first, uid)) uids
          else sequence_loop (push_run set0 (first, final)) (Some (uid, uid)) uids)"

definition sequence_set :: "nat list \<Rightarrow> string" where
  "sequence_set uids = sequence_loop [] None (remdups_adj (sort uids))"

definition uid_set :: "nat list \<Rightarrow> session_error + string" where
  "uid_set uids =
     (if uids = [] \<or> length uids > MAX_STORE_UIDS \<or> 0 \<in> set uids then Inl (Protocol NO_MESSAGE)
      else Inr (sequence_set uids))"

subsection \<open>Names and flags\<close>

text \<open>
  \<open>char::is_control\<close> over the UTF-8 bytes of a text: the C0 controls and DEL are single bytes, the
  C1 controls U+0080 to U+009F are the byte C2 and one of 80 to 9F.
\<close>

fun has_control :: "string \<Rightarrow> bool" where
  "has_control [] = False"
| "has_control (c # cs) =
     (code c < 32 \<or> code c = 127 \<or>
      (code c = 194 \<and> (case cs of [] \<Rightarrow> False | d # _ \<Rightarrow> 128 \<le> code d \<and> code d \<le> 159)) \<or>
      has_control cs)"

definition sendable_name :: "string \<Rightarrow> bool" where
  "sendable_name name \<longleftrightarrow> length name \<le> MAX_WIRE_NAME_BYTES \<and> \<not> has_control name"

definition needs_escape :: "byte \<Rightarrow> bool" where
  "needs_escape c \<longleftrightarrow> c = CHR 34 \<or> c = CHR 92"

definition quoted :: "string \<Rightarrow> session_error + string" where
  "quoted name =
     (if \<not> sendable_name name then Inl (Protocol ''the mailbox name cannot be sent'')
      else Inr ([CHR 34] @ concat (map (\<lambda>c. if needs_escape c then [CHR 92, c] else [c]) name) @ [CHR 34]))"

text \<open>A name as it arrives: the parser keeps the escapes of a quoted string.\<close>

fun wire_unescaped :: "string \<Rightarrow> string" where
  "wire_unescaped [] = []"
| "wire_unescaped (c # cs) =
     (case cs of
        d # ds \<Rightarrow> if c = CHR 92 \<and> needs_escape d then d # wire_unescaped ds else c # wire_unescaped cs
      | [] \<Rightarrow> c # wire_unescaped cs)"

definition MAX_RAW_NAME_BYTES :: nat where "MAX_RAW_NAME_BYTES = 2 * MAX_WIRE_NAME_BYTES"

definition wire_name :: "string \<Rightarrow> string option" where
  "wire_name name =
     (if length name > MAX_RAW_NAME_BYTES then None
      else let n = wire_unescaped name in if sendable_name n then Some n else None)"

definition sendable_flag :: "string \<Rightarrow> bool" where
  "sendable_flag f \<longleftrightarrow>
     f \<in> set STORABLE_SYSTEM_FLAGS \<or>
     (f \<noteq> [] \<and> list_all (\<lambda>b. is_ascii_graphic b \<and> b \<notin> set ATOM_SPECIALS) f)"

definition fitting :: "string \<Rightarrow> session_error + string" where
  "fitting command =
     (if length command > MAX_COMMAND_BYTES then Inl (Protocol LINE_LIMIT) else Inr command)"

definition wire_label :: "string \<Rightarrow> string option" where
  "wire_label label =
     (if label \<in> set STORABLE_SYSTEM_LABELS then Some label
      else if label = [] \<or> starts_with label (bs []) then None
      else case quoted label of Inl _ \<Rightarrow> None | Inr w \<Rightarrow> Some w)"

definition label_bytes :: "string \<Rightarrow> nat option" where
  "label_bytes label = map_option length (wire_label label)"

subsection \<open>Commands\<close>

definition store_command :: "store_ask \<Rightarrow> session_error + string" where
  "store_command ask =
     and_then (uid_set (sa_uids ask)) (\<lambda>set0.
     let (item, written) =
           (case sa_item ask of
              Flags \<Rightarrow> (''FLAGS'', if list_all sendable_flag (sa_flags ask) then Some (sa_flags ask) else None)
            | Labels \<Rightarrow> (''X-GM-LABELS'', those (map wire_label (sa_flags ask)))) in
     and_then (ok_or (Protocol NO_FLAG) (case written of None \<Rightarrow> None | Some w \<Rightarrow> if w \<noteq> [] then Some w else None)) (\<lambda>w.
     fitting (''UID STORE '' @ set0 @ '' '' @ (if sa_add ask then ''+'' else ''-'') @ item @ ''.SILENT ('' @
       join_with (CHR '' '') w @ '')'')))"

definition transfer_command :: "transfer \<Rightarrow> move_ask \<Rightarrow> session_error + string" where
  "transfer_command t ask =
     and_then (uid_set (ma_uids ask)) (\<lambda>set0.
     and_then (quoted (ma_target ask)) (\<lambda>target.
     fitting (''UID '' @ (case t of Move \<Rightarrow> ''MOVE'' | Copy \<Rightarrow> ''COPY'') @ '' '' @ set0 @ '' '' @ target)))"

definition expunge_commands :: "nat list \<Rightarrow> session_error + (string \<times> string)" where
  "expunge_commands uids =
     and_then (uid_set uids) (\<lambda>set0.
     and_then (fitting (''UID STORE '' @ set0 @ '' +FLAGS.SILENT ('' @ DELETED @ '')'')) (\<lambda>store.
     and_then (fitting (''UID EXPUNGE '' @ set0)) (\<lambda>expunge.
     Inr (store, expunge))))"

subsection \<open>COPYUID\<close>

datatype uid_set_member = Uid nat | UidRange nat nat

definition UNPAIRED :: string where "UNPAIRED = ''COPYUID does not pair with the UIDs asked''"
definition ZERO :: string where "ZERO = ''COPYUID names a zero''"

fun member_width :: "uid_set_member \<Rightarrow> nat" where
  "member_width (Uid _) = 1"
| "member_width (UidRange a b) = (b - a) + 1"

fun member_uids :: "uid_set_member \<Rightarrow> nat list" where
  "member_uids (Uid u) = [u]"
| "member_uids (UidRange a b) = [a..<b + 1]"

definition expanded :: "uid_set_member list \<Rightarrow> nat \<Rightarrow> session_error + nat list" where
  "expanded set0 room =
     and_then (try_fold (\<lambda>total m. let t = total + member_width m in
         if t > room then Inl (Protocol UNPAIRED) else Inr t) 0 set0)
       (\<lambda>_. Inr (concat (map member_uids set0)))"

type_synonym copyuid = "nat \<times> uid_set_member list \<times> uid_set_member list"

definition note_pair :: "nat list \<Rightarrow> moved \<Rightarrow> nat \<times> nat \<Rightarrow> session_error + moved" where
  "note_pair asked held pair =
     (let taken = list_ex (\<lambda>(from, to). from = fst pair \<or> to = snd pair) (mv_uids held)
      in if fst pair \<notin> set asked \<or> taken then Inl (Protocol UNPAIRED)
         else Inr (held\<lparr>mv_uids := mv_uids held @ [pair]\<rparr>))"

definition note_line :: "nat list \<Rightarrow> moved option \<Rightarrow> copyuid option \<Rightarrow> session_error + moved option" where
  "note_line asked moved response =
     (case response of
        None \<Rightarrow> Inr moved
      | Some (uid_validity, source, target) \<Rightarrow>
          let room = length asked - (case moved of None \<Rightarrow> 0 | Some held \<Rightarrow> length (mv_uids held)) in
          and_then (expanded source room) (\<lambda>from_uids.
          and_then (expanded target room) (\<lambda>to_uids.
          if uid_validity = 0 \<or> 0 \<in> set from_uids \<or> 0 \<in> set to_uids then Inl (Protocol ZERO)
          else
            let held = (case moved of None \<Rightarrow> \<lparr>mv_uid_validity = uid_validity, mv_uids = []\<rparr> | Some h \<Rightarrow> h) in
            if mv_uid_validity held \<noteq> uid_validity \<or> length from_uids \<noteq> length to_uids
            then Inl (Protocol UNPAIRED)
            else and_then (try_fold (note_pair asked) held (zip from_uids to_uids)) (\<lambda>h. Inr (Some h)))))"

subsection \<open>What a UID set says\<close>

text \<open>A reader of sequence sets after RFC 3501 section 9, for sets without the star.\<close>

definition read_run :: "string \<Rightarrow> nat list" where
  "read_run p =
     (case split_on (CHR '':'') p of
        [a] \<Rightarrow> [digits_value a]
      | [a, b] \<Rightarrow> [digits_value a..<digits_value b + 1]
      | _ \<Rightarrow> [])"

definition read_set :: "string \<Rightarrow> nat list" where
  "read_set t = concat (map read_run (split_on (CHR '','') t))"

definition run_text :: "nat \<times> nat \<Rightarrow> string" where
  "run_text run = digits (fst run) @ (if snd run \<noteq> fst run then CHR '':'' # digits (snd run) else [])"

fun seq_runs :: "nat \<times> nat \<Rightarrow> nat list \<Rightarrow> (nat \<times> nat) list" where
  "seq_runs run [] = [run]"
| "seq_runs run (uid # uids) =
     (if checked_add_u32 (snd run) 1 = Some uid then seq_runs (fst run, uid) uids
      else run # seq_runs (uid, uid) uids)"

lemma sequence_loop_runs: "sequence_loop set0 (Some run) uids = foldl push_run set0 (seq_runs run uids)"
  by (induction uids arbitrary: set0 run) (auto split: prod.split)

lemma digits_no_sep: "CHR '','' \<notin> set (digits n)" "CHR '':'' \<notin> set (digits n)" "digits n \<noteq> []"
proof -
  have "\<not> is_ascii_digit (CHR '','')" "\<not> is_ascii_digit (CHR '':'')" by code_simp+
  then show "CHR '','' \<notin> set (digits n)" "CHR '':'' \<notin> set (digits n)" "digits n \<noteq> []"
    using digits_all [of n] by (auto simp: list_all_iff)
qed

lemma run_text_nonempty: "run_text run \<noteq> []"
  using digits_no_sep(3) by (simp add: run_text_def)

lemma push_run_text: "push_run set0 run = (if set0 = [] then [] else set0 @ '','') @ run_text run"
  by (auto simp: push_run_def run_text_def split: prod.split)

lemma fold_push_run:
  "set0 \<noteq> [] \<Longrightarrow> foldl push_run set0 rs = set0 @ concat (map (\<lambda>r. CHR '','' # run_text r) rs)"
  by (induction rs arbitrary: set0) (simp_all add: push_run_text)

lemma join_with_concat: "join_with c (p # ps) = p @ concat (map (\<lambda>q. c # q) ps)"
  by (induction ps arbitrary: p) simp_all

lemma runs_text: "rs \<noteq> [] \<Longrightarrow> foldl push_run [] rs = join_with (CHR '','') (map run_text rs)"
  by (cases rs) (simp_all add: push_run_text fold_push_run run_text_nonempty join_with_concat o_def)

lemma seq_runs_nonempty [simp]: "seq_runs run uids \<noteq> []"
  by (induction uids arbitrary: run) auto

lemma seq_runs_ordered: "fst run \<le> snd run \<Longrightarrow> \<forall>r \<in> set (seq_runs run uids). fst r \<le> snd r"
proof (induction uids arbitrary: run)
  case (Cons uid uids)
  from Cons.IH [of "(fst run, uid)"] Cons.IH [of "(uid, uid)"] Cons.prems show ?case
    by (auto simp: checked_add_u32_def split: if_splits)
qed simp

lemma seq_runs_uids:
  "fst run \<le> snd run \<Longrightarrow>
   concat (map (\<lambda>r. [fst r..<snd r + 1]) (seq_runs run uids)) = [fst run..<snd run + 1] @ uids"
proof (induction uids arbitrary: run)
  case (Cons uid uids)
  then show ?case by (auto simp: checked_add_u32_def split: if_splits)
qed simp

lemma read_run_text: "fst run \<le> snd run \<Longrightarrow> read_run (run_text run) = [fst run..<snd run + 1]"
  using digits_no_sep(2) by (auto simp: read_run_def run_text_def split_on_no_sep split_on_append_sep)

lemma sequence_set_runs:
  assumes "uids \<noteq> []"
  obtains rs where "sequence_set uids = join_with (CHR '','') (map run_text rs)" "rs \<noteq> []"
    "\<forall>r \<in> set rs. fst r \<le> snd r"
    "concat (map (\<lambda>r. [fst r..<snd r + 1]) rs) = remdups_adj (sort uids)"
proof -
  obtain u us where u: "remdups_adj (sort uids) = u # us"
    using assms by (cases "remdups_adj (sort uids)") (simp_all flip: set_empty)
  have "concat (map (\<lambda>r. [fst r..<snd r + 1]) (seq_runs (u, u) us)) = remdups_adj (sort uids)"
    using seq_runs_uids [of "(u, u)" us] u by simp
  moreover have "sequence_set uids = join_with (CHR '','') (map run_text (seq_runs (u, u) us))"
    by (simp add: sequence_set_def u sequence_loop_runs runs_text)
  moreover have "\<forall>r \<in> set (seq_runs (u, u) us). fst r \<le> snd r"
    by (rule seq_runs_ordered) simp
  ultimately show ?thesis using that [of "seq_runs (u, u) us"] by simp
qed

lemma digits_length: "n < 10 ^ k \<Longrightarrow> 0 < k \<Longrightarrow> length (digits n) \<le> k"
proof (induction n arbitrary: k rule: digits.induct)
  case (1 n)
  show ?case
  proof (cases "n < 10")
    case True
    then show ?thesis using 1(3) by (subst digits.simps) simp
  next
    case False
    then obtain j where j: "k = Suc j" "0 < j" using 1(2,3) by (cases k) (auto, metis gr0I power_one_right power_0 mult.right_neutral)
    then have "n div 10 < 10 ^ j" using 1(2) by (simp add: less_mult_imp_div_less mult.commute)
    with 1(1) [OF False] j have "length (digits (n div 10)) \<le> j" by simp
    then show ?thesis using False j by (subst digits.simps) simp
  qed
qed

lemma digits_u32: "n \<le> u32_max \<Longrightarrow> length (digits n) \<le> 10"
  by (rule digits_length) (simp_all add: u32_max_def)

lemma join_with_length: "ps \<noteq> [] \<Longrightarrow> length (join_with c ps) + 1 = sum_list (map (\<lambda>p. length p + 1) ps)"
  by (induction c ps rule: join_with.induct) auto

lemma run_text_length:
  assumes "fst r \<le> snd r" "snd r \<le> u32_max"
  shows "length (run_text r) + 1 \<le> 11 * length [fst r..<snd r + 1]"
proof -
  have "length (digits (fst r)) \<le> 10" "length (digits (snd r)) \<le> 10" using assms by (auto intro: digits_u32)
  then show ?thesis using assms(1) by (cases "fst r = snd r") (auto simp: run_text_def)
qed

lemma sequence_set_length:
  assumes "uids \<noteq> []" "\<forall>u \<in> set uids. u \<le> u32_max"
  shows "length (sequence_set uids) + 1 \<le> 11 * length uids"
proof -
  obtain rs where rs: "sequence_set uids = join_with (CHR '','') (map run_text rs)" "rs \<noteq> []"
    "\<forall>r \<in> set rs. fst r \<le> snd r" "concat (map (\<lambda>r. [fst r..<snd r + 1]) rs) = remdups_adj (sort uids)"
    by (rule sequence_set_runs [OF assms(1)])
  have bound: "snd r \<le> u32_max" if "r \<in> set rs" for r
  proof -
    have "snd r \<in> set (concat (map (\<lambda>r. [fst r..<snd r + 1]) rs))" using that rs(3) by force
    then have "snd r \<in> set uids" unfolding rs(4) by simp
    then show ?thesis using assms(2) by blast
  qed
  have "length (sequence_set uids) + 1 = sum_list (map (\<lambda>r. length (run_text r) + 1) rs)"
    using join_with_length [of "map run_text rs"] rs(1,2) by (simp add: o_def)
  also have "\<dots> \<le> sum_list (map (\<lambda>r. 11 * length [fst r..<snd r + 1]) rs)"
    using run_text_length rs(3) bound by (intro sum_list_mono) blast
  also have "\<dots> = 11 * length (concat (map (\<lambda>r. [fst r..<snd r + 1]) rs))"
    by (simp add: length_concat o_def sum_list_const_mult)
  also have "\<dots> \<le> 11 * length uids"
    unfolding rs(4) using remdups_adj_length [of "sort uids"] by simp
  finally show ?thesis .
qed

subsection \<open>Bytes on the line\<close>

definition line_safe :: "string \<Rightarrow> bool" where
  "line_safe s \<longleftrightarrow> (\<forall>c \<in> set s. 32 \<le> code c \<and> code c \<noteq> 127)"

lemma line_safe_append [simp]: "line_safe (s @ t) \<longleftrightarrow> line_safe s \<and> line_safe t"
  by (auto simp: line_safe_def)

lemma line_safe_Nil [simp]: "line_safe []"
  by (simp add: line_safe_def)

lemma line_safe_Cons [simp]: "line_safe (c # s) \<longleftrightarrow> (32 \<le> code c \<and> code c \<noteq> 127) \<and> line_safe s"
  by (simp add: line_safe_def)

lemma has_control_safe: "\<not> has_control s \<Longrightarrow> line_safe s"
  by (induction s) (auto simp: not_less)

lemma digits_safe: "line_safe (digits n)"
  using digits_all [of n] by (auto simp: line_safe_def list_all_iff is_ascii_digit_def)

lemma join_with_safe: "line_safe [c] \<Longrightarrow> \<forall>p \<in> set ps. line_safe p \<Longrightarrow> line_safe (join_with c ps)"
  by (induction c ps rule: join_with.induct) auto

lemma sequence_set_safe: "uids \<noteq> [] \<Longrightarrow> line_safe (sequence_set uids)"
proof -
  assume "uids \<noteq> []"
  then obtain rs where "sequence_set uids = join_with (CHR '','') (map run_text rs)" by (rule sequence_set_runs)
  moreover have "line_safe (run_text r)" for r by (simp add: run_text_def digits_safe)
  ultimately show ?thesis using join_with_safe [of "CHR '',''" "map run_text rs"] by simp
qed

lemma quoted_safe: "quoted name = Inr q \<Longrightarrow> line_safe q"
proof -
  assume "quoted name = Inr q"
  then have q: "q = [CHR 34] @ concat (map (\<lambda>c. if needs_escape c then [CHR 92, c] else [c]) name) @ [CHR 34]"
    and "line_safe name"
    by (auto simp: quoted_def sendable_name_def has_control_safe split: if_splits)
  then show ?thesis by (auto simp: line_safe_def)
qed

lemma wire_label_safe: "wire_label l = Some w \<Longrightarrow> line_safe w"
proof -
  assume w: "wire_label l = Some w"
  have "list_all line_safe STORABLE_SYSTEM_LABELS" by code_simp
  with w quoted_safe show ?thesis
    by (auto simp: wire_label_def list_all_iff split: if_splits sum.splits)
qed

lemma sendable_flag_safe: "sendable_flag f \<Longrightarrow> line_safe f"
proof -
  assume f: "sendable_flag f"
  have "list_all line_safe STORABLE_SYSTEM_FLAGS" by code_simp
  with f show ?thesis
    by (auto simp: sendable_flag_def list_all_iff line_safe_def is_ascii_graphic_def)
qed

lemma those_Some: "those xs = Some ys \<longleftrightarrow> xs = map Some ys"
  by (induction xs arbitrary: ys) (auto split: option.splits simp: Cons_eq_map_conv)

lemma uid_set_Inr:
  "uid_set uids = Inr t \<longleftrightarrow> uids \<noteq> [] \<and> length uids \<le> MAX_STORE_UIDS \<and> 0 \<notin> set uids \<and> t = sequence_set uids"
  by (auto simp: uid_set_def)

lemma fitting_Inr: "fitting c = Inr t \<longleftrightarrow> t = c \<and> length c \<le> MAX_COMMAND_BYTES"
  by (auto simp: fitting_def)

definition written_items :: "store_ask \<Rightarrow> string list option" where
  "written_items ask =
     (case sa_item ask of
        Flags \<Rightarrow> if list_all sendable_flag (sa_flags ask) then Some (sa_flags ask) else None
      | Labels \<Rightarrow> those (map wire_label (sa_flags ask)))"

lemma store_command_Inr:
  "store_command ask = Inr c \<longleftrightarrow>
     sa_uids ask \<noteq> [] \<and> length (sa_uids ask) \<le> MAX_STORE_UIDS \<and> 0 \<notin> set (sa_uids ask) \<and>
     (\<exists>w. written_items ask = Some w \<and> w \<noteq> [] \<and>
        c = ''UID STORE '' @ sequence_set (sa_uids ask) @ '' '' @ (if sa_add ask then ''+'' else ''-'') @
          (case sa_item ask of Flags \<Rightarrow> ''FLAGS'' | Labels \<Rightarrow> ''X-GM-LABELS'') @ ''.SILENT ('' @
          join_with (CHR '' '') w @ '')'' \<and> length c \<le> MAX_COMMAND_BYTES)"
  by (cases "sa_item ask")
    (auto simp: store_command_def and_then_Inr_eq uid_set_Inr fitting_Inr ok_or_def written_items_def
      split: option.splits if_splits)

lemma written_items_safe: "written_items ask = Some w \<Longrightarrow> \<forall>p \<in> set w. line_safe p"
proof (cases "sa_item ask")
  case Flags
  assume "written_items ask = Some w"
  then show ?thesis using Flags by (auto simp: written_items_def list_all_iff sendable_flag_safe split: if_splits)
next
  case Labels
  assume "written_items ask = Some w"
  then have w: "map wire_label (sa_flags ask) = map Some w" using Labels by (simp add: written_items_def those_Some)
  show ?thesis
  proof
    fix p assume "p \<in> set w"
    then have "Some p \<in> set (map wire_label (sa_flags ask))" unfolding w by simp
    then show "line_safe p" by (auto dest: wire_label_safe sym)
  qed
qed

subsection \<open>Quoting\<close>

declare wire_unescaped.simps(2) [simp del]

lemma wire_unescaped_plain: "c \<noteq> CHR 92 \<Longrightarrow> wire_unescaped (c # cs) = c # wire_unescaped cs"
  by (subst wire_unescaped.simps) (simp split: list.split)

lemma wire_unescaped_escaped: "needs_escape d \<Longrightarrow> wire_unescaped (CHR 92 # d # ds) = d # wire_unescaped ds"
  by (subst wire_unescaped.simps) simp

lemma unescape_escape:
  "wire_unescaped (concat (map (\<lambda>c. if needs_escape c then [CHR 92, c] else [c]) name)) = name"
proof (induction name)
  case (Cons c name)
  show ?case
  proof (cases "needs_escape c")
    case True
    with Cons show ?thesis by (simp add: wire_unescaped_escaped)
  next
    case False
    then have "c \<noteq> CHR 92" by (simp add: needs_escape_def)
    with False Cons show ?thesis by (simp add: wire_unescaped_plain)
  qed
qed simp

lemma escape_length:
  "length (concat (map (\<lambda>c. if needs_escape c then [CHR 92, c] else [c]) name)) \<le> 2 * length name"
  by (induction name) auto

subsection \<open>COPYUID keeps pairs\<close>

definition pairs_ok :: "nat list \<Rightarrow> moved \<Rightarrow> bool" where
  "pairs_ok asked m \<longleftrightarrow>
     distinct (map fst (mv_uids m)) \<and> distinct (map snd (mv_uids m)) \<and>
     set (map fst (mv_uids m)) \<subseteq> set asked \<and>
     (\<forall>(from, to) \<in> set (mv_uids m). from \<noteq> 0 \<and> to \<noteq> 0) \<and> mv_uid_validity m \<noteq> 0"

lemma note_pair_ok:
  assumes "pairs_ok asked h" "note_pair asked h p = Inr h'" "fst p \<noteq> 0" "snd p \<noteq> 0"
  shows "pairs_ok asked h' \<and> mv_uid_validity h' = mv_uid_validity h \<and> mv_uids h' = mv_uids h @ [p]"
  using assms by (cases p) (fastforce simp: note_pair_def pairs_ok_def list_ex_iff split: if_splits)

lemma note_pairs_ok:
  assumes "pairs_ok asked h" "try_fold (note_pair asked) h ps = Inr h'" "\<forall>p \<in> set ps. fst p \<noteq> 0 \<and> snd p \<noteq> 0"
  shows "pairs_ok asked h' \<and> mv_uid_validity h' = mv_uid_validity h \<and> mv_uids h' = mv_uids h @ ps"
  using assms
proof (induction ps arbitrary: h)
  case (Cons p ps)
  then obtain h1 where h1: "note_pair asked h p = Inr h1" "try_fold (note_pair asked) h1 ps = Inr h'"
    by (auto simp: and_then_Inr_eq)
  from note_pair_ok [OF Cons.prems(1) h1(1)] Cons.prems(3) have
    "pairs_ok asked h1 \<and> mv_uid_validity h1 = mv_uid_validity h \<and> mv_uids h1 = mv_uids h @ [p]" by simp
  with Cons.IH [OF _ h1(2)] Cons.prems(3) show ?case by simp
qed simp

lemma expanded_uids: "expanded s room = Inr us \<Longrightarrow> us = concat (map member_uids s)"
  by (auto simp: expanded_def and_then_Inr_eq)

lemma member_width: "length (member_uids m) \<le> member_width m"
  by (cases m) auto

lemma expanded_room:
  assumes "expanded s room = Inr us"
  shows "length us \<le> room"
proof -
  let ?f = "\<lambda>total m. let t = total + member_width m in if t > room then Inl (Protocol UNPAIRED) else Inr t"
  have "total + length (concat (map member_uids ms)) \<le> t \<and> t \<le> room"
    if "try_fold ?f total ms = Inr t" "total \<le> room" for total t ms
    using that
  proof (induction ms arbitrary: total)
    case (Cons m ms)
    then have fits: "total + member_width m \<le> room" "try_fold ?f (total + member_width m) ms = Inr t"
      by (auto simp: Let_def split: if_splits)
    from Cons.IH [OF fits(2,1)] member_width [of m] show ?case by simp
  qed simp
  from this [of 0 s] assms show ?thesis by (auto simp: expanded_def and_then_Inr_eq)
qed

definition line_pairs :: "copyuid option \<Rightarrow> (nat \<times> nat) list" where
  "line_pairs r = (case r of None \<Rightarrow> []
     | Some (_, s, t) \<Rightarrow> zip (concat (map member_uids s)) (concat (map member_uids t)))"

definition held_pairs :: "moved option \<Rightarrow> (nat \<times> nat) list" where
  "held_pairs m = (case m of None \<Rightarrow> [] | Some h \<Rightarrow> mv_uids h)"

lemma note_line_ok:
  assumes "case m of None \<Rightarrow> True | Some h \<Rightarrow> pairs_ok asked h" "note_line asked m r = Inr m'"
  shows "(case m' of None \<Rightarrow> True | Some h \<Rightarrow> pairs_ok asked h) \<and> held_pairs m' = held_pairs m @ line_pairs r"
proof (cases r)
  case None
  then show ?thesis using assms by (simp add: note_line_def line_pairs_def)
next
  case (Some code)
  obtain v s t where c: "code = (v, s, t)" by (cases code)
  let ?held = "case m of None \<Rightarrow> \<lparr>mv_uid_validity = v, mv_uids = []\<rparr> | Some h \<Rightarrow> h"
  from assms(2) Some c obtain h where h: "v \<noteq> 0" "m' = Some h"
    "0 \<notin> set (concat (map member_uids s))" "0 \<notin> set (concat (map member_uids t))"
    "try_fold (note_pair asked) ?held (zip (concat (map member_uids s)) (concat (map member_uids t))) = Inr h"
    by (auto simp: note_line_def Let_def and_then_Inr_eq split: if_splits dest!: expanded_uids)
  have "pairs_ok asked ?held" using assms(1) h(1) by (cases m) (simp_all add: pairs_ok_def)
  moreover have "\<forall>p \<in> set (zip (concat (map member_uids s)) (concat (map member_uids t))). fst p \<noteq> 0 \<and> snd p \<noteq> 0"
    using h(3,4) by (metis prod.collapse set_zip_leftD set_zip_rightD)
  ultimately show ?thesis
    using note_pairs_ok [OF _ h(5)] h(2) Some c
    by (cases m) (auto simp: held_pairs_def line_pairs_def)
qed

subsection \<open>Properties\<close>

text \<open>
  The set a write sends names exactly the messages it was asked for: read after RFC 3501 it
  lists each of them once, in order, however the runs were folded into ranges, and it takes at
  most eleven bytes per message.
\<close>

theorem sequence_set_names_messages:
  assumes "uids \<noteq> []" "\<forall>u \<in> set uids. u \<le> u32_max"
  shows "read_set (sequence_set uids) = remdups_adj (sort uids) \<and>
     set (read_set (sequence_set uids)) = set uids \<and>
     length (sequence_set uids) < 11 * length uids"
proof -
  obtain rs where rs: "sequence_set uids = join_with (CHR '','') (map run_text rs)" "rs \<noteq> []"
    "\<forall>r \<in> set rs. fst r \<le> snd r" "concat (map (\<lambda>r. [fst r..<snd r + 1]) rs) = remdups_adj (sort uids)"
    by (rule sequence_set_runs [OF assms(1)])
  have "CHR '','' \<notin> set (run_text r)" for r using digits_no_sep(1) by (auto simp: run_text_def)
  then have "split_on (CHR '','') (sequence_set uids) = map run_text rs"
    unfolding rs(1) using rs(2) by (intro split_join) auto
  moreover have "map (read_run \<circ> run_text) rs = map (\<lambda>r. [fst r..<snd r + 1]) rs"
    using rs(3) read_run_text by (intro map_cong) auto
  ultimately have "read_set (sequence_set uids) = remdups_adj (sort uids)"
    unfolding read_set_def rs(4) [symmetric] by (simp only: map_map)
  then show ?thesis using sequence_set_length [OF assms] by simp
qed

theorem sequence_set_names_messages_witness:
  "sequence_set [7, 3, 4, 5, 7] = ''3:5,7'' \<and> read_set ''3:5,7'' = [3, 4, 5, 7] \<and>
   set (read_set ''3:5,7'') = set [7, 3, 4, 5, 7]"
proof -
  have "sequence_set [7, 3, 4, 5, 7] = ''3:5,7''"
  proof -
    have "digits 3 = ''3''" "digits 5 = ''5''" "digits 7 = ''7''" by code_simp+
    then show ?thesis by (simp add: sequence_set_def checked_add_u32_def u32_max_def push_run_def)
  qed
  moreover have "remdups_adj (sort [7, 3, 4, 5, 7 :: nat]) = [3, 4, 5, 7]" by simp
  moreover have "\<forall>u \<in> set [7, 3, 4, 5, 7]. u \<le> u32_max" by (simp add: u32_max_def)
  ultimately show ?thesis using sequence_set_names_messages [of "[7, 3, 4, 5, 7]"] by (simp add: insert_commute)
qed

text \<open>
  Nothing a client or a server names can break out of a command line: every command of a
  STORE, a MOVE, a COPY or an expunge the bridge builds holds no control byte, so no CR, LF or NUL,
  and stays within the line limit.
\<close>

theorem commands_stay_on_one_line:
  "(store_command ask = Inr c \<longrightarrow> line_safe c \<and> length c \<le> MAX_COMMAND_BYTES) \<and>
   (transfer_command t mv_ask = Inr c \<longrightarrow> line_safe c \<and> length c \<le> MAX_COMMAND_BYTES) \<and>
   (expunge_commands uids = Inr (c, d) \<longrightarrow> line_safe c \<and> line_safe d \<and>
      length c \<le> MAX_COMMAND_BYTES \<and> length d \<le> MAX_COMMAND_BYTES)"
proof (intro conjI impI)
  assume s: "store_command ask = Inr c"
  then obtain w where w: "written_items ask = Some w" by (auto simp: store_command_Inr)
  have "line_safe (join_with (CHR '' '') w)"
    using written_items_safe [OF w] by (intro join_with_safe) simp_all
  with s w show "line_safe c"
    by (auto simp: store_command_Inr sequence_set_safe split: store_item.split)
  show "length c \<le> MAX_COMMAND_BYTES" using s by (auto simp: store_command_Inr)
next
  assume "transfer_command t mv_ask = Inr c"
  then show "line_safe c" "length c \<le> MAX_COMMAND_BYTES"
    by (auto simp: transfer_command_def and_then_Inr_eq uid_set_Inr fitting_Inr sequence_set_safe
        dest!: quoted_safe split: transfer.split)
next
  have d: "line_safe DELETED" by code_simp
  assume "expunge_commands uids = Inr (c, d)"
  then show "line_safe c" "line_safe d" "length c \<le> MAX_COMMAND_BYTES" "length d \<le> MAX_COMMAND_BYTES"
    using d by (auto simp: expunge_commands_def and_then_Inr_eq uid_set_Inr fitting_Inr sequence_set_safe)
qed

theorem commands_stay_on_one_line_witness:
  "line_safe ''UID STORE 4 +FLAGS.SILENT (work)''"
proof -
  have "sequence_set [4] = ''4''"
  proof -
    have "digits 4 = ''4''" by code_simp
    then show ?thesis by (simp add: sequence_set_def push_run_def)
  qed
  moreover have "sendable_flag ''work''" by code_simp
  ultimately have "store_command \<lparr>sa_uids = [4], sa_flags = [''work''], sa_add = True, sa_item = Flags\<rparr> =
      Inr ''UID STORE 4 +FLAGS.SILENT (work)''"
    by (simp add: store_command_def uid_set_def MAX_STORE_UIDS_def fitting_def MAX_COMMAND_BYTES_def)
  then show ?thesis using commands_stay_on_one_line by blast
qed

text \<open>
  A mailbox name the bridge quotes for a command reads back from the server's own quoting as
  the same name.
\<close>

theorem quoted_name_round_trip:
  assumes "quoted name = Inr q"
  shows "\<exists>raw. q = [CHR 34] @ raw @ [CHR 34] \<and> wire_name raw = Some name"
proof -
  let ?raw = "concat (map (\<lambda>c. if needs_escape c then [CHR 92, c] else [c]) name)"
  have q: "sendable_name name" "q = [CHR 34] @ ?raw @ [CHR 34]"
    using assms by (auto simp: quoted_def split: if_splits)
  have "length ?raw \<le> MAX_RAW_NAME_BYTES"
    using escape_length [of name] q(1) by (simp add: MAX_RAW_NAME_BYTES_def sendable_name_def)
  then have "wire_name ?raw = Some name"
    using q(1) by (simp add: wire_name_def unescape_escape)
  with q(2) show ?thesis by blast
qed

theorem quoted_name_round_trip_witness:
  "\<exists>raw. [CHR 34, CHR ''a'', CHR 92, CHR 34, CHR 34] = [CHR 34] @ raw @ [CHR 34] \<and>
     wire_name raw = Some [CHR ''a'', CHR 34]"
proof (rule quoted_name_round_trip)
  show "quoted [CHR ''a'', CHR 34] = Inr [CHR 34, CHR ''a'', CHR 92, CHR 34, CHR 34]"
    by (simp add: quoted_def sendable_name_def needs_escape_def MAX_WIRE_NAME_BYTES_def)
qed

text \<open>
  Over all the lines of one answer, the pairs kept from \<open>COPYUID\<close> are one to one: every
  source is a message the write named and comes once, every target comes once, no UID and no
  UIDVALIDITY is zero, and the pairs are exactly the ones the lines named, in their order.
\<close>

theorem copyuid_pairs_one_to_one:
  assumes "try_fold (note_line asked) None lines = Inr m"
  shows "(case m of None \<Rightarrow> True | Some h \<Rightarrow> pairs_ok asked h) \<and>
     held_pairs m = concat (map line_pairs lines)"
proof -
  have "(case m' of None \<Rightarrow> True | Some h \<Rightarrow> pairs_ok asked h) \<and> held_pairs m' = held_pairs m0 @ concat (map line_pairs ls)"
    if "try_fold (note_line asked) m0 ls = Inr m'" "case m0 of None \<Rightarrow> True | Some h \<Rightarrow> pairs_ok asked h" for m0 m' ls
    using that
  proof (induction ls arbitrary: m0)
    case (Cons l ls)
    then obtain m1 where m1: "note_line asked m0 l = Inr m1" "try_fold (note_line asked) m1 ls = Inr m'"
      by (auto simp: and_then_Inr_eq)
    from note_line_ok [OF Cons.prems(2) m1(1)] Cons.IH [OF m1(2)] show ?case by simp
  qed simp
  from this [OF assms] show ?thesis by (simp add: held_pairs_def)
qed

theorem copyuid_pairs_one_to_one_witness:
  "try_fold (note_line [4, 5, 9]) None [Some (7, [UidRange 4 5], [UidRange 20 21]), None, Some (7, [Uid 9], [Uid 3])]
     = Inr (Some \<lparr>mv_uid_validity = 7, mv_uids = [(4, 20), (5, 21), (9, 3)]\<rparr>) \<and>
   pairs_ok [4, 5, 9] \<lparr>mv_uid_validity = 7, mv_uids = [(4, 20), (5, 21), (9, 3)]\<rparr>"
proof -
  have run: "try_fold (note_line [4, 5, 9]) None [Some (7, [UidRange 4 5], [UidRange 20 21]), None, Some (7, [Uid 9], [Uid 3])]
     = Inr (Some \<lparr>mv_uid_validity = 7, mv_uids = [(4, 20), (5, 21), (9, 3)]\<rparr>)"
    by code_simp
  from copyuid_pairs_one_to_one [OF run] run show ?thesis by simp
qed

end
