(* ===== verification/Email_Set_Plan.thy ===== *)
theory Email_Set_Plan
  imports Set_Patch Mailbox_Rights Wire_Commands
begin

text \<open>
  What each update and destroy of an \<open>Email/set\<close> asks of which folder, read against the rows
  before anything is sent (\<open>jmap/write/plan.rs\<close>), with the data of the work (\<open>jmap/write.rs\<close>), the
  groups of keywords (\<open>jmap/write/keywords.rs\<close>) and of labels and moves (\<open>jmap/write/moves.rs\<close>).
  A \<open>BTreeSet\<close> is the sorted list of its elements. The \<open>HashMap\<close> of mailbox rows is the list of
  its rows in the order it iterates in, which is not specified. What the store reads (the state,
  the rows of the emails, the rows of the mailboxes, the letters) is given to \<open>planned\<close>; the
  creates of drafts are another part of the call and are left out.
\<close>

record keyword_row =
  kr_id :: string
  kr_folder :: mailbox_id
  kr_uid :: "nat option"
  kr_keywords :: "(string, bool) bt"
  kr_mailboxes :: "mailbox_id list"

record set_member =
  mem_index :: nat
  mem_id :: string
  mem_uid :: nat

record tally =
  t_left :: nat
  t_failed :: "set_error option"

record relabel =
  r_add :: "mailbox_id list"
  r_remove :: "mailbox_id list"

definition relabel_default :: relabel where
  "relabel_default = \<lparr>r_add = [], r_remove = []\<rparr>"

datatype plan = Nothing | PLabels relabel | PMove mailbox_id "relabel option"

fun plan_relabel :: "plan \<Rightarrow> relabel option" where
  "plan_relabel (PLabels r) = Some r"
| "plan_relabel (PMove to (Some r)) = Some r"
| "plan_relabel Nothing = None"
| "plan_relabel (PMove to None) = None"

record kw_group =
  kg_edit :: edit
  kg_remove :: "string list"
  kg_members :: "set_member list"

record label_group =
  lg_relabel :: relabel
  lg_members :: "set_member list"

record move_group =
  mg_to :: mailbox_id
  mg_then :: "relabel option"
  mg_members :: "set_member list"

record folder_work =
  f_keywords :: "kw_group list"
  f_labels :: "label_group list"
  f_moves :: "move_group list"
  f_destroys :: "set_member list"
  f_trashes :: "set_member list"

definition folder_default :: folder_work where
  "folder_default = \<lparr>f_keywords = [], f_labels = [], f_moves = [], f_destroys = [], f_trashes = []\<rparr>"

definition folder_moves_mail :: "folder_work \<Rightarrow> bool" where
  "folder_moves_mail f \<longleftrightarrow> f_moves f \<noteq> [] \<or> f_labels f \<noteq> [] \<or> f_trashes f \<noteq> []"

definition folder_members :: "folder_work \<Rightarrow> set_member list" where
  "folder_members f =
     concat (map kg_members (f_keywords f)) @ concat (map lg_members (f_labels f)) @
     concat (map mg_members (f_moves f)) @ f_destroys f @ f_trashes f"

record expected =
  x_mailboxes :: "mailbox_id list"
  x_keywords :: "(string, bool) bt"

record keyword_change =
  kc_id :: string
  kc_folder :: mailbox_id
  kc_uid :: nat
  kc_add :: "string list"
  kc_remove :: "string list"

record label_change =
  lc_id :: string
  lc_folder :: mailbox_id
  lc_uid :: nat
  lc_add :: "mailbox_id list"
  lc_remove :: "mailbox_id list"

record move_change =
  mc_id :: string
  mc_from :: mailbox_id
  mc_from_uid :: nat
  mc_to :: mailbox_id
  mc_uid_validity :: nat
  mc_uid :: nat
  mc_labels :: "string list option"

record gone_row =
  go_id :: string
  go_folder :: mailbox_id
  go_uid :: nat

record set_write =
  sw_gmail :: bool
  sw_keywords :: "keyword_change list"
  sw_labels :: "label_change list"
  sw_moves :: "move_change list"
  sw_gone :: "gone_row list"
  sw_lost :: "gone_row list"

record restore =
  rs_member :: set_member
  rs_from :: mailbox_id
  rs_to :: mailbox_id
  rs_uid_validity :: nat
  rs_uid :: nat
  rs_relabel :: relabel

record work =
  w_folders :: "(mailbox_id, folder_work) bt"
  w_rows :: "mailbox_row list"
  w_letters :: "mailbox_id \<Rightarrow> string option"
  w_found :: "keyword_row list"
  w_tallies :: "tally list"
  w_stored :: set_write
  w_restores :: "restore list"
  w_moving :: moving
  w_state :: nat

record set_ask =
  if_in_state :: "string option"
  updates :: "(string \<times> patch) list"
  destroy_ids :: "string list"

definition SEEN :: string where "SEEN = ''$seen''"
definition DESTROYABLE_ROLES :: "string list" where "DESTROYABLE_ROLES = [''junk'', ''trash'']"
definition DRAFTS_ROLE :: string where "DRAFTS_ROLE = ''drafts''"

definition bset :: "string list \<Rightarrow> string list" where
  "bset xs = remdups_adj (sort xs)"

definition row_get :: "mailbox_row list \<Rightarrow> mailbox_id \<Rightarrow> mailbox_row option" where
  "row_get rows ident = List.find (\<lambda>r. row_id r = ident) rows"

subsection \<open>Groups\<close>

definition removed :: "edit \<Rightarrow> keyword_row \<Rightarrow> string list" where
  "removed e row =
     (if \<not> e_whole e then e_clear e
      else filter (\<lambda>k. k \<notin> set (e_set e)) (map fst (kr_keywords row)))"

fun join_kw :: "kw_group list \<Rightarrow> edit \<Rightarrow> string list \<Rightarrow> set_member \<Rightarrow> kw_group list" where
  "join_kw [] e rm m = [\<lparr>kg_edit = e, kg_remove = rm, kg_members = [m]\<rparr>]"
| "join_kw (g # gs) e rm m =
     (if kg_edit g = e \<and> kg_remove g = rm then g\<lparr>kg_members := kg_members g @ [m]\<rparr> # gs
      else g # join_kw gs e rm m)"

fun join_labels :: "label_group list \<Rightarrow> relabel \<Rightarrow> set_member \<Rightarrow> label_group list" where
  "join_labels [] r m = [\<lparr>lg_relabel = r, lg_members = [m]\<rparr>]"
| "join_labels (g # gs) r m =
     (if lg_relabel g = r then g\<lparr>lg_members := lg_members g @ [m]\<rparr> # gs else g # join_labels gs r m)"

fun join_move :: "move_group list \<Rightarrow> mailbox_id \<Rightarrow> relabel option \<Rightarrow> set_member \<Rightarrow> move_group list" where
  "join_move [] to thn m = [\<lparr>mg_to = to, mg_then = thn, mg_members = [m]\<rparr>]"
| "join_move (g # gs) to thn m =
     (if mg_to g = to \<and> mg_then g = thn then g\<lparr>mg_members := mg_members g @ [m]\<rparr> # gs
      else g # join_move gs to thn m)"

subsection \<open>Runs that fit a command line\<close>

fun runs_loop ::
  "string list \<Rightarrow> (string \<Rightarrow> nat) \<Rightarrow> nat \<Rightarrow> nat \<Rightarrow> nat \<Rightarrow> string list list \<Rightarrow> string list \<Rightarrow> string list list" where
  "runs_loop items width index start bytes runs [] =
     (if start < length items then runs @ [drop start items] else runs)"
| "runs_loop items width index start bytes runs (item # rest) =
     (let wide = width item + 1
      in if bytes + wide > MAX_UPDATE_KEYWORD_BYTES \<and> index > start
         then runs_loop items width (index + 1) index (0 + wide)
                (runs @ [take (index - start) (drop start items)]) rest
         else runs_loop items width (index + 1) start (bytes + wide) runs rest)"

definition runs :: "string list \<Rightarrow> (string \<Rightarrow> nat) \<Rightarrow> string list list" where
  "runs items width = runs_loop items width 0 0 0 [] items"

definition fits :: "nat \<Rightarrow> bool" where
  "fits width \<longleftrightarrow> width < MAX_UPDATE_KEYWORD_BYTES"

definition labels_of :: "mailbox_row list \<Rightarrow> mailbox_id list \<Rightarrow> string list" where
  "labels_of rows mailboxes =
     map written_label
       (List.map_filter (\<lambda>mb. Option.bind (row_get rows mb) (\<lambda>r. gmail_label (facts r))) mailboxes)"

definition label_width :: "string \<Rightarrow> nat" where
  "label_width label = (case label_bytes label of None \<Rightarrow> 0 | Some n \<Rightarrow> n)"

definition sendable :: "mailbox_row list \<Rightarrow> relabel \<Rightarrow> bool" where
  "sendable rows r =
     list_all (\<lambda>label. case label_bytes label of None \<Rightarrow> False | Some n \<Rightarrow> fits n)
       (labels_of rows (r_add r) @ labels_of rows (r_remove r))"

subsection \<open>What an edit does to the mailboxes\<close>

definition invalid :: "mailbox_edit \<Rightarrow> mailbox_id list \<Rightarrow> set_error" where
  "invalid e mailboxes = SInvalidProperties (bset (map (mailbox_edit_path e) mailboxes))"

definition has_role :: "mailbox_row list \<Rightarrow> mailbox_id \<Rightarrow> string \<Rightarrow> bool" where
  "has_role rows ident rl = (Option.bind (row_get rows ident) (\<lambda>r. role (facts r)) = Some rl)"

definition is_store_id :: "mailbox_row list \<Rightarrow> mailbox_id \<Rightarrow> bool" where
  "is_store_id rows ident = (case row_get rows ident of None \<Rightarrow> False | Some r \<Rightarrow> store (facts r))"

definition labels_plan ::
  "keyword_row \<Rightarrow> mailbox_edit \<Rightarrow> mailbox_row list \<Rightarrow> mailbox_id list \<Rightarrow> mailbox_id list \<Rightarrow> set_error + plan" where
  "labels_plan row e rows entering leaving =
     (let all_mail = (\<lambda>ident. has_role rows ident ALL_MAIL_ROLE);
          stores = filter (is_store_id rows) entering;
          r = \<lparr>r_add = filter (\<lambda>i. \<not> is_store_id rows i) entering,
               r_remove = filter (\<lambda>i. \<not> is_store_id rows i) leaving\<rparr>;
          added = invalid e (r_add r);
          here = kr_folder row
      in case stores of
           _ # _ # _ \<Rightarrow> Inl (invalid e stores)
         | [target] \<Rightarrow>
             if all_mail target then Inr (PMove target (Some r))
             else if r_add r \<noteq> [] then Inl added
             else Inr (PMove target None)
         | [] \<Rightarrow>
             if all_mail here \<and> here \<in> set leaving then Inl (invalid e [here])
             else if all_mail here \<and> r = relabel_default then Inr Nothing
             else if all_mail here then Inr (PLabels r)
             else if here \<in> set leaving \<and> r_add r = [] then Inl (invalid e leaving)
             else if here \<in> set leaving then
               (case List.find (\<lambda>mb. store (facts mb) \<and> all_mail (row_id mb)) rows of
                  None \<Rightarrow> Inl SServerUnavailable
                | Some target \<Rightarrow> Inr (PMove (row_id target) (Some r)))
             else if r_add r = [] then Inr Nothing
             else Inl added)"

definition mailboxes_plan ::
  "keyword_row \<Rightarrow> mailbox_edit \<Rightarrow> mailbox_row list \<Rightarrow> bool \<Rightarrow> set_error + plan" where
  "mailboxes_plan row e rows labeled =
     (let known = (\<lambda>ident. case row_get rows ident of None \<Rightarrow> False | Some r \<Rightarrow> selectable (facts r));
          unknown = filter (\<lambda>ident. \<not> known ident) (m_add e @ m_remove e);
          current = bset (kr_mailboxes row);
          add = bset (m_add e);
          remove = (if m_whole e then filter (\<lambda>i. i \<notin> set add) current else bset (m_remove e));
          entering = filter (\<lambda>i. i \<notin> set current) add;
          leaving = filter (\<lambda>i. i \<in> set current) remove;
          result = bset (filter (\<lambda>i. i \<notin> set leaving) current @ entering)
      in if unknown \<noteq> [] then Inl (invalid e unknown)
         else if labeled then
           and_then (labels_plan row e rows entering leaving) (\<lambda>plan.
             case plan_relabel plan of
               Some r \<Rightarrow> if \<not> sendable rows r then Inl SServerFail else Inr plan
             | None \<Rightarrow> Inr plan)
         else case result of
                [] \<Rightarrow> Inl (invalid e leaving)
              | [to] \<Rightarrow> if result \<noteq> current then Inr (PMove to None) else Inr Nothing
              | _ \<Rightarrow> Inl STooManyMailboxes)"

definition expect :: "keyword_row \<Rightarrow> patch \<Rightarrow> expected" where
  "expect row p =
     \<lparr>x_mailboxes =
        (case p_mailboxes p of
           None \<Rightarrow> bset (kr_mailboxes row)
         | Some e \<Rightarrow>
             bset (filter (\<lambda>i. i \<notin> set (m_remove e)) (if m_whole e then [] else bset (kr_mailboxes row)) @ m_add e)),
      x_keywords =
        foldl (\<lambda>m k. bt_insert k True m)
          (foldl (\<lambda>m k. bt_remove k m)
             (if e_whole (p_keywords p) then [] else kr_keywords row) (e_clear (p_keywords p)))
          (e_set (p_keywords p))\<rparr>"

subsection \<open>Rights\<close>

definition may_do :: "work \<Rightarrow> mailbox_id \<Rightarrow> right \<Rightarrow> bool" where
  "may_do w folder right = allows (w_letters w folder) right"

definition may_relabel :: "work \<Rightarrow> relabel \<Rightarrow> bool" where
  "may_relabel w r \<longleftrightarrow>
     list_all (\<lambda>i. may_do w i AddItems) (r_add r) \<and> list_all (\<lambda>i. may_do w i RemoveItems) (r_remove r)"

definition permitted :: "work \<Rightarrow> keyword_row \<Rightarrow> string list \<Rightarrow> plan \<Rightarrow> bool" where
  "permitted w row changed plan \<longleftrightarrow>
     list_all (\<lambda>k. may_do w (kr_folder row) (if k = SEEN then SetSeen else SetKeywords)) changed \<and>
     (case plan of
        Nothing \<Rightarrow> True
      | PLabels r \<Rightarrow> may_relabel w r
      | PMove to thn \<Rightarrow> may_do w (kr_folder row) RemoveItems \<and> may_do w to AddItems \<and>
          (case thn of None \<Rightarrow> True | Some r \<Rightarrow> may_relabel w r))"

definition is_draft :: "keyword_row \<Rightarrow> mailbox_row list \<Rightarrow> bool" where
  "is_draft row rows = list_ex (\<lambda>mb. has_role rows mb DRAFTS_ROLE) (kr_mailboxes row)"

subsection \<open>One update and one destroy\<close>

definition folder_entry :: "work \<Rightarrow> mailbox_id \<Rightarrow> folder_work" where
  "folder_entry w folder = (case bt_get (w_folders w) folder of None \<Rightarrow> folder_default | Some f \<Rightarrow> f)"

definition join_parts :: "folder_work \<Rightarrow> edit \<Rightarrow> string list \<Rightarrow> plan \<Rightarrow> set_member \<Rightarrow> folder_work" where
  "join_parts f e rm plan m =
     (let f = (if e_set e = [] \<and> rm = [] then f else f\<lparr>f_keywords := join_kw (f_keywords f) e rm m\<rparr>)
      in case plan of
           Nothing \<Rightarrow> f
         | PLabels r \<Rightarrow> f\<lparr>f_labels := join_labels (f_labels f) r m\<rparr>
         | PMove to thn \<Rightarrow> f\<lparr>f_moves := join_move (f_moves f) to thn m\<rparr>)"

definition part_count :: "edit \<Rightarrow> string list \<Rightarrow> plan \<Rightarrow> nat" where
  "part_count e rm plan = (if e_set e = [] \<and> rm = [] then 0 else 1) + (if plan = Nothing then 0 else 1)"

definition set_left :: "work \<Rightarrow> nat \<Rightarrow> nat \<Rightarrow> tally list" where
  "set_left w index n = (w_tallies w)[index := (w_tallies w ! index)\<lparr>t_left := n\<rparr>]"

definition update_one :: "work \<Rightarrow> nat \<Rightarrow> keyword_row option \<Rightarrow> patch \<Rightarrow> bool \<Rightarrow> set_error + work" where
  "update_one w index found p labeled =
     and_then (ok_or SNotFound found) (\<lambda>row.
     and_then (ok_or SServerUnavailable (kr_uid row)) (\<lambda>uid.
     let rm = removed (p_keywords p) row
     in and_then (case p_mailboxes p of Some e \<Rightarrow> mailboxes_plan row e (w_rows w) labeled | None \<Rightarrow> Inr Nothing) (\<lambda>plan.
        if e_set (p_keywords p) = [] \<and> rm = [] \<and> plan = Nothing then Inr w
        else if \<not> permitted w row (e_set (p_keywords p) @ rm) plan then Inl SForbidden
        else
          let m = \<lparr>mem_index = index, mem_id = kr_id row, mem_uid = uid\<rparr>;
              f = join_parts (folder_entry w (kr_folder row)) (p_keywords p) rm plan m
          in Inr (w\<lparr>w_folders := bt_insert (kr_folder row) f (w_folders w),
                    w_tallies := set_left w index (part_count (p_keywords p) rm plan)\<rparr>))))"

definition destroy_one :: "work \<Rightarrow> nat \<Rightarrow> keyword_row option \<Rightarrow> bool \<Rightarrow> set_error + work" where
  "destroy_one w index found labeled =
     and_then (ok_or SNotFound found) (\<lambda>row.
     and_then (ok_or SServerUnavailable (kr_uid row)) (\<lambda>uid.
     if \<not> may_do w (kr_folder row) RemoveItems then Inl SForbidden
     else
       let rl = Option.bind (row_get (w_rows w) (kr_folder row)) (\<lambda>f. role (facts f));
           trash = (labeled \<and> \<not> (case rl of None \<Rightarrow> False | Some x \<Rightarrow> x \<in> set DESTROYABLE_ROLES))
       in if trash \<and> \<not> is_draft row (w_rows w) then Inl SForbidden
          else
            let m = \<lparr>mem_index = index, mem_id = kr_id row, mem_uid = uid\<rparr>;
                f = folder_entry w (kr_folder row);
                f = (if trash then f\<lparr>f_trashes := f_trashes f @ [m]\<rparr> else f\<lparr>f_destroys := f_destroys f @ [m]\<rparr>)
            in Inr (w\<lparr>w_folders := bt_insert (kr_folder row) f (w_folders w),
                      w_tallies := set_left w index 1\<rparr>)))"

definition or_failed :: "work \<Rightarrow> nat \<Rightarrow> set_error + work \<Rightarrow> work" where
  "or_failed w index r =
     (case r of
        Inr w' \<Rightarrow> w'
      | Inl e \<Rightarrow> w\<lparr>w_tallies := (w_tallies w)[index := (w_tallies w ! index)\<lparr>t_failed := Some e\<rparr>]\<rparr>)"

fun plan_updates :: "work \<Rightarrow> (string \<Rightarrow> keyword_row option) \<Rightarrow> bool \<Rightarrow> nat \<Rightarrow> (string \<times> patch) list \<Rightarrow> work" where
  "plan_updates w row_of labeled index [] = w"
| "plan_updates w row_of labeled index ((ident, p) # us) =
     plan_updates (or_failed w index (update_one w index (row_of ident) p labeled)) row_of labeled (index + 1) us"

fun plan_destroys :: "work \<Rightarrow> (string \<Rightarrow> keyword_row option) \<Rightarrow> bool \<Rightarrow> nat \<Rightarrow> string list \<Rightarrow> work" where
  "plan_destroys w row_of labeled index [] = w"
| "plan_destroys w row_of labeled index (ident # ds) =
     plan_destroys (or_failed w index (destroy_one w index (row_of ident) labeled)) row_of labeled (index + 1) ds"

definition tally_default :: tally where
  "tally_default = \<lparr>t_left = 0, t_failed = None\<rparr>"

definition is_labeled :: "mailbox_row list \<Rightarrow> bool" where
  "is_labeled rows = list_ex (\<lambda>r. gmail_label (facts r) \<noteq> None) rows"

definition work_start :: "set_ask \<Rightarrow> nat \<Rightarrow> mailbox_row list \<Rightarrow> (mailbox_id \<Rightarrow> string option) \<Rightarrow> work" where
  "work_start ask state rows letters =
     \<lparr>w_folders = [], w_rows = rows, w_letters = letters, w_found = [],
      w_tallies = replicate (length (updates ask) + length (destroy_ids ask)) tally_default,
      w_stored = \<lparr>sw_gmail = is_labeled rows, sw_keywords = [], sw_labels = [], sw_moves = [], sw_gone = [], sw_lost = []\<rparr>,
      w_restores = [], w_moving = \<lparr>move_command = False, uidplus = False\<rparr>, w_state = state\<rparr>"

definition planned ::
  "set_ask \<Rightarrow> nat \<Rightarrow> keyword_row list \<Rightarrow> mailbox_row list \<Rightarrow> (mailbox_id \<Rightarrow> string option)
     \<Rightarrow> (work \<times> expected option list) option" where
  "planned ask state found rows letters =
     (if (case if_in_state ask of None \<Rightarrow> False | Some named \<Rightarrow> named \<noteq> digits state) then None
      else
        let labeled = is_labeled rows;
            row_of = (\<lambda>ident. List.find (\<lambda>r. kr_id r = ident) found);
            w = work_start ask state rows letters;
            w = plan_updates w row_of labeled 0 (updates ask);
            w = plan_destroys w row_of labeled (length (updates ask)) (destroy_ids ask)
        in Some (w\<lparr>w_found := found\<rparr>, map (\<lambda>(ident, p). map_option (\<lambda>row. expect row p) (row_of ident)) (updates ask)))"

end
