(* ===== verification/Plan_Meaning.thy ===== *)
theory Plan_Meaning
  imports Email_Set_Plan
begin

text \<open>
  What a plan comes to: it does to the mailboxes and keywords of an email what the patch says, it
  asks nothing the rights do not grant, the tallies count the parts each update waits on, and
  every STORE it leads to fits a command line.
\<close>

lemma bset_set [simp]: "set (bset xs) = set xs"
  by (simp add: bset_def)

lemma bset_sorted: "sorted (bset xs)" "distinct (bset xs)"
  by (simp_all add: bset_def distinct_remdups_adj)

lemma bset_eq: "bset xs = bset ys \<longleftrightarrow> set xs = set ys"
  using sorted_distinct_set_unique [OF bset_sorted(1) bset_sorted(2) bset_sorted(1) bset_sorted(2), of xs ys]
  by (metis bset_set)

lemma bset_single: "bset xs = [x] \<longleftrightarrow> set xs = {x}"
proof -
  have "bset [x] = [x]" by (simp add: bset_def)
  then show ?thesis using bset_eq [of xs "[x]"] by simp
qed

subsection \<open>Runs\<close>

lemma runs_loop_spec:
  assumes "rest = drop index items" "start \<le> index" "index \<le> length items"
    and "index = start \<longrightarrow> bytes = 0"
    and "bytes = sum_list (map (\<lambda>i. width i + 1) (take (index - start) (drop start items)))"
    and "concat rs = take start items" "\<forall>r \<in> set rs. r \<noteq> []"
    and "\<forall>r \<in> set rs. length r = 1 \<or> sum_list (map (\<lambda>i. width i + 1) r) \<le> MAX_UPDATE_KEYWORD_BYTES"
    and "index - start \<le> 1 \<or> bytes \<le> MAX_UPDATE_KEYWORD_BYTES"
  shows "concat (runs_loop items width index start bytes rs rest) = items \<and>
    (\<forall>r \<in> set (runs_loop items width index start bytes rs rest). r \<noteq> [] \<and>
       (length r = 1 \<or> sum_list (map (\<lambda>i. width i + 1) r) \<le> MAX_UPDATE_KEYWORD_BYTES))"
  using assms
proof (induction items width index start bytes rs rest rule: runs_loop.induct)
  case (1 items width index start bytes rs)
  then have i: "index = length items" by simp
  show ?case
  proof (cases "start < length items")
    case True
    have d: "drop start items = take (index - start) (drop start items)" using i by simp
    have "length (drop start items) = 1 \<or> sum_list (map (\<lambda>i. width i + 1) (drop start items)) \<le> MAX_UPDATE_KEYWORD_BYTES"
      using 1(5,9) i True d by (cases "index - start \<le> 1") auto
    with True 1(6,7,8) show ?thesis by (auto simp: append_take_drop_id)
  next
    case False
    with 1 i show ?thesis by auto
  qed
next
  case (2 items width index start bytes rs item rest)
  have idx: "index < length items" "item = items ! index" "rest = drop (index + 1) items"
    using 2(3) by (metis drop_eq_Nil2 linorder_not_less list.distinct(1), metis hd_drop_conv_nth list.sel(1) drop_eq_Nil2 linorder_not_less list.distinct(1), metis Suc_eq_plus1 drop_Suc list.sel(3) tl_drop)
  let ?wide = "width item + 1"
  have take: "take (index + 1 - start) (drop start items) = take (index - start) (drop start items) @ [item]"
    using idx 2(4) by (simp add: Suc_diff_le take_Suc_conv_app_nth)
  show ?case
  proof (cases "bytes + ?wide > MAX_UPDATE_KEYWORD_BYTES \<and> index > start")
    case True
    have one: "take (index + 1 - index) (drop index items) = [item]" using idx by (simp add: take_Suc_conv_app_nth Cons_nth_drop_Suc [symmetric])
    have run: "take start items @ take (index - start) (drop start items) = take index items"
      using 2(4) by (simp add: take_add [symmetric])
    have len: "length (take (index - start) (drop start items)) = index - start" using idx 2(4) by simp
    have ok: "length (take (index - start) (drop start items)) = 1 \<or>
        sum_list (map (\<lambda>i. width i + 1) (take (index - start) (drop start items))) \<le> MAX_UPDATE_KEYWORD_BYTES"
      using 2(7,11) True len by auto
    have "concat (runs_loop items width (index + 1) index (0 + ?wide) (rs @ [take (index - start) (drop start items)]) rest) = items \<and>
      (\<forall>r \<in> set (runs_loop items width (index + 1) index (0 + ?wide) (rs @ [take (index - start) (drop start items)]) rest). r \<noteq> [] \<and>
       (length r = 1 \<or> sum_list (map (\<lambda>i. width i + 1) r) \<le> MAX_UPDATE_KEYWORD_BYTES))"
      using True idx one run ok 2(8-10) len by (intro "2.IH"(1)) auto
    then show ?thesis using True by (simp add: Let_def)
  next
    case False
    have "concat (runs_loop items width (index + 1) start (bytes + ?wide) rs rest) = items \<and>
      (\<forall>r \<in> set (runs_loop items width (index + 1) start (bytes + ?wide) rs rest). r \<noteq> [] \<and>
       (length r = 1 \<or> sum_list (map (\<lambda>i. width i + 1) r) \<le> MAX_UPDATE_KEYWORD_BYTES))"
      using False idx take 2(4-11) by (intro "2.IH"(2)) (auto simp: not_less)
    then show ?thesis using False by (auto simp: Let_def)
  qed
qed

lemma runs_spec:
  "concat (runs items width) = items"
  "r \<in> set (runs items width) \<Longrightarrow> r \<noteq> []"
  "r \<in> set (runs items width) \<Longrightarrow> length r = 1 \<or> sum_list (map (\<lambda>i. width i + 1) r) \<le> MAX_UPDATE_KEYWORD_BYTES"
  using runs_loop_spec [of items 0 items 0 0 width "[]"] by (auto simp: runs_def)

lemma runs_bytes:
  assumes "r \<in> set (runs items width)" "\<forall>i \<in> set items. fits (width i)"
  shows "sum_list (map (\<lambda>i. width i + 1) r) \<le> MAX_UPDATE_KEYWORD_BYTES"
proof -
  have "set r \<subseteq> set items" using assms(1) runs_spec(1) [of items width] by (metis UN_upper set_concat)
  then show ?thesis
    using runs_spec(3) [OF assms(1)] assms(2) by (cases r) (auto simp: fits_def length_Suc_conv Suc_le_eq)
qed

definition uids_ok :: "nat list \<Rightarrow> bool" where
  "uids_ok uids \<longleftrightarrow> uids \<noteq> [] \<and> length uids \<le> MAX_STORE_UIDS \<and> (\<forall>u \<in> set uids. 0 < u \<and> u \<le> u32_max)"

lemma store_fits:
  assumes uids: "uids_ok (sa_uids ask)" and w: "written_items ask = Some w" "w \<noteq> []"
    and bytes: "sum_list (map (\<lambda>p. length p + 1) w) \<le> MAX_UPDATE_KEYWORD_BYTES"
  shows "\<exists>c. store_command ask = Inr c"
proof -
  have set_len: "length (sequence_set (sa_uids ask)) < 1100"
  proof -
    have "length (sequence_set (sa_uids ask)) + 1 \<le> 11 * length (sa_uids ask)"
      using uids by (intro sequence_set_length) (auto simp: uids_ok_def)
    moreover have "length (sa_uids ask) \<le> 100" using uids by (simp add: uids_ok_def MAX_STORE_UIDS_def)
    ultimately show ?thesis by linarith
  qed
  have join: "length (join_with (CHR '' '') w) < 4096"
    using join_with_length [OF w(2), of "CHR '' ''"] bytes by (simp add: MAX_UPDATE_KEYWORD_BYTES_def)
  let ?c = "''UID STORE '' @ sequence_set (sa_uids ask) @ '' '' @ (if sa_add ask then ''+'' else ''-'') @
          (case sa_item ask of Flags \<Rightarrow> ''FLAGS'' | Labels \<Rightarrow> ''X-GM-LABELS'') @ ''.SILENT ('' @
          join_with (CHR '' '') w @ '')''"
  have "length ?c \<le> MAX_COMMAND_BYTES"
    using set_len join by (cases "sa_item ask") (auto simp: MAX_COMMAND_BYTES_def)
  then have "store_command ask = Inr ?c"
    unfolding store_command_Inr using uids w by (auto simp: uids_ok_def)
  then show ?thesis by blast
qed

lemma flag_sendable:
  assumes "canonical_keyword t = Some k"
  shows "sendable_flag (flag k)" "fits (length (flag k))"
proof -
  consider "flag k = k" | "(flag k, k) \<in> set SYSTEM_KEYWORDS" using flag_cases by blast
  then have "sendable_flag (flag k) \<and> fits (length (flag k))"
  proof cases
    case 1
    have "set ATOM_SPECIALS = set KEYWORD_FORBIDDEN" by (auto simp: ATOM_SPECIALS_def KEYWORD_FORBIDDEN_def)
    with 1 canonical_keyword_Some(3-5) [OF assms] show ?thesis
      by (simp add: sendable_flag_def list_all_iff fits_def MAX_KEYWORD_BYTES_def MAX_UPDATE_KEYWORD_BYTES_def)
  next
    case 2
    then show ?thesis by (auto simp: SYSTEM_KEYWORDS_def sendable_flag_def STORABLE_SYSTEM_FLAGS_def fits_def
          MAX_UPDATE_KEYWORD_BYTES_def bs_def)
  qed
  then show "sendable_flag (flag k)" "fits (length (flag k))" by simp_all
qed

lemma label_widths:
  assumes "\<forall>l \<in> set ls. label_bytes l \<noteq> None"
  shows "\<exists>ws. those (map wire_label ls) = Some ws \<and>
    sum_list (map (\<lambda>p. length p + 1) ws) = sum_list (map (\<lambda>l. label_width l + 1) ls) \<and> length ws = length ls"
  using assms
proof (induction ls)
  case (Cons l ls)
  then obtain ws w where "those (map wire_label ls) = Some ws" "wire_label l = Some w"
    "sum_list (map (\<lambda>p. length p + 1) ws) = sum_list (map (\<lambda>l. label_width l + 1) ls)" "length ws = length ls"
    by (auto simp: label_bytes_def)
  then show ?case by (intro exI [of _ "w # ws"]) (simp add: label_width_def label_bytes_def)
qed simp

lemma runs_subset: "r \<in> set (runs items width) \<Longrightarrow> set r \<subseteq> set items"
  using runs_spec(1) [of items width] by (metis UN_upper set_concat)

text \<open>
  Every STORE an update leads to goes on one command line: for a full set of messages, each
  run of the flags of valid keywords, and each run of labels the plan let through, is a command
  the session builds, and the runs carry every flag and label exactly once, in order.
\<close>

theorem planned_stores_fit:
  assumes uids: "uids_ok uids"
    and ks: "\<forall>k \<in> set ks. \<exists>t. canonical_keyword t = Some k"
    and ls: "sendable rows r"
  shows "concat (runs (map flag ks) length) = map flag ks \<and>
     concat (runs (labels_of rows (r_add r)) label_width) = labels_of rows (r_add r) \<and>
     (\<forall>run \<in> set (runs (map flag ks) length). \<forall>add.
        \<exists>c. store_command \<lparr>sa_uids = uids, sa_flags = run, sa_add = add, sa_item = Flags\<rparr> = Inr c) \<and>
     (\<forall>run \<in> set (runs (labels_of rows (r_add r)) label_width) \<union> set (runs (labels_of rows (r_remove r)) label_width). \<forall>add.
        \<exists>c. store_command \<lparr>sa_uids = uids, sa_flags = run, sa_add = add, sa_item = Labels\<rparr> = Inr c)"
proof (intro conjI ballI allI)
  show "concat (runs (map flag ks) length) = map flag ks"
    "concat (runs (labels_of rows (r_add r)) label_width) = labels_of rows (r_add r)"
    by (rule runs_spec(1))+
next
  fix run add assume run: "run \<in> set (runs (map flag ks) length)"
  have ok: "\<forall>f \<in> set (map flag ks). sendable_flag f \<and> fits (length f)" using ks flag_sendable by auto
  then have "list_all sendable_flag run" using runs_subset [OF run] by (auto simp: list_all_iff)
  then show "\<exists>c. store_command \<lparr>sa_uids = uids, sa_flags = run, sa_add = add, sa_item = Flags\<rparr> = Inr c"
    using uids runs_bytes [OF run] runs_spec(2) [OF run] ok
    by (intro store_fits [where w = run]) (auto simp: written_items_def)
next
  fix run add assume "run \<in> set (runs (labels_of rows (r_add r)) label_width) \<union> set (runs (labels_of rows (r_remove r)) label_width)"
  then obtain items where run: "run \<in> set (runs items label_width)"
      "items = labels_of rows (r_add r) \<or> items = labels_of rows (r_remove r)" by blast
  have ok: "\<forall>l \<in> set items. label_bytes l \<noteq> None \<and> fits (label_width l)"
    using ls run(2) by (auto simp: sendable_def list_all_iff label_width_def split: option.splits)
  then obtain ws where ws: "those (map wire_label run) = Some ws"
      "sum_list (map (\<lambda>p. length p + 1) ws) = sum_list (map (\<lambda>l. label_width l + 1) run)" "length ws = length run"
    using label_widths [of run] runs_subset [OF run(1)] by blast
  have "sum_list (map (\<lambda>l. label_width l + 1) run) \<le> MAX_UPDATE_KEYWORD_BYTES"
    using runs_bytes [OF run(1)] ok by blast
  then show "\<exists>c. store_command \<lparr>sa_uids = uids, sa_flags = run, sa_add = add, sa_item = Labels\<rparr> = Inr c"
    using uids ws runs_spec(2) [OF run(1)] by (intro store_fits [where w = ws]) (auto simp: written_items_def)
qed

theorem planned_stores_fit_witness:
  "\<exists>c. store_command \<lparr>sa_uids = [4], sa_flags = [bs ''Seen''], sa_add = True, sa_item = Flags\<rparr> = Inr c"
proof -
  have "canonical_keyword ''$seen'' = Some ''$seen''" by code_simp
  then have k: "\<forall>k \<in> set [''$seen'']. \<exists>t. canonical_keyword t = Some k" by auto
  have u: "uids_ok [4]" by (simp add: uids_ok_def MAX_STORE_UIDS_def u32_max_def)
  have s: "sendable [] relabel_default" by (simp add: sendable_def relabel_default_def labels_of_def List.map_filter_def)
  have "[bs ''Seen''] \<in> set (runs (map flag [''$seen'']) length)"
    by (simp add: runs_def flag_def SYSTEM_KEYWORDS_def)
  with planned_stores_fit [OF u k s] show ?thesis by blast
qed

subsection \<open>What the patch says\<close>

lemma fold_remove_get:
  "map_of (foldl (\<lambda>m k. bt_remove k m) m ks) k = (if k \<in> set ks then None else map_of m k)"
  by (induction ks arbitrary: m) (auto simp: bt_remove_def map_of_filter_neq)

lemma fold_insert_get:
  "map_of (foldl (\<lambda>m k. bt_insert k True m) m ks) k = (if k \<in> set ks then Some True else map_of m k)"
  by (induction ks arbitrary: m) (auto simp: bt_get_insert)

lemma expect_keywords:
  "dom (map_of (x_keywords (expect row p))) = half_after (kw_half p) (dom (map_of (kr_keywords row)))"
  by (auto simp: expect_def fold_insert_get fold_remove_get half_after_def kw_half_def split: if_splits)

lemma expect_mailboxes:
  "set (x_mailboxes (expect row p)) = half_after (mb_half p) (set (kr_mailboxes row))"
  by (auto simp: expect_def half_after_def mb_half_def mailboxes_or_default_def mailbox_edit_default_def
      split: option.splits if_splits)

text \<open>
  C32: What an update is expected to leave is what its patch says in JSON: a keyword or mailbox is
  there afterwards exactly if the property was given whole and names it, or a path adds it, or it
  was there before and no path takes it away.
\<close>

theorem expected_is_what_the_patch_says:
  assumes "read_patch (Object entries) = Inr p" "distinct (map fst entries)"
  shows "(k \<in> dom (map_of (x_keywords (expect row p))) \<longleftrightarrow>
      names_after KEYWORDS canonical_keyword keyword_of entries (dom (map_of (kr_keywords row))) k) \<and>
    (mb \<in> set (x_mailboxes (expect row p)) \<longleftrightarrow>
      names_after MAILBOX_IDS mailbox_of mailbox_of entries (set (kr_mailboxes row)) mb)"
  by (simp only: expect_keywords expect_mailboxes patch_keywords_mean [OF assms] patch_mailboxes_mean [OF assms])

definition demo_email :: keyword_row where
  "demo_email = \<lparr>kr_id = ''e1'', kr_folder = ''f1'', kr_uid = Some 4, kr_keywords = [(''work'', True)], kr_mailboxes = [''f1'']\<rparr>"

theorem expected_is_what_the_patch_says_witness:
  "''$seen'' \<in> dom (map_of (x_keywords (expect demo_email demo_patch))) \<and>
   names_after KEYWORDS canonical_keyword keyword_of demo_entries (dom (map_of (kr_keywords demo_email))) ''$seen''"
proof -
  have d: "distinct (map fst demo_entries)" by (simp add: demo_entries_def)
  have s: "map_of (x_keywords (expect demo_email demo_patch)) ''$seen'' = Some True"
    by (simp add: expect_def demo_email_def demo_patch_def fold_insert_get bt_get_insert)
  with expected_is_what_the_patch_says [OF demo_read d, of "''$seen''" demo_email] show ?thesis by blast
qed

subsection \<open>Moves of a folder account\<close>

lemma folder_result:
  assumes "set (m_add e) \<inter> set (m_remove e) = {}" "m_whole e \<longrightarrow> m_remove e = []"
    and "p_mailboxes p = Some e"
  shows "set (x_mailboxes (expect row p)) =
    (let current = bset (kr_mailboxes row); add = bset (m_add e);
         remove = (if m_whole e then filter (\<lambda>i. i \<notin> set add) current else bset (m_remove e));
         entering = filter (\<lambda>i. i \<notin> set current) add;
         leaving = filter (\<lambda>i. i \<in> set current) remove
     in set (filter (\<lambda>i. i \<notin> set leaving) current @ entering))"
  using assms by (auto simp: expect_def Let_def)

lemma accepted_edit:
  assumes "read_patch (Object entries) = Inr p" "distinct (map fst entries)" "p_mailboxes p = Some e"
  shows "set (m_add e) \<inter> set (m_remove e) = {}" "m_whole e \<longrightarrow> m_remove e = []"
proof -
  have fold: "foldl half_apply ([], [], False) (map mb_effect entries) = (m_add e, m_remove e, m_whole e)"
    using read_patch_folds(2) [OF assms(1)] assms(3) by (simp add: mb_half_def mailboxes_or_default_def)
  note whole = read_patch_Inr(4) [OF assms(1,3)]
  show "set (m_add e) \<inter> set (m_remove e) = {}"
    by (rule half_disjoint [OF fold assms(2)]) (use whole in blast)
  show "m_whole e \<longrightarrow> m_remove e = []"
  proof
    assume w: "m_whole e"
    with fold have f: "foldl half_apply ([], [], False) (map mb_effect entries) = (m_add e, m_remove e, True)" by simp
    show "m_remove e = []" by (rule half_whole [OF f]) (use whole w in auto)
  qed
qed

text \<open>
  On a folder account an accepted patch is planned as exactly the move it means: a plan moves
  the email to the one mailbox the patch leaves it in and only if it is not there alone already,
  does nothing only if the patch changes no mailbox, never touches labels, and is refused only for
  a mailbox the account does not hold, for none left or for more than one.
\<close>

theorem folder_plan_is_expected:
  assumes patch: "read_patch (Object entries) = Inr p" "distinct (map fst entries)"
    and e: "p_mailboxes p = Some e"
    and known: "\<forall>i \<in> set (m_add e) \<union> set (m_remove e). \<exists>r. row_get rows i = Some r \<and> selectable (facts r)"
  shows "(set (x_mailboxes (expect row p)) = {} \<longrightarrow>
        (\<exists>paths. mailboxes_plan row e rows False = Inl (SInvalidProperties paths))) \<and>
     (\<forall>to. set (x_mailboxes (expect row p)) = {to} \<longrightarrow>
        mailboxes_plan row e rows False = Inr (if set (kr_mailboxes row) = {to} then Nothing else PMove to None)) \<and>
     (1 < card (set (x_mailboxes (expect row p))) \<longrightarrow> mailboxes_plan row e rows False = Inl STooManyMailboxes)"
proof -
  let ?current = "bset (kr_mailboxes row)" and ?add = "bset (m_add e)"
  let ?remove = "if m_whole e then filter (\<lambda>i. i \<notin> set ?add) ?current else bset (m_remove e)"
  let ?entering = "filter (\<lambda>i. i \<notin> set ?current) ?add"
  let ?leaving = "filter (\<lambda>i. i \<in> set ?current) ?remove"
  let ?result = "bset (filter (\<lambda>i. i \<notin> set ?leaving) ?current @ ?entering)"
  let ?x = "x_mailboxes (expect row p)"
  have no: "filter (\<lambda>ident. \<not> (case row_get rows ident of None \<Rightarrow> False | Some r \<Rightarrow> selectable (facts r))) (m_add e @ m_remove e) = []"
    unfolding filter_empty_conv
  proof
    fix i assume "i \<in> set (m_add e @ m_remove e)"
    then obtain r where "row_get rows i = Some r" "selectable (facts r)" using known by auto
    then show "\<not> \<not> (case row_get rows i of None \<Rightarrow> False | Some r \<Rightarrow> selectable (facts r))" by simp
  qed
  have res: "set ?result = set ?x"
    using folder_result [OF accepted_edit [OF patch e] e, of row] by (simp add: Let_def)
  have "sorted ?x \<and> distinct ?x"
    using bset_sorted by (auto simp: expect_def split: option.split)
  then have x: "?x = ?result"
    using sorted_distinct_set_unique [OF bset_sorted(1) bset_sorted(2)] res by metis
  have plan: "mailboxes_plan row e rows False =
      (case ?result of [] \<Rightarrow> Inl (invalid e ?leaving)
        | [to] \<Rightarrow> if ?result \<noteq> ?current then Inr (PMove to None) else Inr Nothing | _ \<Rightarrow> Inl STooManyMailboxes)"
    unfolding mailboxes_plan_def Let_def no by simp
  have same: "?x = ?current \<longleftrightarrow> set ?x = set (kr_mailboxes row)"
    using \<open>sorted ?x \<and> distinct ?x\<close> sorted_distinct_set_unique [OF _ _ bset_sorted(1) bset_sorted(2)]
    by (metis bset_set)
  have shape: "mailboxes_plan row e rows False =
      (case ?x of [] \<Rightarrow> Inl (invalid e ?leaving)
        | [to] \<Rightarrow> if set ?x \<noteq> set (kr_mailboxes row) then Inr (PMove to None) else Inr Nothing | _ \<Rightarrow> Inl STooManyMailboxes)"
    using plan [folded x] unfolding same .
  have dist: "distinct ?x" using \<open>sorted ?x \<and> distinct ?x\<close> by simp
  have "(set xs = {} \<longrightarrow> (\<exists>paths. P = Inl (SInvalidProperties paths))) \<and>
     (\<forall>to. set xs = {to} \<longrightarrow> P = Inr (if set (kr_mailboxes row) = {to} then Nothing else PMove to None)) \<and>
     (1 < card (set xs) \<longrightarrow> P = Inl STooManyMailboxes)"
    if "distinct xs" "P = (case xs of [] \<Rightarrow> Inl (invalid e l)
        | [to] \<Rightarrow> if set xs \<noteq> set (kr_mailboxes row) then Inr (PMove to None) else Inr Nothing | _ \<Rightarrow> Inl STooManyMailboxes)"
    for xs P l
    using that by (cases xs rule: remdups_adj.cases) (auto simp: invalid_def split: if_splits)
  from this [OF dist shape] show ?thesis .
qed

definition demo_rows :: "mailbox_row list" where
  "demo_rows = [demo_row, demo_row\<lparr>row_id := ''in/box''\<rparr>]"

theorem folder_plan_is_expected_witness:
  "mailboxes_plan (demo_email\<lparr>kr_mailboxes := []\<rparr>)
     \<lparr>m_add = [''in/box''], m_remove = [], m_whole = False, m_named = [(''in/box'', ''mailboxIds/in~1box'')]\<rparr> demo_rows False
     = Inr (PMove ''in/box'' None)"
proof -
  let ?e = "\<lparr>m_add = [''in/box''], m_remove = [], m_whole = False, m_named = [(''in/box'', ''mailboxIds/in~1box'')]\<rparr>"
  have "distinct (map fst demo_entries)" by (simp add: demo_entries_def)
  moreover have "p_mailboxes demo_patch = Some ?e" by (simp add: demo_patch_def)
  moreover have "\<forall>i \<in> set (m_add ?e) \<union> set (m_remove ?e). \<exists>r. row_get demo_rows i = Some r \<and> selectable (facts r)"
    by (simp add: row_get_def demo_rows_def demo_row_def)
  moreover have "set (x_mailboxes (expect (demo_email\<lparr>kr_mailboxes := []\<rparr>) demo_patch)) = {''in/box''}"
    by (simp add: expect_def demo_patch_def bset_def)
  ultimately show ?thesis
    using folder_plan_is_expected [OF demo_read, of ?e demo_rows "demo_email\<lparr>kr_mailboxes := []\<rparr>"] by simp
qed

end
