(* ===== verification/Plan_Work.thy ===== *)
theory Plan_Work
  imports Plan_Meaning
begin

text \<open>
  The work a plan leaves behind: everything in it is a write the letters of the folders grant, and
  the tally of every update and destroy counts exactly the groups its email waits in.
\<close>

subsection \<open>Rights\<close>

definition folder_permitted :: "(mailbox_id \<Rightarrow> string option) \<Rightarrow> mailbox_id \<Rightarrow> folder_work \<Rightarrow> bool" where
  "folder_permitted letters folder f \<longleftrightarrow>
     (\<forall>g \<in> set (f_keywords f). \<forall>k \<in> set (e_set (kg_edit g)) \<union> set (kg_remove g).
        allows (letters folder) (if k = SEEN then SetSeen else SetKeywords)) \<and>
     (\<forall>r \<in> lg_relabel ` set (f_labels f) \<union> {r. \<exists>g \<in> set (f_moves f). mg_then g = Some r}.
        (\<forall>i \<in> set (r_add r). allows (letters i) AddItems) \<and> (\<forall>i \<in> set (r_remove r). allows (letters i) RemoveItems)) \<and>
     (\<forall>g \<in> set (f_moves f). allows (letters folder) RemoveItems \<and> allows (letters (mg_to g)) AddItems) \<and>
     (f_destroys f @ f_trashes f \<noteq> [] \<longrightarrow> allows (letters folder) RemoveItems)"

definition work_permitted :: "work \<Rightarrow> bool" where
  "work_permitted w \<longleftrightarrow> (\<forall>(folder, f) \<in> set (w_folders w). folder_permitted (w_letters w) folder f)"

lemma folder_default_permitted: "folder_permitted letters folder folder_default"
  by (simp add: folder_permitted_def folder_default_def)

lemma bt_insert_subset: "set (bt_insert k v m) \<subseteq> insert (k, v) (set m)"
  by (induction k v m rule: bt_insert.induct) auto

lemma folder_entry_permitted: "work_permitted w \<Longrightarrow> folder_permitted (w_letters w) folder (folder_entry w folder)"
  by (auto simp: folder_entry_def work_permitted_def folder_default_permitted split: option.split dest!: map_of_SomeD)

lemma insert_permitted:
  assumes "work_permitted w" "folder_permitted (w_letters w) folder f"
  shows "work_permitted (w\<lparr>w_folders := bt_insert folder f (w_folders w), w_tallies := t\<rparr>)"
  using assms bt_insert_subset [of folder f "w_folders w"] by (fastforce simp: work_permitted_def)

lemma join_kw_in: "g \<in> set (join_kw gs e rm m) \<Longrightarrow>
    (kg_edit g = e \<and> kg_remove g = rm) \<or> (\<exists>h \<in> set gs. kg_edit g = kg_edit h \<and> kg_remove g = kg_remove h)"
  by (induction gs) (auto split: if_splits)

lemma join_labels_in: "g \<in> set (join_labels gs r m) \<Longrightarrow> lg_relabel g = r \<or> (\<exists>h \<in> set gs. lg_relabel g = lg_relabel h)"
  by (induction gs) (auto split: if_splits)

lemma join_move_in: "g \<in> set (join_move gs to thn m) \<Longrightarrow>
    (mg_to g = to \<and> mg_then g = thn) \<or> (\<exists>h \<in> set gs. mg_to g = mg_to h \<and> mg_then g = mg_then h)"
  by (induction gs) (auto split: if_splits)

lemma keyword_part_permitted:
  assumes "folder_permitted letters folder f"
    and "\<forall>k \<in> set (e_set e) \<union> set rm. allows (letters folder) (if k = SEEN then SetSeen else SetKeywords)"
  shows "folder_permitted letters folder (f\<lparr>f_keywords := join_kw (f_keywords f) e rm m\<rparr>)"
proof -
  have "allows (letters folder) (if k = SEEN then SetSeen else SetKeywords)"
    if "g \<in> set (join_kw (f_keywords f) e rm m)" "k \<in> set (e_set (kg_edit g)) \<union> set (kg_remove g)" for g k
  proof -
    have "\<forall>h \<in> set (f_keywords f). \<forall>k \<in> set (e_set (kg_edit h)) \<union> set (kg_remove h).
        allows (letters folder) (if k = SEEN then SetSeen else SetKeywords)"
      using assms(1) by (simp add: folder_permitted_def)
    with join_kw_in [OF that(1)] that(2) assms(2) show ?thesis by metis
  qed
  then show ?thesis using assms(1) by (simp add: folder_permitted_def)
qed

lemma labels_part_permitted:
  assumes "folder_permitted letters folder f"
    and "\<forall>i \<in> set (r_add r). allows (letters i) AddItems" "\<forall>i \<in> set (r_remove r). allows (letters i) RemoveItems"
  shows "folder_permitted letters folder (f\<lparr>f_labels := join_labels (f_labels f) r m\<rparr>)"
proof -
  have "(\<forall>i \<in> set (r_add q). allows (letters i) AddItems) \<and> (\<forall>i \<in> set (r_remove q). allows (letters i) RemoveItems)"
    if "q \<in> lg_relabel ` set (join_labels (f_labels f) r m)" for q
    using that assms by (auto simp: folder_permitted_def dest!: join_labels_in)
  then show ?thesis using assms(1) by (auto simp: folder_permitted_def)
qed

lemma moves_part_permitted:
  assumes "folder_permitted letters folder f" "allows (letters folder) RemoveItems" "allows (letters to) AddItems"
    and "\<forall>r. thn = Some r \<longrightarrow> (\<forall>i \<in> set (r_add r). allows (letters i) AddItems) \<and> (\<forall>i \<in> set (r_remove r). allows (letters i) RemoveItems)"
  shows "folder_permitted letters folder (f\<lparr>f_moves := join_move (f_moves f) to thn m\<rparr>)"
proof -
  have "allows (letters folder) RemoveItems \<and> allows (letters (mg_to g)) AddItems \<and>
     (\<forall>r. mg_then g = Some r \<longrightarrow> (\<forall>i \<in> set (r_add r). allows (letters i) AddItems) \<and> (\<forall>i \<in> set (r_remove r). allows (letters i) RemoveItems))"
    if "g \<in> set (join_move (f_moves f) to thn m)" for g
    using join_move_in [OF that] assms by (fastforce simp: folder_permitted_def)
  then show ?thesis using assms(1) by (auto simp: folder_permitted_def)
qed

lemma or_failed_permitted: "work_permitted w \<Longrightarrow> (\<And>w'. r = Inr w' \<Longrightarrow> work_permitted w') \<Longrightarrow> work_permitted (or_failed w index r)"
  by (auto simp: or_failed_def work_permitted_def split: sum.split)

text \<open>An update that goes into the work, taken apart.\<close>

lemma ok_or_Inr_eq: "ok_or e x = Inr a \<longleftrightarrow> x = Some a"
  by (cases x) auto

lemma update_one_Inr:
  assumes "update_one w index found p labeled = Inr w'"
  obtains (nothing) "w' = w"
  | (parts) row uid plan rm where "found = Some row" "kr_uid row = Some uid" "rm = removed (p_keywords p) row"
      "permitted w row (e_set (p_keywords p) @ rm) plan"
      "w' = w\<lparr>w_folders := bt_insert (kr_folder row)
              (join_parts (folder_entry w (kr_folder row)) (p_keywords p) rm plan
                 \<lparr>mem_index = index, mem_id = kr_id row, mem_uid = uid\<rparr>) (w_folders w),
            w_tallies := set_left w index (part_count (p_keywords p) rm plan)\<rparr>"
proof -
  from assms obtain row uid plan where u: "found = Some row" "kr_uid row = Some uid"
    and w': "(if e_set (p_keywords p) = [] \<and> removed (p_keywords p) row = [] \<and> plan = Nothing then Inr w
        else if \<not> permitted w row (e_set (p_keywords p) @ removed (p_keywords p) row) plan then Inl SForbidden
        else Inr (w\<lparr>w_folders := bt_insert (kr_folder row)
              (join_parts (folder_entry w (kr_folder row)) (p_keywords p) (removed (p_keywords p) row) plan
                 \<lparr>mem_index = index, mem_id = kr_id row, mem_uid = uid\<rparr>) (w_folders w),
            w_tallies := set_left w index (part_count (p_keywords p) (removed (p_keywords p) row) plan)\<rparr>)) = Inr w'"
    unfolding update_one_def Let_def and_then_Inr_eq ok_or_Inr_eq by blast
  show thesis
  proof (cases "e_set (p_keywords p) = [] \<and> removed (p_keywords p) row = [] \<and> plan = Nothing")
    case True
    with w' have "w' = w" by simp
    then show thesis by (rule nothing)
  next
    case False
    with w' have "permitted w row (e_set (p_keywords p) @ removed (p_keywords p) row) plan"
      by (simp only: if_False split: if_splits) simp
    with parts [OF u refl this] w' False show thesis by simp
  qed
qed

lemma join_parts_permitted:
  assumes f: "folder_permitted (w_letters w) (kr_folder row) f"
    and p: "permitted w row (e_set e @ rm) plan"
  shows "folder_permitted (w_letters w) (kr_folder row) (join_parts f e rm plan m)"
proof -
  define g where "g = (if e_set e = [] \<and> rm = [] then f else f\<lparr>f_keywords := join_kw (f_keywords f) e rm m\<rparr>)"
  have keys: "\<forall>k \<in> set (e_set e) \<union> set rm. allows (w_letters w (kr_folder row)) (if k = SEEN then SetSeen else SetKeywords)"
    using p by (auto simp: permitted_def may_do_def list_all_iff)
  have g: "folder_permitted (w_letters w) (kr_folder row) g"
    using f keyword_part_permitted [OF f keys, of m] by (simp add: g_def)
  have j: "join_parts f e rm q m =
      (case q of Nothing \<Rightarrow> g
       | PLabels r \<Rightarrow> g\<lparr>f_labels := join_labels (f_labels g) r m\<rparr>
       | PMove to thn \<Rightarrow> g\<lparr>f_moves := join_move (f_moves g) to thn m\<rparr>)"
    for q by (simp only: join_parts_def g_def Let_def)
  show ?thesis
  proof (cases plan)
    case (PLabels r)
    then show ?thesis using p labels_part_permitted [OF g, of r m]
      by (simp add: j permitted_def may_relabel_def may_do_def list_all_iff)
  next
    case (PMove to thn)
    then show ?thesis using p moves_part_permitted [OF g, of to thn m]
      by (simp add: j permitted_def may_relabel_def may_do_def list_all_iff split: option.splits)
  qed (use g in \<open>simp add: j\<close>)
qed

lemma update_one_permitted:
  assumes w: "work_permitted w" and u: "update_one w index found p labeled = Inr w'"
  shows "work_permitted w'"
  using u
proof (cases rule: update_one_Inr)
  case nothing
  then show ?thesis using w by simp
next
  case (parts row uid plan rm)
  from insert_permitted [OF w join_parts_permitted [OF folder_entry_permitted [OF w] parts(4)]] parts(5)
  show ?thesis by simp
qed

lemma destroy_one_Inr:
  assumes "destroy_one w index found labeled = Inr w'"
  obtains row uid f where "found = Some row" "kr_uid row = Some uid" "may_do w (kr_folder row) RemoveItems"
    "f = (folder_entry w (kr_folder row))\<lparr>f_trashes := f_trashes (folder_entry w (kr_folder row)) @ [\<lparr>mem_index = index, mem_id = kr_id row, mem_uid = uid\<rparr>]\<rparr> \<or>
     f = (folder_entry w (kr_folder row))\<lparr>f_destroys := f_destroys (folder_entry w (kr_folder row)) @ [\<lparr>mem_index = index, mem_id = kr_id row, mem_uid = uid\<rparr>]\<rparr>"
    "w' = w\<lparr>w_folders := bt_insert (kr_folder row) f (w_folders w),
            w_tallies := set_left w index 1\<rparr>"
  using assms
  by (auto simp: destroy_one_def and_then_Inr_eq ok_or_def Let_def split: option.splits if_splits)

lemma destroy_one_permitted:
  assumes w: "work_permitted w" and d: "destroy_one w index found labeled = Inr w'"
  shows "work_permitted w'"
  using d
proof (cases rule: destroy_one_Inr)
  case (1 row uid f)
  have "folder_permitted (w_letters w) (kr_folder row) f"
    using folder_entry_permitted [OF w, of "kr_folder row"] 1(3,4)
    by (elim disjE) (simp_all add: folder_permitted_def may_do_def split del: if_split)
  from insert_permitted [OF w this] 1(5) show ?thesis by simp
qed

lemma plan_updates_permitted: "work_permitted w \<Longrightarrow> work_permitted (plan_updates w row_of labeled index us)"
proof (induction us arbitrary: w index)
  case (Cons u us)
  obtain ident p where u: "u = (ident, p)" by fastforce
  have "work_permitted (or_failed w index (update_one w index (row_of ident) p labeled))"
    using or_failed_permitted [OF Cons.prems] update_one_permitted [OF Cons.prems] by blast
  then show ?case using Cons.IH by (simp add: u)
qed simp

lemma plan_destroys_permitted: "work_permitted w \<Longrightarrow> work_permitted (plan_destroys w row_of labeled index ds)"
proof (induction ds arbitrary: w index)
  case (Cons d ds)
  have "work_permitted (or_failed w index (destroy_one w index (row_of d) labeled))"
    using or_failed_permitted [OF Cons.prems] destroy_one_permitted [OF Cons.prems] by blast
  then show ?case using Cons.IH by simp
qed simp

text \<open>
  C26: Nothing is planned that the letters of MYRIGHTS do not grant: in the work of an
  \<open>Email/set\<close> every keyword group changes only keywords the user may set in that folder, every
  label is one the user may add to or remove from, every move leaves a folder the user may remove
  from for one the user may add to, and every destroy is in a folder the user may remove from.
\<close>

theorem planned_work_is_permitted:
  assumes "planned ask state found rows letters = Some (w, expected)"
  shows "work_permitted w"
proof -
  have start: "work_permitted (work_start ask state rows letters)"
    by (simp add: work_permitted_def work_start_def)
  obtain row_of v where v: "w = v\<lparr>w_found := found\<rparr>"
    "v = plan_destroys (plan_updates (work_start ask state rows letters) row_of (is_labeled rows) 0 (updates ask))
       row_of (is_labeled rows) (length (updates ask)) (destroy_ids ask)"
    using assms by (auto simp: planned_def Let_def split: if_splits)
  have "work_permitted v"
    unfolding v(2) by (rule plan_destroys_permitted [OF plan_updates_permitted [OF start]])
  then show ?thesis by (simp add: v(1) work_permitted_def)
qed

definition demo_ask :: set_ask where
  "demo_ask = \<lparr>if_in_state = None,
     updates = [(''e1'', \<lparr>p_keywords = \<lparr>e_set = [''$seen''], e_clear = [], e_whole = False, e_named = []\<rparr>, p_mailboxes = None\<rparr>)],
     destroy_ids = [''e2'']\<rparr>"

definition demo_found :: "keyword_row list" where
  "demo_found = [demo_email, demo_email\<lparr>kr_id := ''e2'', kr_uid := Some 5\<rparr>]"

definition demo_folders :: "mailbox_row list" where
  "demo_folders = [demo_row\<lparr>row_id := ''f1''\<rparr>]"

definition demo_work :: work where
  "demo_work = (work_start demo_ask 3 demo_folders [''f1'' \<mapsto> ''sri''])\<lparr>
     w_folders := [(''f1'', folder_default\<lparr>f_keywords := [\<lparr>kg_edit = \<lparr>e_set = [''$seen''], e_clear = [], e_whole = False, e_named = []\<rparr>,
        kg_remove = [], kg_members = [\<lparr>mem_index = 0, mem_id = ''e1'', mem_uid = 4\<rparr>]\<rparr>]\<rparr>)],
     w_tallies := [\<lparr>t_left = 1, t_failed = None\<rparr>, \<lparr>t_left = 0, t_failed = Some SForbidden\<rparr>], w_found := demo_found\<rparr>"

lemma demo_planned:
  "\<exists>x. planned demo_ask 3 demo_found demo_folders [''f1'' \<mapsto> ''sri''] = Some (demo_work, x)"
  by (simp add: planned_def demo_ask_def demo_found_def demo_email_def demo_row_def demo_folders_def demo_work_def work_start_def
      is_labeled_def update_one_def destroy_one_def or_failed_def removed_def permitted_def may_do_def allows_def
      folder_entry_def folder_default_def tally_default_def SEEN_def Let_def join_parts_def part_count_def set_left_def)

theorem planned_work_is_permitted_witness: "work_permitted demo_work \<and> w_folders demo_work \<noteq> []"
proof -
  obtain x where "planned demo_ask 3 demo_found demo_folders [''f1'' \<mapsto> ''sri''] = Some (demo_work, x)"
    using demo_planned by blast
  from planned_work_is_permitted [OF this] show ?thesis by (simp add: demo_work_def)
qed

subsection \<open>Tallies\<close>

text \<open>The groups of the work an update or destroy still waits in.\<close>

definition in_folder :: "nat \<Rightarrow> folder_work \<Rightarrow> nat" where
  "in_folder i f = length (filter (\<lambda>m. mem_index m = i) (folder_members f))"

definition waiting :: "work \<Rightarrow> nat \<Rightarrow> nat" where
  "waiting w i = sum_list (map (\<lambda>(folder, f). in_folder i f) (w_folders w))"

lemma bt_insert_sum:
  fixes c :: "'v \<Rightarrow> 'a :: comm_monoid_add"
  shows "bt_ok m \<Longrightarrow> sum_list (map (\<lambda>(k, x). c x) (bt_insert k v m)) + (case map_of m k of None \<Rightarrow> 0 | Some x \<Rightarrow> c x) =
     sum_list (map (\<lambda>(k, x). c x) m) + c v"
proof (induction m)
  case (Cons e m)
  obtain a b where e: "e = (a, b)" by fastforce
  have rest: "bt_ok m" "\<forall>x \<in> fst ` set m. a < x" using Cons.prems by (auto simp: bt_ok_def e)
  then have "k < a \<Longrightarrow> map_of m k = None" by (auto simp: map_of_eq_None_iff)
  with Cons.IH [OF rest(1)] show ?case by (auto simp: e add.assoc) (simp_all add: ac_simps)
qed simp

lemma join_kw_count: "length (filter P (concat (map kg_members (join_kw gs e rm m)))) =
    length (filter P (concat (map kg_members gs))) + (if P m then 1 else 0)"
  by (induction gs) auto

lemma join_labels_count: "length (filter P (concat (map lg_members (join_labels gs r m)))) =
    length (filter P (concat (map lg_members gs))) + (if P m then 1 else 0)"
  by (induction gs) auto

lemma join_move_count: "length (filter P (concat (map mg_members (join_move gs to thn m)))) =
    length (filter P (concat (map mg_members gs))) + (if P m then 1 else 0)"
  by (induction gs) auto

lemma join_parts_count:
  "in_folder i (join_parts f e rm plan m) = in_folder i f + (if mem_index m = i then part_count e rm plan else 0)"
  by (cases plan)
    (simp_all add: join_parts_def Let_def in_folder_def folder_members_def part_count_def
      join_kw_count join_labels_count join_move_count)

lemma folder_entry_count:
  "in_folder i (folder_entry w folder) = (case map_of (w_folders w) folder of None \<Rightarrow> 0 | Some f \<Rightarrow> in_folder i f)"
  by (simp add: folder_entry_def in_folder_def folder_members_def folder_default_def split: option.split)

lemma waiting_insert:
  assumes "bt_ok (w_folders w)" "in_folder i f = in_folder i (folder_entry w folder) + n"
  shows "waiting (w\<lparr>w_folders := bt_insert folder f (w_folders w), w_tallies := t\<rparr>) i = waiting w i + n"
  using bt_insert_sum [OF assms(1), where c = "in_folder i" and k = folder and v = f] assms(2)
  by (simp add: waiting_def folder_entry_count)

text \<open>The tallies up to an index count the groups; those from it on are still as they began.\<close>

definition counted :: "nat \<Rightarrow> work \<Rightarrow> bool" where
  "counted n w \<longleftrightarrow> bt_ok (w_folders w) \<and>
     (\<forall>i < length (w_tallies w). waiting w i = t_left (w_tallies w ! i) \<and>
        (t_failed (w_tallies w ! i) \<noteq> None \<longrightarrow> t_left (w_tallies w ! i) = 0) \<and> (n \<le> i \<longrightarrow> w_tallies w ! i = tally_default))"

lemma counted_insert:
  assumes c: "counted n w" and n: "n < length (w_tallies w)"
    and f: "\<And>i. in_folder i f = in_folder i (folder_entry w folder) + (if n = i then k else 0)"
  shows "counted (Suc n) (w\<lparr>w_folders := bt_insert folder f (w_folders w), w_tallies := set_left w n k\<rparr>)"
proof -
  have ok: "bt_ok (w_folders w)" using c by (simp add: counted_def)
  have start: "w_tallies w ! n = tally_default" "waiting w n = 0"
    using c n by (auto simp: counted_def tally_default_def)
  show ?thesis
    using c n start waiting_insert [OF ok f]
    by (simp add: counted_def bt_ok_insert set_left_def nth_list_update tally_default_def)
qed

lemma counted_Suc: "counted n w \<Longrightarrow> counted (Suc n) w"
  by (simp add: counted_def)

lemma counted_failed: "counted n w \<Longrightarrow> n < length (w_tallies w) \<Longrightarrow>
    counted (Suc n) (w\<lparr>w_tallies := (w_tallies w)[n := (w_tallies w ! n)\<lparr>t_failed := Some e\<rparr>]\<rparr>)"
  by (simp add: counted_def waiting_def nth_list_update tally_default_def)

lemma counted_or_failed:
  assumes "counted n w" "n < length (w_tallies w)" "\<And>w'. r = Inr w' \<Longrightarrow> counted (Suc n) w'"
  shows "counted (Suc n) (or_failed w n r)"
  using assms counted_failed [OF assms(1,2)] by (simp add: or_failed_def split: sum.split)

lemma update_one_counted:
  assumes c: "counted n w" and n: "n < length (w_tallies w)" and u: "update_one w n found p labeled = Inr w'"
  shows "counted (Suc n) w'"
  using u
proof (cases rule: update_one_Inr)
  case nothing
  then show ?thesis using counted_Suc [OF c] by simp
next
  case (parts row uid plan rm)
  show ?thesis unfolding parts(5) by (rule counted_insert [OF c n]) (simp add: join_parts_count)
qed

lemma destroy_one_counted:
  assumes c: "counted n w" and n: "n < length (w_tallies w)" and d: "destroy_one w n found labeled = Inr w'"
  shows "counted (Suc n) w'"
  using d
proof (cases rule: destroy_one_Inr)
  case (1 row uid f)
  show ?thesis unfolding 1(5)
  proof (rule counted_insert [OF c n])
    show "in_folder i f = in_folder i (folder_entry w (kr_folder row)) + (if n = i then 1 else 0)" for i
      using 1(4) by (elim disjE) (simp_all add: in_folder_def folder_members_def)
  qed
qed

lemma or_failed_tallies:
  "length (w_tallies (or_failed w n (update_one w n found p labeled))) = length (w_tallies w)"
  "length (w_tallies (or_failed w n (destroy_one w n found labeled))) = length (w_tallies w)"
  by (auto simp: or_failed_def set_left_def elim!: update_one_Inr destroy_one_Inr split: sum.split)

lemma plan_updates_counted:
  "counted n w \<Longrightarrow> n + length us \<le> length (w_tallies w) \<Longrightarrow>
     counted (n + length us) (plan_updates w row_of labeled n us) \<and>
     length (w_tallies (plan_updates w row_of labeled n us)) = length (w_tallies w)"
proof (induction us arbitrary: w n)
  case (Cons u us)
  obtain ident p where u: "u = (ident, p)" by fastforce
  let ?w = "or_failed w n (update_one w n (row_of ident) p labeled)"
  have n: "n < length (w_tallies w)" using Cons.prems(2) by simp
  have "counted (Suc n) ?w"
    by (rule counted_or_failed [OF Cons.prems(1) n]) (rule update_one_counted [OF Cons.prems(1) n])
  from Cons.IH [OF this] Cons.prems(2) show ?case by (simp add: u or_failed_tallies)
qed simp

lemma plan_destroys_counted:
  "counted n w \<Longrightarrow> n + length ds \<le> length (w_tallies w) \<Longrightarrow>
     counted (n + length ds) (plan_destroys w row_of labeled n ds) \<and>
     length (w_tallies (plan_destroys w row_of labeled n ds)) = length (w_tallies w)"
proof (induction ds arbitrary: w n)
  case (Cons d ds)
  let ?w = "or_failed w n (destroy_one w n (row_of d) labeled)"
  have n: "n < length (w_tallies w)" using Cons.prems(2) by simp
  have "counted (Suc n) ?w"
    by (rule counted_or_failed [OF Cons.prems(1) n]) (rule destroy_one_counted [OF Cons.prems(1) n])
  from Cons.IH [OF this] Cons.prems(2) show ?case by (simp add: or_failed_tallies)
qed simp

lemma work_start_counted: "counted 0 (work_start ask state rows letters)"
  by (simp add: counted_def work_start_def waiting_def tally_default_def)

lemma planned_counted:
  assumes "planned ask state found rows letters = Some (w, x)"
  shows "counted (length (updates ask) + length (destroy_ids ask)) w \<and>
    length (w_tallies w) = length (updates ask) + length (destroy_ids ask)"
proof -
  let ?row = "\<lambda>ident. List.find (\<lambda>r. kr_id r = ident) found"
  let ?s = "work_start ask state rows letters"
  let ?u = "plan_updates ?s ?row (is_labeled rows) 0 (updates ask)"
  have len: "length (w_tallies ?s) = length (updates ask) + length (destroy_ids ask)" by (simp add: work_start_def)
  have u: "counted (length (updates ask)) ?u" "length (w_tallies ?u) = length (updates ask) + length (destroy_ids ask)"
    using plan_updates_counted [OF work_start_counted, where us = "updates ask"] len by simp_all
  have w: "w = (plan_destroys ?u ?row (is_labeled rows) (length (updates ask)) (destroy_ids ask))\<lparr>w_found := found\<rparr>"
    using assms by (auto simp: planned_def Let_def split: if_splits)
  show ?thesis
    using plan_destroys_counted [OF u(1), where ds = "destroy_ids ask" and row_of = ?row] u(2)
    by (simp add: w counted_def waiting_def)
qed

text \<open>
  The tally of every update and destroy is the number of groups of the work its email waits
  in, over all the folders, and one the plan already refused waits in none: no command is sent for
  it. There is a tally for each update and each destroy of the call and no other.
\<close>

theorem tallies_count_the_groups:
  assumes "planned ask state found rows letters = Some (w, x)"
  shows "length (w_tallies w) = length (updates ask) + length (destroy_ids ask) \<and>
    (\<forall>i < length (w_tallies w). waiting w i = t_left (w_tallies w ! i) \<and>
       (t_failed (w_tallies w ! i) \<noteq> None \<longrightarrow> waiting w i = 0))"
  using planned_counted [OF assms] by (simp add: counted_def)

theorem tallies_count_the_groups_witness:
  "waiting demo_work 0 = 1 \<and> waiting demo_work 1 = 0 \<and> t_failed (w_tallies demo_work ! 1) = Some SForbidden"
proof -
  obtain x where "planned demo_ask 3 demo_found demo_folders [''f1'' \<mapsto> ''sri''] = Some (demo_work, x)"
    using demo_planned by blast
  from tallies_count_the_groups [OF this] show ?thesis by (simp add: demo_work_def demo_ask_def)
qed

end
