(* ===== verification/Email_Set_Send.thy ===== *)
theory Email_Set_Send
  imports Plan_Work
begin

text \<open>
  The work of an \<open>Email/set\<close> done on the server: \<open>jmap/write.rs\<close> (folders, SELECT, failures, how an
  update ended), \<open>jmap/write/keywords.rs\<close>, \<open>jmap/write/moves.rs\<close>, \<open>jmap/write/trash.rs\<close> and
  \<open>jmap/write/restore.rs\<close>. The server behind the session is a parameter: a function from the
  exchanges so far and the command asked to its answer, so any server that answers at all is one; a
  move or a copy is answered with its lines, whose \<open>COPYUID\<close> pairs the session notes.
  A run is the work and the exchanges so far; \<open>true\<close> with it says that the session still stands.
  The deadline of the call, which drops a run at a command it waits on, is not modelled.
  Two members of one batch never have one UID, so the unstable sort by UID is a stable one.
\<close>

record writable =
  wr_uid_validity :: nat
  wr_permanent :: "string list option"
  wr_read_only :: bool

definition keeps :: "writable \<Rightarrow> string \<Rightarrow> bool" where
  "keeps w fl =
     (case wr_permanent w of
        None \<Rightarrow> True
      | Some permanent \<Rightarrow>
          (\<not> starts_with fl [CHR 92] \<and> [CHR 92, CHR ''*''] \<in> set permanent) \<or>
          list_ex (\<lambda>found. eq_ignore_ascii_case found fl) permanent)"

record flagged =
  fl_uid :: nat
  fl_flags :: "string list"
  fl_labels :: "string list option"

datatype exchange =
    Selects string "session_error + writable"
  | Stores store_ask "session_error + unit"
  | Moves move_ask "session_error + moved option"
  | Copies move_ask "session_error + moved option"
  | Expunges "nat list" "session_error + unit"
  | Fetches "nat \<times> nat" "session_error + flagged list"

record server =
  on_select :: "exchange list \<Rightarrow> string \<Rightarrow> session_error + writable"
  on_store :: "exchange list \<Rightarrow> store_ask \<Rightarrow> session_error + unit"
  on_move :: "exchange list \<Rightarrow> move_ask \<Rightarrow> session_error + copyuid option list"
  on_copy :: "exchange list \<Rightarrow> move_ask \<Rightarrow> session_error + copyuid option list"
  on_expunge :: "exchange list \<Rightarrow> nat list \<Rightarrow> session_error + unit"
  on_flags :: "exchange list \<Rightarrow> nat \<times> nat \<Rightarrow> session_error + flagged list"

type_synonym 'a answer = "(session_error + 'a) \<times> exchange list"
type_synonym run = "work \<times> exchange list"

definition ask_select :: "server \<Rightarrow> string \<Rightarrow> exchange list \<Rightarrow> writable answer" where
  "ask_select srv mailbox log = (let r = on_select srv log mailbox in (r, log @ [Selects mailbox r]))"

definition uid_store :: "server \<Rightarrow> store_ask \<Rightarrow> exchange list \<Rightarrow> unit answer" where
  "uid_store srv ask log = (let r = on_store srv log ask in (r, log @ [Stores ask r]))"

text \<open>
  A move or a copy and the pairs its \<open>COPYUID\<close> names, noted line by line as the answer comes; a
  line that pairs badly ends the exchange with its error.
\<close>

definition noted :: "move_ask \<Rightarrow> session_error + copyuid option list \<Rightarrow> session_error + moved option" where
  "noted ask answer = and_then answer (try_fold (note_line (ma_uids ask)) None)"

definition uid_move :: "server \<Rightarrow> move_ask \<Rightarrow> exchange list \<Rightarrow> moved option answer" where
  "uid_move srv ask log = (let r = noted ask (on_move srv log ask) in (r, log @ [Moves ask r]))"

definition uid_copy :: "server \<Rightarrow> move_ask \<Rightarrow> exchange list \<Rightarrow> moved option answer" where
  "uid_copy srv ask log = (let r = noted ask (on_copy srv log ask) in (r, log @ [Copies ask r]))"

definition uid_expunge :: "server \<Rightarrow> nat list \<Rightarrow> exchange list \<Rightarrow> unit answer" where
  "uid_expunge srv uids log = (let r = on_expunge srv log uids in (r, log @ [Expunges uids r]))"

definition uid_flags :: "server \<Rightarrow> nat \<times> nat \<Rightarrow> exchange list \<Rightarrow> flagged list answer" where
  "uid_flags srv span log = (let r = on_flags srv log span in (r, log @ [Fetches span r]))"

subsection \<open>Runs\<close>

fun each_run :: "('a \<Rightarrow> run \<Rightarrow> bool \<times> run) \<Rightarrow> 'a list \<Rightarrow> run \<Rightarrow> bool \<times> run" where
  "each_run f [] r = (True, r)"
| "each_run f (x # xs) r = (case f x r of (stands, r) \<Rightarrow> if stands then each_run f xs r else (False, r))"

definition and_run :: "(run \<Rightarrow> bool \<times> run) \<Rightarrow> (run \<Rightarrow> bool \<times> run) \<Rightarrow> run \<Rightarrow> bool \<times> run" where
  "and_run f g r = (case f r of (stands, r) \<Rightarrow> if stands then g r else (False, r))"

function chunks :: "nat \<Rightarrow> 'a list \<Rightarrow> 'a list list" where
  "chunks n xs = (if xs = [] \<or> n = 0 then [] else take n xs # chunks n (drop n xs))"
  by pat_completeness auto
termination by (relation "measure (\<lambda>(n, xs). length xs)") auto

declare chunks.simps [simp del]

subsection \<open>The tallies\<close>

definition gmail :: "work \<Rightarrow> bool" where
  "gmail w = sw_gmail (w_stored w)"

definition work_moves_mail :: "work \<Rightarrow> bool" where
  "work_moves_mail w = (if gmail w then move_command (w_moving w) else moves (w_moving w))"

definition part_done :: "set_member \<Rightarrow> work \<Rightarrow> work" where
  "part_done m w =
     (let t = w_tallies w ! mem_index m
      in w\<lparr>w_tallies := (w_tallies w)[mem_index m := t\<lparr>t_left := t_left t - 1\<rparr>]\<rparr>)"

definition settle_one :: "set_error \<Rightarrow> work \<Rightarrow> set_member \<Rightarrow> work" where
  "settle_one e w m =
     (let t = w_tallies w ! mem_index m
      in w\<lparr>w_tallies := (w_tallies w)[mem_index m :=
           t\<lparr>t_failed := (case t_failed t of None \<Rightarrow> Some e | Some f \<Rightarrow> Some f)\<rparr>]\<rparr>)"

definition settle :: "work \<Rightarrow> set_member list \<Rightarrow> set_error \<Rightarrow> work" where
  "settle w ms e = foldl (settle_one e) w ms"

definition standing :: "work \<Rightarrow> set_member list \<Rightarrow> set_member list" where
  "standing w ms = sort_key mem_uid (filter (\<lambda>m. t_failed (w_tallies w ! mem_index m) = None) ms)"

definition folder_wire_name :: "work \<Rightarrow> mailbox_id \<Rightarrow> string option" where
  "folder_wire_name w folder = map_option (\<lambda>row. imap_name (facts row)) (row_get (w_rows w) folder)"

definition failure :: "session_error \<Rightarrow> set_error \<times> bool" where
  "failure e =
     (case e of
        Refused \<Rightarrow> (SServerFail, True)
      | Protocol _ \<Rightarrow> (SServerFail, False)
      | _ \<Rightarrow> (SServerUnavailable, False))"

definition ended :: "tally \<Rightarrow> set_error + unit" where
  "ended t =
     (case t_failed t of
        Some e \<Rightarrow> Inl e
      | None \<Rightarrow> if t_left t = 0 then Inr () else Inl SServerUnavailable)"

text \<open>What follows the answer to the command of a batch, the same in every group.\<close>

definition batch :: "set_member list \<Rightarrow> ('a \<Rightarrow> work \<Rightarrow> work) \<Rightarrow> 'a answer \<Rightarrow> work \<Rightarrow> bool \<times> run" where
  "batch ms ok answer w =
     (case answer of
        (Inr a, log) \<Rightarrow> (True, ok a w, log)
      | (Inl e, log) \<Rightarrow> (let (ends, stands) = failure e in (stands, settle w ms ends, log)))"

subsection \<open>Keywords\<close>

fun store_all :: "server \<Rightarrow> store_ask list \<Rightarrow> exchange list \<Rightarrow> unit answer" where
  "store_all srv [] log = (Inr (), log)"
| "store_all srv (ask # asks) log =
     (case uid_store srv ask log of
        (Inl e, log) \<Rightarrow> (Inl e, log)
      | (Inr _, log) \<Rightarrow> store_all srv asks log)"

definition keyword_asks :: "edit \<Rightarrow> string list \<Rightarrow> nat list \<Rightarrow> store_ask list" where
  "keyword_asks e rm uids =
     concat (map (\<lambda>(ks, add).
       map (\<lambda>fls. \<lparr>sa_uids = uids, sa_flags = fls, sa_add = add, sa_item = Flags\<rparr>) (runs (map flag ks) length))
       [(e_set e, True), (rm, False)])"

definition commands :: "server \<Rightarrow> kw_group \<Rightarrow> set_member list \<Rightarrow> exchange list \<Rightarrow> unit answer" where
  "commands srv g ms log = store_all srv (keyword_asks (kg_edit g) (kg_remove g) (map mem_uid ms)) log"

definition keep_keywords :: "mailbox_id \<Rightarrow> kw_group \<Rightarrow> work \<Rightarrow> set_member \<Rightarrow> work" where
  "keep_keywords folder g w m =
     (let w = part_done m w
      in w\<lparr>w_stored := (w_stored w)\<lparr>sw_keywords := sw_keywords (w_stored w) @
           [\<lparr>kc_id = mem_id m, kc_folder = folder, kc_uid = mem_uid m, kc_add = e_set (kg_edit g), kc_remove = kg_remove g\<rparr>]\<rparr>\<rparr>)"

definition lasting :: "writable \<Rightarrow> kw_group \<Rightarrow> set_error + unit" where
  "lasting wr g =
     (let named = e_set (kg_edit g) @ kg_remove g;
          lost = filter (\<lambda>k. \<not> keeps wr (flag k)) named;
          paths = map (edit_path (kg_edit g)) lost
      in if list_ex (\<lambda>k. is_system_flag (flag k)) lost then Inl SForbidden
         else if paths = [] then Inr () else Inl (SInvalidProperties paths))"

definition group_stored :: "server \<Rightarrow> mailbox_id \<Rightarrow> kw_group \<Rightarrow> run \<Rightarrow> bool \<times> run" where
  "group_stored srv folder g r =
     each_run (\<lambda>ms (w, log). batch ms (\<lambda>_ w. foldl (keep_keywords folder g) w ms) (commands srv g ms log) w)
       (chunks MAX_STORE_UIDS (standing (fst r) (kg_members g))) r"

definition keywords_run :: "server \<Rightarrow> mailbox_id \<Rightarrow> writable \<Rightarrow> kw_group list \<Rightarrow> run \<Rightarrow> bool \<times> run" where
  "keywords_run srv folder wr groups r =
     each_run (\<lambda>g (w, log).
       case lasting wr g of
         Inl e \<Rightarrow> (True, settle w (kg_members g) e, log)
       | Inr _ \<Rightarrow> group_stored srv folder g (w, log)) groups r"

subsection \<open>Labels\<close>

definition label_asks :: "mailbox_row list \<Rightarrow> relabel \<Rightarrow> nat list \<Rightarrow> store_ask list" where
  "label_asks rows r uids =
     concat (map (\<lambda>(mailboxes, add).
       map (\<lambda>ls. \<lparr>sa_uids = uids, sa_flags = ls, sa_add = add, sa_item = Labels\<rparr>) (runs (labels_of rows mailboxes) label_width))
       [(r_add r, True), (r_remove r, False)])"

definition relabeled :: "server \<Rightarrow> work \<Rightarrow> relabel \<Rightarrow> nat list \<Rightarrow> exchange list \<Rightarrow> unit answer" where
  "relabeled srv w r uids log = store_all srv (label_asks (w_rows w) r uids) log"

definition keep_labels :: "mailbox_id \<Rightarrow> relabel \<Rightarrow> work \<Rightarrow> set_member \<Rightarrow> work" where
  "keep_labels folder r w m =
     (let w = part_done m w
      in w\<lparr>w_stored := (w_stored w)\<lparr>sw_labels := sw_labels (w_stored w) @
           [\<lparr>lc_id = mem_id m, lc_folder = folder, lc_uid = mem_uid m, lc_add = r_add r, lc_remove = r_remove r\<rparr>]\<rparr>\<rparr>)"

definition labels_run :: "server \<Rightarrow> mailbox_id \<Rightarrow> label_group list \<Rightarrow> run \<Rightarrow> bool \<times> run" where
  "labels_run srv folder groups r =
     each_run (\<lambda>g r.
       each_run (\<lambda>ms (w, log).
         batch ms (\<lambda>_ w. foldl (keep_labels folder (lg_relabel g)) w ms)
           (relabeled srv w (lg_relabel g) (map mem_uid ms) log) w)
         (chunks MAX_STORE_UIDS (standing (fst r) (lg_members g))) r) groups r"

subsection \<open>Moves\<close>

definition copied :: "server \<Rightarrow> move_ask \<Rightarrow> exchange list \<Rightarrow> moved option answer" where
  "copied srv ask log =
     (case uid_copy srv ask log of
        (Inl e, log) \<Rightarrow> (Inl e, log)
      | (Inr mv, log) \<Rightarrow>
          (let took = (case mv of None \<Rightarrow> ma_uids ask | Some m \<Rightarrow> map fst (mv_uids m))
           in if took = [] then (Inr mv, log)
              else case uid_expunge srv took log of
                (Inl e, log) \<Rightarrow> (Inl e, log)
              | (Inr _, log) \<Rightarrow> (Inr mv, log)))"

definition restore_change :: "restore \<Rightarrow> string list option \<Rightarrow> move_change" where
  "restore_change rs ls =
     \<lparr>mc_id = mem_id (rs_member rs), mc_from = rs_from rs, mc_from_uid = mem_uid (rs_member rs), mc_to = rs_to rs,
      mc_uid_validity = rs_uid_validity rs, mc_uid = rs_uid rs, mc_labels = ls\<rparr>"

definition push_move :: "move_change \<Rightarrow> work \<Rightarrow> work" where
  "push_move c w = w\<lparr>w_stored := (w_stored w)\<lparr>sw_moves := sw_moves (w_stored w) @ [c]\<rparr>\<rparr>"

definition push_lost :: "gone_row \<Rightarrow> work \<Rightarrow> work" where
  "push_lost c w = w\<lparr>w_stored := (w_stored w)\<lparr>sw_lost := sw_lost (w_stored w) @ [c]\<rparr>\<rparr>"

definition landed_one :: "mailbox_id \<Rightarrow> move_group \<Rightarrow> moved option \<Rightarrow> work \<Rightarrow> set_member \<Rightarrow> work" where
  "landed_one folder g mv w m =
     (let lost = \<lparr>go_id = mem_id m, go_folder = folder, go_uid = mem_uid m\<rparr>
      in case mv of
           None \<Rightarrow>
             (let w = push_lost lost w;
                  failed = (if uidplus (w_moving w) then Some SNotFound else map_option (\<lambda>_. SServerFail) (mg_then g))
              in case failed of Some e \<Rightarrow> settle w [m] e | None \<Rightarrow> part_done m w)
         | Some mv \<Rightarrow>
             (case List.find (\<lambda>(from, _). from = mem_uid m) (mv_uids mv) of
                None \<Rightarrow> settle (push_lost lost w) [m] SNotFound
              | Some (_, uid) \<Rightarrow>
                  (let rs = \<lparr>rs_member = m, rs_from = folder, rs_to = mg_to g, rs_uid_validity = mv_uid_validity mv,
                             rs_uid = uid, rs_relabel = (case mg_then g of None \<Rightarrow> relabel_default | Some r \<Rightarrow> r)\<rparr>
                   in if mg_then g \<noteq> None then w\<lparr>w_restores := w_restores w @ [rs]\<rparr>
                      else push_move (restore_change rs None) (part_done m w))))"

definition landed :: "mailbox_id \<Rightarrow> move_group \<Rightarrow> set_member list \<Rightarrow> moved option \<Rightarrow> work \<Rightarrow> work" where
  "landed folder g ms mv w = foldl (landed_one folder g mv) w ms"

definition moves_run :: "server \<Rightarrow> mailbox_id \<Rightarrow> writable \<Rightarrow> move_group list \<Rightarrow> run \<Rightarrow> bool \<times> run" where
  "moves_run srv folder wr groups r =
     (let copies = (\<not> move_command (w_moving (fst r)))
      in each_run (\<lambda>g (w, log).
           if copies \<and> \<not> keeps wr DELETED then (True, settle w (mg_members g) SForbidden, log)
           else case folder_wire_name w (mg_to g) of
             None \<Rightarrow> (True, settle w (mg_members g) SServerUnavailable, log)
           | Some target \<Rightarrow>
               each_run (\<lambda>ms (w, log).
                 let ask = \<lparr>ma_uids = map mem_uid ms, ma_target = target\<rparr>
                 in batch ms (landed folder g ms) (if copies then copied srv ask log else uid_move srv ask log) w)
                 (chunks MAX_STORE_UIDS (standing w (mg_members g))) (w, log)) groups r)"

subsection \<open>Destroys\<close>

definition keep_gone :: "mailbox_id \<Rightarrow> work \<Rightarrow> set_member \<Rightarrow> work" where
  "keep_gone folder w m =
     (let w = part_done m w
      in w\<lparr>w_stored := (w_stored w)\<lparr>sw_gone := sw_gone (w_stored w) @
           [\<lparr>go_id = mem_id m, go_folder = folder, go_uid = mem_uid m\<rparr>]\<rparr>\<rparr>)"

definition taken_out :: "mailbox_id \<Rightarrow> set_member list \<Rightarrow> 'a answer \<Rightarrow> work \<Rightarrow> bool \<times> run" where
  "taken_out folder ms answer w = batch ms (\<lambda>_ w. foldl (keep_gone folder) w ms) answer w"

definition destroys_run :: "server \<Rightarrow> mailbox_id \<Rightarrow> writable \<Rightarrow> set_member list \<Rightarrow> run \<Rightarrow> bool \<times> run" where
  "destroys_run srv folder wr ms r =
     (if \<not> keeps wr DELETED then (True, settle (fst r) ms SForbidden, snd r)
      else each_run (\<lambda>ms (w, log). taken_out folder ms (uid_expunge srv (map mem_uid ms) log) w)
        (chunks MAX_STORE_UIDS (standing (fst r) ms)) r)"

definition TRASH_ROLE :: string where "TRASH_ROLE = ''trash''"

definition trashes_run :: "server \<Rightarrow> mailbox_id \<Rightarrow> set_member list \<Rightarrow> run \<Rightarrow> bool \<times> run" where
  "trashes_run srv folder ms r =
     (if ms = [] then (True, r)
      else case List.find (\<lambda>row. role (facts row) = Some TRASH_ROLE) (w_rows (fst r)) of
        None \<Rightarrow> (True, settle (fst r) ms SServerUnavailable, snd r)
      | Some trash \<Rightarrow>
          each_run (\<lambda>ms (w, log).
            taken_out folder ms (uid_move srv \<lparr>ma_uids = map mem_uid ms, ma_target = imap_name (facts trash)\<rparr> log) w)
            (chunks MAX_STORE_UIDS (standing (fst r) ms)) r)"

subsection \<open>Folders\<close>

definition select_folder ::
  "server \<Rightarrow> mailbox_id \<Rightarrow> set_member list \<Rightarrow> run \<Rightarrow> (writable option \<times> bool) option \<times> run" where
  "select_folder srv folder ms r =
     (case row_get (w_rows (fst r)) folder of
        None \<Rightarrow> (None, r)
      | Some row \<Rightarrow>
          (case ask_select srv (imap_name (facts row)) (snd r) of
             (Inr wr, log) \<Rightarrow>
               if Some (wr_uid_validity wr) \<noteq> uid_validity (facts row) then (None, fst r, log)
               else if wr_read_only wr then (Some (None, True), settle (fst r) ms SForbidden, log)
               else (Some (Some wr, True), fst r, log)
           | (Inl e, log) \<Rightarrow>
               (let (ends, stands) = failure e in (Some (None, stands), settle (fst r) ms ends, log))))"

definition without_commands :: "folder_work \<Rightarrow> work \<Rightarrow> work" where
  "without_commands items w =
     (let w = (if \<not> moves (w_moving w) then settle w (concat (map lg_members (f_labels items))) SForbidden else w);
          w = (if \<not> work_moves_mail w
               then settle w (concat (map mg_members (f_moves items)) @ f_trashes items) SForbidden else w)
      in if \<not> uidplus (w_moving w) then settle w (f_destroys items) SForbidden else w)"

definition folder_stored :: "server \<Rightarrow> mailbox_id \<Rightarrow> folder_work \<Rightarrow> run \<Rightarrow> bool \<times> run" where
  "folder_stored srv folder items r =
     (let r = (without_commands items (fst r), snd r); ms = folder_members items
      in if standing (fst r) ms = [] then (True, r)
         else case select_folder srv folder ms r of
           (None, r) \<Rightarrow> (True, r)
         | (Some (None, stands), r) \<Rightarrow> (stands, r)
         | (Some (Some wr, _), r) \<Rightarrow>
             and_run (keywords_run srv folder wr (f_keywords items))
               (and_run (labels_run srv folder (f_labels items))
                 (and_run (moves_run srv folder wr (f_moves items))
                   (and_run (destroys_run srv folder wr (f_destroys items))
                     (trashes_run srv folder (f_trashes items))))) r)"

subsection \<open>Labels of what moved into All Mail\<close>

definition by_target :: "restore list \<Rightarrow> (mailbox_id, restore list) bt" where
  "by_target restores =
     foldl (\<lambda>m rs. bt_insert (rs_to rs) ((case bt_get m (rs_to rs) of None \<Rightarrow> [] | Some l \<Rightarrow> l) @ [rs]) m) [] restores"

fun join_restore :: "(relabel \<times> nat list) list \<Rightarrow> restore \<Rightarrow> (relabel \<times> nat list) list" where
  "join_restore [] rs = [(rs_relabel rs, [rs_uid rs])]"
| "join_restore ((r, uids) # gs) rs =
     (if r = rs_relabel rs then (r, uids @ [rs_uid rs]) # gs else (r, uids) # join_restore gs rs)"

fun relabel_batches :: "server \<Rightarrow> work \<Rightarrow> (relabel \<times> nat list) list \<Rightarrow> exchange list \<Rightarrow> unit answer" where
  "relabel_batches srv w [] log = (Inr (), log)"
| "relabel_batches srv w ((r, uids) # rest) log =
     (case relabeled srv w r uids log of
        (Inl e, log) \<Rightarrow> (Inl e, log)
      | (Inr _, log) \<Rightarrow> relabel_batches srv w rest log)"

definition labels_in ::
  "server \<Rightarrow> work \<Rightarrow> mailbox_id \<Rightarrow> restore list \<Rightarrow> exchange list \<Rightarrow> (nat, string list) bt option answer" where
  "labels_in srv w to restores log =
     (case folder_wire_name w to of
        None \<Rightarrow> (Inr None, log)
      | Some mailbox \<Rightarrow>
          (case ask_select srv mailbox log of
             (Inl e, log) \<Rightarrow> (Inl e, log)
           | (Inr wr, log) \<Rightarrow>
               if wr_read_only wr \<or> list_ex (\<lambda>rs. rs_uid_validity rs \<noteq> wr_uid_validity wr) restores then (Inr None, log)
               else
                 let groups = foldl join_restore [] restores;
                     batches = concat (map (\<lambda>(r, uids). map (\<lambda>us. (r, us)) (chunks MAX_STORE_UIDS uids)) groups)
                 in case relabel_batches srv w batches log of
                   (Inl e, log) \<Rightarrow> (Inl e, log)
                 | (Inr _, log) \<Rightarrow>
                     let uids = map rs_uid restores
                     in if uids = [] then (Inr (Some []), log)
                        else case uid_flags srv (Min (set uids), Max (set uids)) log of
                          (Inl e, log) \<Rightarrow> (Inl e, log)
                        | (Inr found, log) \<Rightarrow>
                            (Inr (Some (foldl (\<lambda>m f. case fl_labels f of None \<Rightarrow> m | Some ls \<Rightarrow> bt_insert (fl_uid f) (labels ls) m)
                               [] (filter (\<lambda>f. fl_uid f \<in> set uids) found))), log)))"

definition restored_one :: "(nat, string list) bt \<Rightarrow> work \<Rightarrow> restore \<Rightarrow> work" where
  "restored_one rd w rs = push_move (restore_change rs (bt_get rd (rs_uid rs))) (part_done (rs_member rs) w)"

definition unrestored_one :: "set_error \<Rightarrow> work \<Rightarrow> restore \<Rightarrow> work" where
  "unrestored_one e w rs = push_move (restore_change rs None) (settle w [rs_member rs] e)"

definition target_restored :: "server \<Rightarrow> mailbox_id \<Rightarrow> restore list \<Rightarrow> run \<Rightarrow> bool \<times> run" where
  "target_restored srv to restores r =
     (case labels_in srv (fst r) to restores (snd r) of
        (Inr (Some rd), log) \<Rightarrow> (True, foldl (restored_one rd) (fst r) restores, log)
      | (Inr None, log) \<Rightarrow> (True, foldl (unrestored_one SServerFail) (fst r) restores, log)
      | (Inl e, log) \<Rightarrow> (let (ends, stands) = failure e in (stands, foldl (unrestored_one ends) (fst r) restores, log)))"

definition restores_run :: "server \<Rightarrow> run \<Rightarrow> bool \<times> run" where
  "restores_run srv r =
     each_run (\<lambda>(to, restores). target_restored srv to restores) (by_target (w_restores (fst r)))
       ((fst r)\<lparr>w_restores := []\<rparr>, snd r)"

definition store_run :: "server \<Rightarrow> run \<Rightarrow> bool \<times> run" where
  "store_run srv r =
     and_run (each_run (\<lambda>(folder, items). folder_stored srv folder items) (w_folders (fst r)))
       (restores_run srv) ((fst r)\<lparr>w_folders := []\<rparr>, snd r)"

end
