(* ===== verification/Send_Progress.thy ===== *)
theory Send_Progress
  imports Email_Set_Send "HOL-Library.Multiset"
begin

text \<open>
  What a finished update or destroy means: every part the plan gave it is in the write that goes to
  the rows. A run may stop anywhere; the tallies tell which updates got all their parts.
\<close>

subsection \<open>Jobs\<close>

declare split_paired_All [simp del] split_paired_Ex [simp del]

datatype part = KeysPart edit "string list" | LabelsPart relabel | MovePart mailbox_id "relabel option" | GonePart

type_synonym job = "mailbox_id \<times> part \<times> set_member"

definition job_index :: "job \<Rightarrow> nat" where
  "job_index j = mem_index (snd (snd j))"

definition jobs_of :: "mailbox_id \<Rightarrow> part \<Rightarrow> set_member list \<Rightarrow> job list" where
  "jobs_of folder p ms = map (\<lambda>m. (folder, p, m)) ms"

definition folder_jobs :: "mailbox_id \<Rightarrow> folder_work \<Rightarrow> job list" where
  "folder_jobs folder f =
     concat (map (\<lambda>g. jobs_of folder (KeysPart (kg_edit g) (kg_remove g)) (kg_members g)) (f_keywords f)) @
     concat (map (\<lambda>g. jobs_of folder (LabelsPart (lg_relabel g)) (lg_members g)) (f_labels f)) @
     concat (map (\<lambda>g. jobs_of folder (MovePart (mg_to g) (mg_then g)) (mg_members g)) (f_moves f)) @
     jobs_of folder GonePart (f_destroys f) @ jobs_of folder GonePart (f_trashes f)"

text \<open>What the write holds of a job, and what still waits for its labels.\<close>

fun stored_in :: "set_write \<Rightarrow> job \<Rightarrow> bool" where
  "stored_in s (folder, KeysPart e rm, m) \<longleftrightarrow>
     \<lparr>kc_id = mem_id m, kc_folder = folder, kc_uid = mem_uid m, kc_add = e_set e, kc_remove = rm\<rparr> \<in> set (sw_keywords s)"
| "stored_in s (folder, LabelsPart r, m) \<longleftrightarrow>
     \<lparr>lc_id = mem_id m, lc_folder = folder, lc_uid = mem_uid m, lc_add = r_add r, lc_remove = r_remove r\<rparr> \<in> set (sw_labels s)"
| "stored_in s (folder, MovePart to thn, m) \<longleftrightarrow>
     list_ex (\<lambda>c. mc_id c = mem_id m \<and> mc_from c = folder \<and> mc_from_uid c = mem_uid m \<and> mc_to c = to) (sw_moves s) \<or>
     thn = None \<and> \<lparr>go_id = mem_id m, go_folder = folder, go_uid = mem_uid m\<rparr> \<in> set (sw_lost s)"
| "stored_in s (folder, GonePart, m) \<longleftrightarrow>
     \<lparr>go_id = mem_id m, go_folder = folder, go_uid = mem_uid m\<rparr> \<in> set (sw_gone s)"

fun queued :: "restore list \<Rightarrow> job \<Rightarrow> bool" where
  "queued q (folder, MovePart to thn, m) \<longleftrightarrow> list_ex (\<lambda>rs. rs_member rs = m \<and> rs_from rs = folder \<and> rs_to rs = to) q"
| "queued q (folder, _, m) \<longleftrightarrow> False"

definition recorded :: "work \<Rightarrow> job \<Rightarrow> bool" where
  "recorded w j \<longleftrightarrow> stored_in (w_stored w) j \<or> queued (w_restores w) j"

definition count_jobs :: "nat \<Rightarrow> job list \<Rightarrow> nat" where
  "count_jobs i js = length (filter (\<lambda>j. job_index j = i) js)"

definition owing :: "work \<Rightarrow> nat \<Rightarrow> job list \<Rightarrow> nat" where
  "owing w i js = length (filter (\<lambda>j. job_index j = i \<and> \<not> recorded w j) js)"

definition queue_of :: "work \<Rightarrow> nat \<Rightarrow> nat" where
  "queue_of w i = length (filter (\<lambda>rs. mem_index (rs_member rs) = i) (w_restores w))"

text \<open>
  A stretch of a run over some jobs: no failure is taken back, nothing recorded is lost, and an
  update that has not failed has counted down no more than the jobs recorded for it.
\<close>

definition advances :: "job list \<Rightarrow> work \<Rightarrow> work \<Rightarrow> bool" where
  "advances js w w' \<longleftrightarrow>
     length (w_tallies w') = length (w_tallies w) \<and>
     (\<forall>j. recorded w j \<longrightarrow> recorded w' j) \<and>
     (\<forall>i < length (w_tallies w). t_failed (w_tallies w ! i) \<noteq> None \<longrightarrow> t_failed (w_tallies w' ! i) \<noteq> None) \<and>
     (\<forall>i < length (w_tallies w). t_failed (w_tallies w' ! i) = None \<longrightarrow>
        t_left (w_tallies w ! i) + owing w' i js + queue_of w' i \<le> t_left (w_tallies w' ! i) + count_jobs i js + queue_of w i)"

lemma nth_update_at: "i < length xs \<Longrightarrow> xs[j := v] ! i = (if j = i then v else xs ! i)"
  by simp

lemma owing_le: "owing w i js \<le> count_jobs i js"
  unfolding owing_def count_jobs_def by (induction js) auto

lemma owing_append: "owing w i (js @ ks) = owing w i js + owing w i ks"
  by (simp add: owing_def)

lemma count_append: "count_jobs i (js @ ks) = count_jobs i js + count_jobs i ks"
  by (simp add: count_jobs_def)

lemma owing_mono: "(\<And>j. recorded w j \<Longrightarrow> recorded w' j) \<Longrightarrow> owing w' i js \<le> owing w i js"
  unfolding owing_def by (induction js) auto

lemma advances_tally:
  "advances js w w' \<Longrightarrow> i < length (w_tallies w) \<Longrightarrow> t_failed (w_tallies w' ! i) = None \<Longrightarrow>
     t_left (w_tallies w ! i) + owing w' i js + queue_of w' i \<le> t_left (w_tallies w' ! i) + count_jobs i js + queue_of w i"
  by (simp add: advances_def)

lemma advances_trans:
  assumes a: "advances js w v" and b: "advances ks v u"
  shows "advances (js @ ks) w u"
  unfolding advances_def
proof (intro conjI allI impI)
  show "length (w_tallies u) = length (w_tallies w)" using a b by (simp add: advances_def)
  show "recorded u j" if "recorded w j" for j using that a b by (simp add: advances_def)
  fix i assume i: "i < length (w_tallies w)"
  show "t_failed (w_tallies u ! i) \<noteq> None" if "t_failed (w_tallies w ! i) \<noteq> None"
    using that i a b unfolding advances_def by metis
  assume u: "t_failed (w_tallies u ! i) = None"
  then have v: "t_failed (w_tallies v ! i) = None" using i a b unfolding advances_def by metis
  have 1: "t_left (w_tallies w ! i) + owing v i js + queue_of v i \<le> t_left (w_tallies v ! i) + count_jobs i js + queue_of w i"
    by (rule advances_tally [OF a i v])
  have 2: "t_left (w_tallies v ! i) + owing u i ks + queue_of u i \<le> t_left (w_tallies u ! i) + count_jobs i ks + queue_of v i"
    using a b u i by (simp add: advances_def)
  have "owing u i js \<le> owing v i js" using b by (intro owing_mono) (simp add: advances_def)
  with 1 2 show "t_left (w_tallies w ! i) + owing u i (js @ ks) + queue_of u i \<le>
      t_left (w_tallies u ! i) + count_jobs i (js @ ks) + queue_of w i"
    by (simp add: owing_append count_append)
qed

lemma advances_mset: "mset js = mset ks \<Longrightarrow> advances js w w' \<longleftrightarrow> advances ks w w'"
proof -
  assume m: "mset js = mset ks"
  have "length (filter P js) = length (filter P ks)" for P
    using m by (metis mset_filter size_mset)
  then show ?thesis by (simp add: advances_def owing_def count_jobs_def)
qed

text \<open>A step that counts nothing down is one over any jobs.\<close>

definition idles :: "work \<Rightarrow> work \<Rightarrow> bool" where
  "idles w w' \<longleftrightarrow>
     length (w_tallies w') = length (w_tallies w) \<and> w_restores w' = w_restores w \<and>
     (\<forall>j. stored_in (w_stored w) j \<longrightarrow> stored_in (w_stored w') j) \<and>
     (\<forall>i < length (w_tallies w). t_left (w_tallies w' ! i) = t_left (w_tallies w ! i) \<and>
        (t_failed (w_tallies w ! i) \<noteq> None \<longrightarrow> t_failed (w_tallies w' ! i) \<noteq> None))"

lemma idles_advances:
  assumes "idles w w'"
  shows "advances js w w'"
proof -
  have "recorded w j \<Longrightarrow> recorded w' j" for j using assms by (auto simp: idles_def recorded_def)
  moreover have "queue_of w' i = queue_of w i" for i using assms by (simp add: idles_def queue_of_def)
  moreover have "owing w' i js \<le> count_jobs i js" for i by (rule owing_le)
  ultimately show ?thesis using assms by (simp add: advances_def idles_def)
qed

lemma idles_refl: "idles w w"
  by (simp add: idles_def)

lemmas advances_skip = idles_advances [OF idles_refl]

lemma idles_trans: "idles w v \<Longrightarrow> idles v u \<Longrightarrow> idles w u"
  by (simp add: idles_def)

lemma idles_then: "idles w v \<Longrightarrow> advances js v u \<Longrightarrow> advances js w u"
  using advances_trans [OF idles_advances [of w v "[]"]] by simp

lemma then_idles: "advances js w v \<Longrightarrow> idles v u \<Longrightarrow> advances js w u"
  using advances_trans [OF _ idles_advances [of v u "[]"]] by simp

lemma idles_settle_one: "idles w (settle_one e w m)"
  by (simp add: idles_def settle_one_def Let_def nth_update_at split: option.split)

lemma idles_settle: "idles w (settle w ms e)"
  unfolding settle_def by (induction ms arbitrary: w) (auto intro: idles_refl idles_trans [OF idles_settle_one])

lemma idles_without_commands: "idles w (without_commands items w)"
proof -
  have i: "idles w (if b then settle v ms e else v)" if "idles w v" for b v ms e
    using that idles_settle idles_trans by auto
  show ?thesis unfolding without_commands_def Let_def by (intro i idles_refl)
qed

text \<open>A step that counts one part down records its job.\<close>

lemma advances_done:
  assumes "w_tallies w' = w_tallies (part_done m w)" "w_restores w' = w_restores w"
    and mono: "\<And>j. stored_in (w_stored w) j \<Longrightarrow> stored_in (w_stored w') j"
    and new: "stored_in (w_stored w') (folder, p, m)"
  shows "advances [(folder, p, m)] w w'"
proof -
  have t: "w_tallies w' = (w_tallies w)[mem_index m := (w_tallies w ! mem_index m)\<lparr>t_left := t_left (w_tallies w ! mem_index m) - 1\<rparr>]"
    using assms(1) by (simp add: part_done_def Let_def)
  have "owing w' i [(folder, p, m)] = 0" for i
    using new by (simp add: owing_def recorded_def)
  moreover have "queue_of w' i = queue_of w i" for i using assms(2) by (simp add: queue_of_def)
  ultimately show ?thesis using mono assms(2)
    by (auto simp: advances_def recorded_def t nth_update_at count_jobs_def job_index_def)
qed

lemma advances_keep_keywords:
  "advances [(folder, KeysPart (kg_edit g) (kg_remove g), m)] w (keep_keywords folder g w m)"
proof (rule advances_done)
  show "stored_in (w_stored w) j \<Longrightarrow> stored_in (w_stored (keep_keywords folder g w m)) j" for j
    by (cases "(w_stored w, j)" rule: stored_in.cases) (auto simp: keep_keywords_def part_done_def Let_def)
qed (simp_all add: keep_keywords_def part_done_def Let_def)

lemma advances_keep_labels: "advances [(folder, LabelsPart r, m)] w (keep_labels folder r w m)"
proof (rule advances_done)
  show "stored_in (w_stored w) j \<Longrightarrow> stored_in (w_stored (keep_labels folder r w m)) j" for j
    by (cases "(w_stored w, j)" rule: stored_in.cases) (auto simp: keep_labels_def part_done_def Let_def)
qed (simp_all add: keep_labels_def part_done_def Let_def)

lemma advances_keep_gone: "advances [(folder, GonePart, m)] w (keep_gone folder w m)"
proof (rule advances_done)
  show "stored_in (w_stored w) j \<Longrightarrow> stored_in (w_stored (keep_gone folder w m)) j" for j
    by (cases "(w_stored w, j)" rule: stored_in.cases) (auto simp: keep_gone_def part_done_def Let_def)
qed (simp_all add: keep_gone_def part_done_def Let_def)

lemma stored_push_move: "stored_in (w_stored w) j \<Longrightarrow> stored_in (w_stored (push_move c w)) j"
  by (cases "(w_stored w, j)" rule: stored_in.cases) (auto simp: push_move_def)

lemma stored_push_lost: "stored_in (w_stored w) j \<Longrightarrow> stored_in (w_stored (push_lost c w)) j"
  by (cases "(w_stored w, j)" rule: stored_in.cases) (auto simp: push_lost_def)

lemma idles_push_lost: "idles w (push_lost c w)"
  using stored_push_lost by (auto simp: idles_def push_lost_def)

lemma advances_moved:
  assumes "mc_id c = mem_id m" "mc_from c = folder" "mc_from_uid c = mem_uid m" "mc_to c = to"
  shows "advances [(folder, MovePart to thn, m)] w (push_move c (part_done m w))"
proof (rule advances_done)
  show "stored_in (w_stored w) j \<Longrightarrow> stored_in (w_stored (push_move c (part_done m w))) j" for j
    by (rule stored_push_move) (simp add: part_done_def Let_def)
qed (simp_all add: assms push_move_def part_done_def Let_def)

lemma advances_lost:
  "advances [(folder, MovePart to None, m)] w (part_done m (push_lost \<lparr>go_id = mem_id m, go_folder = folder, go_uid = mem_uid m\<rparr> w))"
proof (rule advances_done)
  let ?c = "\<lparr>go_id = mem_id m, go_folder = folder, go_uid = mem_uid m\<rparr>"
  show "stored_in (w_stored w) j \<Longrightarrow> stored_in (w_stored (part_done m (push_lost ?c w))) j" for j
    using stored_push_lost [of w j ?c] by (simp add: part_done_def Let_def)
qed (simp_all add: push_lost_def part_done_def Let_def)

lemma advances_queued:
  assumes "rs_member rs = m" "rs_from rs = folder" "rs_to rs = to"
  shows "advances [(folder, MovePart to thn, m)] w (w\<lparr>w_restores := w_restores w @ [rs]\<rparr>)"
proof -
  let ?w = "w\<lparr>w_restores := w_restores w @ [rs]\<rparr>"
  have mono: "recorded w j \<Longrightarrow> recorded ?w j" for j
    by (cases "(w_restores w, j)" rule: queued.cases) (auto simp: recorded_def)
  have "recorded ?w (folder, MovePart to thn, m)" using assms by (simp add: recorded_def)
  then have "owing ?w i [(folder, MovePart to thn, m)] = 0" for i by (simp add: owing_def)
  with mono assms(1) show ?thesis by (simp add: advances_def queue_of_def count_jobs_def job_index_def)
qed

lemma advances_landed_one: "advances [(folder, MovePart (mg_to g) (mg_then g), m)] w (landed_one folder g mv w m)"
proof -
  let ?c = "\<lparr>go_id = mem_id m, go_folder = folder, go_uid = mem_uid m\<rparr>"
  have settled: "advances js w (settle (push_lost ?c w) ms e)" for js ms e
    by (rule idles_advances [OF idles_trans [OF idles_push_lost idles_settle]])
  show ?thesis
  proof (cases mv)
    case None
    then show ?thesis
      using settled advances_lost by (cases "mg_then g") (simp_all add: landed_one_def Let_def)
  next
    case (Some a)
    then show ?thesis
      using settled by (auto simp: landed_one_def Let_def restore_change_def split: option.split
          intro!: advances_moved advances_queued)
  qed
qed

subsection \<open>Runs\<close>

abbreviation after :: "bool \<times> run \<Rightarrow> work" where "after r \<equiv> fst (snd r)"

lemma advances_foldl:
  assumes "\<And>w x. advances (J x) w (f w x)"
  shows "advances (concat (map J xs)) w (foldl f w xs)"
proof (induction xs arbitrary: w)
  case (Cons x xs)
  show ?case using advances_trans [OF assms Cons.IH, of x w] by simp
qed (simp add: advances_skip)

lemma advances_members:
  assumes "\<And>w m. advances [(folder, p, m)] w (f w m)"
  shows "advances (jobs_of folder p ms) w (foldl f w ms)"
  using advances_foldl [of "\<lambda>m. [(folder, p, m)]" f ms w] assms by (simp add: jobs_of_def)

lemma advances_each:
  assumes "\<And>x r. advances (J x) (fst r) (after (f x r))"
  shows "advances (concat (map J xs)) (fst r) (after (each_run f xs r))"
proof (induction xs arbitrary: r)
  case (Cons x xs)
  obtain s r' where s: "f x r = (s, r')" by fastforce
  have x: "advances (J x) (fst r) (fst r')" using assms [of x r] s by simp
  show ?case
  proof (cases s)
    case True
    then show ?thesis using advances_trans [OF x Cons.IH] s by simp
  next
    case False
    then show ?thesis using advances_trans [OF x advances_skip] s by simp
  qed
qed (simp add: advances_skip)

lemma advances_and:
  assumes "advances js (fst r) (after (f r))" "\<And>r. advances ks (fst r) (after (g r))"
  shows "advances (js @ ks) (fst r) (after (and_run f g r))"
proof -
  obtain s r' where s: "f r = (s, r')" by fastforce
  have f: "advances js (fst r) (fst r')" using assms(1) s by simp
  show ?thesis
    using advances_trans [OF f assms(2) [of r']] advances_trans [OF f advances_skip] s
    by (cases s) (simp_all add: and_run_def)
qed

lemma advances_batch:
  assumes "\<And>a. advances js w (ok a w)"
  shows "advances js w (after (batch ms ok ans w))"
proof -
  obtain res log where "ans = (res, log)" by fastforce
  then show ?thesis
    using assms idles_advances [OF idles_settle]
    by (cases res) (auto simp: batch_def Let_def split: prod.split)
qed

lemma concat_chunks: "0 < n \<Longrightarrow> concat (chunks n xs) = xs"
proof (induction n xs rule: chunks.induct)
  case (1 n xs)
  then show ?case by (subst chunks.simps) (simp add: append_take_drop_id)
qed

lemma jobs_standing:
  assumes "advances (jobs_of folder p (standing w ms)) w w'"
  shows "advances (jobs_of folder p ms) w w'"
proof -
  let ?ok = "\<lambda>m. t_failed (w_tallies w ! mem_index m) = None"
  have m: "mset (standing w ms) = mset (filter ?ok ms)" by (simp add: standing_def)
  have a: "advances (jobs_of folder p (filter ?ok ms)) w w'"
    using assms advances_mset [of "jobs_of folder p (standing w ms)" "jobs_of folder p (filter ?ok ms)"] m
    by (simp add: jobs_of_def)
  have same: "count_jobs i (jobs_of folder p (filter ?ok ms)) = count_jobs i (jobs_of folder p ms) \<and>
      owing w' i (jobs_of folder p (filter ?ok ms)) = owing w' i (jobs_of folder p ms)"
    if "t_failed (w_tallies w ! i) = None" for i
    using that by (induction ms) (auto simp: count_jobs_def owing_def jobs_of_def job_index_def)
  have live: "t_failed (w_tallies w ! i) = None" if "i < length (w_tallies w)" "t_failed (w_tallies w' ! i) = None" for i
    using a that unfolding advances_def by metis
  show ?thesis using a same live by (simp add: advances_def)
qed

lemma advances_standing:
  assumes "\<And>ms r. advances (jobs_of folder p ms) (fst r) (after (f ms r))"
  shows "advances (jobs_of folder p ms) (fst r) (after (each_run f (chunks MAX_STORE_UIDS (standing (fst r) ms)) r))"
proof (rule jobs_standing)
  have j: "concat (map (jobs_of folder p) xss) = jobs_of folder p (concat xss)" for xss
    by (induction xss) (simp_all add: jobs_of_def)
  have c: "concat (chunks MAX_STORE_UIDS (standing (fst r) ms)) = standing (fst r) ms"
    by (rule concat_chunks) (simp add: MAX_STORE_UIDS_def)
  show "advances (jobs_of folder p (standing (fst r) ms)) (fst r)
      (after (each_run f (chunks MAX_STORE_UIDS (standing (fst r) ms)) r))"
    using advances_each [of "jobs_of folder p" f, OF assms, where xs = "chunks MAX_STORE_UIDS (standing (fst r) ms)" and r = r]
    unfolding j c .
qed

lemma batch_jobs:
  assumes "\<And>w m. advances [(folder, p, m)] w (f w m)"
  shows "advances (jobs_of folder p ms) w (after (batch ms (\<lambda>_ w. foldl f w ms) ans w))"
  by (rule advances_batch) (rule advances_members [OF assms])

lemma keywords_run_advances:
  "advances (concat (map (\<lambda>g. jobs_of folder (KeysPart (kg_edit g) (kg_remove g)) (kg_members g)) groups))
     (fst r) (after (keywords_run srv folder wr groups r))"
proof -
  let ?J = "\<lambda>g. jobs_of folder (KeysPart (kg_edit g) (kg_remove g)) (kg_members g)"
  have group: "advances (?J g) (fst r) (after (group_stored srv folder g r))" for g r
    unfolding group_stored_def
    by (rule advances_standing) (auto simp: case_prod_beta intro: batch_jobs advances_keep_keywords)
  show ?thesis unfolding keywords_run_def
  proof (rule advances_each)
    fix g and r :: run
    show "advances (?J g) (fst r) (after ((\<lambda>(w, log). case lasting wr g of Inl e \<Rightarrow> (True, settle w (kg_members g) e, log)
        | Inr _ \<Rightarrow> group_stored srv folder g (w, log)) r))"
      using group [of g r] idles_advances [OF idles_settle] by (cases "lasting wr g") (auto simp: case_prod_beta)
  qed
qed

lemma labels_run_advances:
  "advances (concat (map (\<lambda>g. jobs_of folder (LabelsPart (lg_relabel g)) (lg_members g)) groups))
     (fst r) (after (labels_run srv folder groups r))"
  unfolding labels_run_def
  by (rule advances_each, rule advances_standing) (auto simp: case_prod_beta intro: batch_jobs advances_keep_labels)

lemma moves_run_advances:
  "advances (concat (map (\<lambda>g. jobs_of folder (MovePart (mg_to g) (mg_then g)) (mg_members g)) groups))
     (fst r) (after (moves_run srv folder wr groups r))"
proof -
  let ?J = "\<lambda>g. jobs_of folder (MovePart (mg_to g) (mg_then g)) (mg_members g)"
  have landed: "advances (jobs_of folder (MovePart (mg_to g) (mg_then g)) ms) w (landed folder g ms mv w)" for g ms w mv
    unfolding landed_def by (rule advances_members) (rule advances_landed_one)
  have batches: "advances (?J g) (fst r)
      (after (each_run (\<lambda>ms (w, log). let ask = A ms in batch ms (landed folder g ms) (B ask log) w)
        (chunks MAX_STORE_UIDS (standing (fst r) (mg_members g))) r))" for g r A and B :: "move_ask \<Rightarrow> exchange list \<Rightarrow> moved option answer"
    by (rule advances_standing) (auto simp: case_prod_beta Let_def intro: advances_batch landed)
  show ?thesis unfolding moves_run_def Let_def
    by (rule advances_each)
      (use batches in \<open>auto simp: case_prod_beta Let_def split: option.split intro: idles_advances idles_settle\<close>)
qed

lemma destroys_run_advances: "advances (jobs_of folder GonePart ms) (fst r) (after (destroys_run srv folder wr ms r))"
proof (cases "keeps wr DELETED")
  case True
  have "advances (jobs_of folder GonePart ms) (fst r)
      (after (each_run (\<lambda>ms (w, log). taken_out folder ms (uid_expunge srv (map mem_uid ms) log) w)
        (chunks MAX_STORE_UIDS (standing (fst r) ms)) r))"
    by (rule advances_standing) (auto simp: case_prod_beta taken_out_def intro: batch_jobs advances_keep_gone)
  with True show ?thesis by (simp add: destroys_run_def)
qed (simp add: destroys_run_def idles_advances [OF idles_settle])

lemma trashes_run_advances: "advances (jobs_of folder GonePart ms) (fst r) (after (trashes_run srv folder ms r))"
proof -
  have "advances (jobs_of folder GonePart ms) (fst r)
      (after (each_run (\<lambda>ms (w, log). taken_out folder ms
        (uid_move srv \<lparr>ma_uids = map mem_uid ms, ma_target = imap_name (facts t)\<rparr> log) w)
        (chunks MAX_STORE_UIDS (standing (fst r) ms)) r))" for t
    by (rule advances_standing) (auto simp: case_prod_beta taken_out_def intro: batch_jobs advances_keep_gone)
  then show ?thesis
    by (auto simp: trashes_run_def intro: advances_skip idles_advances idles_settle split: option.split)
qed

lemma select_folder_idles: "idles (fst r) (fst (snd (select_folder srv folder ms r)))"
  by (auto simp: select_folder_def Let_def case_prod_beta intro: idles_refl idles_settle split: option.split prod.split sum.split)

lemma folder_stored_advances: "advances (folder_jobs folder items) (fst r) (after (folder_stored srv folder items r))"
proof -
  let ?r = "(without_commands items (fst r), snd r)"
  obtain found r' where s: "select_folder srv folder (folder_members items) ?r = (found, r')" by fastforce
  have i: "idles (fst r) (fst r')"
    using idles_trans [OF idles_without_commands select_folder_idles [of ?r srv folder "folder_members items", simplified]] s
    by simp
  have body: "advances (folder_jobs folder items) (fst r')
      (after (and_run (keywords_run srv folder wr (f_keywords items))
               (and_run (labels_run srv folder (f_labels items))
                 (and_run (moves_run srv folder wr (f_moves items))
                   (and_run (destroys_run srv folder wr (f_destroys items))
                     (trashes_run srv folder (f_trashes items))))) r'))" for wr
    unfolding folder_jobs_def
    by (intro advances_and keywords_run_advances labels_run_advances moves_run_advances destroys_run_advances trashes_run_advances)
  show ?thesis
    using idles_then [OF i body] idles_advances [OF i] idles_advances [OF idles_without_commands]
    by (auto simp: folder_stored_def Let_def s split: option.split prod.split)
qed

subsection \<open>Restores\<close>

definition restore_job :: "restore \<Rightarrow> job" where
  "restore_job rs = (rs_from rs, MovePart (rs_to rs) (Some (rs_relabel rs)), rs_member rs)"

lemma restored_one_advances: "advances [restore_job rs] w (restored_one rd w rs)"
  unfolding restored_one_def restore_job_def by (rule advances_moved) (simp_all add: restore_change_def)

lemma unrestored_one_idles: "idles w (unrestored_one e w rs)"
proof -
  have "idles v (push_move c v)" for v c
    using stored_push_move by (auto simp: idles_def push_move_def)
  then show ?thesis unfolding unrestored_one_def by (rule idles_trans [OF idles_settle])
qed

lemma target_restored_advances: "advances (map restore_job rss) (fst r) (after (target_restored srv to rss r))"
proof -
  have ok: "advances (map restore_job rss) w (foldl (restored_one rd) w rss)" for w rd
    using advances_foldl [of "\<lambda>rs. [restore_job rs]" "restored_one rd" rss w] restored_one_advances by simp
  have no: "idles w (foldl (unrestored_one e) w rss)" for w e
    by (induction rss arbitrary: w) (auto intro: idles_refl idles_trans [OF unrestored_one_idles])
  show ?thesis
    by (auto simp: target_restored_def Let_def intro: ok idles_advances no split: prod.split sum.split option.split)
qed

lemma by_target_mset: "mset (concat (map snd (by_target q))) = mset q"
proof -
  let ?step = "\<lambda>m rs. bt_insert (rs_to rs) ((case bt_get m (rs_to rs) of None \<Rightarrow> [] | Some l \<Rightarrow> l) @ [rs]) m"
  have sum: "mset (concat (map snd m)) = sum_list (map (\<lambda>(k, x). mset x) m)" for m :: "(mailbox_id, restore list) bt"
    by (induction m) auto
  have "bt_ok m \<Longrightarrow> mset (concat (map snd (foldl ?step m q))) = mset (concat (map snd m)) + mset q" for m
  proof (induction q arbitrary: m)
    case (Cons rs q)
    have "mset (concat (map snd (?step m rs))) = mset (concat (map snd m)) + {#rs#}"
      using bt_insert_sum [OF Cons.prems, of mset "rs_to rs" "(case bt_get m (rs_to rs) of None \<Rightarrow> [] | Some l \<Rightarrow> l) @ [rs]"]
      by (simp add: sum split: option.splits)
    then show ?case using Cons.IH [OF bt_ok_insert [OF Cons.prems]] by simp
  qed simp
  from this [OF bt_ok_Nil] show ?thesis by (simp add: by_target_def)
qed

lemma restores_run_advances:
  "advances (map restore_job (w_restores (fst r))) ((fst r)\<lparr>w_restores := []\<rparr>) (after (restores_run srv r))"
proof -
  let ?q = "by_target (w_restores (fst r))"
  have "advances (map restore_job (snd t)) (fst r) (after ((\<lambda>(to, rss). target_restored srv to rss) t r))" for t r
    using target_restored_advances by (simp add: case_prod_beta)
  from advances_each [OF this, where xs = ?q and r = "((fst r)\<lparr>w_restores := []\<rparr>, snd r)"]
  have "advances (concat (map (\<lambda>t. map restore_job (snd t)) ?q)) ((fst r)\<lparr>w_restores := []\<rparr>) (after (restores_run srv r))"
    by (simp add: restores_run_def)
  moreover have "mset (concat (map (\<lambda>t. map restore_job (snd t)) ?q)) = image_mset restore_job (mset (concat (map snd ?q)))"
    by (simp add: mset_map [symmetric] map_concat o_def del: mset_map)
  then have "mset (concat (map (\<lambda>t. map restore_job (snd t)) ?q)) = mset (map restore_job (w_restores (fst r)))"
    by (simp only: by_target_mset mset_map)
  ultimately show ?thesis using advances_mset by blast
qed

subsection \<open>Every finished update is stored\<close>

definition all_jobs :: "work \<Rightarrow> job list" where
  "all_jobs w = concat (map (\<lambda>(folder, f). folder_jobs folder f) (w_folders w))"

lemma count_folder_jobs: "count_jobs i (folder_jobs folder f) = in_folder i f"
proof -
  have c: "count_jobs i (jobs_of folder p ms) = length (filter (\<lambda>m. mem_index m = i) ms)" for p ms
    by (induction ms) (auto simp: count_jobs_def jobs_of_def job_index_def)
  have cc: "count_jobs i (concat (map (\<lambda>g. jobs_of folder (P g) (M g)) gs)) =
      length (filter (\<lambda>m. mem_index m = i) (concat (map M gs)))" for P and M :: "'a \<Rightarrow> set_member list" and gs
    by (induction gs) (simp_all add: c count_append count_jobs_def [of i "[]"])
  have cat: "count_jobs i (js @ ks) = count_jobs i js + count_jobs i ks" for js ks by (rule count_append)
  show ?thesis
    unfolding folder_jobs_def in_folder_def folder_members_def cat c filter_append length_append
    by (simp only: cc [of "\<lambda>g. KeysPart (kg_edit g) (kg_remove g)" kg_members]
        cc [of "\<lambda>g. LabelsPart (lg_relabel g)" lg_members] cc [of "\<lambda>g. MovePart (mg_to g) (mg_then g)" mg_members])
qed

lemma count_all_jobs: "count_jobs i (all_jobs w) = waiting w i"
proof -
  have "count_jobs i (concat (map (\<lambda>(folder, f). folder_jobs folder f) fs)) = sum_list (map (\<lambda>(folder, f). in_folder i f) fs)" for fs
    by (induction fs) (auto simp: count_append count_folder_jobs count_jobs_def [of i "[]"])
  then show ?thesis by (simp add: all_jobs_def waiting_def)
qed

lemma owing_none: "owing w i js = 0 \<Longrightarrow> j \<in> set js \<Longrightarrow> job_index j = i \<Longrightarrow> recorded w j"
  unfolding owing_def by (induction js) (auto split: if_splits)

lemma queue_none: "queue_of w i = 0 \<Longrightarrow> job_index j = i \<Longrightarrow> recorded w j \<Longrightarrow> stored_in (w_stored w) j"
  by (cases "(w_restores w, j)" rule: queued.cases)
    (auto simp: queue_of_def recorded_def job_index_def list_ex_iff filter_empty_conv)

text \<open>The plan sends nothing: the rows are as read and nothing is stored yet.\<close>

lemma planned_start:
  assumes "planned ask state found rows letters = Some (w, x)"
  shows "w_restores w = []" "w_rows w = rows" "w_stored w = w_stored (work_start ask state rows letters)"
proof -
  define same where "same v u \<longleftrightarrow> w_restores v = w_restores u \<and> w_rows v = w_rows u \<and> w_stored v = w_stored u" for v u :: work
  have u: "same (or_failed v n (update_one v n f p l)) v" for v n f p l
    by (auto simp: or_failed_def same_def elim!: update_one_Inr split: sum.split)
  have d: "same (or_failed v n (destroy_one v n f l)) v" for v n f l
    by (auto simp: or_failed_def same_def elim!: destroy_one_Inr split: sum.split)
  have us: "same (plan_updates v row_of l n us) v" for v row_of l n us
    using u by (induction us arbitrary: v n) (auto simp: same_def)
  have ds: "same (plan_destroys v row_of l n ds) v" for v row_of l n ds
    using d by (induction ds arbitrary: v n) (auto simp: same_def)
  show "w_restores w = []" "w_rows w = rows" "w_stored w = w_stored (work_start ask state rows letters)"
    using assms us ds by (auto simp: planned_def Let_def same_def work_start_def split: if_splits)
qed

text \<open>The two stretches of a run, and what a tally at zero says after them.\<close>

lemma finished_jobs:
  assumes adv: "advances js w v" and q: "w_restores w = []" and i: "i < length (w_tallies w)"
    and start: "t_left (w_tallies w ! i) = count_jobs i js"
    and rest: "u = v \<or> advances (map restore_job (w_restores v)) (v\<lparr>w_restores := []\<rparr>) u"
    and t: "t_failed (w_tallies u ! i) = None" "t_left (w_tallies u ! i) = 0"
    and j: "j \<in> set js" "job_index j = i"
  shows "stored_in (w_stored u) j"
  using rest
proof
  assume "u = v"
  then have "t_left (w_tallies w ! i) + owing v i js + queue_of v i \<le> t_left (w_tallies v ! i) + count_jobs i js + queue_of w i"
    using advances_tally [OF adv i] t(1) by simp
  then have "owing v i js + queue_of v i = 0" using start t(2) q \<open>u = v\<close> by (simp add: queue_of_def [of w])
  then show ?thesis using queue_none [of v i j] owing_none [of v i js j] j \<open>u = v\<close> by simp
next
  let ?v = "v\<lparr>w_restores := []\<rparr>" and ?rs = "map restore_job (w_restores v)"
  assume r: "advances ?rs ?v u"
  have i': "i < length (w_tallies v)" using adv i by (simp add: advances_def)
  have live: "t_failed (w_tallies v ! i) = None" using r t(1) i' unfolding advances_def by fastforce
  have "t_left (w_tallies w ! i) + owing v i js + queue_of v i \<le> t_left (w_tallies v ! i) + count_jobs i js + queue_of w i"
    by (rule advances_tally [OF adv i live])
  then have one: "owing v i js + queue_of v i \<le> t_left (w_tallies v ! i)" using start q by (simp add: queue_of_def [of w])
  have "t_left (w_tallies v ! i) + owing u i ?rs + queue_of u i \<le> count_jobs i ?rs"
    using advances_tally [OF r _ t(1)] i' t(2) by (simp add: queue_of_def [of ?v])
  moreover have "count_jobs i ?rs = queue_of v i"
    by (simp add: count_jobs_def queue_of_def filter_map o_def job_index_def restore_job_def)
  ultimately have none: "owing v i js = 0" "owing u i ?rs = 0" "queue_of u i = 0" using one by simp_all
  from owing_none [OF none(1) j] have "recorded v j" .
  then consider "stored_in (w_stored v) j" | "queued (w_restores v) j" by (auto simp: recorded_def)
  then show ?thesis
  proof cases
    case 1
    then have "recorded ?v j" by (simp add: recorded_def)
    then have "recorded u j" using r by (simp add: advances_def)
    then show ?thesis using queue_none [OF none(3) j(2)] by simp
  next
    case 2
    then obtain folder to thn m rs where jj: "j = (folder, MovePart to thn, m)"
      and rs: "rs \<in> set (w_restores v)" "rs_member rs = m" "rs_from rs = folder" "rs_to rs = to"
      by (cases "(w_restores v, j)" rule: queued.cases) (auto simp: list_ex_iff)
    have idx: "job_index (restore_job rs) = i" using j(2) rs by (simp add: jj job_index_def restore_job_def)
    have "recorded u (restore_job rs)" using owing_none [OF none(2) _ idx] rs(1) by simp
    then have "stored_in (w_stored u) (restore_job rs)" using queue_none [OF none(3) idx] by simp
    then show ?thesis using rs by (simp add: jj restore_job_def)
  qed
qed

lemma store_run_stretches:
  obtains v where "advances (all_jobs w) (w\<lparr>w_folders := []\<rparr>) v"
    "after (store_run srv (w, log)) = v \<or>
     advances (map restore_job (w_restores v)) (v\<lparr>w_restores := []\<rparr>) (after (store_run srv (w, log)))"
proof -
  let ?f = "\<lambda>(folder, items). folder_stored srv folder items"
  have "advances (case t of (folder, f) \<Rightarrow> folder_jobs folder f) (fst r) (after (?f t r))" for t r
    using folder_stored_advances by (simp add: case_prod_beta)
  from advances_each [OF this, where xs = "w_folders w" and r = "(w\<lparr>w_folders := []\<rparr>, log)"]
  have a: "advances (all_jobs w) (w\<lparr>w_folders := []\<rparr>) (after (each_run ?f (w_folders w) (w\<lparr>w_folders := []\<rparr>, log)))"
    by (simp add: all_jobs_def)
  obtain s r where s: "each_run ?f (w_folders w) (w\<lparr>w_folders := []\<rparr>, log) = (s, r)" by fastforce
  show thesis
    by (rule that [of "fst r"]) (use a s restores_run_advances [of r srv] in \<open>auto simp: store_run_def and_run_def\<close>)
qed

text \<open>
  C20: An update or destroy that is answered as done is done in full: whatever the server answers and
  wherever the run stops, every keyword change, label change, move and destroy the plan gave it is
  among the writes that go to the rows, at the folder and UID planned (a move a server without
  UIDPLUS made is among the rows lost to the write).
\<close>

theorem finished_updates_are_stored:
  assumes plan: "planned ask state found rows letters = Some (w, x)"
    and run: "store_run srv (w\<lparr>w_moving := mv\<rparr>, log) = (stands, w', log')"
    and fin: "ended (w_tallies w' ! i) = Inr ()" and i: "i < length (updates ask) + length (destroy_ids ask)"
    and job: "(folder, f) \<in> set (w_folders w)" "j \<in> set (folder_jobs folder f)" "job_index j = i"
  shows "stored_in (w_stored w') j"
proof -
  let ?w = "w\<lparr>w_moving := mv\<rparr>"
  obtain v where v: "advances (all_jobs ?w) (?w\<lparr>w_folders := []\<rparr>) v"
    "after (store_run srv (?w, log)) = v \<or>
     advances (map restore_job (w_restores v)) (v\<lparr>w_restores := []\<rparr>) (after (store_run srv (?w, log)))"
    by (rule store_run_stretches)
  have u: "after (store_run srv (?w, log)) = w'" using run by simp
  have t: "t_failed (w_tallies w' ! i) = None" "t_left (w_tallies w' ! i) = 0"
    using fin by (auto simp: ended_def split: option.splits if_splits)
  have c: "t_left (w_tallies w ! i) = count_jobs i (all_jobs ?w)" "i < length (w_tallies w)"
    using planned_counted [OF plan] i count_all_jobs [of i w] by (auto simp: counted_def all_jobs_def)
  have "j \<in> set (all_jobs ?w)" using job by (auto simp: all_jobs_def)
  from finished_jobs [OF v(1) _ _ _ _ t this job(3)] v(2) c planned_start(1) [OF plan] show ?thesis
    by (simp add: u)
qed

definition demo_server :: server where
  "demo_server =
     \<lparr>on_select = (\<lambda>_ _. Inr \<lparr>wr_uid_validity = 1, wr_permanent = None, wr_read_only = False\<rparr>),
      on_store = (\<lambda>_ _. Inr ()), on_move = (\<lambda>_ _. Inr []), on_copy = (\<lambda>_ _. Inr []),
      on_expunge = (\<lambda>_ _. Inr ()), on_flags = (\<lambda>_ _. Inr [])\<rparr>"

lemma chunks_one: "xs \<noteq> [] \<Longrightarrow> length xs \<le> n \<Longrightarrow> chunks n xs = [xs]"
  by (cases xs) (simp_all add: chunks.simps [of n] chunks.simps [of n "[]"])

lemma demo_stored:
  "\<exists>w' log'. store_run demo_server (demo_work\<lparr>w_moving := \<lparr>move_command = True, uidplus = True\<rparr>\<rparr>, []) = (True, w', log') \<and>
     w_tallies w' ! 0 = \<lparr>t_left = 0, t_failed = None\<rparr>"
  by (simp add: store_run_def and_run_def demo_work_def folder_stored_def Let_def without_commands_def folder_members_def folder_default_def
     standing_def select_folder_def work_start_def demo_ask_def demo_row_def demo_folders_def row_get_def demo_server_def ask_select_def
     keywords_run_def lasting_def keeps_def group_stored_def chunks_one chunks.simps [of _ "[]"] commands_def keyword_asks_def runs_def
     labels_run_def moves_run_def destroys_run_def trashes_run_def restores_run_def by_target_def batch_def keep_keywords_def
     part_done_def MAX_STORE_UIDS_def uid_store_def moves_def work_moves_mail_def gmail_def settle_def)

theorem finished_updates_are_stored_witness:
  "\<exists>w' log'. store_run demo_server (demo_work\<lparr>w_moving := \<lparr>move_command = True, uidplus = True\<rparr>\<rparr>, []) = (True, w', log') \<and>
     stored_in (w_stored w') (''f1'', KeysPart (p_keywords (snd (updates demo_ask ! 0))) [], \<lparr>mem_index = 0, mem_id = ''e1'', mem_uid = 4\<rparr>)"
proof -
  obtain x where plan: "planned demo_ask 3 demo_found demo_folders [''f1'' \<mapsto> ''sri''] = Some (demo_work, x)"
    using demo_planned by blast
  obtain w' log' where run: "store_run demo_server (demo_work\<lparr>w_moving := \<lparr>move_command = True, uidplus = True\<rparr>\<rparr>, []) = (True, w', log')"
    and t: "w_tallies w' ! 0 = \<lparr>t_left = 0, t_failed = None\<rparr>"
    using demo_stored by blast
  have fin: "ended (w_tallies w' ! 0) = Inr ()" by (simp add: t ended_def)
  let ?f = "snd (hd (w_folders demo_work))"
  have f: "(''f1'', ?f) \<in> set (w_folders demo_work)" by (simp add: demo_work_def)
  have j: "(''f1'', KeysPart (p_keywords (snd (updates demo_ask ! 0))) [], \<lparr>mem_index = 0, mem_id = ''e1'', mem_uid = 4\<rparr>) \<in> set (folder_jobs ''f1'' ?f)"
    by (simp add: demo_work_def folder_jobs_def jobs_of_def demo_ask_def folder_default_def)
  have "stored_in (w_stored w') (''f1'', KeysPart (p_keywords (snd (updates demo_ask ! 0))) [], \<lparr>mem_index = 0, mem_id = ''e1'', mem_uid = 4\<rparr>)"
    by (rule finished_updates_are_stored [OF plan run fin _ f j]) (simp_all add: demo_ask_def job_index_def)
  with run show ?thesis by blast
qed

end
