(* ===== verification/Send_Acks.thy ===== *)
theory Send_Acks
  imports Send_Progress
begin

text \<open>
  What a run of \<open>Email/set\<close> may say to the server and may write down of its answers: every write
  names a folder that is open for writing and flags that folder keeps, and nothing goes to the rows
  that the server did not acknowledge in the folder the row lies in.
\<close>

subsection \<open>The exchanges\<close>

type_synonym opened = "(string \<times> writable) option"

fun is_select :: "exchange \<Rightarrow> bool" where
  "is_select (Selects _ _) = True"
| "is_select _ = False"

fun open_after :: "opened \<Rightarrow> exchange \<Rightarrow> opened" where
  "open_after cur (Selects mailbox (Inr wr)) = Some (mailbox, wr)"
| "open_after cur (Selects mailbox (Inl e)) = None"
| "open_after cur _ = cur"

text \<open>What the server acknowledged of a message, by the folder open at the time and its UID there.\<close>

datatype ack =
    FlagAck string nat store_item string bool
  | MoveAck string nat string "(nat \<times> nat) option"
  | CopyAck string nat string "(nat \<times> nat) option"
  | GoneAck string nat
  | LabelsRead string nat nat "string list"

definition pair_of :: "moved option \<Rightarrow> nat \<Rightarrow> (nat \<times> nat) option" where
  "pair_of mv uid =
     Option.bind mv (\<lambda>m. map_option (\<lambda>(_, u). (mv_uid_validity m, u)) (List.find (\<lambda>(from, _). from = uid) (mv_uids m)))"

fun acked :: "opened \<Rightarrow> exchange \<Rightarrow> ack list" where
  "acked (Some (f, wr)) (Stores ask (Inr _)) =
     concat (map (\<lambda>uid. map (\<lambda>fl. FlagAck f uid (sa_item ask) fl (sa_add ask)) (sa_flags ask)) (sa_uids ask))"
| "acked (Some (f, wr)) (Moves ask (Inr mv)) = map (\<lambda>uid. MoveAck f uid (ma_target ask) (pair_of mv uid)) (ma_uids ask)"
| "acked (Some (f, wr)) (Copies ask (Inr mv)) = map (\<lambda>uid. CopyAck f uid (ma_target ask) (pair_of mv uid)) (ma_uids ask)"
| "acked (Some (f, wr)) (Expunges uids (Inr _)) = map (GoneAck f) uids"
| "acked (Some (f, wr)) (Fetches span (Inr found)) =
     concat (map (\<lambda>x. case fl_labels x of None \<Rightarrow> [] | Some ls \<Rightarrow> [LabelsRead f (wr_uid_validity wr) (fl_uid x) (labels ls)]) found)"
| "acked _ _ = []"

fun acks :: "opened \<Rightarrow> exchange list \<Rightarrow> ack list" where
  "acks cur [] = []"
| "acks cur (x # xs) = acked cur x @ acks (open_after cur x) xs"

text \<open>A folder open for writing whose numbering is the one of a row of the store.\<close>

definition open_for_writing :: "mailbox_row list \<Rightarrow> opened \<Rightarrow> bool" where
  "open_for_writing rows cur =
     (case cur of
        None \<Rightarrow> False
      | Some (f, wr) \<Rightarrow> \<not> wr_read_only wr \<and>
          list_ex (\<lambda>row. imap_name (facts row) = f \<and> uid_validity (facts row) = Some (wr_uid_validity wr)) rows)"

definition cur_keeps :: "opened \<Rightarrow> string \<Rightarrow> bool" where
  "cur_keeps cur fl = (case cur of None \<Rightarrow> False | Some (_, wr) \<Rightarrow> keeps wr fl)"

definition fits_one_command :: "nat list \<Rightarrow> bool" where
  "fits_one_command uids \<longleftrightarrow> uids \<noteq> [] \<and> length uids \<le> MAX_STORE_UIDS"

fun proper :: "mailbox_row list \<Rightarrow> opened \<Rightarrow> exchange \<Rightarrow> bool" where
  "proper rows cur (Selects _ _) = True"
| "proper rows cur (Fetches _ _) = True"
| "proper rows cur (Stores ask _) \<longleftrightarrow> fits_one_command (sa_uids ask) \<and>
     (case sa_item ask of
        Flags \<Rightarrow> open_for_writing rows cur \<and> list_all (cur_keeps cur) (sa_flags ask)
      | Labels \<Rightarrow> (case cur of None \<Rightarrow> False | Some (_, wr) \<Rightarrow> \<not> wr_read_only wr))"
| "proper rows cur (Moves ask _) \<longleftrightarrow> fits_one_command (ma_uids ask) \<and> open_for_writing rows cur"
| "proper rows cur (Copies ask _) \<longleftrightarrow> fits_one_command (ma_uids ask) \<and> open_for_writing rows cur \<and> cur_keeps cur DELETED"
| "proper rows cur (Expunges uids _) \<longleftrightarrow> fits_one_command uids \<and> open_for_writing rows cur \<and> cur_keeps cur DELETED"

fun safe :: "mailbox_row list \<Rightarrow> opened \<Rightarrow> exchange list \<Rightarrow> bool" where
  "safe rows cur [] = True"
| "safe rows cur (x # xs) \<longleftrightarrow> proper rows cur x \<and> safe rows (open_after cur x) xs"

abbreviation open_at :: "opened \<Rightarrow> exchange list \<Rightarrow> opened" where "open_at \<equiv> foldl open_after"

lemma acks_append: "acks cur (xs @ ys) = acks cur xs @ acks (open_at cur xs) ys"
  by (induction xs arbitrary: cur) simp_all

lemma safe_append: "safe rows cur (xs @ ys) \<longleftrightarrow> safe rows cur xs \<and> safe rows (open_at cur xs) ys"
  by (induction xs arbitrary: cur) simp_all

lemma open_after_other: "\<not> is_select x \<Longrightarrow> open_after cur x = cur"
  by (cases x) simp_all

lemma within_folder:
  assumes "\<forall>x \<in> set xs. \<not> is_select x"
  shows "open_at cur xs = cur" "set (acks cur xs) = (\<Union>x \<in> set xs. set (acked cur x))"
    "safe rows cur xs \<longleftrightarrow> (\<forall>x \<in> set xs. proper rows cur x)"
  using assms by (induction xs arbitrary: cur) (auto simp: open_after_other)

subsection \<open>What backs a write\<close>

definition kw_backed :: "mailbox_row list \<Rightarrow> ack set \<Rightarrow> keyword_change \<Rightarrow> bool" where
  "kw_backed rows A c \<longleftrightarrow> (\<exists>row. row_get rows (kc_folder c) = Some row \<and>
     (\<forall>k \<in> set (kc_add c). FlagAck (imap_name (facts row)) (kc_uid c) Flags (flag k) True \<in> A) \<and>
     (\<forall>k \<in> set (kc_remove c). FlagAck (imap_name (facts row)) (kc_uid c) Flags (flag k) False \<in> A))"

definition label_backed :: "mailbox_row list \<Rightarrow> ack set \<Rightarrow> label_change \<Rightarrow> bool" where
  "label_backed rows A c \<longleftrightarrow> (\<exists>row. row_get rows (lc_folder c) = Some row \<and>
     (\<forall>l \<in> set (labels_of rows (lc_add c)). FlagAck (imap_name (facts row)) (lc_uid c) Labels l True \<in> A) \<and>
     (\<forall>l \<in> set (labels_of rows (lc_remove c)). FlagAck (imap_name (facts row)) (lc_uid c) Labels l False \<in> A))"

definition move_backed :: "mailbox_row list \<Rightarrow> ack set \<Rightarrow> move_change \<Rightarrow> bool" where
  "move_backed rows A c \<longleftrightarrow> (\<exists>row target. row_get rows (mc_from c) = Some row \<and> row_get rows (mc_to c) = Some target \<and>
     (let f = imap_name (facts row); t = imap_name (facts target); pair = Some (mc_uid_validity c, mc_uid c)
      in MoveAck f (mc_from_uid c) t pair \<in> A \<or>
         CopyAck f (mc_from_uid c) t pair \<in> A \<and> GoneAck f (mc_from_uid c) \<in> A) \<and>
     (\<forall>ls. mc_labels c = Some ls \<longrightarrow> LabelsRead (imap_name (facts target)) (mc_uid_validity c) (mc_uid c) ls \<in> A))"

definition gone_backed :: "mailbox_row list \<Rightarrow> ack set \<Rightarrow> gone_row \<Rightarrow> bool" where
  "gone_backed rows A c \<longleftrightarrow> (\<exists>row. row_get rows (go_folder c) = Some row \<and>
     (GoneAck (imap_name (facts row)) (go_uid c) \<in> A \<or>
      (\<exists>trash pair. trash \<in> set rows \<and> role (facts trash) = Some TRASH_ROLE \<and>
         MoveAck (imap_name (facts row)) (go_uid c) (imap_name (facts trash)) pair \<in> A)))"

definition lost_backed :: "mailbox_row list \<Rightarrow> ack set \<Rightarrow> gone_row \<Rightarrow> bool" where
  "lost_backed rows A c \<longleftrightarrow> (\<exists>row target pair. row_get rows (go_folder c) = Some row \<and>
     (MoveAck (imap_name (facts row)) (go_uid c) target pair \<in> A \<or>
      CopyAck (imap_name (facts row)) (go_uid c) target pair \<in> A))"

definition write_backed :: "mailbox_row list \<Rightarrow> ack set \<Rightarrow> set_write \<Rightarrow> bool" where
  "write_backed rows A s \<longleftrightarrow>
     (\<forall>c \<in> set (sw_keywords s). kw_backed rows A c) \<and> (\<forall>c \<in> set (sw_labels s). label_backed rows A c) \<and>
     (\<forall>c \<in> set (sw_moves s). move_backed rows A c) \<and> (\<forall>c \<in> set (sw_gone s). gone_backed rows A c) \<and>
     (\<forall>c \<in> set (sw_lost s). lost_backed rows A c)"

definition backed :: "ack set \<Rightarrow> work \<Rightarrow> bool" where
  "backed A w \<longleftrightarrow> write_backed (w_rows w) A (w_stored w) \<and>
     (\<forall>rs \<in> set (w_restores w). move_backed (w_rows w) A (restore_change rs None))"

lemma move_backed_mono: "move_backed rows A c \<Longrightarrow> A \<subseteq> B \<Longrightarrow> move_backed rows B c"
  unfolding move_backed_def Let_def by blast

lemma kw_backed_mono: "kw_backed rows A c \<Longrightarrow> A \<subseteq> B \<Longrightarrow> kw_backed rows B c"
  unfolding kw_backed_def by blast

lemma label_backed_mono: "label_backed rows A c \<Longrightarrow> A \<subseteq> B \<Longrightarrow> label_backed rows B c"
  unfolding label_backed_def by blast

lemma gone_backed_mono: "gone_backed rows A c \<Longrightarrow> A \<subseteq> B \<Longrightarrow> gone_backed rows B c"
  unfolding gone_backed_def by blast

lemma lost_backed_mono: "lost_backed rows A c \<Longrightarrow> A \<subseteq> B \<Longrightarrow> lost_backed rows B c"
  unfolding lost_backed_def by blast

lemmas backed_monos = kw_backed_mono label_backed_mono move_backed_mono gone_backed_mono lost_backed_mono

lemma write_backed_mono: "write_backed rows A s \<Longrightarrow> A \<subseteq> B \<Longrightarrow> write_backed rows B s"
  unfolding write_backed_def by (meson backed_monos)

lemma backed_mono: "backed A w \<Longrightarrow> A \<subseteq> B \<Longrightarrow> backed B w"
  unfolding backed_def using write_backed_mono move_backed_mono by blast

subsection \<open>Stretches of a run\<close>

definition sound :: "mailbox_row list \<Rightarrow> opened \<Rightarrow> exchange list \<Rightarrow> run \<Rightarrow> run \<Rightarrow> bool" where
  "sound rows cur ys r r' \<longleftrightarrow>
     (w_rows (fst r) = rows \<longrightarrow> w_rows (fst r') = rows \<and> snd r' = snd r @ ys \<and> safe rows cur ys \<and>
        (\<forall>A. backed A (fst r) \<longrightarrow> backed (A \<union> set (acks cur ys)) (fst r')))"

lemma sound_refl: "sound rows cur [] r r"
  by (simp add: sound_def)

lemma sound_trans:
  assumes "sound rows cur xs r s" "sound rows (open_at cur xs) ys s t"
  shows "sound rows cur (xs @ ys) r t"
  using assms unfolding sound_def by (simp add: safe_append acks_append Un_assoc [symmetric])

text \<open>A stretch inside the folder that is open, and one that may open others.\<close>

definition sound_in :: "mailbox_row list \<Rightarrow> opened \<Rightarrow> run \<Rightarrow> run \<Rightarrow> bool" where
  "sound_in rows cur r r' \<longleftrightarrow> (\<exists>ys. (\<forall>x \<in> set ys. \<not> is_select x) \<and> sound rows cur ys r r')"

definition sound_over :: "mailbox_row list \<Rightarrow> run \<Rightarrow> run \<Rightarrow> bool" where
  "sound_over rows r r' \<longleftrightarrow> (\<forall>cur. \<exists>ys. sound rows cur ys r r')"

locale stretch =
  fixes R :: "run \<Rightarrow> run \<Rightarrow> bool"
  assumes R_refl: "R r r"
    and R_trans: "R r s \<Longrightarrow> R s t \<Longrightarrow> R r t"
begin

lemma each:
  assumes "\<And>x r. x \<in> set xs \<Longrightarrow> R r (snd (f x r))"
  shows "R r (snd (each_run f xs r))"
  using assms
proof (induction xs arbitrary: r)
  case (Cons x xs)
  obtain s r' where s: "f x r = (s, r')" by fastforce
  have "R r r'" using Cons.prems [of x r] s by simp
  moreover have "R r' (snd (each_run f xs r'))" using Cons by simp
  ultimately show ?case using R_trans s by auto
qed (simp add: R_refl)

lemma both:
  assumes "R r (snd (f r))" "\<And>r. R r (snd (g r))"
  shows "R r (snd (and_run f g r))"
proof -
  obtain s r' where s: "f r = (s, r')" by fastforce
  then show ?thesis using R_trans [OF _ assms(2), of r r'] assms(1) by (simp add: and_run_def)
qed

end

interpretation inside: stretch "sound_in rows cur" for rows cur
proof
  show "sound_in rows cur r r" for r
    unfolding sound_in_def by (rule exI [of _ "[]"]) (simp add: sound_refl)
  fix r s t assume "sound_in rows cur r s" "sound_in rows cur s t"
  then obtain xs ys where "\<forall>x \<in> set (xs @ ys). \<not> is_select x" "sound rows cur xs r s" "sound rows cur ys s t"
    and xs: "\<forall>x \<in> set xs. \<not> is_select x"
    unfolding sound_in_def by auto
  then show "sound_in rows cur r t"
    unfolding sound_in_def using sound_trans [of rows cur xs r s ys t] within_folder(1) [OF xs] by metis
qed

interpretation across: stretch "sound_over rows" for rows
proof
  show "sound_over rows r r" for r unfolding sound_over_def using sound_refl by blast
  show "sound_over rows r t" if "sound_over rows r s" "sound_over rows s t" for r s t
    using that unfolding sound_over_def by (metis sound_trans)
qed

subsection \<open>One batch\<close>

lemma settle_keeps:
  "w_rows (settle w ms e) = w_rows w" "w_stored (settle w ms e) = w_stored w" "w_restores (settle w ms e) = w_restores w"
  unfolding settle_def by (induction ms arbitrary: w) (simp_all add: settle_one_def Let_def)

lemma part_done_keeps [simp]:
  "w_rows (part_done m w) = w_rows w" "w_stored (part_done m w) = w_stored w" "w_restores (part_done m w) = w_restores w"
  by (simp_all add: part_done_def Let_def)

lemma backed_settle [simp]: "backed A (settle w ms e) \<longleftrightarrow> backed A w"
  by (simp add: backed_def settle_keeps)

lemma sound_settle: "sound_in rows cur (w, log) (settle w ms e, log)"
  unfolding sound_in_def sound_def by (rule exI [of _ "[]"]) (simp add: settle_keeps)

lemma sound_batch:
  assumes ans: "ans = (res, log @ ys)" "\<forall>x \<in> set ys. \<not> is_select x \<and> proper rows cur x"
    and ok: "\<And>a A. res = Inr a \<Longrightarrow> w_rows w = rows \<Longrightarrow> backed A w \<Longrightarrow>
      w_rows (ok a w) = rows \<and> backed (A \<union> set (acks cur ys)) (ok a w)"
    and rows: "\<And>a. w_rows (ok a w) = w_rows w"
  shows "sound_in rows cur (w, log) (snd (batch ms ok ans w))"
proof -
  have s: "safe rows cur ys" using ans(2) within_folder(3) [of ys] by blast
  have "sound rows cur ys (w, log) (snd (batch ms ok ans w))"
  proof (cases res)
    case (Inl e)
    then show ?thesis using s backed_mono
      by (auto simp: ans(1) batch_def Let_def sound_def settle_keeps case_prod_beta)
  next
    case (Inr a)
    then show ?thesis using s ok [OF Inr] rows by (auto simp: ans(1) batch_def sound_def)
  qed
  then show ?thesis unfolding sound_in_def using ans(2) by blast
qed

lemma store_all_log:
  "\<exists>ys. snd (store_all srv asks log) = log @ ys \<and> (\<forall>x \<in> set ys. \<exists>ask \<in> set asks. \<exists>r. x = Stores ask r) \<and>
     (\<forall>a. fst (store_all srv asks log) = Inr a \<longrightarrow> (\<forall>ask \<in> set asks. Stores ask (Inr ()) \<in> set ys))"
proof (induction asks arbitrary: log)
  case (Cons ask asks)
  let ?r = "on_store srv log ask"
  show ?case
  proof (cases ?r)
    case (Inl e)
    then show ?thesis by (intro exI [of _ "[Stores ask ?r]"]) (simp add: uid_store_def Let_def)
  next
    case (Inr a)
    from Cons.IH [of "log @ [Stores ask ?r]"] obtain ys where
      "snd (store_all srv asks (log @ [Stores ask ?r])) = (log @ [Stores ask ?r]) @ ys"
      "\<forall>x \<in> set ys. \<exists>ask \<in> set asks. \<exists>r. x = Stores ask r"
      "\<forall>a. fst (store_all srv asks (log @ [Stores ask ?r])) = Inr a \<longrightarrow> (\<forall>ask \<in> set asks. Stores ask (Inr ()) \<in> set ys)"
      by blast
    with Inr show ?thesis by (intro exI [of _ "Stores ask ?r # ys"]) (auto simp: uid_store_def Let_def)
  qed
qed simp

lemma store_all_sound:
  assumes asks: "\<And>ask r. ask \<in> set asks \<Longrightarrow> proper rows cur (Stores ask r)"
    and ok: "\<And>A. (\<And>ask. ask \<in> set asks \<Longrightarrow> set (acked cur (Stores ask (Inr ()))) \<subseteq> A) \<Longrightarrow> w_rows w = rows \<Longrightarrow>
      backed A w \<Longrightarrow> backed A (ok () w)"
    and rows: "\<And>a. w_rows (ok a w) = w_rows w"
  shows "sound_in rows cur (w, log) (snd (batch ms ok (store_all srv asks log) w))"
proof -
  obtain res ys where ys: "store_all srv asks log = (res, log @ ys)" "\<forall>x \<in> set ys. \<exists>ask \<in> set asks. \<exists>r. x = Stores ask r"
    "\<forall>a. res = Inr a \<longrightarrow> (\<forall>ask \<in> set asks. Stores ask (Inr ()) \<in> set ys)"
    using store_all_log [of srv asks log] by (metis prod.collapse fst_conv)
  have p: "\<forall>x \<in> set ys. \<not> is_select x \<and> proper rows cur x" using ys(2) asks by fastforce
  show ?thesis
  proof (rule sound_batch [where ok = ok, OF ys(1) p])
    show "w_rows (ok a w) = w_rows w" for a by (rule rows)
    fix a A assume a: "res = Inr a" "w_rows w = rows" "backed A w"
    have "set (acked cur (Stores ask (Inr ()))) \<subseteq> A \<union> set (acks cur ys)" if "ask \<in> set asks" for ask
      using that a(1) ys(3) p within_folder(2) [of ys cur] by blast
    then show "w_rows (ok a w) = rows \<and> backed (A \<union> set (acks cur ys)) (ok a w)"
      using ok [of "A \<union> set (acks cur ys)"] a backed_mono [OF a(3)] rows by auto
  qed
qed

lemma chunk_bounds: "ys \<in> set (chunks n xs) \<Longrightarrow> ys \<noteq> [] \<and> length ys \<le> n"
proof (induction n xs rule: chunks.induct)
  case (1 n xs)
  show ?case
  proof (cases "xs = [] \<or> n = 0")
    case True
    then show ?thesis using "1.prems" by (auto simp: chunks.simps [of n xs])
  next
    case False
    then show ?thesis using 1 by (auto simp: chunks.simps [of n xs])
  qed
qed

text \<open>The folder of a row, open for writing.\<close>

definition at_folder :: "mailbox_row list \<Rightarrow> mailbox_id \<Rightarrow> mailbox_row \<Rightarrow> writable \<Rightarrow> opened \<Rightarrow> bool" where
  "at_folder rows folder row wr cur \<longleftrightarrow> row_get rows folder = Some row \<and> cur = Some (imap_name (facts row), wr) \<and>
     \<not> wr_read_only wr \<and> uid_validity (facts row) = Some (wr_uid_validity wr)"

lemma at_folder_open: "at_folder rows folder row wr cur \<Longrightarrow> open_for_writing rows cur"
  by (auto simp: at_folder_def open_for_writing_def row_get_def list_ex_iff find_Some_iff intro: nth_mem)

subsection \<open>Keywords\<close>

lemma keyword_asks_in:
  assumes "ask \<in> set (keyword_asks e rm uids)"
  shows "sa_uids ask = uids" "sa_item ask = Flags" "set (sa_flags ask) \<subseteq> flag ` (set (e_set e) \<union> set rm)"
  using assms runs_subset by (fastforce simp: keyword_asks_def)+

lemma keyword_asks_all:
  "k \<in> set (e_set e) \<Longrightarrow> \<exists>ask \<in> set (keyword_asks e rm uids). sa_uids ask = uids \<and> sa_item ask = Flags \<and> flag k \<in> set (sa_flags ask) \<and> sa_add ask"
  "k \<in> set rm \<Longrightarrow> \<exists>ask \<in> set (keyword_asks e rm uids). sa_uids ask = uids \<and> sa_item ask = Flags \<and> flag k \<in> set (sa_flags ask) \<and> \<not> sa_add ask"
proof -
  have run: "\<exists>fls \<in> set (runs (map flag ks) length). flag k \<in> set fls" if "k \<in> set ks" for ks
    using runs_spec(1) [of "map flag ks" length] that by (metis UN_iff image_eqI set_concat set_map)
  have ask: "\<lparr>sa_uids = uids, sa_flags = fls, sa_add = add, sa_item = Flags\<rparr> \<in> set (keyword_asks e rm uids)"
    if "fls \<in> set (runs (map flag ks) length)" "(ks, add) \<in> {(e_set e, True), (rm, False)}" for fls ks add
    using that by (auto simp: keyword_asks_def)
  show "\<exists>ask \<in> set (keyword_asks e rm uids). sa_uids ask = uids \<and> sa_item ask = Flags \<and> flag k \<in> set (sa_flags ask) \<and> sa_add ask"
    if k: "k \<in> set (e_set e)"
  proof -
    obtain fls where fls: "fls \<in> set (runs (map flag (e_set e)) length)" "flag k \<in> set fls" using run [OF k] by blast
    then show ?thesis by (intro bexI [OF _ ask [of fls "e_set e" True]]) simp_all
  qed
  show "\<exists>ask \<in> set (keyword_asks e rm uids). sa_uids ask = uids \<and> sa_item ask = Flags \<and> flag k \<in> set (sa_flags ask) \<and> \<not> sa_add ask"
    if k: "k \<in> set rm"
  proof -
    obtain fls where fls: "fls \<in> set (runs (map flag rm) length)" "flag k \<in> set fls" using run [OF k] by blast
    then show ?thesis by (intro bexI [OF _ ask [of fls rm False]]) simp_all
  qed
qed

lemma backed_keep_keywords:
  assumes "backed A w" "w_rows w = rows"
    and "\<forall>m \<in> set ms. kw_backed rows A \<lparr>kc_id = mem_id m, kc_folder = folder, kc_uid = mem_uid m, kc_add = e_set (kg_edit g), kc_remove = kg_remove g\<rparr>"
  shows "backed A (foldl (keep_keywords folder g) w ms) \<and> w_rows (foldl (keep_keywords folder g) w ms) = rows"
  using assms
proof (induction ms arbitrary: w)
  case (Cons m ms)
  have "backed A (keep_keywords folder g w m)" "w_rows (keep_keywords folder g w m) = rows"
    using Cons.prems by (auto simp: keep_keywords_def Let_def backed_def write_backed_def)
  then show ?case using Cons by simp
qed simp

lemma keep_keywords_rows: "w_rows (foldl (keep_keywords folder g) w ms) = w_rows w"
  by (induction ms arbitrary: w) (simp_all add: keep_keywords_def Let_def)

lemma lasting_keeps:
  assumes "lasting wr g = Inr a" "k \<in> set (e_set (kg_edit g)) \<union> set (kg_remove g)"
  shows "keeps wr (flag k)"
proof -
  have "map (edit_path (kg_edit g)) (filter (\<lambda>k. \<not> keeps wr (flag k)) (e_set (kg_edit g) @ kg_remove g)) = []"
    using assms(1) by (simp only: lasting_def Let_def split: if_splits) simp_all
  then show ?thesis using assms(2) by (auto simp: filter_empty_conv)
qed

lemma group_stored_sound:
  assumes f: "at_folder rows folder row wr cur" and l: "lasting wr g = Inr a"
  shows "sound_in rows cur r (snd (group_stored srv folder g r))"
  unfolding group_stored_def
proof (rule inside.each)
  fix ms and q :: run
  assume ms: "ms \<in> set (chunks MAX_STORE_UIDS (standing (fst r) (kg_members g)))"
  obtain w log where q: "q = (w, log)" by fastforce
  let ?asks = "keyword_asks (kg_edit g) (kg_remove g) (map mem_uid ms)"
  have "sound_in rows cur (w, log) (snd (batch ms (\<lambda>_ w. foldl (keep_keywords folder g) w ms) (store_all srv ?asks log) w))"
  proof (rule store_all_sound)
    fix ask r assume a: "ask \<in> set ?asks"
    have "list_all (cur_keeps cur) (sa_flags ask)"
      using keyword_asks_in(3) [OF a] lasting_keeps [OF l] f by (auto simp: list_all_iff cur_keeps_def at_folder_def)
    then show "proper rows cur (Stores ask r)"
      using keyword_asks_in [OF a] at_folder_open [OF f] chunk_bounds [OF ms] by (simp add: fits_one_command_def)
  next
    fix A assume acks: "\<And>ask. ask \<in> set ?asks \<Longrightarrow> set (acked cur (Stores ask (Inr ()))) \<subseteq> A"
      and w: "w_rows w = rows" "backed A w"
    have "FlagAck (imap_name (facts row)) (mem_uid m) Flags (flag k) (sa_add ask) \<in> A"
      if "m \<in> set ms" "ask \<in> set ?asks" "flag k \<in> set (sa_flags ask)" for m k ask
      using acks [OF that(2)] keyword_asks_in [OF that(2)] f that by (fastforce simp: at_folder_def)
    then have "kw_backed rows A \<lparr>kc_id = mem_id m, kc_folder = folder, kc_uid = mem_uid m, kc_add = e_set (kg_edit g), kc_remove = kg_remove g\<rparr>"
      if "m \<in> set ms" for m
      using that f keyword_asks_all [where e = "kg_edit g" and rm = "kg_remove g" and uids = "map mem_uid ms"]
      unfolding kw_backed_def at_folder_def by simp metis
    then show "backed A (foldl (keep_keywords folder g) w ms)" using backed_keep_keywords [OF w(2,1)] by blast
  qed (rule keep_keywords_rows)
  then show "sound_in rows cur q (snd ((\<lambda>(w, log). batch ms (\<lambda>_ w. foldl (keep_keywords folder g) w ms) (commands srv g ms log) w) q))"
    by (simp add: q commands_def)
qed

lemma sound_in_other: "w_rows (fst r) \<noteq> rows \<Longrightarrow> sound_in rows cur r r'"
  unfolding sound_in_def sound_def by (rule exI [of _ "[]"]) simp

lemma keywords_run_sound:
  assumes "at_folder rows folder row wr cur"
  shows "sound_in rows cur r (snd (keywords_run srv folder wr groups r))"
  unfolding keywords_run_def
proof (rule inside.each)
  fix g and q :: run
  obtain w log where q: "q = (w, log)" by fastforce
  show "sound_in rows cur q (snd ((\<lambda>(w, log). case lasting wr g of Inl e \<Rightarrow> (True, settle w (kg_members g) e, log)
      | Inr _ \<Rightarrow> group_stored srv folder g (w, log)) q))"
    using group_stored_sound [OF assms, of g] sound_settle by (cases "lasting wr g") (simp_all add: q)
qed

subsection \<open>Labels\<close>

lemma label_asks_in:
  assumes "ask \<in> set (label_asks rows r uids)"
  shows "sa_uids ask = uids" "sa_item ask = Labels"
  using assms by (auto simp: label_asks_def)

lemma label_asks_all:
  assumes "l \<in> set (labels_of rows mbs)" "(mbs, add) \<in> {(r_add r, True), (r_remove r, False)}"
  shows "\<exists>ask \<in> set (label_asks rows r uids). l \<in> set (sa_flags ask) \<and> sa_add ask = add"
proof -
  obtain ls where ls: "ls \<in> set (runs (labels_of rows mbs) label_width)" "l \<in> set ls"
    using runs_spec(1) [of "labels_of rows mbs" label_width] assms(1) by (metis UN_iff set_concat)
  have "\<lparr>sa_uids = uids, sa_flags = ls, sa_add = add, sa_item = Labels\<rparr> \<in> set (label_asks rows r uids)"
    using assms(2) ls(1) by (auto simp: label_asks_def)
  then show ?thesis using ls(2) by (intro bexI) simp_all
qed

lemma backed_keep_labels:
  assumes "backed A w" "w_rows w = rows"
    and "\<forall>m \<in> set ms. label_backed rows A \<lparr>lc_id = mem_id m, lc_folder = folder, lc_uid = mem_uid m, lc_add = r_add r, lc_remove = r_remove r\<rparr>"
  shows "backed A (foldl (keep_labels folder r) w ms)"
  using assms
proof (induction ms arbitrary: w)
  case (Cons m ms)
  have "backed A (keep_labels folder r w m)" "w_rows (keep_labels folder r w m) = rows"
    using Cons.prems by (auto simp: keep_labels_def Let_def backed_def write_backed_def)
  then show ?case using Cons by simp
qed simp

lemma keep_labels_rows: "w_rows (foldl (keep_labels folder r) w ms) = w_rows w"
  by (induction ms arbitrary: w) (simp_all add: keep_labels_def Let_def)

lemma label_batch_sound:
  assumes f: "at_folder rows folder row wr cur" and ms: "ms \<in> set (chunks MAX_STORE_UIDS xs)" and rows: "w_rows w = rows"
  shows "sound_in rows cur (w, log)
    (snd (batch ms (\<lambda>_ w. foldl (keep_labels folder r) w ms) (relabeled srv w r (map mem_uid ms) log) w))"
  unfolding relabeled_def rows
proof (rule store_all_sound)
  let ?asks = "label_asks rows r (map mem_uid ms)"
  fix ask q assume "ask \<in> set ?asks"
  then show "proper rows cur (Stores ask q)"
    using label_asks_in f chunk_bounds [OF ms] by (fastforce simp: fits_one_command_def at_folder_def)
next
  let ?asks = "label_asks rows r (map mem_uid ms)"
  fix A assume acks: "\<And>ask. ask \<in> set ?asks \<Longrightarrow> set (acked cur (Stores ask (Inr ()))) \<subseteq> A"
    and w: "w_rows w = rows" "backed A w"
  have "FlagAck (imap_name (facts row)) (mem_uid m) Labels l (sa_add ask) \<in> A"
    if "m \<in> set ms" "ask \<in> set ?asks" "l \<in> set (sa_flags ask)" for m l ask
    using acks [OF that(2)] label_asks_in [OF that(2)] f that by (fastforce simp: at_folder_def)
  then have "label_backed rows A \<lparr>lc_id = mem_id m, lc_folder = folder, lc_uid = mem_uid m, lc_add = r_add r, lc_remove = r_remove r\<rparr>"
    if "m \<in> set ms" for m
    using that f label_asks_all [of _ rows "r_add r" True r "map mem_uid ms"] label_asks_all [of _ rows "r_remove r" False r "map mem_uid ms"]
    unfolding label_backed_def at_folder_def by simp metis
  then show "backed A (foldl (keep_labels folder r) w ms)" using backed_keep_labels [OF w(2,1)] by blast
qed (rule keep_labels_rows)

lemma labels_run_sound:
  assumes "at_folder rows folder row wr cur"
  shows "sound_in rows cur r (snd (labels_run srv folder groups r))"
  unfolding labels_run_def
proof (intro inside.each)
  fix g ms and q r :: run
  assume ms: "ms \<in> set (chunks MAX_STORE_UIDS (standing (fst r) (lg_members g)))"
  obtain w log where q: "q = (w, log)" by fastforce
  show "sound_in rows cur q (snd ((\<lambda>(w, log). batch ms (\<lambda>_ w. foldl (keep_labels folder (lg_relabel g)) w ms)
      (relabeled srv w (lg_relabel g) (map mem_uid ms) log) w) q))"
    using label_batch_sound [OF assms ms] sound_in_other [of q rows] by (cases "w_rows w = rows") (simp_all add: q)
qed

subsection \<open>Moves\<close>

lemma backed_lost: "backed A w \<Longrightarrow> lost_backed (w_rows w) A c \<Longrightarrow> backed A (push_lost c w)"
  by (auto simp: backed_def write_backed_def push_lost_def)

lemma backed_moved: "backed A w \<Longrightarrow> move_backed (w_rows w) A c \<Longrightarrow> backed A (push_move c w)"
  by (auto simp: backed_def write_backed_def push_move_def)

lemma backed_part_done [simp]: "backed A (part_done m w) \<longleftrightarrow> backed A w"
  by (simp add: backed_def)

lemma push_rows [simp]: "w_rows (push_lost c w) = w_rows w" "w_rows (push_move d w) = w_rows w"
  by (simp_all add: push_lost_def push_move_def)

lemma landed_one_rows: "w_rows (landed_one folder g mv w m) = w_rows w"
  by (simp add: landed_one_def Let_def settle_keeps split: option.split prod.split)

lemma landed_rows: "w_rows (landed folder g ms mv w) = w_rows w"
  unfolding landed_def by (induction ms arbitrary: w) (simp_all add: landed_one_rows)

definition took :: "ack set \<Rightarrow> string \<Rightarrow> string \<Rightarrow> moved option \<Rightarrow> nat \<Rightarrow> bool" where
  "took A f t mv uid \<longleftrightarrow> MoveAck f uid t (pair_of mv uid) \<in> A \<or>
     CopyAck f uid t (pair_of mv uid) \<in> A \<and> (pair_of mv uid \<noteq> None \<longrightarrow> GoneAck f uid \<in> A)"

lemma landed_one_backed:
  assumes rows: "row_get (w_rows w) folder = Some row" "row_get (w_rows w) (mg_to g) = Some target"
    and t: "took A (imap_name (facts row)) (imap_name (facts target)) mv (mem_uid m)" and b: "backed A w"
  shows "backed A (landed_one folder g mv w m)"
proof -
  have lost: "lost_backed (w_rows w) A \<lparr>go_id = mem_id m, go_folder = folder, go_uid = mem_uid m\<rparr>"
    using rows t by (auto simp: lost_backed_def took_def)
  show ?thesis
  proof (cases "pair_of mv (mem_uid m)")
    case None
    then show ?thesis
      using backed_lost [OF b lost] by (auto simp: landed_one_def Let_def pair_of_def split: option.splits)
  next
    case (Some pair)
    obtain v u where pair: "pair = (v, u)" by fastforce
    obtain a src where mv: "mv = Some a" "mv_uid_validity a = v" "List.find (\<lambda>(from, _). from = mem_uid m) (mv_uids a) = Some (src, u)"
      using Some by (auto simp: pair pair_of_def split: Option.bind_splits)
    have moved: "move_backed (w_rows w) A (restore_change \<lparr>rs_member = m, rs_from = folder, rs_to = mg_to g, rs_uid_validity = v, rs_uid = u, rs_relabel = r\<rparr> None)" for r
      using rows t Some by (auto simp: move_backed_def took_def restore_change_def pair Let_def)
    show ?thesis using b moved mv(2) by (auto simp: landed_one_def mv(1,3) Let_def intro: backed_moved) (simp add: backed_def)
  qed
qed

lemma landed_backed:
  assumes "row_get (w_rows w) folder = Some row" "row_get (w_rows w) (mg_to g) = Some target"
    and "\<forall>m \<in> set ms. took A (imap_name (facts row)) (imap_name (facts target)) mv (mem_uid m)" and "backed A w"
  shows "backed A (landed folder g ms mv w)"
  using assms unfolding landed_def
proof (induction ms arbitrary: w)
  case (Cons m ms)
  have "backed A (landed_one folder g mv w m)"
    using landed_one_backed [OF Cons.prems(1,2) _ Cons.prems(4)] Cons.prems(3) by simp
  then show ?case using Cons by (simp add: landed_one_rows)
qed simp

end
