(* ===== verification/Send_Safety.thy ===== *)
theory Send_Safety
  imports Send_Acks
begin

text \<open>
  The moves, destroys, folders and restores of a run, and the two properties of whole runs: what is
  sent keeps to the open folder, and what is stored was acknowledged.
\<close>

lemma acked_in: "\<forall>x \<in> set ys. \<not> is_select x \<Longrightarrow> x \<in> set ys \<Longrightarrow> a \<in> set (acked cur x) \<Longrightarrow> a \<in> set (acks cur ys)"
  using within_folder(2) [of ys cur] by blast

lemma move_batch_sound:
  assumes f: "at_folder rows folder row wr cur" and t: "row_get rows (mg_to g) = Some target"
    and uids: "fits_one_command (map mem_uid ms)" and ask: "ask = \<lparr>ma_uids = map mem_uid ms, ma_target = imap_name (facts target)\<rparr>"
  shows "sound_in rows cur (w, log) (snd (batch ms (landed folder g ms) (uid_move srv ask log) w))"
proof (rule sound_batch [where ys = "[Moves ask (noted ask (on_move srv log ask))]"])
  show "uid_move srv ask log = (noted ask (on_move srv log ask), log @ [Moves ask (noted ask (on_move srv log ask))])" by (simp add: uid_move_def Let_def)
  show "\<forall>x \<in> set [Moves ask (noted ask (on_move srv log ask))]. \<not> is_select x \<and> proper rows cur x"
    using uids at_folder_open [OF f] by (simp add: ask)
  fix a A assume a: "noted ask (on_move srv log ask) = Inr a" "w_rows w = rows" "backed A w"
  let ?A = "A \<union> set (acks cur [Moves ask (noted ask (on_move srv log ask))])"
  have "\<forall>m \<in> set ms. took ?A (imap_name (facts row)) (imap_name (facts target)) a (mem_uid m)"
  proof -
    have "acks cur [Moves ask (noted ask (on_move srv log ask))] =
        map (\<lambda>uid. MoveAck (imap_name (facts row)) uid (ma_target ask) (pair_of a uid)) (ma_uids ask)"
      using f by (simp add: a(1) at_folder_def)
    then show ?thesis unfolding took_def by (simp add: ask)
  qed
  from landed_backed [OF _ _ this backed_mono [OF a(3)]] f t
  show "w_rows (landed folder g ms a w) = rows \<and> backed ?A (landed folder g ms a w)"
    by (auto simp: landed_rows a(2) at_folder_def)
qed (rule landed_rows)

lemma noted_few:
  assumes "noted ask answer = Inr mv"
  shows "length (case mv of None \<Rightarrow> ma_uids ask | Some m \<Rightarrow> map fst (mv_uids m)) \<le> length (ma_uids ask)"
proof (cases mv)
  case (Some m)
  obtain ls where "try_fold (note_line (ma_uids ask)) None ls = Inr (Some m)"
    using assms Some by (auto simp: noted_def and_then_Inr_eq)
  from copyuid_pairs_one_to_one [OF this]
  have "distinct (map fst (mv_uids m))" "set (map fst (mv_uids m)) \<subseteq> set (ma_uids ask)" by (simp_all add: pairs_ok_def)
  then have "length (map fst (mv_uids m)) \<le> card (set (ma_uids ask))"
    by (metis distinct_card List.finite_set card_mono)
  then show ?thesis using card_length [of "ma_uids ask"] Some by simp
qed simp

lemma copied_answer:
  obtains (refused) e where "copied srv ask log = (Inl e, log @ [Copies ask (Inl e)])"
  | (left_behind) mv took_uids e where "copied srv ask log = (Inl e, log @ [Copies ask (Inr mv), Expunges took_uids (Inl e)])" "took_uids \<noteq> []"
      "length took_uids \<le> length (ma_uids ask)"
  | (none) m where "copied srv ask log = (Inr (Some m), log @ [Copies ask (Inr (Some m))])" "mv_uids m = []"
  | (none_asked) "copied srv ask log = (Inr None, log @ [Copies ask (Inr None)])" "ma_uids ask = []"
  | (gone) mv took_uids where "copied srv ask log = (Inr mv, log @ [Copies ask (Inr mv), Expunges took_uids (Inr ())])"
      "took_uids = (case mv of None \<Rightarrow> ma_uids ask | Some m \<Rightarrow> map fst (mv_uids m))" "took_uids \<noteq> []"
      "length took_uids \<le> length (ma_uids ask)"
proof (cases "noted ask (on_copy srv log ask)")
  case (Inl e)
  then show thesis using refused by (simp add: copied_def uid_copy_def Let_def)
next
  case (Inr mv)
  define us where "us = (case mv of None \<Rightarrow> ma_uids ask | Some m \<Rightarrow> map fst (mv_uids m))"
  have few: "length us \<le> length (ma_uids ask)" using noted_few [OF Inr] by (simp add: us_def)
  show thesis
  proof (cases "us = []")
    case True
    then show thesis using none none_asked Inr by (cases mv) (simp_all add: copied_def uid_copy_def Let_def us_def)
  next
    case False
    show thesis
    proof (cases "on_expunge srv (log @ [Copies ask (Inr mv)]) us")
      case (Inl e)
      then have "copied srv ask log = (Inl e, log @ [Copies ask (Inr mv), Expunges us (Inl e)])"
        using False \<open>noted ask (on_copy srv log ask) = Inr mv\<close>
        by (simp add: copied_def uid_copy_def uid_expunge_def Let_def us_def [symmetric])
      then show thesis using left_behind False few by blast
    next
      case (Inr a)
      then have "copied srv ask log = (Inr mv, log @ [Copies ask (Inr mv), Expunges us (Inr ())])"
        using False \<open>noted ask (on_copy srv log ask) = Inr mv\<close>
        by (simp add: copied_def uid_copy_def uid_expunge_def Let_def us_def [symmetric])
      then show thesis using gone us_def False few by blast
    qed
  qed
qed

lemma copy_batch_sound:
  assumes f: "at_folder rows folder row wr cur" and t: "row_get rows (mg_to g) = Some target" and d: "keeps wr DELETED"
    and uids: "fits_one_command (map mem_uid ms)" and ask: "ask = \<lparr>ma_uids = map mem_uid ms, ma_target = imap_name (facts target)\<rparr>"
  shows "sound_in rows cur (w, log) (snd (batch ms (landed folder g ms) (copied srv ask log) w))"
proof -
  have p: "proper rows cur (Copies ask r)" "us \<noteq> [] \<Longrightarrow> length us \<le> length (ma_uids ask) \<Longrightarrow> proper rows cur (Expunges us q)" for r us q
    using uids at_folder_open [OF f] d f by (auto simp: ask cur_keeps_def at_folder_def fits_one_command_def)
  have landed: "w_rows (landed folder g ms mv w) = rows \<and> backed (A \<union> set (acks cur ys)) (landed folder g ms mv w)"
    if "w_rows w = rows" "backed A w" "\<forall>m \<in> set ms. took (set (acks cur ys)) (imap_name (facts row)) (imap_name (facts target)) mv (mem_uid m)"
    for A ys mv
  proof -
    have "\<forall>m \<in> set ms. took (A \<union> set (acks cur ys)) (imap_name (facts row)) (imap_name (facts target)) mv (mem_uid m)"
      using that(3) by (auto simp: took_def)
    from landed_backed [OF _ _ this backed_mono [OF that(2)]] f t that(1) show ?thesis
      by (auto simp: landed_rows at_folder_def)
  qed
  have cur: "cur = Some (imap_name (facts row), wr)" using f by (simp add: at_folder_def)
  show ?thesis
  proof (cases rule: copied_answer [of srv ask log])
    case (refused e)
    show ?thesis by (rule sound_batch [OF refused]) (use p in \<open>auto simp: landed_rows\<close>)
  next
    case (left_behind mv us e)
    show ?thesis by (rule sound_batch [OF left_behind(1)]) (use p left_behind(2,3) in \<open>auto simp: landed_rows\<close>)
  next
    case (none m)
    have "pair_of (Some m) uid = None" for uid by (simp add: pair_of_def none(2))
    then have "\<forall>x \<in> set ms. took (set (acks cur [Copies ask (Inr (Some m))])) (imap_name (facts row)) (imap_name (facts target)) (Some m) (mem_uid x)"
      by (auto simp: took_def cur ask)
    with landed show ?thesis
      by (intro sound_batch [OF none(1)]) (use p in \<open>auto simp: landed_rows simp del: acks.simps\<close>)
  next
    case none_asked
    then show ?thesis using uids by (simp add: ask fits_one_command_def)
  next
    case (gone mv us)
    let ?ys = "[Copies ask (Inr mv), Expunges us (Inr ())]"
    have "uid \<in> set us" if "pair_of mv uid \<noteq> None" for uid
      using that by (auto simp: gone(2) pair_of_def find_Some_iff in_set_conv_nth image_iff split: Option.bind_splits)
    then have "\<forall>x \<in> set ms. took (set (acks cur ?ys)) (imap_name (facts row)) (imap_name (facts target)) mv (mem_uid x)"
      by (auto simp: took_def cur ask)
    with landed show ?thesis
      by (intro sound_batch [OF gone(1)]) (use p gone(3,4) in \<open>auto simp: landed_rows simp del: acks.simps\<close>)
  qed
qed

lemma moves_run_sound:
  assumes f: "at_folder rows folder row wr cur"
  shows "sound_in rows cur r (snd (moves_run srv folder wr groups r))"
  unfolding moves_run_def Let_def
proof (rule inside.each)
  fix g and q :: run
  obtain w log where q: "q = (w, log)" by fastforce
  let ?copies = "\<not> move_command (w_moving (fst r))"
  let ?f = "\<lambda>target ms (w, log). batch ms (landed folder g ms)
     (if ?copies then copied srv \<lparr>ma_uids = map mem_uid ms, ma_target = target\<rparr> log
      else uid_move srv \<lparr>ma_uids = map mem_uid ms, ma_target = target\<rparr> log) w"
  have batches: "sound_in rows cur (w, log) (snd (each_run (?f (imap_name (facts target)))
      (chunks MAX_STORE_UIDS (standing w (mg_members g))) (w, log)))"
    if t: "row_get rows (mg_to g) = Some target" and d: "?copies \<longrightarrow> keeps wr DELETED" for target
  proof (rule inside.each)
    fix ms and u :: run
    assume ms: "ms \<in> set (chunks MAX_STORE_UIDS (standing w (mg_members g)))"
    have uids: "fits_one_command (map mem_uid ms)" using chunk_bounds [OF ms] by (simp add: fits_one_command_def)
    show "sound_in rows cur u (snd (?f (imap_name (facts target)) ms u))"
      using move_batch_sound [OF f t uids refl] copy_batch_sound [OF f t _ uids refl] d by (cases u) simp
  qed
  show "sound_in rows cur q (snd ((\<lambda>(w, log).
      if ?copies \<and> \<not> keeps wr DELETED then (True, settle w (mg_members g) SForbidden, log)
      else case folder_wire_name w (mg_to g) of None \<Rightarrow> (True, settle w (mg_members g) SServerUnavailable, log)
        | Some target \<Rightarrow> each_run (?f target) (chunks MAX_STORE_UIDS (standing w (mg_members g))) (w, log)) q))"
  proof (cases "w_rows w = rows")
    case True
    then show ?thesis
      using batches sound_settle by (auto simp: q folder_wire_name_def split: option.split)
  qed (simp add: sound_in_other q)
qed

subsection \<open>Destroys\<close>

lemma keep_gone_rows: "w_rows (foldl (keep_gone folder) w ms) = w_rows w"
  by (induction ms arbitrary: w) (simp_all add: keep_gone_def Let_def)

lemma backed_keep_gone:
  assumes "backed A w" "w_rows w = rows"
    and "\<forall>m \<in> set ms. gone_backed rows A \<lparr>go_id = mem_id m, go_folder = folder, go_uid = mem_uid m\<rparr>"
  shows "backed A (foldl (keep_gone folder) w ms)"
  using assms
proof (induction ms arbitrary: w)
  case (Cons m ms)
  have "backed A (keep_gone folder w m)" "w_rows (keep_gone folder w m) = rows"
    using Cons.prems by (auto simp: keep_gone_def Let_def backed_def write_backed_def)
  then show ?case using Cons by simp
qed simp

lemma destroys_run_sound:
  assumes f: "at_folder rows folder row wr cur"
  shows "sound_in rows cur r (snd (destroys_run srv folder wr ms r))"
proof (cases "keeps wr DELETED")
  case False
  then show ?thesis using sound_settle [of rows cur "fst r" "snd r"] by (simp add: destroys_run_def)
next
  case True
  have "sound_in rows cur r (snd (each_run (\<lambda>ms (w, log). taken_out folder ms (uid_expunge srv (map mem_uid ms) log) w)
      (chunks MAX_STORE_UIDS (standing (fst r) ms)) r))"
  proof (rule inside.each)
    fix us and q :: run
    assume us: "us \<in> set (chunks MAX_STORE_UIDS (standing (fst r) ms))"
    obtain w log where q: "q = (w, log)" by fastforce
    let ?x = "Expunges (map mem_uid us) (on_expunge srv log (map mem_uid us))"
    have "sound_in rows cur (w, log) (snd (batch us (\<lambda>_ w. foldl (keep_gone folder) w us) (uid_expunge srv (map mem_uid us) log) w))"
    proof (rule sound_batch [where ys = "[?x]"])
      show "uid_expunge srv (map mem_uid us) log = (on_expunge srv log (map mem_uid us), log @ [?x])"
        by (simp add: uid_expunge_def Let_def)
      show "\<forall>x \<in> set [?x]. \<not> is_select x \<and> proper rows cur x"
        using at_folder_open [OF f] chunk_bounds [OF us] True f by (simp add: cur_keeps_def at_folder_def fits_one_command_def)
      fix a A assume a: "on_expunge srv log (map mem_uid us) = Inr a" "w_rows w = rows" "backed A w"
      have "\<forall>m \<in> set us. gone_backed rows (A \<union> set (acks cur [?x])) \<lparr>go_id = mem_id m, go_folder = folder, go_uid = mem_uid m\<rparr>"
        using f by (auto simp: gone_backed_def a(1) at_folder_def)
      from backed_keep_gone [OF backed_mono [OF a(3)] a(2) this]
      show "w_rows (foldl (keep_gone folder) w us) = rows \<and> backed (A \<union> set (acks cur [?x])) (foldl (keep_gone folder) w us)"
        by (simp add: keep_gone_rows a(2))
    qed (rule keep_gone_rows)
    then show "sound_in rows cur q (snd ((\<lambda>(w, log). taken_out folder us (uid_expunge srv (map mem_uid us) log) w) q))"
      by (simp add: q taken_out_def)
  qed
  then show ?thesis using True by (simp add: destroys_run_def)
qed

lemma trashes_run_sound:
  assumes f: "at_folder rows folder row wr cur"
  shows "sound_in rows cur r (snd (trashes_run srv folder ms r))"
proof (cases "w_rows (fst r) = rows")
  case rows: True
  let ?run = "\<lambda>t. each_run (\<lambda>ms (w, log). taken_out folder ms (uid_move srv \<lparr>ma_uids = map mem_uid ms, ma_target = imap_name (facts t)\<rparr> log) w)
      (chunks MAX_STORE_UIDS (standing (fst r) ms)) r"
  have "sound_in rows cur r (snd (?run t))" if t: "t \<in> set rows" "role (facts t) = Some TRASH_ROLE" for t
  proof (rule inside.each)
    fix us and q :: run
    assume us: "us \<in> set (chunks MAX_STORE_UIDS (standing (fst r) ms))"
    obtain w log where q: "q = (w, log)" by fastforce
    define ask where "ask = \<lparr>ma_uids = map mem_uid us, ma_target = imap_name (facts t)\<rparr>"
    let ?x = "Moves ask (noted ask (on_move srv log ask))"
    have "sound_in rows cur (w, log) (snd (batch us (\<lambda>_ w. foldl (keep_gone folder) w us) (uid_move srv ask log) w))"
    proof (rule sound_batch [where ys = "[?x]"])
      show "uid_move srv ask log = (noted ask (on_move srv log ask), log @ [?x])" by (simp add: uid_move_def Let_def)
      show "\<forall>x \<in> set [?x]. \<not> is_select x \<and> proper rows cur x"
        using at_folder_open [OF f] chunk_bounds [OF us] by (simp add: fits_one_command_def ask_def)
      fix a A assume a: "noted ask (on_move srv log ask) = Inr a" "w_rows w = rows" "backed A w"
      have acks: "acks cur [?x] = map (\<lambda>uid. MoveAck (imap_name (facts row)) uid (imap_name (facts t)) (pair_of a uid)) (map mem_uid us)"
        using f by (simp add: a(1) at_folder_def) (simp add: ask_def)
      have "gone_backed rows (A \<union> set (acks cur [?x])) \<lparr>go_id = mem_id m, go_folder = folder, go_uid = mem_uid m\<rparr>" if "m \<in> set us" for m
      proof -
        have "MoveAck (imap_name (facts row)) (mem_uid m) (imap_name (facts t)) (pair_of a (mem_uid m)) \<in> set (acks cur [?x])"
          using that unfolding acks by simp
        then show ?thesis using f t unfolding gone_backed_def at_folder_def by auto
      qed
      with backed_keep_gone [OF backed_mono [OF a(3)] a(2)]
      show "w_rows (foldl (keep_gone folder) w us) = rows \<and> backed (A \<union> set (acks cur [?x])) (foldl (keep_gone folder) w us)"
        by (simp add: keep_gone_rows a(2))
    qed (rule keep_gone_rows)
    then show "sound_in rows cur q (snd ((\<lambda>(w, log). taken_out folder us
        (uid_move srv \<lparr>ma_uids = map mem_uid us, ma_target = imap_name (facts t)\<rparr> log) w) q))"
      by (simp add: q taken_out_def ask_def)
  qed
  then show ?thesis
    using inside.R_refl sound_settle [of rows cur "fst r" "snd r"] rows
    by (auto simp: trashes_run_def find_Some_iff intro: nth_mem split: option.split)
qed (rule sound_in_other)

subsection \<open>Folders\<close>

lemma without_commands_keeps:
  "w_rows (without_commands items w) = w_rows w" "backed A (without_commands items w) \<longleftrightarrow> backed A w"
  by (simp_all add: without_commands_def Let_def settle_keeps)

lemma sound_over_quiet:
  assumes "w_rows (fst r') = w_rows (fst r)" "snd r' = snd r" "\<And>A. backed A (fst r) \<Longrightarrow> backed A (fst r')"
  shows "sound_over rows r r'"
  unfolding sound_over_def sound_def using assms by (auto intro!: exI [of _ "[]"])

lemma sound_select:
  assumes "w_rows (fst r') = w_rows (fst r)" "snd r' = snd r @ [Selects f res]" "\<And>A. backed A (fst r) \<Longrightarrow> backed A (fst r')"
  shows "sound rows cur [Selects f res] r r'"
  using assms by (cases res) (auto simp: sound_def)

lemma folder_stored_sound: "sound_over rows r (snd (folder_stored srv folder items r))"
proof (cases "w_rows (fst r) = rows")
  case rows: True
  let ?ms = "folder_members items"
  define r1 where "r1 = (without_commands items (fst r), snd r)"
  have quiet: "sound_over rows r r1"
    by (rule sound_over_quiet) (simp_all add: r1_def without_commands_keeps)
  have r1: "w_rows (fst r1) = rows" using rows by (simp add: r1_def without_commands_keeps)
  have run: "folder_stored srv folder items r =
      (if standing (fst r1) ?ms = [] then (True, r1)
         else case select_folder srv folder ?ms r1 of
           (None, r) \<Rightarrow> (True, r)
         | (Some (None, stands), r) \<Rightarrow> (stands, r)
         | (Some (Some wr, _), r) \<Rightarrow>
             and_run (keywords_run srv folder wr (f_keywords items))
               (and_run (labels_run srv folder (f_labels items))
                 (and_run (moves_run srv folder wr (f_moves items))
                   (and_run (destroys_run srv folder wr (f_destroys items))
                     (trashes_run srv folder (f_trashes items))))) r)"
    by (simp add: folder_stored_def Let_def r1_def)
  have "sound_over rows r1 (snd (folder_stored srv folder items r))"
  proof (cases "standing (fst r1) ?ms = []")
    case True
    then show ?thesis using across.R_refl by (simp add: run)
  next
    case live: False
    show ?thesis
    proof (cases "row_get rows folder")
      case None
      then show ?thesis using live across.R_refl by (simp add: run select_folder_def r1)
    next
      case (Some row)
      let ?f = "imap_name (facts row)"
      define res where "res = on_select srv (snd r1) ?f"
      have sel: "select_folder srv folder ?ms r1 =
          (case res of
             Inr wr \<Rightarrow>
               if Some (wr_uid_validity wr) \<noteq> uid_validity (facts row) then (None, fst r1, snd r1 @ [Selects ?f res])
               else if wr_read_only wr then (Some (None, True), settle (fst r1) ?ms SForbidden, snd r1 @ [Selects ?f res])
               else (Some (Some wr, True), fst r1, snd r1 @ [Selects ?f res])
           | Inl e \<Rightarrow> (Some (None, snd (failure e)), settle (fst r1) ?ms (fst (failure e)), snd r1 @ [Selects ?f res]))"
        by (simp add: select_folder_def r1 Some ask_select_def Let_def res_def case_prod_beta split: sum.split)
      have stop: "sound_over rows r1 (w', snd r1 @ [Selects ?f res])"
        if "w_rows w' = w_rows (fst r1)" "\<And>A. backed A (fst r1) \<Longrightarrow> backed A w'" for w'
        unfolding sound_over_def using sound_select [of "(w', snd r1 @ [Selects ?f res])" r1] that by auto
      show ?thesis
      proof (cases "\<exists>wr. res = Inr wr \<and> Some (wr_uid_validity wr) = uid_validity (facts row) \<and> \<not> wr_read_only wr")
        case False
        then show ?thesis using live stop [of "fst r1"] stop [of "settle (fst r1) ?ms e" for e]
          by (auto simp: run sel settle_keeps split: sum.split)
      next
        case True
        then obtain wr where wr: "res = Inr wr" "Some (wr_uid_validity wr) = uid_validity (facts row)" "\<not> wr_read_only wr"
          by blast
        let ?cur = "Some (?f, wr)" and ?r2 = "(fst r1, snd r1 @ [Selects ?f res])"
        have at: "at_folder rows folder row wr ?cur" using Some wr by (simp add: at_folder_def)
        have "sound_in rows ?cur ?r2 (snd (folder_stored srv folder items r))"
          using live wr
          by (simp add: run sel)
            (intro inside.both keywords_run_sound [OF at] labels_run_sound [OF at] moves_run_sound [OF at]
              destroys_run_sound [OF at] trashes_run_sound [OF at])
        then obtain ys where ys: "sound rows ?cur ys ?r2 (snd (folder_stored srv folder items r))"
          unfolding sound_in_def by blast
        have "sound rows cur [Selects ?f res] r1 ?r2" for cur by (rule sound_select) simp_all
        from sound_trans [OF this] ys wr(1) show ?thesis unfolding sound_over_def by (metis foldl.simps open_after.simps(1))
      qed
    qed
  qed
  with quiet show ?thesis by (rule across.R_trans)
qed (simp add: sound_over_def sound_def)

subsection \<open>Restores\<close>

text \<open>The labels stored for moved messages are STOREs of labels that fit a command each.\<close>

lemma relabel_batches_log:
  assumes "\<forall>(r, uids) \<in> set todo. fits_one_command uids"
  shows "\<exists>ys. snd (relabel_batches srv w todo log) = log @ ys \<and>
    (\<forall>x \<in> set ys. \<exists>ask q. x = Stores ask q \<and> sa_item ask = Labels \<and> fits_one_command (sa_uids ask))"
  using assms
proof (induction todo arbitrary: log)
  case (Cons b todo)
  obtain r uids where b: "b = (r, uids)" by fastforce
  obtain res ys where one: "relabeled srv w r uids log = (res, log @ ys)"
    "\<forall>x \<in> set ys. \<exists>ask \<in> set (label_asks (w_rows w) r uids). \<exists>q. x = Stores ask q"
    using store_all_log [of srv "label_asks (w_rows w) r uids" log] by (metis prod.collapse relabeled_def)
  have asks: "\<forall>x \<in> set ys. \<exists>ask q. x = Stores ask q \<and> sa_item ask = Labels \<and> fits_one_command (sa_uids ask)"
    using one(2) label_asks_in Cons.prems b by fastforce
  from Cons.IH [of "log @ ys"] Cons.prems obtain zs where
    "snd (relabel_batches srv w todo (log @ ys)) = (log @ ys) @ zs"
    "\<forall>x \<in> set zs. \<exists>ask q. x = Stores ask q \<and> sa_item ask = Labels \<and> fits_one_command (sa_uids ask)"
    by auto
  then show ?case using asks one(1)
    by (cases res) (auto simp: b intro: exI [of _ ys] exI [of _ "ys @ zs"])
qed simp

text \<open>What was read for the restores: the last labels the answer gave for a UID.\<close>

definition labels_of_fetch :: "nat list \<Rightarrow> flagged list \<Rightarrow> (nat, string list) bt" where
  "labels_of_fetch uids found =
     foldl (\<lambda>m f. case fl_labels f of None \<Rightarrow> m | Some ls \<Rightarrow> bt_insert (fl_uid f) (labels ls) m) []
       (filter (\<lambda>f. fl_uid f \<in> set uids) found)"

definition was_read :: "string \<Rightarrow> restore list \<Rightarrow> ack set \<Rightarrow> (nat, string list) bt \<Rightarrow> bool" where
  "was_read f rss A rd \<longleftrightarrow> (\<forall>rs \<in> set rss. \<forall>ls. bt_get rd (rs_uid rs) = Some ls \<longrightarrow>
     LabelsRead f (rs_uid_validity rs) (rs_uid rs) ls \<in> A)"

lemma labels_of_fetch_given:
  assumes "bt_get (labels_of_fetch uids found) u = Some ls"
  shows "\<exists>x \<in> set found. fl_uid x = u \<and> map_option labels (fl_labels x) = Some ls"
proof -
  let ?step = "\<lambda>m f. case fl_labels f of None \<Rightarrow> m | Some ls \<Rightarrow> bt_insert (fl_uid f) (labels ls) m"
  have "bt_get m u = Some ls \<or> (\<exists>x \<in> set xs. fl_uid x = u \<and> map_option labels (fl_labels x) = Some ls)"
    if "bt_get (foldl ?step m xs) u = Some ls" for m xs
    using that by (induction xs arbitrary: m) (fastforce simp: bt_get_insert split: option.splits if_splits)+
  from this [of "[]" "filter (\<lambda>f. fl_uid f \<in> set uids) found"] assms show ?thesis by (auto simp: labels_of_fetch_def)
qed

lemma fetch_was_read:
  assumes "\<not> list_ex (\<lambda>rs. rs_uid_validity rs \<noteq> wr_uid_validity wr) rss"
  shows "was_read f rss (set (acked (Some (f, wr)) (Fetches span (Inr found)))) (labels_of_fetch uids found)"
  unfolding was_read_def
proof (intro ballI allI impI)
  fix rs ls assume rs: "rs \<in> set rss" "bt_get (labels_of_fetch uids found) (rs_uid rs) = Some ls"
  then obtain x where x: "x \<in> set found" "fl_uid x = rs_uid rs" "map_option labels (fl_labels x) = Some ls"
    using labels_of_fetch_given by blast
  have "rs_uid_validity rs = wr_uid_validity wr" using assms rs(1) by (auto simp: list_ex_iff)
  then show "LabelsRead f (rs_uid_validity rs) (rs_uid rs) ls \<in> set (acked (Some (f, wr)) (Fetches span (Inr found)))"
    using x by (auto intro!: bexI [of _ x])
qed

lemma labels_in_log:
  "\<exists>ys. snd (labels_in srv w to rss log) = log @ ys \<and> (\<forall>cur. safe rows cur ys \<and>
     (\<forall>rd f. fst (labels_in srv w to rss log) = Inr (Some rd) \<longrightarrow> folder_wire_name w to = Some f \<longrightarrow>
        was_read f rss (set (acks cur ys)) rd))"
proof (cases "folder_wire_name w to")
  case None
  then show ?thesis by (simp add: labels_in_def)
next
  case (Some f)
  define res where "res = on_select srv log f"
  let ?log = "log @ [Selects f res]" and ?run = "labels_in srv w to rss log"
  show ?thesis
  proof (cases "\<exists>wr. res = Inr wr \<and> \<not> wr_read_only wr \<and> \<not> list_ex (\<lambda>rs. rs_uid_validity rs \<noteq> wr_uid_validity wr) rss")
    case False
    then have "snd ?run = ?log \<and> (\<forall>rd. fst ?run \<noteq> Inr (Some rd))"
      by (auto simp: labels_in_def Some ask_select_def Let_def res_def [symmetric] split: sum.split)
    moreover have "safe rows cur [Selects f res]" for cur by (cases res) simp_all
    ultimately show ?thesis by blast
  next
    case True
    then obtain wr where wr: "res = Inr wr" "\<not> wr_read_only wr" "\<not> list_ex (\<lambda>rs. rs_uid_validity rs \<noteq> wr_uid_validity wr) rss"
      by blast
    let ?bs = "concat (map (\<lambda>(r, uids). map (\<lambda>us. (r, us)) (chunks MAX_STORE_UIDS uids)) (foldl join_restore [] rss))"
    have "\<forall>(r, uids) \<in> set ?bs. fits_one_command uids"
      using chunk_bounds by (fastforce simp: fits_one_command_def)
    from relabel_batches_log [OF this, of srv w ?log] obtain q ys where
      q: "relabel_batches srv w ?bs ?log = (q, ?log @ ys)"
      and ys: "\<forall>x \<in> set ys. \<exists>ask p. x = Stores ask p \<and> sa_item ask = Labels \<and> fits_one_command (sa_uids ask)"
      by (metis prod.collapse)
    have stores: "\<forall>x \<in> set ys. \<not> is_select x" using ys by fastforce
    note run = labels_in_def Some ask_select_def Let_def res_def [symmetric]
    obtain zs where zs: "zs = [] \<or> (\<exists>a b. zs = [Fetches a b])" "snd ?run = ?log @ ys @ zs"
      "\<forall>rd. fst ?run = Inr (Some rd) \<longrightarrow> was_read f rss (set (acks (Some (f, wr)) zs)) rd"
    proof (cases "(\<exists>e. q = Inl e) \<or> rss = []")
      case True
      then have "snd ?run = ?log @ ys \<and> (\<forall>rd. fst ?run = Inr (Some rd) \<longrightarrow> rss = [])"
        using wr q by (cases q) (auto simp: run)
      then show thesis using that [of "[]"] by (auto simp: was_read_def)
    next
      case False
      then have q': "relabel_batches srv w ?bs ?log = (Inr (), ?log @ ys)" using q by (cases q) auto
      let ?span = "(Min (set (map rs_uid rss)), Max (set (map rs_uid rss)))"
      define ans where "ans = on_flags srv (?log @ ys) ?span"
      have "?run = (case uid_flags srv ?span (?log @ ys) of
          (Inl e, log) \<Rightarrow> (Inl e, log)
        | (Inr found, log) \<Rightarrow> (Inr (Some (labels_of_fetch (map rs_uid rss) found)), log))"
        unfolding labels_of_fetch_def using wr q' False by (simp add: run)
      then have ran: "?run = (case ans of Inl e \<Rightarrow> (Inl e, (?log @ ys) @ [Fetches ?span ans])
        | Inr found \<Rightarrow> (Inr (Some (labels_of_fetch (map rs_uid rss) found)), (?log @ ys) @ [Fetches ?span ans]))"
        unfolding uid_flags_def Let_def ans_def [symmetric] by (simp split: sum.split)
      have log: "snd ?run = ?log @ ys @ [Fetches ?span ans]"
        unfolding ran by (simp split: sum.split)
      have "\<exists>found. ans = Inr found \<and> rd = labels_of_fetch (map rs_uid rss) found" if "fst ?run = Inr (Some rd)" for rd
        using that unfolding ran by (simp split: sum.splits)
      moreover have "was_read f rss (set (acks (Some (f, wr)) [Fetches ?span (Inr found)])) (labels_of_fetch (map rs_uid rss) found)" for found
        using fetch_was_read [OF wr(3)] by (simp del: acked.simps)
      ultimately have "\<forall>rd. fst ?run = Inr (Some rd) \<longrightarrow> was_read f rss (set (acks (Some (f, wr)) [Fetches ?span ans])) rd"
        by metis
      from that [OF _ log this] show thesis by blast
    qed
    have "safe rows (Some (f, wr)) (ys @ zs)"
      using ys wr(2) within_folder(3) [OF stores] zs(1) unfolding safe_append by fastforce
    moreover have "set (acks cur (Selects f res # ys @ zs)) \<supseteq> set (acks (Some (f, wr)) zs)" for cur
      using wr(1) within_folder(1) [OF stores] by (auto simp: acks_append)
    moreover have "was_read f rss A rd \<Longrightarrow> A \<subseteq> B \<Longrightarrow> was_read f rss B rd" for A B rd by (auto simp: was_read_def)
    ultimately show ?thesis
      using zs(2,3) wr(1) Some by (intro exI [of _ "Selects f res # ys @ zs"]) fastforce
  qed
qed

lemma restored_rows: "w_rows (foldl (restored_one rd) w rss) = w_rows w" "w_rows (foldl (unrestored_one e) w rss) = w_rows w"
  by (induction rss arbitrary: w) (simp_all add: restored_one_def unrestored_one_def settle_keeps)

lemma relabelled_backed:
  assumes "move_backed rows A (restore_change rs None)" "folder_wire_name w (rs_to rs) = Some f" "w_rows w = rows"
    and "was_read f [rs] A rd"
  shows "move_backed rows A (restore_change rs (bt_get rd (rs_uid rs)))"
  using assms by (auto simp: move_backed_def restore_change_def was_read_def folder_wire_name_def)

lemma restored_backed:
  assumes "backed A w" "\<forall>rs \<in> set rss. move_backed (w_rows w) A (restore_change rs None) \<and> rs_to rs = to"
  shows "folder_wire_name w to = Some f \<Longrightarrow> was_read f rss A rd \<Longrightarrow> backed A (foldl (restored_one rd) w rss)"
    and "backed A (foldl (unrestored_one e) w rss)"
proof -
  have rows: "w_rows (restored_one rd v rs) = w_rows v" "w_rows (unrestored_one e v rs) = w_rows v" for v rs
    by (simp_all add: restored_one_def unrestored_one_def settle_keeps)
  show "backed A (foldl (restored_one rd) w rss)" if f: "folder_wire_name w to = Some f" and rd: "was_read f rss A rd"
  proof -
    have one: "backed A (restored_one rd v rs)" if "backed A v" "w_rows v = w_rows w" "rs \<in> set rss" for v rs
    proof -
      have "was_read f [rs] A rd" using rd that(3) by (simp add: was_read_def)
      moreover have "rs_to rs = to" "move_backed (w_rows w) A (restore_change rs None)" using assms(2) that(3) by auto
      ultimately have "move_backed (w_rows w) A (restore_change rs (bt_get rd (rs_uid rs)))"
        using relabelled_backed [of "w_rows w" A rs w f rd] f by simp
      then show ?thesis using that(1,2) by (simp add: restored_one_def backed_moved)
    qed
    have "backed A (foldl (restored_one rd) v xs)" if "backed A v" "w_rows v = w_rows w" "set xs \<subseteq> set rss" for v xs
      using that by (induction xs arbitrary: v) (auto simp: one rows)
    then show ?thesis using assms(1) by blast
  qed
  have one: "backed A (unrestored_one e v rs)" if "backed A v" "move_backed (w_rows v) A (restore_change rs None)" for v rs
    using that by (simp add: unrestored_one_def settle_keeps backed_moved)
  have "backed A (foldl (unrestored_one e) v rss)" if "backed A v" "w_rows v = w_rows w" for v
    using that assms(2) by (induction rss arbitrary: v) (auto simp: one rows)
  then show "backed A (foldl (unrestored_one e) w rss)" using assms(1) by simp
qed

text \<open>A stretch over restores: backed moves go in, and they are stored as such.\<close>

definition sound_restores :: "mailbox_row list \<Rightarrow> restore list \<Rightarrow> run \<Rightarrow> run \<Rightarrow> bool" where
  "sound_restores rows rss r r' \<longleftrightarrow>
     (w_rows (fst r) = rows \<longrightarrow> w_rows (fst r') = rows \<and> (\<exists>ys. snd r' = snd r @ ys \<and> (\<forall>cur. safe rows cur ys \<and>
        (\<forall>A. backed A (fst r) \<longrightarrow> (\<forall>rs \<in> set rss. move_backed rows A (restore_change rs None)) \<longrightarrow>
           backed (A \<union> set (acks cur ys)) (fst r')))))"

lemma target_restored_cases:
  obtains (read_back) rd where "fst (labels_in srv (fst r) to rss (snd r)) = Inr (Some rd)"
      "fst (snd (target_restored srv to rss r)) = foldl (restored_one rd) (fst r) rss"
  | (unread) e where "fst (snd (target_restored srv to rss r)) = foldl (unrestored_one e) (fst r) rss"
proof (cases "labels_in srv (fst r) to rss (snd r)")
  case (Pair res log)
  then show thesis
    using read_back unread by (cases res; cases "projr res") (auto simp: target_restored_def Let_def case_prod_beta)
qed

lemma target_restored_log: "snd (snd (target_restored srv to rss r)) = snd (labels_in srv (fst r) to rss (snd r))"
  by (auto simp: target_restored_def Let_def case_prod_beta split: prod.split sum.split option.split)

lemma target_restored_sound:
  assumes "\<forall>rs \<in> set rss. rs_to rs = to"
  shows "sound_restores rows rss r (snd (target_restored srv to rss r))"
  unfolding sound_restores_def
proof (intro impI conjI)
  assume rows: "w_rows (fst r) = rows"
  let ?w = "fst (snd (target_restored srv to rss r))"
  show "w_rows ?w = rows"
    by (rule target_restored_cases [of srv r to rss]) (simp_all add: restored_rows rows)
  obtain ys where ys: "snd (labels_in srv (fst r) to rss (snd r)) = snd r @ ys" "\<And>cur. safe rows cur ys"
    "\<And>cur rd f. fst (labels_in srv (fst r) to rss (snd r)) = Inr (Some rd) \<Longrightarrow> folder_wire_name (fst r) to = Some f \<Longrightarrow>
       was_read f rss (set (acks cur ys)) rd"
    using labels_in_log [of srv "fst r" to rss "snd r" rows] by blast
  have "backed (A \<union> set (acks cur ys)) ?w"
    if A: "backed A (fst r)" "\<forall>rs \<in> set rss. move_backed rows A (restore_change rs None)" for A cur
  proof -
    let ?A = "A \<union> set (acks cur ys)"
    have moves: "\<forall>rs \<in> set rss. move_backed (w_rows (fst r)) ?A (restore_change rs None) \<and> rs_to rs = to"
      using A(2) assms move_backed_mono rows by blast
    have b: "backed ?A (fst r)" using backed_mono [OF A(1)] by blast
    show ?thesis
    proof (cases rule: target_restored_cases [of srv r to rss])
      case (read_back rd)
      then obtain f where f: "folder_wire_name (fst r) to = Some f"
        by (cases "folder_wire_name (fst r) to") (simp_all add: labels_in_def)
      have "was_read f rss ?A rd" using ys(3) [OF read_back(1) f, of cur] by (auto simp: was_read_def)
      from restored_backed(1) [OF b moves f this] read_back(2) show ?thesis by simp
    next
      case (unread e)
      then show ?thesis using restored_backed(2) [OF b moves] by simp
    qed
  qed
  with ys show "\<exists>ys. snd (snd (target_restored srv to rss r)) = snd r @ ys \<and> (\<forall>cur. safe rows cur ys \<and>
      (\<forall>A. backed A (fst r) \<longrightarrow> (\<forall>rs \<in> set rss. move_backed rows A (restore_change rs None)) \<longrightarrow>
         backed (A \<union> set (acks cur ys)) ?w))"
    by (auto simp: target_restored_log)
qed

lemma sound_restores_trans:
  assumes "sound_restores rows xs r s" "sound_restores rows ys s t"
  shows "sound_restores rows (xs @ ys) r t"
  unfolding sound_restores_def
proof (intro impI)
  assume rows: "w_rows (fst r) = rows"
  from assms(1) rows obtain us where us: "w_rows (fst s) = rows" "snd s = snd r @ us" "\<And>cur. safe rows cur us"
    "\<And>cur A. backed A (fst r) \<Longrightarrow> \<forall>rs \<in> set xs. move_backed rows A (restore_change rs None) \<Longrightarrow> backed (A \<union> set (acks cur us)) (fst s)"
    unfolding sound_restores_def by blast
  from assms(2) us(1) obtain vs where vs: "w_rows (fst t) = rows" "snd t = snd s @ vs" "\<And>cur. safe rows cur vs"
    "\<And>cur A. backed A (fst s) \<Longrightarrow> \<forall>rs \<in> set ys. move_backed rows A (restore_change rs None) \<Longrightarrow> backed (A \<union> set (acks cur vs)) (fst t)"
    unfolding sound_restores_def by blast
  have "backed (A \<union> set (acks cur (us @ vs))) (fst t)"
    if A: "backed A (fst r)" "\<forall>rs \<in> set (xs @ ys). move_backed rows A (restore_change rs None)" for A cur
  proof -
    have "backed (A \<union> set (acks cur us)) (fst s)" using us(4) A by auto
    moreover have "\<forall>rs \<in> set ys. move_backed rows (A \<union> set (acks cur us)) (restore_change rs None)"
      using A(2) move_backed_mono by (metis Un_iff set_append sup_ge1)
    ultimately show ?thesis using vs(4) by (simp add: acks_append Un_assoc [symmetric])
  qed
  then show "w_rows (fst t) = rows \<and> (\<exists>zs. snd t = snd r @ zs \<and> (\<forall>cur. safe rows cur zs \<and>
      (\<forall>A. backed A (fst r) \<longrightarrow> (\<forall>rs \<in> set (xs @ ys). move_backed rows A (restore_change rs None)) \<longrightarrow>
         backed (A \<union> set (acks cur zs)) (fst t))))"
    using us(2,3) vs(1-3) by (intro conjI exI [of _ "us @ vs"]) (simp_all add: safe_append)
qed

lemma targets_restored_sound:
  assumes "\<forall>(to, rss) \<in> set ts. \<forall>rs \<in> set rss. rs_to rs = to"
  shows "sound_restores rows (concat (map snd ts)) r (snd (each_run (\<lambda>(to, rss). target_restored srv to rss) ts r))"
  using assms
proof (induction ts arbitrary: r)
  case Nil
  show ?case by (auto simp: sound_restores_def intro: exI [of _ "[]"])
next
  case (Cons t ts)
  obtain to rss where t: "t = (to, rss)" by fastforce
  obtain b s where s: "target_restored srv to rss r = (b, s)" by fastforce
  have one: "sound_restores rows rss r s" using target_restored_sound [of rss to rows r srv] s Cons.prems t by simp
  have stop: "sound_restores rows xs s s" for xs by (auto simp: sound_restores_def intro: exI [of _ "[]"])
  show ?case
    using sound_restores_trans [OF one Cons.IH] sound_restores_trans [OF one stop] Cons.prems by (cases b) (simp_all add: t s)
qed

lemma by_target_keys: "(to, rss) \<in> set (by_target q) \<Longrightarrow> \<forall>rs \<in> set rss. rs_to rs = to"
proof -
  let ?step = "\<lambda>m rs. bt_insert (rs_to rs) ((case bt_get m (rs_to rs) of None \<Rightarrow> [] | Some l \<Rightarrow> l) @ [rs]) m"
  let ?ok = "\<lambda>m. \<forall>t l. bt_get m t = Some l \<longrightarrow> (\<forall>rs \<in> set l. rs_to rs = t)"
  have ok: "bt_ok m \<Longrightarrow> ?ok m \<Longrightarrow> bt_ok (foldl ?step m q) \<and> ?ok (foldl ?step m q)" for m
  proof (induction q arbitrary: m)
    case (Cons rs q)
    have "?ok (?step m rs)" using Cons.prems(2) by (cases "bt_get m (rs_to rs)") (auto simp: bt_get_insert)
    then show ?case unfolding foldl.simps by (rule Cons.IH [OF bt_ok_insert [OF Cons.prems(1)]])
  qed simp
  have all: "bt_ok (by_target q) \<and> ?ok (by_target q)"
    unfolding by_target_def by (rule ok [OF bt_ok_Nil]) simp
  assume "(to, rss) \<in> set (by_target q)"
  then have "bt_get (by_target q) to = Some rss" using bt_entries [OF conjunct1 [OF all]] by blast
  then show ?thesis using conjunct2 [OF all] by blast
qed

lemma restores_run_sound: "sound_over rows r (snd (restores_run srv r))"
proof -
  let ?r = "((fst r)\<lparr>w_restores := []\<rparr>, snd r)"
  have "set (concat (map snd (by_target (w_restores (fst r))))) = set (w_restores (fst r))"
    using by_target_mset by (metis set_mset_mset)
  moreover have keys: "\<forall>(to, rss) \<in> set (by_target (w_restores (fst r))). \<forall>rs \<in> set rss. rs_to rs = to"
    using by_target_keys by fastforce
  ultimately have s: "sound_restores rows (w_restores (fst r)) ?r (snd (restores_run srv r))"
    using targets_restored_sound [OF keys, of rows ?r srv] by (simp add: restores_run_def sound_restores_def)
  show ?thesis unfolding sound_over_def
  proof
    fix cur
    show "\<exists>ys. sound rows cur ys r (snd (restores_run srv r))"
    proof (cases "w_rows (fst r) = rows")
      case True
      with s obtain ys where ys: "snd (snd (restores_run srv r)) = snd r @ ys" "safe rows cur ys"
        "w_rows (fst (snd (restores_run srv r))) = rows"
        "\<And>A. backed A (fst ?r) \<Longrightarrow> \<forall>rs \<in> set (w_restores (fst r)). move_backed rows A (restore_change rs None) \<Longrightarrow>
           backed (A \<union> set (acks cur ys)) (fst (snd (restores_run srv r)))" by (auto simp: sound_restores_def)
      moreover have "backed A (fst ?r) \<and> (\<forall>rs \<in> set (w_restores (fst r)). move_backed rows A (restore_change rs None))"
        if "backed A (fst r)" for A
        using that True by (auto simp: backed_def)
      ultimately show ?thesis by (intro exI [of _ ys]) (simp add: sound_def)
    qed (simp add: sound_def)
  qed
qed

subsection \<open>Whole runs\<close>

lemma store_run_sound: "sound_over rows r (snd (store_run srv r))"
proof -
  have "sound_over rows r ((fst r)\<lparr>w_folders := []\<rparr>, snd r)"
    by (rule sound_over_quiet) (simp_all add: backed_def)
  moreover have "sound_over rows q (snd (store_run srv r))" if "q = ((fst r)\<lparr>w_folders := []\<rparr>, snd r)" for q
    unfolding store_run_def that [symmetric]
    by (intro across.both across.each restores_run_sound) (simp add: folder_stored_sound case_prod_beta)
  ultimately show ?thesis using across.R_trans by blast
qed

text \<open>
  C1: Every command a run of \<open>Email/set\<close> sends keeps to the folder that is open: a STORE, MOVE, COPY
  or EXPUNGE goes out only while a folder is open that the server did not open read-only, one that
  changes keywords or takes messages only while that folder has the numbering of its row; keywords
  are stored only where the folder keeps them, a copy or an expunge only where it keeps \<open>\Deleted\<close>;
  and no STORE, MOVE, COPY or EXPUNGE names no message or more than a hundred, the EXPUNGE that
  follows a COPY included, whatever pairs the server answered. This holds for every work and every
  server.
\<close>

theorem commands_keep_to_the_open_folder: "safe (w_rows w) None (snd (snd (store_run srv (w, []))))"
  using store_run_sound [of "w_rows w" "(w, [])" srv] by (auto simp: sound_over_def sound_def dest: spec [of _ None])

text \<open>
  C2: Nothing goes to the rows that the server did not acknowledge. In what a run stores, every
  keyword gained or lost was named by a STORE the server accepted for that UID in that row's folder,
  and so was every label; every move has the target, UIDVALIDITY and UID the server paired with the
  message, by a MOVE or by a COPY whose original was expunged, and labels that come with it were read
  from the server for that UID, in the target, open under that UIDVALIDITY; and every row that leaves
  was expunged or moved to Trash. So a refused or cut off command leaves the rows as they were.
\<close>

theorem stored_changes_are_acknowledged:
  assumes "planned ask state found rows letters = Some (w, x)"
    and "store_run srv (w\<lparr>w_moving := mv\<rparr>, []) = (stands, w', log)"
  shows "write_backed rows (set (acks None log)) (w_stored w')"
proof -
  let ?w = "w\<lparr>w_moving := mv\<rparr>"
  have "backed {} ?w"
    using planned_start [OF assms(1)] by (simp add: backed_def write_backed_def work_start_def)
  moreover obtain ys where "sound rows None ys (?w, []) (w', log)"
    using store_run_sound [of rows "(?w, [])" srv] assms(2) unfolding sound_over_def by auto
  ultimately have "backed ({} \<union> set (acks None log)) w' \<and> w_rows w' = rows"
    using planned_start(2) [OF assms(1)] unfolding sound_def by auto
  then show ?thesis by (auto simp: backed_def)
qed

theorem stored_changes_are_acknowledged_witness:
  "\<exists>w' log'. store_run demo_server (demo_work\<lparr>w_moving := \<lparr>move_command = True, uidplus = True\<rparr>\<rparr>, []) = (True, w', log') \<and>
     write_backed demo_folders (set (acks None log')) (w_stored w')"
proof -
  obtain x where plan: "planned demo_ask 3 demo_found demo_folders [''f1'' \<mapsto> ''sri''] = Some (demo_work, x)"
    using demo_planned by blast
  obtain w' log' where run: "store_run demo_server (demo_work\<lparr>w_moving := \<lparr>move_command = True, uidplus = True\<rparr>\<rparr>, []) = (True, w', log')"
    using demo_stored by blast
  show ?thesis using stored_changes_are_acknowledged [OF plan run] run by blast
qed

end
