(* ===== verification/Mail_Threads.thy ===== *)
theory Mail_Threads
  imports Change_History "HOL-Library.Multiset" "HOL-Library.List_Lexorder" "HOL-Library.Char_ord"
begin

text \<open>
  Threads across the mailboxes of one account (\<open>store/threads.rs\<close>): a union-find kept in two tables,
  the emails with their thread and the hashes of message ids with theirs. An account key picks the
  rows of one account, which the tables here are. \<open>ThreadId::generate\<close> is the argument \<open>fresh\<close>.
  The notes a call leaves in the ledger are a list; the ledger is the fold of it. The writes that
  call in here are \<open>arrive\<close> (\<open>store/emails.rs\<close>) and \<open>depart\<close> (\<open>store/refresh.rs\<close>).
\<close>

type_synonym thread_id = string
type_synonym email_id = string
type_synonym msg_hash = string

record email_entry =
  en_id :: email_id
  en_thread :: thread_id
  en_received :: int

record thread_tables =
  th_emails :: "email_entry list"
  th_hashes :: "(msg_hash, thread_id) bt"

definition emails_of :: "thread_tables \<Rightarrow> thread_id \<Rightarrow> email_id list" where
  "emails_of db t =
     map en_id (sort_key (\<lambda>e. (en_received e, en_id e)) (filter (\<lambda>e. en_thread e = t) (th_emails db)))"

definition threads_named :: "thread_tables \<Rightarrow> string list \<Rightarrow> (thread_id \<times> email_id list) list" where
  "threads_named db ids = filter (\<lambda>(t, es). es \<noteq> []) (map (\<lambda>t. (t, emails_of db t)) ids)"

definition thread_of :: "thread_tables \<Rightarrow> msg_hash \<Rightarrow> thread_id option" where
  "thread_of db h = bt_get (th_hashes db) h"

definition thread_size :: "thread_tables \<Rightarrow> thread_id \<Rightarrow> nat" where
  "thread_size db t = length (filter (\<lambda>e. en_thread e = t) (th_emails db))"

definition merge_into :: "thread_id \<Rightarrow> thread_tables \<times> noted list \<Rightarrow> thread_id \<Rightarrow> thread_tables \<times> noted list" where
  "merge_into survivor s loser =
     (let (db, ns) = s; to = (\<lambda>t. if t = loser then survivor else t)
      in (\<lparr>th_emails = map (\<lambda>e. e\<lparr>en_thread := to (en_thread e)\<rparr>) (th_emails db),
           th_hashes = map (\<lambda>(h, t). (h, to t)) (th_hashes db)\<rparr>,
          ns @ map (\<lambda>e. (Email, e, Updated)) (emails_of db loser) @ [(Thread, loser, Destroyed)]))"

fun named_threads :: "thread_tables \<Rightarrow> (nat \<times> thread_id) list \<Rightarrow> msg_hash list \<Rightarrow> (nat \<times> thread_id) list" where
  "named_threads db named [] = named"
| "named_threads db named (h # hs) =
     (case thread_of db h of
        None \<Rightarrow> named_threads db named hs
      | Some t \<Rightarrow>
          if t \<in> snd ` set named then named_threads db named hs
          else named_threads db (named @ [(thread_size db t, t)]) hs)"

definition join_threads :: "msg_hash list \<Rightarrow> thread_id \<Rightarrow> thread_tables \<Rightarrow> thread_id \<times> thread_tables \<times> noted list" where
  "join_threads hs fresh db =
     (let named = sort_key (\<lambda>(n, t). (- int n, t)) (named_threads db [] hs);
          (held, t) = (case named of [] \<Rightarrow> (0, fresh) | x # _ \<Rightarrow> x);
          losers = map snd (tl named);
          (db, ns) = foldl (merge_into t) (db, []) losers;
          kind = (if held = 0 \<and> losers = [] then Created else Updated)
      in (t, db\<lparr>th_hashes := foldl (\<lambda>m h. bt_insert h t m) (th_hashes db) hs\<rparr>, ns @ [(Thread, t, kind)]))"

definition claim_thread :: "thread_tables \<Rightarrow> thread_id \<Rightarrow> noted" where
  "claim_thread db t = (Thread, t, if thread_size db t = 0 then Created else Updated)"

definition thread_left :: "thread_id \<Rightarrow> thread_tables \<Rightarrow> thread_tables \<times> noted list" where
  "thread_left t db =
     (if thread_size db t > 0 then (db, [(Thread, t, Updated)])
      else (db\<lparr>th_hashes := filter (\<lambda>(h, u). u \<noteq> t) (th_hashes db)\<rparr>, [(Thread, t, Destroyed)]))"

datatype mail_event = Arrive email_id "msg_hash list" thread_id int | Depart email_id

definition arrive :: "email_id \<Rightarrow> msg_hash list \<Rightarrow> thread_id \<Rightarrow> int \<Rightarrow> thread_tables \<Rightarrow> thread_tables \<times> noted list" where
  "arrive e hs fresh received db =
     (let (t, db, ns) = join_threads hs fresh db
      in (db\<lparr>th_emails := th_emails db @ [\<lparr>en_id = e, en_thread = t, en_received = received\<rparr>]\<rparr>,
          ns @ [(Email, e, Created)]))"

definition depart :: "email_id \<Rightarrow> thread_tables \<Rightarrow> thread_tables \<times> noted list" where
  "depart e db =
     (case List.find (\<lambda>r. en_id r = e) (th_emails db) of
        None \<Rightarrow> (db, [])
      | Some r \<Rightarrow>
          (let (db, ns) = thread_left (en_thread r) (db\<lparr>th_emails := filter (\<lambda>r. en_id r \<noteq> e) (th_emails db)\<rparr>)
           in (db, (Email, e, Destroyed) # ns)))"

fun mail_step :: "mail_event \<Rightarrow> thread_tables \<Rightarrow> thread_tables \<times> noted list" where
  "mail_step (Arrive e hs fresh received) db = arrive e hs fresh received db"
| "mail_step (Depart e) db = depart e db"

subsection \<open>What a join does\<close>

definition joined :: "thread_tables \<Rightarrow> msg_hash list \<Rightarrow> thread_id set" where
  "joined db hs = {t. \<exists>h \<in> set hs. thread_of db h = Some t}"

lemma named_threads_spec:
  assumes "distinct (map snd named)" "\<forall>(n, t) \<in> set named. n = thread_size db t"
  shows "distinct (map snd (named_threads db named hs)) \<and>
    snd ` set (named_threads db named hs) = snd ` set named \<union> joined db hs \<and>
    (\<forall>(n, t) \<in> set (named_threads db named hs). n = thread_size db t)"
  using assms
proof (induction hs arbitrary: named)
  case (Cons h hs)
  show ?case
  proof (cases "thread_of db h")
    case None
    then show ?thesis using Cons by (simp add: joined_def)
  next
    case (Some t)
    have j: "joined db (h # hs) = insert t (joined db hs)" using Some by (auto simp: joined_def)
    show ?thesis
    proof (cases "t \<in> snd ` set named")
      case True
      then show ?thesis using Some Cons.IH [OF Cons.prems] j by auto
    next
      case False
      have "distinct (map snd (named @ [(thread_size db t, t)]))" "\<forall>(n, u) \<in> set (named @ [(thread_size db t, t)]). n = thread_size db u"
        using Cons.prems False by auto
      from Cons.IH [OF this] show ?thesis using Some False j by auto
    qed
  qed
qed (simp add: joined_def)

text \<open>The threads a join considers, the one with the most emails first.\<close>

lemma named_sorted:
  fixes db hs
  defines "named \<equiv> sort_key (\<lambda>(n, t). (- int n, t)) (named_threads db [] hs)"
  shows "distinct (map snd named)" "snd ` set named = joined db hs" "\<forall>(n, t) \<in> set named. n = thread_size db t"
proof -
  have spec: "distinct (map snd (named_threads db [] hs))" "snd ` set (named_threads db [] hs) = joined db hs"
    "\<forall>(n, t) \<in> set (named_threads db [] hs). n = thread_size db t"
    using named_threads_spec [of "[]" db hs] by auto
  have "mset named = mset (named_threads db [] hs)" by (simp add: named_def)
  then have "mset (map snd named) = mset (map snd (named_threads db [] hs))" by (simp only: mset_map)
  then show "distinct (map snd named)" using spec(1) mset_eq_imp_distinct_iff by blast
  show "snd ` set named = joined db hs" "\<forall>(n, t) \<in> set named. n = thread_size db t" using spec by (simp_all add: named_def)
qed

lemma map_of_map_snd: "map_of (map (\<lambda>(h, t). (h, f t)) m) k = map_option f (map_of m k)"
  by (induction m) auto

lemma merge_into_fold:
  assumes "survivor \<notin> set losers" "distinct losers"
  shows "\<exists>ms. foldl (merge_into survivor) (db, ns) losers =
      (\<lparr>th_emails = map (\<lambda>e. e\<lparr>en_thread := (if en_thread e \<in> set losers then survivor else en_thread e)\<rparr>) (th_emails db),
        th_hashes = map (\<lambda>(h, t). (h, if t \<in> set losers then survivor else t)) (th_hashes db)\<rparr>, ms)"
  using assms
proof (induction losers arbitrary: db ns)
  case (Cons l ls)
  obtain db1 ns1 where s: "merge_into survivor (db, ns) l = (db1, ns1)" by fastforce
  have db1: "db1 = \<lparr>th_emails = map (\<lambda>e. e\<lparr>en_thread := (if en_thread e = l then survivor else en_thread e)\<rparr>) (th_emails db),
      th_hashes = map (\<lambda>(h, t). (h, if t = l then survivor else t)) (th_hashes db)\<rparr>"
    using s by (simp add: merge_into_def Let_def)
  from Cons.IH [of db1 ns1] Cons.prems obtain ms where ms: "foldl (merge_into survivor) (db1, ns1) ls =
      (\<lparr>th_emails = map (\<lambda>e. e\<lparr>en_thread := (if en_thread e \<in> set ls then survivor else en_thread e)\<rparr>) (th_emails db1),
        th_hashes = map (\<lambda>(h, t). (h, if t \<in> set ls then survivor else t)) (th_hashes db1)\<rparr>, ms)"
    by auto
  have a: "foldl (merge_into survivor) (db, ns) (l # ls) = foldl (merge_into survivor) (db1, ns1) ls" by (simp add: s)
  have c: "\<lparr>th_emails = map (\<lambda>e. e\<lparr>en_thread := (if en_thread e \<in> set ls then survivor else en_thread e)\<rparr>) (th_emails db1),
        th_hashes = map (\<lambda>(h, t). (h, if t \<in> set ls then survivor else t)) (th_hashes db1)\<rparr> =
      \<lparr>th_emails = map (\<lambda>e. e\<lparr>en_thread := (if en_thread e \<in> set (l # ls) then survivor else en_thread e)\<rparr>) (th_emails db),
        th_hashes = map (\<lambda>(h, t). (h, if t \<in> set (l # ls) then survivor else t)) (th_hashes db)\<rparr>"
    using Cons.prems by (auto simp: db1)
  show ?case using ms unfolding a c by blast
qed (auto intro!: exI [of _ ns] list.map_ident_strong [symmetric])

lemma joined_empty: "joined db hs = {} \<Longrightarrow> named_threads db [] hs = []"
  using named_threads_spec [of "[]" db hs] by auto

text \<open>
  The thread a join answers is one of those the hashes name, or the fresh one when they name none;
  afterwards every thread they named is that one.
\<close>

lemma join_threads_spec:
  assumes j: "join_threads hs fresh db = (t, db', ns)"
  shows "joined db hs = {} \<longrightarrow> t = fresh" "joined db hs \<noteq> {} \<longrightarrow> t \<in> joined db hs"
    "th_emails db' = map (\<lambda>e. if en_thread e \<in> joined db hs then e\<lparr>en_thread := t\<rparr> else e) (th_emails db)"
    "thread_of db' h = (if h \<in> set hs then Some t else map_option (\<lambda>u. if u \<in> joined db hs then t else u) (thread_of db h))"
    "bt_ok (th_hashes db) \<longrightarrow> bt_ok (th_hashes db')"
proof -
  define named where "named = sort_key (\<lambda>(n, t). (- int n, t)) (named_threads db [] hs)"
  note named = named_sorted [of db hs, folded named_def]
  have hashes: "map_of (foldl (\<lambda>m h. bt_insert h t m) m hs) h = (if h \<in> set hs then Some t else map_of m h)"
    "bt_ok m \<Longrightarrow> bt_ok (foldl (\<lambda>m h. bt_insert h t m) m hs)" for m :: "(msg_hash, thread_id) bt" and t
    by (induction hs arbitrary: m) (auto simp: bt_get_insert bt_ok_insert)
  have "(joined db hs = {} \<longrightarrow> t = fresh) \<and> (joined db hs \<noteq> {} \<longrightarrow> t \<in> joined db hs) \<and>
    th_emails db' = map (\<lambda>e. if en_thread e \<in> joined db hs then e\<lparr>en_thread := t\<rparr> else e) (th_emails db) \<and>
    thread_of db' h = (if h \<in> set hs then Some t else map_option (\<lambda>u. if u \<in> joined db hs then t else u) (thread_of db h)) \<and>
    (bt_ok (th_hashes db) \<longrightarrow> bt_ok (th_hashes db'))"
  proof (cases named)
    case Nil
    then have "joined db hs = {}" using named(2) by simp
    with j Nil show ?thesis
      by (auto simp: join_threads_def Let_def named_def [symmetric] thread_of_def hashes option.map_ident)
  next
    case (Cons x xs)
    obtain held u where x: "x = (held, u)" by fastforce
    have l: "u \<notin> set (map snd xs)" "distinct (map snd xs)" "joined db hs = insert u (set (map snd xs))"
      using named(1,2) Cons x by auto
    from merge_into_fold [OF l(1,2), of db "[]"] obtain ms where ms: "foldl (merge_into u) (db, []) (map snd xs) =
        (\<lparr>th_emails = map (\<lambda>e. e\<lparr>en_thread := (if en_thread e \<in> set (map snd xs) then u else en_thread e)\<rparr>) (th_emails db),
          th_hashes = map (\<lambda>(h, t). (h, if t \<in> set (map snd xs) then u else t)) (th_hashes db)\<rparr>, ms)" by blast
    have t: "t = u" and db': "db' = \<lparr>th_emails = map (\<lambda>e. e\<lparr>en_thread := (if en_thread e \<in> set (map snd xs) then u else en_thread e)\<rparr>) (th_emails db),
          th_hashes = foldl (\<lambda>m h. bt_insert h u m) (map (\<lambda>(h, t). (h, if t \<in> set (map snd xs) then u else t)) (th_hashes db)) hs\<rparr>"
      using j ms by (auto simp: join_threads_def Let_def named_def [symmetric] Cons x simp del: set_map)
    have same: "(if v \<in> joined db hs then u else v) = (if v \<in> set (map snd xs) then u else v)" for v
      using l(3) by auto
    have "bt_ok (th_hashes db) \<longrightarrow> bt_ok (map (\<lambda>(h, t). (h, f t)) (th_hashes db))" for f :: "thread_id \<Rightarrow> thread_id"
      by (simp add: bt_ok_def case_prod_beta o_def)
    then have "bt_ok (th_hashes db) \<longrightarrow> bt_ok (th_hashes db')" by (simp add: db' hashes)
    moreover have "th_emails db' = map (\<lambda>e. if en_thread e \<in> joined db hs then e\<lparr>en_thread := t\<rparr> else e) (th_emails db)"
      unfolding db' t using l(3) by auto
    moreover have "thread_of db' h = (if h \<in> set hs then Some t else map_option (\<lambda>u. if u \<in> joined db hs then t else u) (thread_of db h))"
      unfolding db' t thread_of_def by (simp add: hashes map_of_map_snd same del: set_map)
    ultimately show ?thesis using l(3) t by auto
  qed
  then show "joined db hs = {} \<longrightarrow> t = fresh" "joined db hs \<noteq> {} \<longrightarrow> t \<in> joined db hs"
    "th_emails db' = map (\<lambda>e. if en_thread e \<in> joined db hs then e\<lparr>en_thread := t\<rparr> else e) (th_emails db)"
    "thread_of db' h = (if h \<in> set hs then Some t else map_option (\<lambda>u. if u \<in> joined db hs then t else u) (thread_of db h))"
    "bt_ok (th_hashes db) \<longrightarrow> bt_ok (th_hashes db')" by blast+
qed

subsection \<open>The notes are legal\<close>

definition objects :: "thread_tables \<Rightarrow> object set" where
  "objects db = (\<lambda>e. (Email, en_id e)) ` set (th_emails db) \<union> (\<lambda>e. (Thread, en_thread e)) ` set (th_emails db)"

text \<open>Ids are unique and a hash only ever names a thread that holds an email.\<close>

definition threads_ok :: "thread_tables \<Rightarrow> bool" where
  "threads_ok db \<longleftrightarrow> distinct (map en_id (th_emails db)) \<and> bt_ok (th_hashes db) \<and>
     (\<forall>h t. thread_of db h = Some t \<longrightarrow> t \<in> en_thread ` set (th_emails db))"

lemma legal_notes_append: "legal_notes objs (xs @ ys) = Option.bind (legal_notes objs xs) (\<lambda>o'. legal_notes o' ys)"
  by (induction xs arbitrary: objs) (auto split: Option.bind_split)

lemma legal_updates: "\<forall>x \<in> set xs. (t, x) \<in> objs \<Longrightarrow> legal_notes objs (map (\<lambda>x. (t, x, Updated)) xs) = Some objs"
  by (induction xs) (auto simp: insert_absorb)

lemma emails_of_set: "set (emails_of db t) = en_id ` {e \<in> set (th_emails db). en_thread e = t}"
  by (simp add: emails_of_def)

lemma thread_size_0: "thread_size db t = 0 \<longleftrightarrow> t \<notin> en_thread ` set (th_emails db)"
  by (auto simp: thread_size_def filter_empty_conv)

lemma merge_into_legal:
  assumes "merge_into u (db, ns) l = (db1, ns1)" "l \<noteq> u" "{u, l} \<subseteq> en_thread ` set (th_emails db)"
  shows "\<exists>new. ns1 = ns @ new \<and> legal_notes (objects db) new = Some (objects db1)"
    "en_thread ` set (th_emails db1) = en_thread ` set (th_emails db) - {l}"
proof -
  have db1: "th_emails db1 = map (\<lambda>e. e\<lparr>en_thread := (if en_thread e = l then u else en_thread e)\<rparr>) (th_emails db)"
    and ns1: "ns1 = ns @ map (\<lambda>e. (Email, e, Updated)) (emails_of db l) @ [(Thread, l, Destroyed)]"
    using assms(1) by (auto simp: merge_into_def Let_def)
  have "en_thread ` set (th_emails db1) = (\<lambda>t. if t = l then u else t) ` en_thread ` set (th_emails db)"
    by (simp add: db1 image_image del: if_image_distrib)
  then show t: "en_thread ` set (th_emails db1) = en_thread ` set (th_emails db) - {l}"
    using assms(2,3) by auto
  have e: "(\<lambda>e. (Email, en_id e)) ` set (th_emails db1) = (\<lambda>e. (Email, en_id e)) ` set (th_emails db)"
    by (simp add: db1 image_image)
  have th: "(\<lambda>e. (Thread, en_thread e)) ` E = Pair Thread ` en_thread ` E" for E by (simp add: image_image)
  have "objects db1 = objects db - {(Thread, l)}"
    unfolding objects_def th t e by auto
  moreover have "\<forall>x \<in> set (emails_of db l). (Email, x) \<in> objects db" by (auto simp: emails_of_set objects_def)
  moreover have "(Thread, l) \<in> objects db" using assms(3) by (auto simp: objects_def)
  ultimately show "\<exists>new. ns1 = ns @ new \<and> legal_notes (objects db) new = Some (objects db1)"
    by (auto simp: ns1 legal_notes_append legal_updates)
qed

lemma merge_fold_legal:
  assumes "u \<notin> set ls" "distinct ls" "insert u (set ls) \<subseteq> en_thread ` set (th_emails db)"
    "foldl (merge_into u) (db, ns) ls = (db', ns')"
  shows "\<exists>new. ns' = ns @ new \<and> legal_notes (objects db) new = Some (objects db') \<and> u \<in> en_thread ` set (th_emails db')"
  using assms
proof (induction ls arbitrary: db ns)
  case (Cons l ls)
  obtain db1 ns1 where m: "merge_into u (db, ns) l = (db1, ns1)" by fastforce
  have l: "l \<noteq> u" "{u, l} \<subseteq> en_thread ` set (th_emails db)" using Cons.prems by auto
  obtain new where new: "ns1 = ns @ new" "legal_notes (objects db) new = Some (objects db1)"
    using merge_into_legal(1) [OF m l] by blast
  have "insert u (set ls) \<subseteq> en_thread ` set (th_emails db1)"
    using merge_into_legal(2) [OF m l] Cons.prems by auto
  moreover have "u \<notin> set ls" "distinct ls" "foldl (merge_into u) (db1, ns1) ls = (db', ns')" using Cons.prems m by simp_all
  ultimately obtain new' where
    "ns' = ns1 @ new'" "legal_notes (objects db1) new' = Some (objects db')" "u \<in> en_thread ` set (th_emails db')"
    using Cons.IH by blast
  with new show ?case by (auto simp: legal_notes_append)
qed auto

lemma join_legal:
  assumes j: "join_threads hs fresh db = (t, db', ns)" and ok: "threads_ok db"
    and fresh: "fresh \<notin> en_thread ` set (th_emails db)"
  shows "legal_notes (objects db) ns = Some (insert (Thread, t) (objects db'))"
proof -
  define named where "named = sort_key (\<lambda>(n, t). (- int n, t)) (named_threads db [] hs)"
  note named = named_sorted [of db hs, folded named_def]
  have live: "joined db hs \<subseteq> en_thread ` set (th_emails db)" using ok by (auto simp: joined_def threads_ok_def)
  show ?thesis
  proof (cases named)
    case Nil
    have "t = fresh" "objects db' = objects db" "ns = [(Thread, fresh, Created)]"
      using j Nil by (auto simp: join_threads_def Let_def named_def [symmetric] objects_def)
    moreover have "(Thread, fresh) \<notin> objects db" using fresh by (auto simp: objects_def)
    ultimately show ?thesis by simp
  next
    case (Cons x xs)
    obtain n u where x: "x = (n, u)" by fastforce
    obtain dbm nsm where m: "foldl (merge_into u) (db, []) (map snd xs) = (dbm, nsm)" by fastforce
    have l: "u \<notin> set (map snd xs)" "distinct (map snd xs)" "insert u (set (map snd xs)) \<subseteq> en_thread ` set (th_emails db)"
      using named(1,2) live Cons x by auto
    have "n \<noteq> 0" using named(3) Cons x l(3) thread_size_0 [of db u] by auto
    with j m have r: "t = u" "objects db' = objects dbm" "ns = nsm @ [(Thread, u, Updated)]"
      by (auto simp: join_threads_def Let_def named_def [symmetric] Cons x objects_def simp del: set_map)
    obtain new where "nsm = [] @ new" "legal_notes (objects db) new = Some (objects dbm)" "u \<in> en_thread ` set (th_emails dbm)"
      using merge_fold_legal [OF l m] by blast
    then show ?thesis using r by (auto simp: legal_notes_append objects_def insert_absorb)
  qed
qed

text \<open>What a new email brings: ids nobody holds.\<close>

fun event_ok :: "mail_event \<Rightarrow> thread_tables \<Rightarrow> bool" where
  "event_ok (Arrive e hs fresh received) db \<longleftrightarrow>
     e \<notin> en_id ` set (th_emails db) \<and> fresh \<notin> en_thread ` set (th_emails db)"
| "event_ok (Depart e) db = True"

lemma join_ids: "join_threads hs fresh db = (t, db', ns) \<Longrightarrow> map en_id (th_emails db') = map en_id (th_emails db)"
  using join_threads_spec(3) by fastforce

lemma arrive_thread:
  assumes "join_threads hs fresh db = (t, db', ns)" "threads_ok db"
  shows "threads_ok (db'\<lparr>th_emails := th_emails db' @ [\<lparr>en_id = e, en_thread = t, en_received = r\<rparr>]\<rparr>) \<longleftrightarrow> e \<notin> en_id ` set (th_emails db)"
proof -
  note s = join_threads_spec [OF assms(1)]
  note ids = join_ids [OF assms(1)]
  then have ids': "en_id ` set (th_emails db') = en_id ` set (th_emails db)" by (metis set_map)
  have "u \<in> insert t (en_thread ` set (th_emails db'))" if h: "thread_of db' h = Some u" for h u
  proof (cases "h \<in> set hs")
    case False
    with h s(4) [of h] obtain v where v: "thread_of db h = Some v" "u = (if v \<in> joined db hs then t else v)" by auto
    then have "v \<in> en_thread ` set (th_emails db)" using assms(2) by (auto simp: threads_ok_def)
    then show ?thesis using v(2) by (auto simp: s(3) image_iff)
  qed (use h s(4) [of h] in simp)
  then show ?thesis using assms(2) s(5) ids' by (auto simp: threads_ok_def thread_of_def ids)
qed

lemma arrive_notes:
  assumes ok: "threads_ok db" and new: "e \<notin> en_id ` set (th_emails db)" "fresh \<notin> en_thread ` set (th_emails db)"
    and step: "arrive e hs fresh received db = (db', ns)"
  shows "threads_ok db' \<and> legal_notes (objects db) ns = Some (objects db')"
proof -
  obtain t dbj nsj where j: "join_threads hs fresh db = (t, dbj, nsj)" by (metis prod.collapse)
  have db': "db' = dbj\<lparr>th_emails := th_emails dbj @ [\<lparr>en_id = e, en_thread = t, en_received = received\<rparr>]\<rparr>"
    and ns: "ns = nsj @ [(Email, e, Created)]"
    using step by (auto simp: arrive_def j)
  have "en_id ` set (th_emails dbj) = en_id ` set (th_emails db)"
    using join_ids [OF j] by (metis set_map)
  then have "(Email, e) \<notin> insert (Thread, t) (objects dbj)" using new(1) by (auto simp: objects_def)
  moreover have "objects db' = insert (Email, e) (insert (Thread, t) (objects dbj))" by (auto simp: db' objects_def)
  ultimately show ?thesis
    using join_legal [OF j ok new(2)] arrive_thread [OF j ok] new(1) by (simp add: ns legal_notes_append db')
qed

lemma depart_notes:
  assumes ok: "threads_ok db" and step: "depart e db = (db', ns)"
  shows "threads_ok db' \<and> legal_notes (objects db) ns = Some (objects db')"
proof -
  show ?thesis
  proof (cases "List.find (\<lambda>r. en_id r = e) (th_emails db)")
    case None
    then show ?thesis using step ok by (simp add: depart_def)
  next
    case (Some r)
    let ?rest = "filter (\<lambda>r. en_id r \<noteq> e) (th_emails db)"
    have r: "r \<in> set (th_emails db)" "en_id r = e" using Some by (auto simp: find_Some_iff)
    have d: "distinct (map en_id (th_emails db))" using ok by (simp add: threads_ok_def)
    have only: "q = r" if "q \<in> set (th_emails db)" "en_id q = e" for q
      using d that r by (metis distinct_map inj_onD)
    have kept: "q \<in> insert r (set ?rest)" if "q \<in> set (th_emails db)" for q
      using only [OF that] that by (cases "en_id q = e") simp_all
    have sets: "set (th_emails db) = insert r (set ?rest)" "e \<notin> en_id ` set ?rest"
      by (intro equalityI subsetI) (use kept r in auto)
    define db1 where "db1 = db\<lparr>th_emails := ?rest\<rparr>"
    have objs: "objects db = insert (Email, e) (insert (Thread, en_thread r) (objects db1))" "(Email, e) \<notin> objects db1"
      using sets r(2) by (auto simp: objects_def db1_def)
    show ?thesis
    proof (cases "thread_size db1 (en_thread r) > 0")
      case True
      then have "db' = db1" "ns = [(Email, e, Destroyed), (Thread, en_thread r, Updated)]"
        using step Some by (auto simp: depart_def thread_left_def db1_def)
      moreover have live: "en_thread r \<in> en_thread ` set ?rest" using True thread_size_0 [of db1 "en_thread r"] by (simp add: db1_def)
      then have "en_thread ` set (th_emails db1) = en_thread ` set (th_emails db)" unfolding sets(1) by (auto simp: db1_def)
      then have "threads_ok db1" using ok d by (simp add: threads_ok_def db1_def thread_of_def distinct_map_filter)
      moreover have "(Thread, en_thread r) \<in> objects db1" using live by (auto simp: objects_def db1_def)
      ultimately show ?thesis using objs by (auto simp: insert_absorb insert_commute)
    next
      case False
      then have gone: "en_thread r \<notin> en_thread ` set ?rest" using thread_size_0 [of db1 "en_thread r"] by (simp add: db1_def)
      have db': "db' = db1\<lparr>th_hashes := filter (\<lambda>(h, u). u \<noteq> en_thread r) (th_hashes db)\<rparr>"
        and ns: "ns = [(Email, e, Destroyed), (Thread, en_thread r, Destroyed)]"
        using step Some False by (auto simp: depart_def thread_left_def db1_def)
      have bt: "bt_ok (th_hashes db')" using ok by (simp add: db' bt_ok_filter threads_ok_def)
      have "t \<in> en_thread ` set ?rest" if "thread_of db' h = Some t" for h t
      proof -
        have "(h, t) \<in> set (th_hashes db')" using that bt_entries [OF bt] by (simp add: thread_of_def)
        then have "(h, t) \<in> set (th_hashes db)" "t \<noteq> en_thread r" by (auto simp: db')
        then have "t \<in> en_thread ` set (th_emails db)" using ok bt_entries [of "th_hashes db"] by (auto simp: threads_ok_def thread_of_def)
        then have "t \<in> insert (en_thread r) (en_thread ` set ?rest)" unfolding sets(1) by (simp only: image_insert)
        then show ?thesis using \<open>t \<noteq> en_thread r\<close> by blast
      qed
      then have "threads_ok db'" using bt d by (simp add: threads_ok_def db' db1_def distinct_map_filter)
      moreover have "objects db' = objects db1" by (simp add: db' objects_def)
      moreover have "(Thread, en_thread r) \<notin> objects db1" using gone by (auto simp: objects_def db1_def)
      ultimately show ?thesis using objs by (auto simp: ns)
    qed
  qed
qed

text \<open>
  C31: The threads of an account stay sound, and the ledger is told exactly what changed. Whatever mail
  arrives or leaves, no two rows share an id and a hash only names a thread that holds an email; and
  the notes of the write are legal one after the other (an object is created while absent, updated
  or destroyed while present) and lead from the emails and threads before it to those after it.
\<close>

theorem thread_notes_tell_the_difference:
  assumes "threads_ok db" "event_ok ev db" "mail_step ev db = (db', ns)"
  shows "threads_ok db' \<and> legal_notes (objects db) ns = Some (objects db')"
proof (cases ev)
  case (Arrive e hs fresh received)
  show ?thesis by (rule arrive_notes [of db e fresh hs received]) (use assms Arrive in auto)
next
  case (Depart e)
  show ?thesis by (rule depart_notes [of db e]) (use assms Depart in auto)
qed

definition two_threads :: thread_tables where
  "two_threads =
     \<lparr>th_emails = [\<lparr>en_id = ''e1'', en_thread = ''t1'', en_received = 5\<rparr>, \<lparr>en_id = ''e2'', en_thread = ''t2'', en_received = 7\<rparr>,
                   \<lparr>en_id = ''e3'', en_thread = ''t2'', en_received = 3\<rparr>],
      th_hashes = bt_insert ''b'' ''t2'' (bt_insert ''a'' ''t1'' [])\<rparr>"

text \<open>A message that names both threads joins them into the larger one.\<close>

lemma thread_notes_tell_the_difference_witness:
  "\<exists>db' ns. mail_step (Arrive ''e4'' [''a'', ''b'', ''c''] ''t4'' 9) two_threads = (db', ns) \<and>
     ns = [(Email, ''e1'', Updated), (Thread, ''t1'', Destroyed), (Thread, ''t2'', Updated), (Email, ''e4'', Created)] \<and>
     threads_ok db' \<and> legal_notes (objects two_threads) ns = Some (objects db')"
proof -
  have ok: "threads_ok two_threads"
    by (simp add: threads_ok_def two_threads_def thread_of_def bt_ok_def)
  have new: "event_ok (Arrive ''e4'' [''a'', ''b'', ''c''] ''t4'' 9) two_threads" by (simp add: two_threads_def)
  obtain db' ns where s: "mail_step (Arrive ''e4'' [''a'', ''b'', ''c''] ''t4'' 9) two_threads = (db', ns)" by fastforce
  have "ns = [(Email, ''e1'', Updated), (Thread, ''t1'', Destroyed), (Thread, ''t2'', Updated), (Email, ''e4'', Created)]"
    using s by (simp add: two_threads_def arrive_def join_threads_def thread_of_def thread_size_def merge_into_def emails_of_def Let_def)
  with thread_notes_tell_the_difference [OF ok new s] s show ?thesis by blast
qed

subsection \<open>Threads are the connected messages\<close>

definition no_threads :: thread_tables where
  "no_threads = \<lparr>th_emails = [], th_hashes = []\<rparr>"

fun mail_run :: "mail_event list \<Rightarrow> thread_tables \<Rightarrow> thread_tables" where
  "mail_run [] db = db"
| "mail_run (ev # evs) db = mail_run evs (fst (mail_step ev db))"

fun run_ok :: "mail_event list \<Rightarrow> thread_tables \<Rightarrow> bool" where
  "run_ok [] db = True"
| "run_ok (ev # evs) db \<longleftrightarrow> event_ok ev db \<and> run_ok evs (fst (mail_step ev db))"

fun arrived :: "mail_event \<Rightarrow> (email_id \<times> msg_hash list) list" where
  "arrived (Arrive e hs fresh received) = [(e, hs)]"
| "arrived (Depart e) = []"

text \<open>Two messages that name one id, and everything such pairs link.\<close>

definition share_id :: "(email_id \<times> msg_hash list) list \<Rightarrow> (email_id \<times> email_id) set" where
  "share_id ms = {(a, b). \<exists>hs ks. (a, hs) \<in> set ms \<and> (b, ks) \<in> set ms \<and> set hs \<inter> set ks \<noteq> {}}"

definition linked :: "(email_id \<times> msg_hash list) list \<Rightarrow> email_id \<Rightarrow> email_id \<Rightarrow> bool" where
  "linked ms a b \<longleftrightarrow> (a, b) \<in> (share_id ms)\<^sup>*"

lemma linked_refl: "linked ms a a"
  by (simp add: linked_def)

lemma linked_sym: "linked ms a b \<Longrightarrow> linked ms b a"
proof -
  have "sym (share_id ms)" by (auto simp: share_id_def sym_def)
  then have "sym ((share_id ms)\<^sup>*)" by (rule sym_rtrancl)
  then show "linked ms a b \<Longrightarrow> linked ms b a" unfolding linked_def by (rule symD)
qed

lemma linked_trans: "linked ms a b \<Longrightarrow> linked ms b c \<Longrightarrow> linked ms a c"
  by (simp add: linked_def)

lemma linked_more: "linked ms a b \<Longrightarrow> linked (ms @ ns) a b"
  unfolding linked_def by (rule subsetD [OF rtrancl_mono]) (auto simp: share_id_def)

lemma linked_share: "(a, hs) \<in> set ms \<Longrightarrow> (b, ks) \<in> set ms \<Longrightarrow> h \<in> set hs \<Longrightarrow> h \<in> set ks \<Longrightarrow> linked ms a b"
  unfolding linked_def share_id_def by blast

definition threads_link :: "thread_tables \<Rightarrow> (email_id \<times> msg_hash list) list \<Rightarrow> bool" where
  "threads_link db ms \<longleftrightarrow>
     en_id ` set (th_emails db) = fst ` set ms \<and>
     (\<forall>r \<in> set (th_emails db). \<forall>hs h. (en_id r, hs) \<in> set ms \<longrightarrow> h \<in> set hs \<longrightarrow> thread_of db h = Some (en_thread r)) \<and>
     (\<forall>h t. thread_of db h = Some t \<longrightarrow> (\<exists>r \<in> set (th_emails db). \<exists>hs. en_thread r = t \<and> (en_id r, hs) \<in> set ms \<and> h \<in> set hs)) \<and>
     (\<forall>r \<in> set (th_emails db). \<forall>q \<in> set (th_emails db). en_thread r = en_thread q \<longrightarrow> linked ms (en_id r) (en_id q))"

lemma arrive_links:
  assumes ok: "threads_ok db" and inv: "threads_link db ms"
    and new: "e \<notin> en_id ` set (th_emails db)" "fresh \<notin> en_thread ` set (th_emails db)"
  shows "threads_link (fst (arrive e hs fresh received db)) (ms @ [(e, hs)])"
proof -
  obtain t db1 ns where j: "join_threads hs fresh db = (t, db1, ns)" by (metis prod.collapse)
  note s = join_threads_spec [OF j]
  let ?E = "\<lparr>en_id = e, en_thread = t, en_received = received\<rparr>" and ?ms = "ms @ [(e, hs)]"
  define db' where "db' = fst (arrive e hs fresh received db)"
  have rows: "set (th_emails db') = insert ?E ((\<lambda>r. if en_thread r \<in> joined db hs then r\<lparr>en_thread := t\<rparr> else r) ` set (th_emails db))"
    by (simp add: db'_def arrive_def j s(3))
  have hash: "thread_of db' h = (if h \<in> set hs then Some t else map_option (\<lambda>u. if u \<in> joined db hs then t else u) (thread_of db h))" for h
    using s(4) [of h] by (simp add: db'_def arrive_def j thread_of_def)
  have old: "\<exists>r \<in> set (th_emails db). en_id q = en_id r \<and> en_thread q = (if en_thread r \<in> joined db hs then t else en_thread r)"
    if "q \<in> set (th_emails db')" "q \<noteq> ?E" for q
    using that by (auto simp: rows split: if_splits)
  have moved: "\<exists>p \<in> set (th_emails db'). en_id p = en_id q \<and> en_thread p = (if en_thread q \<in> joined db hs then t else en_thread q)"
    if "q \<in> set (th_emails db)" for q
    unfolding rows by (rule bexI [of _ "if en_thread q \<in> joined db hs then q\<lparr>en_thread := t\<rparr> else q"]) (use that in auto)
  have "e \<notin> fst ` set ms" using inv new(1) unfolding threads_link_def by simp
  then have not_new: "(e, ks) \<notin> set ms" for ks by (metis fst_conv imageI)
  have t: "t \<in> joined db hs \<or> t \<notin> en_thread ` set (th_emails db)" using s(1,2) new(2) by auto
  have meets: "linked ?ms (en_id r) e" if held: "r \<in> set (th_emails db)" "en_thread r \<in> joined db hs" for r
  proof -
    obtain h where h: "h \<in> set hs" "thread_of db h = Some (en_thread r)" using held(2) by (auto simp: joined_def)
    then obtain q ks where q: "q \<in> set (th_emails db)" "en_thread q = en_thread r" "(en_id q, ks) \<in> set ms" "h \<in> set ks"
      using inv unfolding threads_link_def by metis
    have "linked ms (en_id r) (en_id q)" using inv q held(1) by (simp add: threads_link_def)
    moreover have "linked ?ms (en_id q) e" by (rule linked_share [of _ ks _ _ hs h]) (use q h in auto)
    ultimately show ?thesis using linked_more linked_trans by blast
  qed
  show ?thesis unfolding threads_link_def db'_def [symmetric]
  proof (intro conjI ballI allI impI)
    have ids: "en_id (if en_thread r \<in> joined db hs then r\<lparr>en_thread := t\<rparr> else r) = en_id r" for r by simp
    have "en_id ` set (th_emails db') = insert e (en_id ` set (th_emails db))"
      unfolding rows image_insert image_image ids by simp
    then show "en_id ` set (th_emails db') = fst ` set ?ms"
      using inv unfolding threads_link_def by simp
  next
    fix r ks h assume r: "r \<in> set (th_emails db')" "(en_id r, ks) \<in> set ?ms" "h \<in> set ks"
    show "thread_of db' h = Some (en_thread r)"
    proof (cases "r = ?E")
      case True
      then show ?thesis using r not_new by (simp add: hash)
    next
      case False
      from old [OF r(1) this] obtain q where q: "q \<in> set (th_emails db)" "en_id r = en_id q"
        "en_thread r = (if en_thread q \<in> joined db hs then t else en_thread q)" by blast
      have "(en_id q, ks) \<in> set ms" using r(2) q new(1) by auto
      then have h: "thread_of db h = Some (en_thread q)" using inv q(1) r(3) by (auto simp: threads_link_def)
      then have "h \<in> set hs \<Longrightarrow> en_thread q \<in> joined db hs" by (auto simp: joined_def)
      then show ?thesis using h q(3) by (simp add: hash)
    qed
  next
    fix h u assume u: "thread_of db' h = Some u"
    show "\<exists>r \<in> set (th_emails db'). \<exists>ks. en_thread r = u \<and> (en_id r, ks) \<in> set ?ms \<and> h \<in> set ks"
    proof (cases "h \<in> set hs")
      case True
      then show ?thesis using u by (auto simp: hash rows)
    next
      case False
      then obtain v where v: "thread_of db h = Some v" "u = (if v \<in> joined db hs then t else v)" using u by (auto simp: hash)
      then obtain r ks where "r \<in> set (th_emails db)" "en_thread r = v" "(en_id r, ks) \<in> set ms" "h \<in> set ks"
        using inv unfolding threads_link_def by metis
      then obtain p where "p \<in> set (th_emails db')" "en_id p = en_id r" "en_thread p = u"
        using moved v(2) by metis
      moreover from this have "(en_id p, ks) \<in> set ?ms" using \<open>(en_id r, ks) \<in> set ms\<close> by simp
      ultimately show ?thesis using \<open>h \<in> set ks\<close> by blast
    qed
  next
    fix r q assume r: "r \<in> set (th_emails db')" and q: "q \<in> set (th_emails db')" and same: "en_thread r = en_thread q"
    have home: "linked ?ms (en_id p) e" if p: "p \<in> set (th_emails db')" "en_thread p = t" for p
    proof (cases "p = ?E")
      case False
      from old [OF p(1) this] obtain o' where o: "o' \<in> set (th_emails db)" "en_id p = en_id o'"
        "en_thread p = (if en_thread o' \<in> joined db hs then t else en_thread o')" by blast
      then have "en_thread o' \<in> joined db hs" using p(2) t by (auto split: if_splits)
      then show ?thesis using meets o by simp
    qed (simp add: linked_refl)
    show "linked ?ms (en_id r) (en_id q)"
    proof (cases "en_thread r = t")
      case True
      then have "linked ?ms (en_id r) e" "linked ?ms (en_id q) e" using home r q same by simp_all
      from linked_trans [OF this(1) linked_sym [OF this(2)]] show ?thesis .
    next
      case False
      then have "r \<noteq> ?E" "q \<noteq> ?E" using same by auto
      have stays: "\<exists>p' \<in> set (th_emails db). en_id p = en_id p' \<and> en_thread p = en_thread p'"
        if "p \<in> set (th_emails db')" "p \<noteq> ?E" "en_thread p \<noteq> t" for p
        using old [OF that(1,2)] that(3) by (auto split: if_splits)
      obtain r' where r': "r' \<in> set (th_emails db)" "en_id r = en_id r'" "en_thread r = en_thread r'"
        using stays [OF r] \<open>r \<noteq> ?E\<close> False by blast
      obtain q' where q': "q' \<in> set (th_emails db)" "en_id q = en_id q'" "en_thread q = en_thread q'"
        using stays [OF q] \<open>q \<noteq> ?E\<close> False same by auto
      then have "linked ms (en_id r') (en_id q')" using r' inv same unfolding threads_link_def by metis
      then show ?thesis using linked_more r' q' by simp
    qed
  qed
qed

lemma run_links:
  assumes "threads_ok db" "threads_link db ms" "run_ok evs db" "\<forall>ev \<in> set evs. \<nexists>e. ev = Depart e"
  shows "threads_ok (mail_run evs db) \<and> threads_link (mail_run evs db) (ms @ concat (map arrived evs))"
  using assms
proof (induction evs arbitrary: db ms)
  case (Cons ev evs)
  then obtain e hs fresh received where ev: "ev = Arrive e hs fresh received" by (cases ev) auto
  obtain db' ns where a: "arrive e hs fresh received db = (db', ns)" by fastforce
  have new: "e \<notin> en_id ` set (th_emails db)" "fresh \<notin> en_thread ` set (th_emails db)" using Cons.prems(3) by (auto simp: ev)
  have "threads_ok db'" "threads_link db' (ms @ [(e, hs)])"
    using arrive_notes [OF Cons.prems(1) new a] arrive_links [OF Cons.prems(1,2) new, of hs received] a by auto
  from Cons.IH [OF this] Cons.prems(3,4) show ?case by (simp add: ev a)
qed simp

text \<open>
  C6: A thread is exactly a set of connected messages. After any mail has arrived in any order, two
  emails are in one thread if and only if a chain of messages leads from one to the other in which
  each names an id the next names too: the union-find of the tables is the REFERENCES grouping of
  RFC 5256 over the ids the headers name.
\<close>

theorem threads_are_connected_messages:
  assumes "run_ok evs no_threads" "\<forall>ev \<in> set evs. \<nexists>e. ev = Depart e"
    and "r \<in> set (th_emails (mail_run evs no_threads))" "q \<in> set (th_emails (mail_run evs no_threads))"
  shows "en_thread r = en_thread q \<longleftrightarrow> linked (concat (map arrived evs)) (en_id r) (en_id q)"
proof -
  let ?db = "mail_run evs no_threads" and ?ms = "concat (map arrived evs)"
  have inv: "threads_ok ?db" "threads_link ?db ?ms"
    using run_links [of no_threads "[]" evs] assms(1,2)
    by (auto simp: threads_ok_def threads_link_def no_threads_def thread_of_def)
  have only: "p = p'" if "p \<in> set (th_emails ?db)" "p' \<in> set (th_emails ?db)" "en_id p = en_id p'" for p p'
    using inv(1) that unfolding threads_ok_def by (metis distinct_map inj_onD)
  have "\<exists>p \<in> set (th_emails ?db). en_id p = b \<and> en_thread p = en_thread r" if "(en_id r, b) \<in> (share_id ?ms)\<^sup>*" for b
    using that
  proof (induction rule: rtrancl_induct)
    case base
    then show ?case using assms(3) by blast
  next
    case (step b c)
    then obtain p hs ks h where p: "p \<in> set (th_emails ?db)" "en_id p = b" "en_thread p = en_thread r"
      and m: "(b, hs) \<in> set ?ms" "(c, ks) \<in> set ?ms" "h \<in> set hs" "h \<in> set ks"
      unfolding share_id_def by blast
    have "en_id ` set (th_emails ?db) = fst ` set ?ms" using inv(2) unfolding threads_link_def by blast
    then have "c \<in> en_id ` set (th_emails ?db)" using m(2) by (metis fst_conv imageI)
    then obtain p' where p': "p' \<in> set (th_emails ?db)" "en_id p' = c" by blast
    have "thread_of ?db h = Some (en_thread p)" "thread_of ?db h = Some (en_thread p')"
      using inv(2) p p' m unfolding threads_link_def by blast+
    then show ?case using p p' by auto
  qed
  then have "linked ?ms (en_id r) (en_id q) \<Longrightarrow> en_thread r = en_thread q"
    using only [OF _ assms(4)] unfolding linked_def by metis
  moreover have "en_thread r = en_thread q \<Longrightarrow> linked ?ms (en_id r) (en_id q)"
    using inv(2) assms(3,4) unfolding threads_link_def by blast
  ultimately show ?thesis by blast
qed

definition three_mails :: "mail_event list" where
  "three_mails = [Arrive ''e1'' [''a''] ''t1'' 1, Arrive ''e2'' [''b''] ''t2'' 2, Arrive ''e3'' [''b'', ''a''] ''t3'' 3]"

lemma threads_are_connected_messages_witness:
  "\<exists>r q. r \<in> set (th_emails (mail_run three_mails no_threads)) \<and> q \<in> set (th_emails (mail_run three_mails no_threads)) \<and>
     en_id r = ''e1'' \<and> en_id q = ''e2'' \<and> linked (concat (map arrived three_mails)) ''e1'' ''e2''"
proof -
  have run: "th_emails (mail_run three_mails no_threads) =
      [\<lparr>en_id = ''e1'', en_thread = ''t1'', en_received = 1\<rparr>, \<lparr>en_id = ''e2'', en_thread = ''t1'', en_received = 2\<rparr>,
       \<lparr>en_id = ''e3'', en_thread = ''t1'', en_received = 3\<rparr>]" and ok: "run_ok three_mails no_threads"
    by (simp_all add: three_mails_def no_threads_def arrive_def join_threads_def thread_of_def thread_size_def
        merge_into_def emails_of_def Let_def)
  have only: "\<forall>ev \<in> set three_mails. \<nexists>e. ev = Depart e" by (simp add: three_mails_def)
  let ?r = "\<lparr>en_id = ''e1'', en_thread = ''t1'', en_received = 1\<rparr>" and ?q = "\<lparr>en_id = ''e2'', en_thread = ''t1'', en_received = 2\<rparr>"
  have held: "?r \<in> set (th_emails (mail_run three_mails no_threads))" "?q \<in> set (th_emails (mail_run three_mails no_threads))"
    by (simp_all add: run)
  from threads_are_connected_messages [OF ok only this] have "linked (concat (map arrived three_mails)) (en_id ?r) (en_id ?q)" by simp
  then show ?thesis using held by (intro exI [of _ ?r] exI [of _ ?q]) simp
qed

end
