(* ===== verification/Mailbox_Name.thy ===== *)
theory Mailbox_Name
  imports Wire_Commands Modified_Utf7
begin

text \<open>
  The name of a mailbox on its way to the server: UTF-8 as the standard library reads and writes
  it, the name a user typed (\<open>MailboxName::new\<close> of \<open>session/mailbox.rs\<close>), the folder commands it
  goes out in, Gmail's limits (\<open>runtime/folders/gmail.rs\<close>) and the split of a listed name
  (\<open>mailboxes/mapping.rs\<close>). Unicode normalisation, the full case mapping, the character classes of
  the Unicode tables and the base64 engine are crates or tables that are not under \<open>src/\<close>: the
  record \<open>text_lib\<close> carries them.
\<close>

record text_lib =
  lib_nfc :: "string \<Rightarrow> string"
  lib_nfkc :: "string \<Rightarrow> string"
  lib_lowercase :: "string \<Rightarrow> string"
  lib_alphanumeric :: "uchar \<Rightarrow> bool"
  lib_enc :: "nat list \<Rightarrow> utext"
  lib_dec :: "utext \<Rightarrow> nat list option"

subsection \<open>UTF-8\<close>

definition utf8_char :: "uchar \<Rightarrow> string" where
  "utf8_char c =
     (if c < 0x80 then [char_of c]
      else if c < 0x800 then [char_of (0xC0 + c div 64), char_of (0x80 + c mod 64)]
      else if c < 0x10000 then
        [char_of (0xE0 + c div 4096), char_of (0x80 + c div 64 mod 64), char_of (0x80 + c mod 64)]
      else [char_of (0xF0 + c div 262144), char_of (0x80 + c div 4096 mod 64),
            char_of (0x80 + c div 64 mod 64), char_of (0x80 + c mod 64)])"

definition utf8 :: "utext \<Rightarrow> string" where
  "utf8 cs = concat (map utf8_char cs)"

definition utf8_follow :: "byte \<Rightarrow> nat" where
  "utf8_follow a = (if code a < 0xC0 then 0 else if code a < 0xE0 then 1 else if code a < 0xF0 then 2 else 3)"

definition utf8_lead :: "byte \<Rightarrow> nat" where
  "utf8_lead a = (if code a < 0xC0 then code a else if code a < 0xE0 then code a - 0xC0
     else if code a < 0xF0 then code a - 0xE0 else code a - 0xF0)"

text \<open>\<open>str::chars\<close>.\<close>

fun utf8_chars :: "string \<Rightarrow> utext" where
  "utf8_chars [] = []"
| "utf8_chars (a # s) =
     foldl (\<lambda>v b. v * 64 + (code b - 0x80)) (utf8_lead a) (take (utf8_follow a) s) #
     utf8_chars (drop (utf8_follow a) s)"

lemma code_of_nat: "n < 256 \<Longrightarrow> code (char_of n) = n"
  by simp

lemma sextet_digits:
  fixes c :: nat
  shows "(c div 4096 * 64 + c div 64 mod 64) * 64 + c mod 64 = c"
    and "((c div 262144 * 64 + c div 4096 mod 64) * 64 + c div 64 mod 64) * 64 + c mod 64 = c"
proof -
  have d: "c div 4096 = c div 64 div 64" "c div 262144 = c div 64 div 64 div 64"
    using div_mult2_eq [of c 64 64] div_mult2_eq [of "c div 64" 64 64] div_mult2_eq [of c 64 4096] by simp_all
  show "(c div 4096 * 64 + c div 64 mod 64) * 64 + c mod 64 = c"
    "((c div 262144 * 64 + c div 4096 mod 64) * 64 + c div 64 mod 64) * 64 + c mod 64 = c"
    unfolding d div_mult_mod_eq by (rule refl)+
qed

lemma utf8_chars_step: "c < 0x110000 \<Longrightarrow> utf8_chars (utf8_char c @ s) = c # utf8_chars s"
proof -
  assume c: "c < 0x110000"
  consider "c < 0x80" | "0x80 \<le> c" "c < 0x800" | "0x800 \<le> c" "c < 0x10000" | "0x10000 \<le> c" by linarith
  then show ?thesis
  proof cases
    case 1
    then show ?thesis by (simp add: utf8_char_def utf8_follow_def utf8_lead_def)
  next
    case 2
    then have "c div 64 < 32" by simp
    with 2 show ?thesis by (simp add: utf8_char_def utf8_follow_def utf8_lead_def)
  next
    case 3
    then have "c div 4096 < 16" by simp
    then show ?thesis using 3 sextet_digits(1) [of c] by (simp add: utf8_char_def utf8_follow_def utf8_lead_def)
  next
    case 4
    then have "c div 262144 < 5" using c by simp
    then show ?thesis using 4 sextet_digits(2) [of c] by (simp add: utf8_char_def utf8_follow_def utf8_lead_def)
  qed
qed

lemma utf8_chars_utf8: "\<forall>c \<in> set cs. c < 0x110000 \<Longrightarrow> utf8_chars (utf8 cs) = cs"
  by (induction cs) (auto simp: utf8_def utf8_chars_step)

lemma utf8_ascii: "\<forall>c \<in> set cs. c < 0x80 \<Longrightarrow> utf8 cs = map char_of cs"
  by (induction cs) (auto simp: utf8_def utf8_char_def)

lemma utf8_uascii: "\<forall>c \<in> set s. code c < 0x80 \<Longrightarrow> utf8 (uascii s) = s"
  by (subst utf8_ascii) (auto simp: uascii_def map_idI)

subsection \<open>Character classes of the standard library\<close>

definition is_whitespace :: "uchar \<Rightarrow> bool" where
  "is_whitespace c \<longleftrightarrow> (9 \<le> c \<and> c \<le> 13) \<or> c = 32 \<or> c = 0x85 \<or> c = 0xA0 \<or> c = 0x1680 \<or>
     (0x2000 \<le> c \<and> c \<le> 0x200A) \<or> c = 0x2028 \<or> c = 0x2029 \<or> c = 0x202F \<or> c = 0x205F \<or> c = 0x3000"

definition is_control :: "uchar \<Rightarrow> bool" where
  "is_control c \<longleftrightarrow> c < 32 \<or> (127 \<le> c \<and> c < 160)"

subsection \<open>The name a user typed\<close>

definition MAX_MAILBOX_NAME_BYTES :: nat where "MAX_MAILBOX_NAME_BYTES = 255"

datatype name_error = NEmpty | NTooLong | NControl | NDelimiter | NEdgeSpace | NFlat

record place =
  pl_parent :: "string option"
  pl_delimiter :: "char option"

record new_name =
  nn_leaf :: string
  nn_wire :: string

text \<open>\<open>utf7::encode\<close> answers a text of its own; on the wire it is its bytes.\<close>

definition utf7_wire :: "text_lib \<Rightarrow> string \<Rightarrow> string" where
  "utf7_wire lib s = utf8 (encode (lib_enc lib) (utf8_chars s))"

definition utf7_read :: "text_lib \<Rightarrow> string \<Rightarrow> string" where
  "utf7_read lib w = utf8 (decode (lib_dec lib) (utf8_chars w))"

definition name_new :: "text_lib \<Rightarrow> string \<Rightarrow> place \<Rightarrow> name_error + new_name" where
  "name_new lib typed place =
     (let leaf = lib_nfc lib typed; cs = utf8_chars leaf; encoded = utf7_wire lib leaf in
      if leaf = [] then Inl NEmpty
      else if length leaf > MAX_MAILBOX_NAME_BYTES then Inl NTooLong
      else if list_ex is_control cs then Inl NControl
      else if (case pl_delimiter place of None \<Rightarrow> False | Some found \<Rightarrow> found \<in> set encoded) then Inl NDelimiter
      else if is_whitespace (hd cs) \<or> is_whitespace (last cs) then Inl NEdgeSpace
      else
        and_then (case (pl_parent place, pl_delimiter place) of
            (None, _) \<Rightarrow> Inr encoded
          | (Some parent, Some delimiter) \<Rightarrow> Inr (parent @ [delimiter] @ encoded)
          | (Some _, None) \<Rightarrow> Inl NFlat)
        (\<lambda>wire. if length wire > MAX_WIRE_NAME_BYTES then Inl NTooLong else Inr \<lparr>nn_leaf = leaf, nn_wire = wire\<rparr>))"

definition create_command :: "new_name \<Rightarrow> session_error + string" where
  "create_command n = and_then (quoted (nn_wire n)) (\<lambda>q. fitting (''CREATE '' @ q))"

definition rename_command :: "string \<Rightarrow> new_name \<Rightarrow> session_error + string" where
  "rename_command old n =
     and_then (quoted old) (\<lambda>q. and_then (quoted (nn_wire n)) (\<lambda>r. fitting (''RENAME '' @ q @ '' '' @ r)))"

definition named_command :: "string \<Rightarrow> string \<Rightarrow> session_error + string" where
  "named_command verb mailbox = and_then (quoted mailbox) (\<lambda>q. fitting (verb @ '' '' @ q))"

subsection \<open>Gmail's limits\<close>

definition MAX_PATH_UNITS :: nat where "MAX_PATH_UNITS = 225"
definition MAX_PATH_BYTES :: nat where "MAX_PATH_BYTES = 255"

definition crowded :: "string \<Rightarrow> bool" where
  "crowded s = (let spaces = map is_whitespace (utf8_chars s) in list_ex (\<lambda>(a, b). a \<and> b) (zip spaces (drop 1 spaces)))"

definition past_limit :: "text_lib \<Rightarrow> string \<Rightarrow> bool" where
  "past_limit lib wire =
     (let path = utf7_read lib wire
      in length path > MAX_PATH_BYTES \<or> length (concat (map encode_utf16 (utf8_chars path))) > MAX_PATH_UNITS)"

definition beside :: "text_lib \<Rightarrow> string \<Rightarrow> string" where
  "beside lib s =
     lib_lowercase lib (utf8 (map (\<lambda>found. if lib_alphanumeric lib found then found else 32) (utf8_chars (lib_nfkc lib s))))"

subsection \<open>A listed name\<close>

text \<open>\<open>rsplit_once\<close>: what stands before and after the last separator.\<close>

definition rsplit_once :: "'a \<Rightarrow> 'a list \<Rightarrow> ('a list \<times> 'a list) option" where
  "rsplit_once d s =
     map_option (\<lambda>i. (take (length s - Suc i) s, drop (length s - i) s)) (find_index (\<lambda>c. c = d) (rev s))"

definition split_name :: "string \<Rightarrow> char option \<Rightarrow> string option \<times> string" where
  "split_name w delimiter =
     (case Option.bind delimiter (\<lambda>d. rsplit_once d w) of
        Some (parent, leaf) \<Rightarrow> if parent \<noteq> [] \<and> leaf \<noteq> [] then (Some parent, leaf) else (None, w)
      | None \<Rightarrow> (None, w))"

subsection \<open>What the bridge writes it reads back\<close>

lemma rsplit_once_last: "d \<notin> set e \<Longrightarrow> rsplit_once d (p @ d # e) = Some (p, e)"
proof -
  assume "d \<notin> set e"
  then have "find_index (\<lambda>c. c = d) (rev e @ d # rev p) = Some (length (rev e))"
    by (intro find_index_append) auto
  then show ?thesis by (simp add: rsplit_once_def)
qed

lemma rsplit_once_none: "d \<notin> set s \<Longrightarrow> rsplit_once d s = None"
  by (auto simp: rsplit_once_def find_index_None)

lemma rsplit_once_Some: "rsplit_once d s = Some (p, e) \<Longrightarrow> s = p @ d # e \<and> d \<notin> set e"
proof -
  assume r: "rsplit_once d s = Some (p, e)"
  then have "d \<in> set s" using rsplit_once_none by fastforce
  then obtain p' e' where s: "s = p' @ d # e'" "d \<notin> set e'" by (meson split_list_last)
  with r show ?thesis by (simp add: rsplit_once_last)
qed

lemma utf7_wire_read:
  assumes "base64_engine (lib_enc lib) (lib_dec lib)" "\<forall>c \<in> set cs. is_scalar c"
  shows "utf7_read lib (utf7_wire lib (utf8 cs)) = utf8 cs"
    and "\<forall>b \<in> set (utf7_wire lib (utf8 cs)). 32 \<le> code b \<and> code b \<le> 126"
proof -
  have small: "\<forall>c \<in> set cs. c < 0x110000" using assms(2) by (auto simp: is_scalar_def)
  have same: "decode (lib_dec lib) (encode (lib_enc lib) cs) = cs"
    and printable: "\<forall>c \<in> set (encode (lib_enc lib) cs). 32 \<le> c \<and> c \<le> 126"
    using base64_engine.name_round_trip [OF assms] base64_engine.wire_printable [OF assms(1)] by (simp_all add: encode_def)
  have "\<forall>c \<in> set (encode (lib_enc lib) cs). c < 0x80" using printable by force
  moreover from this have "\<forall>c \<in> set (encode (lib_enc lib) cs). c < 0x110000" by force
  ultimately have w: "utf8 (encode (lib_enc lib) cs) = map char_of (encode (lib_enc lib) cs)"
    "utf8_chars (utf8 (encode (lib_enc lib) cs)) = encode (lib_enc lib) cs"
    using utf8_ascii utf8_chars_utf8 by blast+
  show "utf7_read lib (utf7_wire lib (utf8 cs)) = utf8 cs"
    using w(2) same by (simp add: utf7_read_def utf7_wire_def utf8_chars_utf8 [OF small])
  show "\<forall>b \<in> set (utf7_wire lib (utf8 cs)). 32 \<le> code b \<and> code b \<le> 126"
    using printable by (auto simp: utf7_wire_def utf8_chars_utf8 [OF small] w(1))
qed

lemma name_new_Inr:
  assumes "name_new lib typed place = Inr n"
  shows "nn_leaf n = lib_nfc lib typed" "nn_leaf n \<noteq> []" "length (nn_leaf n) \<le> MAX_MAILBOX_NAME_BYTES"
    "length (nn_wire n) \<le> MAX_WIRE_NAME_BYTES"
    "\<And>d. pl_delimiter place = Some d \<Longrightarrow> d \<notin> set (utf7_wire lib (nn_leaf n))"
    "nn_wire n = (case pl_parent place of None \<Rightarrow> [] | Some p \<Rightarrow> p @ [the (pl_delimiter place)]) @ utf7_wire lib (nn_leaf n)"
    "pl_parent place \<noteq> None \<Longrightarrow> pl_delimiter place \<noteq> None"
    "list_all (\<lambda>c. \<not> is_control c) (utf8_chars (nn_leaf n))"
  using assms
  by (auto simp: name_new_def Let_def and_then_Inr_eq not_le list_ex_iff list_all_iff split: if_splits option.splits)

text \<open>
  C25: A name the user typed is read back as it was typed. When \<open>MailboxName::new\<close> takes a name at a
  place, the next listing splits its wire form at the delimiter into exactly the parent it went
  under and a leaf that decodes to the typed name in NFC: nothing in the name can move it to
  another level. It is neither empty nor longer than the session object promises, holds no control
  character and stays within what a command line carries.
\<close>

theorem typed_name_is_read_back:
  assumes "base64_engine (lib_enc lib) (lib_dec lib)"
    and "lib_nfc lib typed = utf8 cs" "\<forall>c \<in> set cs. is_scalar c"
    and "name_new lib typed place = Inr n" "pl_parent place \<noteq> Some []"
  shows "nn_leaf n = lib_nfc lib typed \<and>
     map_prod id (utf7_read lib) (split_name (nn_wire n) (pl_delimiter place)) = (pl_parent place, nn_leaf n) \<and>
     nn_leaf n \<noteq> [] \<and> length (nn_leaf n) \<le> MAX_MAILBOX_NAME_BYTES \<and> list_all (\<lambda>c. \<not> is_control c) cs \<and>
     length (nn_wire n) \<le> MAX_WIRE_NAME_BYTES \<and>
     (\<forall>p. pl_parent place = Some p \<longrightarrow> nn_wire n = p @ the (pl_delimiter place) # utf7_wire lib (nn_leaf n))"
proof -
  note n = name_new_Inr [OF assms(4)]
  let ?e = "utf7_wire lib (nn_leaf n)"
  have leaf: "nn_leaf n = utf8 cs" using n(1) assms(2) by simp
  have small: "\<forall>c \<in> set cs. c < 0x110000" using assms(3) by (auto simp: is_scalar_def)
  have read: "utf7_read lib ?e = nn_leaf n" using utf7_wire_read(1) [OF assms(1,3)] leaf by simp
  have e: "?e \<noteq> []"
  proof
    assume "?e = []"
    then have "nn_leaf n = utf7_read lib []" using read by simp
    moreover have "decode (lib_dec lib) [] = []" by (simp add: decode_def decode_loop_plain)
    ultimately show False using n(2) by (simp add: utf7_read_def utf8_def)
  qed
  have "split_name (nn_wire n) (pl_delimiter place) = (pl_parent place, ?e)"
  proof (cases "pl_parent place")
    case None
    then have w: "nn_wire n = ?e" using n(6) by simp
    show ?thesis
    proof (cases "pl_delimiter place")
      case (Some d)
      then have "rsplit_once d ?e = None" by (rule rsplit_once_none [OF n(5)])
      then show ?thesis using Some None w by (simp add: split_name_def)
    qed (simp add: split_name_def None w)
  next
    case (Some p)
    then obtain d where d: "pl_delimiter place = Some d" using n(7) by auto
    then have "rsplit_once d (p @ d # ?e) = Some (p, ?e)" by (rule rsplit_once_last [OF n(5)])
    moreover have "p \<noteq> []" using Some assms(5) by auto
    ultimately show ?thesis using n(6) Some d e by (simp add: split_name_def)
  qed
  moreover have "list_all (\<lambda>c. \<not> is_control c) cs" using n(8) by (simp add: leaf utf8_chars_utf8 [OF small])
  ultimately show ?thesis using n read by auto
qed

text \<open>A name in printable ASCII without the shift character is its own wire form.\<close>

definition plain_text :: "string \<Rightarrow> bool" where
  "plain_text s \<longleftrightarrow> list_all (\<lambda>c. 32 \<le> code c \<and> code c \<le> 126 \<and> c \<noteq> CHR ''&'') s"

lemma plain_chars: "plain_text s \<Longrightarrow> utf8_chars s = map code s"
  by (induction s) (auto simp: plain_text_def utf8_follow_def utf8_lead_def)

lemma plain_encode: "\<forall>c \<in> set cs. is_direct c \<Longrightarrow> encode_loop enc out [] cs = out @ cs"
  by (induction cs arbitrary: out) (auto simp: flush_def)

lemma code_shift: "code x = SHIFT \<longleftrightarrow> x = CHR ''&''"
  using code_eq_iff [of x "CHR ''&''"] by (simp add: SHIFT_def)

lemma code_space: "code x = 32 \<longleftrightarrow> x = CHR '' ''"
  using code_eq_iff [of x "CHR '' ''"] by simp

lemma plain_wire: "plain_text s \<Longrightarrow> utf7_wire lib s = s"
proof -
  assume p: "plain_text s"
  have "\<forall>c \<in> set (map code s). is_direct c"
  proof
    fix c assume "c \<in> set (map code s)"
    then obtain x where x: "c = code x" "x \<in> set s" by auto
    with p have "32 \<le> code x" "code x \<le> 126" "x \<noteq> CHR ''&''" by (simp_all add: plain_text_def list_all_iff)
    then show "is_direct c" using code_shift [of x] by (simp add: is_direct_def x(1))
  qed
  then have "encode (lib_enc lib) (utf8_chars s) = map code s" by (simp add: encode_def plain_encode plain_chars [OF p])
  moreover have "utf8 (map code s) = s"
  proof -
    have "\<forall>c \<in> set (map code s). c < 0x80"
    proof
      fix c assume "c \<in> set (map code s)"
      then obtain x where "c = code x" "x \<in> set s" by auto
      with p have "code x \<le> 126" by (simp add: plain_text_def list_all_iff)
      then show "c < 0x80" using \<open>c = code x\<close> by simp
    qed
    then show ?thesis by (simp add: utf8_ascii o_def)
  qed
  ultimately show ?thesis by (simp add: utf7_wire_def)
qed

lemma plain_name:
  assumes "plain_text s" "s \<noteq> []" "length s \<le> 255" "hd s \<noteq> CHR '' ''" "last s \<noteq> CHR '' ''" "lib_nfc lib s = s"
  shows "name_new lib s \<lparr>pl_parent = None, pl_delimiter = None\<rparr> = Inr \<lparr>nn_leaf = s, nn_wire = s\<rparr>"
proof -
  have c: "utf8_chars s = map code s" by (rule plain_chars [OF assms(1)])
  have "\<forall>x \<in> set s. \<not> is_control (code x) \<and> (is_whitespace (code x) \<longrightarrow> x = CHR '' '')"
    using assms(1) by (fastforce simp: plain_text_def list_all_iff is_control_def is_whitespace_def code_space)
  then have "\<not> is_whitespace (code (hd s))" "\<not> is_whitespace (code (last s))" "\<forall>x \<in> set s. \<not> is_control (code x)"
    using assms(2,4,5) hd_in_set last_in_set by metis+
  then show ?thesis
    using assms c by (simp add: name_new_def Let_def plain_wire list_ex_iff MAX_MAILBOX_NAME_BYTES_def MAX_WIRE_NAME_BYTES_def hd_map last_map)
qed

definition rfc_lib :: text_lib where
  "rfc_lib = \<lparr>lib_nfc = id, lib_nfkc = id, lib_lowercase = to_ascii_lowercase,
     lib_alphanumeric = (\<lambda>c. 48 \<le> c \<and> c \<le> 57 \<or> 65 \<le> c \<and> c \<le> 90 \<or> 97 \<le> c \<and> c \<le> 122),
     lib_enc = b64_encode, lib_dec = b64_decode\<rparr>"

lemma typed_name_is_read_back_witness:
  "\<exists>n. name_new rfc_lib (utf8 [65, 38, 0x65E5]) \<lparr>pl_parent = Some ''Work'', pl_delimiter = Some (CHR ''.'')\<rparr> = Inr n \<and>
     nn_wire n = ''Work.A&-&ZeU-'' \<and>
     map_prod id (utf7_read rfc_lib) (split_name (nn_wire n) (Some (CHR ''.''))) = (Some ''Work'', utf8 [65, 38, 0x65E5])"
proof -
  let ?place = "\<lparr>pl_parent = Some ''Work'', pl_delimiter = Some (CHR ''.'')\<rparr>"
  let ?n = "\<lparr>nn_leaf = utf8 [65, 38, 0x65E5], nn_wire = ''Work.A&-&ZeU-''\<rparr>"
  have engine: "base64_engine (lib_enc rfc_lib) (lib_dec rfc_lib)"
    by (simp add: rfc_lib_def rfc4648.base64_engine_axioms)
  have chars: "utf8_chars (utf8 [65, 38, 0x65E5]) = [65, 38, 0x65E5]" by (rule utf8_chars_utf8) simp
  have wire: "utf7_wire rfc_lib (utf8 [65, 38, 0x65E5]) = ''A&-&ZeU-''"
  proof -
    have "encode b64_encode [65, 38, 0x65E5] = uascii ''A&-&ZeU-''"
      by (simp add: encode_def flush_def is_direct_def SHIFT_def UNSHIFT_def encode_utf16_def to_be_bytes_def
          b64_encode_def MODIFIED_ALPHABET_def uascii_def)
    moreover have "utf8 (uascii ''A&-&ZeU-'') = ''A&-&ZeU-''" by (rule utf8_uascii) simp
    ultimately show ?thesis by (simp add: utf7_wire_def chars rfc_lib_def)
  qed
  have "utf8 [65, 38, 0x65E5] \<noteq> []" "length (utf8 [65, 38, 0x65E5]) \<le> 255" by (simp_all add: utf8_def utf8_char_def)
  then have new: "name_new rfc_lib (utf8 [65, 38, 0x65E5]) ?place = Inr ?n"
    by (simp add: name_new_def Let_def rfc_lib_def [THEN arg_cong [of _ _ lib_nfc]] wire chars MAX_MAILBOX_NAME_BYTES_def MAX_WIRE_NAME_BYTES_def
        is_control_def is_whitespace_def)
  have "lib_nfc rfc_lib (utf8 [65, 38, 0x65E5]) = utf8 [65, 38, 0x65E5]" "\<forall>c \<in> set [65, 38, 0x65E5 :: nat]. is_scalar c"
    by (simp_all add: rfc_lib_def is_scalar_def)
  note read = typed_name_is_read_back [OF engine this new, THEN conjunct2, THEN conjunct1]
  have "map_prod id (utf7_read rfc_lib) (split_name (nn_wire ?n) (Some (CHR ''.''))) = (Some ''Work'', nn_leaf ?n)"
    using read by simp
  with new show ?thesis by (intro exI [of _ ?n]) simp
qed

end
