(* ===== verification/Mailbox_Mapping.thy ===== *)
theory Mailbox_Mapping
  imports Mailbox_Name Mailbox_Rights "HOL-Library.Product_Lexorder" "HOL-Library.Multiset"
begin

text \<open>
  From LIST and STATUS lines to mailbox facts (\<open>mailboxes/mapping.rs\<close>): roles, names, hierarchy and
  sort order. The hash maps of the source are functions to options, its hash sets lists that are
  only asked for membership. \<open>RoleOverride\<close> is from \<open>store/mailboxes/set.rs\<close>.
\<close>

record status_entry =
  se_mailbox :: string
  se_messages :: "nat option"
  se_unseen :: "nat option"
  se_uid_next :: "nat option"
  se_uid_validity :: "nat option"
  se_highest_modseq :: "nat option"

datatype role_override = OverrideRole string | NoRole

fun override_role :: "role_override \<Rightarrow> string option" where
  "override_role (OverrideRole r) = Some r"
| "override_role NoRole = None"

definition NO_ROLE :: string where "NO_ROLE = []"

definition override_column :: "role_override \<Rightarrow> string" where
  "override_column o' = (case override_role o' of None \<Rightarrow> NO_ROLE | Some r \<Rightarrow> r)"

definition override_from_column :: "string \<Rightarrow> role_override" where
  "override_from_column c = (if c = NO_ROLE then NoRole else OverrideRole c)"

definition ROLES :: "string list" where
  "ROLES = [''inbox'', ''drafts'', ''sent'', ''archive'', ''junk'', ''trash'', ''all'', ''flagged'', ''important'']"

definition PINNED :: nat where "PINNED = 6"
definition SORT_ORDER_REST :: nat where "SORT_ORDER_REST = 6"

definition ATTRIBUTE_ROLES :: "(string \<times> string) list" where
  "ATTRIBUTE_ROLES =
     [(bs ''ALL'', ''all''), (bs ''ARCHIVE'', ''archive''), (bs ''DRAFTS'', ''drafts''), (bs ''FLAGGED'', ''flagged''),
      (bs ''IMPORTANT'', ''important''), (bs ''JUNK'', ''junk''), (bs ''SENT'', ''sent''), (bs ''TRASH'', ''trash'')]"

definition NAMED_ROLES :: "(string \<times> string) list" where
  "NAMED_ROLES =
     [(''Drafts'', ''drafts''), (''Sent'', ''sent''), (''Sent Items'', ''sent''), (''Sent Messages'', ''sent''),
      (''Junk'', ''junk''), (''Spam'', ''junk''), (''Junk E-mail'', ''junk''), (''Junk Email'', ''junk''),
      (''Trash'', ''trash''), (''Deleted Items'', ''trash''), (''Deleted Messages'', ''trash''),
      (''Archive'', ''archive''), (''Archives'', ''archive'')]"

definition NOSELECT :: string where "NOSELECT = bs ''NOSELECT''"
definition NONEXISTENT :: string where "NONEXISTENT = bs ''NONEXISTENT''"
definition SUBSCRIBED :: string where "SUBSCRIBED = bs ''SUBSCRIBED''"

datatype subscriptions = Attributes | Lsub "string list"

definition is_selectable :: "string list \<Rightarrow> bool" where
  "is_selectable attributes = (\<not> list_ex (\<lambda>a. a = NOSELECT \<or> a = NONEXISTENT) attributes)"

definition sort_order_of :: "string option \<Rightarrow> nat" where
  "sort_order_of r =
     (case Option.bind r (\<lambda>r. find_index (\<lambda>pinned. pinned = r) (take PINNED ROLES)) of
        None \<Rightarrow> SORT_ORDER_REST | Some position \<Rightarrow> position)"

subsection \<open>Roles\<close>

record role_claim =
  rc_by_name :: bool
  rc_depth :: nat
  rc_folded :: string
  rc_name :: string
  rc_role :: string

text \<open>The derived order of the source compares the fields in turn.\<close>

definition claim_key :: "role_claim \<Rightarrow> bool \<times> nat \<times> string \<times> string \<times> string" where
  "claim_key c = (rc_by_name c, rc_depth c, rc_folded c, rc_name c, rc_role c)"

definition role_claim_of :: "text_lib \<Rightarrow> list_entry \<Rightarrow> bool \<Rightarrow> role_claim option" where
  "role_claim_of lib entry gmail =
     (if \<not> is_selectable (le_attributes entry) then None
      else
        let leaf = utf7_read lib (snd (split_name (le_name entry) (le_delimiter entry)));
            by_attribute = List.find (\<lambda>(attribute, _). list_ex (\<lambda>found. found = attribute) (le_attributes entry)) ATTRIBUTE_ROLES;
            claimed =
              (if eq_ignore_ascii_case (le_name entry) INBOX then Some (''inbox'', False)
               else case by_attribute of
                 Some (_, r) \<Rightarrow> Some (if gmail then gmail_role r else r, False)
               | None \<Rightarrow> map_option (\<lambda>(_, r). (r, True)) (List.find (\<lambda>(n, _). eq_ignore_ascii_case leaf n) NAMED_ROLES))
        in map_option (\<lambda>(r, by_name).
             \<lparr>rc_by_name = by_name,
              rc_depth = (case le_delimiter entry of None \<Rightarrow> 0 | Some d \<Rightarrow> length (filter (\<lambda>c. c = d) (le_name entry))),
              rc_folded = lib_lowercase lib leaf, rc_name = le_name entry, rc_role = r\<rparr>) claimed)"

type_synonym role_deal = "string list \<times> (string \<rightharpoonup> string) \<times> string list"

definition take_role :: "string \<Rightarrow> string \<Rightarrow> string list \<times> (string \<rightharpoonup> string) \<Rightarrow> string list \<times> (string \<rightharpoonup> string)" where
  "take_role n r s =
     (let (taken, assigned) = s in if r \<in> set taken then s else (taken @ [r], assigned(n \<mapsto> r)))"

definition settle_override :: "(string \<rightharpoonup> role_override) \<Rightarrow> role_deal \<Rightarrow> list_entry \<Rightarrow> role_deal" where
  "settle_override overrides s entry =
     (let (taken, assigned, settled) = s in
      case overrides (le_name entry) of
        None \<Rightarrow> s
      | Some chosen \<Rightarrow>
          (let (taken, assigned) =
                 (case List.find (\<lambda>known. override_role chosen = Some known) ROLES of
                    None \<Rightarrow> (taken, assigned)
                  | Some r \<Rightarrow> take_role (le_name entry) r (taken, assigned))
           in (taken, assigned, settled @ [le_name entry])))"

definition claims_left :: "text_lib \<Rightarrow> list_entry list \<Rightarrow> bool \<Rightarrow> string list \<Rightarrow> role_claim list" where
  "claims_left lib entries gmail settled =
     sort_key claim_key
       (List.map_filter (\<lambda>entry. role_claim_of lib entry gmail) (filter (\<lambda>entry. le_name entry \<notin> set settled) entries))"

definition assign_roles :: "text_lib \<Rightarrow> list_entry list \<Rightarrow> bool \<Rightarrow> (string \<rightharpoonup> role_override) \<Rightarrow> string \<rightharpoonup> string" where
  "assign_roles lib entries gmail overrides =
     (let (taken, assigned, settled) =
            foldl (settle_override overrides) ([], Map.empty, []) (filter (\<lambda>e. is_selectable (le_attributes e)) entries)
      in snd (foldl (\<lambda>s c. take_role (rc_name c) (rc_role c) s) (taken, assigned) (claims_left lib entries gmail settled)))"

subsection \<open>Facts of a listing\<close>

definition facts_of :: "text_lib \<Rightarrow> list_entry list \<Rightarrow> (string \<rightharpoonup> status_entry) \<Rightarrow> (string \<rightharpoonup> string) \<Rightarrow> subscriptions \<Rightarrow> bool \<Rightarrow>
    list_entry \<Rightarrow> mailbox_facts" where
  "facts_of lib entries statuses roles subscriptions gmail entry =
     (let sel = is_selectable (le_attributes entry);
          stored = (sel \<and> (\<not> gmail \<or> is_store (le_attributes entry)));
          label = (if sel \<and> \<not> stored then Some (label_of entry) else None);
          status = statuses (le_name entry);
          subs = (case subscriptions of
                    Attributes \<Rightarrow> list_ex (\<lambda>a. a = SUBSCRIBED) (le_attributes entry)
                  | Lsub names \<Rightarrow> le_name entry \<in> set names);
          (parent, leaf) = split_name (le_name entry) (le_delimiter entry);
          r = roles (le_name entry)
      in \<lparr>name = utf7_read lib leaf, imap_name = le_name entry,
          parent_imap_name = Option.bind parent (\<lambda>p. if p \<in> le_name ` set entries then Some p else None),
          role = r, sort_order = sort_order_of r, subscribed = subs, selectable = sel, store = stored, gmail_label = label,
          uid_validity = Option.bind status se_uid_validity, uid_next = Option.bind status se_uid_next,
          highest_modseq = Option.bind status se_highest_modseq,
          total_emails = (case Option.bind status se_messages of None \<Rightarrow> 0 | Some n \<Rightarrow> n),
          unread_emails = (case Option.bind status se_unseen of None \<Rightarrow> 0 | Some n \<Rightarrow> n)\<rparr>)"

definition map_with_overrides :: "text_lib \<Rightarrow> list_entry list \<Rightarrow> status_entry list \<Rightarrow> subscriptions \<Rightarrow> bool \<Rightarrow>
    (string \<rightharpoonup> role_override) \<Rightarrow> mailbox_facts list" where
  "map_with_overrides lib entries statuses subscriptions gmail overrides =
     map (facts_of lib entries (map_of (rev (map (\<lambda>s. (se_mailbox s, s)) statuses)))
            (assign_roles lib entries gmail overrides) subscriptions gmail) entries"

definition map_listing :: "text_lib \<Rightarrow> list_entry list \<Rightarrow> status_entry list \<Rightarrow> subscriptions \<Rightarrow> bool \<Rightarrow> mailbox_facts list" where
  "map_listing lib entries statuses subscriptions gmail =
     map_with_overrides lib entries statuses subscriptions gmail Map.empty"

subsection \<open>Dealing out roles\<close>

lemma in_map_filter: "x \<in> set (List.map_filter g es) \<longleftrightarrow> (\<exists>e \<in> set es. g e = Some x)"
  by (induction es) (auto split: option.splits)

text \<open>Roles go to the first who asks: who asks for a role and who gets it.\<close>

definition deal :: "(string \<times> string) list \<Rightarrow> string list \<times> (string \<rightharpoonup> string) \<Rightarrow> string list \<times> (string \<rightharpoonup> string)" where
  "deal ps s = foldl (\<lambda>s (n, r). take_role n r s) s ps"

lemma deal_simps: "deal [] s = s" "deal ((n, r) # ps) s = deal ps (take_role n r s)"
  by (simp_all add: deal_def)

lemma deal_spec:
  assumes "distinct (map fst ps)" "fst ` set ps \<inter> dom assigned = {}" "deal ps (taken, assigned) = (taken', assigned')"
  shows "(\<forall>n r. assigned' n = Some r \<longleftrightarrow>
      assigned n = Some r \<or> (r \<notin> set taken \<and> List.find (\<lambda>p. snd p = r) ps = Some (n, r))) \<and>
    set taken' = set taken \<union> snd ` set ps \<and> dom assigned' \<subseteq> dom assigned \<union> fst ` set ps"
  using assms
proof (induction ps arbitrary: taken assigned)
  case (Cons p ps)
  obtain m q where p: "p = (m, q)" by fastforce
  have m: "assigned m = None" "m \<notin> fst ` set ps" "distinct (map fst ps)" "fst ` set ps \<inter> dom assigned = {}"
    using Cons.prems(1,2) by (auto simp: p)
  show ?case
  proof (cases "q \<in> set taken")
    case True
    with Cons.prems(3) have "deal ps (taken, assigned) = (taken', assigned')" by (simp add: p deal_simps take_role_def)
    from Cons.IH [OF m(3,4) this] True show ?thesis by (auto simp: p)
  next
    case False
    then have d: "deal ps (taken @ [q], assigned(m \<mapsto> q)) = (taken', assigned')"
      using Cons.prems(3) by (simp add: p deal_simps take_role_def)
    have "fst ` set ps \<inter> dom (assigned(m \<mapsto> q)) = {}" using m by auto
    from Cons.IH [OF m(3) this d] False m(1) show ?thesis by (auto simp: p)
  qed
qed (simp_all add: deal_simps)

definition override_pairs :: "(string \<rightharpoonup> role_override) \<Rightarrow> list_entry list \<Rightarrow> (string \<times> string) list" where
  "override_pairs overrides entries =
     List.map_filter (\<lambda>e. case overrides (le_name e) of
         Some (OverrideRole r) \<Rightarrow> if r \<in> set ROLES then Some (le_name e, r) else None
       | _ \<Rightarrow> None) entries"

lemma find_known: "List.find (\<lambda>known. override_role chosen = Some known) ROLES =
    (case chosen of OverrideRole r \<Rightarrow> if r \<in> set ROLES then Some r else None | NoRole \<Rightarrow> None)"
proof (cases chosen)
  case (OverrideRole r)
  have "List.find (\<lambda>known. r = known) xs = (if r \<in> set xs then Some r else None)" for xs by (induction xs) auto
  then show ?thesis using OverrideRole by simp
next
  case NoRole
  then show ?thesis by (simp add: find_None_iff)
qed

lemma settle_override_fold:
  "foldl (settle_override overrides) (taken, assigned, settled) es =
     (let (t, a) = deal (override_pairs overrides es) (taken, assigned)
      in (t, a, settled @ map le_name (filter (\<lambda>e. overrides (le_name e) \<noteq> None) es)))"
proof (induction es arbitrary: taken assigned settled)
  case Nil
  then show ?case by (simp add: override_pairs_def deal_simps map_filter_simps)
next
  case (Cons e es)
  show ?case
  proof (cases "overrides (le_name e)")
    case None
    with Cons.IH show ?thesis by (simp add: settle_override_def override_pairs_def map_filter_simps)
  next
    case (Some chosen)
    define s where "s = (case chosen of OverrideRole r \<Rightarrow> if r \<in> set ROLES then take_role (le_name e) r (taken, assigned) else (taken, assigned)
      | NoRole \<Rightarrow> (taken, assigned))"
    have "settle_override overrides (taken, assigned, settled) e = (fst s, snd s, settled @ [le_name e])"
      using Some by (auto simp: settle_override_def find_known s_def Let_def split: role_override.splits prod.splits)
    moreover have "deal (override_pairs overrides (e # es)) (taken, assigned) = deal (override_pairs overrides es) s"
      using Some by (simp add: override_pairs_def map_filter_simps s_def deal_simps split: role_override.splits)
    ultimately show ?thesis using Cons.IH [of "fst s" "snd s" "settled @ [le_name e]"] Some by (simp add: Let_def)
  qed
qed

lemma override_pairs_find:
  "List.find (\<lambda>p. snd p = r) (override_pairs overrides es) =
     map_option (\<lambda>e. (le_name e, r)) (if r \<in> set ROLES then List.find (\<lambda>e. overrides (le_name e) = Some (OverrideRole r)) es else None)"
  by (induction es) (auto simp: override_pairs_def map_filter_simps split: option.splits role_override.splits)

lemma override_pairs_names: "fst ` set (override_pairs overrides es) \<subseteq> {le_name e |e. e \<in> set es \<and> overrides (le_name e) \<noteq> None}"
proof
  fix n assume "n \<in> fst ` set (override_pairs overrides es)"
  then obtain e p where e: "e \<in> set es" "n = fst p" and
    p: "(case overrides (le_name e) of Some (OverrideRole r) \<Rightarrow> if r \<in> set ROLES then Some (le_name e, r) else None | _ \<Rightarrow> None) = Some p"
    unfolding override_pairs_def by (auto simp: in_map_filter)
  from p have "n = le_name e" "overrides (le_name e) \<noteq> None" using e(2)
    by (auto split: option.splits role_override.splits if_splits)
  then show "n \<in> {le_name e |e. e \<in> set es \<and> overrides (le_name e) \<noteq> None}" using e(1) by blast
qed

lemma override_pairs_distinct: "distinct (map le_name es) \<Longrightarrow> distinct (map fst (override_pairs overrides es))"
proof (induction es)
  case (Cons e es)
  then have "distinct (map fst (override_pairs overrides es))" "le_name e \<notin> fst ` set (override_pairs overrides es)"
    using override_pairs_names [of overrides es] by auto
  then show ?case
    by (auto simp: override_pairs_def map_filter_simps split: option.splits role_override.splits)
qed (simp add: override_pairs_def map_filter_simps)

lemma sorted_find_least:
  fixes key :: "'a \<Rightarrow> 'b::linorder"
  assumes "sorted (map key xs)" "\<And>x y. key x = key y \<Longrightarrow> f x = f y"
  shows "map_option f (List.find P xs) = Some v \<longleftrightarrow>
    (\<exists>x \<in> set xs. P x \<and> f x = v \<and> (\<forall>y \<in> set xs. P y \<longrightarrow> key x \<le> key y))"
  using assms(1)
proof (induction xs)
  case (Cons a xs)
  show ?case
  proof (cases "P a")
    case True
    have least: "\<forall>y \<in> set (a # xs). key a \<le> key y" using Cons.prems by auto
    show ?thesis
    proof
      assume "map_option f (List.find P (a # xs)) = Some v"
      then show "\<exists>x \<in> set (a # xs). P x \<and> f x = v \<and> (\<forall>y \<in> set (a # xs). P y \<longrightarrow> key x \<le> key y)"
        using True least by auto
    next
      assume "\<exists>x \<in> set (a # xs). P x \<and> f x = v \<and> (\<forall>y \<in> set (a # xs). P y \<longrightarrow> key x \<le> key y)"
      then obtain x where x: "x \<in> set (a # xs)" "f x = v" "key x \<le> key a" using True by auto
      moreover have "key a \<le> key x" using least x(1) by blast
      ultimately have "key x = key a" by simp
      then show "map_option f (List.find P (a # xs)) = Some v" using assms(2) [of x a] True x(2) by simp
    qed
  next
    case False
    with Cons show ?thesis by auto
  qed
qed simp

lemma claim_facts:
  assumes "role_claim_of lib e gmail = Some c"
  shows "is_selectable (le_attributes e)" "rc_name c = le_name e" "rc_role c \<in> set ROLES"
proof -
  show "is_selectable (le_attributes e)" "rc_name c = le_name e"
    using assms by (auto simp: role_claim_of_def Let_def split: if_splits)
  have "\<forall>p \<in> set ATTRIBUTE_ROLES. snd p \<in> set ROLES \<and> gmail_role (snd p) \<in> set ROLES"
    by (simp add: ATTRIBUTE_ROLES_def ROLES_def gmail_role_def ALL_MAIL_ROLE_def)
  moreover have "\<forall>p \<in> set NAMED_ROLES. snd p \<in> set ROLES" by (simp add: NAMED_ROLES_def ROLES_def)
  moreover have "''inbox'' \<in> set ROLES" by (simp add: ROLES_def)
  ultimately show "rc_role c \<in> set ROLES"
    using assms by (auto simp: role_claim_of_def Let_def find_Some_iff split: if_splits option.splits) (metis nth_mem snd_conv)+
qed

definition claims_of :: "text_lib \<Rightarrow> list_entry list \<Rightarrow> bool \<Rightarrow> (string \<rightharpoonup> role_override) \<Rightarrow> role_claim set" where
  "claims_of lib entries gmail overrides =
     {c. \<exists>e \<in> set entries. role_claim_of lib e gmail = Some c \<and> overrides (le_name e) = None}"

lemma claims_left_set:
  assumes "distinct (map le_name entries)" "\<And>n. n \<in> set settled \<longleftrightarrow>
      (\<exists>e \<in> set entries. le_name e = n \<and> is_selectable (le_attributes e) \<and> overrides n \<noteq> None)"
  shows "set (claims_left lib entries gmail settled) = claims_of lib entries gmail overrides"
proof -
  have "(le_name e \<notin> set settled) = (overrides (le_name e) = None)"
    if "e \<in> set entries" "role_claim_of lib e gmail = Some c" for e c
    using assms(2) that claim_facts(1) by blast
  note out = this
  show ?thesis
  proof (rule set_eqI)
    fix c
    show "c \<in> set (claims_left lib entries gmail settled) \<longleftrightarrow> c \<in> claims_of lib entries gmail overrides"
      using out unfolding claims_left_def claims_of_def set_sort in_map_filter by fastforce
  qed
qed

lemma claims_left_distinct:
  assumes "distinct (map le_name entries)"
  shows "distinct (map rc_name (claims_left lib entries gmail settled))"
proof -
  have names: "rc_name ` set (List.map_filter (\<lambda>e. role_claim_of lib e gmail) es) \<subseteq> le_name ` set es" for es
    using claim_facts(2) by (fastforce simp: in_map_filter)
  have "distinct (map rc_name (List.map_filter (\<lambda>e. role_claim_of lib e gmail) es))" if "distinct (map le_name es)" for es
    using that
  proof (induction es)
    case (Cons e es)
    have "rc_name c \<notin> rc_name ` set (List.map_filter (\<lambda>e. role_claim_of lib e gmail) es)" if "role_claim_of lib e gmail = Some c" for c
      using names [of es] Cons.prems claim_facts(2) [OF that] by auto
    then show ?case using Cons by (simp split: option.splits)
  qed simp
  moreover have "distinct (map le_name (filter P entries))" for P using assms by (rule distinct_map_filter)
  ultimately have d: "distinct (map rc_name (List.map_filter (\<lambda>e. role_claim_of lib e gmail) (filter P entries)))" for P by blast
  have "mset (map rc_name (sort_key claim_key xs)) = mset (map rc_name xs)" for xs by (simp only: mset_map mset_sort)
  then show ?thesis unfolding claims_left_def using d mset_eq_imp_distinct_iff by blast
qed

lemma assign_roles_spec:
  assumes "distinct (map le_name entries)"
  shows "assign_roles lib entries gmail overrides n = Some r \<longleftrightarrow> r \<in> set ROLES \<and>
     (case List.find (\<lambda>e. overrides (le_name e) = Some (OverrideRole r)) (filter (\<lambda>e. is_selectable (le_attributes e)) entries) of
        Some e \<Rightarrow> le_name e = n
      | None \<Rightarrow> (\<exists>c \<in> claims_of lib entries gmail overrides. rc_name c = n \<and> rc_role c = r \<and>
          (\<forall>d \<in> claims_of lib entries gmail overrides. rc_role d = r \<longrightarrow> claim_key c \<le> claim_key d)))"
proof -
  let ?es = "filter (\<lambda>e. is_selectable (le_attributes e)) entries"
  obtain t a where d1: "deal (override_pairs overrides ?es) ([], Map.empty) = (t, a)" by fastforce
  define settled where "settled = map le_name (filter (\<lambda>e. overrides (le_name e) \<noteq> None) ?es)"
  define claims where "claims = claims_left lib entries gmail settled"
  obtain t' a' where d2: "deal (map (\<lambda>c. (rc_name c, rc_role c)) claims) (t, a) = (t', a')" by fastforce
  have a': "assign_roles lib entries gmail overrides = a'"
    using d1 d2 by (simp add: assign_roles_def settle_override_fold settled_def claims_def deal_def foldl_map)
  have "distinct (map fst (override_pairs overrides ?es))" by (rule override_pairs_distinct [OF distinct_map_filter [OF assms]])
  from deal_spec [OF this _ d1] have first: "a n = Some r \<longleftrightarrow> List.find (\<lambda>p. snd p = r) (override_pairs overrides ?es) = Some (n, r)"
    "set t = snd ` set (override_pairs overrides ?es)" "dom a \<subseteq> fst ` set (override_pairs overrides ?es)" by auto
  have set_claims: "set claims = claims_of lib entries gmail overrides"
    unfolding claims_def by (rule claims_left_set [OF assms]) (auto simp: settled_def)
  have dist: "distinct (map fst (map (\<lambda>c. (rc_name c, rc_role c)) claims))"
    using claims_left_distinct [OF assms, of lib gmail settled] by (simp add: claims_def o_def)
  have free: "overrides (rc_name c) = None" if "c \<in> set claims" for c
    using that claim_facts(2) by (auto simp: set_claims claims_of_def)
  have given: "overrides m \<noteq> None" if "m \<in> dom a" for m
  proof -
    have "m \<in> {le_name e |e. e \<in> set ?es \<and> overrides (le_name e) \<noteq> None}"
      using that first(3) override_pairs_names [of overrides ?es] by blast
    then show ?thesis by blast
  qed
  have "fst ` set (map (\<lambda>c. (rc_name c, rc_role c)) claims) \<inter> dom a = {}"
  proof (rule equals0I)
    fix m assume m: "m \<in> fst ` set (map (\<lambda>c. (rc_name c, rc_role c)) claims) \<inter> dom a"
    from IntD1 [OF m] obtain c where c: "c \<in> set claims" "m = rc_name c" by auto
    from free [OF c(1)] given [OF IntD2 [OF m]] c(2) show False by simp
  qed
  note deal_spec [OF dist this d2, THEN conjunct1, rule_format, of n r]
  moreover have "r \<in> set t \<longleftrightarrow> List.find (\<lambda>p. snd p = r) (override_pairs overrides ?es) \<noteq> None"
    by (force simp: first(2) find_None_iff)
  moreover have "List.find (\<lambda>p. snd p = r) (map (\<lambda>c. (rc_name c, rc_role c)) claims) =
      map_option (\<lambda>c. (rc_name c, rc_role c)) (List.find (\<lambda>c. rc_role c = r) claims)"
    by (induction claims) auto
  moreover have "map_option (\<lambda>c. (rc_name c, rc_role c)) (List.find (\<lambda>c. rc_role c = r) claims) = Some (n, r) \<longleftrightarrow>
      (\<exists>c \<in> set claims. rc_role c = r \<and> (rc_name c, rc_role c) = (n, r) \<and> (\<forall>d \<in> set claims. rc_role d = r \<longrightarrow> claim_key c \<le> claim_key d))"
  proof (rule sorted_find_least)
    show "sorted (map claim_key claims)" by (simp add: claims_def claims_left_def)
  qed (simp add: claim_key_def)
  moreover have "r \<in> set ROLES" if "c \<in> set claims" "rc_role c = r" for c
    using that claim_facts(3) by (auto simp: set_claims claims_of_def)
  ultimately show ?thesis
    unfolding a' first(1) override_pairs_find set_claims
    by (cases "List.find (\<lambda>e. overrides (le_name e) = Some (OverrideRole r)) ?es"; cases "r \<in> set ROLES") (simp_all, blast+)
qed

text \<open>
  C30: The roles of a listing are shared out as they should be. A mailbox holds a role exactly if it
  is the first selectable one the user gave it, or the user gave it to none and of every mailbox
  without the user's word that claims it this one comes first: an attribute before a name, then the
  smaller depth, the folded name and the wire name. So a role is held by one mailbox, every known
  role somebody asks for is held, and nothing but a known role is.
\<close>

theorem roles_are_shared_out:
  assumes "distinct (map le_name entries)"
  shows "(assign_roles lib entries gmail overrides n = Some r \<longleftrightarrow> r \<in> set ROLES \<and>
     (case List.find (\<lambda>e. overrides (le_name e) = Some (OverrideRole r)) (filter (\<lambda>e. is_selectable (le_attributes e)) entries) of
        Some e \<Rightarrow> le_name e = n
      | None \<Rightarrow> (\<exists>c \<in> claims_of lib entries gmail overrides. rc_name c = n \<and> rc_role c = r \<and>
          (\<forall>d \<in> claims_of lib entries gmail overrides. rc_role d = r \<longrightarrow> claim_key c \<le> claim_key d)))) \<and>
     (assign_roles lib entries gmail overrides n = Some r \<longrightarrow> assign_roles lib entries gmail overrides m = Some r \<longrightarrow> n = m)"
proof -
  have "rc_name c = rc_name d" if "claim_key c \<le> claim_key d" "claim_key d \<le> claim_key c" for c d
    using order.antisym [OF that] by (simp add: claim_key_def)
  note same = this
  have "n = m" if held: "assign_roles lib entries gmail overrides n = Some r" "assign_roles lib entries gmail overrides m = Some r"
  proof (cases "List.find (\<lambda>e. overrides (le_name e) = Some (OverrideRole r)) (filter (\<lambda>e. is_selectable (le_attributes e)) entries)")
    case None
    let ?C = "claims_of lib entries gmail overrides"
    have holder: "\<exists>c \<in> ?C. rc_name c = x \<and> rc_role c = r \<and> (\<forall>d \<in> ?C. rc_role d = r \<longrightarrow> claim_key c \<le> claim_key d)"
      if "assign_roles lib entries gmail overrides x = Some r" for x
      using that unfolding assign_roles_spec [OF assms] by (simp add: None)
    obtain c where c: "c \<in> ?C" "rc_name c = n" "rc_role c = r" "\<forall>d \<in> ?C. rc_role d = r \<longrightarrow> claim_key c \<le> claim_key d"
      using holder [OF held(1)] by blast
    obtain d where d: "d \<in> ?C" "rc_name d = m" "rc_role d = r" "\<forall>c \<in> ?C. rc_role c = r \<longrightarrow> claim_key d \<le> claim_key c"
      using holder [OF held(2)] by blast
    show ?thesis using same [of c d] c d by simp
  next
    case (Some e)
    then show ?thesis using that unfolding assign_roles_spec [OF assms] by simp
  qed
  then show ?thesis using assign_roles_spec [OF assms] by blast
qed

definition demo_listing :: "list_entry list" where
  "demo_listing =
     [\<lparr>le_name = ''INBOX'', le_delimiter = Some (CHR ''/''), le_attributes = []\<rparr>,
      \<lparr>le_name = ''Sent'', le_delimiter = Some (CHR ''/''), le_attributes = []\<rparr>,
      \<lparr>le_name = ''Work/Out'', le_delimiter = Some (CHR ''/''), le_attributes = [bs ''SENT'']\<rparr>,
      \<lparr>le_name = ''Work'', le_delimiter = Some (CHR ''/''), le_attributes = [bs ''JUNK'']\<rparr>]"

text \<open>The folder with the attribute is the sent folder, the one the user named holds the archive.\<close>

lemma roles_are_shared_out_witness:
  "assign_roles rfc_lib demo_listing False [''Work'' \<mapsto> OverrideRole ''archive''] ''Work'' = Some ''archive'' \<and>
   ''archive'' \<in> set ROLES"
proof -
  have "distinct (map le_name demo_listing)" by (simp add: demo_listing_def)
  note r = roles_are_shared_out [OF this, of rfc_lib False "[''Work'' \<mapsto> OverrideRole ''archive'']" "''Work''" "''archive''"]
  have "''archive'' \<in> set ROLES" by (simp add: ROLES_def)
  moreover have "List.find (\<lambda>e. [''Work'' \<mapsto> OverrideRole ''archive''] (le_name e) = Some (OverrideRole ''archive''))
      (filter (\<lambda>e. is_selectable (le_attributes e)) demo_listing) =
      Some \<lparr>le_name = ''Work'', le_delimiter = Some (CHR ''/''), le_attributes = [bs ''JUNK'']\<rparr>"
    by (simp add: demo_listing_def is_selectable_def NOSELECT_def NONEXISTENT_def bs_def)
  ultimately show ?thesis using r by simp
qed

subsection \<open>The facts of a listing\<close>

lemma sort_order_bound: "sort_order_of r \<le> SORT_ORDER_REST"
proof (cases "Option.bind r (\<lambda>r. find_index (\<lambda>pinned. pinned = r) (take PINNED ROLES))")
  case (Some i)
  then have "i < length (take PINNED ROLES)" by (cases r) (auto simp: find_index_Some simp del: length_take)
  then show ?thesis using Some by (simp add: sort_order_of_def PINNED_def ROLES_def SORT_ORDER_REST_def)
qed (simp add: sort_order_of_def)

lemma sort_order_pinned: "i < PINNED \<Longrightarrow> sort_order_of (Some (ROLES ! i)) = i"
  by (auto simp: PINNED_def ROLES_def sort_order_of_def less_Suc_eq numeral_eq_Suc)

lemma split_name_shorter: "split_name w d = (Some p, leaf) \<Longrightarrow> length p < length w \<and> leaf \<noteq> [] \<and> p \<noteq> [] \<and> (\<exists>c. d = Some c \<and> w = p @ c # leaf)"
  by (auto simp: split_name_def dest!: rsplit_once_Some split: option.splits if_splits Option.bind_splits)

text \<open>
  C40: What the bridge makes of a listing is well formed, whatever the server lists. There is one
  mailbox per line in the order of the lines. A mailbox that can be selected keeps messages of its
  own or shows a label and never both, and one that cannot does neither and holds no role; its sort
  order is that of its role and at most the last. A parent is a listed name that the name extends
  by one delimiter and a leaf, so the hierarchy is a forest: following parents always ends.
\<close>

theorem mapped_facts_are_well_formed:
  assumes "fs = map_with_overrides lib entries statuses subscriptions gmail overrides"
    and "distinct (map le_name entries)" "f \<in> set fs"
  shows "map imap_name fs = map le_name entries \<and>
     (selectable f \<longleftrightarrow> store f \<noteq> (gmail_label f \<noteq> None)) \<and> (gmail \<or> gmail_label f = None) \<and>
     (\<forall>r. role f = Some r \<longrightarrow> selectable f \<and> r \<in> set ROLES) \<and>
     sort_order f = sort_order_of (role f) \<and> sort_order f \<le> SORT_ORDER_REST \<and>
     (\<forall>p. parent_imap_name f = Some p \<longrightarrow> p \<in> imap_name ` set fs \<and> p \<noteq> [] \<and> (\<exists>d leaf. imap_name f = p @ d # leaf \<and> leaf \<noteq> [])) \<and>
     wf {(p, n). \<exists>g \<in> set fs. imap_name g = n \<and> parent_imap_name g = Some p}"
proof -
  define st where "st = (map_of (rev (map (\<lambda>s. (se_mailbox s, s)) statuses)))"
  define R where "R = assign_roles lib entries gmail overrides"
  have fs: "fs = map (facts_of lib entries st R subscriptions gmail) entries"
    using assms(1) by (simp add: map_with_overrides_def st_def R_def)
  then obtain e where e: "e \<in> set entries" "f = facts_of lib entries st R subscriptions gmail e" using assms(3) by auto
  have names: "imap_name (facts_of lib entries st R subscriptions gmail e) = le_name e" for e
    by (simp add: facts_of_def Let_def split: prod.splits)
  then have all: "map imap_name fs = map le_name entries" by (simp add: fs)
  have sel: "selectable f = is_selectable (le_attributes e)" "role f = R (le_name e)" "sort_order f = sort_order_of (role f)"
    "selectable f \<longleftrightarrow> store f \<noteq> (gmail_label f \<noteq> None)" "gmail \<or> gmail_label f = None"
    by (auto simp: e(2) facts_of_def Let_def split: prod.splits)
  have up: "p \<in> imap_name ` set fs \<and> p \<noteq> [] \<and> length p < length (imap_name g) \<and> (\<exists>d leaf. imap_name g = p @ d # leaf \<and> leaf \<noteq> [])"
    if g: "g \<in> set fs" "parent_imap_name g = Some p" for g p
  proof -
    obtain x where x: "x \<in> set entries" "g = facts_of lib entries st R subscriptions gmail x" using g(1) fs by auto
    obtain q leaf where q: "split_name (le_name x) (le_delimiter x) = (q, leaf)" by fastforce
    have "q = Some p" "p \<in> le_name ` set entries"
      using g(2) q by (auto simp: x(2) facts_of_def Let_def split: Option.bind_splits if_splits)
    moreover have "imap_name ` set fs = le_name ` set entries" using all by (metis set_map)
    ultimately show ?thesis using split_name_shorter [of "le_name x" "le_delimiter x" p leaf] q names x(2) by auto
  qed
  have "selectable f \<and> r \<in> set ROLES" if "role f = Some r" for r
  proof -
    have "R (le_name e) = Some r" using that sel(2) by simp
    then have r: "r \<in> set ROLES" and
      h: "case List.find (\<lambda>e. overrides (le_name e) = Some (OverrideRole r)) (filter (\<lambda>e. is_selectable (le_attributes e)) entries) of
        Some e' \<Rightarrow> le_name e' = le_name e
      | None \<Rightarrow> (\<exists>c \<in> claims_of lib entries gmail overrides. rc_name c = le_name e)"
      unfolding R_def assign_roles_spec [OF assms(2)] by (auto split: option.splits)
    obtain x where x: "x \<in> set entries" "is_selectable (le_attributes x)" "le_name x = le_name e"
    proof (cases "List.find (\<lambda>e. overrides (le_name e) = Some (OverrideRole r)) (filter (\<lambda>e. is_selectable (le_attributes e)) entries)")
      case None
      then obtain c y where "y \<in> set entries" "role_claim_of lib y gmail = Some c" "rc_name c = le_name e"
        using h by (auto simp: claims_of_def)
      then show ?thesis using that claim_facts(1,2) by metis
    next
      case (Some y)
      then have "y \<in> set (filter (\<lambda>e. is_selectable (le_attributes e)) entries)" by (metis find_Some_iff nth_mem)
      then show ?thesis using that [of y] h Some by simp
    qed
    then have "x = e" using assms(2) e(1) by (metis distinct_map inj_onD)
    then show ?thesis using r x(2) sel(1) by simp
  qed
  moreover have "wf {(p, n). \<exists>g \<in> set fs. imap_name g = n \<and> parent_imap_name g = Some p}"
    by (rule wf_subset [OF wf_measure [of length]]) (use up in auto)
  ultimately show ?thesis using all sel sort_order_bound [of "role f"] up [OF assms(3)] by auto
qed

lemma mapped_facts_are_well_formed_witness:
  "\<exists>f. f \<in> set (map_with_overrides rfc_lib demo_listing [] Attributes False Map.empty) \<and>
     imap_name f = ''Work/Out'' \<and> parent_imap_name f = Some ''Work'' \<and> sort_order f \<le> SORT_ORDER_REST"
proof -
  let ?fs = "map_with_overrides rfc_lib demo_listing [] Attributes False Map.empty"
  have d: "distinct (map le_name demo_listing)" by (simp add: demo_listing_def)
  have "rsplit_once (CHR ''/'') ''Work/Out'' = Some (''Work'', ''Out'')" using rsplit_once_last [of "CHR ''/''" "''Out''" "''Work''"] by simp
  then have f: "?fs ! 2 \<in> set ?fs" "imap_name (?fs ! 2) = ''Work/Out''" "parent_imap_name (?fs ! 2) = Some ''Work''"
    by (simp_all add: map_with_overrides_def demo_listing_def facts_of_def Let_def split_name_def split: prod.splits)
  from mapped_facts_are_well_formed [OF refl d f(1)] have "sort_order (?fs ! 2) \<le> SORT_ORDER_REST" by blast
  with f show ?thesis by blast
qed

end
