(* ===== verification/Folder_Step.thy ===== *)
theory Folder_Step
  imports Mailbox_Mapping "HOL-Library.AList" "HOL-Library.Multiset"
begin

text \<open>
  What one \<open>Mailbox/set\<close> asks (\<open>runtime/folders.rs\<close>) and the steps its check hands the work
  (\<open>runtime/folders/step.rs\<close>): the objects of the call, why one is refused, the order in which
  creates run and one step per object that passed.
\<close>

datatype nullable = NullValue | Value string

fun nullable_deref :: "nullable \<Rightarrow> string option" where
  "nullable_deref NullValue = None"
| "nullable_deref (Value v) = Some v"

record folder_create =
  fc_creation_id :: string
  fc_name :: string
  fc_parent :: "string option"
  fc_role :: "nullable option"
  fc_subscribed :: "bool option"

record folder_update =
  fu_id :: string
  fu_name :: "string option"
  fu_parent :: "nullable option"
  fu_role :: "nullable option"
  fu_subscribed :: "bool option"

record folder_ask =
  fa_if_in_state :: "string option"
  fa_creates :: "folder_create list"
  fa_updates :: "folder_update list"
  fa_destroys :: "string list"
  fa_remove_emails :: bool

datatype refusal =
    Forbidden | NotFound | InvalidProperties "string list" | MailboxHasChild | MailboxHasEmail | WillDestroy
  | ServerFail | ServerUnavailable

definition CREATION_REFERENCE :: string where "CREATION_REFERENCE = ''#''"

definition folder_creation_id :: "string \<Rightarrow> string option" where
  "folder_creation_id reference = strip_prefix reference CREATION_REFERENCE"

definition invalid_folder :: "string \<Rightarrow> refusal" where
  "invalid_folder property = InvalidProperties [property]"

fun refusal_of_name :: "name_error \<Rightarrow> refusal" where
  "refusal_of_name NFlat = invalid_folder ''parentId''"
| "refusal_of_name _ = invalid_folder ''name''"

subsection \<open>Steps\<close>

datatype under = Top | UnderMailbox mailbox_id

fun under_id :: "under \<Rightarrow> mailbox_id option" where
  "under_id Top = None"
| "under_id (UnderMailbox m) = Some m"

record naming =
  ng_typed :: string
  ng_leaf :: string
  ng_under :: under

datatype folder_step =
    StepCreate nat mailbox_id naming "role_override option" bool
  | StepUpdate nat mailbox_id "naming option" "mailbox_id list" "bool option" "role_override option"
  | StepDestroy nat mailbox_id bool

fun step_index :: "folder_step \<Rightarrow> nat" where
  "step_index (StepCreate i _ _ _ _) = i"
| "step_index (StepUpdate i _ _ _ _ _) = i"
| "step_index (StepDestroy i _ _) = i"

fun step_id :: "folder_step \<Rightarrow> mailbox_id" where
  "step_id (StepCreate _ m _ _ _) = m"
| "step_id (StepUpdate _ m _ _ _ _) = m"
| "step_id (StepDestroy _ m _) = m"

fun is_local :: "folder_step \<Rightarrow> bool" where
  "is_local (StepUpdate _ _ None _ None _) = True"
| "is_local _ = False"

fun step_made :: "folder_step \<Rightarrow> string \<Rightarrow> bool \<Rightarrow> bool \<Rightarrow> mailbox_row option" where
  "step_made (StepCreate _ m naming chosen _) wire subs gmail =
     (let r = Option.bind chosen override_role
      in Some \<lparr>row_id = m, parent_id = under_id (ng_under naming),
           facts = \<lparr>name = ng_leaf naming, imap_name = wire, parent_imap_name = None, role = r,
             sort_order = sort_order_of r, subscribed = subs, selectable = True, store = \<not> gmail,
             gmail_label = (if gmail then Some wire else None), uid_validity = None, uid_next = None,
             highest_modseq = None, total_emails = 0, unread_emails = 0\<rparr>\<rparr>)"
| "step_made _ _ _ _ = None"

record folder_steps =
  pd_steps :: "folder_step list"
  pd_refused :: "(nat \<times> refusal) list"

subsection \<open>The order of the creates\<close>

definition waits_on :: "folder_create \<Rightarrow> folder_create list \<Rightarrow> string option" where
  "waits_on create creates =
     Option.bind (Option.bind (fc_parent create) folder_creation_id)
       (\<lambda>creation. if list_ex (\<lambda>c. fc_creation_id c = creation) creates then Some creation else None)"

definition waits :: "folder_create list \<Rightarrow> string set \<Rightarrow> nat \<Rightarrow> bool" where
  "waits creates placed i =
     (case waits_on (creates ! i) creates of None \<Rightarrow> False | Some parent \<Rightarrow> parent \<notin> placed)"

text \<open>One pass of \<open>retain\<close> over the indices left: what is placed, the order and what stays.\<close>

fun order_pass :: "folder_create list \<Rightarrow> string set \<Rightarrow> nat list \<Rightarrow> nat list \<Rightarrow> string set \<times> nat list \<times> nat list" where
  "order_pass creates placed order [] = (placed, order, [])"
| "order_pass creates placed order (i # left) =
     (if waits creates placed i then
        (let (placed, order, kept) = order_pass creates placed order left in (placed, order, i # kept))
      else order_pass creates (insert (fc_creation_id (creates ! i)) placed) (order @ [i]) left)"

lemma order_pass_length: "order_pass creates placed order left = (p, o', l) \<Longrightarrow> length l \<le> length left"
  by (induction left arbitrary: placed order p o' l) (auto split: if_splits prod.splits, fastforce)

function order_loop :: "folder_create list \<Rightarrow> string set \<Rightarrow> nat list \<Rightarrow> nat list \<Rightarrow> nat list \<times> nat list" where
  "order_loop creates placed order left =
     (if left = [] then (order, left)
      else
        let (placed, order, kept) = order_pass creates placed order left
        in if length kept = length left then (order, kept) else order_loop creates placed order kept)"
  by pat_completeness auto
termination
proof (relation "measure (\<lambda>(creates, placed, order, left). length left)")
  fix creates :: "folder_create list" and placed order left r placed' r' order' kept
  assume "left \<noteq> []" "r = order_pass creates placed order left" "(placed', r') = r" "(order', kept) = r'" "length kept \<noteq> length left"
  then have "length kept \<le> length left" using order_pass_length [of creates placed order left placed' order' kept] by simp
  then show "((creates, placed', order', kept), creates, placed, order, left) \<in> measure (\<lambda>(creates, placed, order, left). length left)"
    using \<open>length kept \<noteq> length left\<close> by simp
qed simp

declare order_loop.simps [simp del]

definition creation_order :: "folder_create list \<Rightarrow> nat list" where
  "creation_order creates =
     (let (order, left) = order_loop creates {} [] [0..<length creates] in order @ left)"

subsection \<open>Parents before their children\<close>

text \<open>A create resolves if it names no create of the call or one that resolves.\<close>

inductive resolves :: "folder_create list \<Rightarrow> nat \<Rightarrow> bool" for creates where
  no_reference: "i < length creates \<Longrightarrow> waits_on (creates ! i) creates = None \<Longrightarrow> resolves creates i"
| reference: "i < length creates \<Longrightarrow> waits_on (creates ! i) creates = Some (fc_creation_id (creates ! j)) \<Longrightarrow>
    resolves creates j \<Longrightarrow> resolves creates i"

definition parents_first :: "folder_create list \<Rightarrow> nat list \<Rightarrow> bool" where
  "parents_first creates order \<longleftrightarrow>
     (\<forall>k < length order. \<forall>c. waits_on (creates ! (order ! k)) creates = Some c \<longrightarrow>
        (\<exists>l < k. fc_creation_id (creates ! (order ! l)) = c))"

definition order_good :: "folder_create list \<Rightarrow> string set \<Rightarrow> nat list \<Rightarrow> bool" where
  "order_good creates placed order \<longleftrightarrow>
     placed = (\<lambda>i. fc_creation_id (creates ! i)) ` set order \<and> parents_first creates order \<and> (\<forall>i \<in> set order. resolves creates i)"

lemma parents_first_snoc:
  assumes "parents_first creates order" "\<And>c. waits_on (creates ! i) creates = Some c \<Longrightarrow> \<exists>j \<in> set order. fc_creation_id (creates ! j) = c"
  shows "parents_first creates (order @ [i])"
  unfolding parents_first_def
proof (intro allI impI)
  fix k c assume k: "k < length (order @ [i])" and w: "waits_on (creates ! ((order @ [i]) ! k)) creates = Some c"
  show "\<exists>l < k. fc_creation_id (creates ! ((order @ [i]) ! l)) = c"
  proof (cases "k < length order")
    case True
    then have "\<exists>l < k. fc_creation_id (creates ! (order ! l)) = c" using assms(1) w by (simp add: parents_first_def nth_append)
    then obtain l where "l < k" "fc_creation_id (creates ! (order ! l)) = c" by blast
    then show ?thesis using True by (intro exI [of _ l]) (simp add: nth_append)
  next
    case False
    then have "k = length order" using k by simp
    then obtain j where "j \<in> set order" "fc_creation_id (creates ! j) = c" using assms(2) w by auto
    then obtain l where "l < length order" "fc_creation_id (creates ! (order ! l)) = c" by (metis in_set_conv_nth)
    then show ?thesis using \<open>k = length order\<close> by (intro exI [of _ l]) (simp add: nth_append)
  qed
qed

lemma order_good_place:
  assumes "order_good creates placed order" "\<not> waits creates placed i" "i < length creates"
  shows "order_good creates (insert (fc_creation_id (creates ! i)) placed) (order @ [i])"
proof -
  have found: "\<exists>j \<in> set order. fc_creation_id (creates ! j) = c" if "waits_on (creates ! i) creates = Some c" for c
    using assms(1,2) that by (auto simp: order_good_def waits_def)
  have "resolves creates i"
  proof (cases "waits_on (creates ! i) creates")
    case None
    then show ?thesis using assms(3) no_reference by blast
  next
    case (Some c)
    then obtain j where "j \<in> set order" "fc_creation_id (creates ! j) = c" using found by blast
    then show ?thesis using Some assms(1,3) reference by (auto simp: order_good_def)
  qed
  moreover have "parents_first creates (order @ [i])"
    by (rule parents_first_snoc) (use assms(1) found in \<open>auto simp: order_good_def\<close>)
  ultimately show ?thesis using assms(1) by (auto simp: order_good_def)
qed

lemma order_pass_spec:
  assumes "order_pass creates placed order left = (p, o', l)" "order_good creates placed order" "set left \<subseteq> {..<length creates}"
  shows "order_good creates p o' \<and> mset o' + mset l = mset order + mset left \<and>
    (length l = length left \<longrightarrow> l = left \<and> o' = order \<and> p = placed \<and> (\<forall>i \<in> set left. waits creates placed i))"
  using assms
proof (induction left arbitrary: placed order p o' l)
  case (Cons i left)
  show ?case
  proof (cases "waits creates placed i")
    case True
    obtain p1 o1 l1 where r: "order_pass creates placed order left = (p1, o1, l1)" using prod_cases3 by blast
    then have e: "p = p1" "o' = o1" "l = i # l1" using Cons.prems(1) True by auto
    from Cons.IH [OF r Cons.prems(2)] Cons.prems(3) show ?thesis using True by (simp add: e)
  next
    case False
    then have r: "order_pass creates (insert (fc_creation_id (creates ! i)) placed) (order @ [i]) left = (p, o', l)"
      using Cons.prems(1) by simp
    have "order_good creates (insert (fc_creation_id (creates ! i)) placed) (order @ [i])"
      by (rule order_good_place) (use False Cons.prems in auto)
    note ih = Cons.IH [OF r this]
    have "length l \<le> length left" by (rule order_pass_length [OF r])
    then show ?thesis using ih Cons.prems(3) by simp
  qed
qed simp

lemma order_loop_spec:
  assumes "order_good creates placed order" "mset order + mset left = mset [0..<length creates]"
  shows "case order_loop creates placed order left of (o', l) \<Rightarrow>
    (\<exists>p. order_good creates p o' \<and> (\<forall>i \<in> set l. waits creates p i)) \<and> mset o' + mset l = mset [0..<length creates]"
  using assms
proof (induction creates placed order left rule: order_loop.induct)
  case (1 creates placed order left)
  show ?case
  proof (cases "left = []")
    case True
    then show ?thesis using 1(2,3) by (subst order_loop.simps) auto
  next
    case False
    obtain p o' l where r: "order_pass creates placed order left = (p, o', l)" using prod_cases3 by blast
    have "set_mset (mset left) \<subseteq> set_mset (mset [0..<length creates])" using 1(3) by (metis set_mset_union Un_upper2)
    then have "set left \<subseteq> {..<length creates}" by auto
    note spec = order_pass_spec [OF r 1(2) this]
    show ?thesis
    proof (cases "length l = length left")
      case True
      then show ?thesis using spec False r 1(3) by (subst order_loop.simps) auto
    next
      case False
      have "case order_loop creates p o' l of (o', l) \<Rightarrow>
          (\<exists>p. order_good creates p o' \<and> (\<forall>i \<in> set l. waits creates p i)) \<and> mset o' + mset l = mset [0..<length creates]"
        using 1(1) [OF \<open>left \<noteq> []\<close> r [symmetric] refl refl False] spec 1(3) by auto
      then show ?thesis using False \<open>left \<noteq> []\<close> r by (subst order_loop.simps) simp
    qed
  qed
qed

lemma resolves_placed:
  assumes "resolves creates i" "order_good creates p order" "\<forall>j \<in> set left. waits creates p j"
    "set order \<union> set left = {..<length creates}"
  shows "i \<in> set order"
  using assms(1)
proof induction
  case (no_reference i)
  then show ?case using assms(3,4) by (fastforce simp: waits_def)
next
  case (reference i j)
  then have "fc_creation_id (creates ! j) \<in> p" using assms(2) by (auto simp: order_good_def)
  then show ?case using reference(1,2) assms(3,4) by (fastforce simp: waits_def)
qed

lemma creation_order_mset: "mset (creation_order creates) = mset [0..<length creates]"
proof -
  obtain good bad where r: "order_loop creates {} [] [0..<length creates] = (good, bad)" by fastforce
  have "order_good creates {} []" by (simp add: order_good_def parents_first_def)
  from order_loop_spec [OF this, of "[0..<length creates]"] r show ?thesis by (simp add: creation_order_def)
qed

text \<open>
  C33: The creates of a call run with parents first. The order of \<open>creation_order\<close> names every create
  once and ends after at most one pass per create: first exactly those whose references resolve,
  each behind the create its parent names, then those that wait on each other, which fail on it.
\<close>

theorem creates_run_parents_first:
  "\<exists>good bad. creation_order creates = good @ bad \<and> distinct (good @ bad) \<and>
     set good = {i. resolves creates i} \<and> set bad = {i. i < length creates \<and> \<not> resolves creates i} \<and>
     parents_first creates good"
proof -
  obtain good bad where r: "order_loop creates {} [] [0..<length creates] = (good, bad)" by fastforce
  have "order_good creates {} []" by (simp add: order_good_def parents_first_def)
  from order_loop_spec [OF this, of "[0..<length creates]"] r obtain p
    where g: "order_good creates p good" "\<forall>i \<in> set bad. waits creates p i" and m: "mset (good @ bad) = mset [0..<length creates]" by auto
  have d: "distinct (good @ bad)" using m mset_eq_imp_distinct_iff by (metis distinct_upt)
  have sets: "set good \<union> set bad = {..<length creates}" using m by (metis atLeast0LessThan set_append set_mset_mset set_upt)
  have "set good = {i. resolves creates i}"
    using resolves_placed [OF _ g sets] g(1) by (auto simp: order_good_def)
  moreover from this have "set bad = {i. i < length creates \<and> \<not> resolves creates i}" using sets d by auto
  ultimately show ?thesis using r d g(1) by (intro exI [of _ good] exI [of _ bad]) (auto simp: creation_order_def order_good_def)
qed

end
