(* ===== verification/Folder_Plan.thy ===== *)
theory Folder_Plan
  imports Folder_Step
begin

text \<open>
  Every object of a \<open>Mailbox/set\<close> checked against the rows before a command
  (\<open>runtime/folders/plan.rs\<close>, \<open>plan/roles.rs\<close>). The hash map of the rows is an association list,
  the children counts a function that is 0 where the map has no entry. \<open>MailboxId::generate\<close> is the
  argument \<open>fresh\<close>: the id each create would take, by its place. A check that fails leaves the
  state as far as it came, so each returns the state beside its result.
\<close>

record folder_snapshot =
  fs_state :: nat
  fs_rows :: "mailbox_row list"
  fs_counts :: "mailbox_id \<rightharpoonup> nat"
  fs_done :: "mailbox_id set"
  fs_base :: mailbox_snapshot

abbreviation fs_gmail :: "folder_snapshot \<Rightarrow> bool" where "fs_gmail s \<equiv> snap_gmail (fs_base s)"

record planning =
  pg_snapshot :: folder_snapshot
  pg_rows :: "(string \<times> mailbox_row) list"
  pg_created :: "string \<rightharpoonup> mailbox_id"
  pg_references :: "string \<rightharpoonup> string"
  pg_names :: "(mailbox_id option \<times> string) set"
  pg_children :: "mailbox_id \<Rightarrow> nat"
  pg_destroying :: "string set"
  pg_roles :: "(string \<rightharpoonup> string option) option"
  pg_planned :: folder_steps

definition sibling :: "text_lib \<Rightarrow> mailbox_id option \<Rightarrow> string \<Rightarrow> bool \<Rightarrow> mailbox_id option \<times> string" where
  "sibling lib parent n gmail =
     (let n = lib_nfc lib n; n = (if gmail then to_ascii_lowercase n else n) in (parent, n))"

definition is_inbox :: "mailbox_row \<Rightarrow> bool" where
  "is_inbox row = eq_ignore_ascii_case (imap_name (facts row)) INBOX"

definition pg_sibling :: "text_lib \<Rightarrow> planning \<Rightarrow> mailbox_id option \<Rightarrow> string \<Rightarrow> mailbox_id option \<times> string" where
  "pg_sibling lib pg parent n = sibling lib parent n (fs_gmail (pg_snapshot pg))"

definition pg_row :: "planning \<Rightarrow> string \<Rightarrow> mailbox_row option" where
  "pg_row pg m = map_of (pg_rows pg) m"

definition pg_may :: "planning \<Rightarrow> mailbox_row \<Rightarrow> right \<Rightarrow> bool" where
  "pg_may pg row right = rights_of row (fs_base (pg_snapshot pg)) right"

definition resolved :: "planning \<Rightarrow> string \<Rightarrow> string" where
  "resolved pg m =
     (case folder_creation_id m of
        None \<Rightarrow> m
      | Some creation \<Rightarrow>
          (case pg_created pg creation of
             Some own \<Rightarrow> own
           | None \<Rightarrow> (case pg_references pg creation of Some r \<Rightarrow> r | None \<Rightarrow> m)))"

definition child_added :: "mailbox_id option \<Rightarrow> planning \<Rightarrow> planning" where
  "child_added parent pg =
     (case parent of None \<Rightarrow> pg | Some p \<Rightarrow> pg\<lparr>pg_children := (pg_children pg)(p := pg_children pg p + 1)\<rparr>)"

definition leave_parent :: "mailbox_id option \<Rightarrow> planning \<Rightarrow> planning" where
  "leave_parent parent pg =
     (case parent of None \<Rightarrow> pg | Some p \<Rightarrow> pg\<lparr>pg_children := (pg_children pg)(p := pg_children pg p - 1)\<rparr>)"

definition planning_new :: "text_lib \<Rightarrow> (nat \<Rightarrow> mailbox_id) \<Rightarrow> folder_snapshot \<Rightarrow> folder_ask \<Rightarrow> (string \<rightharpoonup> string) \<Rightarrow> planning" where
  "planning_new lib fresh snapshot ask references =
     (let created = map_of (rev (zip (map fc_creation_id (fa_creates ask)) (map fresh [0..<length (fa_creates ask)])));
          pg = \<lparr>pg_snapshot = snapshot,
            pg_rows = foldl (\<lambda>m row. AList.update (row_id row) row m) [] (fs_rows snapshot),
            pg_created = created, pg_references = references,
            pg_names = (\<lambda>row. sibling lib (parent_id row) (name (facts row)) (fs_gmail snapshot)) ` set (fs_rows snapshot),
            pg_children = (\<lambda>_. 0), pg_destroying = {}, pg_roles = None,
            pg_planned = \<lparr>pd_steps = [], pd_refused = []\<rparr>\<rparr>;
          pg = pg\<lparr>pg_destroying := resolved pg ` set (fa_destroys ask)\<rparr>
      in foldl (\<lambda>pg row. child_added (parent_id row) pg) pg (fs_rows snapshot))"

definition settle_step :: "nat \<Rightarrow> planning \<times> (refusal + folder_step) \<Rightarrow> planning" where
  "settle_step index r =
     (let (pg, step) = r; p = pg_planned pg
      in case step of
           Inr step \<Rightarrow> pg\<lparr>pg_planned := p\<lparr>pd_steps := pd_steps p @ [step]\<rparr>\<rparr>
         | Inl refusal \<Rightarrow> pg\<lparr>pg_planned := p\<lparr>pd_refused := pd_refused p @ [(index, refusal)]\<rparr>\<rparr>)"

subsection \<open>Roles\<close>

definition INBOX_ROLE :: string where "INBOX_ROLE = ''inbox''"

definition held_elsewhere :: "planning \<Rightarrow> string \<Rightarrow> mailbox_id option \<Rightarrow> bool" where
  "held_elsewhere pg r own =
     (case pg_roles pg of
        None \<Rightarrow> False
      | Some roles \<Rightarrow>
          list_ex (\<lambda>(_, other). Some (row_id other) \<noteq> own \<and>
            (case roles (row_id other) of None \<Rightarrow> role (facts other) | Some chosen \<Rightarrow> chosen) = Some r) (pg_rows pg))"

definition plan_role :: "planning \<Rightarrow> string option \<Rightarrow> mailbox_row option \<Rightarrow> refusal + role_override" where
  "plan_role pg r row =
     (if fs_gmail (pg_snapshot pg) \<or> (case row of None \<Rightarrow> False | Some row \<Rightarrow> is_inbox row) \<or> r = Some INBOX_ROLE then Inl Forbidden
      else case r of
        None \<Rightarrow> Inr NoRole
      | Some r \<Rightarrow>
          (if r \<notin> set ROLES \<or> (case row of None \<Rightarrow> False | Some row \<Rightarrow> \<not> selectable (facts row)) \<or>
              held_elsewhere pg r (map_option row_id row)
           then Inl (invalid_folder ''role'') else Inr (OverrideRole r)))"

definition plan_some_role :: "planning \<Rightarrow> nullable option \<Rightarrow> mailbox_row option \<Rightarrow> refusal + role_override option" where
  "plan_some_role pg r row =
     (case r of None \<Rightarrow> Inr None | Some r \<Rightarrow> and_then (plan_role pg (nullable_deref r) row) (\<lambda>c. Inr (Some c)))"

subsection \<open>Parents and names\<close>

definition plan_under :: "planning \<Rightarrow> string option \<Rightarrow> refusal + under" where
  "plan_under pg parent =
     (case parent of
        None \<Rightarrow> Inr Top
      | Some parent \<Rightarrow>
          and_then (ok_or (invalid_folder ''parentId'') (pg_row pg (resolved pg parent))) (\<lambda>row.
            if \<not> pg_may pg row CreateChild then Inl Forbidden else Inr (UnderMailbox (row_id row))))"

definition plan_name :: "text_lib \<Rightarrow> planning \<Rightarrow> string \<Rightarrow> under \<Rightarrow> refusal + string" where
  "plan_name lib pg typed up =
     (case name_new lib typed \<lparr>pl_parent = None, pl_delimiter = None\<rparr> of
        Inl e \<Rightarrow> Inl (refusal_of_name e)
      | Inr n \<Rightarrow>
          (let leaf = nn_leaf n; parent = under_id up;
               inbox = (parent = None \<and> eq_ignore_ascii_case leaf INBOX);
               crowd = (fs_gmail (pg_snapshot pg) \<and> crowded leaf)
           in if inbox \<or> crowd \<or> pg_sibling lib pg parent leaf \<in> pg_names pg then Inl (invalid_folder ''name'') else Inr leaf))"

definition parent_of :: "(string \<times> mailbox_row) list \<Rightarrow> mailbox_id \<Rightarrow> mailbox_id option" where
  "parent_of rows m = Option.bind (map_of rows m) parent_id"

text \<open>The loop of \<open>lies_under\<close>; \<open>steps\<close> is the bound the source counts down.\<close>

fun lies_under_loop :: "(string \<times> mailbox_row) list \<Rightarrow> mailbox_id \<Rightarrow> nat \<Rightarrow> mailbox_id option \<Rightarrow> bool" where
  "lies_under_loop rows ancestor steps None = False"
| "lies_under_loop rows ancestor 0 (Some found) = (found = ancestor)"
| "lies_under_loop rows ancestor (Suc steps) (Some found) =
     (found = ancestor \<or> lies_under_loop rows ancestor steps (parent_of rows found))"

definition lies_under :: "(string \<times> mailbox_row) list \<Rightarrow> mailbox_id \<Rightarrow> mailbox_id \<Rightarrow> bool" where
  "lies_under rows m ancestor = lies_under_loop rows ancestor (length rows) (Some m)"

text \<open>The loop of \<open>depth\<close>, from the parents still to count.\<close>

fun depth_loop :: "(string \<times> mailbox_row) list \<Rightarrow> nat \<Rightarrow> mailbox_id option \<Rightarrow> nat" where
  "depth_loop rows 0 current = 0"
| "depth_loop rows (Suc left) None = 0"
| "depth_loop rows (Suc left) (Some parent) = Suc (depth_loop rows left (parent_of rows parent))"

definition row_depth :: "(string \<times> mailbox_row) list \<Rightarrow> mailbox_id \<Rightarrow> nat" where
  "row_depth rows m = depth_loop rows (length rows) (parent_of rows m)"

definition followers :: "planning \<Rightarrow> mailbox_row \<Rightarrow> mailbox_id list" where
  "followers pg row =
     (let found = filter (\<lambda>other. subscribed (facts other) \<and> lies_under (pg_rows pg) (row_id other) (row_id row)) (map snd (pg_rows pg))
      in map snd (sort (map (\<lambda>other. (row_depth (pg_rows pg) (row_id other), row_id other)) found)))"

subsection \<open>One object\<close>

definition plan_create :: "text_lib \<Rightarrow> planning \<Rightarrow> nat \<Rightarrow> mailbox_id \<Rightarrow> folder_create \<Rightarrow> planning \<times> (refusal + folder_step)" where
  "plan_create lib pg index m create =
     (case and_then (plan_under pg (fc_parent create)) (\<lambda>up.
           and_then (plan_name lib pg (fc_name create) up) (\<lambda>leaf.
           and_then (plan_some_role pg (fc_role create) None) (\<lambda>chosen. Inr (up, leaf, chosen)))) of
        Inl e \<Rightarrow> (pg, Inl e)
      | Inr (up, leaf, chosen) \<Rightarrow>
          (let parent = under_id up;
               pg = pg\<lparr>pg_names := insert (pg_sibling lib pg parent leaf) (pg_names pg)\<rparr>;
               pg = child_added parent pg;
               subs = (case fc_subscribed create of None \<Rightarrow> True | Some b \<Rightarrow> b);
               step = StepCreate index m \<lparr>ng_typed = fc_name create, ng_leaf = leaf, ng_under = up\<rparr> chosen subs;
               pg = (case step_made step [] subs (fs_gmail (pg_snapshot pg)) of
                       None \<Rightarrow> pg
                     | Some row \<Rightarrow> pg\<lparr>pg_rows := AList.update (row_id row) row (pg_rows pg)\<rparr>)
           in (pg, Inr step)))"

definition plan_rename :: "text_lib \<Rightarrow> planning \<Rightarrow> mailbox_row \<Rightarrow> folder_update \<Rightarrow> planning \<times> (refusal + naming option)" where
  "plan_rename lib pg row update =
     (let typed = (case fu_name update of None \<Rightarrow> name (facts row) | Some n \<Rightarrow> n);
          parent = (case fu_parent update of None \<Rightarrow> parent_id row | Some p \<Rightarrow> nullable_deref p);
          unmoved = (parent = parent_id row)
      in if unmoved \<and> lib_nfc lib typed = lib_nfc lib (name (facts row)) then (pg, Inr None)
         else if \<not> pg_may pg row Rename then (pg, Inl Forbidden)
         else case plan_under pg parent of
           Inl e \<Rightarrow> (pg, Inl e)
         | Inr up \<Rightarrow>
             (if (case under_id up of None \<Rightarrow> False | Some parent \<Rightarrow> lies_under (pg_rows pg) parent (row_id row))
              then (pg, Inl (invalid_folder ''parentId''))
              else
                let own = pg_sibling lib pg (parent_id row) (name (facts row));
                    pg = pg\<lparr>pg_names := pg_names pg - {own}\<rparr>
                in case plan_name lib pg typed up of
                     Inl e \<Rightarrow> (pg\<lparr>pg_names := insert own (pg_names pg)\<rparr>, Inl e)
                   | Inr leaf \<Rightarrow>
                       (let parent = under_id up;
                            pg = pg\<lparr>pg_names := insert (pg_sibling lib pg parent leaf) (pg_names pg)\<rparr>;
                            pg = (if unmoved then pg else child_added parent (leave_parent (parent_id row) pg))
                        in (pg, Inr (Some \<lparr>ng_typed = typed, ng_leaf = leaf, ng_under = up\<rparr>)))))"

definition plan_update :: "text_lib \<Rightarrow> planning \<Rightarrow> nat \<Rightarrow> folder_update \<Rightarrow> planning \<times> (refusal + folder_step)" where
  "plan_update lib pg index update =
     (let m = resolved pg (fu_id update) in
      case pg_row pg m of
        None \<Rightarrow> (pg, Inl NotFound)
      | Some row \<Rightarrow>
          (if m \<in> pg_destroying pg then (pg, Inl WillDestroy)
           else case plan_some_role pg (fu_role update) (Some row) of
             Inl e \<Rightarrow> (pg, Inl e)
           | Inr chosen \<Rightarrow>
               (let held = (case chosen of Some c \<Rightarrow> override_role c \<noteq> None | None \<Rightarrow> role (facts row) \<noteq> None)
                in if fu_subscribed update = Some False \<and> (held \<or> is_inbox row) then (pg, Inl Forbidden)
                   else case plan_rename lib pg row update of
                     (pg, Inl e) \<Rightarrow> (pg, Inl e)
                   | (pg, Inr rename) \<Rightarrow>
                       (pg, Inr (StepUpdate index (row_id row) rename
                          (if rename \<noteq> None then followers pg row else [])
                          (case fu_subscribed update of Some wanted \<Rightarrow> if wanted \<noteq> subscribed (facts row) then Some wanted else None | None \<Rightarrow> None)
                          chosen)))))"

definition emails_in :: "planning \<Rightarrow> mailbox_row \<Rightarrow> nat" where
  "emails_in pg row =
     (let s = pg_snapshot pg in
      if row_id row \<in> fs_done s then (case fs_counts s (row_id row) of None \<Rightarrow> 0 | Some n \<Rightarrow> n)
      else total_emails (facts row))"

definition plan_destroy :: "planning \<Rightarrow> nat \<Rightarrow> string \<Rightarrow> bool \<Rightarrow> planning \<times> (refusal + folder_step)" where
  "plan_destroy pg index m remove_emails =
     (case pg_row pg (resolved pg m) of
        None \<Rightarrow> (pg, Inl NotFound)
      | Some row \<Rightarrow>
          (if \<not> pg_may pg row Delete then (pg, Inl Forbidden)
           else if pg_children pg (row_id row) > 0 then (pg, Inl MailboxHasChild)
           else if \<not> remove_emails \<and> emails_in pg row > 0 then (pg, Inl MailboxHasEmail)
           else (leave_parent (parent_id row) pg, Inr (StepDestroy index (row_id row) (subscribed (facts row))))))"

subsection \<open>The whole call\<close>

definition run_create :: "text_lib \<Rightarrow> folder_ask \<Rightarrow> planning \<Rightarrow> nat \<Rightarrow> planning" where
  "run_create lib ask pg index =
     (let create = fa_creates ask ! index;
          m = (case pg_created pg (fc_creation_id create) of Some m \<Rightarrow> m | None \<Rightarrow> [])
      in settle_step index (plan_create lib pg index m create))"

definition run_update :: "text_lib \<Rightarrow> folder_ask \<Rightarrow> planning \<Rightarrow> nat \<Rightarrow> planning" where
  "run_update lib ask pg offset =
     (let index = length (fa_creates ask) + offset
      in settle_step index (plan_update lib pg index (fa_updates ask ! offset)))"

definition run_destroy :: "folder_ask \<Rightarrow> planning \<Rightarrow> nat \<Rightarrow> planning" where
  "run_destroy ask pg offset =
     (let index = length (fa_creates ask) + length (fa_updates ask) + offset
      in settle_step index (plan_destroy pg index (fa_destroys ask ! offset) (fa_remove_emails ask)))"

definition planning_run :: "text_lib \<Rightarrow> folder_ask \<Rightarrow> planning \<Rightarrow> planning" where
  "planning_run lib ask pg =
     (let pg = foldl (run_create lib ask) pg (creation_order (fa_creates ask));
          pg = foldl (run_update lib ask) pg [0..<length (fa_updates ask)]
      in foldl (run_destroy ask) pg [0..<length (fa_destroys ask)])"

definition landing_roles :: "text_lib \<Rightarrow> planning \<Rightarrow> folder_ask \<Rightarrow> string \<rightharpoonup> string option" where
  "landing_roles lib start ask =
     (let run = planning_run lib ask (start\<lparr>pg_roles := None\<rparr>);
          passed = step_index ` set (pd_steps (pg_planned run))
      in map_of (rev (List.map_filter (\<lambda>offset.
           let update = fa_updates ask ! offset
           in case fu_role update of
                None \<Rightarrow> None
              | Some r \<Rightarrow> if length (fa_creates ask) + offset \<in> passed then Some (resolved run (fu_id update), nullable_deref r) else None)
           [0..<length (fa_updates ask)])))"

definition planned_call :: "text_lib \<Rightarrow> (nat \<Rightarrow> mailbox_id) \<Rightarrow> folder_snapshot \<Rightarrow> folder_ask \<Rightarrow> (string \<rightharpoonup> string) \<Rightarrow> folder_steps" where
  "planned_call lib fresh snapshot ask references =
     (let pg = planning_new lib fresh snapshot ask references;
          pg = pg\<lparr>pg_roles := Some (landing_roles lib pg ask)\<rparr>
      in pg_planned (planning_run lib ask pg))"

end
