(* ===== verification/Folder_Tree.thy ===== *)
theory Folder_Tree
  imports Folder_Plan
begin

text \<open>
  What the check of a \<open>Mailbox/set\<close> promises. The abstract state is the tree of the account: each
  mailbox with its parent and its name. A step is legal when it makes a mailbox that is not there
  under one that is, moves one under one that is, takes a name no sibling holds, or removes one
  without children. The steps the check lets through are legal one after the other.
\<close>

type_synonym tree = "mailbox_id \<rightharpoonup> mailbox_id option \<times> string"

definition tree_of :: "mailbox_row list \<Rightarrow> tree" where
  "tree_of rows = map_of (map (\<lambda>row. (row_id row, (parent_id row, name (facts row)))) rows)"

definition key_of :: "text_lib \<Rightarrow> bool \<Rightarrow> mailbox_id option \<times> string \<Rightarrow> mailbox_id option \<times> string" where
  "key_of lib gmail e = sibling lib (fst e) (snd e) gmail"

definition kids :: "tree \<Rightarrow> mailbox_id \<Rightarrow> mailbox_id set" where
  "kids t p = {c. \<exists>n. t c = Some (Some p, n)}"

definition has_parent :: "tree \<Rightarrow> mailbox_id option \<Rightarrow> bool" where
  "has_parent t p = (case p of None \<Rightarrow> True | Some m \<Rightarrow> m \<in> dom t)"

definition tree_whole :: "text_lib \<Rightarrow> bool \<Rightarrow> tree \<Rightarrow> bool" where
  "tree_whole lib gmail t \<longleftrightarrow> finite (dom t) \<and>
     (\<forall>c p n. t c = Some (p, n) \<longrightarrow> has_parent t p) \<and>
     (\<forall>c d x y. t c = Some x \<longrightarrow> t d = Some y \<longrightarrow> key_of lib gmail x = key_of lib gmail y \<longrightarrow> c = d)"

definition name_free :: "text_lib \<Rightarrow> bool \<Rightarrow> tree \<Rightarrow> mailbox_id \<Rightarrow> mailbox_id option \<times> string \<Rightarrow> bool" where
  "name_free lib gmail t m e \<longleftrightarrow> (\<forall>c x. c \<noteq> m \<longrightarrow> t c = Some x \<longrightarrow> key_of lib gmail x \<noteq> key_of lib gmail e)"

definition place_of :: "naming \<Rightarrow> mailbox_id option \<times> string" where
  "place_of ng = (under_id (ng_under ng), ng_leaf ng)"

fun tree_step :: "text_lib \<Rightarrow> bool \<Rightarrow> folder_step \<Rightarrow> tree \<Rightarrow> tree option" where
  "tree_step lib gmail (StepCreate _ m ng _ _) t =
     (if m \<notin> dom t \<and> has_parent t (fst (place_of ng)) \<and> name_free lib gmail t m (place_of ng)
      then Some (t(m \<mapsto> place_of ng)) else None)"
| "tree_step lib gmail (StepUpdate _ m None _ _ _) t = (if m \<in> dom t then Some t else None)"
| "tree_step lib gmail (StepUpdate _ m (Some ng) _ _ _) t =
     (if m \<in> dom t \<and> has_parent t (fst (place_of ng)) \<and> name_free lib gmail t m (place_of ng)
      then Some (t(m \<mapsto> place_of ng)) else None)"
| "tree_step lib gmail (StepDestroy _ m _) t = (if m \<in> dom t \<and> kids t m = {} then Some (t(m := None)) else None)"

fun tree_steps :: "text_lib \<Rightarrow> bool \<Rightarrow> folder_step list \<Rightarrow> tree \<Rightarrow> tree option" where
  "tree_steps lib gmail [] t = Some t"
| "tree_steps lib gmail (s # ss) t = Option.bind (tree_step lib gmail s t) (tree_steps lib gmail ss)"

lemma tree_steps_snoc: "tree_steps lib gmail (ss @ [s]) t = Option.bind (tree_steps lib gmail ss t) (tree_step lib gmail s)"
  by (induction ss arbitrary: t) (auto split: Option.bind_split)

lemma whole_parent: "tree_whole lib gmail t \<Longrightarrow> t c = Some (p, n) \<Longrightarrow> has_parent t p"
  unfolding tree_whole_def by blast

lemma whole_unique: "tree_whole lib gmail t \<Longrightarrow> t c = Some x \<Longrightarrow> t d = Some y \<Longrightarrow> key_of lib gmail x = key_of lib gmail y \<Longrightarrow> c = d"
  unfolding tree_whole_def by blast

lemma whole_finite: "tree_whole lib gmail t \<Longrightarrow> finite (dom t)"
  unfolding tree_whole_def by blast

lemma whole_put:
  assumes "tree_whole lib gmail t" "has_parent t (fst e)" "name_free lib gmail t m e"
  shows "tree_whole lib gmail (t(m \<mapsto> e))"
  unfolding tree_whole_def
proof (intro conjI allI impI)
  have more: "has_parent (t(m \<mapsto> e)) p" if "has_parent t p" for p using that by (auto simp: has_parent_def split: option.splits)
  show "has_parent (t(m \<mapsto> e)) p" if "(t(m \<mapsto> e)) c = Some (p, n)" for c p n
    using that whole_parent [OF assms(1), of c p n] assms(2) more by (auto split: if_splits)
  show "c = d" if "(t(m \<mapsto> e)) c = Some x" "(t(m \<mapsto> e)) d = Some y" "key_of lib gmail x = key_of lib gmail y" for c d x y
  proof (cases "c = m"; cases "d = m")
    assume "c = m" "d \<noteq> m"
    then show ?thesis using that assms(3) unfolding name_free_def by (metis fun_upd_apply option.inject)
  next
    assume "c \<noteq> m" "d = m"
    then show ?thesis using that assms(3) unfolding name_free_def by (metis fun_upd_apply option.inject)
  next
    assume "c \<noteq> m" "d \<noteq> m"
    then show ?thesis using that whole_unique [OF assms(1)] by simp
  qed simp
  show "finite (dom (t(m \<mapsto> e)))" using whole_finite [OF assms(1)] by simp
qed

lemma whole_drop:
  assumes "tree_whole lib gmail t" "kids t m = {}"
  shows "tree_whole lib gmail (t(m := None))"
  unfolding tree_whole_def
proof (intro conjI allI impI)
  show "has_parent (t(m := None)) p" if "(t(m := None)) c = Some (p, n)" for c p n
  proof -
    have "t c = Some (p, n)" using that by (auto split: if_splits)
    then have "has_parent t p" "p \<noteq> Some m" using whole_parent [OF assms(1)] assms(2) by (auto simp: kids_def)
    then show ?thesis by (auto simp: has_parent_def split: option.splits)
  qed
  show "c = d" if "(t(m := None)) c = Some x" "(t(m := None)) d = Some y" "key_of lib gmail x = key_of lib gmail y" for c d x y
    using that whole_unique [OF assms(1)] by (auto split: if_splits)
  show "finite (dom (t(m := None)))" using whole_finite [OF assms(1)] by simp
qed

lemma step_keeps_whole: "tree_step lib gmail s t = Some t' \<Longrightarrow> tree_whole lib gmail t \<Longrightarrow> tree_whole lib gmail t'"
  by (induction lib gmail s t rule: tree_step.induct) (auto split: if_splits intro: whole_put whole_drop)

lemma kids_put: "kids (t(m \<mapsto> (q, n))) p = (if q = Some p then insert m (kids t p) else kids t p - {m})"
  by (auto simp: kids_def)

lemma kids_drop: "kids (t(m := None)) p = kids t p - {m}"
  by (auto simp: kids_def)

lemma kids_finite: "finite (dom t) \<Longrightarrow> finite (kids t p)"
  by (rule finite_subset [of _ "dom t"]) (auto simp: kids_def)

subsection \<open>The rows of the check mirror the tree\<close>

definition counts_children :: "planning \<Rightarrow> tree \<Rightarrow> bool" where
  "counts_children pg t \<longleftrightarrow> (\<forall>p. pg_children pg p = card (kids t p))"

definition rows_current :: "planning \<Rightarrow> tree \<Rightarrow> mailbox_id set \<Rightarrow> bool" where
  "rows_current pg t u \<longleftrightarrow> (\<forall>m row. map_of (pg_rows pg) m = Some row \<longrightarrow> row_id row = m \<and> folder_creation_id m = None \<and>
     (m \<in> u \<longrightarrow> t m = Some (parent_id row, name (facts row))))"

definition mirrors :: "text_lib \<Rightarrow> planning \<Rightarrow> tree \<Rightarrow> mailbox_id set \<Rightarrow> bool" where
  "mirrors lib pg t u \<longleftrightarrow> tree_whole lib (fs_gmail (pg_snapshot pg)) t \<and> dom (map_of (pg_rows pg)) = dom t \<and>
     counts_children pg t \<and> rows_current pg t u \<and>
     pg_names pg = {key_of lib (fs_gmail (pg_snapshot pg)) x |c x. t c = Some x}"

definition same_call :: "planning \<Rightarrow> planning \<Rightarrow> bool" where
  "same_call pg pg' \<longleftrightarrow> pg_snapshot pg' = pg_snapshot pg \<and> pg_created pg' = pg_created pg \<and>
     pg_references pg' = pg_references pg \<and> pg_destroying pg' = pg_destroying pg \<and> pg_planned pg' = pg_planned pg \<and>
     pg_roles pg' = pg_roles pg"

lemma resolved_same: "same_call pg pg' \<Longrightarrow> resolved pg' m = resolved pg m"
  unfolding same_call_def resolved_def by (auto split: option.splits)

lemma child_added_simps [simp]:
  "pg_snapshot (child_added p pg) = pg_snapshot pg" "pg_rows (child_added p pg) = pg_rows pg"
  "pg_created (child_added p pg) = pg_created pg" "pg_references (child_added p pg) = pg_references pg"
  "pg_names (child_added p pg) = pg_names pg" "pg_destroying (child_added p pg) = pg_destroying pg"
  "pg_roles (child_added p pg) = pg_roles pg" "pg_planned (child_added p pg) = pg_planned pg"
  "pg_children (child_added p pg) = (\<lambda>q. pg_children pg q + (if p = Some q then 1 else 0))"
  by (auto simp: child_added_def split: option.splits)

lemma leave_parent_simps [simp]:
  "pg_snapshot (leave_parent p pg) = pg_snapshot pg" "pg_rows (leave_parent p pg) = pg_rows pg"
  "pg_created (leave_parent p pg) = pg_created pg" "pg_references (leave_parent p pg) = pg_references pg"
  "pg_names (leave_parent p pg) = pg_names pg" "pg_destroying (leave_parent p pg) = pg_destroying pg"
  "pg_roles (leave_parent p pg) = pg_roles pg" "pg_planned (leave_parent p pg) = pg_planned pg"
  "pg_children (leave_parent p pg) = (\<lambda>q. pg_children pg q - (if p = Some q then 1 else 0))"
  by (auto simp: leave_parent_def split: option.splits)

lemma plan_under_Inr:
  assumes "plan_under pg parent = Inr up" "mirrors lib pg t u"
  shows "has_parent t (under_id up)" "under_id up = map_option (resolved pg) parent"
proof -
  have "under_id up = None \<and> parent = None \<or>
      (\<exists>q row. parent = Some q \<and> map_of (pg_rows pg) (resolved pg q) = Some row \<and> under_id up = Some (row_id row))"
    using assms(1) by (auto simp: plan_under_def pg_row_def ok_or_def and_then_Inr_eq split: option.splits if_splits)
  moreover have "m \<in> dom t \<and> row_id row = m" if "map_of (pg_rows pg) m = Some row" for m row
    using that assms(2) unfolding mirrors_def rows_current_def by blast
  ultimately show "has_parent t (under_id up)" "under_id up = map_option (resolved pg) parent"
    by (auto simp: has_parent_def)
qed

lemma plan_name_Inr:
  "plan_name lib pg typed up = Inr leaf \<Longrightarrow> key_of lib (fs_gmail (pg_snapshot pg)) (under_id up, leaf) \<notin> pg_names pg"
  by (auto simp: plan_name_def Let_def key_of_def pg_sibling_def split: sum.splits if_splits)

lemma name_free_names:
  assumes "mirrors lib pg t u" "key_of lib (fs_gmail (pg_snapshot pg)) e \<notin> pg_names pg"
  shows "name_free lib (fs_gmail (pg_snapshot pg)) t m e"
  using assms unfolding mirrors_def name_free_def by auto

lemma mirrorsD:
  assumes "mirrors lib pg t u"
  shows "tree_whole lib (fs_gmail (pg_snapshot pg)) t" "dom (map_of (pg_rows pg)) = dom t" "counts_children pg t"
    "rows_current pg t u" "pg_names pg = {key_of lib (fs_gmail (pg_snapshot pg)) x |c x. t c = Some x}"
  using assms unfolding mirrors_def by blast+

lemma row_there:
  assumes "mirrors lib pg t u" "pg_row pg m = Some row"
  shows "row_id row = m" "folder_creation_id m = None" "m \<in> dom t" "m \<in> u \<Longrightarrow> t m = Some (parent_id row, name (facts row))"
  using mirrorsD(2,4) [OF assms(1)] assms(2) unfolding rows_current_def pg_row_def by blast+

lemma id_plain:
  assumes "mirrors lib pg t u" "q \<in> dom t"
  shows "resolved pg q = q"
proof -
  have "q \<in> dom (map_of (pg_rows pg))" using mirrorsD(2) [OF assms(1)] assms(2) by (simp only:)
  then obtain row where "map_of (pg_rows pg) q = Some row" by blast
  then have "folder_creation_id q = None" using mirrorsD(4) [OF assms(1)] unfolding rows_current_def by blast
  then show ?thesis by (simp add: resolved_def)
qed

lemma create_mirrors:
  assumes mir: "mirrors lib pg t u" and new: "m \<notin> dom t" "folder_creation_id m = None"
    and r: "plan_create lib pg index m create = (pg', Inr st)"
  shows "step_index st = index \<and> same_call pg pg' \<and>
    (\<exists>t'. tree_step lib (fs_gmail (pg_snapshot pg)) st t = Some t' \<and> mirrors lib pg' t' u \<and> dom t' = insert m (dom t))"
proof -
  let ?g = "fs_gmail (pg_snapshot pg)"
  obtain up leaf chosen where ok: "plan_under pg (fc_parent create) = Inr up" "plan_name lib pg (fc_name create) up = Inr leaf"
    "plan_some_role pg (fc_role create) None = Inr chosen"
    using r by (auto simp: plan_create_def and_then_Inr_eq split: sum.splits prod.splits)
  define subs where "subs = (case fc_subscribed create of None \<Rightarrow> True | Some b \<Rightarrow> b)"
  define ng where "ng = \<lparr>ng_typed = fc_name create, ng_leaf = leaf, ng_under = up\<rparr>"
  have place: "place_of ng = (under_id up, leaf)" by (simp add: ng_def place_of_def)
  obtain row where row: "step_made (StepCreate index m ng chosen subs) [] subs ?g = Some row"
    "row_id row = m" "parent_id row = under_id up" "name (facts row) = leaf" by (simp add: Let_def ng_def)
  have st: "st = StepCreate index m ng chosen subs"
    and pg': "pg' = (child_added (under_id up) (pg\<lparr>pg_names := insert (pg_sibling lib pg (under_id up) leaf) (pg_names pg)\<rparr>))
      \<lparr>pg_rows := AList.update m row (pg_rows pg)\<rparr>"
    using r row(1) by (auto simp: plan_create_def ok Let_def ng_def subs_def)
  define t' where "t' = t(m \<mapsto> (under_id up, leaf))"
  have up: "has_parent t (under_id up)" by (rule plan_under_Inr(1) [OF ok(1) mir])
  have free: "name_free lib ?g t m (under_id up, leaf)" by (rule name_free_names [OF mir plan_name_Inr [OF ok(2)]])
  have step: "tree_step lib ?g st t = Some t'" using up free new(1) by (simp add: st place t'_def)
  have tm: "t m = None" using new(1) unfolding domIff by blast
  have kids: "kids t' p = (if under_id up = Some p then insert m (kids t p) else kids t p)" "m \<notin> kids t p" for p
    using kids_put [of t m "under_id up" leaf p] tm by (auto simp: t'_def kids_def)
  have fin: "finite (kids t p)" for p by (rule kids_finite [OF whole_finite [OF mirrorsD(1) [OF mir]]])
  have "mirrors lib pg' t' u"
    unfolding mirrors_def
  proof (intro conjI)
    show "tree_whole lib (fs_gmail (pg_snapshot pg')) t'"
      using step_keeps_whole [OF step mirrorsD(1) [OF mir]] by (simp add: pg')
    show "dom (map_of (pg_rows pg')) = dom t'" using mirrorsD(2) [OF mir] by (simp add: pg' t'_def update_conv')
    show "counts_children pg' t'"
      using mirrorsD(3) [OF mir] fin kids by (auto simp: counts_children_def pg')
    show "rows_current pg' t' u"
      using mirrorsD(4) [OF mir] new(2) row(2-4) by (auto simp: rows_current_def pg' t'_def update_conv')
    have "{key_of lib ?g x |c x. t' c = Some x} = insert (key_of lib ?g (under_id up, leaf)) {key_of lib ?g x |c x. t c = Some x}"
      using tm unfolding t'_def by (auto split: if_splits) (metis option.distinct(1))+
    then show "pg_names pg' = {key_of lib (fs_gmail (pg_snapshot pg')) x |c x. t' c = Some x}"
      using mirrorsD(5) [OF mir] by (simp add: pg' key_of_def pg_sibling_def)
  qed
  moreover have "same_call pg pg'" by (simp add: same_call_def pg')
  moreover have "dom t' = insert m (dom t)" by (auto simp: t'_def)
  ultimately show ?thesis using step by (auto simp: st)
qed

lemma create_refused: "plan_create lib pg index m create = (pg', Inl e) \<Longrightarrow> pg' = pg"
  by (auto simp: plan_create_def Let_def split: sum.splits prod.splits option.splits)

lemma rename_mirrors:
  assumes mir: "mirrors lib pg t u" and row: "pg_row pg m = Some row" "m \<in> u"
    and r: "plan_rename lib pg row upd = (pg', Inr (Some ng))"
  shows "same_call pg pg' \<and> has_parent t (fst (place_of ng)) \<and> name_free lib (fs_gmail (pg_snapshot pg)) t m (place_of ng) \<and>
    mirrors lib pg' (t(m \<mapsto> place_of ng)) (u - {m})"
proof -
  let ?g = "fs_gmail (pg_snapshot pg)"
  define typed where "typed = (case fu_name upd of None \<Rightarrow> name (facts row) | Some n \<Rightarrow> n)"
  define parent where "parent = (case fu_parent upd of None \<Rightarrow> parent_id row | Some p \<Rightarrow> nullable_deref p)"
  define own where "own = pg_sibling lib pg (parent_id row) (name (facts row))"
  define pg1 where "pg1 = pg\<lparr>pg_names := pg_names pg - {own}\<rparr>"
  note there = row_there [OF mir row(1)]
  have tm: "t m = Some (parent_id row, name (facts row))" using there(4) row(2) by blast
  obtain up leaf where ok: "plan_under pg parent = Inr up" "plan_name lib pg1 typed up = Inr leaf"
    and pg': "pg' = (let pg2 = pg1\<lparr>pg_names := insert (pg_sibling lib pg1 (under_id up) leaf) (pg_names pg1)\<rparr>
      in if parent = parent_id row then pg2 else child_added (under_id up) (leave_parent (parent_id row) pg2))"
    and ng: "place_of ng = (under_id up, leaf)"
    using r unfolding plan_rename_def Let_def typed_def [symmetric] parent_def [symmetric] own_def [symmetric] pg1_def [symmetric]
    by (auto simp: place_of_def Let_def split: sum.splits if_splits option.splits)
  define t' where "t' = t(m \<mapsto> (under_id up, leaf))"
  note up = plan_under_Inr [OF ok(1) mir]
  have own: "own = key_of lib ?g (parent_id row, name (facts row))" by (simp add: own_def key_of_def pg_sibling_def)
  have other: "key_of lib ?g x \<in> pg_names pg1" if "c \<noteq> m" "t c = Some x" for c x
  proof -
    have "key_of lib ?g x \<noteq> own" using whole_unique [OF mirrorsD(1) [OF mir] that(2) tm] that(1) own by blast
    moreover have "key_of lib ?g x \<in> pg_names pg" unfolding mirrorsD(5) [OF mir] using that(2) by blast
    ultimately show ?thesis by (simp add: pg1_def)
  qed
  have free: "name_free lib ?g t m (under_id up, leaf)"
    using plan_name_Inr [OF ok(2)] other by (auto simp: name_free_def pg1_def) (metis)
  have kept: "parent = parent_id row \<Longrightarrow> under_id up = parent_id row"
  proof (cases "parent_id row")
    case (Some q)
    then have "q \<in> dom t" using whole_parent [OF mirrorsD(1) [OF mir] tm] by (simp add: has_parent_def)
    from id_plain [OF mir this] show "parent = parent_id row \<Longrightarrow> under_id up = parent_id row" using up(2) Some by simp
  qed (use up(2) in simp)
  have fin: "finite (kids t p)" for p by (rule kids_finite [OF whole_finite [OF mirrorsD(1) [OF mir]]])
  have inkids: "m \<in> kids t p \<longleftrightarrow> parent_id row = Some p" for p using tm by (auto simp: kids_def)
  have "mirrors lib pg' t' (u - {m})"
    unfolding mirrors_def
  proof (intro conjI)
    show "tree_whole lib (fs_gmail (pg_snapshot pg')) t'"
      using whole_put [OF mirrorsD(1) [OF mir], of "(under_id up, leaf)" m] up(1) free by (simp add: pg' pg1_def t'_def Let_def)
    show "dom (map_of (pg_rows pg')) = dom t'"
      using mirrorsD(2) [OF mir] there(3) by (auto simp: pg' pg1_def t'_def Let_def)
    show "counts_children pg' t'"
      unfolding counts_children_def
    proof
      fix p
      have c: "pg_children pg p = card (kids t p)" using mirrorsD(3) [OF mir] by (simp add: counts_children_def)
      have k: "kids t' p = (if under_id up = Some p then insert m (kids t p) else kids t p - {m})" by (simp add: t'_def kids_put)
      have pos: "parent_id row = Some p \<Longrightarrow> card (kids t p) > 0" using fin [of p] inkids [of p] by (auto simp: card_gt_0_iff)
      show "pg_children pg' p = card (kids t' p)"
        using c k kept pos fin [of p] inkids [of p]
        by (cases "parent = parent_id row"; cases "under_id up = Some p"; cases "parent_id row = Some p")
          (auto simp: pg' pg1_def Let_def card_insert_if card_Diff_singleton insert_absorb)
    qed
    show "rows_current pg' t' (u - {m})"
      using mirrorsD(4) [OF mir] by (auto simp: rows_current_def pg' pg1_def t'_def Let_def)
    have "{key_of lib ?g x |c x. t' c = Some x} = insert (key_of lib ?g (under_id up, leaf)) (pg_names pg1)"
    proof (intro equalityI subsetI)
      fix k assume "k \<in> {key_of lib ?g x |c x. t' c = Some x}"
      then show "k \<in> insert (key_of lib ?g (under_id up, leaf)) (pg_names pg1)" using other unfolding t'_def by (auto split: if_splits)
    next
      fix k assume k: "k \<in> insert (key_of lib ?g (under_id up, leaf)) (pg_names pg1)"
      show "k \<in> {key_of lib ?g x |c x. t' c = Some x}"
      proof (cases "k = key_of lib ?g (under_id up, leaf)")
        case True
        then show ?thesis unfolding t'_def by (auto intro!: exI [of _ m])
      next
        case False
        then obtain c x where c: "k = key_of lib ?g x" "t c = Some x" "k \<noteq> own"
          using k mirrorsD(5) [OF mir] by (auto simp: pg1_def)
        then have "c \<noteq> m" using tm by (auto simp: own)
        then have "t' c = Some x" using c(2) by (simp add: t'_def)
        then show ?thesis using c(1) by blast
      qed
    qed
    then show "pg_names pg' = {key_of lib (fs_gmail (pg_snapshot pg')) x |c x. t' c = Some x}"
      by (simp add: pg' pg1_def Let_def key_of_def pg_sibling_def)
  qed
  moreover have "same_call pg pg'" by (simp add: same_call_def pg' pg1_def Let_def)
  ultimately show ?thesis using up(1) free by (simp add: ng t'_def)
qed

lemma rename_same:
  assumes mir: "mirrors lib pg t u" and row: "pg_row pg m = Some row" "m \<in> u"
    and r: "plan_rename lib pg row upd = (pg', res)" "\<And>ng. res \<noteq> Inr (Some ng)"
  shows "pg' = pg"
proof -
  define own where "own = pg_sibling lib pg (parent_id row) (name (facts row))"
  have "t m = Some (parent_id row, name (facts row))" using row_there(4) [OF mir row(1)] row(2) by blast
  then have "own \<in> pg_names pg" unfolding mirrorsD(5) [OF mir] by (force simp: own_def key_of_def pg_sibling_def)
  then have "pg\<lparr>pg_names := insert own (pg_names pg - {own})\<rparr> = pg" by (simp add: insert_absorb)
  then show ?thesis
    using r unfolding plan_rename_def Let_def own_def [symmetric]
    by (auto split: if_splits sum.splits)
qed

lemma mirrors_planned [simp]: "mirrors lib (pg\<lparr>pg_planned := p\<rparr>) t u = mirrors lib pg t u"
  by (simp add: mirrors_def counts_children_def rows_current_def)

lemma mirrors_roles [simp]: "mirrors lib (pg\<lparr>pg_roles := p\<rparr>) t u = mirrors lib pg t u"
  by (simp add: mirrors_def counts_children_def rows_current_def)

lemma mirrors_less: "mirrors lib pg t u \<Longrightarrow> v \<subseteq> u \<Longrightarrow> mirrors lib pg t v"
  unfolding mirrors_def rows_current_def by blast

lemma update_mirrors:
  assumes mir: "mirrors lib pg t u" and m: "resolved pg (fu_id upd) = m" "m \<in> u"
    and r: "plan_update lib pg index upd = (pg', Inr st)"
  shows "step_index st = index \<and> same_call pg pg' \<and> m \<notin> pg_destroying pg \<and>
    (\<exists>t'. tree_step lib (fs_gmail (pg_snapshot pg)) st t = Some t' \<and> mirrors lib pg' t' (u - {m}))"
proof -
  obtain row where row: "pg_row pg m = Some row" and alive: "m \<notin> pg_destroying pg"
    using r m(1) by (auto simp: plan_update_def Let_def split: option.splits if_splits)
  obtain rename fs subs chosen where st: "st = StepUpdate index (row_id row) rename fs subs chosen"
    and rn: "plan_rename lib pg row upd = (pg', Inr rename)"
    using r m(1) row alive by (auto simp: plan_update_def Let_def split: if_splits sum.splits prod.splits)
  note there = row_there [OF mir row]
  show ?thesis
  proof (cases rename)
    case None
    then have "pg' = pg" using rename_same [OF mir row m(2) rn] by simp
    moreover have "tree_step lib (fs_gmail (pg_snapshot pg)) st t = Some t" using there(1,3) by (simp add: st None)
    ultimately show ?thesis using alive mirrors_less [OF mir, of "u - {m}"] by (simp add: st same_call_def)
  next
    case (Some ng)
    with rename_mirrors [OF mir row m(2)] rn show ?thesis using there(1,3) alive by (simp add: st Some)
  qed
qed

lemma update_refused:
  assumes mir: "mirrors lib pg t u" and m: "resolved pg (fu_id upd) = m" "m \<in> u"
    and r: "plan_update lib pg index upd = (pg', Inl e)"
  shows "pg' = pg"
proof (rule ccontr)
  assume other: "pg' \<noteq> pg"
  obtain row where row: "pg_row pg m = Some row" and rn: "plan_rename lib pg row upd = (pg', Inl e)"
    using r m(1) other by (auto simp: plan_update_def Let_def split: option.splits if_splits sum.splits prod.splits)
  from rename_same [OF mir row m(2) rn] other show False by simp
qed

subsection \<open>Destroys\<close>

definition drains :: "text_lib \<Rightarrow> planning \<Rightarrow> tree \<Rightarrow> mailbox_id set \<Rightarrow> bool" where
  "drains lib pg t u \<longleftrightarrow> tree_whole lib (fs_gmail (pg_snapshot pg)) t \<and> counts_children pg t \<and> rows_current pg t u"

lemma drains_planned [simp]: "drains lib (pg\<lparr>pg_planned := p\<rparr>) t u = drains lib pg t u"
  by (simp add: drains_def counts_children_def rows_current_def)

lemma destroy_drains:
  assumes mir: "drains lib pg t u" and m: "resolved pg i = m" "m \<in> u"
    and r: "plan_destroy pg index i remove_emails = (pg', Inr st)"
  shows "step_index st = index \<and> same_call pg pg' \<and>
    (\<exists>t'. tree_step lib (fs_gmail (pg_snapshot pg)) st t = Some t' \<and> drains lib pg' t' (u - {m}))"
proof -
  obtain row where row: "map_of (pg_rows pg) m = Some row"
    and none: "pg_children pg (row_id row) = 0" and pg': "pg' = leave_parent (parent_id row) pg"
    and st: "st = StepDestroy index (row_id row) (subscribed (facts row))"
    using r m(1) by (auto simp: plan_destroy_def pg_row_def split: option.splits if_splits)
  have there: "row_id row = m" "t m = Some (parent_id row, name (facts row))"
    using mir row m(2) by (auto simp: drains_def rows_current_def)
  have whole: "tree_whole lib (fs_gmail (pg_snapshot pg)) t" and count: "\<And>p. pg_children pg p = card (kids t p)"
    using mir by (auto simp: drains_def counts_children_def)
  have fin: "finite (kids t p)" for p by (rule kids_finite [OF whole_finite [OF whole]])
  have kids: "kids t m = {}" using none count [of m] fin [of m] there(1) by simp
  define t' where "t' = t(m := None)"
  have step: "tree_step lib (fs_gmail (pg_snapshot pg)) st t = Some t'" using there kids by (auto simp: st t'_def)
  have inkids: "m \<in> kids t p \<longleftrightarrow> parent_id row = Some p" for p using there(2) by (auto simp: kids_def)
  have "drains lib pg' t' (u - {m})"
    unfolding drains_def
  proof (intro conjI)
    show "tree_whole lib (fs_gmail (pg_snapshot pg')) t'" using step_keeps_whole [OF step whole] by (simp add: pg')
    show "counts_children pg' t'"
      using inkids fin by (auto simp: counts_children_def pg' t'_def kids_drop count card_Diff_singleton)
    show "rows_current pg' t' (u - {m})" using mir by (auto simp: drains_def rows_current_def pg' t'_def)
  qed
  then show ?thesis using step by (simp add: st same_call_def pg')
qed

lemma destroy_refused: "plan_destroy pg index i remove_emails = (pg', Inl e) \<Longrightarrow> pg' = pg"
  by (auto simp: plan_destroy_def split: option.splits if_splits)

subsection \<open>Along the parents\<close>

text \<open>The walk of \<open>lies_under\<close> stops after as many steps as there are rows; that sees every ancestor.\<close>

definition parent_rel :: "(string \<times> mailbox_row) list \<Rightarrow> (mailbox_id \<times> mailbox_id) set" where
  "parent_rel rows = {(c, p). parent_of rows c = Some p}"

lemma parent_rel_small: "finite (parent_rel rows) \<and> card (parent_rel rows) \<le> length rows"
proof -
  have sub: "parent_rel rows \<subseteq> (\<lambda>c. (c, the (parent_of rows c))) ` fst ` set rows"
    by (force simp: parent_rel_def parent_of_def dest: map_of_SomeD split: Option.bind_splits)
  then have "card (parent_rel rows) \<le> card ((\<lambda>c. (c, the (parent_of rows c))) ` fst ` set rows)" by (intro card_mono) auto
  also have "\<dots> \<le> card (set rows)" by (meson card_image_le finite_imageI finite_set order_trans)
  also have "\<dots> \<le> length rows" by (rule card_length)
  finally show ?thesis using sub finite_subset by blast
qed

lemma above_ends: "{a. (m, a) \<in> (parent_rel rows)\<^sup>+} \<subseteq> snd ` parent_rel rows"
  by (force dest: tranclD2)

lemma above_finite: "finite {a. (m, a) \<in> (parent_rel rows)\<^sup>+}"
  by (rule finite_subset [OF above_ends]) (use parent_rel_small [of rows] in simp)

lemma relpow_first: "(m, a) \<in> R ^^ Suc k \<longleftrightarrow> (\<exists>p. (m, p) \<in> R \<and> (p, a) \<in> R ^^ k)"
  by (meson relpow_Suc_D2 relpow_Suc_I2)

lemma lies_under_steps: "lies_under_loop rows a n (Some m) \<longleftrightarrow> (\<exists>k \<le> n. (m, a) \<in> parent_rel rows ^^ k)"
proof (induction n arbitrary: m)
  case 0
  then show ?case by simp
next
  case (Suc n)
  have "(\<exists>k \<le> Suc n. (m, a) \<in> parent_rel rows ^^ k) \<longleftrightarrow> m = a \<or> (\<exists>k \<le> n. (m, a) \<in> parent_rel rows ^^ Suc k)"
    by (metis Suc_le_mono le0 not0_implies_Suc relpow_0_E relpow_0_I)
  also have "\<dots> \<longleftrightarrow> m = a \<or> (\<exists>p. parent_of rows m = Some p \<and> (\<exists>k \<le> n. (p, a) \<in> parent_rel rows ^^ k))"
    unfolding relpow_first by (auto simp: parent_rel_def)
  also have "\<dots> \<longleftrightarrow> lies_under_loop rows a (Suc n) (Some m)" by (cases "parent_of rows m") (auto simp: Suc.IH)
  finally show ?case by blast
qed

lemma lies_under_reaches: "lies_under rows m a \<longleftrightarrow> (m, a) \<in> (parent_rel rows)\<^sup>*"
proof -
  have "(m, a) \<in> (parent_rel rows)\<^sup>* \<longleftrightarrow> (\<exists>k \<le> card (parent_rel rows). (m, a) \<in> parent_rel rows ^^ k)"
    using rtrancl_finite_eq_relpow [of "parent_rel rows"] parent_rel_small [of rows] by auto
  also have "\<dots> \<longleftrightarrow> (\<exists>k \<le> length rows. (m, a) \<in> parent_rel rows ^^ k)"
    using parent_rel_small [of rows] by (metis calculation order_trans relpow_imp_rtrancl)
  finally show ?thesis by (simp add: lies_under_def lies_under_steps)
qed

definition parents :: "tree \<Rightarrow> (mailbox_id \<times> mailbox_id) set" where
  "parents t = {(c, p). \<exists>n. t c = Some (Some p, n)}"

lemma parents_rows:
  assumes "mirrors lib pg t UNIV"
  shows "parent_rel (pg_rows pg) = parents t"
proof -
  have "parent_of (pg_rows pg) c = Some p \<longleftrightarrow> (\<exists>n. t c = Some (Some p, n))" for c p
  proof (cases "map_of (pg_rows pg) c")
    case None
    then have "c \<notin> dom t" using mirrorsD(2) [OF assms] by blast
    then show ?thesis using None by (simp add: parent_of_def domIff)
  next
    case (Some row)
    then have "t c = Some (parent_id row, name (facts row))"
      using mirrorsD(4) [OF assms] unfolding rows_current_def by blast
    then show ?thesis using Some by (simp add: parent_of_def)
  qed
  then show ?thesis by (simp add: parent_rel_def parents_def)
qed

text \<open>A step that moves no mailbox under one that lay below it, by the parents the updates start from.\<close>

definition step_clear :: "(mailbox_id \<times> mailbox_id) set \<Rightarrow> folder_step \<Rightarrow> bool" where
  "step_clear upward s \<longleftrightarrow>
     (case s of StepUpdate i m (Some ng) fs sub r \<Rightarrow>
        (case under_id (ng_under ng) of None \<Rightarrow> True | Some p \<Rightarrow> (p, m) \<notin> upward\<^sup>*) | _ \<Rightarrow> True)"

lemma rename_clear:
  assumes "plan_rename lib pg row upd = (pg', Inr (Some ng))"
  shows "case under_id (ng_under ng) of None \<Rightarrow> True | Some p \<Rightarrow> (p, row_id row) \<notin> (parent_rel (pg_rows pg))\<^sup>*"
  using assms by (auto simp: plan_rename_def Let_def lies_under_reaches split: if_splits sum.splits option.splits)

lemma rename_rows: "plan_rename lib pg row upd = (pg', r) \<Longrightarrow> pg_rows pg' = pg_rows pg \<and> pg_planned pg' = pg_planned pg"
  by (auto simp: plan_rename_def Let_def split: if_splits sum.splits)

fun is_create :: "folder_step \<Rightarrow> bool" where
  "is_create (StepCreate _ _ _ _ _) = True"
| "is_create _ = False"

fun is_update :: "folder_step \<Rightarrow> bool" where
  "is_update (StepUpdate _ _ _ _ _ _) = True"
| "is_update _ = False"

fun is_destroy :: "folder_step \<Rightarrow> bool" where
  "is_destroy (StepDestroy _ _ _) = True"
| "is_destroy _ = False"

lemma update_clear:
  assumes "plan_update lib pg index upd = (pg', r)"
  shows "pg_rows pg' = pg_rows pg \<and> pg_planned pg' = pg_planned pg \<and>
    (\<forall>st. r = Inr st \<longrightarrow> is_update st \<and> step_clear (parent_rel (pg_rows pg)) st)"
proof -
  have "step_clear (parent_rel (pg_rows pg)) (StepUpdate i (row_id row) x fs sub c)"
    if "plan_rename lib pg row upd = (pg', Inr x)" for i row x fs sub c
    using rename_clear [of lib pg row upd pg'] that by (cases x) (auto simp: step_clear_def)
  then show ?thesis
    using assms by (auto simp: plan_update_def Let_def dest: rename_rows split: option.splits if_splits sum.splits prod.splits)
qed

end
