(* ===== verification/Folder_Run.thy ===== *)
theory Folder_Run
  imports Folder_Tree
begin

text \<open>
  A whole \<open>Mailbox/set\<close> through its check: the three rounds of \<open>Planning::run\<close> over the tree of
  \<open>Folder_Tree\<close>, every object answered once and every step legal.
\<close>

text \<open>What a call may be: ids that are no creation ids and each object naming a mailbox of its own.\<close>

definition call_ok :: "text_lib \<Rightarrow> (nat \<Rightarrow> mailbox_id) \<Rightarrow> folder_snapshot \<Rightarrow> folder_ask \<Rightarrow> (string \<rightharpoonup> string) \<Rightarrow> bool" where
  "call_ok lib fresh snapshot ask references \<longleftrightarrow>
     (let rows = fs_rows snapshot; n = length (fa_creates ask); start = planning_new lib fresh snapshot ask references in
      distinct (map row_id rows @ map fresh [0..<n]) \<and>
      list_all (\<lambda>m. folder_creation_id m = None) (map row_id rows @ map fresh [0..<n]) \<and>
      tree_whole lib (fs_gmail snapshot) (tree_of rows) \<and>
      distinct (map fc_creation_id (fa_creates ask)) \<and>
      distinct (map (\<lambda>u. resolved start (fu_id u)) (fa_updates ask)) \<and>
      distinct (map (resolved start) (fa_destroys ask)))"

text \<open>How far a run came: the steps so far lead from the first tree to this one.\<close>

definition came_to :: "text_lib \<Rightarrow> planning \<Rightarrow> tree \<Rightarrow> nat multiset \<Rightarrow> planning \<Rightarrow> tree \<Rightarrow> bool" where
  "came_to lib start t0 answered pg t \<longleftrightarrow>
     tree_steps lib (fs_gmail (pg_snapshot start)) (pd_steps (pg_planned pg)) t0 = Some t \<and>
     pg_snapshot pg = pg_snapshot start \<and> pg_created pg = pg_created start \<and>
     pg_references pg = pg_references start \<and> pg_destroying pg = pg_destroying start \<and>
     mset (map step_index (pd_steps (pg_planned pg))) + mset (map fst (pd_refused (pg_planned pg))) = answered"

lemma came_resolved: "came_to lib start t0 answered pg t \<Longrightarrow> resolved pg m = resolved start m"
  unfolding came_to_def resolved_def by (auto split: option.splits)

lemma came_refused:
  assumes "came_to lib start t0 answered pg t"
  shows "came_to lib start t0 (add_mset i answered) (settle_step i (pg, Inl e)) t"
  using assms by (simp add: came_to_def settle_step_def Let_def)

lemma came_step:
  assumes "came_to lib start t0 answered pg t" "same_call pg pg'" "step_index st = i"
    "tree_step lib (fs_gmail (pg_snapshot pg)) st t = Some t'"
  shows "came_to lib start t0 (add_mset i answered) (settle_step i (pg', Inr st)) t'"
  using assms by (simp add: came_to_def settle_step_def Let_def same_call_def tree_steps_snoc)

lemma settle_mirrors [simp]: "mirrors lib (settle_step i (pg, r)) t u = mirrors lib pg t u"
  by (cases r) (simp_all add: settle_step_def Let_def)

lemma settle_drains [simp]: "drains lib (settle_step i (pg, r)) t u = drains lib pg t u"
  by (cases r) (simp_all add: settle_step_def Let_def)

subsection \<open>The three rounds\<close>

lemma creates_round:
  assumes "came_to lib start t0 answered pg t" "mirrors lib pg t UNIV" "distinct order"
    and "\<And>i. i \<in> set order \<Longrightarrow> pg_created start (fc_creation_id (fa_creates ask ! i)) = Some (fresh i) \<and>
      fresh i \<notin> dom t \<and> folder_creation_id (fresh i) = None"
    and "inj_on fresh (set order)"
  shows "\<exists>t'. came_to lib start t0 (answered + mset order) (foldl (run_create lib ask) pg order) t' \<and>
    mirrors lib (foldl (run_create lib ask) pg order) t' UNIV"
  using assms
proof (induction order arbitrary: pg t answered)
  case (Cons i order)
  have i: "pg_created pg (fc_creation_id (fa_creates ask ! i)) = Some (fresh i)" "fresh i \<notin> dom t" "folder_creation_id (fresh i) = None"
    using Cons.prems(1) Cons.prems(4) [of i] by (auto simp: came_to_def)
  obtain pg1 r where c: "plan_create lib pg i (fresh i) (fa_creates ask ! i) = (pg1, r)" by fastforce
  have run: "run_create lib ask pg i = settle_step i (pg1, r)" using i(1) c by (simp add: run_create_def Let_def)
  have "\<exists>t1. came_to lib start t0 (add_mset i answered) (run_create lib ask pg i) t1 \<and>
      mirrors lib (run_create lib ask pg i) t1 UNIV \<and> dom t1 \<subseteq> insert (fresh i) (dom t)"
  proof (cases r)
    case (Inl e)
    then have "pg1 = pg" using create_refused c by blast
    then show ?thesis using came_refused [OF Cons.prems(1)] Cons.prems(2) Inl by (auto simp: run)
  next
    case (Inr st)
    with create_mirrors [OF Cons.prems(2) i(2,3), of i "fa_creates ask ! i" pg1 st] c
    obtain t1 where h: "step_index st = i" "same_call pg pg1" "tree_step lib (fs_gmail (pg_snapshot pg)) st t = Some t1"
      "mirrors lib pg1 t1 UNIV" "dom t1 = insert (fresh i) (dom t)" by auto
    from came_step [OF Cons.prems(1) h(2,1,3)] h(4,5) Inr show ?thesis unfolding run by (intro exI [of _ t1]) simp
  qed
  then obtain t1 where t1: "came_to lib start t0 (add_mset i answered) (run_create lib ask pg i) t1"
    "mirrors lib (run_create lib ask pg i) t1 UNIV" "dom t1 \<subseteq> insert (fresh i) (dom t)" by blast
  have "fresh j \<notin> dom t1" if "j \<in> set order" for j
  proof -
    have "fresh j \<noteq> fresh i" using Cons.prems(3,5) that by (auto simp: inj_on_def)
    then show ?thesis using t1(3) Cons.prems(4) [of j] that by auto
  qed
  then have "\<exists>t'. came_to lib start t0 (add_mset i answered + mset order) (foldl (run_create lib ask) (run_create lib ask pg i) order) t' \<and>
      mirrors lib (foldl (run_create lib ask) (run_create lib ask pg i) order) t' UNIV"
    using Cons.prems(3-5) by (intro Cons.IH [OF t1(1,2)]) auto
  then show ?case by simp
qed auto

lemma updates_round:
  assumes "came_to lib start t0 answered pg t" "mirrors lib pg t u" "pg_destroying start \<subseteq> u"
    and "distinct (map (\<lambda>q. resolved start (fu_id (fa_updates ask ! q))) os)"
    and "\<And>q. q \<in> set os \<Longrightarrow> resolved start (fu_id (fa_updates ask ! q)) \<in> u"
  shows "\<exists>t'. came_to lib start t0 (answered + mset (map (\<lambda>q. length (fa_creates ask) + q) os)) (foldl (run_update lib ask) pg os) t' \<and>
    mirrors lib (foldl (run_update lib ask) pg os) t' (pg_destroying start)"
  using assms
proof (induction os arbitrary: pg t answered u)
  case Nil
  then show ?case using mirrors_less by auto
next
  case (Cons x os)
  define i where "i = length (fa_creates ask) + x"
  define m where "m = resolved start (fu_id (fa_updates ask ! x))"
  have m: "resolved pg (fu_id (fa_updates ask ! x)) = m" "m \<in> u"
    using came_resolved [OF Cons.prems(1)] Cons.prems(5) by (simp_all add: m_def)
  obtain pg1 r where c: "plan_update lib pg i (fa_updates ask ! x) = (pg1, r)" by fastforce
  have run: "run_update lib ask pg x = settle_step i (pg1, r)" using c by (simp add: run_update_def Let_def i_def)
  have destroying: "pg_destroying pg = pg_destroying start" using Cons.prems(1) by (simp add: came_to_def)
  have "\<exists>t1 v. came_to lib start t0 (add_mset i answered) (run_update lib ask pg x) t1 \<and>
      mirrors lib (run_update lib ask pg x) t1 v \<and> pg_destroying start \<subseteq> v \<and> u - {m} \<subseteq> v"
  proof (cases r)
    case (Inl e)
    then have "pg1 = pg" using update_refused [OF Cons.prems(2) m] c by blast
    then show ?thesis using came_refused [OF Cons.prems(1)] Cons.prems(2,3) Inl by (auto simp: run)
  next
    case (Inr st)
    with update_mirrors [OF Cons.prems(2) m, of i pg1 st] c
    obtain t1 where h: "step_index st = i" "same_call pg pg1" "tree_step lib (fs_gmail (pg_snapshot pg)) st t = Some t1"
      "mirrors lib pg1 t1 (u - {m})" "m \<notin> pg_destroying pg" by auto
    have "pg_destroying start \<subseteq> u - {m}" using Cons.prems(3) destroying h(5) by auto
    with came_step [OF Cons.prems(1) h(2,1,3)] h(4) Inr show ?thesis
      unfolding run by (intro exI [of _ t1] exI [of _ "u - {m}"]) simp
  qed
  then obtain t1 v where t1: "came_to lib start t0 (add_mset i answered) (run_update lib ask pg x) t1"
    "mirrors lib (run_update lib ask pg x) t1 v" "pg_destroying start \<subseteq> v" "u - {m} \<subseteq> v" by blast
  have "\<exists>t'. came_to lib start t0 (add_mset i answered + mset (map (\<lambda>q. length (fa_creates ask) + q) os))
        (foldl (run_update lib ask) (run_update lib ask pg x) os) t' \<and>
      mirrors lib (foldl (run_update lib ask) (run_update lib ask pg x) os) t' (pg_destroying start)"
  proof (rule Cons.IH [OF t1(1-3)])
    show "distinct (map (\<lambda>q. resolved start (fu_id (fa_updates ask ! q))) os)" using Cons.prems(4) by simp
    show "resolved start (fu_id (fa_updates ask ! q')) \<in> v" if "q' \<in> set os" for q'
    proof -
      have "resolved start (fu_id (fa_updates ask ! q')) \<noteq> m" using that Cons.prems(4) by (force simp: m_def)
      then show ?thesis using that t1(4) Cons.prems(5) [of q'] by auto
    qed
  qed
  then show ?case by (simp add: i_def)
qed

lemma destroys_round:
  assumes "came_to lib start t0 answered pg t" "drains lib pg t u"
    and "distinct (map (\<lambda>q. resolved start (fa_destroys ask ! q)) os)"
    and "\<And>q. q \<in> set os \<Longrightarrow> resolved start (fa_destroys ask ! q) \<in> u"
  shows "\<exists>t'. came_to lib start t0 (answered + mset (map (\<lambda>q. length (fa_creates ask) + length (fa_updates ask) + q) os))
      (foldl (run_destroy ask) pg os) t' \<and> tree_whole lib (fs_gmail (pg_snapshot start)) t'"
  using assms
proof (induction os arbitrary: pg t answered u)
  case Nil
  then show ?case by (auto simp: drains_def came_to_def)
next
  case (Cons x os)
  define i where "i = length (fa_creates ask) + length (fa_updates ask) + x"
  define m where "m = resolved start (fa_destroys ask ! x)"
  have m: "resolved pg (fa_destroys ask ! x) = m" "m \<in> u"
    using came_resolved [OF Cons.prems(1)] Cons.prems(4) by (simp_all add: m_def)
  obtain pg1 r where c: "plan_destroy pg i (fa_destroys ask ! x) (fa_remove_emails ask) = (pg1, r)" by fastforce
  have run: "run_destroy ask pg x = settle_step i (pg1, r)" using c by (simp add: run_destroy_def Let_def i_def)
  have "\<exists>t1. came_to lib start t0 (add_mset i answered) (run_destroy ask pg x) t1 \<and>
      drains lib (run_destroy ask pg x) t1 (u - {m})"
  proof (cases r)
    case (Inl e)
    then have "pg1 = pg" using destroy_refused c by blast
    moreover have "drains lib pg t (u - {m})" using Cons.prems(2) by (auto simp: drains_def rows_current_def)
    ultimately show ?thesis using came_refused [OF Cons.prems(1)] Inl by (auto simp: run)
  next
    case (Inr st)
    with destroy_drains [OF Cons.prems(2) m, of i "fa_remove_emails ask" pg1 st] c
    obtain t1 where h: "step_index st = i" "same_call pg pg1" "tree_step lib (fs_gmail (pg_snapshot pg)) st t = Some t1"
      "drains lib pg1 t1 (u - {m})" by auto
    from came_step [OF Cons.prems(1) h(2,1,3)] h(4) Inr show ?thesis unfolding run by (intro exI [of _ t1]) simp
  qed
  then obtain t1 where t1: "came_to lib start t0 (add_mset i answered) (run_destroy ask pg x) t1"
    "drains lib (run_destroy ask pg x) t1 (u - {m})" by blast
  have "\<exists>t'. came_to lib start t0 (add_mset i answered + mset (map (\<lambda>q. length (fa_creates ask) + length (fa_updates ask) + q) os))
        (foldl (run_destroy ask) (run_destroy ask pg x) os) t' \<and> tree_whole lib (fs_gmail (pg_snapshot start)) t'"
  proof (rule Cons.IH [OF t1])
    show "distinct (map (\<lambda>q. resolved start (fa_destroys ask ! q)) os)" using Cons.prems(3) by simp
    show "resolved start (fa_destroys ask ! q') \<in> u - {m}" if "q' \<in> set os" for q'
    proof -
      have "resolved start (fa_destroys ask ! q') \<noteq> m" using that Cons.prems(3) by (force simp: m_def)
      then show ?thesis using that Cons.prems(4) [of q'] by auto
    qed
  qed
  then show ?case by (simp add: i_def)
qed


subsection \<open>The start\<close>

lemma rows_fold: "map_of (foldl (\<lambda>m row. AList.update (row_id row) row m) acc rows) =
    map_of acc ++ map_of (rev (map (\<lambda>row. (row_id row, row)) rows))"
proof (induction rows arbitrary: acc)
  case (Cons row rows)
  show ?case by (simp add: Cons update_conv' map_add_upd_left [symmetric]) (auto simp: map_add_def split: option.splits)
qed simp

lemma children_fold:
  "foldl (\<lambda>pg row. child_added (parent_id row) pg) pg rows =
     pg\<lparr>pg_children := \<lambda>p. pg_children pg p + length (filter (\<lambda>row. parent_id row = Some p) rows)\<rparr>"
  by (induction rows arbitrary: pg) (auto simp: child_added_def fun_eq_iff split: option.splits)

lemma rows_at:
  "distinct (map row_id rows) \<Longrightarrow>
     map_of (map (\<lambda>row. (row_id row, f row)) rows) c = Some x \<longleftrightarrow> (\<exists>row \<in> set rows. row_id row = c \<and> f row = x)"
  by (subst map_of_eq_Some_iff) (auto simp: o_def)

lemma map_of_rev_distinct:
  assumes "distinct (map fst xs)"
  shows "map_of (rev xs) = map_of xs"
proof
  fix k
  have "map_of (rev xs) k = Some v \<longleftrightarrow> map_of xs k = Some v" for v
    using assms by (simp add: map_of_eq_Some_iff rev_map [symmetric])
  then show "map_of (rev xs) k = map_of xs k" by (metis not_None_eq)
qed

lemma resolved_cong: "pg_created a = pg_created b \<Longrightarrow> pg_references a = pg_references b \<Longrightarrow> resolved a = resolved b"
  unfolding resolved_def by presburger

lemma kids_rows:
  assumes "distinct (map row_id rows)"
  shows "card (kids (tree_of rows) p) = length (filter (\<lambda>row. parent_id row = Some p) rows)"
proof -
  have "kids (tree_of rows) p = row_id ` set (filter (\<lambda>row. parent_id row = Some p) rows)"
    unfolding kids_def tree_of_def rows_at [OF assms] by auto
  moreover have "distinct (map row_id (filter (\<lambda>row. parent_id row = Some p) rows))" using assms by (rule distinct_map_filter)
  ultimately show ?thesis by (metis distinct_card length_map set_map)
qed

lemma planning_new_mirrors:
  assumes d: "distinct (map row_id (fs_rows snapshot))" and plain: "\<forall>row \<in> set (fs_rows snapshot). folder_creation_id (row_id row) = None"
    and whole: "tree_whole lib (fs_gmail snapshot) (tree_of (fs_rows snapshot))"
  shows "mirrors lib (planning_new lib fresh snapshot ask references) (tree_of (fs_rows snapshot)) UNIV"
proof -
  let ?rows = "fs_rows snapshot" and ?pg = "planning_new lib fresh snapshot ask references"
  note at = rows_at [OF d]
  have "map_of (rev (map (\<lambda>row. (row_id row, row)) ?rows)) = map_of (map (\<lambda>row. (row_id row, row)) ?rows)"
    using d by (intro map_of_rev_distinct) (simp add: o_def)
  then have rows: "map_of (pg_rows ?pg) = map_of (map (\<lambda>row. (row_id row, row)) ?rows)"
    by (simp add: planning_new_def Let_def children_fold rows_fold)
  have snap: "pg_snapshot ?pg = snapshot" by (simp add: planning_new_def Let_def children_fold)
  show ?thesis
    unfolding mirrors_def snap
  proof (intro conjI)
    show "tree_whole lib (fs_gmail snapshot) (tree_of ?rows)" by (rule whole)
    show "dom (map_of (pg_rows ?pg)) = dom (tree_of ?rows)" unfolding rows by (simp add: tree_of_def dom_map_of_conv_image_fst image_image)
    show "counts_children ?pg (tree_of ?rows)"
      by (simp add: counts_children_def planning_new_def Let_def children_fold kids_rows [OF d])
    show "rows_current ?pg (tree_of ?rows) UNIV"
      using plain unfolding rows_current_def rows at tree_of_def by auto
    have "pg_names ?pg = (\<lambda>row. key_of lib (fs_gmail snapshot) (parent_id row, name (facts row))) ` set ?rows"
      by (simp add: planning_new_def Let_def children_fold key_of_def)
    also have "\<dots> = {key_of lib (fs_gmail snapshot) x |c x. tree_of ?rows c = Some x}"
      unfolding tree_of_def at by blast
    finally show "pg_names ?pg = {key_of lib (fs_gmail snapshot) x |c x. tree_of ?rows c = Some x}" .
  qed
qed

lemma map_each_nth: "map (\<lambda>q. f (xs ! q)) [0..<length xs] = map f xs"
  by (rule nth_equalityI) auto

lemma three_rounds: "mset [0..<a] + mset (map (\<lambda>q. a + q) [0..<b]) + mset (map (\<lambda>q. a + b + q) [0..<c]) = mset [0..<a + b + c]"
proof -
  have "map (\<lambda>q. n + q) [0..<m] = [n..<n + m]" for n m by (induction m) auto
  moreover have "[0..<a + b + c] = [0..<a] @ [a..<a + b] @ [a + b..<a + b + c]"
    using upt_add_eq_append [of 0 "a + b" c] upt_add_eq_append [of 0 a b] by simp
  ultimately show ?thesis by simp
qed

subsection \<open>The parents the moves are checked against\<close>

lemma rounds_append:
  assumes "\<And>(pg :: planning) x. Q pg \<Longrightarrow> \<exists>ss. pd_steps (pg_planned (f pg x)) = pd_steps (pg_planned pg) @ ss \<and> list_all P ss \<and> Q (f pg x)"
    and "Q pg"
  shows "\<exists>ss. pd_steps (pg_planned (foldl f pg xs)) = pd_steps (pg_planned pg) @ ss \<and> list_all P ss"
  using assms(2)
proof (induction xs arbitrary: pg)
  case (Cons x xs)
  obtain ss where ss: "pd_steps (pg_planned (f pg x)) = pd_steps (pg_planned pg) @ ss" "list_all P ss" "Q (f pg x)"
    using assms(1) [OF Cons.prems] by blast
  from Cons.IH [OF ss(3)] ss(1,2) show ?case by auto
qed simp

lemma settle_appends:
  assumes "pg_planned pg' = pg_planned pg" "\<And>st. r = Inr st \<Longrightarrow> P st"
  shows "\<exists>ss. pd_steps (pg_planned (settle_step i (pg', r))) = pd_steps (pg_planned pg) @ ss \<and> list_all P ss"
  using assms by (cases r) (simp_all add: settle_step_def Let_def)

lemma settle_rows [simp]: "pg_rows (settle_step i (pg, r)) = pg_rows pg"
  by (cases r) (simp_all add: settle_step_def Let_def)

lemma creates_append:
  "\<exists>ss. pd_steps (pg_planned (foldl (run_create lib ask) pg os)) = pd_steps (pg_planned pg) @ ss \<and> list_all is_create ss"
proof (rule rounds_append [where Q = "\<lambda>_. True"])
  fix pg :: planning and x
  let ?m = "case pg_created pg (fc_creation_id (fa_creates ask ! x)) of Some m \<Rightarrow> m | None \<Rightarrow> []"
  obtain pg' r where c: "plan_create lib pg x ?m (fa_creates ask ! x) = (pg', r)" by fastforce
  then have "pg_planned pg' = pg_planned pg" "\<And>st. r = Inr st \<Longrightarrow> is_create st"
    by (auto simp: plan_create_def Let_def split: sum.splits)
  from settle_appends [OF this] c
  show "\<exists>ss. pd_steps (pg_planned (run_create lib ask pg x)) = pd_steps (pg_planned pg) @ ss \<and> list_all is_create ss \<and> True"
    by (simp add: run_create_def Let_def)
qed simp

lemma updates_append:
  "\<exists>ss. pd_steps (pg_planned (foldl (run_update lib ask) pg os)) = pd_steps (pg_planned pg) @ ss \<and>
     list_all (\<lambda>s. is_update s \<and> step_clear (parent_rel (pg_rows pg)) s) ss"
proof (rule rounds_append [where Q = "\<lambda>q. pg_rows q = pg_rows pg"])
  fix q :: planning and x assume rows: "pg_rows q = pg_rows pg"
  obtain q' r where c: "plan_update lib q (length (fa_creates ask) + x) (fa_updates ask ! x) = (q', r)" by fastforce
  note u = update_clear [OF c]
  have "\<And>st. r = Inr st \<Longrightarrow> is_update st \<and> step_clear (parent_rel (pg_rows pg)) st" using u rows by simp
  from settle_appends [of q' q r, OF _ this] u c rows
  show "\<exists>ss. pd_steps (pg_planned (run_update lib ask q x)) = pd_steps (pg_planned q) @ ss \<and>
      list_all (\<lambda>s. is_update s \<and> step_clear (parent_rel (pg_rows pg)) s) ss \<and> pg_rows (run_update lib ask q x) = pg_rows pg"
    by (simp add: run_update_def Let_def)
qed simp

lemma destroys_append:
  "\<exists>ss. pd_steps (pg_planned (foldl (run_destroy ask) pg os)) = pd_steps (pg_planned pg) @ ss \<and> list_all is_destroy ss"
proof (rule rounds_append [where Q = "\<lambda>_. True"])
  fix pg :: planning and x
  let ?i = "length (fa_creates ask) + length (fa_updates ask) + x"
  obtain pg' r where c: "plan_destroy pg ?i (fa_destroys ask ! x) (fa_remove_emails ask) = (pg', r)" by fastforce
  then have "pg_planned pg' = pg_planned pg" "\<And>st. r = Inr st \<Longrightarrow> is_destroy st"
    by (auto simp: plan_destroy_def split: option.splits if_splits)
  from settle_appends [OF this] c
  show "\<exists>ss. pd_steps (pg_planned (run_destroy ask pg x)) = pd_steps (pg_planned pg) @ ss \<and> list_all is_destroy ss \<and> True"
    by (simp add: run_destroy_def Let_def)
qed simp

text \<open>
  A tree whose parents run in no circle. Creates and destroys never close one; a move can only when
  another move of the call changed the parents it is checked against.
\<close>

definition circle_free :: "tree \<Rightarrow> bool" where
  "circle_free t \<longleftrightarrow> acyclic (parents t)"

fun moves_made :: "text_lib \<Rightarrow> bool \<Rightarrow> folder_step list \<Rightarrow> tree \<Rightarrow> nat" where
  "moves_made lib gmail [] t = 0"
| "moves_made lib gmail (s # ss) t =
     (case tree_step lib gmail s t of
        None \<Rightarrow> 0
      | Some t' \<Rightarrow> (if is_update s \<and> parents t' \<noteq> parents t then 1 else 0) + moves_made lib gmail ss t')"

lemma steps_append: "tree_steps lib g (xs @ ys) t = Option.bind (tree_steps lib g xs t) (tree_steps lib g ys)"
  by (induction xs arbitrary: t) (auto split: Option.bind_split)

lemma moves_append:
  "tree_steps lib g xs t = Some t' \<Longrightarrow> moves_made lib g (xs @ ys) t = moves_made lib g xs t + moves_made lib g ys t'"
  by (induction xs arbitrary: t) (auto split: Option.bind_splits)

lemma create_circle_free:
  assumes "tree_step lib g s t = Some t'" "is_create s" "tree_whole lib g t" "circle_free t"
  shows "circle_free t'"
proof -
  obtain i m ng r sub where s: "s = StepCreate i m ng r sub" using assms(2) by (cases s) auto
  have m: "m \<notin> dom t" and up: "has_parent t (under_id (ng_under ng))" and t': "t' = t(m \<mapsto> place_of ng)"
    using assms(1) s by (auto simp: place_of_def split: if_splits)
  have none: "(c, m) \<notin> parents t" for c
    using whole_parent [OF assms(3), of c "Some m"] m by (auto simp: parents_def has_parent_def)
  show ?thesis
  proof (cases "under_id (ng_under ng)")
    case None
    then have "parents t' \<subseteq> parents t" by (auto simp: t' parents_def place_of_def split: if_splits)
    then show ?thesis using assms(4) acyclic_subset by (auto simp: circle_free_def)
  next
    case (Some p)
    then have "parents t' \<subseteq> insert (m, p) (parents t)" by (auto simp: t' parents_def place_of_def split: if_splits)
    moreover have "(p, m) \<notin> (parents t)\<^sup>*" using up Some m none by (auto simp: has_parent_def elim: rtranclE)
    moreover have "acyclic (insert (m, p) (parents t))"
      using assms(4) \<open>(p, m) \<notin> (parents t)\<^sup>*\<close> by (simp add: circle_free_def acyclic_insert)
    ultimately show ?thesis unfolding circle_free_def using acyclic_subset by blast
  qed
qed

lemma update_circle_free:
  assumes "tree_step lib g s t = Some t'" "is_update s" "step_clear (parents t) s" "circle_free t"
  shows "circle_free t'"
proof -
  obtain i m x fs sub r where s: "s = StepUpdate i m x fs sub r" using assms(2) by (cases s) auto
  show ?thesis
  proof (cases x)
    case None
    then show ?thesis using assms(1,4) s by (auto split: if_splits)
  next
    case (Some ng)
    have t': "t' = t(m \<mapsto> place_of ng)" using assms(1) s Some by (auto split: if_splits)
    have "parents t' \<subseteq> (case under_id (ng_under ng) of None \<Rightarrow> parents t | Some p \<Rightarrow> insert (m, p) (parents t))"
      by (auto simp: t' parents_def place_of_def split: option.splits if_splits)
    moreover have "acyclic (case under_id (ng_under ng) of None \<Rightarrow> parents t | Some p \<Rightarrow> insert (m, p) (parents t))"
      using assms(3,4) s Some by (auto simp: step_clear_def circle_free_def acyclic_insert split: option.splits)
    ultimately show ?thesis using acyclic_subset by (auto simp: circle_free_def)
  qed
qed

lemma destroy_circle_free:
  assumes "tree_step lib g s t = Some t'" "is_destroy s" "circle_free t"
  shows "circle_free t'"
proof -
  have "parents t' \<subseteq> parents t" using assms(1,2) by (cases s) (auto simp: parents_def split: if_splits)
  then show ?thesis using assms(3) acyclic_subset by (auto simp: circle_free_def)
qed

lemma creates_circle_free:
  "tree_steps lib g ss t = Some t' \<Longrightarrow> list_all is_create ss \<Longrightarrow> tree_whole lib g t \<Longrightarrow> circle_free t \<Longrightarrow> circle_free t'"
  by (induction ss arbitrary: t) (auto split: Option.bind_splits dest: create_circle_free step_keeps_whole)

lemma destroys_circle_free:
  "tree_steps lib g ss t = Some t' \<Longrightarrow> list_all is_destroy ss \<Longrightarrow> circle_free t \<Longrightarrow> circle_free t'"
  by (induction ss arbitrary: t) (auto split: Option.bind_splits dest: destroy_circle_free)

lemma unmoved_parents:
  "tree_steps lib g ss t = Some t' \<Longrightarrow> list_all is_update ss \<Longrightarrow> moves_made lib g ss t = 0 \<Longrightarrow> parents t' = parents t"
  by (induction ss arbitrary: t) (auto split: Option.bind_splits if_splits)

lemma updates_circle_free:
  assumes "tree_steps lib g ss t = Some t'" "list_all (\<lambda>s. is_update s \<and> step_clear upward s) ss" "parents t = upward"
    and "moves_made lib g ss t \<le> 1" "circle_free t"
  shows "circle_free t'"
  using assms
proof (induction ss arbitrary: t)
  case (Cons s ss)
  obtain t1 where t1: "tree_step lib g s t = Some t1" "tree_steps lib g ss t1 = Some t'"
    using Cons.prems(1) by (auto split: Option.bind_splits)
  have free: "circle_free t1" using update_circle_free [OF t1(1)] Cons.prems(2,3,5) by simp
  show ?case
  proof (cases "parents t1 = parents t")
    case True
    then show ?thesis using Cons.IH [OF t1(2)] Cons.prems free t1(1) by simp
  next
    case False
    then have "parents t' = parents t1"
      using unmoved_parents [OF t1(2)] Cons.prems(2,4) t1(1) by (auto simp: list_all_iff)
    then show ?thesis using free by (simp add: circle_free_def)
  qed
qed simp

lemma planned_steps_legal:
  assumes "call_ok lib fresh snapshot ask references"
    and "planned_call lib fresh snapshot ask references = p"
  shows "\<exists>t. tree_steps lib (fs_gmail snapshot) (pd_steps p) (tree_of (fs_rows snapshot)) = Some t \<and>
     tree_whole lib (fs_gmail snapshot) t \<and>
     mset (map step_index (pd_steps p)) + mset (map fst (pd_refused p)) =
       mset [0..<length (fa_creates ask) + length (fa_updates ask) + length (fa_destroys ask)] \<and>
     (\<exists>cs us ds t1. pd_steps p = cs @ us @ ds \<and> tree_steps lib (fs_gmail snapshot) cs (tree_of (fs_rows snapshot)) = Some t1 \<and>
        list_all is_create cs \<and> list_all (\<lambda>s. is_update s \<and> step_clear (parents t1) s) us \<and> list_all is_destroy ds)"
proof -
  let ?n = "length (fa_creates ask)" and ?rows = "fs_rows snapshot"
  define start where "start = planning_new lib fresh snapshot ask references"
  note ok = assms(1) [unfolded call_ok_def Let_def, folded start_def]
  have d: "distinct (map row_id ?rows)" "distinct (map fresh [0..<?n])" "row_id ` set ?rows \<inter> fresh ` {0..<?n} = {}"
    "\<forall>row \<in> set ?rows. folder_creation_id (row_id row) = None" "\<And>i. i < ?n \<Longrightarrow> folder_creation_id (fresh i) = None"
    using ok by (auto simp: list_all_iff)
  have snap: "pg_snapshot start = snapshot" and planned0: "pd_steps (pg_planned start) = []" "pd_refused (pg_planned start) = []"
    and created: "pg_created start = map_of (rev (zip (map fc_creation_id (fa_creates ask)) (map fresh [0..<?n])))"
    by (simp_all add: start_def planning_new_def Let_def children_fold)
  have destroying: "pg_destroying start = resolved start ` set (fa_destroys ask)"
    unfolding start_def planning_new_def Let_def children_fold planning.simps
    by (intro arg_cong [of _ _ "\<lambda>f. f ` set (fa_destroys ask)"] resolved_cong) simp_all
  define start2 where "start2 = start\<lparr>pg_roles := Some (landing_roles lib start ask)\<rparr>"
  have whole: "tree_whole lib (fs_gmail snapshot) (tree_of ?rows)" using ok by blast
  have mir0: "mirrors lib start2 (tree_of ?rows) UNIV"
    using planning_new_mirrors [OF d(1,4) whole] by (simp add: start2_def start_def)
  have came0: "came_to lib start (tree_of ?rows) {#} start2 (tree_of ?rows)"
    by (simp add: came_to_def start2_def planned0)
  have set_order: "set (creation_order (fa_creates ask)) = {0..<?n}"
    using creation_order_mset [of "fa_creates ask"] by (metis set_mset_mset set_upt)
  have "distinct (creation_order (fa_creates ask))"
    using creation_order_mset [of "fa_creates ask"] mset_eq_imp_distinct_iff by (metis distinct_upt)
  moreover have "pg_created start (fc_creation_id (fa_creates ask ! i)) = Some (fresh i)" if "i < ?n" for i
  proof -
    have "distinct (map fst (rev (zip (map fc_creation_id (fa_creates ask)) (map fresh [0..<?n]))))"
      using ok by (simp flip: rev_map)
    moreover have "(fc_creation_id (fa_creates ask ! i), fresh i) \<in> set (zip (map fc_creation_id (fa_creates ask)) (map fresh [0..<?n]))"
      using that by (auto simp: set_zip intro!: exI [of _ i])
    ultimately show ?thesis by (simp add: created map_of_eq_Some_iff)
  qed
  moreover have "fresh i \<notin> dom (tree_of ?rows)" if "i < ?n" for i
  proof -
    have "fresh i \<in> fresh ` {0..<?n}" using that by simp
    then have "fresh i \<notin> row_id ` set ?rows" using d(3) by blast
    then show ?thesis by (auto simp: tree_of_def dom_map_of_conv_image_fst)
  qed
  moreover have "inj_on fresh (set (creation_order (fa_creates ask)))"
    using d(2) unfolding set_order by (simp add: distinct_map)
  ultimately obtain t1 where t1: "came_to lib start (tree_of ?rows) ({#} + mset (creation_order (fa_creates ask)))
      (foldl (run_create lib ask) start2 (creation_order (fa_creates ask))) t1"
    "mirrors lib (foldl (run_create lib ask) start2 (creation_order (fa_creates ask))) t1 UNIV"
    using creates_round [OF came0 mir0, of "creation_order (fa_creates ask)" ask fresh] d(5) set_order by auto
  define pg1 where "pg1 = foldl (run_create lib ask) start2 (creation_order (fa_creates ask))"
  have du: "distinct (map (\<lambda>q. resolved start (fu_id (fa_updates ask ! q))) [0..<length (fa_updates ask)])"
    "distinct (map (\<lambda>q. resolved start (fa_destroys ask ! q)) [0..<length (fa_destroys ask)])"
    unfolding map_each_nth [of "\<lambda>u. resolved start (fu_id u)"] map_each_nth [of "resolved start"] using ok by blast+
  obtain t2 where t2: "came_to lib start (tree_of ?rows) ({#} + mset (creation_order (fa_creates ask)) +
        mset (map (\<lambda>q. ?n + q) [0..<length (fa_updates ask)]))
      (foldl (run_update lib ask) pg1 [0..<length (fa_updates ask)]) t2"
    "mirrors lib (foldl (run_update lib ask) pg1 [0..<length (fa_updates ask)]) t2 (pg_destroying start)"
    using updates_round [OF t1 [folded pg1_def], of ask "[0..<length (fa_updates ask)]"] du(1) by auto
  define pg2 where "pg2 = foldl (run_update lib ask) pg1 [0..<length (fa_updates ask)]"
  have "drains lib pg2 t2 (pg_destroying start)" using mirrorsD(1,3,4) [OF t2(2)] by (simp add: drains_def pg2_def)
  from destroys_round [OF t2(1) [folded pg2_def] this du(2)] destroying obtain t3 where
    t3: "came_to lib start (tree_of ?rows) ({#} + mset (creation_order (fa_creates ask)) +
        mset (map (\<lambda>q. ?n + q) [0..<length (fa_updates ask)]) +
        mset (map (\<lambda>q. ?n + length (fa_updates ask) + q) [0..<length (fa_destroys ask)]))
      (foldl (run_destroy ask) pg2 [0..<length (fa_destroys ask)]) t3" "tree_whole lib (fs_gmail snapshot) t3"
    by (auto simp: snap)
  have p: "p = pg_planned (foldl (run_destroy ask) pg2 [0..<length (fa_destroys ask)])"
    using assms(2) by (simp add: planned_call_def planning_run_def Let_def pg1_def pg2_def start2_def start_def)
  obtain cs where cs: "pd_steps (pg_planned pg1) = cs" "list_all is_create cs"
    using creates_append [of lib ask start2 "creation_order (fa_creates ask)"] by (auto simp: pg1_def start2_def planned0)
  obtain us where us: "pd_steps (pg_planned pg2) = cs @ us" "list_all (\<lambda>s. is_update s \<and> step_clear (parents t1) s) us"
    using updates_append [of lib ask pg1 "[0..<length (fa_updates ask)]"] parents_rows [OF t1(2) [folded pg1_def]] cs(1)
    by (auto simp: pg2_def)
  obtain ds where ds: "pd_steps p = cs @ us @ ds" "list_all is_destroy ds"
    using destroys_append [of ask pg2 "[0..<length (fa_destroys ask)]"] us(1) by (auto simp: p)
  have "tree_steps lib (fs_gmail snapshot) cs (tree_of ?rows) = Some t1"
    using t1(1) cs(1) by (simp add: came_to_def snap pg1_def)
  with cs(2) us(2) ds have split: "\<exists>cs us ds t1. pd_steps p = cs @ us @ ds \<and> tree_steps lib (fs_gmail snapshot) cs (tree_of ?rows) = Some t1 \<and>
      list_all is_create cs \<and> list_all (\<lambda>s. is_update s \<and> step_clear (parents t1) s) us \<and> list_all is_destroy ds" by blast
  have "tree_steps lib (fs_gmail snapshot) (pd_steps p) (tree_of ?rows) = Some t3" "tree_whole lib (fs_gmail snapshot) t3"
    "mset (map step_index (pd_steps p)) + mset (map fst (pd_refused p)) =
       mset [0..<?n + length (fa_updates ask) + length (fa_destroys ask)]"
    using t3 three_rounds [of ?n "length (fa_updates ask)" "length (fa_destroys ask)"]
    by (simp_all add: came_to_def snap p creation_order_mset)
  with split show ?thesis by blast
qed

lemma planned_steps_circle_free:
  assumes "pd_steps p = cs @ us @ ds" "tree_steps lib g cs t0 = Some t1" "list_all is_create cs"
    and "list_all (\<lambda>s. is_update s \<and> step_clear (parents t1) s) us" "list_all is_destroy ds"
    and "tree_steps lib g (pd_steps p) t0 = Some t" "tree_whole lib g t0" "circle_free t0" "moves_made lib g (pd_steps p) t0 \<le> 1"
  shows "circle_free t"
proof -
  obtain t2 where t2: "tree_steps lib g us t1 = Some t2" "tree_steps lib g ds t2 = Some t"
    using assms(1,2,6) by (auto simp: steps_append split: Option.bind_splits)
  have "moves_made lib g us t1 \<le> 1"
    using assms(1,9) moves_append [OF assms(2)] moves_append [OF t2(1)] by simp
  with updates_circle_free [OF t2(1) assms(4) refl] creates_circle_free [OF assms(2,3,7,8)]
  show ?thesis using destroys_circle_free [OF t2(2) assms(5)] by blast
qed

text \<open>
  C8: What a \<open>Mailbox/set\<close> plans is sound before anything is sent, where every object of the call
  names a mailbox of its own. Every object is answered once, by a step or by a refusal. Run one after
  the other on the tree of the account, the steps are all legal: a create or a move goes under a
  mailbox that is there by then and takes a name no sibling holds, and a destroy removes a mailbox
  that holds no child by then. Afterwards every mailbox still has its parent and no two siblings
  share a name. Creates come first, destroys last, and no mailbox moves under itself or under one that
  lay below it once the creates are done; so a call that changes the parent of at most one mailbox
  closes no circle. (Two moves of one call can: \<open>two_moves_close_a_cycle\<close>.)
\<close>

theorem planned_steps_keep_the_tree:
  assumes "call_ok lib fresh snapshot ask references"
    and "planned_call lib fresh snapshot ask references = p"
  shows "\<exists>t. tree_steps lib (fs_gmail snapshot) (pd_steps p) (tree_of (fs_rows snapshot)) = Some t \<and>
     tree_whole lib (fs_gmail snapshot) t \<and>
     mset (map step_index (pd_steps p)) + mset (map fst (pd_refused p)) =
       mset [0..<length (fa_creates ask) + length (fa_updates ask) + length (fa_destroys ask)] \<and>
     (\<exists>cs us ds t1. pd_steps p = cs @ us @ ds \<and> tree_steps lib (fs_gmail snapshot) cs (tree_of (fs_rows snapshot)) = Some t1 \<and>
        list_all is_create cs \<and> list_all (\<lambda>s. is_update s \<and> step_clear (parents t1) s) us \<and> list_all is_destroy ds) \<and>
     (circle_free (tree_of (fs_rows snapshot)) \<and>
        moves_made lib (fs_gmail snapshot) (pd_steps p) (tree_of (fs_rows snapshot)) \<le> 1 \<longrightarrow> circle_free t)"
proof -
  let ?g = "fs_gmail snapshot" and ?t0 = "tree_of (fs_rows snapshot)"
  have whole: "tree_whole lib ?g ?t0" using assms(1) by (auto simp: call_ok_def Let_def)
  obtain t cs us ds t1 where t: "tree_steps lib ?g (pd_steps p) ?t0 = Some t" "tree_whole lib ?g t"
    "mset (map step_index (pd_steps p)) + mset (map fst (pd_refused p)) =
       mset [0..<length (fa_creates ask) + length (fa_updates ask) + length (fa_destroys ask)]"
    and split: "pd_steps p = cs @ us @ ds" "tree_steps lib ?g cs ?t0 = Some t1"
    "list_all is_create cs" "list_all (\<lambda>s. is_update s \<and> step_clear (parents t1) s) us" "list_all is_destroy ds"
    using planned_steps_legal [OF assms] by blast
  have "circle_free ?t0 \<and> moves_made lib ?g (pd_steps p) ?t0 \<le> 1 \<longrightarrow> circle_free t"
    using planned_steps_circle_free [OF split t(1) whole] by blast
  with t split show ?thesis by blast
qed

definition box_at :: "mailbox_id \<Rightarrow> mailbox_id option \<Rightarrow> string \<Rightarrow> string \<Rightarrow> mailbox_row" where
  "box_at m parent n wire = \<lparr>row_id = m, parent_id = parent, facts = \<lparr>name = n, imap_name = wire,
     parent_imap_name = None, role = None, sort_order = 6, subscribed = True, selectable = True,
     store = True, gmail_label = None, uid_validity = Some 1, uid_next = None, highest_modseq = None,
     total_emails = 0, unread_emails = 0\<rparr>\<rparr>"

definition box :: "mailbox_id \<Rightarrow> mailbox_id option \<Rightarrow> string \<Rightarrow> mailbox_row" where
  "box m parent n = box_at m parent n n"

definition demo_tree :: folder_snapshot where
  "demo_tree = \<lparr>fs_state = 7, fs_rows = [box ''w'' None ''Work'', box ''o'' None ''Old'', box_at ''j'' (Some ''o'') ''Jan'' ''Old/Jan''],
     fs_counts = Map.empty, fs_done = {},
     fs_base = \<lparr>snap_gmail = False, snap_moving = \<lparr>move_command = True, uidplus = True\<rparr>, snap_rights = Map.empty\<rparr>\<rparr>"

text \<open>A create under a later create, a move out of a mailbox and the destroy of that mailbox.\<close>

definition demo_call :: folder_ask where
  "demo_call = \<lparr>fa_if_in_state = None,
     fa_creates = [\<lparr>fc_creation_id = ''a'', fc_name = ''Plan'', fc_parent = Some ''#b'', fc_role = None, fc_subscribed = None\<rparr>,
                   \<lparr>fc_creation_id = ''b'', fc_name = ''Year'', fc_parent = Some ''w'', fc_role = None, fc_subscribed = None\<rparr>],
     fa_updates = [\<lparr>fu_id = ''j'', fu_name = None, fu_parent = Some (Value ''w''), fu_role = None, fu_subscribed = None\<rparr>],
     fa_destroys = [''o''], fa_remove_emails = False\<rparr>"

definition demo_id :: "nat \<Rightarrow> mailbox_id" where
  "demo_id i = (if i = 0 then ''n0'' else ''n1'')"

lemma whole_rows:
  assumes "distinct (map row_id rows)"
    "list_all (\<lambda>row. case parent_id row of None \<Rightarrow> True | Some p \<Rightarrow> p \<in> set (map row_id rows)) rows"
    "distinct (map (\<lambda>row. key_of lib gmail (parent_id row, name (facts row))) rows)"
  shows "tree_whole lib gmail (tree_of rows)"
  unfolding tree_whole_def
proof (intro conjI allI impI)
  have at: "tree_of rows c = Some x \<longleftrightarrow> (\<exists>row \<in> set rows. row_id row = c \<and> (parent_id row, name (facts row)) = x)" for c x
    unfolding tree_of_def by (rule rows_at [OF assms(1)])
  show "finite (dom (tree_of rows))" by (simp add: tree_of_def finite_dom_map_of)
  show "has_parent (tree_of rows) p" if "tree_of rows c = Some (p, n)" for c p n
  proof (cases p)
    case (Some q)
    then have "q \<in> row_id ` set rows" using that assms(2) unfolding at by (auto simp: list_all_iff split: option.splits)
    then show ?thesis unfolding has_parent_def Some option.case domIff by (auto simp: at dom_def)
  qed (simp add: has_parent_def)
  show "c = d" if same: "tree_of rows c = Some x" "tree_of rows d = Some y" "key_of lib gmail x = key_of lib gmail y" for c d x y
  proof -
    obtain r q where r: "r \<in> set rows" "row_id r = c" "(parent_id r, name (facts r)) = x"
      and q: "q \<in> set rows" "row_id q = d" "(parent_id q, name (facts q)) = y" using same(1,2) unfolding at by blast
    have "inj_on (\<lambda>row. key_of lib gmail (parent_id row, name (facts row))) (set rows)" using assms(3) by (simp add: distinct_map)
    then have "r = q" using r q same(3) by (auto dest: inj_onD)
    then show ?thesis using r q by simp
  qed
qed

lemma demo_whole: "tree_whole rfc_lib (fs_gmail demo_tree) (tree_of (fs_rows demo_tree))"
  by (rule whole_rows) (simp_all add: demo_tree_def box_def box_at_def key_of_def sibling_def rfc_lib_def)

lemma demo_call_ok: "call_ok rfc_lib demo_id demo_tree demo_call Map.empty"
proof -
  have "resolved (planning_new rfc_lib demo_id demo_tree demo_call Map.empty) ''j'' = ''j''"
    by (simp add: resolved_def folder_creation_id_def CREATION_REFERENCE_def strip_prefix_def starts_with_def)
  moreover have "map demo_id [0..<length (fa_creates demo_call)] = [''n0'', ''n1'']" by (simp add: demo_id_def demo_call_def upt_rec)
  moreover have "map row_id (fs_rows demo_tree) = [''w'', ''o'', ''j'']" by (simp add: demo_tree_def box_def box_at_def)
  moreover have "map fc_creation_id (fa_creates demo_call) = [''a'', ''b'']" by (simp add: demo_call_def)
  ultimately show ?thesis using demo_whole
    unfolding call_ok_def Let_def
    by (simp only:) (simp add: demo_call_def folder_creation_id_def CREATION_REFERENCE_def strip_prefix_def starts_with_def)
qed

subsection \<open>What the check does not see\<close>

text \<open>
  A move does not change the rows the check reads, so a later move of the same call is checked
  against the parents as they were: two mailboxes may each move under the other.
\<close>

definition pair_tree :: folder_snapshot where
  "pair_tree = demo_tree\<lparr>fs_rows := [box ''a'' None ''A'', box ''b'' None ''B'']\<rparr>"

definition swap_call :: folder_ask where
  "swap_call = \<lparr>fa_if_in_state = None, fa_creates = [],
     fa_updates = [\<lparr>fu_id = ''a'', fu_name = None, fu_parent = Some (Value ''b''), fu_role = None, fu_subscribed = None\<rparr>,
                   \<lparr>fu_id = ''b'', fu_name = None, fu_parent = Some (Value ''a''), fu_role = None, fu_subscribed = None\<rparr>],
     fa_destroys = [], fa_remove_emails = False\<rparr>"

lemma pair_new: "planning_new rfc_lib demo_id pair_tree swap_call Map.empty =
   \<lparr>pg_snapshot = pair_tree, pg_rows = [(''a'', box ''a'' None ''A''), (''b'', box ''b'' None ''B'')], pg_created = Map.empty,
    pg_references = Map.empty, pg_names = {(None, ''A''), (None, ''B'')}, pg_children = (\<lambda>_. 0), pg_destroying = {}, pg_roles = None,
    pg_planned = \<lparr>pd_steps = [], pd_refused = []\<rparr>\<rparr>"
  by (simp add: planning_new_def Let_def children_fold pair_tree_def swap_call_def box_def box_at_def sibling_def rfc_lib_def demo_tree_def)

definition move_to :: "mailbox_id \<Rightarrow> string \<Rightarrow> mailbox_id \<Rightarrow> nat \<Rightarrow> folder_step" where
  "move_to m n p i = StepUpdate i m (Some \<lparr>ng_typed = n, ng_leaf = n, ng_under = UnderMailbox p\<rparr>) [m] None None"

lemma pair_names: "name_new rfc_lib ''A'' \<lparr>pl_parent = None, pl_delimiter = None\<rparr> = Inr \<lparr>nn_leaf = ''A'', nn_wire = ''A''\<rparr>"
 "name_new rfc_lib ''B'' \<lparr>pl_parent = None, pl_delimiter = None\<rparr> = Inr \<lparr>nn_leaf = ''B'', nn_wire = ''B''\<rparr>"
  by (rule plain_name; simp add: plain_text_def rfc_lib_def)+


lemma rfc_nfc: "lib_nfc rfc_lib s = s" by (simp add: rfc_lib_def)

definition pair_planning :: "(mailbox_id option \<times> string) set \<Rightarrow> (mailbox_id \<Rightarrow> nat) \<Rightarrow> (string \<rightharpoonup> string option) option \<Rightarrow> folder_steps \<Rightarrow> planning" where
  "pair_planning names children roles planned =
   \<lparr>pg_snapshot = pair_tree, pg_rows = [(''a'', box ''a'' None ''A''), (''b'', box ''b'' None ''B'')], pg_created = Map.empty,
    pg_references = Map.empty, pg_names = names, pg_children = children, pg_destroying = {}, pg_roles = roles, pg_planned = planned\<rparr>"

lemmas plan_eval = plan_update_def Let_def resolved_def folder_creation_id_def CREATION_REFERENCE_def strip_prefix_def starts_with_def
  pg_row_def plan_some_role_def plan_rename_def rfc_nfc plan_under_def pg_may_def rights_of_simps allows_def eq_ignore_ascii_case_def INBOX_def
  to_ascii_lowercase_def lies_under_def parent_of_def plan_name_def pair_names pg_sibling_def sibling_def leave_parent_def child_added_def
  followers_def row_depth_def

lemma moved_first:
  "plan_update rfc_lib (pair_planning {(None, ''A''), (None, ''B'')} (\<lambda>_. 0) roles planned) 0 (fa_updates swap_call ! 0) =
     (pair_planning {(Some ''b'', ''A''), (None, ''B'')} ((\<lambda>_. 0)(''b'' := 1)) roles planned, Inr (move_to ''a'' ''A'' ''b'' 0))"
  by (simp add: plan_eval swap_call_def pair_planning_def box_def box_at_def pair_tree_def demo_tree_def move_to_def insert_Diff_if)

lemma moved_second:
  "plan_update rfc_lib (pair_planning {(Some ''b'', ''A''), (None, ''B'')} c roles planned) (Suc 0) (fa_updates swap_call ! Suc 0) =
     (pair_planning {(Some ''b'', ''A''), (Some ''a'', ''B'')} (c(''a'' := c ''a'' + 1)) roles planned, Inr (move_to ''b'' ''B'' ''a'' (Suc 0)))"
  by (simp add: plan_eval swap_call_def pair_planning_def box_def box_at_def pair_tree_def demo_tree_def move_to_def insert_commute insert_Diff_if)

lemma pair_settle:
  "settle_step i (pair_planning names children roles p, Inr st) = pair_planning names children roles (p\<lparr>pd_steps := pd_steps p @ [st]\<rparr>)"
  "pg_planned (pair_planning names children roles p) = p"
  by (simp_all add: settle_step_def Let_def pair_planning_def)

lemma pair_run:
  "pd_steps (pg_planned (planning_run rfc_lib swap_call
      (planning_new rfc_lib demo_id pair_tree swap_call Map.empty\<lparr>pg_roles := roles\<rparr>))) =
    [move_to ''a'' ''A'' ''b'' 0, move_to ''b'' ''B'' ''a'' (Suc 0)]"
proof -
  have "creation_order [] = []" by (simp add: creation_order_def order_loop.simps)
  moreover have "fa_creates swap_call = []" "length (fa_updates swap_call) = 2" "fa_destroys swap_call = []" by (simp_all add: swap_call_def)
  moreover have "planning_new rfc_lib demo_id pair_tree swap_call Map.empty\<lparr>pg_roles := roles\<rparr> =
      pair_planning {(None, ''A''), (None, ''B'')} (\<lambda>_. 0) roles \<lparr>pd_steps = [], pd_refused = []\<rparr>"
    by (simp add: pair_new pair_planning_def)
  ultimately show ?thesis
    by (simp add: planning_run_def upt_rec Let_def run_update_def moved_first moved_second pair_settle)
qed

lemma two_moves_close_a_cycle:
  "\<exists>t. tree_steps rfc_lib False (pd_steps (planned_call rfc_lib demo_id pair_tree swap_call Map.empty)) (tree_of (fs_rows pair_tree)) = Some t \<and>
     t ''a'' = Some (Some ''b'', ''A'') \<and> t ''b'' = Some (Some ''a'', ''B'')"
proof -
  have t: "tree_of (fs_rows pair_tree) = [''a'' \<mapsto> (None, ''A''), ''b'' \<mapsto> (None, ''B'')]"
    by (rule ext) (simp add: tree_of_def pair_tree_def box_def box_at_def)
  show ?thesis
    by (simp add: planned_call_def Let_def pair_run t move_to_def place_of_def has_parent_def name_free_def key_of_def sibling_def rfc_nfc)
qed

text \<open>With the first of the two moves alone the tree stays free of circles.\<close>

definition lone_call :: folder_ask where
  "lone_call = swap_call\<lparr>fa_updates := [fa_updates swap_call ! 0]\<rparr>"

lemma lone_run:
  "pd_steps (planned_call rfc_lib demo_id pair_tree lone_call Map.empty) = [move_to ''a'' ''A'' ''b'' 0]"
proof -
  have "creation_order [] = []" by (simp add: creation_order_def order_loop.simps)
  moreover have "fa_creates lone_call = []" "length (fa_updates lone_call) = Suc 0" "fa_destroys lone_call = []"
    "fa_updates lone_call ! 0 = fa_updates swap_call ! 0"
    by (simp_all add: lone_call_def swap_call_def)
  moreover have "planning_new rfc_lib demo_id pair_tree lone_call Map.empty = planning_new rfc_lib demo_id pair_tree swap_call Map.empty"
    by (simp add: planning_new_def Let_def lone_call_def swap_call_def children_fold)
  moreover have "planning_new rfc_lib demo_id pair_tree swap_call Map.empty\<lparr>pg_roles := roles\<rparr> =
      pair_planning {(None, ''A''), (None, ''B'')} (\<lambda>_. 0) roles \<lparr>pd_steps = [], pd_refused = []\<rparr>" for roles
    by (simp add: pair_new pair_planning_def)
  ultimately show ?thesis
    by (simp add: planned_call_def planning_run_def Let_def run_update_def moved_first pair_settle)
qed

lemma lone_call_ok: "call_ok rfc_lib demo_id pair_tree lone_call Map.empty"
proof -
  have "tree_whole rfc_lib (fs_gmail pair_tree) (tree_of (fs_rows pair_tree))"
    by (rule whole_rows) (simp_all add: pair_tree_def demo_tree_def box_def box_at_def key_of_def sibling_def rfc_lib_def)
  then show ?thesis
    by (simp add: call_ok_def Let_def lone_call_def swap_call_def)
      (simp add: pair_tree_def box_def box_at_def folder_creation_id_def CREATION_REFERENCE_def strip_prefix_def starts_with_def)
qed

theorem planned_steps_keep_the_tree_witness:
  "\<exists>t. tree_steps rfc_lib False (pd_steps (planned_call rfc_lib demo_id pair_tree lone_call Map.empty)) (tree_of (fs_rows pair_tree)) = Some t \<and>
     tree_whole rfc_lib False t \<and> circle_free t \<and> t ''a'' = Some (Some ''b'', ''A'')"
proof -
  have g: "fs_gmail pair_tree = False" by (simp add: pair_tree_def demo_tree_def)
  have t0: "tree_of (fs_rows pair_tree) = [''a'' \<mapsto> (None, ''A''), ''b'' \<mapsto> (None, ''B'')]"
    by (rule ext) (simp add: tree_of_def pair_tree_def box_def box_at_def)
  have "parents (tree_of (fs_rows pair_tree)) = {}" by (auto simp: t0 parents_def split: if_splits)
  then have free: "circle_free (tree_of (fs_rows pair_tree))" by (simp add: circle_free_def acyclic_def)
  have "moves_made rfc_lib False [s] t \<le> 1" for s t by (simp split: option.split)
  with planned_steps_keep_the_tree [OF lone_call_ok refl] free obtain t where
    t: "tree_steps rfc_lib False (pd_steps (planned_call rfc_lib demo_id pair_tree lone_call Map.empty)) (tree_of (fs_rows pair_tree)) = Some t"
    "tree_whole rfc_lib False t" "circle_free t"
    unfolding g lone_run by blast
  moreover have "t ''a'' = Some (Some ''b'', ''A'')"
    using t(1) unfolding lone_run t0 by (auto simp: move_to_def place_of_def split: if_splits)
  ultimately show ?thesis by blast
qed

text \<open>Two names of one mailbox among the destroys count its parent down twice.\<close>

definition family_tree :: folder_snapshot where
  "family_tree = demo_tree\<lparr>fs_rows := [box ''p'' None ''P'', box ''m'' (Some ''p'') ''M'', box ''k'' (Some ''p'') ''K'']\<rparr>"

definition alias_call :: folder_ask where
  "alias_call = \<lparr>fa_if_in_state = None, fa_creates = [], fa_updates = [], fa_destroys = [''m'', ''#c'', ''p''], fa_remove_emails = False\<rparr>"

definition family_planning :: "nat \<Rightarrow> (string \<rightharpoonup> string option) option \<Rightarrow> folder_steps \<Rightarrow> planning" where
  "family_planning n roles planned =
   \<lparr>pg_snapshot = family_tree, pg_rows = [(''p'', box ''p'' None ''P''), (''m'', box ''m'' (Some ''p'') ''M''), (''k'', box ''k'' (Some ''p'') ''K'')],
    pg_created = Map.empty, pg_references = [''c'' \<mapsto> ''m''], pg_names = {(None, ''P''), (Some ''p'', ''M''), (Some ''p'', ''K'')},
    pg_children = (\<lambda>_. 0)(''p'' := n), pg_destroying = {''m'', ''p''}, pg_roles = roles, pg_planned = planned\<rparr>"

lemma family_new: "planning_new rfc_lib demo_id family_tree alias_call [''c'' \<mapsto> ''m'']\<lparr>pg_roles := roles\<rparr> =
    family_planning 2 roles \<lparr>pd_steps = [], pd_refused = []\<rparr>"
  by (simp add: planning_new_def Let_def children_fold family_tree_def alias_call_def box_def box_at_def sibling_def rfc_nfc demo_tree_def family_planning_def
      resolved_def folder_creation_id_def CREATION_REFERENCE_def strip_prefix_def starts_with_def fun_eq_iff insert_commute)

lemma family_destroy:
  "m = ''m'' \<or> m = ''#c'' \<Longrightarrow> plan_destroy (family_planning n roles planned) i m False = (family_planning (n - 1) roles planned, Inr (StepDestroy i ''m'' True))"
  "plan_destroy (family_planning 0 roles planned) i ''p'' False = (family_planning 0 roles planned, Inr (StepDestroy i ''p'' True))"
  by (auto simp: plan_destroy_def pg_row_def resolved_def folder_creation_id_def CREATION_REFERENCE_def strip_prefix_def starts_with_def
      family_planning_def box_def box_at_def pg_may_def rights_of_simps allows_def family_tree_def demo_tree_def eq_ignore_ascii_case_def INBOX_def
      to_ascii_lowercase_def emails_in_def leave_parent_def fun_eq_iff)

lemma aliased_destroys_miss_a_child:
  "pd_steps (planned_call rfc_lib demo_id family_tree alias_call [''c'' \<mapsto> ''m'']) =
     [StepDestroy 0 ''m'' True, StepDestroy 1 ''m'' True, StepDestroy 2 ''p'' True] \<and>
   tree_of (fs_rows family_tree) ''k'' = Some (Some ''p'', ''K'')"
proof -
  have settle: "settle_step i (family_planning n roles p, Inr st) = family_planning n roles (p\<lparr>pd_steps := pd_steps p @ [st]\<rparr>)"
    "pg_planned (family_planning n roles p) = p" for i n roles p st
    by (simp_all add: settle_step_def Let_def family_planning_def)
  have "creation_order [] = []" by (simp add: creation_order_def order_loop.simps)
  then have "pd_steps (pg_planned (planning_run rfc_lib alias_call (family_planning 2 roles \<lparr>pd_steps = [], pd_refused = []\<rparr>))) =
      [StepDestroy 0 ''m'' True, StepDestroy 1 ''m'' True, StepDestroy 2 ''p'' True]" for roles
    by (simp add: planning_run_def Let_def run_destroy_def alias_call_def upt_rec family_destroy settle numeral_2_eq_2)
  moreover have "tree_of (fs_rows family_tree) ''k'' = Some (Some ''p'', ''K'')" by (simp add: tree_of_def family_tree_def box_def box_at_def)
  ultimately show ?thesis by (simp add: planned_call_def Let_def family_new)
qed

end
