(* ===== verification/Folder_Reach.thy ===== *)
theory Folder_Reach
  imports Folder_Run
begin

text \<open>
  The walks of the check along the parents (\<open>lies_under\<close>, \<open>depth\<close> and \<open>followers\<close> of
  \<open>runtime/folders/plan.rs\<close>). Each stops after as many steps as there are rows; that is enough to
  see every ancestor, also where the parents run in a circle.
\<close>

subsection \<open>Depth\<close>

lemma depth_steps:
  assumes "acyclic (parent_rel rows)"
  shows "depth_loop rows n (parent_of rows m) = min n (card {a. (m, a) \<in> (parent_rel rows)\<^sup>+})"
proof (induction n arbitrary: m)
  case 0
  then show ?case by simp
next
  case (Suc n)
  let ?above = "\<lambda>m. {a. (m, a) \<in> (parent_rel rows)\<^sup>+}"
  have fin: "finite (?above m)" for m by (rule above_finite)
  show ?case
  proof (cases "parent_of rows m")
    case None
    then have "?above m = {}" by (auto simp: parent_rel_def dest: tranclD)
    then show ?thesis using None by simp
  next
    case (Some p)
    have one: "q = p" if "(m, q) \<in> parent_rel rows" for q
      using Some that by (auto simp: parent_rel_def)
    have edge: "(m, p) \<in> parent_rel rows" using Some by (simp add: parent_rel_def)
    have "?above m = insert p (?above p)"
    proof (intro set_eqI iffI)
      fix a assume "a \<in> ?above m"
      then obtain q where "(m, q) \<in> parent_rel rows" "(q, a) \<in> (parent_rel rows)\<^sup>*" by (auto dest: tranclD)
      then show "a \<in> insert p (?above p)" using one by (auto dest: rtranclD)
    next
      fix a assume "a \<in> insert p (?above p)"
      then show "a \<in> ?above m" using edge by (auto intro: trancl_into_trancl2)
    qed
    moreover have "p \<notin> ?above p" using assms by (simp add: acyclic_def)
    ultimately have "card (?above m) = Suc (card (?above p))" using fin by simp
    then show ?thesis using Some Suc.IH [of p] by simp
  qed
qed

lemma depth_counts_above:
  assumes "acyclic (parent_rel rows)"
  shows "row_depth rows m = card {a. (m, a) \<in> (parent_rel rows)\<^sup>+}"
proof -
  let ?R = "parent_rel rows"
  have "card {a. (m, a) \<in> ?R\<^sup>+} \<le> card ?R"
    using parent_rel_small [of rows] above_ends by (meson card_image_le card_mono finite_imageI order_trans)
  then show ?thesis using depth_steps [OF assms] parent_rel_small [of rows] by (simp add: row_depth_def)
qed

lemma depth_rises:
  assumes "acyclic (parent_rel rows)" "(c, a) \<in> (parent_rel rows)\<^sup>+"
  shows "row_depth rows a < row_depth rows c"
proof -
  let ?R = "parent_rel rows"
  have "finite {x. (c, x) \<in> ?R\<^sup>+}"
    by (rule above_finite)
  moreover have "{x. (a, x) \<in> ?R\<^sup>+} \<subset> {x. (c, x) \<in> ?R\<^sup>+}"
    using assms by (auto simp: acyclic_def intro: trancl_trans)
  ultimately show ?thesis unfolding depth_counts_above [OF assms(1)] by (rule psubset_card_mono)
qed

text \<open>
  C29: A move can never be checked too short. The bounded walk of \<open>lies_under\<close> answers exactly
  whether one mailbox is the other or lies under it, whatever the parents are, and in a tree the
  bounded walk of \<open>depth\<close> counts all mailboxes above. So the mailboxes a rename carries along are
  exactly the subscribed ones at or under it, and each comes after every one above it.
\<close>

theorem rename_carries_the_subtree:
  "(lies_under rows m a \<longleftrightarrow> (m, a) \<in> (parent_rel rows)\<^sup>*) \<and>
   set (followers pg row) = {row_id other |k other. (k, other) \<in> set (pg_rows pg) \<and> subscribed (facts other) \<and>
     (row_id other, row_id row) \<in> (parent_rel (pg_rows pg))\<^sup>*} \<and>
   (acyclic (parent_rel (pg_rows pg)) \<longrightarrow> sorted_wrt (\<lambda>x y. (x, y) \<notin> (parent_rel (pg_rows pg))\<^sup>+) (followers pg row))"
proof (intro conjI impI)
  let ?found = "filter (\<lambda>other. subscribed (facts other) \<and> lies_under (pg_rows pg) (row_id other) (row_id row)) (map snd (pg_rows pg))"
  let ?keyed = "sort (map (\<lambda>other. (row_depth (pg_rows pg) (row_id other), row_id other)) ?found)"
  have f: "followers pg row = map snd ?keyed" by (simp add: followers_def Let_def)
  show "lies_under rows m a \<longleftrightarrow> (m, a) \<in> (parent_rel rows)\<^sup>*" by (rule lies_under_reaches)
  show "set (followers pg row) = {row_id other |k other. (k, other) \<in> set (pg_rows pg) \<and> subscribed (facts other) \<and>
     (row_id other, row_id row) \<in> (parent_rel (pg_rows pg))\<^sup>*}"
    unfolding f lies_under_reaches by (force simp: image_iff)
  assume ac: "acyclic (parent_rel (pg_rows pg))"
  have keys: "\<forall>(d, x) \<in> set ?keyed. d = row_depth (pg_rows pg) x" by auto
  have "sorted_wrt (\<lambda>u v. (snd u, snd v) \<notin> (parent_rel (pg_rows pg))\<^sup>+) ?keyed"
  proof (rule sorted_wrt_mono_rel)
    show "sorted_wrt (\<le>) ?keyed" by simp
  next
    fix p q assume pq: "p \<in> set ?keyed" "q \<in> set ?keyed" "p \<le> q"
    obtain d x e y where p: "p = (d, x)" "q = (e, y)" by fastforce
    then have "row_depth (pg_rows pg) x \<le> row_depth (pg_rows pg) y" using pq keys by auto
    then have "(x, y) \<notin> (parent_rel (pg_rows pg))\<^sup>+" using depth_rises [OF ac] by (meson not_le)
    then show "(snd p, snd q) \<notin> (parent_rel (pg_rows pg))\<^sup>+" using p by simp
  qed
  then show "sorted_wrt (\<lambda>x y. (x, y) \<notin> (parent_rel (pg_rows pg))\<^sup>+) (followers pg row)"
    unfolding f sorted_wrt_map .
qed

definition home_rows :: "(string \<times> mailbox_row) list" where
  "home_rows = [(''p'', box ''p'' None ''P''), (''m'', box ''m'' (Some ''p'') ''M''), (''k'', box ''k'' (Some ''p'') ''K'')]"

lemma home_rel: "parent_rel home_rows = {(''m'', ''p''), (''k'', ''p'')}"
  by (auto simp: parent_rel_def home_rows_def parent_of_def box_def box_at_def split: if_splits)

lemma home_family: "pg_rows (family_planning n roles p) = home_rows"
  by (simp add: family_planning_def home_rows_def)

lemma rename_carries_the_subtree_witness:
  "lies_under home_rows ''k'' ''p'' \<and>
   sorted_wrt (\<lambda>x y. (x, y) \<notin> (parent_rel home_rows)\<^sup>+)
     (followers (family_planning 2 None \<lparr>pd_steps = [], pd_refused = []\<rparr>) (box ''p'' None ''P''))"
proof -
  have "acyclic (parent_rel home_rows)"
    by (rule acyclic_subset [OF wf_acyclic [OF wf_measure [of "\<lambda>m. if m = ''p'' then 1 else (0::nat)"]]])
      (auto simp: home_rel inv_image_def)
  moreover have "(''k'', ''p'') \<in> (parent_rel home_rows)\<^sup>*" by (simp add: home_rel r_into_rtrancl)
  ultimately show ?thesis
    using rename_carries_the_subtree [of home_rows "''k''" "''p''" "family_planning 2 None \<lparr>pd_steps = [], pd_refused = []\<rparr>" "box ''p'' None ''P''"]
    unfolding home_family by blast
qed

end
