(* ===== verification/Folder_Names.thy ===== *)
theory Folder_Names
  imports Folder_Plan
begin

text \<open>
  What a \<open>Mailbox/set\<close> keeps while it works: the delimiters of the listing
  (\<open>runtime/folders/delimiters.rs\<close>), the wire name of every mailbox (\<open>runtime/folders/names.rs\<close>) and
  what a failed command comes to (\<open>runtime/folders/failure.rs\<close>). The hash maps are association lists
  with distinct keys. The order in which \<open>Names::renamed\<close> meets names of one length is that of the
  hash map; nothing looks at it but \<open>find\<close> by id.
\<close>

definition moved_name :: "string \<Rightarrow> string \<times> string \<Rightarrow> char option \<Rightarrow> string option" where
  "moved_name wire pair delimiter =
     (let (old, to) = pair in
      if wire = old then Some to
      else Option.bind (strip_prefix wire old) (\<lambda>rest.
           Option.bind delimiter (\<lambda>d.
           Option.bind (strip_prefix rest [d]) (\<lambda>rest. Some (to @ [d] @ rest)))))"

lemma moved_name_iff:
  "moved_name wire (old, to) d = Some x \<longleftrightarrow>
     wire = old \<and> x = to \<or> (\<exists>c rest. d = Some c \<and> wire = old @ c # rest \<and> x = to @ c # rest)"
  by (auto simp: moved_name_def bind_eq_Some_conv strip_prefix_Some)

subsection \<open>Delimiters\<close>

record delimiters =
  dl_by_name :: "(string \<times> char option) list"
  dl_top :: "char option"

definition delimiters_of :: "list_entry list \<Rightarrow> delimiters" where
  "delimiters_of entries =
     (let inbox = List.find (\<lambda>e. eq_ignore_ascii_case (le_name e) INBOX) entries;
          top = (case Option.bind inbox le_delimiter of
                   Some d \<Rightarrow> Some d
                 | None \<Rightarrow> Option.bind (List.find (\<lambda>e. le_delimiter e \<noteq> None) entries) le_delimiter)
      in \<lparr>dl_by_name = foldl (\<lambda>m e. AList.update (le_name e) (le_delimiter e) m) [] entries, dl_top = top\<rparr>)"

definition delimiter_under :: "delimiters \<Rightarrow> string \<Rightarrow> char option" where
  "delimiter_under dl wire = (case map_of (dl_by_name dl) wire of None \<Rightarrow> dl_top dl | Some d \<Rightarrow> d)"

definition delimiters_made :: "string \<Rightarrow> char option \<Rightarrow> delimiters \<Rightarrow> delimiters" where
  "delimiters_made wire d dl = dl\<lparr>dl_by_name := AList.update wire d (dl_by_name dl)\<rparr>"

definition delimiters_renamed :: "string \<times> string \<Rightarrow> delimiters \<Rightarrow> delimiters" where
  "delimiters_renamed pair dl =
     (let d = delimiter_under dl (fst pair)
      in dl\<lparr>dl_by_name := foldl (\<lambda>m (wire, level).
           AList.update (case moved_name wire pair d of None \<Rightarrow> wire | Some to \<Rightarrow> to) level m) [] (dl_by_name dl)\<rparr>)"

subsection \<open>Names\<close>

type_synonym wire_names = "(mailbox_id \<times> string) list"

record moved_wire =
  mw_id :: mailbox_id
  mw_from :: string
  mw_to :: string

definition names_of :: "mailbox_row list \<Rightarrow> wire_names" where
  "names_of rows = foldl (\<lambda>m row. AList.update (row_id row) (imap_name (facts row)) m) [] rows"

definition names_made :: "mailbox_id \<Rightarrow> string \<Rightarrow> wire_names \<Rightarrow> wire_names" where
  "names_made m wire names = AList.update m wire names"

definition names_moved :: "string \<times> string \<Rightarrow> char option \<Rightarrow> wire_names \<Rightarrow> moved_wire list" where
  "names_moved pair d names =
     sort_key (\<lambda>mw. length (mw_from mw)) (List.map_filter (\<lambda>(m, wire).
       map_option (\<lambda>to. \<lparr>mw_id = m, mw_from = wire, mw_to = to\<rparr>) (moved_name wire pair d)) names)"

definition names_renamed :: "string \<times> string \<Rightarrow> char option \<Rightarrow> wire_names \<Rightarrow> wire_names \<times> moved_wire list" where
  "names_renamed pair d names =
     (let found = names_moved pair d names
      in (foldl (\<lambda>m mw. AList.update (mw_id mw) (mw_to mw) m) names found, found))"

subsection \<open>Failures\<close>

record stop =
  st_refusal :: refusal
  st_stands :: bool

definition folder_failure :: "session_error \<Rightarrow> stop" where
  "folder_failure e =
     (case e of
        Refused \<Rightarrow> \<lparr>st_refusal = ServerFail, st_stands = True\<rparr>
      | Protocol _ \<Rightarrow> \<lparr>st_refusal = ServerFail, st_stands = False\<rparr>
      | _ \<Rightarrow> \<lparr>st_refusal = ServerUnavailable, st_stands = False\<rparr>)"

definition kept_quiet :: "session_error + unit \<Rightarrow> stop + unit" where
  "kept_quiet sent =
     (case sent of Inr _ \<Rightarrow> Inr () | Inl e \<Rightarrow> if e = Refused then Inr () else Inl (folder_failure e))"

datatype refused_level = RefusedNothing | RefusedCommand | RefusedTree

fun refused_rank :: "refused_level \<Rightarrow> nat" where
  "refused_rank RefusedNothing = 0"
| "refused_rank RefusedCommand = 1"
| "refused_rank RefusedTree = 2"

instantiation refused_level :: linorder
begin

definition less_eq_refused_level :: "refused_level \<Rightarrow> refused_level \<Rightarrow> bool" where
  "less_eq_refused_level a b \<longleftrightarrow> refused_rank a \<le> refused_rank b"

definition less_refused_level :: "refused_level \<Rightarrow> refused_level \<Rightarrow> bool" where
  "less_refused_level a b \<longleftrightarrow> refused_rank a < refused_rank b"

instance
proof
  fix a b :: refused_level
  show "a \<le> b \<Longrightarrow> b \<le> a \<Longrightarrow> a = b" by (cases a; cases b; simp add: less_eq_refused_level_def)
qed (auto simp: less_eq_refused_level_def less_refused_level_def)

end

record contested =
  ct_index :: nat
  ct_naming :: naming
  ct_moving :: "mailbox_id option"

definition taken_read :: "text_lib \<Rightarrow> bool \<Rightarrow> string \<Rightarrow> string" where
  "taken_read lib gmail n = (if gmail then beside lib n else lib_nfc lib n)"

definition taken_names :: "text_lib \<Rightarrow> contested list \<Rightarrow> mailbox_row list \<Rightarrow> bool \<Rightarrow> nat list" where
  "taken_names lib asked rows gmail =
     (let holders = (\<lambda>at. map row_id (filter (\<lambda>row. (parent_id row, taken_read lib gmail (name (facts row))) = at) rows))
      in map ct_index (filter (\<lambda>c.
           (case ct_moving c of None \<Rightarrow> True | Some m \<Rightarrow> list_ex (\<lambda>row. row_id row = m) rows) \<and>
           list_ex (\<lambda>m. Some m \<noteq> ct_moving c) (holders (under_id (ng_under (ct_naming c)), taken_read lib gmail (ng_leaf (ct_naming c))))) asked))"

end
