(* ===== verification/Folder_Send.thy ===== *)
theory Folder_Send
  imports Folder_Names
begin

text \<open>
  The steps of one \<open>Mailbox/set\<close> on one session and what each comes to (\<open>runtime/folders/send.rs\<close>),
  and the work as \<open>apply\<close> of \<open>runtime/folders.rs\<close> puts it together. The server is a parameter that
  answers each command from the exchanges before it; a command whose line cannot be sent leaves no
  exchange. A step is the run after it with how it ended: a \<open>stop\<close> or whether the session stands.
  The deadline, which drops a run at a command it waits on, is not modelled, nor are the reads of
  the store around the run.
\<close>

datatype mailbox_change =
    ChangeCreated mailbox_row "role_override option"
  | ChangeRenamed mailbox_id string string "mailbox_id option"
  | ChangeSubscribed mailbox_id bool
  | ChangeRole mailbox_id role_override nat
  | ChangeDestroyed mailbox_id

datatype folder_command =
    ToExamine string | ToCreate string | ToRename string string | ToDelete string | ToSubscribe string | ToUnsubscribe string

datatype folder_exchange =
    Listed "session_error + list_entry list"
  | Told folder_command "session_error + unit"

record folder_server =
  on_list :: "folder_exchange list \<Rightarrow> session_error + list_entry list"
  on_told :: "folder_exchange list \<Rightarrow> folder_command \<Rightarrow> session_error + unit"

definition ask_list :: "folder_server \<Rightarrow> folder_exchange list \<Rightarrow> (session_error + list_entry list) \<times> folder_exchange list" where
  "ask_list srv log = (let r = on_list srv log in (r, log @ [Listed r]))"

definition tell :: "folder_server \<Rightarrow> session_error + string \<Rightarrow> folder_command \<Rightarrow> folder_exchange list \<Rightarrow> (session_error + unit) \<times> folder_exchange list" where
  "tell srv line command log =
     (case line of
        Inl e \<Rightarrow> (Inl e, log)
      | Inr _ \<Rightarrow> (let r = on_told srv log command in (r, log @ [Told command r])))"

definition tell_examine :: "folder_server \<Rightarrow> string \<Rightarrow> folder_exchange list \<Rightarrow> (session_error + unit) \<times> folder_exchange list" where
  "tell_examine srv mailbox log = tell srv (Inr []) (ToExamine mailbox) log"

definition tell_create :: "folder_server \<Rightarrow> new_name \<Rightarrow> folder_exchange list \<Rightarrow> (session_error + unit) \<times> folder_exchange list" where
  "tell_create srv n log = tell srv (create_command n) (ToCreate (nn_wire n)) log"

definition tell_rename :: "folder_server \<Rightarrow> string \<times> new_name \<Rightarrow> folder_exchange list \<Rightarrow> (session_error + unit) \<times> folder_exchange list" where
  "tell_rename srv p log = tell srv (rename_command (fst p) (snd p)) (ToRename (fst p) (nn_wire (snd p))) log"

definition tell_delete :: "folder_server \<Rightarrow> string \<Rightarrow> folder_exchange list \<Rightarrow> (session_error + unit) \<times> folder_exchange list" where
  "tell_delete srv wire log = tell srv (named_command ''DELETE'' wire) (ToDelete wire) log"

definition tell_subscribe :: "folder_server \<Rightarrow> string \<Rightarrow> folder_exchange list \<Rightarrow> (session_error + unit) \<times> folder_exchange list" where
  "tell_subscribe srv wire log = tell srv (named_command ''SUBSCRIBE'' wire) (ToSubscribe wire) log"

definition tell_unsubscribe :: "folder_server \<Rightarrow> string \<Rightarrow> folder_exchange list \<Rightarrow> (session_error + unit) \<times> folder_exchange list" where
  "tell_unsubscribe srv wire log = tell srv (named_command ''UNSUBSCRIBE'' wire) (ToUnsubscribe wire) log"

subsection \<open>The work\<close>

record folder_job =
  fj_gmail :: bool
  fj_keys :: "string list"
  fj_creates :: nat
  fj_updates :: nat
  fj_results :: "(refusal + unit) option list"
  fj_ids :: "nat \<rightharpoonup> mailbox_id"
  fj_names :: wire_names
  fj_delimiters :: "delimiters option"
  fj_changes :: "mailbox_change list"
  fj_refused :: refused_level
  fj_contested :: "contested list"
  fj_moves_mail :: bool
  fj_inbox_open :: bool

type_synonym job_run = "folder_job \<times> folder_exchange list"
type_synonym 'a job_step = "(stop + 'a) \<times> job_run"

definition step_then :: "'a job_step \<Rightarrow> ('a \<Rightarrow> job_run \<Rightarrow> 'b job_step) \<Rightarrow> 'b job_step" where
  "step_then s f = (case s of (Inl e, r) \<Rightarrow> (Inl e, r) | (Inr a, r) \<Rightarrow> f a r)"

definition job_new :: "folder_ask \<Rightarrow> folder_snapshot \<Rightarrow> folder_steps \<Rightarrow> folder_job" where
  "job_new ask snapshot planned =
     (let keys = map fc_creation_id (fa_creates ask) @ map fu_id (fa_updates ask) @ fa_destroys ask
      in \<lparr>fj_gmail = fs_gmail snapshot, fj_keys = keys, fj_creates = length (fa_creates ask),
          fj_updates = length (fa_updates ask),
          fj_results = foldl (\<lambda>rs (index, refusal). rs[index := Some (Inl refusal)]) (replicate (length keys) None) (pd_refused planned),
          fj_ids = map_of (rev (map (\<lambda>s. (step_index s, step_id s)) (pd_steps planned))),
          fj_names = names_of (fs_rows snapshot), fj_delimiters = None, fj_changes = [],
          fj_refused = RefusedNothing, fj_contested = [], fj_moves_mail = False, fj_inbox_open = False\<rparr>)"

definition wire_of :: "folder_job \<Rightarrow> mailbox_id \<Rightarrow> stop + string" where
  "wire_of j m = ok_or \<lparr>st_refusal = NotFound, st_stands = True\<rparr> (map_of (fj_names j) m)"

definition push_change :: "mailbox_change \<Rightarrow> job_run \<Rightarrow> job_run" where
  "push_change c r = (fst r\<lparr>fj_changes := fj_changes (fst r) @ [c]\<rparr>, snd r)"

definition open_inbox :: "folder_server \<Rightarrow> job_run \<Rightarrow> unit job_step" where
  "open_inbox srv r =
     (if fj_inbox_open (fst r) then (Inr (), r)
      else case tell_examine srv INBOX (snd r) of
        (Inl e, log) \<Rightarrow> if e = Refused then (Inr (), fst r\<lparr>fj_inbox_open := True\<rparr>, log) else (Inl (folder_failure e), fst r, log)
      | (Inr _, log) \<Rightarrow> (Inr (), fst r\<lparr>fj_inbox_open := True\<rparr>, log))"

definition job_end :: "nat \<Rightarrow> refusal + unit \<Rightarrow> folder_job \<Rightarrow> folder_job" where
  "job_end index result j = j\<lparr>fj_results := (fj_results j)[index := Some result]\<rparr>"

definition sort_order_under :: "role_override \<Rightarrow> nat" where
  "sort_order_under r = sort_order_of (override_role r)"

definition job_role :: "mailbox_id \<Rightarrow> role_override \<Rightarrow> job_run \<Rightarrow> job_run" where
  "job_role m r run = push_change (ChangeRole m r (sort_order_under r)) run"

fun local_one :: "job_run \<Rightarrow> folder_step \<Rightarrow> job_run" where
  "local_one r (StepUpdate index m rename carried subs chosen) =
     (case wire_of (fst r) m of
        Inr _ \<Rightarrow> (let r = (case chosen of None \<Rightarrow> r | Some c \<Rightarrow> job_role m c r) in (job_end index (Inr ()) (fst r), snd r))
      | Inl stop \<Rightarrow> (job_end index (Inl (st_refusal stop)) (fst r), snd r))"
| "local_one r _ = r"

definition local_run :: "folder_step list \<Rightarrow> job_run \<Rightarrow> job_run" where
  "local_run steps r = foldl local_one r steps"

subsection \<open>Names on the session\<close>

definition job_delimiters :: "folder_server \<Rightarrow> job_run \<Rightarrow> delimiters job_step" where
  "job_delimiters srv r =
     (case fj_delimiters (fst r) of
        Some dl \<Rightarrow> (Inr dl, r)
      | None \<Rightarrow>
          (case ask_list srv (snd r) of
             (Inl e, log) \<Rightarrow> (Inl (folder_failure e), fst r, log)
           | (Inr entries, log) \<Rightarrow> (Inr (delimiters_of entries), fst r\<lparr>fj_delimiters := Some (delimiters_of entries)\<rparr>, log)))"

definition job_named :: "folder_server \<Rightarrow> text_lib \<Rightarrow> naming \<Rightarrow> job_run \<Rightarrow> (new_name \<times> char option) job_step" where
  "job_named srv lib naming r =
     (case (case ng_under naming of
              Top \<Rightarrow> Inr None
            | UnderMailbox m \<Rightarrow>
                (case wire_of (fst r) m of
                   Inl _ \<Rightarrow> Inl \<lparr>st_refusal = invalid_folder ''parentId'', st_stands = True\<rparr>
                 | Inr wire \<Rightarrow> Inr (Some wire))) of
        Inl e \<Rightarrow> (Inl e, r)
      | Inr parent \<Rightarrow>
          step_then (job_delimiters srv r) (\<lambda>dl r.
            let delimiter = (case parent of None \<Rightarrow> dl_top dl | Some wire \<Rightarrow> delimiter_under dl wire)
            in case name_new lib (ng_typed naming) \<lparr>pl_parent = parent, pl_delimiter = delimiter\<rparr> of
                 Inl e \<Rightarrow> (Inl \<lparr>st_refusal = refusal_of_name e, st_stands = True\<rparr>, r)
               | Inr n \<Rightarrow>
                   if fj_gmail (fst r) \<and> past_limit lib (nn_wire n)
                   then (Inl \<lparr>st_refusal = invalid_folder ''name'', st_stands = True\<rparr>, r)
                   else (Inr (n, delimiter), r)))"

definition note_refused :: "session_error \<Rightarrow> refused_level \<Rightarrow> job_run \<Rightarrow> stop \<times> job_run" where
  "note_refused e level r = (folder_failure e, fst r\<lparr>fj_refused := max (fj_refused (fst r)) level\<rparr>, snd r)"

definition note_contested :: "session_error \<Rightarrow> contested \<Rightarrow> job_run \<Rightarrow> stop \<times> job_run" where
  "note_contested e asked r =
     note_refused e RefusedTree (fst r\<lparr>fj_contested := fj_contested (fst r) @ [asked]\<rparr>, snd r)"

definition job_passed :: "text_lib \<Rightarrow> mailbox_row list \<Rightarrow> bool \<Rightarrow> folder_job \<Rightarrow> folder_job" where
  "job_passed lib rows gmail j =
     foldl (\<lambda>j index. job_end index (Inl (invalid_folder ''name'')) j) j (taken_names lib (fj_contested j) rows gmail)"

subsection \<open>One step on the session\<close>

definition subscribe_made :: "folder_server \<Rightarrow> string \<Rightarrow> bool \<Rightarrow> job_run \<Rightarrow> bool \<times> bool \<times> job_run" where
  "subscribe_made srv wire subs r =
     (if \<not> subs then (False, True, r)
      else case tell_subscribe srv wire (snd r) of
        (Inr _, log) \<Rightarrow> (True, True, fst r, log)
      | (Inl e, log) \<Rightarrow> (let (stop, r) = note_refused e RefusedCommand (fst r, log) in (False, st_stands stop, r)))"

definition names_after_create :: "mailbox_id \<Rightarrow> new_name \<Rightarrow> char option \<Rightarrow> folder_job \<Rightarrow> folder_job" where
  "names_after_create m n delimiter j =
     j\<lparr>fj_names := names_made m (nn_wire n) (fj_names j),
       fj_delimiters := map_option (delimiters_made (nn_wire n) delimiter) (fj_delimiters j)\<rparr>"

definition job_create :: "folder_server \<Rightarrow> text_lib \<Rightarrow> folder_step \<Rightarrow> job_run \<Rightarrow> bool job_step" where
  "job_create srv lib step r =
     (case step of
        StepCreate index m naming chosen subs \<Rightarrow>
          step_then (job_named srv lib naming r) (\<lambda>(n, delimiter) r.
            case tell_create srv n (snd r) of
              (Inl e, log) \<Rightarrow>
                (let (stop, r) = note_contested e \<lparr>ct_index = index, ct_naming = naming, ct_moving = None\<rparr> (fst r, log) in (Inl stop, r))
            | (Inr _, log) \<Rightarrow>
                (let (subscribed, stands, r) = subscribe_made srv (nn_wire n) subs (fst r, log);
                     r = (names_after_create m n delimiter (fst r), snd r);
                     r = (case step_made step (nn_wire n) subscribed (fj_gmail (fst r)) of
                            None \<Rightarrow> r
                          | Some row \<Rightarrow> push_change (ChangeCreated row chosen) r)
                 in (Inr stands, r)))
      | _ \<Rightarrow> (Inr True, r))"

definition job_renamed :: "string \<times> string \<Rightarrow> job_run \<Rightarrow> moved_wire list \<times> job_run" where
  "job_renamed pair r =
     (let j = fst r;
          delimiter = Option.bind (fj_delimiters j) (\<lambda>dl. delimiter_under dl (fst pair));
          j = j\<lparr>fj_delimiters := map_option (delimiters_renamed pair) (fj_delimiters j)\<rparr>;
          (names, found) = names_renamed pair delimiter (fj_names j)
      in (found, j\<lparr>fj_names := names\<rparr>, snd r))"

fun job_follow :: "folder_server \<Rightarrow> mailbox_id list \<Rightarrow> moved_wire list \<Rightarrow> job_run \<Rightarrow> unit job_step" where
  "job_follow srv [] found r = (Inr (), r)"
| "job_follow srv (m # ms) found r =
     (case List.find (\<lambda>mw. mw_id mw = m) found of
        None \<Rightarrow> job_follow srv ms found r
      | Some mw \<Rightarrow>
          step_then
            (case tell_subscribe srv (mw_to mw) (snd r) of
               (Inr _, log) \<Rightarrow> (Inr (), fst r, log)
             | (Inl e, log) \<Rightarrow>
                 if e = Refused then (Inr (), push_change (ChangeSubscribed m False) (fst r, log))
                 else (Inl (folder_failure e), fst r, log))
            (\<lambda>_ r. case tell_unsubscribe srv (mw_from mw) (snd r) of
               (sent, log) \<Rightarrow> step_then (kept_quiet sent, fst r, log) (\<lambda>_ r. job_follow srv ms found r)))"

definition job_rename :: "folder_server \<Rightarrow> text_lib \<Rightarrow> nat \<Rightarrow> mailbox_id \<Rightarrow> naming \<Rightarrow> mailbox_id list \<Rightarrow> job_run \<Rightarrow> unit job_step" where
  "job_rename srv lib index m naming ms r =
     (case wire_of (fst r) m of
        Inl e \<Rightarrow> (Inl e, r)
      | Inr old \<Rightarrow>
          step_then (job_named srv lib naming r) (\<lambda>(to, _) r.
          step_then (open_inbox srv r) (\<lambda>_ r.
            case tell_rename srv (old, to) (snd r) of
              (Inl e, log) \<Rightarrow>
                (let (stop, r) = note_contested e \<lparr>ct_index = index, ct_naming = naming, ct_moving = Some m\<rparr> (fst r, log) in (Inl stop, r))
            | (Inr _, log) \<Rightarrow>
                (let r = push_change (ChangeRenamed m (nn_wire to) (nn_leaf to) (under_id (ng_under naming))) (fst r\<lparr>fj_moves_mail := True\<rparr>, log);
                     (found, r) = job_renamed (old, nn_wire to) r
                 in job_follow srv ms found r))))"

definition job_subscribe :: "folder_server \<Rightarrow> mailbox_id \<Rightarrow> string \<Rightarrow> bool \<Rightarrow> job_run \<Rightarrow> unit job_step" where
  "job_subscribe srv m wire subs r =
     (case (if subs then tell_subscribe srv wire (snd r) else tell_unsubscribe srv wire (snd r)) of
        (Inl e, log) \<Rightarrow> (let (stop, r) = note_refused e RefusedCommand (fst r, log) in (Inl stop, r))
      | (Inr _, log) \<Rightarrow> (Inr (), push_change (ChangeSubscribed m subs) (fst r, log)))"

definition job_update :: "folder_server \<Rightarrow> text_lib \<Rightarrow> folder_step \<Rightarrow> job_run \<Rightarrow> bool job_step" where
  "job_update srv lib step r =
     (case step of
        StepUpdate index m rename carried subs chosen \<Rightarrow>
          step_then (case rename of None \<Rightarrow> (Inr (), r) | Some naming \<Rightarrow> job_rename srv lib index m naming carried r) (\<lambda>_ r.
          step_then (wire_of (fst r) m, r) (\<lambda>wire r.
          step_then (case subs of None \<Rightarrow> (Inr (), r) | Some b \<Rightarrow> job_subscribe srv m wire b r) (\<lambda>_ r.
            (Inr True, case chosen of None \<Rightarrow> r | Some c \<Rightarrow> job_role m c r))))
      | _ \<Rightarrow> (Inr True, r))"

definition job_destroy :: "folder_server \<Rightarrow> folder_step \<Rightarrow> job_run \<Rightarrow> bool job_step" where
  "job_destroy srv step r =
     (case step of
        StepDestroy index m was_subscribed \<Rightarrow>
          step_then (wire_of (fst r) m, r) (\<lambda>wire r.
          step_then (open_inbox srv r) (\<lambda>_ r.
            case tell_delete srv wire (snd r) of
              (Inl e, log) \<Rightarrow> (let (stop, r) = note_refused e RefusedTree (fst r, log) in (Inl stop, r))
            | (Inr _, log) \<Rightarrow>
                (let r = push_change (ChangeDestroyed m) (fst r\<lparr>fj_moves_mail := True\<rparr>, log)
                 in if was_subscribed
                    then (case tell_unsubscribe srv wire (snd r) of (sent, log) \<Rightarrow> step_then (kept_quiet sent, fst r, log) (\<lambda>_ r. (Inr True, r)))
                    else (Inr True, r))))
      | _ \<Rightarrow> (Inr True, r))"

definition remote_one :: "folder_server \<Rightarrow> text_lib \<Rightarrow> folder_step \<Rightarrow> job_run \<Rightarrow> bool job_step" where
  "remote_one srv lib step r =
     (case step of
        StepCreate _ _ _ _ _ \<Rightarrow> job_create srv lib step r
      | StepUpdate _ _ _ _ _ _ \<Rightarrow> job_update srv lib step r
      | StepDestroy _ _ _ \<Rightarrow> job_destroy srv step r)"

fun remote_run :: "folder_server \<Rightarrow> text_lib \<Rightarrow> folder_step list \<Rightarrow> job_run \<Rightarrow> bool \<times> job_run" where
  "remote_run srv lib [] r = (True, r)"
| "remote_run srv lib (step # steps) r =
     (case remote_one srv lib step r of (ended, r) \<Rightarrow>
        let (stands, result) = (case ended of Inr stands \<Rightarrow> (stands, Inr ()) | Inl stop \<Rightarrow> (st_stands stop, Inl (st_refusal stop)));
            r = (job_end (step_index step) result (fst r), snd r)
        in if stands then remote_run srv lib steps r else (False, r))"

subsection \<open>The answer\<close>

record folder_outcome =
  fo_created :: "(string \<times> (refusal + mailbox_id)) list"
  fo_updated :: "(string \<times> (refusal + mailbox_id)) list"
  fo_destroyed :: "(string \<times> (refusal + mailbox_id)) list"

definition answer_of :: "folder_job \<Rightarrow> nat \<Rightarrow> string \<times> (refusal + mailbox_id)" where
  "answer_of j index =
     (let result = (case fj_results j ! index of None \<Rightarrow> Inl ServerUnavailable | Some r \<Rightarrow> r)
      in (fj_keys j ! index, and_then result (\<lambda>_. ok_or ServerUnavailable (fj_ids j index))))"

definition outcome_of :: "folder_job \<Rightarrow> folder_outcome" where
  "outcome_of j =
     (let ended = map (answer_of j) [0..<min (length (fj_keys j)) (length (fj_results j))]
      in \<lparr>fo_created = take (fj_creates j) ended, fo_updated = take (fj_updates j) (drop (fj_creates j) ended),
          fo_destroyed = drop (fj_updates j) (drop (fj_creates j) ended)\<rparr>)"

definition created_after :: "folder_outcome \<Rightarrow> (string \<rightharpoonup> string) \<Rightarrow> (string \<rightharpoonup> string)" where
  "created_after found created =
     foldl (\<lambda>m (k, r). case r of Inl _ \<Rightarrow> m | Inr made \<Rightarrow> m(k \<mapsto> made)) created (fo_created found)"

text \<open>
  \<open>apply\<close> up to what the rows take: \<open>None\<close> for a state that is not the one named; \<open>reached\<close> says
  whether time is left and a session was had. With it come whether the session is kept and whether
  the searches are forgotten.
\<close>

definition apply_steps ::
  "folder_server \<Rightarrow> text_lib \<Rightarrow> (nat \<Rightarrow> mailbox_id) \<Rightarrow> bool \<Rightarrow> folder_snapshot \<Rightarrow> folder_ask \<Rightarrow> (string \<rightharpoonup> string) \<Rightarrow>
    (bool \<times> bool \<times> job_run) option" where
  "apply_steps srv lib fresh reached snapshot ask created =
     (if (case fa_if_in_state ask of None \<Rightarrow> False | Some named \<Rightarrow> named \<noteq> digits (fs_state snapshot)) then None
      else
        let planned = planned_call lib fresh snapshot ask created;
            job = job_new ask snapshot planned;
            locals = filter is_local (pd_steps planned); remotes = filter (\<lambda>s. \<not> is_local s) (pd_steps planned);
            (stands, r) = (if remotes = [] then (True, job, [])
                           else if reached then remote_run srv lib remotes (job, []) else (False, job, []));
            kept = (remotes = [] \<or> stands \<and> fj_refused (fst r) = RefusedNothing)
        in Some (kept, remotes \<noteq> [] \<and> fj_moves_mail (fst r), local_run locals r))"

end
