(* ===== verification/Folder_Rows.thy ===== *)
theory Folder_Rows
  imports Folder_Send Change_Log
begin

text \<open>
  What the rows take of a \<open>Mailbox/set\<close>: \<open>written\<close> and \<open>renamed\<close> of \<open>store/mailboxes/set.rs\<close>, \<open>upsert\<close>
  of \<open>store/mailboxes.rs\<close>. The table of one account is the list of its rows with the overrides
  beside it; an \<open>UPDATE\<close> changes every row with the id, and a write that gives a second row a wire
  name fails (\<open>UNIQUE (account_key, imap_name)\<close> of \<open>schema.sql\<close>). The recursive query walks from
  the row to the children of what it has found until nothing is new, which is after as many rounds
  as there are rows (\<open>tree_rows_reach\<close>). \<open>SELECT\<close> gives rows in any order: the list may have any.
\<close>

record mailbox_table =
  mt_rows :: "mailbox_row list"
  mt_overrides :: "mailbox_id \<rightharpoonup> string"

type_synonym table_write = "mailbox_table \<times> ledger"

definition on_row :: "mailbox_id \<Rightarrow> (mailbox_row \<Rightarrow> mailbox_row) \<Rightarrow> mailbox_table \<Rightarrow> mailbox_table" where
  "on_row m f t = t\<lparr>mt_rows := map (\<lambda>row. if row_id row = m then f row else row) (mt_rows t)\<rparr>"

definition wire_taken :: "mailbox_id \<Rightarrow> string \<Rightarrow> mailbox_table \<Rightarrow> bool" where
  "wire_taken m wire t = list_ex (\<lambda>row. row_id row \<noteq> m \<and> imap_name (facts row) = wire) (mt_rows t)"

definition override_put :: "mailbox_id \<Rightarrow> role_override \<Rightarrow> mailbox_table \<Rightarrow> mailbox_table" where
  "override_put m r t =
     (if list_ex (\<lambda>row. row_id row = m) (mt_rows t) then t\<lparr>mt_overrides := (mt_overrides t)(m \<mapsto> override_column r)\<rparr> else t)"

definition upsert :: "mailbox_row \<Rightarrow> mailbox_table \<Rightarrow> store_error + mailbox_table" where
  "upsert row t =
     (let row = row\<lparr>facts := (facts row)\<lparr>parent_imap_name := None\<rparr>\<rparr>
      in if wire_taken (row_id row) (imap_name (facts row)) t then Inl Database
         else if list_ex (\<lambda>held. row_id held = row_id row) (mt_rows t) then Inr (on_row (row_id row) (\<lambda>_. row) t)
         else Inr (t\<lparr>mt_rows := mt_rows t @ [row]\<rparr>))"

fun tree_rows :: "mailbox_row list \<Rightarrow> nat \<Rightarrow> mailbox_id set \<Rightarrow> mailbox_id set" where
  "tree_rows rows 0 found = found"
| "tree_rows rows (Suc n) found =
     tree_rows rows n (found \<union> row_id ` {row \<in> set rows. \<exists>p \<in> found. parent_id row = Some p})"

definition wire_put :: "string \<Rightarrow> mailbox_row \<Rightarrow> mailbox_row" where
  "wire_put to row =
     row\<lparr>facts := (facts row)\<lparr>imap_name := to,
       gmail_label := (if gmail_label (facts row) = Some (imap_name (facts row)) then Some to else gmail_label (facts row))\<rparr>\<rparr>"

definition member_renamed :: "string \<Rightarrow> string \<Rightarrow> table_write \<Rightarrow> mailbox_id \<times> string \<Rightarrow> store_error + table_write" where
  "member_renamed old to s member =
     (case strip_prefix (snd member) old of
        None \<Rightarrow> Inr s
      | Some rest \<Rightarrow>
          if wire_taken (fst member) (to @ rest) (fst s) then Inl Database
          else Inr (on_row (fst member) (wire_put (to @ rest)) (fst s), ledger_note (snd s) (Mailbox, fst member, Updated)))"

definition rows_renamed :: "mailbox_id \<Rightarrow> string \<Rightarrow> table_write \<Rightarrow> store_error + table_write" where
  "rows_renamed m to s =
     (let rows = mt_rows (fst s);
          tree = tree_rows rows (length rows) {m};
          members = map (\<lambda>row. (row_id row, imap_name (facts row))) (filter (\<lambda>row. row_id row \<in> tree) rows)
      in case List.find (\<lambda>found. fst found = m) members of
           None \<Rightarrow> Inr s
         | Some (_, old) \<Rightarrow> try_fold (member_renamed old to) s members)"

fun change_written :: "table_write \<Rightarrow> mailbox_change \<Rightarrow> store_error + table_write" where
  "change_written (t, l) (ChangeCreated row chosen) =
     and_then (upsert row t) (\<lambda>t.
       Inr (case chosen of None \<Rightarrow> t | Some r \<Rightarrow> override_put (row_id row) r t, ledger_note l (Mailbox, row_id row, Created)))"
| "change_written (t, l) (ChangeRenamed m to leaf parent) =
     and_then (rows_renamed m to (t, l)) (\<lambda>(t, l).
       Inr (on_row m (\<lambda>row. row\<lparr>parent_id := parent, facts := (facts row)\<lparr>name := leaf\<rparr>\<rparr>) t, ledger_note l (Mailbox, m, Updated)))"
| "change_written (t, l) (ChangeSubscribed m b) =
     Inr (on_row m (\<lambda>row. row\<lparr>facts := (facts row)\<lparr>subscribed := b\<rparr>\<rparr>) t, ledger_note l (Mailbox, m, Updated))"
| "change_written (t, l) (ChangeRole m r order) =
     Inr (on_row m (\<lambda>row. row\<lparr>facts := (facts row)\<lparr>role := override_role r, sort_order := order\<rparr>\<rparr>) (override_put m r t),
      ledger_note l (Mailbox, m, Updated))"
| "change_written (t, l) (ChangeDestroyed m) =
     Inr (t\<lparr>mt_rows := filter (\<lambda>row. row_id row \<noteq> m) (mt_rows t), mt_overrides := (mt_overrides t)(m := None)\<rparr>,
      ledger_note l (Mailbox, m, Destroyed))"

definition changes_written :: "mailbox_change list \<Rightarrow> table_write \<Rightarrow> store_error + table_write" where
  "changes_written cs s = try_fold change_written s cs"

subsection \<open>The recursive query\<close>

definition child_rel :: "mailbox_row list \<Rightarrow> (mailbox_id \<times> mailbox_id) set" where
  "child_rel rows = {(p, row_id row) |p row. row \<in> set rows \<and> parent_id row = Some p}"

lemma tree_rows_steps: "tree_rows rows n found = {c. \<exists>a \<in> found. \<exists>k \<le> n. (a, c) \<in> child_rel rows ^^ k}"
proof (induction n arbitrary: found)
  case 0
  then show ?case by auto
next
  case (Suc n)
  have grown: "row_id ` {row \<in> set rows. \<exists>p \<in> found. parent_id row = Some p} = child_rel rows `` found"
    by (auto simp: child_rel_def)
  have "(\<exists>a \<in> found \<union> child_rel rows `` found. \<exists>k \<le> n. (a, c) \<in> child_rel rows ^^ k) \<longleftrightarrow>
      (\<exists>a \<in> found. \<exists>k \<le> Suc n. (a, c) \<in> child_rel rows ^^ k)" for c
  proof
    assume "\<exists>a \<in> found \<union> child_rel rows `` found. \<exists>k \<le> n. (a, c) \<in> child_rel rows ^^ k"
    then show "\<exists>a \<in> found. \<exists>k \<le> Suc n. (a, c) \<in> child_rel rows ^^ k"
      by (metis Image_iff Suc_le_mono UnE le_SucI relpow_Suc_I2)
  next
    assume "\<exists>a \<in> found. \<exists>k \<le> Suc n. (a, c) \<in> child_rel rows ^^ k"
    then obtain a k where a: "a \<in> found" "k \<le> Suc n" "(a, c) \<in> child_rel rows ^^ k" by blast
    show "\<exists>a \<in> found \<union> child_rel rows `` found. \<exists>k \<le> n. (a, c) \<in> child_rel rows ^^ k"
    proof (cases k)
      case 0
      then show ?thesis using a by (metis UnI1 le0)
    next
      case (Suc j)
      then show ?thesis using a by (metis Image_iff Suc_le_mono UnI2 relpow_Suc_D2)
    qed
  qed
  then show ?case by (simp add: Suc.IH grown)
qed

lemma tree_rows_reach: "tree_rows rows (length rows) {m} = {c. (m, c) \<in> (child_rel rows)\<^sup>*}"
proof -
  let ?R = "child_rel rows"
  have sub: "?R \<subseteq> (\<lambda>row. (the (parent_id row), row_id row)) ` set rows" by (force simp: child_rel_def)
  then have "card ?R \<le> card (set rows)" by (meson List.finite_set card_image_le card_mono finite_imageI order_trans)
  then have small: "finite ?R" "card ?R \<le> length rows" using sub card_length [of rows] finite_subset by (blast, linarith)
  have "(m, c) \<in> ?R\<^sup>* \<longleftrightarrow> (\<exists>k \<le> length rows. (m, c) \<in> ?R ^^ k)" for c
    using rtrancl_finite_eq_relpow [OF small(1)] small(2) by (auto intro: relpow_imp_rtrancl) (meson order_trans)
  then show ?thesis by (simp add: tree_rows_steps)
qed

end
