(* ===== verification/Wire_Paths.thy ===== *)
theory Wire_Paths
  imports Folder_Rows
begin

text \<open>
  The hierarchy in the wire names. A view gives each mailbox its parent and its wire name; it is
  pathed when every name is its parent's with the delimiter and one more level, and no two names are
  the same. Then the mailboxes under one are those whose names go on from its name, so a RENAME by
  names and one along the parents move the same mailboxes, and what it leaves is pathed again.
\<close>

type_synonym view = "mailbox_id \<rightharpoonup> mailbox_id option \<times> string"

definition at_or_under :: "char \<Rightarrow> string \<Rightarrow> string \<Rightarrow> bool" where
  "at_or_under d a w \<longleftrightarrow> w = a \<or> (\<exists>rest. w = a @ d # rest)"

definition level_ok :: "char \<Rightarrow> view \<Rightarrow> mailbox_id option \<Rightarrow> string \<Rightarrow> bool" where
  "level_ok d v p w =
     (case p of
        None \<Rightarrow> d \<notin> set w
      | Some q \<Rightarrow> \<exists>q' u seg. v q = Some (q', u) \<and> w = u @ d # seg \<and> d \<notin> set seg)"

definition pathed :: "char \<Rightarrow> view \<Rightarrow> bool" where
  "pathed d v \<longleftrightarrow>
     (\<forall>a b p q w. v a = Some (p, w) \<longrightarrow> v b = Some (q, w) \<longrightarrow> a = b) \<and>
     (\<forall>c p w. v c = Some (p, w) \<longrightarrow> level_ok d v p w)"

definition wires :: "view \<Rightarrow> string set" where
  "wires v = {w. \<exists>m p. v m = Some (p, w)}"

definition above_rel :: "view \<Rightarrow> (mailbox_id \<times> mailbox_id) set" where
  "above_rel v = {(p, c). \<exists>w. v c = Some (Some p, w)}"

lemma pathed_unique: "pathed d v \<Longrightarrow> v a = Some (p, w) \<Longrightarrow> v b = Some (q, w) \<Longrightarrow> a = b"
  unfolding pathed_def by blast

lemma pathed_level: "pathed d v \<Longrightarrow> v c = Some (p, w) \<Longrightarrow> level_ok d v p w"
  unfolding pathed_def by blast

lemma pathed_parent:
  assumes "pathed d v" "v c = Some (Some q, w)"
  obtains q' u seg where "v q = Some (q', u)" "w = u @ d # seg" "d \<notin> set seg"
  using pathed_level [OF assms] by (auto simp: level_ok_def)

lemma under_same [simp]: "at_or_under d a a"
  by (simp add: at_or_under_def)

lemma under_trans: "at_or_under d a b \<Longrightarrow> at_or_under d b c \<Longrightarrow> at_or_under d a c"
  by (auto simp: at_or_under_def)

lemma last_level:
  assumes "x @ d # a = y @ d # b" "d \<notin> set a" "d \<notin> set b"
  shows "x = y"
proof -
  have level: "takeWhile (\<lambda>c. c \<noteq> d) (rev (z @ d # s)) = rev s" if "d \<notin> set s" for z s
    using that by (subst rev_append, simp) (subst takeWhile_append2; auto)
  have "rev a = rev b" using level [OF assms(2), of x] level [OF assms(3), of y] unfolding assms(1) by simp
  then show ?thesis using assms(1) by simp
qed

text \<open>A name under another with one level more: the other is its parent's name or one above it.\<close>

lemma under_level:
  assumes "d \<notin> set seg" "at_or_under d a (u @ d # seg)" "a \<noteq> u @ d # seg"
  shows "at_or_under d a u"
proof -
  obtain rest where r: "u @ d # seg = a @ d # rest" using assms(2,3) by (auto simp: at_or_under_def)
  show ?thesis
  proof (cases "d \<in> set rest")
    case False
    then have "u = a" by (intro last_level [OF r assms(1)])
    then show ?thesis by simp
  next
    case True
    then obtain x y where y: "rest = x @ d # y" "d \<notin> set y" using split_list_last [OF True] by blast
    then have "u @ d # seg = (a @ d # x) @ d # y" using r by simp
    then have "u = a @ d # x" by (rule last_level) (fact assms(1), fact y(2))
    then show ?thesis by (simp add: at_or_under_def)
  qed
qed

lemma above_names:
  assumes "pathed d v" "(a, c) \<in> (above_rel v)\<^sup>*" "v a = Some (p, u)" "v c = Some (q, w)"
  shows "at_or_under d u w"
  using assms(2,4)
proof (induction arbitrary: q w rule: rtrancl_induct)
  case base
  then show ?case using assms(3) by simp
next
  case (step b c)
  then have "v c = Some (Some b, w)" by (auto simp: above_rel_def)
  from pathed_parent [OF assms(1) this] obtain b' x seg where "v b = Some (b', x)" "w = x @ d # seg" by blast
  then show ?case using step.IH by (auto simp: at_or_under_def)
qed

lemma names_above:
  assumes "pathed d v" "v a = Some (p, u)" "v c = Some (q, w)" "at_or_under d u w"
  shows "(a, c) \<in> (above_rel v)\<^sup>*"
  using assms(3,4)
proof (induction "length w" arbitrary: c q w rule: less_induct)
  case less
  show ?case
  proof (cases "w = u")
    case True
    then show ?thesis using pathed_unique [OF assms(1,2)] less.prems(1) by blast
  next
    case False
    then obtain rest where rest: "w = u @ d # rest" using less.prems(2) by (auto simp: at_or_under_def)
    then obtain b where b: "q = Some b" using pathed_level [OF assms(1) less.prems(1)] by (cases q) (auto simp: level_ok_def)
    then obtain b' x seg where x: "v b = Some (b', x)" "w = x @ d # seg" "d \<notin> set seg"
      using pathed_parent [OF assms(1)] less.prems(1) by blast
    have "at_or_under d u x" using under_level [OF x(3)] less.prems(2) False x(2) by blast
    then have "(a, b) \<in> (above_rel v)\<^sup>*" using less.hyps [of x b b'] x by simp
    moreover have "(b, c) \<in> above_rel v" using less.prems(1) b by (auto simp: above_rel_def)
    ultimately show ?thesis by (rule rtrancl_into_rtrancl)
  qed
qed

text \<open>With a name every name above it is held.\<close>

lemma pathed_closed:
  assumes "pathed d v" "w \<in> wires v" "at_or_under d a w"
  shows "a \<in> wires v"
  using assms(2,3)
proof (induction "length w" arbitrary: w rule: less_induct)
  case less
  show ?case
  proof (cases "w = a")
    case False
    obtain c q where c: "v c = Some (q, w)" using less.prems(1) by (auto simp: wires_def)
    obtain rest where "w = a @ d # rest" using less.prems(2) False by (auto simp: at_or_under_def)
    then obtain b where b: "q = Some b" using pathed_level [OF assms(1) c] by (cases q) (auto simp: level_ok_def)
    then obtain b' x seg where x: "v b = Some (b', x)" "w = x @ d # seg" "d \<notin> set seg"
      using pathed_parent [OF assms(1)] c by blast
    have "at_or_under d a x" using under_level [OF x(3)] less.prems(2) False x(2) by blast
    moreover have "x \<in> wires v" using x(1) by (auto simp: wires_def)
    ultimately show ?thesis using less.hyps [of x] x(2) by simp
  qed (use less.prems in blast)
qed

subsection \<open>A RENAME\<close>

definition renamed_wire :: "string \<times> string \<Rightarrow> char option \<Rightarrow> string \<Rightarrow> string" where
  "renamed_wire pair d w = (case moved_name w pair d of None \<Rightarrow> w | Some x \<Rightarrow> x)"

lemma moves_under:
  "at_or_under d old w \<Longrightarrow> renamed_wire (old, to) (Some d) w = to @ drop (length old) w"
  by (auto simp: renamed_wire_def at_or_under_def moved_name_def strip_prefix_def starts_with_def)

lemma moves_on [simp]:
  "renamed_wire (old, to) e old = to"
  "renamed_wire (old, to) (Some d) (old @ d # r) = to @ d # r"
  by (simp_all add: renamed_wire_def moved_name_def strip_prefix_def starts_with_def)

lemma stays_elsewhere: "\<not> at_or_under d old w \<Longrightarrow> renamed_wire (old, to) (Some d) w = w"
  by (auto simp: renamed_wire_def at_or_under_def moved_name_iff split: option.splits)

lemma renamed_goes_under: "at_or_under d old w \<Longrightarrow> at_or_under d to (renamed_wire (old, to) (Some d) w)"
  by (auto simp: moves_under) (auto simp: at_or_under_def)

lemma renamed_inj:
  assumes "\<not> (\<exists>w \<in> held. at_or_under d to w)" "x \<in> held" "y \<in> held"
    and "renamed_wire (old, to) (Some d) x = renamed_wire (old, to) (Some d) y"
  shows "x = y"
proof (cases "at_or_under d old x"; cases "at_or_under d old y")
  assume "at_or_under d old x" "at_or_under d old y"
  then show "x = y" using assms(4) by (auto simp: moves_under) (auto simp: at_or_under_def)
next
  assume "at_or_under d old x" "\<not> at_or_under d old y"
  then show "x = y" using assms renamed_goes_under [of d old x to] by (simp add: stays_elsewhere)
next
  assume "\<not> at_or_under d old x" "at_or_under d old y"
  then show "x = y" using assms renamed_goes_under [of d old y to] by (metis stays_elsewhere)
next
  assume "\<not> at_or_under d old x" "\<not> at_or_under d old y"
  then show "x = y" using assms(4) by (simp add: stays_elsewhere)
qed

definition view_renamed :: "mailbox_id \<Rightarrow> mailbox_id option \<Rightarrow> string \<times> string \<Rightarrow> char \<Rightarrow> view \<Rightarrow> view" where
  "view_renamed m parent pair d v =
     (\<lambda>c. map_option (\<lambda>(p, w). (if c = m then parent else p, renamed_wire pair (Some d) w)) (v c))"

lemma view_renamed_at:
  "view_renamed m parent pair d v c = Some (q, x) \<longleftrightarrow>
     (\<exists>p w. v c = Some (p, w) \<and> q = (if c = m then parent else p) \<and> x = renamed_wire pair (Some d) w)"
  by (auto simp: view_renamed_def)

lemma view_renamed_wires: "wires (view_renamed m parent pair d v) = renamed_wire pair (Some d) ` wires v"
  by (force simp: wires_def view_renamed_at image_iff)

lemma view_renamed_pathed:
  assumes "pathed d v" "v m = Some (p, old)" "level_ok d v parent to"
    and free: "\<not> (\<exists>w \<in> wires v. at_or_under d to w)" and apart: "\<not> at_or_under d old to"
  shows "pathed d (view_renamed m parent (old, to) d v)"
proof -
  let ?mv = "renamed_wire (old, to) (Some d)"
  have held: "w \<in> wires v" if "v c = Some (q, w)" for c q w using that by (auto simp: wires_def)
  have at: "view_renamed m parent (old, to) d v q = Some (if q = m then parent else q', ?mv u)" if "v q = Some (q', u)" for q q' u
    using that by (simp add: view_renamed_at)
  have level: "level_ok d (view_renamed m parent (old, to) d v) (if c = m then parent else q) (?mv w)"
    if c: "v c = Some (q, w)" for c q w
  proof (cases "c = m")
    case True
    then have w: "?mv w = to" using assms(2) c by (simp add: moves_under)
    show ?thesis
    proof (cases parent)
      case None
      then show ?thesis using assms(3) True w by (simp add: level_ok_def)
    next
      case (Some b)
      then obtain b' u seg where u: "v b = Some (b', u)" "to = u @ d # seg" "d \<notin> set seg"
        using assms(3) by (auto simp: level_ok_def)
      then have "\<not> at_or_under d old u" using apart under_trans [of d old u to] by (auto simp: at_or_under_def)
      then have "?mv u = u" by (rule stays_elsewhere)
      then show ?thesis using at [OF u(1)] u(2,3) True w Some by (auto simp: level_ok_def)
    qed
  next
    case False
    then have other: "w \<noteq> old" using pathed_unique [OF assms(1,2)] c by blast
    show ?thesis
    proof (cases q)
      case None
      then have d: "d \<notin> set w" using pathed_level [OF assms(1) c] by (simp add: level_ok_def)
      then have "\<not> at_or_under d old w" using other by (auto simp: at_or_under_def)
      then show ?thesis using d False None by (simp add: stays_elsewhere level_ok_def)
    next
      case (Some b)
      obtain b' u seg where u: "v b = Some (b', u)" "w = u @ d # seg" "d \<notin> set seg"
        using pathed_parent [OF assms(1)] c Some by blast
      have "?mv w = ?mv u @ d # seg"
      proof (cases "at_or_under d old w")
        case True
        then have "at_or_under d old u" using under_level [OF u(3)] other u(2) by blast
        then show ?thesis unfolding u(2) by (auto simp: at_or_under_def)
      next
        case no: False
        then have "\<not> at_or_under d old u" using under_trans [of d old u w] u(2) by (auto simp: at_or_under_def)
        then show ?thesis using no u(2) by (simp add: stays_elsewhere)
      qed
      then show ?thesis using at [OF u(1)] u(3) False Some by (auto simp: level_ok_def)
    qed
  qed
  show ?thesis
    unfolding pathed_def view_renamed_at
  proof (intro conjI allI impI; elim exE conjE)
    fix a b p q x pa wa pb wb
    assume "v a = Some (pa, wa)" "v b = Some (pb, wb)" "x = ?mv wa" "x = ?mv wb"
    then show "a = b" using renamed_inj [OF free held held] pathed_unique [OF assms(1)] by metis
  next
    fix c p w pc wc
    assume "v c = Some (pc, wc)" "p = (if c = m then parent else pc)" "w = ?mv wc"
    then show "level_ok d (view_renamed m parent (old, to) d v) p w" using level by blast
  qed
qed

subsection \<open>A CREATE\<close>

lemma view_created_pathed:
  assumes "pathed d v" "m \<notin> dom v" "level_ok d v parent to" "to \<notin> wires v"
  shows "pathed d (v(m \<mapsto> (parent, to)))"
proof -
  have keeps: "level_ok d (v(m \<mapsto> (parent, to))) p w" if was: "level_ok d v p w" for p w
  proof (cases p)
    case None
    then show ?thesis using was by (simp add: level_ok_def)
  next
    case (Some q)
    then obtain q' u seg where u: "v q = Some (q', u)" "w = u @ d # seg" "d \<notin> set seg" using was Some by (auto simp: level_ok_def)
    moreover have "q \<noteq> m" using u(1) assms(2) by auto
    ultimately show ?thesis using Some by (auto simp: level_ok_def)
  qed
  have new: "w \<noteq> to" if "v c = Some (p, w)" for c p w using that assms(4) by (auto simp: wires_def)
  show ?thesis
    unfolding pathed_def
  proof (intro conjI allI impI)
    fix a b p q w assume "(v(m \<mapsto> (parent, to))) a = Some (p, w)" "(v(m \<mapsto> (parent, to))) b = Some (q, w)"
    then show "a = b" using new pathed_unique [OF assms(1)] by (auto split: if_splits)
  next
    fix c p w assume "(v(m \<mapsto> (parent, to))) c = Some (p, w)"
    then show "level_ok d (v(m \<mapsto> (parent, to))) p w"
      using keeps assms(3) pathed_level [OF assms(1)] by (auto split: if_splits)
  qed
qed

lemma view_created_wires: "m \<notin> dom v \<Longrightarrow> wires (v(m \<mapsto> (parent, to))) = insert to (wires v)"
  by (auto simp: wires_def)

end
