(* ===== verification/Rows_Follow.thy ===== *)
theory Rows_Follow
  imports Wire_Paths
begin

text \<open>
  One change at a time: what a CREATE, RENAME or DELETE does to the names the work keeps
  (\<open>Names\<close>, \<open>Delimiters\<close>) and to the rows (\<open>written\<close>), both seen as views.
\<close>

subsection \<open>The names of the work\<close>

lemma update_fold: "map_of (foldl (\<lambda>m x. AList.update (f x) (g x) m) acc xs) =
    map_of acc ++ map_of (rev (map (\<lambda>x. (f x, g x)) xs))"
proof (induction xs arbitrary: acc)
  case (Cons x xs)
  show ?case by (simp add: Cons update_conv' map_add_upd_left [symmetric]) (auto simp: map_add_def split: option.splits)
qed simp

lemma update_fold_distinct:
  "distinct (map fst acc) \<Longrightarrow> distinct (map fst (foldl (\<lambda>m x. AList.update (f x) (g x) m) acc xs))"
  by (induction xs arbitrary: acc) (simp_all add: distinct_update)

lemma names_moved_at:
  assumes "distinct (map fst names)"
  shows "mw \<in> set (names_moved pair d names) \<longleftrightarrow>
     map_of names (mw_id mw) = Some (mw_from mw) \<and> moved_name (mw_from mw) pair d = Some (mw_to mw)"
proof -
  have "mw \<in> set (names_moved pair d names) \<longleftrightarrow> (\<exists>m w to. (m, w) \<in> set names \<and> moved_name w pair d = Some to \<and>
      mw = \<lparr>mw_id = m, mw_from = w, mw_to = to\<rparr>)"
    by (force simp: names_moved_def map_filter_def split: option.splits)
  also have "\<dots> \<longleftrightarrow> (mw_id mw, mw_from mw) \<in> set names \<and> moved_name (mw_from mw) pair d = Some (mw_to mw)"
    by (cases mw) auto
  finally show ?thesis using assms by (simp add: map_of_eq_Some_iff)
qed

lemma names_moved_ids:
  assumes "distinct (map fst names)"
  shows "distinct (map mw_id (names_moved pair d names))"
proof -
  have ids: "set (map mw_id (List.map_filter (\<lambda>(m, wire). map_option (\<lambda>to. \<lparr>mw_id = m, mw_from = wire, mw_to = to\<rparr>) (moved_name wire pair d)) es))
      \<subseteq> fst ` set es" for es :: wire_names
    by (induction es) (auto simp: map_filter_simps split: option.splits)
  have "distinct (map mw_id (List.map_filter (\<lambda>(m, wire). map_option (\<lambda>to. \<lparr>mw_id = m, mw_from = wire, mw_to = to\<rparr>) (moved_name wire pair d)) names))"
    using assms
  proof (induction names)
    case (Cons e names)
    obtain m w where e: "e = (m, w)" by fastforce
    have "m \<notin> set (map mw_id (List.map_filter (\<lambda>(m, wire). map_option (\<lambda>to. \<lparr>mw_id = m, mw_from = wire, mw_to = to\<rparr>) (moved_name wire pair d)) names))"
      by (rule contra_subsetD [OF ids]) (use Cons.prems e in simp)
    then show ?case using Cons e by (cases "moved_name w pair d") (simp_all add: map_filter_simps)
  qed (simp add: map_filter_simps)
  then show ?thesis
    unfolding names_moved_def by (simp add: distinct_map)
qed

lemma names_renamed_at:
  assumes "distinct (map fst names)"
  shows "map_of (fst (names_renamed pair d names)) m = map_option (renamed_wire pair d) (map_of names m)"
    "distinct (map fst (fst (names_renamed pair d names)))"
proof -
  let ?found = "names_moved pair d names"
  have keys: "distinct (map fst (rev (map (\<lambda>mw. (mw_id mw, mw_to mw)) ?found)))"
    using names_moved_ids [OF assms] by (simp add: rev_map [symmetric] o_def)
  have at: "map_of (rev (map (\<lambda>mw. (mw_id mw, mw_to mw)) ?found)) m = Some to \<longleftrightarrow>
      (\<exists>w. map_of names m = Some w \<and> moved_name w pair d = Some to)" for to
  proof -
    have "map_of (rev (map (\<lambda>mw. (mw_id mw, mw_to mw)) ?found)) m = Some to \<longleftrightarrow> (\<exists>mw \<in> set ?found. mw_id mw = m \<and> mw_to mw = to)"
      by (subst map_of_eq_Some_iff [OF keys]) auto
    also have "\<dots> \<longleftrightarrow> (\<exists>w. map_of names m = Some w \<and> moved_name w pair d = Some to)"
      unfolding Bex_def names_moved_at [OF assms]
      by (metis moved_wire.select_convs)
    finally show ?thesis .
  qed
  show "map_of (fst (names_renamed pair d names)) m = map_option (renamed_wire pair d) (map_of names m)"
  proof (cases "map_of (rev (map (\<lambda>mw. (mw_id mw, mw_to mw)) ?found)) m")
    case None
    then have "moved_name w pair d = None" if "map_of names m = Some w" for w using at that by (metis option.exhaust)
    then show ?thesis using None
      by (cases "map_of names m") (simp_all add: names_renamed_def Let_def update_fold map_add_def renamed_wire_def)
  next
    case (Some to)
    then obtain w where "map_of names m = Some w" "moved_name w pair d = Some to" using at by blast
    then show ?thesis using Some by (simp add: names_renamed_def Let_def update_fold map_add_def renamed_wire_def)
  qed
  show "distinct (map fst (fst (names_renamed pair d names)))"
    using assms by (simp add: names_renamed_def Let_def update_fold_distinct)
qed

definition one_delimiter :: "char \<Rightarrow> delimiters \<Rightarrow> bool" where
  "one_delimiter d dl \<longleftrightarrow> dl_top dl = Some d \<and> (\<forall>w e. map_of (dl_by_name dl) w = Some e \<longrightarrow> e = Some d)"

lemma one_delimiter_under: "one_delimiter d dl \<Longrightarrow> delimiter_under dl w = Some d"
  by (auto simp: one_delimiter_def delimiter_under_def split: option.splits)

lemma one_delimiter_made: "one_delimiter d dl \<Longrightarrow> one_delimiter d (delimiters_made w (Some d) dl)"
  by (simp add: one_delimiter_def delimiters_made_def update_conv')

lemma one_delimiter_fold:
  assumes "\<forall>x \<in> set xs. g x = Some d"
  shows "map_of (foldl (\<lambda>m x. AList.update (f x) (g x) m) [] xs) w = Some e \<longrightarrow> e = Some d"
  using assms by (auto simp: update_fold dest: map_of_SomeD)

lemma one_delimiter_renamed:
  assumes "one_delimiter d dl" "distinct (map fst (dl_by_name dl))"
  shows "one_delimiter d (delimiters_renamed pair dl)" "distinct (map fst (dl_by_name (delimiters_renamed pair dl)))"
proof -
  have by_name: "dl_by_name (delimiters_renamed pair dl) = foldl (\<lambda>m x.
      AList.update (case moved_name (fst x) pair (delimiter_under dl (fst pair)) of None \<Rightarrow> fst x | Some to \<Rightarrow> to) (snd x) m) [] (dl_by_name dl)"
    by (simp add: delimiters_renamed_def Let_def case_prod_unfold)
  have "\<forall>x \<in> set (dl_by_name dl). snd x = Some d" using assms by (auto simp: one_delimiter_def)
  then have "map_of (dl_by_name (delimiters_renamed pair dl)) w = Some e \<longrightarrow> e = Some d" for w e
    unfolding by_name by (rule one_delimiter_fold)
  moreover have "dl_top (delimiters_renamed pair dl) = Some d"
    using assms(1) by (simp add: one_delimiter_def delimiters_renamed_def Let_def)
  ultimately show "one_delimiter d (delimiters_renamed pair dl)" by (simp add: one_delimiter_def)
  show "distinct (map fst (dl_by_name (delimiters_renamed pair dl)))"
    by (simp add: delimiters_renamed_def Let_def case_prod_unfold update_fold_distinct)
qed

lemma one_delimiter_listed:
  assumes "entries \<noteq> []" "\<forall>e \<in> set entries. le_delimiter e = Some d"
  shows "one_delimiter d (delimiters_of entries)" "distinct (map fst (dl_by_name (delimiters_of entries)))"
proof -
  have "x \<in> set entries" if "List.find P entries = Some x" for x P using that by (auto simp: find_Some_iff)
  moreover have "List.find (\<lambda>e. le_delimiter e \<noteq> None) entries \<noteq> None"
    using assms by (auto simp: find_None_iff neq_Nil_conv)
  ultimately have "dl_top (delimiters_of entries) = Some d"
    using assms(2) by (fastforce simp: delimiters_of_def Let_def split: option.splits bind_splits)
  moreover have "map_of (dl_by_name (delimiters_of entries)) w = Some e \<longrightarrow> e = Some d" for w e
    unfolding delimiters_of_def Let_def delimiters.select_convs by (rule one_delimiter_fold [OF assms(2)])
  ultimately show "one_delimiter d (delimiters_of entries)" by (simp add: one_delimiter_def)
  show "distinct (map fst (dl_by_name (delimiters_of entries)))"
    by (simp add: delimiters_of_def Let_def update_fold_distinct)
qed

subsection \<open>The rows\<close>

definition view_of :: "mailbox_row list \<Rightarrow> view" where
  "view_of rows = map_of (map (\<lambda>row. (row_id row, (parent_id row, imap_name (facts row)))) rows)"

lemma view_at:
  "distinct (map row_id rows) \<Longrightarrow>
     view_of rows m = Some (p, w) \<longleftrightarrow> (\<exists>row \<in> set rows. row_id row = m \<and> parent_id row = p \<and> imap_name (facts row) = w)"
  unfolding view_of_def by (subst map_of_eq_Some_iff) (auto simp: o_def)

lemma view_dom: "dom (view_of rows) = row_id ` set rows"
  by (simp add: view_of_def dom_map_of_conv_image_fst image_image)

lemma view_snoc:
  assumes "row_id row \<notin> row_id ` set rows"
  shows "view_of (rows @ [row]) = (view_of rows)(row_id row \<mapsto> (parent_id row, imap_name (facts row)))"
proof -
  have "view_of rows (row_id row) = None" using assms view_dom [of rows] by auto
  then show ?thesis by (auto simp: view_of_def fun_eq_iff map_add_def split: option.splits)
qed

lemma view_filter: "view_of (filter (\<lambda>row. row_id row \<noteq> m) rows) = (view_of rows)(m := None)"
  by (induction rows) (auto simp: view_of_def fun_eq_iff)

lemma view_on_row:
  assumes "\<And>row. row_id (f row) = row_id row"
  shows "view_of (mt_rows (on_row m f t)) c =
    (if c = m then map_option (\<lambda>row. (parent_id (f row), imap_name (facts (f row)))) (List.find (\<lambda>row. row_id row = m) (mt_rows t))
     else view_of (mt_rows t) c)"
proof -
  have "view_of (map (\<lambda>row. if row_id row = m then f row else row) rows) c =
    (if c = m then map_option (\<lambda>row. (parent_id (f row), imap_name (facts (f row)))) (List.find (\<lambda>row. row_id row = m) rows)
     else view_of rows c)" for rows
    using assms by (induction rows) (auto simp: view_of_def)
  then show ?thesis by (simp add: on_row_def)
qed

lemma on_row_ids: "(\<And>row. row_id (f row) = row_id row) \<Longrightarrow> map row_id (mt_rows (on_row m f t)) = map row_id (mt_rows t)"
  by (simp add: on_row_def)

lemma view_find: "view_of rows m = map_option (\<lambda>row. (parent_id row, imap_name (facts row))) (List.find (\<lambda>row. row_id row = m) rows)"
  by (induction rows) (auto simp: view_of_def)

lemma wire_taken_view:
  "distinct (map row_id (mt_rows t)) \<Longrightarrow> wire_taken m w t \<longleftrightarrow> (\<exists>c p. c \<noteq> m \<and> view_of (mt_rows t) c = Some (p, w))"
  unfolding wire_taken_def list_ex_iff by (auto simp: view_at)

lemma child_above: "distinct (map row_id rows) \<Longrightarrow> child_rel rows = above_rel (view_of rows)"
  by (auto simp: child_rel_def above_rel_def view_at)

lemma member_view:
  assumes "distinct (map row_id (mt_rows t))"
  shows "view_of (mt_rows (on_row m (wire_put w) t)) = (\<lambda>c. if c = m then map_option (\<lambda>(p, _). (p, w)) (view_of (mt_rows t) m) else view_of (mt_rows t) c)"
  by (rule ext, subst view_on_row) (simp_all add: wire_put_def view_find option.map_comp o_def)

lemma members_fold:
  assumes "\<not> (\<exists>w \<in> wires v. at_or_under d to w)" "\<And>a b p q w. v a = Some (p, w) \<Longrightarrow> v b = Some (q, w) \<Longrightarrow> a = b"
    and "distinct (map fst ms)" "\<And>c w. (c, w) \<in> set ms \<Longrightarrow> \<exists>p. v c = Some (p, w) \<and> at_or_under d old w"
    and "did \<inter> fst ` set ms = {}"
    and "distinct (map row_id (mt_rows t))"
    and "view_of (mt_rows t) = (\<lambda>c. if c \<in> did then map_option (\<lambda>(p, w). (p, renamed_wire (old, to) (Some d) w)) (v c) else v c)"
  shows "\<exists>t' l'. try_fold (member_renamed old to) (t, l) ms = Inr (t', l') \<and> map row_id (mt_rows t') = map row_id (mt_rows t) \<and>
    view_of (mt_rows t') = (\<lambda>c. if c \<in> did \<union> fst ` set ms then map_option (\<lambda>(p, w). (p, renamed_wire (old, to) (Some d) w)) (v c) else v c)"
  using assms(3-)
proof (induction ms arbitrary: did t l)
  case Nil
  then show ?case by simp
next
  case (Cons e ms)
  obtain c w where e: "e = (c, w)" by fastforce
  then obtain p where c: "v c = Some (p, w)" "at_or_under d old w" using Cons.prems(2) by (metis list.set_intros(1))
  then obtain rest where w: "w = old @ rest" by (auto simp: at_or_under_def)
  have mv: "renamed_wire (old, to) (Some d) w = to @ rest" using moves_under [OF c(2)] w by simp
  have "\<not> wire_taken c (to @ rest) t"
  proof
    assume "wire_taken c (to @ rest) t"
    then obtain b q where b: "b \<noteq> c" "view_of (mt_rows t) b = Some (q, to @ rest)"
      using wire_taken_view [OF Cons.prems(4)] by blast
    then obtain x where x: "v b = Some (q, x)" "x = to @ rest \<or> renamed_wire (old, to) (Some d) x = to @ rest"
      unfolding Cons.prems(5) by (auto split: if_splits)
    have held: "x \<in> wires v" "w \<in> wires v" using x(1) c(1) by (auto simp: wires_def)
    have "at_or_under d to (to @ rest)" using renamed_goes_under [OF c(2), of to] mv by simp
    then have "renamed_wire (old, to) (Some d) x = renamed_wire (old, to) (Some d) w" using x(2) held(1) assms(1) mv by auto
    then have "x = w" using renamed_inj [OF assms(1) held] by blast
    then show False using assms(2) [OF x(1)] c(1) b(1) by blast
  qed
  then have one: "member_renamed old to (t, l) e = Inr (on_row c (wire_put (to @ rest)) t, ledger_note l (Mailbox, c, Updated))"
    by (simp add: member_renamed_def e w strip_prefix_append)
  let ?t = "on_row c (wire_put (to @ rest)) t"
  have ids: "map row_id (mt_rows ?t) = map row_id (mt_rows t)" by (rule on_row_ids) (simp add: wire_put_def)
  have "c \<notin> did" using Cons.prems(3) e by auto
  then have view: "view_of (mt_rows ?t) = (\<lambda>b. if b \<in> insert c did then map_option (\<lambda>(p, w). (p, renamed_wire (old, to) (Some d) w)) (v b) else v b)"
    unfolding member_view [OF Cons.prems(4)] Cons.prems(5) using c(1) mv by (auto simp: fun_eq_iff)
  have rest: "distinct (map fst ms)" "insert c did \<inter> fst ` set ms = {}" "distinct (map row_id (mt_rows ?t))"
    using Cons.prems(1,3,4) e ids by auto
  have mem: "\<exists>p. v b = Some (p, x) \<and> at_or_under d old x" if "(b, x) \<in> set ms" for b x using Cons.prems(2) [of b x] that by simp
  obtain t' l' where "try_fold (member_renamed old to) (?t, ledger_note l (Mailbox, c, Updated)) ms = Inr (t', l')"
    "map row_id (mt_rows t') = map row_id (mt_rows ?t)"
    "view_of (mt_rows t') = (\<lambda>b. if b \<in> insert c did \<union> fst ` set ms then map_option (\<lambda>(p, w). (p, renamed_wire (old, to) (Some d) w)) (v b) else v b)"
    using Cons.IH [OF rest(1) mem rest(2,3) view] by blast
  then show ?case using one ids e by simp
qed

subsection \<open>One change\<close>

lemma rows_renamed_moves:
  assumes "pathed d (view_of (mt_rows t))" "distinct (map row_id (mt_rows t))" "view_of (mt_rows t) m = Some (p, old)"
    and "\<not> (\<exists>w \<in> wires (view_of (mt_rows t)). at_or_under d to w)"
  shows "\<exists>t' l'. rows_renamed m to (t, l) = Inr (t', l') \<and> map row_id (mt_rows t') = map row_id (mt_rows t) \<and>
    view_of (mt_rows t') = (\<lambda>c. map_option (\<lambda>(p, w). (p, renamed_wire (old, to) (Some d) w)) (view_of (mt_rows t) c))"
proof -
  let ?v = "view_of (mt_rows t)" and ?mv = "map_option (\<lambda>(p, w). (p, renamed_wire (old, to) (Some d) w))"
  define tree where "tree = tree_rows (mt_rows t) (length (mt_rows t)) {m}"
  define ms where "ms = map (\<lambda>row. (row_id row, imap_name (facts row))) (filter (\<lambda>row. row_id row \<in> tree) (mt_rows t))"
  have tree: "c \<in> tree \<longleftrightarrow> (m, c) \<in> (above_rel ?v)\<^sup>*" for c
    by (simp add: tree_def tree_rows_reach child_above [OF assms(2)])
  have mem: "(c, w) \<in> set ms \<longleftrightarrow> (\<exists>q. ?v c = Some (q, w) \<and> at_or_under d old w)" for c w
  proof -
    have "(c, w) \<in> set ms \<longleftrightarrow> (\<exists>q. ?v c = Some (q, w)) \<and> c \<in> tree"
      unfolding ms_def view_at [OF assms(2)] by auto
    then show ?thesis unfolding tree using above_names [OF assms(1) _ assms(3)] names_above [OF assms(1,3)] by blast
  qed
  have fst_ms: "map fst ms = map row_id (filter (\<lambda>row. row_id row \<in> tree) (mt_rows t))" by (simp add: ms_def o_def)
  have keys: "distinct (map fst ms)" unfolding fst_ms using assms(2) by (rule distinct_map_filter)
  have "(m, old) \<in> set ms" using mem assms(3) by auto
  then have "List.find (\<lambda>found. fst found = m) ms \<noteq> None" by (auto simp: find_None_iff)
  then obtain e where e: "List.find (\<lambda>found. fst found = m) ms = Some e" by blast
  then have "fst e = m" "e \<in> set ms" by (auto simp: find_Some_iff)
  then obtain x where x: "List.find (\<lambda>found. fst found = m) ms = Some (m, x)" "(m, x) \<in> set ms" using e by (cases e) simp
  then have old: "List.find (\<lambda>found. fst found = m) ms = Some (m, old)" using mem assms(3) x by auto
  have "\<exists>t' l'. try_fold (member_renamed old to) (t, l) ms = Inr (t', l') \<and> map row_id (mt_rows t') = map row_id (mt_rows t) \<and>
    view_of (mt_rows t') = (\<lambda>c. if c \<in> {} \<union> fst ` set ms then ?mv (?v c) else ?v c)"
  proof (rule members_fold [OF assms(4) _ keys _ _ assms(2)])
    fix a b p q w assume "?v a = Some (p, w)" "?v b = Some (q, w)"
    then show "a = b" by (rule pathed_unique [OF assms(1)])
  next
    fix c w assume "(c, w) \<in> set ms"
    then show "\<exists>p. ?v c = Some (p, w) \<and> at_or_under d old w" using mem by blast
  qed simp_all
  then obtain t' l' where t': "try_fold (member_renamed old to) (t, l) ms = Inr (t', l')" "map row_id (mt_rows t') = map row_id (mt_rows t)"
    "view_of (mt_rows t') = (\<lambda>c. if c \<in> {} \<union> fst ` set ms then ?mv (?v c) else ?v c)" by blast
  have "view_of (mt_rows t') c = ?mv (?v c)" for c
  proof (cases "c \<in> fst ` set ms")
    case False
    have "?mv (?v c) = ?v c"
    proof (cases "?v c")
      case (Some e)
      obtain q w where e: "e = (q, w)" by fastforce
      then have "\<not> at_or_under d old w" using False mem [of c w] Some by force
      then show ?thesis using Some e by (simp add: stays_elsewhere)
    qed simp
    then show ?thesis using t'(3) False by simp
  qed (use t'(3) in simp)
  then show ?thesis using t'(1,2) old by (auto simp: rows_renamed_def Let_def tree_def [symmetric] ms_def [symmetric])
qed

lemma renamed_written:
  assumes "pathed d (view_of (mt_rows t))" "distinct (map row_id (mt_rows t))" "view_of (mt_rows t) m = Some (p, old)"
    and "\<not> (\<exists>w \<in> wires (view_of (mt_rows t)). at_or_under d to w)"
  shows "\<exists>t' l'. change_written (t, l) (ChangeRenamed m to leaf parent) = Inr (t', l') \<and> map row_id (mt_rows t') = map row_id (mt_rows t) \<and>
    view_of (mt_rows t') = view_renamed m parent (old, to) d (view_of (mt_rows t))"
proof -
  let ?f = "\<lambda>row. row\<lparr>parent_id := parent, facts := (facts row)\<lparr>name := leaf\<rparr>\<rparr>"
  obtain t' l' where t': "rows_renamed m to (t, l) = Inr (t', l')" "map row_id (mt_rows t') = map row_id (mt_rows t)"
    "view_of (mt_rows t') = (\<lambda>c. map_option (\<lambda>(p, w). (p, renamed_wire (old, to) (Some d) w)) (view_of (mt_rows t) c))"
    using rows_renamed_moves [OF assms] by blast
  have "view_of (mt_rows (on_row m ?f t')) c = view_renamed m parent (old, to) d (view_of (mt_rows t)) c" for c
  proof -
    have "view_of (mt_rows (on_row m ?f t')) c = (if c = m then map_option (\<lambda>e. (parent, snd e)) (view_of (mt_rows t') m) else view_of (mt_rows t') c)"
      by (subst view_on_row) (simp_all add: view_find option.map_comp o_def)
    then show ?thesis unfolding t'(3) by (simp add: view_renamed_def option.map_comp o_def case_prod_unfold)
  qed
  moreover have "map row_id (mt_rows (on_row m ?f t')) = map row_id (mt_rows t)" using t'(2) by (simp add: on_row_ids)
  ultimately show ?thesis using t'(1) by (auto simp: fun_eq_iff)
qed

lemma created_written:
  assumes "distinct (map row_id (mt_rows t))" "row_id row \<notin> row_id ` set (mt_rows t)"
    and "imap_name (facts row) \<notin> wires (view_of (mt_rows t))"
  shows "\<exists>t' l'. change_written (t, l) (ChangeCreated row chosen) = Inr (t', l') \<and>
    map row_id (mt_rows t') = map row_id (mt_rows t) @ [row_id row] \<and>
    view_of (mt_rows t') = (view_of (mt_rows t))(row_id row \<mapsto> (parent_id row, imap_name (facts row)))"
proof -
  let ?row = "row\<lparr>facts := (facts row)\<lparr>parent_imap_name := None\<rparr>\<rparr>"
  have "\<not> wire_taken (row_id row) (imap_name (facts row)) t"
    using assms(3) by (auto simp: wire_taken_view [OF assms(1)] wires_def)
  moreover have "\<not> list_ex (\<lambda>held. row_id held = row_id row) (mt_rows t)" unfolding list_ex_iff using assms(2) by (metis imageI)
  ultimately have "upsert row t = Inr (t\<lparr>mt_rows := mt_rows t @ [?row]\<rparr>)" by (simp add: upsert_def Let_def)
  moreover have "mt_rows (override_put m r t) = mt_rows t" for m r t by (simp add: override_put_def)
  ultimately show ?thesis using assms(2) by (cases chosen) (simp_all add: view_snoc)
qed

lemma plain_written:
  "change_written (t, l) (ChangeSubscribed m b) = Inr (t', l') \<Longrightarrow> map row_id (mt_rows t') = map row_id (mt_rows t) \<and> view_of (mt_rows t') = view_of (mt_rows t)"
  "change_written (t, l) (ChangeRole m r n) = Inr (t', l') \<Longrightarrow> map row_id (mt_rows t') = map row_id (mt_rows t) \<and> view_of (mt_rows t') = view_of (mt_rows t)"
proof -
  have same: "map row_id (mt_rows (on_row m f t)) = map row_id (mt_rows t) \<and> view_of (mt_rows (on_row m f t)) = view_of (mt_rows t)"
    if "\<And>row. row_id (f row) = row_id row \<and> parent_id (f row) = parent_id row \<and> imap_name (facts (f row)) = imap_name (facts row)" for f t
  proof
    show "map row_id (mt_rows (on_row m f t)) = map row_id (mt_rows t)" by (rule on_row_ids) (simp add: that)
    show "view_of (mt_rows (on_row m f t)) = view_of (mt_rows t)"
      by (rule ext, subst view_on_row) (simp_all add: that view_find)
  qed
  show "change_written (t, l) (ChangeSubscribed m b) = Inr (t', l') \<Longrightarrow> map row_id (mt_rows t') = map row_id (mt_rows t) \<and> view_of (mt_rows t') = view_of (mt_rows t)"
    using same by auto
  have "mt_rows (override_put m r t) = mt_rows t" by (simp add: override_put_def)
  then show "change_written (t, l) (ChangeRole m r n) = Inr (t', l') \<Longrightarrow> map row_id (mt_rows t') = map row_id (mt_rows t) \<and> view_of (mt_rows t') = view_of (mt_rows t)"
    using same [of "\<lambda>row. row\<lparr>facts := (facts row)\<lparr>role := override_role r, sort_order := n\<rparr>\<rparr>" "override_put m r t"] by auto
qed

end
