(* ===== verification/Folder_Runs.thy ===== *)
theory Folder_Runs
  imports Folder_Send
begin

text \<open>
  What every step of a \<open>Mailbox/set\<close> does to the exchanges: it adds to them, and once a CREATE, RENAME
  or DELETE failed among them the run says that the tree may not be as asked, so that a pass reads it
  again.
\<close>

lemma step_thenE:
  assumes "step_then s f = (x, r')"
  obtains e where "s = (Inl e, r')" "x = Inl e" | a r1 where "s = (Inr a, r1)" "f a r1 = (x, r')"
  using assms by (cases s; cases "fst s") (auto simp: step_then_def)

fun changes_names :: "folder_command \<Rightarrow> bool" where
  "changes_names (ToCreate _) = True"
| "changes_names (ToRename _ _) = True"
| "changes_names (ToDelete _) = True"
| "changes_names _ = False"

fun failed_tree :: "folder_exchange \<Rightarrow> bool" where
  "failed_tree (Told c (Inl _)) = changes_names c"
| "failed_tree _ = False"

definition grows :: "job_run \<Rightarrow> job_run \<Rightarrow> bool" where
  "grows r r' \<longleftrightarrow> (\<exists>ys. snd r' = snd r @ ys \<and>
     (list_ex failed_tree ys \<or> fj_refused (fst r) = RefusedTree \<longrightarrow> fj_refused (fst r') = RefusedTree))"

lemma grows_refl [intro, simp]: "grows r r"
  by (simp add: grows_def)

lemma grows_trans [trans]: "grows a b \<Longrightarrow> grows b c \<Longrightarrow> grows a c"
  unfolding grows_def by (elim exE conjE, rule exI, rule conjI) auto

lemma grows_log: "grows r r' \<Longrightarrow> \<exists>ys. snd r' = snd r @ ys"
  by (auto simp: grows_def)

lemma grows_quiet: "snd r' = snd r \<Longrightarrow> fj_refused (fst r') = fj_refused (fst r) \<Longrightarrow> grows r r'"
  by (simp add: grows_def)

lemma refused_max [simp]: "max RefusedTree l = RefusedTree" "max l RefusedTree = RefusedTree"
  by (cases l; simp add: max_def less_eq_refused_level_def)+

lemma tell_log: "tell srv line c log = (x, log') \<Longrightarrow> (log' = log \<and> (\<exists>e. x = Inl e)) \<or> log' = log @ [Told c x]"
  by (auto simp: tell_def Let_def split: sum.splits)

lemma tell_grows:
  assumes "tell srv line c (snd r) = (x, log)" "\<not> changes_names c \<or> (\<exists>u. x = Inr u)"
  shows "grows r (fst r, log)"
  using tell_log [OF assms(1)] assms(2) by (cases x) (auto simp: grows_def)

lemma tell_marks:
  assumes "tell srv line c (snd r) = (x, log)" "fj_refused (fst r') = RefusedTree" "snd r' = log"
  shows "grows r r'"
  using tell_log [OF assms(1)] assms(2,3) by (auto simp: grows_def)

lemma grows_push [simp]: "grows r (push_change c r') = grows r r'"
  by (simp add: grows_def push_change_def)

lemma noted_level:
  "note_refused e l r = (stop, r') \<Longrightarrow> snd r' = snd r \<and> fj_refused (fst r') = max (fj_refused (fst r)) l"
  "note_contested e asked r = (stop, r') \<Longrightarrow> snd r' = snd r \<and> fj_refused (fst r') = RefusedTree"
  by (auto simp: note_refused_def note_contested_def)

lemma noted_grows: "note_refused e l r = (stop, r') \<Longrightarrow> grows r r'"
  using noted_level(1) [of e l r stop r'] by (auto simp: grows_def)

lemma inbox_grows: "open_inbox srv r = (x, r') \<Longrightarrow> grows r r'"
  using tell_grows [of srv "Inr []" "ToExamine INBOX" r]
  by (auto simp: open_inbox_def tell_examine_def grows_def split: if_splits sum.splits prod.splits)

lemma delimiters_grows: "job_delimiters srv r = (x, r') \<Longrightarrow> grows r r'"
  by (auto simp: job_delimiters_def ask_list_def Let_def grows_def split: option.splits sum.splits)

lemma named_grows: "job_named srv lib naming r = (x, r') \<Longrightarrow> grows r r'"
  unfolding job_named_def
  by (auto simp: Let_def dest!: delimiters_grows elim!: step_thenE split: sum.splits if_splits)

lemma subscribed_grows: "subscribe_made srv w b r = (x, y, r') \<Longrightarrow> grows r r'"
proof -
  assume s: "subscribe_made srv w b r = (x, y, r')"
  obtain z log where z: "tell_subscribe srv w (snd r) = (z, log)" by fastforce
  have base: "grows r (fst r, log)" by (rule tell_grows [OF z [unfolded tell_subscribe_def]]) simp
  show ?thesis
    using s base
    by (cases z) (auto simp: subscribe_made_def z Let_def split: if_splits prod.splits dest: noted_grows intro: grows_trans)
qed

lemma renamed_grows: "job_renamed pair r = (found, r') \<Longrightarrow> grows r r'"
  by (auto simp: job_renamed_def Let_def grows_def split: prod.splits)

lemma role_grows [simp]: "grows r (job_role m c r)"
  by (simp add: job_role_def)

lemma follow_grows: "job_follow srv ms found r = (x, r') \<Longrightarrow> grows r r'"
proof (induction ms arbitrary: r)
  case (Cons m ms)
  show ?case
  proof (cases "List.find (\<lambda>mw. mw_id mw = m) found")
    case None
    then show ?thesis using Cons by simp
  next
    case (Some mw)
    obtain y log where y: "tell_subscribe srv (mw_to mw) (snd r) = (y, log)" by fastforce
    have base: "grows r (fst r, log)" by (rule tell_grows [OF y [unfolded tell_subscribe_def]]) simp
    define r1 where "r1 = (case y of Inl e \<Rightarrow> if e = Refused then push_change (ChangeSubscribed m False) (fst r, log) else (fst r, log) | Inr _ \<Rightarrow> (fst r, log))"
    have r1: "grows r r1" using base by (simp add: r1_def split: sum.splits)
    obtain z log' where z: "tell_unsubscribe srv (mw_from mw) (snd r1) = (z, log')" by fastforce
    have "grows r1 (fst r1, log')" by (rule tell_grows [OF z [unfolded tell_unsubscribe_def]]) simp
    then have r2: "grows r (fst r1, log')" using r1 grows_trans by blast
    have "grows r r'" if "job_follow srv ms found (fst r1, log') = (x, r')" using Cons.IH [OF that] r2 grows_trans by blast
    then show ?thesis
      using Cons.prems Some y z base r1 r2 by (auto simp: step_then_def r1_def split: sum.splits if_splits)
  qed
qed simp

lemma subscription_grows: "job_subscribe srv m w b r = (x, r') \<Longrightarrow> grows r r'"
proof -
  assume s: "job_subscribe srv m w b r = (x, r')"
  obtain z log where z: "(if b then tell_subscribe srv w (snd r) else tell_unsubscribe srv w (snd r)) = (z, log)" by fastforce
  have base: "grows r (fst r, log)"
    using z by (cases b) (auto simp: tell_subscribe_def tell_unsubscribe_def intro: tell_grows)
  show ?thesis
    using s base
    by (cases z) (auto simp: job_subscribe_def z Let_def split: prod.splits dest: noted_grows intro: grows_trans)
qed

lemma create_grows:
  assumes "job_create srv lib st r = (x, r')"
  shows "grows r r'"
proof (cases st)
  case (StepCreate i m ng chosen subs)
  from assms show ?thesis
    unfolding job_create_def StepCreate folder_step.case
  proof (rule step_thenE)
    fix e assume "job_named srv lib ng r = (Inl e, r')"
    then show ?thesis by (rule named_grows)
  next
    fix ne r1 assume named: "job_named srv lib ng r = (Inr ne, r1)"
      and run: "(case ne of (n, delimiter) \<Rightarrow> \<lambda>r. case tell_create srv n (snd r) of
              (Inl e, log) \<Rightarrow> let (stop, r) = note_contested e \<lparr>ct_index = i, ct_naming = ng, ct_moving = None\<rparr> (fst r, log) in (Inl stop, r)
            | (Inr _, log) \<Rightarrow>
                let (subscribed, stands, r) = subscribe_made srv (nn_wire n) subs (fst r, log);
                     r = (names_after_create m n delimiter (fst r), snd r);
                     r = (case step_made (StepCreate i m ng chosen subs) (nn_wire n) subscribed (fj_gmail (fst r)) of
                            None \<Rightarrow> r | Some row \<Rightarrow> push_change (ChangeCreated row chosen) r)
                 in (Inr stands, r)) r1 = (x, r')"
    obtain n d where ne: "ne = (n, d)" by fastforce
    obtain z log where z: "tell_create srv n (snd r1) = (z, log)" by fastforce
    have "grows r1 r'"
    proof (cases z)
      case (Inl e)
      obtain stop r2 where n: "note_contested e \<lparr>ct_index = i, ct_naming = ng, ct_moving = None\<rparr> (fst r1, log) = (stop, r2)"
        by (cases "note_contested e \<lparr>ct_index = i, ct_naming = ng, ct_moving = None\<rparr> (fst r1, log)")
      have "r' = r2" using run unfolding ne by (simp add: z Inl n)
      then show ?thesis using tell_marks [OF z [unfolded tell_create_def]] noted_level(2) [OF n] by simp
    next
      case (Inr u)
      obtain b stands r2 where s: "subscribe_made srv (nn_wire n) subs (fst r1, log) = (b, stands, r2)"
        by (cases "subscribe_made srv (nn_wire n) subs (fst r1, log)")
      have "grows r1 (fst r1, log)" by (rule tell_grows [OF z [unfolded tell_create_def]]) (simp add: Inr)
      also have "grows (fst r1, log) r2" by (rule subscribed_grows [OF s])
      also have "grows r2 (names_after_create m n d (fst r2), snd r2)" by (simp add: grows_def names_after_create_def)
      also have "grows \<dots> r'"
        using run unfolding ne by (auto simp: z Inr s Let_def simp del: step_made.simps split: option.splits)
      finally show ?thesis .
    qed
    then show ?thesis using named_grows [OF named] grows_trans by blast
  qed
qed (use assms in \<open>auto simp: job_create_def\<close>)

lemma rename_grows:
  assumes "job_rename srv lib i m ng ms r = (x, r')"
  shows "grows r r'"
proof (cases "wire_of (fst r) m")
  case (Inl e)
  then show ?thesis using assms by (auto simp: job_rename_def)
next
  case (Inr old)
  from assms show ?thesis
    unfolding job_rename_def Inr sum.case
  proof (rule step_thenE)
    fix e assume "job_named srv lib ng r = (Inl e, r')"
    then show ?thesis by (rule named_grows)
  next
    fix ne r1 assume named: "job_named srv lib ng r = (Inr ne, r1)"
      and "(case ne of (to, _) \<Rightarrow> \<lambda>r. step_then (open_inbox srv r) (\<lambda>_ r.
            case tell_rename srv (old, to) (snd r) of
              (Inl e, log) \<Rightarrow> let (stop, r) = note_contested e \<lparr>ct_index = i, ct_naming = ng, ct_moving = Some m\<rparr> (fst r, log) in (Inl stop, r)
            | (Inr _, log) \<Rightarrow>
                let r = push_change (ChangeRenamed m (nn_wire to) (nn_leaf to) (under_id (ng_under ng))) (fst r\<lparr>fj_moves_mail := True\<rparr>, log);
                     (found, r) = job_renamed (old, nn_wire to) r
                 in job_follow srv ms found r)) r1 = (x, r')"
    then have run: "step_then (open_inbox srv r1) (\<lambda>_ r.
            case tell_rename srv (old, fst ne) (snd r) of
              (Inl e, log) \<Rightarrow> let (stop, r) = note_contested e \<lparr>ct_index = i, ct_naming = ng, ct_moving = Some m\<rparr> (fst r, log) in (Inl stop, r)
            | (Inr _, log) \<Rightarrow>
                let r = push_change (ChangeRenamed m (nn_wire (fst ne)) (nn_leaf (fst ne)) (under_id (ng_under ng))) (fst r\<lparr>fj_moves_mail := True\<rparr>, log);
                     (found, r) = job_renamed (old, nn_wire (fst ne)) r
                 in job_follow srv ms found r) = (x, r')" by (simp add: case_prod_unfold)
    have one: "grows r r1" by (rule named_grows [OF named])
    from run show ?thesis
    proof (rule step_thenE)
      fix e assume "open_inbox srv r1 = (Inl e, r')"
      then show ?thesis using inbox_grows one grows_trans by blast
    next
      fix u r2 assume inbox: "open_inbox srv r1 = (Inr u, r2)"
        and rest: "(case tell_rename srv (old, fst ne) (snd r2) of
              (Inl e, log) \<Rightarrow> let (stop, r) = note_contested e \<lparr>ct_index = i, ct_naming = ng, ct_moving = Some m\<rparr> (fst r2, log) in (Inl stop, r)
            | (Inr _, log) \<Rightarrow>
                let r = push_change (ChangeRenamed m (nn_wire (fst ne)) (nn_leaf (fst ne)) (under_id (ng_under ng))) (fst r2\<lparr>fj_moves_mail := True\<rparr>, log);
                     (found, r) = job_renamed (old, nn_wire (fst ne)) r
                 in job_follow srv ms found r) = (x, r')"
      have two: "grows r r2" using inbox_grows [OF inbox] one grows_trans by blast
      obtain z log where z: "tell_rename srv (old, fst ne) (snd r2) = (z, log)" by fastforce
      have "grows r2 r'"
      proof (cases z)
        case (Inl e)
        obtain stop r3 where n: "note_contested e \<lparr>ct_index = i, ct_naming = ng, ct_moving = Some m\<rparr> (fst r2, log) = (stop, r3)"
          by (cases "note_contested e \<lparr>ct_index = i, ct_naming = ng, ct_moving = Some m\<rparr> (fst r2, log)")
        have "r' = r3" using rest by (simp add: z Inl n)
        then show ?thesis using tell_marks [OF z [unfolded tell_rename_def]] noted_level(2) [OF n] by simp
      next
        case (Inr v)
        let ?c = "ChangeRenamed m (nn_wire (fst ne)) (nn_leaf (fst ne)) (under_id (ng_under ng))"
        let ?r = "push_change ?c (fst r2\<lparr>fj_moves_mail := True\<rparr>, log)"
        obtain found r3 where r3: "job_renamed (old, nn_wire (fst ne)) ?r = (found, r3)" by (cases "job_renamed (old, nn_wire (fst ne)) ?r")
        have "grows r2 (fst r2, log)" by (rule tell_grows [OF z [unfolded tell_rename_def]]) (simp add: Inr)
        also have "grows (fst r2, log) ?r" by (simp add: grows_def push_change_def)
        also have "grows ?r r3" by (rule renamed_grows [OF r3])
        also have "grows r3 r'" by (rule follow_grows) (use rest in \<open>simp add: z Inr r3\<close>)
        finally show ?thesis .
      qed
      then show ?thesis using two grows_trans by blast
    qed
  qed
qed

lemma update_grows:
  assumes "job_update srv lib st r = (x, r')"
  shows "grows r r'"
proof (cases st)
  case (StepUpdate i m rename ms subs chosen)
  have first: "grows r r1" if "(case rename of None \<Rightarrow> (Inr (), r) | Some ng \<Rightarrow> job_rename srv lib i m ng ms r) = (y, r1)" for y r1
    using that rename_grows by (cases rename) auto
  have second: "grows r1 r2" if "(case subs of None \<Rightarrow> (Inr (), r1) | Some b \<Rightarrow> job_subscribe srv m wire b r1) = (y, r2)" for wire y r1 r2
    using that subscription_grows by (cases subs) auto
  have third: "grows r1 (case chosen of None \<Rightarrow> r1 | Some c \<Rightarrow> job_role m c r1)" for r1 by (simp split: option.split)
  from assms show ?thesis
    unfolding job_update_def StepUpdate folder_step.case
  proof (elim step_thenE)
    fix u r1 wire r2 v r3
    assume a: "(case rename of None \<Rightarrow> (Inr (), r) | Some ng \<Rightarrow> job_rename srv lib i m ng ms r) = (Inr u, r1)"
      "(wire_of (fst r1) m, r1) = (Inr wire, r2)"
      "(case subs of None \<Rightarrow> (Inr (), r2) | Some b \<Rightarrow> job_subscribe srv m wire b r2) = (Inr v, r3)"
      "(Inr True, case chosen of None \<Rightarrow> r3 | Some c \<Rightarrow> job_role m c r3) = (x, r')"
    have "grows r r1" by (rule first [OF a(1)])
    also have "grows r1 r3" using second [OF a(3)] a(2) by simp
    also have "grows r3 r'" using third [of r3] a(4) by simp
    finally show ?thesis .
  next
    fix u r1 wire r2 e
    assume a: "(case rename of None \<Rightarrow> (Inr (), r) | Some ng \<Rightarrow> job_rename srv lib i m ng ms r) = (Inr u, r1)"
      "(wire_of (fst r1) m, r1) = (Inr wire, r2)"
      "(case subs of None \<Rightarrow> (Inr (), r2) | Some b \<Rightarrow> job_subscribe srv m wire b r2) = (Inl e, r')"
    have "grows r r1" by (rule first [OF a(1)])
    also have "grows r1 r'" using second [OF a(3)] a(2) by simp
    finally show ?thesis .
  next
    fix u r1 e
    assume a: "(case rename of None \<Rightarrow> (Inr (), r) | Some ng \<Rightarrow> job_rename srv lib i m ng ms r) = (Inr u, r1)"
      "(wire_of (fst r1) m, r1) = (Inl e, r')"
    then show ?thesis using first by auto
  qed (rule first)
qed (use assms in \<open>auto simp: job_update_def\<close>)

lemma destroy_grows:
  assumes "job_destroy srv st r = (x, r')"
  shows "grows r r'"
proof (cases st)
  case (StepDestroy i m b)
  from assms show ?thesis
    unfolding job_destroy_def StepDestroy folder_step.case
  proof (elim step_thenE)
    fix wire r1 u r2
    assume a: "(wire_of (fst r) m, r) = (Inr wire, r1)" "open_inbox srv r1 = (Inr u, r2)"
      and rest: "(case tell_delete srv wire (snd r2) of
              (Inl e, log) \<Rightarrow> let (stop, r) = note_refused e RefusedTree (fst r2, log) in (Inl stop, r)
            | (Inr _, log) \<Rightarrow>
                let r = push_change (ChangeDestroyed m) (fst r2\<lparr>fj_moves_mail := True\<rparr>, log)
                 in if b
                    then (case tell_unsubscribe srv wire (snd r) of (sent, log) \<Rightarrow> step_then (kept_quiet sent, fst r, log) (\<lambda>_ r. (Inr True, r)))
                    else (Inr True, r)) = (x, r')"
    have one: "grows r r2" using a inbox_grows by auto
    obtain z log where z: "tell_delete srv wire (snd r2) = (z, log)" by fastforce
    have "grows r2 r'"
    proof (cases z)
      case (Inl e)
      obtain stop r3 where n: "note_refused e RefusedTree (fst r2, log) = (stop, r3)" by (cases "note_refused e RefusedTree (fst r2, log)")
      have "r' = r3" using rest by (simp add: z Inl n)
      then show ?thesis using tell_marks [OF z [unfolded tell_delete_def]] noted_level(1) [OF n] by simp
    next
      case (Inr v)
      let ?r = "push_change (ChangeDestroyed m) (fst r2\<lparr>fj_moves_mail := True\<rparr>, log)"
      have "grows r2 (fst r2, log)" by (rule tell_grows [OF z [unfolded tell_delete_def]]) (simp add: Inr)
      also have "grows (fst r2, log) ?r" by (simp add: grows_def push_change_def)
      also have "grows ?r r'"
      proof (cases b)
        case True
        obtain sent log' where sent: "tell_unsubscribe srv wire (snd ?r) = (sent, log')" by fastforce
        have "grows ?r (fst ?r, log')" by (rule tell_grows [OF sent [unfolded tell_unsubscribe_def]]) simp
        then show ?thesis using rest True sent by (auto simp: z Inr step_then_def Let_def split: sum.splits)
      qed (use rest in \<open>simp add: z Inr Let_def\<close>)
      finally show ?thesis .
    qed
    then show ?thesis using one grows_trans by blast
  next
    fix wire r1 e assume "(wire_of (fst r) m, r) = (Inr wire, r1)" "open_inbox srv r1 = (Inl e, r')"
    then show ?thesis using inbox_grows by auto
  qed auto
qed (use assms in \<open>auto simp: job_destroy_def\<close>)

lemma one_grows: "remote_one srv lib st r = (x, r') \<Longrightarrow> grows r r'"
  by (cases st) (auto simp: remote_one_def intro: create_grows update_grows destroy_grows)

lemma run_grows: "remote_run srv lib steps r = (stands, r') \<Longrightarrow> grows r r'"
proof (induction steps arbitrary: r)
  case (Cons st steps)
  obtain x r1 where x: "remote_one srv lib st r = (x, r1)" by (cases "remote_one srv lib st r")
  have one: "grows r (job_end i e (fst r1), snd r1)" for i e
    using one_grows [OF x] by (simp add: grows_def job_end_def)
  have "grows r r'" if "remote_run srv lib steps (job_end i e (fst r1), snd r1) = (stands, r')" for i e
    using grows_trans [OF one Cons.IH [OF that]] .
  then show ?case using Cons.prems x one by (auto simp: Let_def split: sum.splits if_splits)
qed simp

lemma local_one_grows: "grows r (local_one r st)"
  by (cases st) (auto simp: Let_def grows_def job_end_def job_role_def push_change_def split: sum.split option.split)

lemma local_grows: "grows r (local_run steps r)"
  unfolding local_run_def
proof (induction steps arbitrary: r)
  case (Cons st steps)
  from grows_trans [OF local_one_grows Cons.IH] show ?case by simp
qed simp

lemma local_log: "snd (local_run steps r) = snd r"
proof -
  have "snd (local_one q st) = snd q" for q st
    by (cases st) (auto simp: Let_def job_role_def push_change_def split: sum.split option.split)
  then show ?thesis unfolding local_run_def by (induction steps arbitrary: r) simp_all
qed

text \<open>A whole call in which a CREATE, RENAME or DELETE failed keeps no session and asks for a pass.\<close>

lemma failed_marks:
  assumes "apply_steps srv lib fresh reached snapshot ask references = Some (still, forget, j, log)" "list_ex failed_tree log"
  shows "fj_refused j = RefusedTree \<and> \<not> still"
proof -
  define p where "p = planned_call lib fresh snapshot ask references"
  define remotes where "remotes = filter (\<lambda>s. \<not> is_local s) (pd_steps p)"
  define job where "job = job_new ask snapshot p"
  obtain stands r where r: "(if remotes = [] then (True, job, []) else if reached then remote_run srv lib remotes (job, []) else (False, job, [])) = (stands, r)"
    by (cases "if remotes = [] then (True, job, []) else if reached then remote_run srv lib remotes (job, []) else (False, job, [])")
  have out: "(j, log) = local_run (filter is_local (pd_steps p)) r"
    "still \<longleftrightarrow> remotes = [] \<or> stands \<and> fj_refused (fst r) = RefusedNothing"
    using assms(1) r by (auto simp: apply_steps_def Let_def p_def [symmetric] remotes_def [symmetric] job_def [symmetric] split: if_splits)
  then have log: "log = snd r" using local_log by (metis snd_conv)
  then have run: "remotes \<noteq> []" "remote_run srv lib remotes (job, []) = (stands, r)"
    using assms(2) r by (auto split: if_splits)
  have "fj_refused (fst r) = RefusedTree" using run_grows [OF run(2)] assms(2) log by (auto simp: grows_def)
  then show ?thesis
    using out run(1) local_grows [of r "filter is_local (pd_steps p)"] by (cases r) (auto simp: grows_def dest: sym)
qed

end
