(* ===== verification/Folder_Follow.thy ===== *)
theory Folder_Follow
  imports Rows_Follow Folder_Run Folder_Runs
begin

text \<open>
  The rows follow the server. What the server holds is the set of wire names, changed by each
  command it accepts; the work's changes, written to the rows, leave exactly those names.
\<close>

fun held_step :: "char \<Rightarrow> string set \<Rightarrow> folder_exchange \<Rightarrow> string set" where
  "held_step d held (Told (ToCreate w) (Inr _)) = insert w held"
| "held_step d held (Told (ToRename a b) (Inr _)) = renamed_wire (a, b) (Some d) ` held"
| "held_step d held (Told (ToDelete w) (Inr _)) = held - {w}"
| "held_step d held _ = held"

definition held_after :: "char \<Rightarrow> string set \<Rightarrow> folder_exchange list \<Rightarrow> string set" where
  "held_after d held log = foldl (held_step d) held log"

text \<open>
  What the work relies on of the server (RFC 3501 sections 6.3.3 to 6.3.5 and 6.3.8), where \<open>h\<close> is what
  it holds after each exchange: every name of its listing carries the one delimiter, what it accepts
  it does, it makes no mailbox under a name it holds, moves none to one it holds and none under itself.
  Of a CREATE, RENAME or DELETE that failed nothing is said: a RENAME may have moved part of a tree.
\<close>

definition server_holds :: "folder_server \<Rightarrow> char \<Rightarrow> (folder_exchange list \<Rightarrow> string set) \<Rightarrow> bool" where
  "server_holds srv d h \<longleftrightarrow>
     (\<forall>log entries. on_list srv log = Inr entries \<longrightarrow> entries \<noteq> [] \<and> (\<forall>e \<in> set entries. le_delimiter e = Some d)) \<and>
     (\<forall>log x. \<not> failed_tree x \<longrightarrow> h (log @ [x]) = held_step d (h log) x) \<and>
     (\<forall>log w. on_told srv log (ToCreate w) = Inr () \<longrightarrow> w \<notin> h log) \<and>
     (\<forall>log a b. on_told srv log (ToRename a b) = Inr () \<longrightarrow> b \<notin> h log \<and> \<not> at_or_under d a b)"

text \<open>Every command that failed left the names as they were.\<close>

definition clean :: "(folder_exchange list \<Rightarrow> string set) \<Rightarrow> folder_exchange list \<Rightarrow> bool" where
  "clean h log \<longleftrightarrow> (\<forall>a x b. log = a @ x # b \<longrightarrow> failed_tree x \<longrightarrow> h (a @ [x]) = h a)"

lemma clean_prefix: "clean h (a @ b) \<Longrightarrow> clean h a"
  by (force simp: clean_def)

lemma held_snoc [simp]: "held_after d held (log @ [x]) = held_step d (held_after d held log) x"
  by (simp add: held_after_def)

lemma failed_keeps: "failed_tree x \<Longrightarrow> held_step d held x = held"
  by (cases x rule: failed_tree.cases) (auto elim: changes_names.elims)

lemma clean_held:
  assumes "server_holds srv d h" "clean h log"
  shows "h log = held_after d (h []) log"
  using assms(2)
proof (induction log rule: rev_induct)
  case Nil
  then show ?case by (simp add: held_after_def)
next
  case (snoc x log)
  have "h (log @ [x]) = held_step d (h log) x"
  proof (cases "failed_tree x")
    case True
    then have "h (log @ [x]) = h log" using snoc.prems unfolding clean_def by blast
    then show ?thesis using True by (simp add: failed_keeps)
  next
    case False
    then show ?thesis using assms(1) unfolding server_holds_def by blast
  qed
  then show ?case using snoc.IH [OF clean_prefix [OF snoc.prems]] by simp
qed

definition rows_are :: "char \<Rightarrow> mailbox_table \<Rightarrow> bool \<Rightarrow> wire_names \<Rightarrow> mailbox_change list \<Rightarrow> string set \<Rightarrow> bool" where
  "rows_are d t0 tidy names cs held \<longleftrightarrow>
     (\<exists>t l. changes_written cs (t0, []) = Inr (t, l) \<and> distinct (map row_id (mt_rows t)) \<and>
        (\<forall>m p w. view_of (mt_rows t) m = Some (p, w) \<longrightarrow> map_of names m = Some w) \<and>
        (tidy \<longrightarrow> pathed d (view_of (mt_rows t)) \<and> dom (map_of names) = dom (view_of (mt_rows t))) \<and>
        wires (view_of (mt_rows t)) = held)"

definition names_are :: "char \<Rightarrow> wire_names \<Rightarrow> delimiters option \<Rightarrow> bool" where
  "names_are d names dl \<longleftrightarrow> distinct (map fst names) \<and> inj_on (map_of names) (dom (map_of names)) \<and>
     (case dl of None \<Rightarrow> True | Some dl \<Rightarrow> one_delimiter d dl \<and> distinct (map fst (dl_by_name dl)))"

definition follows :: "char \<Rightarrow> mailbox_table \<Rightarrow> bool \<Rightarrow> job_run \<Rightarrow> bool" where
  "follows d t0 tidy r \<longleftrightarrow>
     rows_are d t0 tidy (fj_names (fst r)) (fj_changes (fst r)) (held_after d (wires (view_of (mt_rows t0))) (snd r)) \<and>
     names_are d (fj_names (fst r)) (fj_delimiters (fst r))"

lemma rows_areE:
  assumes "rows_are d t0 tidy names cs held"
  obtains t l where "changes_written cs (t0, []) = Inr (t, l)" "distinct (map row_id (mt_rows t))"
    "\<And>m p w. view_of (mt_rows t) m = Some (p, w) \<Longrightarrow> map_of names m = Some w"
    "tidy \<Longrightarrow> pathed d (view_of (mt_rows t))" "tidy \<Longrightarrow> dom (map_of names) = dom (view_of (mt_rows t))"
    "wires (view_of (mt_rows t)) = held"
  using assms unfolding rows_are_def by blast

lemma rows_areI:
  assumes "changes_written cs (t0, []) = Inr (t, l)" "distinct (map row_id (mt_rows t))"
    "\<And>m p w. view_of (mt_rows t) m = Some (p, w) \<Longrightarrow> map_of names m = Some w"
    "tidy \<Longrightarrow> pathed d (view_of (mt_rows t)) \<and> dom (map_of names) = dom (view_of (mt_rows t))"
    "wires (view_of (mt_rows t)) = held"
  shows "rows_are d t0 tidy names cs held"
  unfolding rows_are_def using assms by blast

lemma changes_written_snoc: "changes_written cs s = Inr s' \<Longrightarrow> changes_written (cs @ [c]) s = change_written s' c"
  by (simp add: changes_written_def try_fold_append)

definition same_names :: "job_run \<Rightarrow> job_run \<Rightarrow> bool" where
  "same_names r r' \<longleftrightarrow> fj_names (fst r') = fj_names (fst r) \<and> (fj_delimiters (fst r) \<noteq> None \<longrightarrow> fj_delimiters (fst r') \<noteq> None)"

lemma same_names_refl [simp]: "same_names r r"
  by (simp add: same_names_def)

lemma same_names_trans: "same_names a b \<Longrightarrow> same_names b c \<Longrightarrow> same_names a c"
  by (simp add: same_names_def)

text \<open>A run that left names, changes and delimiters alone and that the server accepted nothing of.\<close>

lemma follows_quiet:
  assumes "follows d t0 tidy r" "fj_names (fst r') = fj_names (fst r)" "fj_changes (fst r') = fj_changes (fst r)"
    and "fj_delimiters (fst r') = fj_delimiters (fst r)" "\<And>held. held_after d held (snd r') = held_after d held (snd r)"
  shows "follows d t0 tidy r'"
  using assms unfolding follows_def by simp

lemma follows_push:
  assumes "follows d t0 tidy r" "c = ChangeSubscribed m b \<or> c = ChangeRole m ro n"
  shows "follows d t0 tidy (push_change c r)"
proof -
  have "rows_are d t0 tidy (fj_names (fst r)) (fj_changes (fst r)) (held_after d (wires (view_of (mt_rows t0))) (snd r))"
    using assms(1) by (simp add: follows_def)
  then obtain t l where t: "changes_written (fj_changes (fst r)) (t0, []) = Inr (t, l)" "distinct (map row_id (mt_rows t))"
    "\<And>m p w. view_of (mt_rows t) m = Some (p, w) \<Longrightarrow> map_of (fj_names (fst r)) m = Some w"
    "tidy \<Longrightarrow> pathed d (view_of (mt_rows t))" "tidy \<Longrightarrow> dom (map_of (fj_names (fst r))) = dom (view_of (mt_rows t))"
    "wires (view_of (mt_rows t)) = held_after d (wires (view_of (mt_rows t0))) (snd r)" by (rule rows_areE) blast
  obtain t' l' where t': "change_written (t, l) c = Inr (t', l')" using assms(2) by auto
  then have same: "map row_id (mt_rows t') = map row_id (mt_rows t)" "view_of (mt_rows t') = view_of (mt_rows t)"
    using assms(2) plain_written by blast+
  have "rows_are d t0 tidy (fj_names (fst r)) (fj_changes (fst r) @ [c]) (held_after d (wires (view_of (mt_rows t0))) (snd r))"
  proof (rule rows_areI)
    show "changes_written (fj_changes (fst r) @ [c]) (t0, []) = Inr (t', l')" using changes_written_snoc [OF t(1)] t' by simp
  qed (use t same in simp_all)
  then show ?thesis using assms(1) by (simp add: follows_def push_change_def)
qed

lemma follows_tells:
  assumes "follows d t0 tidy r" "tell srv line c (snd r) = (x, log)"
    and "x = Inr () \<longrightarrow> (\<forall>held. held_step d held (Told c (Inr ())) = held)"
  shows "follows d t0 tidy (fst r, log)"
proof (rule follows_quiet [OF assms(1)])
  show "held_after d held (snd (fst r, log)) = held_after d held (snd r)" for held
  proof (cases line)
    case (Inr s)
    then have "log = snd r @ [Told c x]" using assms(2) by (auto simp: tell_def Let_def)
    moreover have "held_step d held (Told c x) = held" for held
      using assms(3) by (cases x; cases c) auto
    ultimately show ?thesis by simp
  qed (use assms(2) in \<open>simp add: tell_def\<close>)
qed simp_all

lemma server_listing:
  assumes "server_holds srv d h" "on_list srv log = Inr entries"
  shows "entries \<noteq> []" "\<forall>e \<in> set entries. le_delimiter e = Some d"
  using assms unfolding server_holds_def by simp_all

lemma follows_listed:
  assumes "server_holds srv d h" "follows d t0 tidy r" "job_delimiters srv r = (x, r')"
  shows "follows d t0 tidy r'" "same_names r r'" "\<And>held. held_after d held (snd r') = held_after d held (snd r)"
    "\<And>dl. x = Inr dl \<Longrightarrow> fj_delimiters (fst r') = Some dl \<and> one_delimiter d dl"
proof -
  have "follows d t0 tidy r' \<and> same_names r r' \<and> (\<forall>held. held_after d held (snd r') = held_after d held (snd r)) \<and>
    (\<forall>dl. x = Inr dl \<longrightarrow> fj_delimiters (fst r') = Some dl \<and> one_delimiter d dl)"
  proof (cases "fj_delimiters (fst r)")
    case (Some dl)
    then show ?thesis using assms(2,3) by (auto simp: job_delimiters_def follows_def names_are_def)
  next
    case None
    show ?thesis
    proof (cases "on_list srv (snd r)")
      case (Inl e)
      then show ?thesis using assms(2,3) None by (auto simp: job_delimiters_def ask_list_def Let_def same_names_def follows_def)
    next
      case (Inr entries)
      then have "one_delimiter d (delimiters_of entries)" "distinct (map fst (dl_by_name (delimiters_of entries)))"
        using one_delimiter_listed server_listing [OF assms(1)] by blast+
      then show ?thesis using Inr assms(2,3) None
        by (auto simp: job_delimiters_def ask_list_def Let_def same_names_def follows_def names_are_def)
    qed
  qed
  then show "follows d t0 tidy r'" "same_names r r'" "\<And>held. held_after d held (snd r') = held_after d held (snd r)"
    "\<And>dl. x = Inr dl \<Longrightarrow> fj_delimiters (fst r') = Some dl \<and> one_delimiter d dl" by blast+
qed

text \<open>A new name adds one level to its parent's.\<close>

definition level_name :: "char \<Rightarrow> string option \<Rightarrow> string \<Rightarrow> bool" where
  "level_name d parent w = (case parent of None \<Rightarrow> d \<notin> set w | Some u \<Rightarrow> \<exists>seg. w = u @ d # seg \<and> d \<notin> set seg)"

lemma new_name_level:
  assumes "name_new lib typed \<lparr>pl_parent = parent, pl_delimiter = Some d\<rparr> = Inr n"
  shows "level_name d parent (nn_wire n)"
  using assms by (cases parent) (auto simp: name_new_def Let_def level_name_def split: if_splits)

lemma follows_named:
  assumes "server_holds srv d h" "follows d t0 tidy r" "job_named srv lib naming r = (x, r')"
  shows "follows d t0 tidy r'" "same_names r r'" "\<And>held. held_after d held (snd r') = held_after d held (snd r)"
    "\<And>n e. x = Inr (n, e) \<Longrightarrow> e = Some d \<and> fj_delimiters (fst r') \<noteq> None \<and>
       (case under_id (ng_under naming) of
          None \<Rightarrow> level_name d None (nn_wire n)
        | Some p \<Rightarrow> \<exists>u. map_of (fj_names (fst r)) p = Some u \<and> level_name d (Some u) (nn_wire n))"
proof -
  define place where "place = (case ng_under naming of Top \<Rightarrow> Inr None | UnderMailbox m \<Rightarrow>
    (case wire_of (fst r) m of Inl _ \<Rightarrow> Inl \<lparr>st_refusal = invalid_folder ''parentId'', st_stands = True\<rparr> | Inr wire \<Rightarrow> Inr (Some wire)))"
  have "follows d t0 tidy r' \<and> same_names r r' \<and> (\<forall>held. held_after d held (snd r') = held_after d held (snd r)) \<and>
    (\<forall>n e. x = Inr (n, e) \<longrightarrow> e = Some d \<and> fj_delimiters (fst r') \<noteq> None \<and> (\<exists>parent. place = Inr parent \<and> level_name d parent (nn_wire n)))"
  proof (cases place)
    case (Inl e)
    then show ?thesis using assms(2,3) by (auto simp: job_named_def place_def)
  next
    case (Inr parent)
    obtain y r1 where y: "job_delimiters srv r = (y, r1)" by (cases "job_delimiters srv r")
    note dl = follows_listed [OF assms(1,2) y]
    show ?thesis
    proof (cases y)
      case (Inl e)
      then show ?thesis using assms(3) Inr y dl(1,2,3) by (auto simp: job_named_def place_def step_then_def)
    next
      case y': (Inr dls)
      then have one: "fj_delimiters (fst r1) = Some dls" "one_delimiter d dls" using dl(4) by blast+
      have delim: "(case parent of None \<Rightarrow> dl_top dls | Some wire \<Rightarrow> delimiter_under dls wire) = Some d"
        using one(2) one_delimiter_under [OF one(2)] by (auto simp: one_delimiter_def split: option.splits)
      show ?thesis
        using assms(3) Inr y y' dl(1,2,3) one(1) new_name_level
        by (auto simp: job_named_def place_def [symmetric] step_then_def Let_def delim split: sum.splits if_splits)
    qed
  qed
  moreover have "case under_id (ng_under naming) of
      None \<Rightarrow> level_name d None w
    | Some p \<Rightarrow> \<exists>u. map_of (fj_names (fst r)) p = Some u \<and> level_name d (Some u) w"
    if "place = Inr parent" "level_name d parent w" for parent w
  proof (cases "ng_under naming")
    case (UnderMailbox p)
    then show ?thesis using that by (cases "map_of (fj_names (fst r)) p") (auto simp: place_def wire_of_def ok_or_def)
  qed (use that in \<open>simp add: place_def\<close>)
  ultimately show "follows d t0 tidy r'" "same_names r r'" "\<And>held. held_after d held (snd r') = held_after d held (snd r)"
    "\<And>n e. x = Inr (n, e) \<Longrightarrow> e = Some d \<and> fj_delimiters (fst r') \<noteq> None \<and>
       (case under_id (ng_under naming) of
          None \<Rightarrow> level_name d None (nn_wire n)
        | Some p \<Rightarrow> \<exists>u. map_of (fj_names (fst r)) p = Some u \<and> level_name d (Some u) (nn_wire n))"
    by blast+
qed

lemma follows_inbox:
  assumes "follows d t0 tidy r" "open_inbox srv r = (x, r')"
  shows "follows d t0 tidy r'" "same_names r r'" "\<And>held. held_after d held (snd r') = held_after d held (snd r)"
proof -
  have "fj_names (fst r') = fj_names (fst r) \<and> fj_changes (fst r') = fj_changes (fst r) \<and> fj_delimiters (fst r') = fj_delimiters (fst r) \<and>
      (\<forall>held. held_after d held (snd r') = held_after d held (snd r))"
    using assms(2) by (auto simp: open_inbox_def tell_examine_def tell_def Let_def split: if_splits sum.splits)
  then show "follows d t0 tidy r'" "same_names r r'" "\<And>held. held_after d held (snd r') = held_after d held (snd r)"
    using follows_quiet [OF assms(1)] by (auto simp: same_names_def)
qed

subsection \<open>A create\<close>

lemma server_creates:
  assumes "server_holds srv d h" "on_told srv log (ToCreate w) = Inr ()" "clean h log"
  shows "w \<notin> held_after d (h []) log"
  using assms(1,2) clean_held [OF assms(1,3)] unfolding server_holds_def by metis

lemma server_renames:
  assumes "server_holds srv d h" "on_told srv log (ToRename a b) = Inr ()" "clean h log"
  shows "b \<notin> held_after d (h []) log" "\<not> at_or_under d a b"
  using assms(1,2) clean_held [OF assms(1,3)] unfolding server_holds_def by metis+

text \<open>A run that ends clean was clean on its way.\<close>

lemma clean_before: "grows r r' \<Longrightarrow> clean h (snd r') \<Longrightarrow> clean h (snd r)"
  using clean_prefix grows_log by metis

lemma told_what:
  assumes "tell srv line c log = (Inr u, log')"
  shows "on_told srv log c = Inr () \<and> log' = log @ [Told c (Inr ())]"
  using assms by (cases line) (auto simp: tell_def Let_def)

lemma named_row:
  assumes "dom names = dom (v :: view)" "\<And>m p w. v m = Some (p, w) \<Longrightarrow> names m = Some w" "names m = Some w"
  obtains p where "v m = Some (p, w)"
proof (cases "v m")
  case None
  have "m \<in> dom v" unfolding assms(1) [symmetric] using assms(3) by (rule domI)
  then show ?thesis using None by auto
next
  case (Some e)
  then show ?thesis using assms(2) [of m "fst e" "snd e"] assms(3) that by (cases e) auto
qed

text \<open>Where a new name goes, seen in the rows.\<close>

lemma level_in_rows:
  assumes "case parent of None \<Rightarrow> level_name d None w | Some p \<Rightarrow> \<exists>u. map_of names p = Some u \<and> level_name d (Some u) w"
    and "dom (map_of names) = dom v" "\<And>m p w. v m = Some (p, w) \<Longrightarrow> map_of names m = Some w"
  shows "level_ok d v parent w"
proof (cases parent)
  case None
  then show ?thesis using assms(1) by (simp add: level_ok_def level_name_def)
next
  case (Some p)
  then obtain u where u: "map_of names p = Some u" "level_name d (Some u) w" using assms(1) by auto
  obtain q where "v p = Some (q, u)" by (rule named_row [OF assms(2,3) u(1)])
  then show ?thesis using u(2) Some by (auto simp: level_ok_def level_name_def)
qed

definition create_noted :: "mailbox_id \<Rightarrow> new_name \<Rightarrow> char option \<Rightarrow> mailbox_row \<Rightarrow> role_override option \<Rightarrow> job_run \<Rightarrow> job_run" where
  "create_noted m n e row chosen r = push_change (ChangeCreated row chosen) (names_after_create m n e (fst r), snd r)"

lemma follows_created:
  assumes "follows d t0 True r" "m \<notin> dom (map_of (fj_names (fst r)))"
    and "nn_wire n \<notin> held_after d (wires (view_of (mt_rows t0))) (snd r)"
    and "case parent of None \<Rightarrow> level_name d None (nn_wire n)
      | Some p \<Rightarrow> \<exists>u. map_of (fj_names (fst r)) p = Some u \<and> level_name d (Some u) (nn_wire n)"
    and "row_id row = m" "parent_id row = parent" "imap_name (facts row) = nn_wire n"
    and "\<And>held. held_after d held (snd r') = insert (nn_wire n) (held_after d held (snd r))"
    and "fj_names (fst r') = fj_names (fst r)" "fj_changes (fst r') = fj_changes (fst r)" "fj_delimiters (fst r') = fj_delimiters (fst r)"
  shows "follows d t0 True (create_noted m n (Some d) row chosen r')"
proof -
  let ?N = "fj_names (fst r)" and ?S = "wires (view_of (mt_rows t0))"
  have are: "rows_are d t0 True ?N (fj_changes (fst r)) (held_after d ?S (snd r))" and fine: "names_are d ?N (fj_delimiters (fst r))"
    using assms(1) by (simp_all add: follows_def)
  from are obtain t l where t: "changes_written (fj_changes (fst r)) (t0, []) = Inr (t, l)" "distinct (map row_id (mt_rows t))"
    "\<And>m p w. view_of (mt_rows t) m = Some (p, w) \<Longrightarrow> map_of ?N m = Some w"
    "pathed d (view_of (mt_rows t))" "dom (map_of ?N) = dom (view_of (mt_rows t))"
    "wires (view_of (mt_rows t)) = held_after d ?S (snd r)" by (rule rows_areE) simp_all
  let ?v = "view_of (mt_rows t)"
  have new: "m \<notin> dom ?v" "row_id row \<notin> row_id ` set (mt_rows t)" using assms(2,5) t(5) by (simp_all add: view_dom)
  have free: "nn_wire n \<notin> wires ?v" using assms(3) t(6) by simp
  obtain t' l' where t': "change_written (t, l) (ChangeCreated row chosen) = Inr (t', l')"
    "map row_id (mt_rows t') = map row_id (mt_rows t) @ [m]" "view_of (mt_rows t') = ?v(m \<mapsto> (parent, nn_wire n))"
    using created_written [OF t(2) new(2) free [folded assms(7)], of l chosen] unfolding assms(5,6,7) by blast
  have "level_ok d ?v parent (nn_wire n)" by (rule level_in_rows [OF assms(4) t(5,3)])
  then have path: "pathed d (view_of (mt_rows t'))" unfolding t'(3) by (rule view_created_pathed [OF t(4) new(1) _ free])
  have names: "map_of (names_made m (nn_wire n) ?N) = (map_of ?N)(m \<mapsto> nn_wire n)" by (simp add: names_made_def update_conv')
  have "rows_are d t0 True (names_made m (nn_wire n) ?N) (fj_changes (fst r) @ [ChangeCreated row chosen]) (insert (nn_wire n) (held_after d ?S (snd r)))"
  proof (rule rows_areI)
    show "changes_written (fj_changes (fst r) @ [ChangeCreated row chosen]) (t0, []) = Inr (t', l')"
      using changes_written_snoc [OF t(1)] t'(1) by simp
    show "distinct (map row_id (mt_rows t'))" using t'(2) t(2) new(2) assms(5) by simp
    show "map_of (names_made m (nn_wire n) ?N) c = Some w" if "view_of (mt_rows t') c = Some (p, w)" for c p w
      using that t(3) unfolding t'(3) names by (auto split: if_splits)
    show "pathed d (view_of (mt_rows t')) \<and> dom (map_of (names_made m (nn_wire n) ?N)) = dom (view_of (mt_rows t'))"
      using path t(5) unfolding t'(3) names by simp
    show "wires (view_of (mt_rows t')) = insert (nn_wire n) (held_after d ?S (snd r))"
      unfolding t'(3) view_created_wires [OF new(1)] t(6) ..
  qed
  moreover have "names_are d (names_made m (nn_wire n) ?N) (map_option (delimiters_made (nn_wire n) (Some d)) (fj_delimiters (fst r)))"
  proof -
    have "inj_on (map_of (names_made m (nn_wire n) ?N)) (dom (map_of (names_made m (nn_wire n) ?N)))"
    proof (rule inj_onI)
      fix a b assume ab: "a \<in> dom (map_of (names_made m (nn_wire n) ?N))" "b \<in> dom (map_of (names_made m (nn_wire n) ?N))"
        "map_of (names_made m (nn_wire n) ?N) a = map_of (names_made m (nn_wire n) ?N) b"
      have old: "map_of ?N c \<noteq> Some (nn_wire n)" for c
      proof
        assume c: "map_of ?N c = Some (nn_wire n)"
        obtain p where "?v c = Some (p, nn_wire n)" by (rule named_row [OF t(5,3) c])
        then show False using free by (auto simp: wires_def)
      qed
      show "a = b" using ab old fine unfolding names names_are_def by (auto split: if_splits dest: inj_onD)
    qed
    moreover have "distinct (map fst (names_made m (nn_wire n) ?N))" using fine by (simp add: names_are_def names_made_def distinct_update)
    moreover have "distinct (map fst (dl_by_name (delimiters_made (nn_wire n) (Some d) dl)))" if "distinct (map fst (dl_by_name dl))" for dl
      using that by (simp add: delimiters_made_def distinct_update)
    ultimately show ?thesis using fine one_delimiter_made by (auto simp: names_are_def split: option.splits)
  qed
  ultimately show ?thesis using assms(8-11) by (simp add: follows_def create_noted_def push_change_def names_after_create_def)
qed

lemma subscribed_keeps:
  assumes "subscribe_made srv w subs r = (b, stands, r')"
  shows "fj_names (fst r') = fj_names (fst r)" "fj_changes (fst r') = fj_changes (fst r)"
    "fj_delimiters (fst r') = fj_delimiters (fst r)" "\<And>held. held_after d held (snd r') = held_after d held (snd r)"
    "fj_gmail (fst r') = fj_gmail (fst r)"
  using assms
  by (auto simp: subscribe_made_def tell_subscribe_def tell_def Let_def note_refused_def split: if_splits sum.splits)

lemma follows_noted:
  assumes "follows d t0 tidy r" "note_contested e asked r = (stop, r') \<or> note_refused e level r = (stop, r')"
  shows "follows d t0 tidy r' \<and> same_names r r'"
  using assms by (auto simp: note_contested_def note_refused_def follows_def same_names_def)

lemma told_not:
  assumes "tell srv line c log = (Inl e, log')"
  shows "held_after d held log' = held_after d held log"
  using assms by (cases line; cases c) (auto simp: tell_def Let_def)

lemma follows_create:
  assumes "server_holds srv d h" "follows d t0 True r"
    "m \<notin> dom (map_of (fj_names (fst r)))" "job_create srv lib (StepCreate index m naming chosen subs) r = (x, r')"
    and begins: "h [] = wires (view_of (mt_rows t0))" and clean: "clean h (snd r')"
  shows "follows d t0 True r' \<and> dom (map_of (fj_names (fst r'))) \<subseteq> insert m (dom (map_of (fj_names (fst r))))"
proof -
  obtain y r1 where y: "job_named srv lib naming r = (y, r1)" by (cases "job_named srv lib naming r")
  note named = follows_named [OF assms(1,2) y]
  have same: "fj_names (fst r1) = fj_names (fst r)" using named(2) by (simp add: same_names_def)
  show ?thesis
  proof (cases y)
    case (Inl e)
    then show ?thesis using assms(4) y named(1) same by (auto simp: job_create_def step_then_def)
  next
    case (Inr ne)
    obtain n e where ne: "ne = (n, e)" by fastforce
    have e: "e = Some d" and level: "case under_id (ng_under naming) of None \<Rightarrow> level_name d None (nn_wire n)
        | Some p \<Rightarrow> \<exists>u. map_of (fj_names (fst r1)) p = Some u \<and> level_name d (Some u) (nn_wire n)"
      using named(4) [of n e] Inr ne unfolding same by blast+
    obtain z log where z: "tell_create srv n (snd r1) = (z, log)" by fastforce
    show ?thesis
    proof (cases z)
      case fail: (Inl err)
      let ?asked = "\<lparr>ct_index = index, ct_naming = naming, ct_moving = None\<rparr>"
      obtain stop r2 where nr: "note_contested err ?asked (fst r1, log) = (stop, r2)" by (cases "note_contested err ?asked (fst r1, log)")
      have "follows d t0 True (fst r1, log)"
        by (rule follows_quiet [OF named(1)]) (use z fail told_not in \<open>auto simp: tell_create_def\<close>)
      then have "follows d t0 True r2 \<and> same_names (fst r1, log) r2" using follows_noted nr by blast
      moreover have "r' = r2" using assms(4) y Inr ne z fail nr by (simp add: job_create_def step_then_def)
      ultimately show ?thesis using same by (auto simp: same_names_def)
    next
      case (Inr u)
      have told: "on_told srv (snd r1) (ToCreate (nn_wire n)) = Inr ()" "log = snd r1 @ [Told (ToCreate (nn_wire n)) (Inr ())]"
        using told_what z Inr unfolding tell_create_def by blast+
      obtain b stands r2 where r2: "subscribe_made srv (nn_wire n) subs (fst r1, log) = (b, stands, r2)"
        by (cases "subscribe_made srv (nn_wire n) subs (fst r1, log)")
      have sub: "fj_names (fst r2) = fj_names (fst r1)" "fj_changes (fst r2) = fj_changes (fst r1)"
        "fj_delimiters (fst r2) = fj_delimiters (fst r1)" "held_after d held (snd r2) = held_after d held log"
        "fj_gmail (fst r2) = fj_gmail (fst r1)" for held
        using subscribed_keeps [OF r2] by simp_all
      obtain row where row: "step_made (StepCreate index m naming chosen subs) (nn_wire n) b (fj_gmail (fst r2)) = Some row"
        "row_id row = m" "parent_id row = under_id (ng_under naming)" "imap_name (facts row) = nn_wire n"
        by (simp add: Let_def)
      have r': "r' = create_noted m n (Some d) row chosen r2"
        using assms(4) y \<open>y = Inr ne\<close> ne z Inr r2 e row(1)
        by (simp add: job_create_def step_then_def Let_def create_noted_def names_after_create_def del: step_made.simps)
      obtain ys where "snd r2 = (snd r1 @ [Told (ToCreate (nn_wire n)) (Inr ())]) @ ys"
        using grows_log [OF subscribed_grows [OF r2]] told(2) by auto
      then have "clean h (snd r1)" using clean clean_prefix by (simp add: r' create_noted_def push_change_def)
      then have "nn_wire n \<notin> held_after d (wires (view_of (mt_rows t0))) (snd r1)"
        using server_creates [OF assms(1) told(1)] begins by simp
      then have "follows d t0 True (create_noted m n (Some d) row chosen r2)"
        by (intro follows_created [OF named(1) _ _ level row(2-4)]) (use assms(3) same sub told in simp_all)
      moreover have "dom (map_of (fj_names (fst (create_noted m n (Some d) row chosen r2)))) \<subseteq> insert m (dom (map_of (fj_names (fst r))))"
        using sub(1) same by (auto simp: create_noted_def push_change_def names_after_create_def names_made_def update_conv')
      ultimately show ?thesis using r' by simp
    qed
  qed
qed

subsection \<open>A rename\<close>

definition rename_noted :: "mailbox_id \<Rightarrow> string \<times> new_name \<Rightarrow> mailbox_id option \<Rightarrow> job_run \<Rightarrow> moved_wire list \<times> job_run" where
  "rename_noted m p parent r =
     job_renamed (fst p, nn_wire (snd p)) (push_change (ChangeRenamed m (nn_wire (snd p)) (nn_leaf (snd p)) parent) (fst r\<lparr>fj_moves_mail := True\<rparr>, snd r))"

lemma follows_renamed:
  assumes "follows d t0 True r" "map_of (fj_names (fst r)) m = Some old" "fj_delimiters (fst r) \<noteq> None"
    and "nn_wire n \<notin> held_after d (wires (view_of (mt_rows t0))) (snd r)" "\<not> at_or_under d old (nn_wire n)"
    and "case parent of None \<Rightarrow> level_name d None (nn_wire n)
      | Some p \<Rightarrow> \<exists>u. map_of (fj_names (fst r)) p = Some u \<and> level_name d (Some u) (nn_wire n)"
    and "rename_noted m (old, n) parent (fst r, snd r @ [Told (ToRename old (nn_wire n)) (Inr ())]) = (found, r')"
  shows "follows d t0 True r'" "dom (map_of (fj_names (fst r'))) = dom (map_of (fj_names (fst r)))"
proof -
  let ?N = "fj_names (fst r)" and ?S = "wires (view_of (mt_rows t0))" and ?to = "nn_wire n"
  let ?c = "ChangeRenamed m ?to (nn_leaf n) parent" and ?mv = "renamed_wire (old, ?to) (Some d)"
  have are: "rows_are d t0 True ?N (fj_changes (fst r)) (held_after d ?S (snd r))" and fine: "names_are d ?N (fj_delimiters (fst r))"
    using assms(1) by (simp_all add: follows_def)
  from are obtain t l where t: "changes_written (fj_changes (fst r)) (t0, []) = Inr (t, l)" "distinct (map row_id (mt_rows t))"
    "\<And>m p w. view_of (mt_rows t) m = Some (p, w) \<Longrightarrow> map_of ?N m = Some w"
    "pathed d (view_of (mt_rows t))" "dom (map_of ?N) = dom (view_of (mt_rows t))"
    "wires (view_of (mt_rows t)) = held_after d ?S (snd r)" by (rule rows_areE) simp_all
  let ?v = "view_of (mt_rows t)"
  obtain dl where dl: "fj_delimiters (fst r) = Some dl" "one_delimiter d dl" "distinct (map fst (dl_by_name dl))"
    using assms(3) fine by (auto simp: names_are_def)
  define names where "names = fst (names_renamed (old, ?to) (Some d) ?N)"
  have keys: "distinct (map fst ?N)" using fine by (simp add: names_are_def)
  have names: "map_of names c = map_option ?mv (map_of ?N c)" "distinct (map fst names)" for c
    using names_renamed_at [OF keys] by (simp_all add: names_def)
  have dom: "dom (map_of names) = dom (map_of ?N)" using names(1) by (auto simp: dom_def)
  obtain q where q: "?v m = Some (q, old)" by (rule named_row [OF t(5,3) assms(2)])
  have held: "?to \<notin> wires ?v" using assms(4) t(6) by simp
  have free: "\<not> (\<exists>w \<in> wires ?v. at_or_under d ?to w)" using pathed_closed [OF t(4)] held by blast
  obtain t' l' where t': "change_written (t, l) ?c = Inr (t', l')" "map row_id (mt_rows t') = map row_id (mt_rows t)"
    "view_of (mt_rows t') = view_renamed m parent (old, ?to) d ?v"
    using renamed_written [OF t(4,2) q free] by blast
  have level: "level_ok d ?v parent ?to" by (rule level_in_rows [OF assms(6) t(5,3)])
  have are': "rows_are d t0 True names (fj_changes (fst r) @ [?c]) (?mv ` held_after d ?S (snd r))"
  proof (rule rows_areI)
    show "changes_written (fj_changes (fst r) @ [?c]) (t0, []) = Inr (t', l')"
      unfolding changes_written_snoc [OF t(1)] by (rule t'(1))
    show "distinct (map row_id (mt_rows t'))" unfolding t'(2) by (rule t(2))
    show "map_of names c = Some w" if "view_of (mt_rows t') c = Some (p, w)" for c p w
      using that t(3) unfolding t'(3) view_renamed_at names(1) by auto
    show "pathed d (view_of (mt_rows t')) \<and> dom (map_of names) = dom (view_of (mt_rows t'))"
      unfolding t'(3) dom using view_renamed_pathed [OF t(4) q level free assms(5)] t(5) by (auto simp: view_renamed_def dom_def)
    show "wires (view_of (mt_rows t')) = ?mv ` held_after d ?S (snd r)"
      unfolding t'(3) view_renamed_wires t(6) ..
  qed
  have "inj_on (map_of names) (dom (map_of names))"
  proof (rule inj_onI)
    fix a b assume ab: "a \<in> dom (map_of names)" "b \<in> dom (map_of names)" "map_of names a = map_of names b"
    then obtain x y where xy: "map_of ?N a = Some x" "map_of ?N b = Some y" "?mv x = ?mv y" unfolding names(1) by auto
    have in_rows: "w \<in> wires ?v" if at: "map_of ?N c = Some w" for c w
    proof -
      obtain p where "?v c = Some (p, w)" by (rule named_row [OF t(5,3) at])
      then show ?thesis by (auto simp: wires_def)
    qed
    have "x = y" using renamed_inj [OF free in_rows [OF xy(1)] in_rows [OF xy(2)] xy(3)] .
    then have "map_of ?N a = map_of ?N b" "a \<in> dom (map_of ?N)" "b \<in> dom (map_of ?N)" using xy by auto
    then show "a = b" using fine unfolding names_are_def by (blast dest: inj_onD)
  qed
  then have "names_are d names (Some (delimiters_renamed (old, ?to) dl))"
    using names(2) one_delimiter_renamed [OF dl(2,3)] by (simp add: names_are_def)
  moreover have r': "fj_names (fst r') = names" "fj_changes (fst r') = fj_changes (fst r) @ [?c]"
    "fj_delimiters (fst r') = Some (delimiters_renamed (old, ?to) dl)" "snd r' = snd r @ [Told (ToRename old ?to) (Inr ())]"
    using assms(7) dl one_delimiter_under [OF dl(2)]
    by (auto simp: rename_noted_def job_renamed_def push_change_def Let_def names_def split: prod.splits)
  ultimately show "follows d t0 True r'" using are' by (simp add: follows_def)
  show "dom (map_of (fj_names (fst r'))) = dom (map_of (fj_names (fst r)))" using r'(1) dom by simp
qed

lemma follows_tells_quiet:
  assumes "follows d t0 tidy r" "tell srv line c (snd r) = (x, log)" "\<And>held. held_step d held (Told c (Inr ())) = held"
  shows "follows d t0 tidy (fst r, log)"
  by (rule follows_tells [OF assms(1,2)]) (use assms(3) in simp)

lemma follows_carried:
  assumes "follows d t0 tidy r" "job_follow srv ms found r = (x, r')"
  shows "follows d t0 tidy r' \<and> fj_names (fst r') = fj_names (fst r)"
  using assms
proof (induction ms arbitrary: r)
  case Nil
  then show ?case by simp
next
  case (Cons m ms)
  show ?case
  proof (cases "List.find (\<lambda>mw. mw_id mw = m) found")
    case None
    then show ?thesis using Cons.IH [OF Cons.prems(1)] Cons.prems(2) by simp
  next
    case (Some mw)
    obtain y log where y: "tell_subscribe srv (mw_to mw) (snd r) = (y, log)" by fastforce
    have base: "follows d t0 tidy (fst r, log)"
      by (rule follows_tells_quiet [OF Cons.prems(1) y [unfolded tell_subscribe_def]]) simp
    define r1 where "r1 = (case y of Inl e \<Rightarrow> if e = Refused then push_change (ChangeSubscribed m False) (fst r, log) else (fst r, log) | Inr _ \<Rightarrow> (fst r, log))"
    have "follows d t0 tidy r1"
      using base follows_push [OF base disjI1 [OF refl]] by (simp add: r1_def split: sum.splits)
    moreover have "fj_names (fst r1) = fj_names (fst r)" by (simp add: r1_def push_change_def split: sum.splits)
    ultimately have r1: "follows d t0 tidy r1" "fj_names (fst r1) = fj_names (fst r)" .
    obtain z log' where z: "tell_unsubscribe srv (mw_from mw) (snd r1) = (z, log')" by fastforce
    have r2: "follows d t0 tidy (fst r1, log')"
      by (rule follows_tells_quiet [OF r1(1) z [unfolded tell_unsubscribe_def]]) simp
    show ?thesis
      using Cons.prems(2) Some y z base r1 r2 Cons.IH [OF r2]
      by (auto simp: step_then_def r1_def split: sum.splits if_splits)
  qed
qed

lemma follows_rename:
  assumes "server_holds srv d h" "follows d t0 True r"
    "job_rename srv lib index m naming ms r = (x, r')"
    and begins: "h [] = wires (view_of (mt_rows t0))" and clean: "clean h (snd r')"
  shows "follows d t0 True r' \<and> dom (map_of (fj_names (fst r'))) = dom (map_of (fj_names (fst r)))"
proof (cases "map_of (fj_names (fst r)) m")
  case None
  then show ?thesis using assms(2,3) by (auto simp: job_rename_def wire_of_def ok_or_def)
next
  case old: (Some old)
  obtain y r1 where y: "job_named srv lib naming r = (y, r1)" by (cases "job_named srv lib naming r")
  note named = follows_named [OF assms(1,2) y]
  have same: "fj_names (fst r1) = fj_names (fst r)" using named(2) by (simp add: same_names_def)
  show ?thesis
  proof (cases y)
    case (Inl e)
    then show ?thesis using assms(3) old y named(1) same by (auto simp: job_rename_def wire_of_def ok_or_def step_then_def)
  next
    case (Inr ne)
    obtain n e where ne: "ne = (n, e)" by fastforce
    have some: "fj_delimiters (fst r1) \<noteq> None"
      and level: "case under_id (ng_under naming) of None \<Rightarrow> level_name d None (nn_wire n)
        | Some p \<Rightarrow> \<exists>u. map_of (fj_names (fst r1)) p = Some u \<and> level_name d (Some u) (nn_wire n)"
      using named(4) [of n e] Inr ne unfolding same by blast+
    obtain z r2 where z: "open_inbox srv r1 = (z, r2)" by (cases "open_inbox srv r1")
    note inbox = follows_inbox [OF named(1) z]
    have same2: "fj_names (fst r2) = fj_names (fst r)" "fj_delimiters (fst r2) \<noteq> None"
      using inbox(2) same some by (simp_all add: same_names_def)
    have run: "job_rename srv lib index m naming ms r = step_then (z, r2) (\<lambda>_ r.
            case tell_rename srv (old, n) (snd r) of
              (Inl e, log) \<Rightarrow>
                (let (stop, r) = note_contested e \<lparr>ct_index = index, ct_naming = naming, ct_moving = Some m\<rparr> (fst r, log) in (Inl stop, r))
            | (Inr _, log) \<Rightarrow> (let (found, r) = rename_noted m (old, n) (under_id (ng_under naming)) (fst r, log) in job_follow srv ms found r))"
      unfolding job_rename_def wire_of_def ok_or_def rename_noted_def Let_def fst_conv snd_conv
      using old y Inr ne z by (simp add: step_then_def)
    show ?thesis
    proof (cases z)
      case (Inl e)
      then show ?thesis using assms(3) inbox(1) same2 unfolding run by (auto simp: step_then_def)
    next
      case z': (Inr u)
      obtain a log where a: "tell_rename srv (old, n) (snd r2) = (a, log)" by fastforce
      show ?thesis
      proof (cases a)
        case (Inl err)
        let ?asked = "\<lparr>ct_index = index, ct_naming = naming, ct_moving = Some m\<rparr>"
        obtain stop r3 where nr: "note_contested err ?asked (fst r2, log) = (stop, r3)" by (cases "note_contested err ?asked (fst r2, log)")
        have "follows d t0 True (fst r2, log)"
          by (rule follows_quiet [OF inbox(1)]) (use a Inl told_not in \<open>auto simp: tell_rename_def\<close>)
        then have "follows d t0 True r3 \<and> same_names (fst r2, log) r3" using follows_noted nr by blast
        moreover have "r' = r3" using assms(3) z' a Inl nr unfolding run by (simp add: step_then_def)
        ultimately show ?thesis using same2 by (auto simp: same_names_def)
      next
        case (Inr u)
        have told: "on_told srv (snd r2) (ToRename old (nn_wire n)) = Inr ()" "log = snd r2 @ [Told (ToRename old (nn_wire n)) (Inr ())]"
          using told_what a Inr unfolding tell_rename_def fst_conv snd_conv by blast+
        obtain found r3 where r3: "rename_noted m (old, n) (under_id (ng_under naming)) (fst r2, log) = (found, r3)"
          by (cases "rename_noted m (old, n) (under_id (ng_under naming)) (fst r2, log)")
        have rest: "job_follow srv ms found r3 = (x, r')"
          using assms(3) z' a Inr r3 unfolding run by (simp add: step_then_def)
        have "grows (push_change (ChangeRenamed m (nn_wire n) (nn_leaf n) (under_id (ng_under naming))) (fst r2\<lparr>fj_moves_mail := True\<rparr>, log)) r'"
          using renamed_grows [OF r3 [unfolded rename_noted_def]] follow_grows [OF rest] grows_trans by fastforce
        then obtain ys where "snd r' = (snd r2 @ [Told (ToRename old (nn_wire n)) (Inr ())]) @ ys"
          using told(2) by (auto dest!: grows_log simp: push_change_def)
        then have "clean h (snd r2)" using clean clean_prefix by simp
        from server_renames [OF assms(1) told(1) this]
        have laws: "nn_wire n \<notin> held_after d (wires (view_of (mt_rows t0))) (snd r2)" "\<not> at_or_under d old (nn_wire n)"
          unfolding begins by blast+
        have at: "map_of (fj_names (fst r2)) m = Some old" using old same2 by simp
        have "follows d t0 True r3 \<and> dom (map_of (fj_names (fst r3))) = dom (map_of (fj_names (fst r2)))"
          using follows_renamed [OF inbox(1) at same2(2) laws _ r3 [unfolded told(2)]] level unfolding same same2(1) by blast
        then show ?thesis using follows_carried [OF _ rest] same2(1) by metis
      qed
    qed
  qed
qed

lemma follows_subscription:
  assumes "follows d t0 tidy r" "job_subscribe srv m wire b r = (x, r')"
  shows "follows d t0 tidy r' \<and> fj_names (fst r') = fj_names (fst r)"
proof -
  obtain y log where y: "(if b then tell_subscribe srv wire (snd r) else tell_unsubscribe srv wire (snd r)) = (y, log)" by fastforce
  have base: "follows d t0 tidy (fst r, log)"
    using y by (cases b) (auto simp: tell_subscribe_def tell_unsubscribe_def intro: follows_tells_quiet [OF assms(1)])
  show ?thesis
  proof (cases y)
    case (Inl e)
    obtain stop r1 where r1: "note_refused e RefusedCommand (fst r, log) = (stop, r1)" by (cases "note_refused e RefusedCommand (fst r, log)")
    then have "follows d t0 tidy r1 \<and> same_names (fst r, log) r1" using follows_noted [OF base] by blast
    then show ?thesis using assms(2) y Inl r1 by (auto simp: job_subscribe_def same_names_def)
  next
    case (Inr u)
    then have "r' = push_change (ChangeSubscribed m b) (fst r, log)" using assms(2) y by (auto simp: job_subscribe_def)
    then show ?thesis using follows_push [OF base disjI1 [OF refl]] by (auto simp: push_change_def)
  qed
qed

lemma follows_update:
  assumes "server_holds srv d h" "follows d t0 True r"
    "job_update srv lib (StepUpdate index m rename carried subs chosen) r = (x, r')"
    and begins: "h [] = wires (view_of (mt_rows t0))" and clean: "clean h (snd r')"
  shows "follows d t0 True r' \<and> dom (map_of (fj_names (fst r'))) = dom (map_of (fj_names (fst r)))"
proof -
  let ?K = "\<lambda>r1. follows d t0 True r1 \<and> dom (map_of (fj_names (fst r1))) = dom (map_of (fj_names (fst r)))"
  have one: "?K r1" if "(case rename of None \<Rightarrow> (Inr (), r) | Some naming \<Rightarrow> job_rename srv lib index m naming carried r) = (y, r1)" "grows r1 r'" for y r1
  proof (cases rename)
    case (Some naming)
    then have "job_rename srv lib index m naming carried r = (y, r1)" using that(1) by simp
    from follows_rename [OF assms(1,2) this begins clean_before [OF that(2) clean]] show ?thesis .
  qed (use that assms(2) in simp)
  have two: "?K r2" if "(case subs of None \<Rightarrow> (Inr (), r1) | Some b \<Rightarrow> job_subscribe srv m wire b r1) = (y, r2)" "?K r1" for wire y r1 r2
  proof (cases subs)
    case (Some b)
    then have "job_subscribe srv m wire b r1 = (y, r2)" using that(1) by simp
    then show ?thesis using follows_subscription that(2) by metis
  qed (use that in simp)
  have three: "?K (case chosen of None \<Rightarrow> r2 | Some c \<Rightarrow> job_role m c r2)" if k: "?K r2" for r2
  proof (cases chosen)
    case (Some c)
    have "follows d t0 True (push_change (ChangeRole m c (sort_order_under c)) r2)" using follows_push k by blast
    then show ?thesis using k Some by (simp add: job_role_def push_change_def)
  qed (use k in simp)
  from assms(3) show ?thesis
    unfolding job_update_def folder_step.case
  proof (rule step_thenE)
    fix u r1 assume first: "(case rename of None \<Rightarrow> (Inr (), r) | Some naming \<Rightarrow> job_rename srv lib index m naming carried r) = (Inr u, r1)"
      and then_: "step_then (wire_of (fst r1) m, r1) (\<lambda>wire r. step_then (case subs of None \<Rightarrow> (Inr (), r) | Some b \<Rightarrow> job_subscribe srv m wire b r)
        (\<lambda>_ r. (Inr True, case chosen of None \<Rightarrow> r | Some c \<Rightarrow> job_role m c r))) = (x, r')"
    have rest: "grows q (case chosen of None \<Rightarrow> q | Some c \<Rightarrow> job_role m c q)" for q by (simp split: option.split)
    have subs: "grows q q'" if "(case subs of None \<Rightarrow> (Inr (), q) | Some b \<Rightarrow> job_subscribe srv m wire b q) = (y, q')" for wire q q' y
      using that subscription_grows by (cases subs) auto
    have "grows r1 r'"
      using then_
    proof (elim step_thenE)
      fix wire r2 v r3
      assume a: "(wire_of (fst r1) m, r1) = (Inr wire, r2)"
        "(case subs of None \<Rightarrow> (Inr (), r2) | Some b \<Rightarrow> job_subscribe srv m wire b r2) = (Inr v, r3)"
        "(Inr True, case chosen of None \<Rightarrow> r3 | Some c \<Rightarrow> job_role m c r3) = (x, r')"
      have "grows r1 r3" using subs [OF a(2)] a(1) by simp
      also have "grows r3 r'" using rest [of r3] a(3) by simp
      finally show ?thesis .
    next
      fix wire r2 e assume a: "(wire_of (fst r1) m, r1) = (Inr wire, r2)"
        "(case subs of None \<Rightarrow> (Inr (), r2) | Some b \<Rightarrow> job_subscribe srv m wire b r2) = (Inl e, r')"
      then show ?thesis using subs [OF a(2)] by simp
    qed simp
    note k = one [OF first this]
    from then_ show ?thesis
    proof (rule step_thenE)
      fix wire r2 assume "(wire_of (fst r1) m, r1) = (Inr wire, r2)"
        and then2: "step_then (case subs of None \<Rightarrow> (Inr (), r2) | Some b \<Rightarrow> job_subscribe srv m wire b r2)
          (\<lambda>_ r. (Inr True, case chosen of None \<Rightarrow> r | Some c \<Rightarrow> job_role m c r)) = (x, r')"
      then have k2: "?K r2" using k by simp
      from then2 show ?thesis
      proof (rule step_thenE)
        fix v r3 assume s3: "(case subs of None \<Rightarrow> (Inr (), r2) | Some b \<Rightarrow> job_subscribe srv m wire b r2) = (Inr v, r3)"
          and r': "(Inr True, case chosen of None \<Rightarrow> r3 | Some c \<Rightarrow> job_role m c r3) = (x, r')"
        have "r' = (case chosen of None \<Rightarrow> r3 | Some c \<Rightarrow> job_role m c r3)" using r' by simp
        then show ?thesis using three [OF two [OF s3 k2]] by simp
      qed (rule two [OF _ k2])
    qed (use k in simp)
  qed (rule one, simp_all)
qed

subsection \<open>A destroy\<close>

lemma follows_untidy: "follows d t0 tidy r \<Longrightarrow> follows d t0 False r"
  unfolding follows_def rows_are_def by blast

lemma follows_destroyed:
  assumes "follows d t0 False r" "map_of (fj_names (fst r)) m = Some w"
    and "\<And>held. held_after d held (snd r') = held_after d held (snd r) - {w}"
    and "fj_names (fst r') = fj_names (fst r)" "fj_changes (fst r') = fj_changes (fst r)" "fj_delimiters (fst r') = fj_delimiters (fst r)"
  shows "follows d t0 False (push_change (ChangeDestroyed m) r')"
proof -
  let ?N = "fj_names (fst r)" and ?S = "wires (view_of (mt_rows t0))"
  have are: "rows_are d t0 False ?N (fj_changes (fst r)) (held_after d ?S (snd r))" and fine: "names_are d ?N (fj_delimiters (fst r))"
    using assms(1) by (simp_all add: follows_def)
  from are obtain t l where t: "changes_written (fj_changes (fst r)) (t0, []) = Inr (t, l)" "distinct (map row_id (mt_rows t))"
    "\<And>m p w. view_of (mt_rows t) m = Some (p, w) \<Longrightarrow> map_of ?N m = Some w"
    "wires (view_of (mt_rows t)) = held_after d ?S (snd r)" by (rule rows_areE) blast
  let ?t = "t\<lparr>mt_rows := filter (\<lambda>row. row_id row \<noteq> m) (mt_rows t), mt_overrides := (mt_overrides t)(m := None)\<rparr>"
  have view: "view_of (mt_rows ?t) = (view_of (mt_rows t))(m := None)" by (simp add: view_filter)
  have only: "c = m" if "view_of (mt_rows t) c = Some (p, w)" for c p
  proof -
    have "map_of ?N c = map_of ?N m" "c \<in> dom (map_of ?N)" "m \<in> dom (map_of ?N)" using t(3) [OF that] assms(2) by auto
    then show ?thesis using fine unfolding names_are_def by (blast dest: inj_onD)
  qed
  have "wires (view_of (mt_rows ?t)) = wires (view_of (mt_rows t)) - {w}"
  proof (intro set_eqI iffI)
    fix x assume "x \<in> wires (view_of (mt_rows ?t))"
    then obtain c p where c: "c \<noteq> m" "view_of (mt_rows t) c = Some (p, x)" unfolding view by (auto simp: wires_def split: if_splits)
    then show "x \<in> wires (view_of (mt_rows t)) - {w}" using only by (auto simp: wires_def)
  next
    fix x assume "x \<in> wires (view_of (mt_rows t)) - {w}"
    then obtain c p where c: "view_of (mt_rows t) c = Some (p, x)" "x \<noteq> w" by (auto simp: wires_def)
    then have "c \<noteq> m" using t(3) assms(2) by fastforce
    then show "x \<in> wires (view_of (mt_rows ?t))" using c unfolding view by (auto simp: wires_def)
  qed
  then have "rows_are d t0 False ?N (fj_changes (fst r) @ [ChangeDestroyed m]) (held_after d ?S (snd r) - {w})"
  proof (intro rows_areI)
    show "changes_written (fj_changes (fst r) @ [ChangeDestroyed m]) (t0, []) = Inr (?t, ledger_note l (Mailbox, m, Destroyed))"
      using changes_written_snoc [OF t(1)] by simp
    show "distinct (map row_id (mt_rows ?t))" using t(2) by (simp add: distinct_map_filter)
    show "map_of ?N c = Some x" if "view_of (mt_rows ?t) c = Some (p, x)" for c p x
      using that t(3) unfolding view by (auto split: if_splits)
  qed (use t(4) in simp_all)
  then show ?thesis using assms(3-6) fine by (simp add: follows_def push_change_def)
qed

lemma follows_destroy:
  assumes "follows d t0 False r" "job_destroy srv (StepDestroy index m b) r = (x, r')"
  shows "follows d t0 False r'"
proof (cases "map_of (fj_names (fst r)) m")
  case None
  then show ?thesis using assms by (auto simp: job_destroy_def wire_of_def ok_or_def step_then_def)
next
  case (Some wire)
  obtain y r1 where y: "open_inbox srv r = (y, r1)" by (cases "open_inbox srv r")
  note inbox = follows_inbox [OF assms(1) y]
  have at: "map_of (fj_names (fst r1)) m = Some wire" using Some inbox(2) by (simp add: same_names_def)
  obtain z log where z: "tell_delete srv wire (snd r1) = (z, log)" by fastforce
  have run: "job_destroy srv (StepDestroy index m b) r = step_then (y, r1) (\<lambda>_ r.
            case tell_delete srv wire (snd r) of
              (Inl e, log) \<Rightarrow> (let (stop, r) = note_refused e RefusedTree (fst r, log) in (Inl stop, r))
            | (Inr _, log) \<Rightarrow>
                (let r = push_change (ChangeDestroyed m) (fst r\<lparr>fj_moves_mail := True\<rparr>, log)
                 in if b
                    then (case tell_unsubscribe srv wire (snd r) of (sent, log) \<Rightarrow> step_then (kept_quiet sent, fst r, log) (\<lambda>_ r. (Inr True, r)))
                    else (Inr True, r)))"
    using Some y by (simp add: job_destroy_def wire_of_def ok_or_def step_then_def)
  show ?thesis
  proof (cases y)
    case (Inl e)
    then show ?thesis using assms(2) inbox(1) unfolding run by (auto simp: step_then_def)
  next
    case y': (Inr u)
    show ?thesis
    proof (cases z)
      case (Inl e)
      obtain stop r2 where r2: "note_refused e RefusedTree (fst r1, log) = (stop, r2)" by (cases "note_refused e RefusedTree (fst r1, log)")
      have "follows d t0 False (fst r1, log)"
        by (rule follows_quiet [OF inbox(1)]) (use z Inl told_not in \<open>auto simp: tell_delete_def\<close>)
      then have "follows d t0 False r2" using follows_noted r2 by blast
      moreover have "r' = r2" using assms(2) y' z Inl r2 unfolding run by (simp add: step_then_def)
      ultimately show ?thesis by simp
    next
      case (Inr u)
      have log: "log = snd r1 @ [Told (ToDelete wire) (Inr ())]" using told_what z Inr unfolding tell_delete_def by blast
      let ?r2 = "push_change (ChangeDestroyed m) (fst r1\<lparr>fj_moves_mail := True\<rparr>, log)"
      have r2: "follows d t0 False ?r2" by (rule follows_destroyed [OF inbox(1) at]) (simp_all add: log)
      obtain sent log' where sent: "tell_unsubscribe srv wire (snd ?r2) = (sent, log')" by fastforce
      have r3: "follows d t0 False (fst ?r2, log')"
        by (rule follows_tells_quiet [OF r2 sent [unfolded tell_unsubscribe_def]]) simp
      show ?thesis
        using assms(2) y' z Inr sent r2 r3 unfolding run
        by (auto simp: step_then_def Let_def split: if_splits sum.splits)
    qed
  qed
qed

end
