(* ===== verification/Folder_Apply.thy ===== *)
theory Folder_Apply
  imports Folder_Follow
begin

text \<open>
  The whole call: the steps of the plan on the session, the local ones after them, and what the
  rows hold then. The demo server answers as a server with the delimiter \<open>/\<close> does.
\<close>

subsection \<open>All steps\<close>






subsection \<open>The steps of a plan\<close>






subsection \<open>The whole call\<close>













end
