(* ===== verification/Folder_Answers.thy ===== *)
theory Folder_Answers
  imports Folder_Apply
begin

text \<open>
  What a \<open>Mailbox/set\<close> answers. Each object of the call ends once, under its key, and one that ends
  well left behind every change it asked for.
\<close>

definition same_answers :: "job_run \<Rightarrow> job_run \<Rightarrow> bool" where
  "same_answers r r' \<longleftrightarrow> fj_results (fst r') = fj_results (fst r) \<and> fj_ids (fst r') = fj_ids (fst r) \<and>
     fj_keys (fst r') = fj_keys (fst r) \<and> fj_creates (fst r') = fj_creates (fst r) \<and> fj_updates (fst r') = fj_updates (fst r) \<and>
     set (fj_changes (fst r)) \<subseteq> set (fj_changes (fst r'))"

lemma answers_refl [intro, simp]: "same_answers r r"
  by (simp add: same_answers_def)


lemma answers_keep: "same_answers r r' \<Longrightarrow> c \<in> set (fj_changes (fst r)) \<Longrightarrow> c \<in> set (fj_changes (fst r'))"
  by (auto simp: same_answers_def)

lemma answers_log [simp]: "same_answers r (fst r, log) = True" "same_answers (j, log) (j, log') = True"
  by (simp_all add: same_answers_def)

lemma answers_push [simp]: "same_answers r (push_change c r)" "c \<in> set (fj_changes (fst (push_change c r)))"
  by (auto simp: same_answers_def push_change_def)

lemma answers_push_log [simp]: "same_answers r (push_change c (fst r, log))"
  by (auto simp: same_answers_def push_change_def)









subsection \<open>One step\<close>





















subsection \<open>The whole call\<close>













end
