(* ===== verification/Rate_Limits.thy ===== *)
theory Rate_Limits
  imports Bridge_Prelude "HOL-Library.Word" "HOL-Library.AList"
begin

text \<open>
  The limits the server keeps in memory (\<open>rate.rs\<close>): a growing delay per key after failed sign-ins
  and a refilling allowance per key. An \<open>i64\<close> is an \<open>int\<close> and every operation that saturates in the
  source saturates here; the shift of the delay is one on 64 bits. The hash maps are association
  lists with distinct keys.
\<close>

definition sat64 :: "int \<Rightarrow> int" where
  "sat64 x = max (- (2 ^ 63)) (min (2 ^ 63 - 1) x)"

lemma sat64_id: "- (2 ^ 63) \<le> x \<Longrightarrow> x < 2 ^ 63 \<Longrightarrow> sat64 x = x"
  by (simp add: sat64_def)

definition MS_PER_MINUTE :: int where "MS_PER_MINUTE = 60000"
definition FREE_FAILURES :: nat where "FREE_FAILURES = 3"
definition INITIAL_DELAY_MS :: int where "INITIAL_DELAY_MS = 2000"
definition MAX_DELAY_MS :: int where "MAX_DELAY_MS = 900000"
definition FORGET_AFTER_MS :: int where "FORGET_AFTER_MS = 3600000"
definition SWEEP_THRESHOLD :: nat where "SWEEP_THRESHOLD = 10000"

subsection \<open>Failures\<close>

record fail_entry =
  fe_failures :: nat
  fe_last :: int
  fe_until :: int

type_synonym limiter = "(string \<times> fail_entry) list"

definition delay_after :: "nat \<Rightarrow> int" where
  "delay_after failures =
     (if failures < FREE_FAILURES + 1 then 0
      else let beyond = failures - (FREE_FAILURES + 1)
           in if beyond < 64 then min (sint (push_bit beyond (word_of_int INITIAL_DELAY_MS :: 64 word))) MAX_DELAY_MS
              else MAX_DELAY_MS)"

definition blocked_for :: "limiter \<Rightarrow> string list \<Rightarrow> int \<Rightarrow> int option" where
  "blocked_for entries keys now =
     (let held = filter (\<lambda>remaining. remaining > 0)
            (map (\<lambda>e. sat64 (fe_until e - now)) (List.map_filter (map_of entries) keys))
      in if held = [] then None else Some (Max (set held)))"

definition fail_one :: "int \<Rightarrow> limiter \<Rightarrow> string \<Rightarrow> limiter" where
  "fail_one now entries key =
     (let e = (case map_of entries key of Some e \<Rightarrow> e | None \<Rightarrow> \<lparr>fe_failures = 0, fe_last = now, fe_until = 0\<rparr>);
          n = (if sat64 (now - fe_last e) \<ge> FORGET_AFTER_MS then 0 else fe_failures e);
          n = min (n + 1) u32_max
      in AList.update key \<lparr>fe_failures = n, fe_last = now, fe_until = sat64 (now + delay_after n)\<rparr> entries)"

definition record_failure :: "limiter \<Rightarrow> string list \<Rightarrow> int \<Rightarrow> limiter" where
  "record_failure entries keys now =
     (let entries = (if length entries \<ge> SWEEP_THRESHOLD
                     then filter (\<lambda>(_, e). sat64 (now - fe_last e) < FORGET_AFTER_MS) entries else entries)
      in foldl (fail_one now) entries keys)"

definition record_success :: "limiter \<Rightarrow> string list \<Rightarrow> limiter" where
  "record_success entries keys = foldl (\<lambda>m key. AList.delete key m) entries keys"

subsection \<open>Allowances\<close>

record rate =
  rt_burst :: nat
  rt_per_minute :: nat

definition ms_per_token :: "rate \<Rightarrow> int" where
  "ms_per_token r = max (MS_PER_MINUTE div int (max (rt_per_minute r) 1)) 1"

record bucket =
  bk_tokens :: int
  bk_refilled_at :: int

definition gained :: "bucket \<Rightarrow> int \<Rightarrow> int \<Rightarrow> int" where
  "gained b ms now = max (sat64 (now - bk_refilled_at b)) 0 div ms"

definition refill :: "bucket \<Rightarrow> int \<Rightarrow> int \<Rightarrow> int \<Rightarrow> bucket" where
  "refill b burst ms now =
     (let g = gained b ms now
      in if g > 0 then \<lparr>bk_tokens = min (sat64 (bk_tokens b + g)) burst, bk_refilled_at = sat64 (bk_refilled_at b + sat64 (g * ms))\<rparr>
         else b)"

record buckets =
  bs_rate :: rate
  bs_entries :: "(string \<times> bucket) list"

definition buckets_new :: "rate \<Rightarrow> buckets" where
  "buckets_new r = \<lparr>bs_rate = r, bs_entries = []\<rparr>"

definition take_token :: "buckets \<Rightarrow> string \<Rightarrow> int \<Rightarrow> (int + unit) \<times> buckets" where
  "take_token s key now =
     (let ms = ms_per_token (bs_rate s); burst = int (rt_burst (bs_rate s));
          entries = (if length (bs_entries s) \<ge> SWEEP_THRESHOLD
                     then filter (\<lambda>(_, b). sat64 (bk_tokens b + gained b ms now) < burst) (bs_entries s) else bs_entries s);
          b = (case map_of entries key of Some b \<Rightarrow> b | None \<Rightarrow> \<lparr>bk_tokens = burst, bk_refilled_at = now\<rparr>);
          b = refill b burst ms now
      in if bk_tokens b \<le> 0
         then (Inl (max (sat64 (sat64 (bk_refilled_at b + ms) - now)) 1), s\<lparr>bs_entries := AList.update key b entries\<rparr>)
         else (Inr (), s\<lparr>bs_entries := AList.update key (b\<lparr>bk_tokens := bk_tokens b - 1\<rparr>) entries\<rparr>))"

subsection \<open>What the delay is\<close>

lemma delay_doubles:
  assumes "n \<le> 56"
  shows "delay_after n = (if n \<le> 3 then 0 else min MAX_DELAY_MS (INITIAL_DELAY_MS * 2 ^ (n - 4)))"
proof (cases "n \<le> 3")
  case False
  then have k: "n - 4 \<le> 52" using assms by simp
  let ?x = "INITIAL_DELAY_MS * 2 ^ (n - 4)"
  have small: "0 \<le> ?x" "?x < 2 ^ 63"
  proof -
    have "(2::int) ^ (n - 4) \<le> 2 ^ 52" using k by (rule power_increasing) simp
    then show "?x < 2 ^ 63" by (simp add: INITIAL_DELAY_MS_def)
  qed (simp add: INITIAL_DELAY_MS_def)
  have "push_bit (n - 4) (word_of_int INITIAL_DELAY_MS :: 64 word) = word_of_int ?x"
    by (simp add: push_bit_eq_mult)
  then have "sint (push_bit (n - 4) (word_of_int INITIAL_DELAY_MS :: 64 word)) = signed_take_bit 63 ?x"
    by (simp only: sint_sbintrunc') simp
  also have "\<dots> = ?x" using small by (intro signed_take_bit_int_eq_self) simp_all
  finally have "sint (push_bit (n - 4) (word_of_int INITIAL_DELAY_MS :: 64 word)) = ?x" .
  then show ?thesis using False k by (simp add: delay_after_def FREE_FAILURES_def Let_def min.commute)
qed (simp add: delay_after_def FREE_FAILURES_def)

lemma delay_at_most: "delay_after n \<le> MAX_DELAY_MS"
  by (simp add: delay_after_def Let_def MAX_DELAY_MS_def)

text \<open>From 57 failures on the shift passes 64 bits: the delay falls below zero and to zero.\<close>

lemma delay_wraps: "delay_after 57 < 0" "delay_after 64 = 0"
  by (simp_all add: delay_after_def FREE_FAILURES_def Let_def INITIAL_DELAY_MS_def MAX_DELAY_MS_def push_bit_eq_mult)

subsection \<open>The limiter and the history of a key\<close>

datatype limiter_op = Failed "string list" int | Succeeded "string list"

fun limiter_step :: "limiter \<Rightarrow> limiter_op \<Rightarrow> limiter" where
  "limiter_step s (Failed keys now) = record_failure s keys now"
| "limiter_step s (Succeeded keys) = record_success s keys"

definition limiter_run :: "limiter_op list \<Rightarrow> limiter" where
  "limiter_run ops = foldl limiter_step [] ops"

text \<open>What a key remembers: its failures with less than an hour between them, and the last of them.\<close>

definition streak_fail :: "int \<Rightarrow> (nat \<times> int) option \<Rightarrow> (nat \<times> int) option" where
  "streak_fail now x =
     (case x of
        None \<Rightarrow> Some (1, now)
      | Some (n, latest) \<Rightarrow> if now - latest \<ge> FORGET_AFTER_MS then Some (1, now) else Some (min (n + 1) u32_max, now))"

fun streak_step :: "string \<Rightarrow> (nat \<times> int) option \<Rightarrow> limiter_op \<Rightarrow> (nat \<times> int) option" where
  "streak_step k x (Failed keys now) = (streak_fail now ^^ count_list keys k) x"
| "streak_step k x (Succeeded keys) = (if k \<in> set keys then None else x)"

definition streak :: "string \<Rightarrow> limiter_op list \<Rightarrow> (nat \<times> int) option" where
  "streak k ops = foldl (streak_step k) None ops"

text \<open>The delay as documented: none for three failures, then two seconds doubling up to a quarter of an hour.\<close>

definition nominal_delay :: "nat \<Rightarrow> int" where
  "nominal_delay n = (if n \<le> 3 then 0 else min 900000 (2000 * 2 ^ (n - 4)))"

definition lock_of :: "(nat \<times> int) option \<Rightarrow> int \<Rightarrow> int option" where
  "lock_of x t =
     (case x of
        None \<Rightarrow> None
      | Some (n, latest) \<Rightarrow> if latest + nominal_delay n > t then Some (latest + nominal_delay n - t) else None)"

definition counted :: "(nat \<times> int) option \<Rightarrow> bool" where
  "counted x = (case x of None \<Rightarrow> True | Some (n, latest) \<Rightarrow> n \<le> 56)"

fun times_ok :: "int \<Rightarrow> limiter_op list \<Rightarrow> bool" where
  "times_ok t [] = (0 \<le> t \<and> t \<le> 2 ^ 62)"
| "times_ok t (Failed keys now # ops) = (0 \<le> t \<and> t \<le> now \<and> times_ok now ops)"
| "times_ok t (Succeeded keys # ops) = times_ok t ops"

fun end_time :: "int \<Rightarrow> limiter_op list \<Rightarrow> int" where
  "end_time t [] = t"
| "end_time t (Failed keys now # ops) = end_time now ops"
| "end_time t (Succeeded keys # ops) = end_time t ops"

text \<open>A key without an entry has no history or one an hour old; each entry is its key's history.\<close>

definition remembers :: "int \<Rightarrow> limiter \<Rightarrow> (string \<Rightarrow> (nat \<times> int) option) \<Rightarrow> bool" where
  "remembers t s h \<longleftrightarrow>
     (\<forall>k. (case map_of s k of
        None \<Rightarrow> (case h k of None \<Rightarrow> True | Some (n, latest) \<Rightarrow> t - latest \<ge> FORGET_AFTER_MS)
      | Some e \<Rightarrow> h k = Some (fe_failures e, fe_last e) \<and> fe_until e = fe_last e + delay_after (fe_failures e) \<and>
          0 \<le> fe_last e \<and> fe_last e \<le> t))"

lemma remembersD:
  assumes "remembers t s h"
  shows "map_of s k = None \<Longrightarrow> h k = Some (n, latest) \<Longrightarrow> t - latest \<ge> FORGET_AFTER_MS"
    "map_of s k = Some e \<Longrightarrow> h k = Some (fe_failures e, fe_last e)"
    "map_of s k = Some e \<Longrightarrow> fe_until e = fe_last e + delay_after (fe_failures e)"
    "map_of s k = Some e \<Longrightarrow> 0 \<le> fe_last e \<and> fe_last e \<le> t"
  using assms unfolding remembers_def by (auto dest: spec [of _ k])

lemma remembersI:
  assumes "\<And>k n latest. map_of s k = None \<Longrightarrow> h k = Some (n, latest) \<Longrightarrow> t - latest \<ge> FORGET_AFTER_MS"
    "\<And>k e. map_of s k = Some e \<Longrightarrow> h k = Some (fe_failures e, fe_last e) \<and>
      fe_until e = fe_last e + delay_after (fe_failures e) \<and> 0 \<le> fe_last e \<and> fe_last e \<le> t"
  shows "remembers t s h"
  unfolding remembers_def using assms by (auto split: option.splits)

lemma remembers_later:
  assumes "remembers t s h" "t \<le> now"
  shows "remembers now s h"
proof (rule remembersI)
  show "now - latest \<ge> FORGET_AFTER_MS" if "map_of s k = None" "h k = Some (n, latest)" for k n latest
    using remembersD(1) [OF assms(1) that] assms(2) by simp
qed (use remembersD(2-4) [OF assms(1)] assms(2) in force)

lemma delay_at_least: "- (2 ^ 63) \<le> delay_after n"
proof -
  have "- (2 ^ 63) \<le> sint (w :: 64 word)" for w using sint_ge [of w] by simp
  then show ?thesis by (simp add: delay_after_def Let_def MAX_DELAY_MS_def)
qed

lemma remembers_fail:
  assumes "remembers now s h" "0 \<le> now" "now \<le> 2 ^ 62"
  shows "remembers now (fail_one now s key) (h(key := streak_fail now (h key)))"
proof -
  define e where "e = (case map_of s key of Some e \<Rightarrow> e | None \<Rightarrow> \<lparr>fe_failures = 0, fe_last = now, fe_until = 0\<rparr>)"
  define n where "n = min ((if sat64 (now - fe_last e) \<ge> FORGET_AFTER_MS then 0 else fe_failures e) + 1) u32_max"
  have last: "0 \<le> fe_last e \<and> fe_last e \<le> now"
    using remembersD(4) [OF assms(1)] assms(2) by (auto simp: e_def split: option.splits)
  then have sat: "sat64 (now - fe_last e) = now - fe_last e" using assms(3) by (intro sat64_id) simp_all
  have until: "sat64 (now + delay_after n) = now + delay_after n"
    using delay_at_least [of n] delay_at_most [of n] assms(2,3) by (intro sat64_id) (simp_all add: MAX_DELAY_MS_def)
  have now: "streak_fail now (h key) = Some (n, now)"
  proof (cases "map_of s key")
    case None
    then have e: "e = \<lparr>fe_failures = 0, fe_last = now, fe_until = 0\<rparr>" by (simp add: e_def)
    have "n = 1" unfolding n_def e using sat by (simp add: e FORGET_AFTER_MS_def u32_max_def)
    then show ?thesis using remembersD(1) [OF assms(1) None] by (auto simp: streak_fail_def split: option.splits)
  next
    case (Some x)
    then have "e = x" "h key = Some (fe_failures x, fe_last x)" using remembersD(2) [OF assms(1)] by (simp_all add: e_def)
    then show ?thesis using sat by (simp add: streak_fail_def n_def u32_max_def)
  qed
  have one: "fail_one now s key = AList.update key \<lparr>fe_failures = n, fe_last = now, fe_until = now + delay_after n\<rparr> s"
    unfolding fail_one_def Let_def e_def [symmetric] n_def [symmetric] until ..
  show ?thesis
    unfolding one
  proof (rule remembersI)
    fix k m latest
    assume "map_of (AList.update key \<lparr>fe_failures = n, fe_last = now, fe_until = now + delay_after n\<rparr> s) k = None"
      "(h(key := streak_fail now (h key))) k = Some (m, latest)"
    then show "now - latest \<ge> FORGET_AFTER_MS" using remembersD(1) [OF assms(1)] by (auto simp: update_conv' split: if_splits)
  next
    fix k x
    assume "map_of (AList.update key \<lparr>fe_failures = n, fe_last = now, fe_until = now + delay_after n\<rparr> s) k = Some x"
    then show "(h(key := streak_fail now (h key))) k = Some (fe_failures x, fe_last x) \<and>
        fe_until x = fe_last x + delay_after (fe_failures x) \<and> 0 \<le> fe_last x \<and> fe_last x \<le> now"
      using remembersD(2-4) [OF assms(1), of k x] now assms(2) by (auto simp: update_conv' split: if_splits)
  qed
qed

lemma remembers_fails:
  assumes "remembers now s h" "0 \<le> now" "now \<le> 2 ^ 62"
  shows "remembers now (foldl (fail_one now) s keys) (\<lambda>k. (streak_fail now ^^ count_list keys k) (h k))"
  using assms(1)
proof (induction keys arbitrary: s h)
  case (Cons key keys)
  have "(\<lambda>k. (streak_fail now ^^ count_list keys k) ((h(key := streak_fail now (h key))) k)) =
      (\<lambda>k. (streak_fail now ^^ count_list (key # keys) k) (h k))"
    by (rule ext) (simp add: funpow_swap1)
  then show ?case using Cons.IH [OF remembers_fail [OF Cons.prems assms(2,3), of key]] by simp
qed simp

lemma remembers_sweep:
  assumes "remembers now s h" "distinct (map fst s)" "0 \<le> now" "now \<le> 2 ^ 62"
  shows "remembers now (filter (\<lambda>(_, e). sat64 (now - fe_last e) < FORGET_AFTER_MS) s) h"
proof -
  let ?s = "filter (\<lambda>(_, e). sat64 (now - fe_last e) < FORGET_AFTER_MS) s"
  have keys: "distinct (map fst ?s)" using assms(2) by (rule distinct_map_filter)
  have at: "map_of ?s k = Some e \<longleftrightarrow> map_of s k = Some e \<and> sat64 (now - fe_last e) < FORGET_AFTER_MS" for k e
    by (simp add: map_of_eq_Some_iff [OF keys] map_of_eq_Some_iff [OF assms(2)])
  show ?thesis
  proof (rule remembersI)
    fix k n latest assume gone: "map_of ?s k = None" "h k = Some (n, latest)"
    show "now - latest \<ge> FORGET_AFTER_MS"
    proof (cases "map_of s k")
      case None
      then show ?thesis using remembersD(1) [OF assms(1)] gone(2) by blast
    next
      case (Some e)
      then have "\<not> sat64 (now - fe_last e) < FORGET_AFTER_MS" using gone(1) at by (metis option.distinct(1))
      moreover have "latest = fe_last e" using remembersD(2) [OF assms(1) Some] gone(2) by simp
      moreover have "sat64 (now - fe_last e) = now - fe_last e"
        using remembersD(4) [OF assms(1) Some] assms(4) by (intro sat64_id) simp_all
      ultimately show ?thesis by simp
    qed
  next
    fix k e assume "map_of ?s k = Some e"
    then have "map_of s k = Some e" using at by blast
    then show "h k = Some (fe_failures e, fe_last e) \<and> fe_until e = fe_last e + delay_after (fe_failures e) \<and> 0 \<le> fe_last e \<and> fe_last e \<le> now"
      using remembersD(2-4) [OF assms(1)] by blast
  qed
qed

lemma fails_distinct: "distinct (map fst s) \<Longrightarrow> distinct (map fst (foldl (fail_one now) s keys))"
  by (induction keys arbitrary: s) (simp_all add: fail_one_def Let_def distinct_update)

lemma delete_fold: "map_of (foldl (\<lambda>m key. AList.delete key m) s keys) k = (if k \<in> set keys then None else map_of s k)"
  "distinct (map fst s) \<Longrightarrow> distinct (map fst (foldl (\<lambda>m key. AList.delete key m) s keys))"
  by (induction keys arbitrary: s) (auto simp: delete_conv' distinct_delete)

lemma remembers_step:
  assumes "remembers t s h" "distinct (map fst s)" "times_ok t (op # ops)"
  shows "remembers (end_time t [op]) (limiter_step s op) (\<lambda>k. streak_step k (h k) op)"
    "distinct (map fst (limiter_step s op))" "times_ok (end_time t [op]) ops"
proof -
  have bound: "times_ok u xs \<Longrightarrow> u \<le> 2 ^ 62" for u xs by (induction u xs rule: times_ok.induct) auto
  show "times_ok (end_time t [op]) ops" using assms(3) by (cases op) simp_all
  show "distinct (map fst (limiter_step s op))"
    using assms(2) by (cases op) (simp_all add: record_failure_def record_success_def Let_def fails_distinct distinct_map_filter delete_fold(2))
  show "remembers (end_time t [op]) (limiter_step s op) (\<lambda>k. streak_step k (h k) op)"
  proof (cases op)
    case (Failed keys now)
    then have now: "0 \<le> now" "now \<le> 2 ^ 62" "t \<le> now" using assms(3) bound [of now ops] by auto
    note later = remembers_later [OF assms(1) now(3)]
    show ?thesis
      using remembers_fails [OF later now(1,2)] remembers_fails [OF remembers_sweep [OF later assms(2) now(1,2)] now(1,2)]
      by (simp add: Failed record_failure_def Let_def)
  next
    case (Succeeded keys)
    show ?thesis
      unfolding Succeeded end_time.simps limiter_step.simps record_success_def streak_step.simps
      by (rule remembersI) (use remembersD [OF assms(1)] in \<open>auto simp: delete_fold(1) split: if_splits\<close>)
  qed
qed

lemma limiter_remembers:
  assumes "remembers t s h" "distinct (map fst s)" "times_ok t ops"
  shows "remembers (end_time t ops) (foldl limiter_step s ops) (\<lambda>k. foldl (streak_step k) (h k) ops) \<and> end_time t ops \<le> 2 ^ 62 \<and> 0 \<le> end_time t ops"
  using assms
proof (induction ops arbitrary: t s h)
  case (Cons op ops)
  note step = remembers_step [OF Cons.prems]
  have "end_time t (op # ops) = end_time (end_time t [op]) ops" by (cases op) simp_all
  then show ?case using Cons.IH [OF step] by simp
qed simp

lemma nominal: "n \<le> 56 \<Longrightarrow> delay_after n = nominal_delay n"
  by (simp add: delay_doubles nominal_delay_def MAX_DELAY_MS_def INITIAL_DELAY_MS_def)

lemma nominal_bounds: "0 \<le> nominal_delay n" "nominal_delay n \<le> 900000"
  by (simp_all add: nominal_delay_def)

lemma lock_from_entry:
  assumes "remembers u s h" "counted (h k)" "u \<le> t" "t \<le> 2 ^ 62"
  shows "lock_of (h k) t =
    (case map_of s k of None \<Rightarrow> None
     | Some e \<Rightarrow> if sat64 (fe_until e - t) > 0 then Some (sat64 (fe_until e - t)) else None)"
proof (cases "map_of s k")
  case None
  have "latest + nominal_delay n \<le> t" if "h k = Some (n, latest)" for n latest
    using remembersD(1) [OF assms(1) None that] nominal_bounds(2) [of n] assms(3) by (simp add: FORGET_AFTER_MS_def)
  then show ?thesis using None by (auto simp: lock_of_def split: option.splits)
next
  case (Some e)
  note known = remembersD(2) [OF assms(1) Some] remembersD(3,4) [OF assms(1) Some]
  have "fe_failures e \<le> 56" using assms(2) known(1) by (simp add: counted_def)
  then have until: "fe_until e = fe_last e + nominal_delay (fe_failures e)" using known(2) nominal by simp
  have "sat64 (fe_until e - t) = fe_last e + nominal_delay (fe_failures e) - t"
    unfolding until using known(3) nominal_bounds [of "fe_failures e"] assms(3,4) by (intro sat64_id) auto
  then show ?thesis using Some known(1) by (simp add: lock_of_def)
qed

lemma locks_from_entries:
  assumes "\<And>k. k \<in> set keys \<Longrightarrow> f k =
    (case g k of None \<Rightarrow> None | Some e \<Rightarrow> if r e > 0 then Some (r e) else (None :: int option))"
  shows "filter (\<lambda>x. x > 0) (map r (List.map_filter g keys)) = List.map_filter f keys"
  using assms
proof (induction keys)
  case (Cons k keys)
  have "f k = (case g k of None \<Rightarrow> None | Some e \<Rightarrow> if r e > 0 then Some (r e) else (None :: int option))"
    by (rule Cons.prems) simp
  then show ?case using Cons.IH Cons.prems by (simp split: option.splits if_splits)
qed simp

text \<open>C19: after any history of failed and successful sign-ins, with clocks that do not go back, the limiter
  holds a set of keys for the longest of their locks: a key is locked for two seconds from its fourth
  failure in a row with less than an hour between any two, doubling up to a quarter of an hour, whatever
  the sweeping forgot; up to 56 failures, past which the shift leaves 64 bits.\<close>
theorem lock_follows_the_failures:
  assumes times: "times_ok 0 ops" "end_time 0 ops \<le> t" "t \<le> 2 ^ 62"
    and few: "\<forall>k\<in>set keys. counted (streak k ops)"
  shows "blocked_for (limiter_run ops) keys t =
    (let held = List.map_filter (\<lambda>k. lock_of (streak k ops) t) keys in if held = [] then None else Some (Max (set held)))"
proof -
  have "remembers 0 [] (\<lambda>_. None)" by (rule remembersI) simp_all
  then have mem: "remembers (end_time 0 ops) (limiter_run ops) (\<lambda>k. streak k ops)"
    using limiter_remembers [OF _ _ times(1)] by (simp add: limiter_run_def streak_def)
  have "filter (\<lambda>x. x > 0) (map (\<lambda>e. sat64 (fe_until e - t)) (List.map_filter (map_of (limiter_run ops)) keys)) =
      List.map_filter (\<lambda>k. lock_of (streak k ops) t) keys"
    by (rule locks_from_entries) (use lock_from_entry [OF mem _ times(2,3)] few in blast)
  then show ?thesis by (simp only: blocked_for_def)
qed

lemma lock_follows_the_failures_witness:
  "blocked_for (limiter_run ([Failed [''a'', ''ip''] 1000, Failed [''a'', ''ip''] 1000, Failed [''a'', ''ip''] 1000, Failed [''a'', ''ip''] 1000,
      Failed [''a'', ''ip''] 1000, Succeeded [''ip''], Failed [''ip''] 2000]))
     [''ip'', ''a''] 3000 = Some 2000"
proof -
  let ?ops = "[Failed [''a'', ''ip''] 1000, Failed [''a'', ''ip''] 1000, Failed [''a'', ''ip''] 1000, Failed [''a'', ''ip''] 1000,
      Failed [''a'', ''ip''] 1000, Succeeded [''ip''], Failed [''ip''] 2000]"
  have a: "streak ''a'' ?ops = Some (5, 1000)" and ip: "streak ''ip'' ?ops = Some (1, 2000)"
    by (simp_all add: streak_def streak_fail_def FORGET_AFTER_MS_def u32_max_def)
  have "times_ok 0 ?ops" "end_time 0 ?ops \<le> 3000" by simp_all
  from lock_follows_the_failures [OF this, of "[''ip'', ''a'']"] show ?thesis
    unfolding list.set ball_simps a ip by (simp add: a ip counted_def lock_of_def nominal_delay_def)
qed

subsection \<open>What a bucket allows\<close>

text \<open>Requests in order; the granted ones are listed.\<close>

fun serve :: "buckets \<Rightarrow> (string \<times> int) list \<Rightarrow> buckets \<times> (string \<times> int) list" where
  "serve s [] = (s, [])"
| "serve s ((key, now) # reqs) =
     (let (answer, s) = take_token s key now; (s', granted) = serve s reqs
      in (s', (case answer of Inr _ \<Rightarrow> [(key, now)] | Inl _ \<Rightarrow> []) @ granted))"

definition buckets_ok :: "buckets \<Rightarrow> int \<Rightarrow> bool" where
  "buckets_ok s t \<longleftrightarrow>
     distinct (map fst (bs_entries s)) \<and> rt_burst (bs_rate s) \<le> u32_max \<and> 0 \<le> t \<and> t \<le> 2 ^ 62 \<and>
     (\<forall>(k, b)\<in>set (bs_entries s). 0 \<le> bk_tokens b \<and> bk_tokens b \<le> int (rt_burst (bs_rate s)) \<and>
        0 \<le> bk_refilled_at b \<and> bk_refilled_at b \<le> t)"

definition bucket_ok :: "nat \<Rightarrow> int \<Rightarrow> bucket \<Rightarrow> bool" where
  "bucket_ok burst t b \<longleftrightarrow> 0 \<le> bk_tokens b \<and> bk_tokens b \<le> int burst \<and> burst \<le> u32_max \<and>
     0 \<le> bk_refilled_at b \<and> bk_refilled_at b \<le> t \<and> t \<le> 2 ^ 62"

lemma ms_positive: "0 < ms_per_token r" "ms_per_token r \<le> 60000"
proof -
  have "MS_PER_MINUTE div int (max (rt_per_minute r) 1) \<le> 60000"
    unfolding MS_PER_MINUTE_def by (rule order_trans [OF zdiv_mono2 [of _ 1]]) simp_all
  then show "0 < ms_per_token r" "ms_per_token r \<le> 60000" by (simp_all add: ms_per_token_def)
qed

lemma gained_is:
  assumes "bucket_ok burst t b" "0 < ms"
  shows "gained b ms t = (t - bk_refilled_at b) div ms" "0 \<le> gained b ms t" "gained b ms t \<le> 2 ^ 62"
    "gained b ms t * ms \<le> t - bk_refilled_at b" "t - bk_refilled_at b < gained b ms t * ms + ms"
proof -
  let ?d = "t - bk_refilled_at b"
  have d: "0 \<le> ?d" "?d \<le> 2 ^ 62" using assms(1) by (simp_all add: bucket_ok_def)
  then show g: "gained b ms t = ?d div ms" by (simp add: gained_def sat64_id)
  show "0 \<le> gained b ms t" using d assms(2) by (simp add: g pos_imp_zdiv_nonneg_iff)
  have "?d div ms \<le> ?d" using zdiv_mono2 [of ?d 1 ms] d(1) assms(2) by simp
  then show "gained b ms t \<le> 2 ^ 62" using d(2) g by simp
  have "?d = ?d div ms * ms + ?d mod ms" by simp
  then show "gained b ms t * ms \<le> ?d" "?d < gained b ms t * ms + ms"
    using pos_mod_bound [OF assms(2), of ?d] pos_mod_sign [OF assms(2), of ?d] unfolding g by linarith+
qed

lemma refill_is:
  assumes "bucket_ok burst t b" "0 < ms"
  shows "bk_tokens (refill b (int burst) ms t) = min (bk_tokens b + gained b ms t) (int burst)"
    "bk_refilled_at (refill b (int burst) ms t) = bk_refilled_at b + gained b ms t * ms"
proof -
  note g = gained_is [OF assms]
  have sat: "sat64 (bk_tokens b + gained b ms t) = bk_tokens b + gained b ms t"
    using g(2,3) assms(1) by (intro sat64_id) (auto simp: bucket_ok_def u32_max_def)
  have "gained b ms t * ms \<le> 2 ^ 62" "0 \<le> gained b ms t * ms" using g(2,4) assms by (auto simp: bucket_ok_def)
  then have sat': "sat64 (bk_refilled_at b + sat64 (gained b ms t * ms)) = bk_refilled_at b + gained b ms t * ms"
    using g(4) assms(1) by (simp add: sat64_id bucket_ok_def)
  show "bk_tokens (refill b (int burst) ms t) = min (bk_tokens b + gained b ms t) (int burst)"
    "bk_refilled_at (refill b (int burst) ms t) = bk_refilled_at b + gained b ms t * ms"
    using g(2) assms(1) by (auto simp: refill_def Let_def sat sat' bucket_ok_def)
qed

lemma refill_ok: "bucket_ok burst t b \<Longrightarrow> 0 < ms \<Longrightarrow> bucket_ok burst t (refill b (int burst) ms t)"
  using gained_is [of burst t b ms] by (auto simp: bucket_ok_def [of burst t "refill b (int burst) ms t"] refill_is) (auto simp: bucket_ok_def)

text \<open>The parts of a take: the entries after the sweep, and the refilled bucket of the key.\<close>

definition swept :: "buckets \<Rightarrow> int \<Rightarrow> (string \<times> bucket) list" where
  "swept s now =
     (if length (bs_entries s) \<ge> SWEEP_THRESHOLD
      then filter (\<lambda>(_, b). sat64 (bk_tokens b + gained b (ms_per_token (bs_rate s)) now) < int (rt_burst (bs_rate s))) (bs_entries s)
      else bs_entries s)"

definition refilled :: "buckets \<Rightarrow> string \<Rightarrow> int \<Rightarrow> bucket" where
  "refilled s key now =
     refill (case map_of (swept s now) key of Some b \<Rightarrow> b | None \<Rightarrow> \<lparr>bk_tokens = int (rt_burst (bs_rate s)), bk_refilled_at = now\<rparr>)
       (int (rt_burst (bs_rate s))) (ms_per_token (bs_rate s)) now"

lemma take_parts:
  "take_token s key now =
     (let b = refilled s key now
      in if bk_tokens b \<le> 0
         then (Inl (max (sat64 (sat64 (bk_refilled_at b + ms_per_token (bs_rate s)) - now)) 1), s\<lparr>bs_entries := AList.update key b (swept s now)\<rparr>)
         else (Inr (), s\<lparr>bs_entries := AList.update key (b\<lparr>bk_tokens := bk_tokens b - 1\<rparr>) (swept s now)\<rparr>))"
  by (simp only: take_token_def Let_def refilled_def swept_def)

lemma buckets_okD:
  assumes "buckets_ok s t" "map_of (bs_entries s) k = Some b"
  shows "bucket_ok (rt_burst (bs_rate s)) t b"
  using assms map_of_SomeD [OF assms(2)] unfolding buckets_ok_def bucket_ok_def by auto

lemma buckets_okI:
  assumes "distinct (map fst (bs_entries s))" "rt_burst (bs_rate s) \<le> u32_max" "0 \<le> t" "t \<le> 2 ^ 62"
    "\<And>k b. map_of (bs_entries s) k = Some b \<Longrightarrow> bucket_ok (rt_burst (bs_rate s)) t b"
  shows "buckets_ok s t"
  using assms(5) map_of_is_SomeI [OF assms(1)] assms(1-4) unfolding buckets_ok_def bucket_ok_def by blast

lemma bucket_ok_later: "bucket_ok n u b \<Longrightarrow> u \<le> t \<Longrightarrow> t \<le> 2 ^ 62 \<Longrightarrow> bucket_ok n t b"
  by (simp add: bucket_ok_def)

lemma swept_from:
  assumes "buckets_ok s u" "u \<le> t" "t \<le> 2 ^ 62"
  shows "map_of (swept s t) k = Some b \<Longrightarrow> map_of (bs_entries s) k = Some b"
    "map_of (swept s t) k = None \<Longrightarrow> map_of (bs_entries s) k = Some b \<Longrightarrow>
      bk_tokens b + gained b (ms_per_token (bs_rate s)) t \<ge> int (rt_burst (bs_rate s))"
    "distinct (map fst (swept s t))" "set (swept s t) \<subseteq> set (bs_entries s)"
proof -
  have d: "distinct (map fst (bs_entries s))" using assms(1) by (simp add: buckets_ok_def)
  show d': "distinct (map fst (swept s t))" using d by (simp add: swept_def distinct_map_filter)
  show sub: "set (swept s t) \<subseteq> set (bs_entries s)" by (auto simp: swept_def)
  show "map_of (swept s t) k = Some b \<Longrightarrow> map_of (bs_entries s) k = Some b"
    using sub by (auto simp: map_of_eq_Some_iff [OF d'] map_of_eq_Some_iff [OF d])
  assume gone: "map_of (swept s t) k = None" and at: "map_of (bs_entries s) k = Some b"
  have ok: "bucket_ok (rt_burst (bs_rate s)) t b" using buckets_okD [OF assms(1) at] assms(2,3) by (rule bucket_ok_later)
  have "sat64 (bk_tokens b + gained b (ms_per_token (bs_rate s)) t) = bk_tokens b + gained b (ms_per_token (bs_rate s)) t"
    using gained_is(2,3) [OF ok ms_positive(1) [of "bs_rate s"]] ok by (intro sat64_id) (auto simp: bucket_ok_def u32_max_def)
  moreover have "(k, b) \<in> set (bs_entries s)" using at by (rule map_of_SomeD)
  moreover have "(k, b) \<notin> set (swept s t)" using gone by (metis map_of_eq_None_iff image_eqI fst_conv)
  ultimately show "bk_tokens b + gained b (ms_per_token (bs_rate s)) t \<ge> int (rt_burst (bs_rate s))"
    by (auto simp: swept_def split: if_splits)
qed

lemma refilled_ok:
  assumes "buckets_ok s u" "u \<le> t" "t \<le> 2 ^ 62"
  shows "bucket_ok (rt_burst (bs_rate s)) t (refilled s k t)"
  unfolding refilled_def
proof (rule refill_ok [OF _ ms_positive(1)])
  have "0 \<le> t" "rt_burst (bs_rate s) \<le> u32_max" using assms by (simp_all add: buckets_ok_def)
  then show "bucket_ok (rt_burst (bs_rate s)) t
     (case map_of (swept s t) k of Some b \<Rightarrow> b | None \<Rightarrow> \<lparr>bk_tokens = int (rt_burst (bs_rate s)), bk_refilled_at = t\<rparr>)"
    using bucket_ok_later [OF buckets_okD [OF assms(1) swept_from(1) [OF assms]] assms(2,3)] assms(3)
    by (auto split: option.split simp: bucket_ok_def [of _ _ "\<lparr>bk_tokens = _, bk_refilled_at = _\<rparr>"])
qed

definition potential :: "buckets \<Rightarrow> string \<Rightarrow> int \<Rightarrow> int" where
  "potential s k t =
     (let ms = ms_per_token (bs_rate s); burst = int (rt_burst (bs_rate s))
      in case map_of (bs_entries s) k of
           None \<Rightarrow> burst * ms
         | Some b \<Rightarrow> min (burst * ms + ms - 1) (bk_tokens b * ms + t - bk_refilled_at b))"

lemma potential_bounds:
  assumes "buckets_ok s t"
  shows "0 \<le> potential s k t" "potential s k t \<le> int (rt_burst (bs_rate s)) * ms_per_token (bs_rate s) + ms_per_token (bs_rate s) - 1"
    "t \<le> t' \<Longrightarrow> potential s k t' \<le> potential s k t + (t' - t)"
proof -
  have ms: "0 < ms_per_token (bs_rate s)" by (rule ms_positive)
  have "0 \<le> bk_tokens b * ms_per_token (bs_rate s) \<and> bk_refilled_at b \<le> t" if "map_of (bs_entries s) k = Some b" for b
    using buckets_okD [OF assms that] ms by (simp add: bucket_ok_def)
  moreover have "0 \<le> int (rt_burst (bs_rate s)) * ms_per_token (bs_rate s)" using ms by simp
  ultimately show "0 \<le> potential s k t" using ms by (auto simp: potential_def Let_def split: option.split intro: add_nonneg_pos)
  show "potential s k t \<le> int (rt_burst (bs_rate s)) * ms_per_token (bs_rate s) + ms_per_token (bs_rate s) - 1"
    "t \<le> t' \<Longrightarrow> potential s k t' \<le> potential s k t + (t' - t)"
    using ms by (auto simp: potential_def Let_def split: option.split)
qed

lemma swept_potential:
  assumes "buckets_ok s u" "u \<le> t" "t \<le> 2 ^ 62"
  shows "potential (s\<lparr>bs_entries := swept s t\<rparr>) k t \<le> potential s k t"
proof (cases "map_of (swept s t) k")
  case (Some b)
  then show ?thesis using swept_from(1) [OF assms Some] by (simp add: potential_def Let_def)
next
  case None
  show ?thesis
  proof (cases "map_of (bs_entries s) k")
    case (Some b)
    let ?ms = "ms_per_token (bs_rate s)" and ?n = "int (rt_burst (bs_rate s))"
    have ok: "bucket_ok (rt_burst (bs_rate s)) t b" using buckets_okD [OF assms(1) Some] assms(2,3) by (rule bucket_ok_later)
    have "?n * ?ms \<le> (bk_tokens b + gained b ?ms t) * ?ms"
      using swept_from(2) [OF assms None Some] ms_positive(1) [of "bs_rate s"] by (intro mult_right_mono) simp_all
    also have "\<dots> \<le> bk_tokens b * ?ms + t - bk_refilled_at b"
      using gained_is(4) [OF ok ms_positive(1) [of "bs_rate s"]] by (simp add: distrib_right)
    finally show ?thesis using None Some ms_positive(1) [of "bs_rate s"] by (simp add: potential_def Let_def)
  qed (use None in \<open>simp add: potential_def Let_def\<close>)
qed

lemma refilled_potential:
  assumes "buckets_ok s u" "u \<le> t" "t \<le> 2 ^ 62"
  shows "bk_tokens (refilled s k t) * ms_per_token (bs_rate s) + t - bk_refilled_at (refilled s k t) \<le>
    potential (s\<lparr>bs_entries := swept s t\<rparr>) k t"
proof -
  let ?ms = "ms_per_token (bs_rate s)" and ?n = "rt_burst (bs_rate s)"
  have ms: "0 < ?ms" by (rule ms_positive)
  define b where "b = (case map_of (swept s t) k of Some b \<Rightarrow> b | None \<Rightarrow> \<lparr>bk_tokens = int ?n, bk_refilled_at = t\<rparr>)"
  have "0 \<le> t" "?n \<le> u32_max" using assms by (simp_all add: buckets_ok_def)
  then have ok: "bucket_ok ?n t b"
    unfolding b_def using bucket_ok_later [OF buckets_okD [OF assms(1) swept_from(1) [OF assms]] assms(2,3)] assms(3)
    by (auto split: option.split simp: bucket_ok_def [of _ _ "\<lparr>bk_tokens = _, bk_refilled_at = _\<rparr>"])
  note g = gained_is [OF ok ms]
  have b: "refilled s k t = refill b (int ?n) ?ms t" by (simp add: refilled_def b_def)
  have tok: "bk_tokens (refilled s k t) * ?ms \<le> (bk_tokens b + gained b ?ms t) * ?ms" "bk_tokens (refilled s k t) * ?ms \<le> int ?n * ?ms"
    unfolding b refill_is [OF ok ms] using ms by (intro mult_right_mono; simp)+
  have "bk_tokens (refilled s k t) * ?ms + t - bk_refilled_at (refilled s k t) \<le>
      min (int ?n * ?ms + ?ms - 1) (bk_tokens b * ?ms + t - bk_refilled_at b)"
    using tok g(4,5) unfolding refill_is(2) [OF ok ms, folded b] distrib_right by linarith
  also have "\<dots> \<le> potential (s\<lparr>bs_entries := swept s t\<rparr>) k t"
    by (simp add: potential_def Let_def b_def split: option.split)
  finally show ?thesis .
qed

lemma take_facts:
  assumes "buckets_ok s u" "u \<le> t" "t \<le> 2 ^ 62" "take_token s key t = (answer, s')"
  shows "bs_rate s' = bs_rate s" "buckets_ok s' t"
    "potential s' k t + (if k = key \<and> \<not> isl answer then ms_per_token (bs_rate s) else 0) \<le> potential s k t"
proof -
  define c where "c = (if bk_tokens (refilled s key t) \<le> 0 then refilled s key t
    else (refilled s key t)\<lparr>bk_tokens := bk_tokens (refilled s key t) - 1\<rparr>)"
  have s': "s' = s\<lparr>bs_entries := AList.update key c (swept s t)\<rparr>" and answer: "\<not> isl answer \<longleftrightarrow> 0 < bk_tokens (refilled s key t)"
    using assms(4) by (auto simp: take_parts Let_def c_def split: if_splits)
  show "bs_rate s' = bs_rate s" by (simp add: s')
  have c: "bucket_ok (rt_burst (bs_rate s)) t c"
    using refilled_ok [OF assms(1-3), of key] by (auto simp: c_def bucket_ok_def)
  have kept: "bucket_ok (rt_burst (bs_rate s)) t b" if "map_of (swept s t) k = Some b" for k b
    using bucket_ok_later [OF buckets_okD [OF assms(1) swept_from(1) [OF assms(1-3) that]] assms(2,3)] .
  have ends: "rt_burst (bs_rate s) \<le> u32_max" "0 \<le> u" using assms(1) by (simp_all add: buckets_ok_def)
  show "buckets_ok s' t"
  proof (rule buckets_okI)
    show "distinct (map fst (bs_entries s'))" by (simp add: s' distinct_update swept_from(3) [OF assms(1-3)])
    show "bucket_ok (rt_burst (bs_rate s')) t b" if "map_of (bs_entries s') k = Some b" for k b
      using that kept c by (auto simp: s' update_conv' split: if_splits)
  qed (use ends assms(2,3) in \<open>simp_all add: s'\<close>)
  have "potential s' k t + (if k = key \<and> \<not> isl answer then ms_per_token (bs_rate s) else 0) \<le> potential (s\<lparr>bs_entries := swept s t\<rparr>) k t"
  proof (cases "k = key")
    case True
    have "potential s' k t \<le> bk_tokens c * ms_per_token (bs_rate s) + t - bk_refilled_at c"
      by (simp add: potential_def Let_def s' True update_conv')
    then show ?thesis using refilled_potential [OF assms(1-3), of key] by (auto simp: c_def True answer left_diff_distrib split: if_splits)
  qed (simp add: potential_def Let_def s' update_conv')
  then show "potential s' k t + (if k = key \<and> \<not> isl answer then ms_per_token (bs_rate s) else 0) \<le> potential s k t"
    using swept_potential [OF assms(1-3), of k] by simp
qed

lemma serve_cons:
  assumes "take_token s key now = (answer, s')"
  shows "fst (serve s ((key, now) # reqs)) = fst (serve s' reqs)"
    "snd (serve s ((key, now) # reqs)) = (if isl answer then [] else [(key, now)]) @ snd (serve s' reqs)"
  using assms by (simp_all add: Let_def split: prod.split sum.split)

lemma serve_facts:
  assumes "buckets_ok s u" "sorted (u # map snd reqs @ [t, 2 ^ 62])"
  shows "bs_rate (fst (serve s reqs)) = bs_rate s \<and> buckets_ok (fst (serve s reqs)) t \<and>
    potential (fst (serve s reqs)) k t + ms_per_token (bs_rate s) * int (length (filter (\<lambda>(key, _). key = k) (snd (serve s reqs)))) \<le>
      potential s k u + (t - u)"
  using assms
proof (induction reqs arbitrary: s u)
  case Nil
  have "buckets_ok s t"
    by (rule buckets_okI) (use Nil in \<open>auto simp: buckets_ok_def [of s u] intro: bucket_ok_later [OF buckets_okD [OF Nil(1)]]\<close>)
  then show ?case using potential_bounds(3) [OF Nil(1), of t k] Nil(2) by simp
next
  case (Cons req reqs)
  obtain key now where req: "req = (key, now)" by (cases req)
  obtain answer s' where take: "take_token s key now = (answer, s')" by (cases "take_token s key now")
  have now: "u \<le> now" "now \<le> 2 ^ 62" and rest: "sorted (now # map snd reqs @ [t, 2 ^ 62])"
    using Cons.prems(2) by (simp_all add: req)
  note step = take_facts [OF Cons.prems(1) now take]
  note ih = Cons.IH [OF step(2) rest]
  have "potential s k now \<le> potential s k u + (now - u)" using potential_bounds(3) [OF Cons.prems(1) now(1)] .
  then show ?case
    unfolding req serve_cons [OF take] using ih step(1) step(3) [of k] by (auto simp: distrib_left split: if_splits)
qed

text \<open>A run for the witnesses.\<close>

definition demo_rate :: rate where "demo_rate = \<lparr>rt_burst = 2, rt_per_minute = 60\<rparr>"

lemma demo_ms: "ms_per_token demo_rate = 1000" "rt_burst demo_rate = 2"
  by (simp_all add: ms_per_token_def MS_PER_MINUTE_def demo_rate_def)

lemma demo_takes:
  "take_token \<lparr>bs_rate = demo_rate, bs_entries = []\<rparr> ''s'' 10 = (Inr (), \<lparr>bs_rate = demo_rate, bs_entries = [(''s'', \<lparr>bk_tokens = 1, bk_refilled_at = 10\<rparr>)]\<rparr>)"
  "take_token \<lparr>bs_rate = demo_rate, bs_entries = [(''s'', \<lparr>bk_tokens = 1, bk_refilled_at = 10\<rparr>)]\<rparr> ''s'' 20 = (Inr (), \<lparr>bs_rate = demo_rate, bs_entries = [(''s'', \<lparr>bk_tokens = 0, bk_refilled_at = 10\<rparr>)]\<rparr>)"
  "take_token \<lparr>bs_rate = demo_rate, bs_entries = [(''s'', \<lparr>bk_tokens = 0, bk_refilled_at = 10\<rparr>)]\<rparr> ''s'' 30 = (Inl 980, \<lparr>bs_rate = demo_rate, bs_entries = [(''s'', \<lparr>bk_tokens = 0, bk_refilled_at = 10\<rparr>)]\<rparr>)"
  "take_token \<lparr>bs_rate = demo_rate, bs_entries = [(''s'', \<lparr>bk_tokens = 0, bk_refilled_at = 10\<rparr>)]\<rparr> ''s'' 1500 = (Inr (), \<lparr>bs_rate = demo_rate, bs_entries = [(''s'', \<lparr>bk_tokens = 0, bk_refilled_at = 1010\<rparr>)]\<rparr>)"
  by (simp_all add: take_token_def demo_ms refill_def gained_def sat64_def SWEEP_THRESHOLD_def Let_def)

text \<open>C24: whatever came before, and whatever is swept, over requests with clocks that do not go back
  \<open>Buckets::take\<close> grants a key in a stretch of time at most its burst and one token for each begun
  time of a token, other keys notwithstanding.\<close>
theorem takes_are_bounded:
  assumes "rt_burst r \<le> u32_max" "sorted (0 # map snd before @ [a] @ map snd window @ [b, 2 ^ 62])"
  shows "int (length (filter (\<lambda>(key, _). key = k) (snd (serve (fst (serve (buckets_new r) before)) window)))) \<le>
    int (rt_burst r) + (b - a + ms_per_token r - 1) div ms_per_token r"
proof -
  let ?ms = "ms_per_token r" and ?s = "fst (serve (buckets_new r) before)"
  let ?n = "int (length (filter (\<lambda>(key, _). key = k) (snd (serve ?s window))))"
  have start: "buckets_ok (buckets_new r) 0" using assms(1) by (simp add: buckets_ok_def buckets_new_def)
  have first: "sorted (0 # map snd before @ [a, 2 ^ 62])" and second: "sorted (a # map snd window @ [b, 2 ^ 62])"
    using assms(2) by (simp_all add: sorted_append)
  note s = conjunct1 [OF serve_facts [OF start first]] conjunct1 [OF conjunct2 [OF serve_facts [OF start first]]]
  have rate: "bs_rate ?s = r" using s(1) by (simp add: buckets_new_def)
  have "?ms * ?n \<le> potential ?s k a + (b - a)"
    using serve_facts [OF s(2) second, of k] potential_bounds(1) [of "fst (serve ?s window)" b k] rate by auto
  also have "potential ?s k a \<le> int (rt_burst r) * ?ms + ?ms - 1" using potential_bounds(2) [OF s(2), of k] rate by simp
  finally have "?n * ?ms \<le> int (rt_burst r) * ?ms + (b - a + ?ms - 1)" by (simp add: mult.commute)
  then have "?n * ?ms div ?ms \<le> (int (rt_burst r) * ?ms + (b - a + ?ms - 1)) div ?ms"
    using ms_positive(1) by (intro zdiv_mono1)
  also have "?n * ?ms div ?ms = ?n" using ms_positive(1) [of r] by simp
  also have "(int (rt_burst r) * ?ms + (b - a + ?ms - 1)) div ?ms = int (rt_burst r) + (b - a + ?ms - 1) div ?ms"
    using ms_positive(1) [of r] by (simp add: add.commute div_mult_self1)
  finally show ?thesis .
qed

lemma takes_are_bounded_witness:
  "snd (serve (fst (serve (buckets_new demo_rate) [(''s'', 10)])) [(''s'', 20), (''s'', 30), (''s'', 1500)]) = [(''s'', 20), (''s'', 1500)] \<and>
   (2::int) \<le> 2 + (1500 - 20 + 1000 - 1) div 1000"
proof -
  have served: "snd (serve (fst (serve (buckets_new demo_rate) [(''s'', 10)])) [(''s'', 20), (''s'', 30), (''s'', 1500)]) = [(''s'', 20), (''s'', 1500)]"
    unfolding buckets_new_def demo_takes [THEN serve_cons(1)] demo_takes [THEN serve_cons(2)] serve.simps(1) fst_conv by simp
  have "rt_burst demo_rate \<le> u32_max"
    "sorted ((0::int) # map snd [(''s'', 10)] @ [20] @ map snd [(''s'', 20), (''s'', 30), (''s'', 1500)] @ [1500, 2 ^ 62])"
    by (simp_all add: u32_max_def demo_ms)
  from takes_are_bounded [OF this, of "''s''"] show ?thesis unfolding served demo_ms by simp
qed

text \<open>Whether a take at a time would be granted.\<close>

definition available :: "buckets \<Rightarrow> string \<Rightarrow> int \<Rightarrow> bool" where
  "available s k t =
     (case map_of (bs_entries s) k of
        None \<Rightarrow> 0 < rt_burst (bs_rate s)
      | Some b \<Rightarrow> 0 < bk_tokens b + gained b (ms_per_token (bs_rate s)) t)"

lemma gained_mono: "t \<le> t' \<Longrightarrow> 0 < ms \<Longrightarrow> gained b ms t \<le> gained b ms t'"
  unfolding gained_def sat64_def by (intro zdiv_mono1) linarith+

lemma swept_available:
  assumes "buckets_ok s u" "u \<le> t" "t \<le> t'" "t' \<le> 2 ^ 62" "0 < rt_burst (bs_rate s)"
  shows "available (s\<lparr>bs_entries := swept s t\<rparr>) k t' = available s k t'"
proof -
  have t: "t \<le> 2 ^ 62" using assms(3,4) by simp
  note from_s = swept_from [OF assms(1,2) t]
  show ?thesis
  proof (cases "map_of (swept s t) k")
    case (Some b)
    then show ?thesis using from_s(1) by (simp add: available_def)
  next
    case None
    have "0 < bk_tokens b + gained b (ms_per_token (bs_rate s)) t'" if "map_of (bs_entries s) k = Some b" for b
      using from_s(2) [OF None that] gained_mono [OF assms(3) ms_positive(1) [of "bs_rate s"], of b] assms(5) by simp
    then show ?thesis using None assms(5) by (simp add: available_def split: option.split)
  qed
qed

lemma take_granted:
  assumes "buckets_ok s u" "u \<le> t" "t \<le> 2 ^ 62" "0 < rt_burst (bs_rate s)" "take_token s key t = (answer, s')"
  shows "isl answer \<longleftrightarrow> \<not> available s key t"
    "key \<noteq> k \<Longrightarrow> t \<le> t' \<Longrightarrow> t' \<le> 2 ^ 62 \<Longrightarrow> available s' k t' = available s k t'"
    "answer = Inl w \<Longrightarrow> t \<le> t' \<Longrightarrow> t' \<le> 2 ^ 62 \<Longrightarrow> available s' key t' \<longleftrightarrow> t + w \<le> t'"
proof -
  let ?ms = "ms_per_token (bs_rate s)" and ?n = "rt_burst (bs_rate s)" and ?b = "refilled s key t"
  have ms: "0 < ?ms" by (rule ms_positive)
  define b where "b = (case map_of (swept s t) key of Some b \<Rightarrow> b | None \<Rightarrow> \<lparr>bk_tokens = int ?n, bk_refilled_at = t\<rparr>)"
  have "0 \<le> t" "?n \<le> u32_max" using assms by (simp_all add: buckets_ok_def)
  then have ok: "bucket_ok ?n t b"
    unfolding b_def using bucket_ok_later [OF buckets_okD [OF assms(1) swept_from(1) [OF assms(1-3)]] assms(2,3)] assms(3)
    by (auto split: option.split simp: bucket_ok_def [of _ _ "\<lparr>bk_tokens = _, bk_refilled_at = _\<rparr>"])
  note g = gained_is [OF ok ms]
  have b: "?b = refill b (int ?n) ?ms t" by (simp add: refilled_def b_def)
  note parts = refill_is [OF ok ms, folded b]
  have "available (s\<lparr>bs_entries := swept s t\<rparr>) key t \<longleftrightarrow> 0 < bk_tokens ?b"
    using assms(4) g(2) ok unfolding parts by (auto simp: available_def b_def bucket_ok_def gained_def split: option.splits)
  then have avail: "available s key t \<longleftrightarrow> 0 < bk_tokens ?b"
    using swept_available [OF assms(1,2) order_refl assms(3,4)] by simp
  show "isl answer \<longleftrightarrow> \<not> available s key t"
    using assms(5) by (auto simp: take_parts Let_def avail split: if_splits)
  show "available s' k t' = available s k t'" if "key \<noteq> k" "t \<le> t'" "t' \<le> 2 ^ 62"
  proof -
    have "available s' k t' = available (s\<lparr>bs_entries := swept s t\<rparr>) k t'"
      using assms(5) that(1) by (auto simp: take_parts Let_def available_def update_conv' split: if_splits option.splits)
    then show ?thesis using swept_available [OF assms(1,2) that(2,3) assms(4)] by simp
  qed
  show "available s' key t' \<longleftrightarrow> t + w \<le> t'" if "answer = Inl w" "t \<le> t'" "t' \<le> 2 ^ 62"
  proof -
    have refused: "bk_tokens ?b \<le> 0" using assms(5) that(1) by (auto simp: take_parts Let_def split: if_splits)
    have rok: "bucket_ok ?n t ?b" by (rule refilled_ok [OF assms(1-3)])
    have room: "0 \<le> t - bk_refilled_at ?b" "t - bk_refilled_at ?b < ?ms" using g(4,5) unfolding parts by simp_all
    have none: "bk_tokens ?b = 0" using refused rok by (simp add: bucket_ok_def)
    have w: "t + w = bk_refilled_at ?b + ?ms"
      using assms(5) that(1) refused room rok ms_positive(2) [of "bs_rate s"]
      by (auto simp: take_parts Let_def sat64_def bucket_ok_def split: if_splits)
    have s': "available s' key t' \<longleftrightarrow> 0 < gained ?b ?ms t'"
      using assms(5) refused none by (auto simp: take_parts Let_def available_def update_conv' split: if_splits)
    have "gained ?b ?ms t' = (t' - bk_refilled_at ?b) div ?ms"
      using gained_is(1) [OF bucket_ok_later [OF rok that(2,3)] ms] .
    then show ?thesis unfolding s' w using ms pos_imp_zdiv_pos_iff [of ?ms "t' - bk_refilled_at ?b"] by auto
  qed
qed

lemma serve_others:
  assumes "buckets_ok s u" "sorted (u # map snd reqs @ [t, 2 ^ 62])" "0 < rt_burst (bs_rate s)" "key \<notin> fst ` set reqs"
  shows "available (fst (serve s reqs)) key t = available s key t"
  using assms
proof (induction reqs arbitrary: s u)
  case (Cons req reqs)
  obtain k now where req: "req = (k, now)" by (cases req)
  obtain answer s' where take: "take_token s k now = (answer, s')" by (cases "take_token s k now")
  have now: "u \<le> now" "now \<le> 2 ^ 62" "now \<le> t" "t \<le> 2 ^ 62" and rest: "sorted (now # map snd reqs @ [t, 2 ^ 62])"
    using Cons.prems(2) by (simp_all add: req sorted_append)
  note step = take_facts [OF Cons.prems(1) now(1,2) take]
  have "available s' key t = available s key t"
    using take_granted(2) [OF Cons.prems(1) now(1,2) Cons.prems(3) take, of key t] Cons.prems(4) now(3,4) by (auto simp: req)
  then show ?case
    unfolding req serve_cons [OF take] using Cons.IH [OF step(2) rest] Cons.prems(3,4) step(1) by simp
qed simp

text \<open>C28: when \<open>Buckets::take\<close> refuses a key it names the wait to the millisecond: whatever other keys
  ask and whatever is swept meanwhile, a later take of the key is granted when the wait is over and
  refused before.\<close>
theorem the_wait_is_exact:
  assumes "0 < rt_burst r" "rt_burst r \<le> u32_max"
    and clocks: "sorted (0 # map snd before @ [t] @ map snd others @ [t', 2 ^ 62])"
    and refused: "take_token (fst (serve (buckets_new r) before)) key t = (Inl wait, s)"
    and others: "key \<notin> fst ` set others"
  shows "(fst (take_token (fst (serve s others)) key t') = Inr ()) = (t + wait \<le> t')"
proof -
  let ?s = "fst (serve (buckets_new r) before)" and ?after = "fst (serve s others)"
  have start: "buckets_ok (buckets_new r) 0" using assms(2) by (simp add: buckets_ok_def buckets_new_def)
  have first: "sorted (0 # map snd before @ [t, 2 ^ 62])" and second: "sorted (t # map snd others @ [t', 2 ^ 62])"
    and t: "t \<le> t'" "t' \<le> 2 ^ 62" "t \<le> 2 ^ 62"
    using clocks by (auto simp: sorted_append)
  have rate: "bs_rate ?s = r" and ok: "buckets_ok ?s t" using serve_facts [OF start first] by (auto simp: buckets_new_def)
  note taken = take_facts(1,2) [OF ok order_refl t(3) refused]
  have burst: "0 < rt_burst (bs_rate ?s)" "0 < rt_burst (bs_rate s)" using assms(1) rate taken(1) by simp_all
  have later: "bs_rate ?after = bs_rate s" "buckets_ok ?after t'" using serve_facts [OF taken(2) second] by auto
  obtain answer s2 where take: "take_token ?after key t' = (answer, s2)" by (cases "take_token ?after key t'")
  have "available ?after key t' \<longleftrightarrow> t + wait \<le> t'"
    using serve_others [OF taken(2) second burst(2) others] take_granted(3) [OF ok order_refl t(3) burst(1) refused refl t(1,2)] by simp
  then show ?thesis
    using take_granted(1) [OF later(2) order_refl t(2) _ take] burst(2) later(1) take by (cases answer) auto
qed

lemma the_wait_is_exact_witness:
  "fst (take_token (fst (serve \<lparr>bs_rate = demo_rate, bs_entries = [(''s'', \<lparr>bk_tokens = 0, bk_refilled_at = 10\<rparr>)]\<rparr> [(''u'', 40)])) ''s'' 1010) = Inr ()"
proof -
  have served: "fst (serve (buckets_new demo_rate) [(''s'', 10), (''s'', 20)]) = \<lparr>bs_rate = demo_rate, bs_entries = [(''s'', \<lparr>bk_tokens = 0, bk_refilled_at = 10\<rparr>)]\<rparr>"
    unfolding buckets_new_def demo_takes [THEN serve_cons(1)] serve.simps(1) fst_conv ..
  have "0 < rt_burst demo_rate" "rt_burst demo_rate \<le> u32_max"
    "sorted ((0::int) # map snd [(''s'', 10), (''s'', 20)] @ [30] @ map snd [(''u'', 40)] @ [1010, 2 ^ 62])" "''s'' \<notin> fst ` set [(''u'', 40)]"
    by (simp_all add: u32_max_def demo_ms)
  note exact = the_wait_is_exact [OF this(1-3) demo_takes(3) [folded served] this(4)]
  show ?thesis by (rule iffD2 [OF exact [unfolded served]]) simp
qed

end
