(* ===== verification/Consent_Flow.thy ===== *)
theory Consent_Flow
  imports Rate_Limits "HOL-Library.Product_Lexorder"
begin

text \<open>
  The sign-in consents in flight at a mail provider (\<open>oauth/consents.rs\<close>): filed by a start, claimed
  once by the callback, settled with an account or a cause, and bounded per user. The hash map is an
  association list with distinct keys; its order is the order of iteration, on which no lemma relies.
\<close>

definition CONSENT_TTL_MS :: int where "CONSENT_TTL_MS = 10 * MS_PER_MINUTE"
definition MAX_CONSENTS_PER_USER :: nat where "MAX_CONSENTS_PER_USER = 4"

datatype oauth_provider = Google | Microsoft

datatype account_provider =
  Provider_Gmail | Provider_Microsoft | Provider_Fastmail | Provider_Icloud | Provider_Yahoo | Provider_Generic

record mail_address =
  ma_local :: string
  ma_domain :: string

record new_consent =
  nc_state :: string
  nc_verifier :: string
  nc_user :: string
  nc_provider :: oauth_provider
  nc_account_provider :: account_provider
  nc_address :: mail_address
  nc_account :: "string option"

record claimant =
  cl_user :: string
  cl_provider :: oauth_provider

record claimed =
  cd_provider :: oauth_provider
  cd_account_provider :: account_provider
  cd_address :: mail_address
  cd_account :: "string option"
  cd_verifier :: string

datatype probe_error =
  CredentialRejected | Unreachable string | Insecure string | Unsupported string | SmtpAuthUnavailable

datatype denied_cause =
  Denied_AccessDenied | Denied_ExchangeFailed | Denied_NoRefreshToken | Denied_UpstreamCredentials
| Denied_UpstreamUnreachable | Denied_UpstreamInsecure | Denied_UpstreamUnsupported
| Denied_SmtpAuthUnavailable | Denied_Failed

fun denied_from_probe :: "probe_error \<Rightarrow> denied_cause" where
  "denied_from_probe CredentialRejected = Denied_UpstreamCredentials"
| "denied_from_probe (Unreachable _) = Denied_UpstreamUnreachable"
| "denied_from_probe (Insecure _) = Denied_UpstreamInsecure"
| "denied_from_probe (Unsupported _) = Denied_UpstreamUnsupported"
| "denied_from_probe SmtpAuthUnavailable = Denied_SmtpAuthUnavailable"

datatype consent_outcome = Outcome_Pending | Outcome_Done string | Outcome_Denied denied_cause

datatype stage = Stage_Waiting | Stage_Exchanging | Stage_Done string | Stage_Denied denied_cause

record consent =
  co_user :: string
  co_provider :: oauth_provider
  co_account_provider :: account_provider
  co_address :: mail_address
  co_account :: "string option"
  co_verifier :: string
  co_created :: int
  co_stage :: stage

type_synonym consents = "(string \<times> consent) list"

definition consent_live :: "consent \<Rightarrow> int \<Rightarrow> bool" where
  "consent_live c now \<longleftrightarrow> sat64 (now - co_created c) < CONSENT_TTL_MS"

definition consent_open :: "consent \<Rightarrow> bool" where
  "consent_open c = (case co_stage c of Stage_Waiting \<Rightarrow> True | Stage_Exchanging \<Rightarrow> True | _ \<Rightarrow> False)"

definition consent_insert :: "consents \<Rightarrow> new_consent \<Rightarrow> int \<Rightarrow> consents" where
  "consent_insert entries new now =
     (let entries = filter (\<lambda>(_, c). consent_live c now) entries;
          own = map (\<lambda>(state, c). (state, (consent_open c, co_created c))) (filter (\<lambda>(_, c). co_user c = nc_user new) entries);
          own = sort_key snd own;
          surplus = length own - (MAX_CONSENTS_PER_USER - 1);
          entries = foldl (\<lambda>m (oldest, _). AList.delete oldest m) entries (take surplus own)
      in AList.update (nc_state new)
           \<lparr>co_user = nc_user new, co_provider = nc_provider new, co_account_provider = nc_account_provider new,
            co_address = nc_address new, co_account = nc_account new, co_verifier = nc_verifier new,
            co_created = now, co_stage = Stage_Waiting\<rparr> entries)"

definition consent_claim :: "consents \<Rightarrow> claimant \<Rightarrow> string \<Rightarrow> int \<Rightarrow> claimed option \<times> consents" where
  "consent_claim entries who state now =
     (case map_of entries state of
        None \<Rightarrow> (None, entries)
      | Some c \<Rightarrow>
          if consent_live c now \<and> co_user c = cl_user who \<and> co_provider c = cl_provider who \<and> co_stage c = Stage_Waiting
          then (Some \<lparr>cd_provider = cl_provider who, cd_account_provider = co_account_provider c, cd_address = co_address c,
                      cd_account = co_account c, cd_verifier = co_verifier c\<rparr>,
                AList.update state (c\<lparr>co_stage := Stage_Exchanging, co_verifier := []\<rparr>) entries)
          else (None, entries))"

definition consent_settle :: "consents \<Rightarrow> string \<Rightarrow> denied_cause + string \<Rightarrow> consents" where
  "consent_settle entries state outcome =
     (case map_of entries state of
        None \<Rightarrow> entries
      | Some c \<Rightarrow>
          AList.update state (c\<lparr>co_stage := (case outcome of Inr account \<Rightarrow> Stage_Done account | Inl cause \<Rightarrow> Stage_Denied cause)\<rparr>) entries)"

definition consent_outcome_of :: "consents \<Rightarrow> string \<Rightarrow> string \<Rightarrow> int \<Rightarrow> consent_outcome option" where
  "consent_outcome_of entries user state now =
     (case map_of entries state of
        None \<Rightarrow> None
      | Some c \<Rightarrow>
          if co_user c \<noteq> user \<or> \<not> consent_live c now then None
          else Some (case co_stage c of
                 Stage_Waiting \<Rightarrow> Outcome_Pending
               | Stage_Exchanging \<Rightarrow> Outcome_Pending
               | Stage_Done account \<Rightarrow> Outcome_Done account
               | Stage_Denied cause \<Rightarrow> Outcome_Denied cause))"

definition consent_end :: "consents \<Rightarrow> string \<Rightarrow> string \<Rightarrow> int \<Rightarrow> bool \<times> consents" where
  "consent_end entries user state now =
     (let opened = (case map_of entries state of
            None \<Rightarrow> False
          | Some c \<Rightarrow> co_user c = user \<and> consent_live c now \<and> co_stage c = Stage_Waiting)
      in (opened, if opened then AList.delete state entries else entries))"

subsection \<open>Histories\<close>

datatype consent_op =
  Op_Insert new_consent int
| Op_Claim claimant string int
| Op_Settle string "denied_cause + string"
| Op_End string string int

datatype consent_answer = Filed | Handed "claimed option" | Settled | Ended bool

fun consent_step :: "consents \<Rightarrow> consent_op \<Rightarrow> consent_answer \<times> consents" where
  "consent_step m (Op_Insert new now) = (Filed, consent_insert m new now)"
| "consent_step m (Op_Claim who state now) = (case consent_claim m who state now of (got, m') \<Rightarrow> (Handed got, m'))"
| "consent_step m (Op_Settle state outcome) = (Settled, consent_settle m state outcome)"
| "consent_step m (Op_End user state now) = (case consent_end m user state now of (ended, m') \<Rightarrow> (Ended ended, m'))"

definition consent_state :: "consent_op list \<Rightarrow> consents" where
  "consent_state ops = foldl (\<lambda>m op. snd (consent_step m op)) [] ops"

fun consent_trace_from :: "consents \<Rightarrow> consent_op list \<Rightarrow> (consent_op \<times> consent_answer) list" where
  "consent_trace_from m [] = []"
| "consent_trace_from m (op # ops) = (case consent_step m op of (a, m') \<Rightarrow> (op, a) # consent_trace_from m' ops)"

definition consent_trace :: "consent_op list \<Rightarrow> (consent_op \<times> consent_answer) list" where
  "consent_trace ops = consent_trace_from [] ops"

text \<open>A step that files a state anew, hands it over or ends it.\<close>

fun takes_state :: "string \<Rightarrow> consent_op \<times> consent_answer \<Rightarrow> bool" where
  "takes_state s (Op_Insert new now, a) = (nc_state new = s)"
| "takes_state s (Op_Claim who state now, a) = (state = s \<and> a \<noteq> Handed None)"
| "takes_state s (Op_Settle state outcome, a) = False"
| "takes_state s (Op_End user state now, a) = (state = s \<and> a = Ended True)"

lemma consent_snoc:
  "consent_state (ops @ [op]) = snd (consent_step (consent_state ops) op)"
  "consent_trace (ops @ [op]) = consent_trace ops @ [(op, fst (consent_step (consent_state ops) op))]"
proof -
  have "consent_trace_from m (ops @ [op]) =
      consent_trace_from m ops @ [(op, fst (consent_step (foldl (\<lambda>m op. snd (consent_step m op)) m ops) op))]" for m
    by (induction ops arbitrary: m) (simp_all split: prod.split)
  then show "consent_trace (ops @ [op]) = consent_trace ops @ [(op, fst (consent_step (consent_state ops) op))]"
    by (simp add: consent_trace_def consent_state_def)
qed (simp add: consent_state_def)

lemma map_of_filtered: "distinct (map fst m) \<Longrightarrow> map_of (filter P m) k = Some c \<longleftrightarrow> map_of m k = Some c \<and> P (k, c)"
  by (simp add: map_of_eq_Some_iff distinct_map_filter)

lemma deletes: "map_of (foldl (\<lambda>m (k, _). AList.delete k m) m ks) k = (if k \<in> fst ` set ks then None else map_of m k)"
  "distinct (map fst m) \<Longrightarrow> distinct (map fst (foldl (\<lambda>m (k, _). AList.delete k m) m ks))"
  by (induction ks arbitrary: m) (auto simp: delete_conv' distinct_delete split: prod.splits)

lemma consent_step_distinct: "distinct (map fst m) \<Longrightarrow> distinct (map fst (snd (consent_step m op)))"
  by (cases op) (auto simp: consent_insert_def consent_claim_def consent_settle_def consent_end_def Let_def
    distinct_update distinct_delete deletes(2) distinct_map_filter split: option.split)

lemma consent_state_distinct: "distinct (map fst (consent_state ops))"
  by (induction ops rule: rev_induct) (simp_all add: consent_snoc consent_step_distinct, simp add: consent_state_def)

text \<open>A consent on file was filed once under its state and not taken since, if it still waits.\<close>

definition filed_as :: "(consent_op \<times> consent_answer) list \<Rightarrow> string \<Rightarrow> consent \<Rightarrow> bool" where
  "filed_as trace s c \<longleftrightarrow>
     (\<exists>pre new t post. trace = pre @ (Op_Insert new t, Filed) # post \<and> nc_state new = s \<and>
        co_user c = nc_user new \<and> co_provider c = nc_provider new \<and> co_account_provider c = nc_account_provider new \<and>
        co_address c = nc_address new \<and> co_account c = nc_account new \<and> co_created c = t \<and>
        (co_stage c = Stage_Waiting \<longrightarrow> co_verifier c = nc_verifier new \<and> (\<forall>x\<in>set post. \<not> takes_state s x)))"

lemma filed_as_later:
  assumes "filed_as trace s c" "\<not> takes_state s x"
  shows "filed_as (trace @ [x]) s c"
  using assms unfolding filed_as_def by (elim exE conjE) (auto intro!: exI)

lemma filed_as_staged:
  assumes "filed_as trace s c" "co_stage c' \<noteq> Stage_Waiting" "c' = c\<lparr>co_stage := st, co_verifier := v\<rparr>"
  shows "filed_as (trace @ [x]) s c'"
  using assms unfolding filed_as_def by (elim exE conjE) (auto intro!: exI)

lemma filed_as_new: "filed_as (trace @ [(Op_Insert new now, Filed)]) (nc_state new)
   \<lparr>co_user = nc_user new, co_provider = nc_provider new, co_account_provider = nc_account_provider new,
    co_address = nc_address new, co_account = nc_account new, co_verifier = nc_verifier new,
    co_created = now, co_stage = Stage_Waiting\<rparr>"
  unfolding filed_as_def by (rule exI [of _ trace], rule exI [of _ new], rule exI [of _ now], rule exI [of _ "[]"]) simp

lemma filed_as_keeps: "filed_as trace s c \<Longrightarrow> co_stage c \<noteq> Stage_Waiting \<Longrightarrow> filed_as (trace @ [x]) s c"
  by (rule filed_as_staged [of trace s c c "co_verifier c" "co_stage c"]) simp_all

lemma on_file:
  assumes "map_of (consent_state ops) s = Some c"
  shows "filed_as (consent_trace ops) s c"
  using assms
proof (induction ops arbitrary: c rule: rev_induct)
  case Nil
  then show ?case by (simp add: consent_state_def)
next
  case (snoc op ops)
  let ?m = "consent_state ops" and ?x = "(op, fst (consent_step (consent_state ops) op))"
  note d = consent_state_distinct [of ops]
  have same: "filed_as (consent_trace (ops @ [op])) s c" if "map_of ?m s = Some c" "\<not> takes_state s ?x"
    unfolding consent_snoc(2) by (rule filed_as_later [OF snoc.IH [OF that(1)] that(2)])
  have staged: "filed_as (consent_trace (ops @ [op])) s c" if "map_of ?m s = Some c0" "c = c0\<lparr>co_stage := st, co_verifier := v\<rparr>"
      "st \<noteq> Stage_Waiting" for c0 st v
    unfolding consent_snoc(2) using filed_as_staged [OF snoc.IH [OF that(1)], of c v st] that(2,3) by simp
  show ?case
  proof (cases op)
    case (Op_Insert new now)
    show ?thesis
    proof (cases "nc_state new = s")
      case True
      then show ?thesis using snoc.prems filed_as_new [of "consent_trace ops" new now]
        unfolding consent_snoc by (simp add: Op_Insert consent_insert_def Let_def update_conv')
    next
      case False
      then have "map_of ?m s = Some c"
        using snoc.prems by (auto simp: consent_snoc Op_Insert consent_insert_def Let_def update_conv' deletes(1)
          map_of_filtered [OF d] split: if_splits)
      then show ?thesis using False by (intro same) (simp_all add: Op_Insert)
    qed
  next
    case (Op_Claim who state now)
    show ?thesis
    proof (cases "state = s \<and> fst (consent_claim ?m who state now) \<noteq> None")
      case True
      then obtain c0 where c0: "map_of ?m s = Some c0" "c = c0\<lparr>co_stage := Stage_Exchanging, co_verifier := []\<rparr>"
        using snoc.prems by (auto simp: consent_snoc Op_Claim consent_claim_def update_conv' split: option.splits if_splits)
      then show ?thesis by (rule staged) simp
    next
      case False
      then have "map_of ?m s = Some c"
        using snoc.prems by (auto simp: consent_snoc Op_Claim consent_claim_def update_conv' split: option.splits if_splits)
      then show ?thesis using False by (intro same) (auto simp: Op_Claim split: prod.split)
    qed
  next
    case (Op_Settle state outcome)
    show ?thesis
    proof (cases "state = s")
      case True
      then obtain c0 where c0: "map_of ?m s = Some c0"
        "c = c0\<lparr>co_stage := (case outcome of Inr account \<Rightarrow> Stage_Done account | Inl cause \<Rightarrow> Stage_Denied cause), co_verifier := co_verifier c0\<rparr>"
        using snoc.prems by (auto simp: consent_snoc Op_Settle consent_settle_def update_conv' split: option.splits)
      then show ?thesis by (rule staged) (simp split: sum.split)
    next
      case False
      then have "map_of ?m s = Some c"
        using snoc.prems by (auto simp: consent_snoc Op_Settle consent_settle_def update_conv' split: option.splits)
      then show ?thesis by (intro same) (simp_all add: Op_Settle)
    qed
  next
    case (Op_End user state now)
    have "map_of ?m s = Some c \<and> (state = s \<longrightarrow> \<not> fst (consent_end ?m user state now))"
      using snoc.prems by (auto simp: consent_snoc Op_End consent_end_def Let_def delete_conv' split: if_splits)
    then show ?thesis by (intro same) (auto simp: Op_End split: prod.split)
  qed
qed

text \<open>C17: whatever happened to the consents before, a callback gets a consent only when the same user filed
  it under that state for that provider less than ten minutes ago, and it was neither handed over nor
  ended nor filed anew since: the verifier and the account facts are those of the start, and they are
  handed over once.\<close>
theorem consents_are_handed_once:
  assumes "consent_claim (consent_state ops) who s now = (Some got, m)"
  shows "\<exists>pre new t post.
    consent_trace ops = pre @ (Op_Insert new t, Filed) # post \<and> (\<forall>x\<in>set post. \<not> takes_state s x) \<and>
    nc_state new = s \<and> nc_user new = cl_user who \<and> nc_provider new = cl_provider who \<and> sat64 (now - t) < CONSENT_TTL_MS \<and>
    got = \<lparr>cd_provider = nc_provider new, cd_account_provider = nc_account_provider new, cd_address = nc_address new,
           cd_account = nc_account new, cd_verifier = nc_verifier new\<rparr>"
proof -
  obtain c where c: "map_of (consent_state ops) s = Some c" "consent_live c now" "co_user c = cl_user who"
      "co_provider c = cl_provider who" "co_stage c = Stage_Waiting"
      "got = \<lparr>cd_provider = cl_provider who, cd_account_provider = co_account_provider c, cd_address = co_address c,
             cd_account = co_account c, cd_verifier = co_verifier c\<rparr>"
    using assms by (auto simp: consent_claim_def split: option.splits if_splits)
  from on_file [OF c(1)] show ?thesis
    unfolding filed_as_def using c(2-6) by (elim exE conjE) (rule exI, rule exI, rule exI, rule exI, auto simp: consent_live_def)
qed

subsection \<open>Who gives way\<close>

definition consents_of :: "consents \<Rightarrow> string \<Rightarrow> consents" where
  "consents_of m u = filter (\<lambda>(_, c). co_user c = u) m"

definition consent_rank :: "consent \<Rightarrow> bool \<times> int" where
  "consent_rank c = (consent_open c, co_created c)"

lemma names_of:
  assumes "distinct (map fst m)"
  shows "length (consents_of m u) = card (fst ` set (consents_of m u))"
    "s \<in> fst ` set (consents_of m u) \<longleftrightarrow> (\<exists>c. map_of m s = Some c \<and> co_user c = u)"
proof -
  have "distinct (map fst (consents_of m u))" using assms unfolding consents_of_def by (rule distinct_map_filter)
  then show "length (consents_of m u) = card (fst ` set (consents_of m u))"
    using distinct_card [of "map fst (consents_of m u)"] by simp
  show "s \<in> fst ` set (consents_of m u) \<longleftrightarrow> (\<exists>c. map_of m s = Some c \<and> co_user c = u)"
    by (force simp: consents_of_def map_of_eq_Some_iff [OF assms])
qed

text \<open>The user's live consents as an insert orders them, and the ones it drops.\<close>

definition own_order :: "consents \<Rightarrow> string \<Rightarrow> int \<Rightarrow> (string \<times> bool \<times> int) list" where
  "own_order m u now = sort_key snd (map (\<lambda>(state, c). (state, consent_rank c)) (consents_of (filter (\<lambda>(_, c). consent_live c now) m) u))"

definition dropped :: "consents \<Rightarrow> string \<Rightarrow> int \<Rightarrow> (string \<times> bool \<times> int) list" where
  "dropped m u now = take (length (own_order m u now) - 3) (own_order m u now)"

lemma inserted_at:
  assumes "distinct (map fst m)" "s \<noteq> nc_state new"
  shows "map_of (consent_insert m new now) s = Some c \<longleftrightarrow>
    map_of m s = Some c \<and> consent_live c now \<and> s \<notin> fst ` set (dropped m (nc_user new) now)"
proof -
  have "dropped m (nc_user new) now = (let own = own_order m (nc_user new) now in take (length own - (MAX_CONSENTS_PER_USER - 1)) own)"
    by (simp add: dropped_def MAX_CONSENTS_PER_USER_def Let_def)
  then show ?thesis
    using assms(2) by (simp add: consent_insert_def Let_def update_conv' deletes(1) map_of_filtered [OF assms(1)]
      own_order_def consents_of_def consent_rank_def del: sort_key_simps)
qed

lemma own_order_names:
  assumes "distinct (map fst m)"
  shows "distinct (map fst (own_order m u now))" "length (own_order m u now) = length (consents_of (filter (\<lambda>(_, c). consent_live c now) m) u)"
    "(s, r) \<in> set (own_order m u now) \<longleftrightarrow> (\<exists>c. map_of m s = Some c \<and> co_user c = u \<and> consent_live c now \<and> r = consent_rank c)"
    "sorted (map snd (own_order m u now))"
proof -
  let ?own = "map (\<lambda>(state, c). (state, consent_rank c)) (consents_of (filter (\<lambda>(_, c). consent_live c now) m) u)"
  have "map fst ?own = map fst (consents_of (filter (\<lambda>(_, c). consent_live c now) m) u)" by (simp add: case_prod_beta comp_def)
  moreover have "distinct (map fst (consents_of (filter (\<lambda>(_, c). consent_live c now) m) u))"
    using assms unfolding consents_of_def by (intro distinct_map_filter)
  ultimately have "distinct (map fst ?own)" by (simp only:)
  then show "distinct (map fst (own_order m u now))" unfolding own_order_def distinct_map set_sort distinct_sort .
  show "length (own_order m u now) = length (consents_of (filter (\<lambda>(_, c). consent_live c now) m) u)" by (simp add: own_order_def)
  show "(s, r) \<in> set (own_order m u now) \<longleftrightarrow> (\<exists>c. map_of m s = Some c \<and> co_user c = u \<and> consent_live c now \<and> r = consent_rank c)"
    by (auto simp: own_order_def consents_of_def map_of_eq_Some_iff [OF assms])
  show "sorted (map snd (own_order m u now))" by (simp add: own_order_def)
qed

lemma insert_bound:
  assumes "distinct (map fst m)" "\<And>u. length (consents_of m u) \<le> 4"
  shows "length (consents_of (consent_insert m new now) u) \<le> 4"
proof -
  let ?m = "consent_insert m new now" and ?own = "own_order m u now"
  let ?names = "\<lambda>m. fst ` set (consents_of m u)"
  have d: "distinct (map fst ?m)" using consent_step_distinct [OF assms(1), of "Op_Insert new now"] by simp
  have "card (?names ?m) \<le> 4"
  proof (cases "u = nc_user new")
    case True
    have "?names ?m \<subseteq> insert (nc_state new) (fst ` set (drop (length ?own - 3) ?own))"
    proof
      fix s assume "s \<in> ?names ?m"
      then obtain c where c: "map_of ?m s = Some c" "co_user c = u" unfolding names_of(2) [OF d] by blast
      show "s \<in> insert (nc_state new) (fst ` set (drop (length ?own - 3) ?own))"
      proof (cases "s = nc_state new")
        case False
        then have at: "map_of m s = Some c" "consent_live c now" and keep: "s \<notin> fst ` set (dropped m u now)"
          using c(1) inserted_at [OF assms(1) False] True by simp_all
        have "(s, consent_rank c) \<in> set (take (length ?own - 3) ?own @ drop (length ?own - 3) ?own)"
          using own_order_names(3) [OF assms(1)] at c(2) by simp
        then show ?thesis using keep by (force simp: dropped_def simp del: append_take_drop_id)
      qed simp
    qed
    then have "card (?names ?m) \<le> card (insert (nc_state new) (fst ` set (drop (length ?own - 3) ?own)))"
      by (rule card_mono [rotated]) simp
    also have "\<dots> \<le> Suc (card (fst ` set (drop (length ?own - 3) ?own)))" by (rule card_insert_le_m1) simp_all
    also have "card (fst ` set (drop (length ?own - 3) ?own)) \<le> length (drop (length ?own - 3) ?own)"
      by (rule order_trans [OF card_image_le card_length]) simp
    finally show ?thesis by simp
  next
    case False
    have "?names ?m \<subseteq> ?names m"
    proof
      fix s assume "s \<in> ?names ?m"
      then obtain c where c: "map_of ?m s = Some c" "co_user c = u" unfolding names_of(2) [OF d] by blast
      have "s \<noteq> nc_state new" using c False by (auto simp: consent_insert_def Let_def update_conv')
      then show "s \<in> ?names m" using c inserted_at [OF assms(1)] unfolding names_of(2) [OF assms(1)] by blast
    qed
    then have "card (?names ?m) \<le> card (?names m)" by (rule card_mono [rotated]) simp
    then show ?thesis using assms(2) [of u] names_of(1) [OF assms(1), of u] by simp
  qed
  then show ?thesis using names_of(1) [OF d, of u] by simp
qed

lemma fewer_names:
  assumes "distinct (map fst m)" "distinct (map fst m')"
    "\<And>s c. map_of m' s = Some c \<Longrightarrow> \<exists>c0. map_of m s = Some c0 \<and> co_user c0 = co_user c"
  shows "length (consents_of m' u) \<le> length (consents_of m u)"
proof -
  have "fst ` set (consents_of m' u) \<subseteq> fst ` set (consents_of m u)"
    using assms(3) unfolding subset_iff names_of(2) [OF assms(1)] names_of(2) [OF assms(2)] by blast
  then show ?thesis unfolding names_of(1) [OF assms(1)] names_of(1) [OF assms(2)] by (rule card_mono [rotated]) simp
qed

lemma consents_stay_few: "length (consents_of (consent_state ops) u) \<le> 4"
proof (induction ops arbitrary: u rule: rev_induct)
  case Nil
  then show ?case by (simp add: consent_state_def consents_of_def)
next
  case (snoc op ops)
  let ?m = "consent_state ops"
  note d = consent_state_distinct [of ops] and d' = consent_step_distinct [OF consent_state_distinct [of ops], of op]
  show ?case
  proof (cases "\<exists>new now. op = Op_Insert new now")
    case True
    then show ?thesis using insert_bound [OF d snoc.IH] by (auto simp: consent_snoc)
  next
    case False
    have "\<exists>c0. map_of ?m s = Some c0 \<and> co_user c0 = co_user c" if "map_of (snd (consent_step ?m op)) s = Some c" for s c
      using that False by (cases op) (auto simp: consent_claim_def consent_settle_def consent_end_def Let_def update_conv' delete_conv'
        split: option.splits if_splits)
    then show ?thesis using fewer_names [OF d d', of u] snoc.IH [of u] by (simp add: consent_snoc)
  qed
qed

text \<open>C27: a start leaves its user four consents at most, itself among them; it drops no live consent of
  another user, and one of its own only when the user had four live ones, a settled one before an open
  one and the oldest of its kind.\<close>
theorem consents_give_way:
  fixes ops new now
  defines "m \<equiv> consent_state ops" and "m' \<equiv> consent_insert (consent_state ops) new now"
  assumes "map_of m s = Some c" "consent_live c now" "s \<noteq> nc_state new"
  shows "length (consents_of m' u) \<le> 4 \<and> map_of m' (nc_state new) \<noteq> None \<and>
    (map_of m' s = Some c \<or>
     map_of m' s = None \<and> co_user c = nc_user new \<and>
     length (consents_of (filter (\<lambda>(_, c). consent_live c now) m) (nc_user new)) = 4 \<and>
     (\<forall>s' c'. s' \<noteq> nc_state new \<and> map_of m' s' = Some c' \<and> co_user c' = nc_user new \<longrightarrow>
        (consent_open c \<longrightarrow> consent_open c' \<and> co_created c \<le> co_created c') \<and>
        (\<not> consent_open c \<and> \<not> consent_open c' \<longrightarrow> co_created c \<le> co_created c')))"
proof -
  let ?own = "own_order m (nc_user new) now"
  have d: "distinct (map fst m)" unfolding m_def by (rule consent_state_distinct)
  note at = inserted_at [OF d, of _ new now]
  have few: "length (consents_of (consent_state (ops @ [Op_Insert new now])) u) \<le> 4" by (rule consents_stay_few)
  have put: "map_of m' (nc_state new) \<noteq> None" by (simp add: m'_def consent_insert_def Let_def update_conv')
  have "length (consents_of (filter (\<lambda>(_, c). consent_live c now) m) (nc_user new)) \<le> length (consents_of m (nc_user new))"
    by (rule fewer_names [OF d distinct_map_filter [OF d]]) (simp add: map_of_filtered [OF d])
  also have "\<dots> \<le> 4" unfolding m_def by (rule consents_stay_few)
  finally have four: "length ?own \<le> 4" by (simp add: own_order_names(2) [OF d])
  have drop: "co_user c = nc_user new \<and> length ?own = 4 \<and>
      (\<forall>s' c'. s' \<noteq> nc_state new \<and> map_of m' s' = Some c' \<and> co_user c' = nc_user new \<longrightarrow> consent_rank c \<le> consent_rank c')"
    if gone: "s \<in> fst ` set (dropped m (nc_user new) now)"
  proof -
    obtain r where r: "(s, r) \<in> set (take (length ?own - 3) ?own)" using gone unfolding dropped_def by (elim imageE) (metis prod.collapse)
    then have "(s, r) \<in> set ?own" by (rule in_set_takeD)
    then have c: "co_user c = nc_user new" "r = consent_rank c" using own_order_names(3) [OF d] assms(3) by auto
    have len: "length ?own = 4" using r four by (cases "length ?own = 4") simp_all
    have "consent_rank c \<le> consent_rank c'"
      if kept: "s' \<noteq> nc_state new" "map_of m' s' = Some c'" "co_user c' = nc_user new" for s' c'
    proof -
      have "map_of m s' = Some c'" "consent_live c' now" and stay: "s' \<notin> fst ` set (dropped m (nc_user new) now)"
        using iffD1 [OF at [OF kept(1)], of c'] kept(2) unfolding m'_def m_def [symmetric] by blast+
      then have "(s', consent_rank c') \<in> set (take (length ?own - 3) ?own @ drop (length ?own - 3) ?own)"
        using own_order_names(3) [OF d] kept(3) by simp
      then have "(s', consent_rank c') \<in> set (drop (length ?own - 3) ?own)"
        using stay by (force simp: dropped_def simp del: append_take_drop_id)
      moreover have "sorted (map snd (take (length ?own - 3) ?own) @ map snd (drop (length ?own - 3) ?own))"
        using own_order_names(4) [OF d] by (simp flip: map_append)
      ultimately show ?thesis using r c(2) by (force simp: sorted_append)
    qed
    then show ?thesis using c(1) len by blast
  qed
  show ?thesis
  proof (cases "s \<in> fst ` set (dropped m (nc_user new) now)")
    case False
    then have "map_of m' s = Some c" using at [OF assms(5)] assms(3,4) by (simp add: m'_def m_def)
    then show ?thesis using few put by (simp add: consent_snoc m'_def)
  next
    case True
    then have "map_of m' s = None" using at [OF assms(5)] by (cases "map_of m' s") (auto simp: m'_def m_def)
    then show ?thesis using few put drop [OF True]
      by (auto simp: consent_snoc m'_def consent_rank_def less_eq_prod_def own_order_names(2) [OF d])
  qed
qed

subsection \<open>A run for the witnesses\<close>

definition demo_start :: "string \<Rightarrow> new_consent" where
  "demo_start s = \<lparr>nc_state = s, nc_verifier = ''v'' @ s, nc_user = ''mira'', nc_provider = Google,
     nc_account_provider = Provider_Gmail, nc_address = \<lparr>ma_local = ''mira'', ma_domain = ''example.test''\<rparr>, nc_account = None\<rparr>"

definition demo_consent :: consent where
  "demo_consent = \<lparr>co_user = ''mira'', co_provider = Google, co_account_provider = Provider_Gmail,
     co_address = \<lparr>ma_local = ''mira'', ma_domain = ''example.test''\<rparr>, co_account = None, co_verifier = ''vs'',
     co_created = 1000, co_stage = Stage_Waiting\<rparr>"

lemma demo_state: "consent_state [Op_Insert (demo_start ''s'') 1000] = [(''s'', demo_consent)]"
  by (simp add: consent_state_def consent_insert_def demo_start_def demo_consent_def Let_def)

lemma consents_are_handed_once_witness:
  "\<exists>pre new t post. consent_trace [Op_Insert (demo_start ''s'') 1000] = pre @ (Op_Insert new t, Filed) # post \<and>
     nc_state new = ''s'' \<and> nc_user new = ''mira'' \<and> nc_verifier new = ''vs'' \<and> sat64 (2000 - t) < CONSENT_TTL_MS"
proof -
  have "consent_claim (consent_state [Op_Insert (demo_start ''s'') 1000]) \<lparr>cl_user = ''mira'', cl_provider = Google\<rparr> ''s'' 2000 =
    (Some \<lparr>cd_provider = Google, cd_account_provider = Provider_Gmail, cd_address = co_address demo_consent, cd_account = None, cd_verifier = ''vs''\<rparr>,
     [(''s'', demo_consent\<lparr>co_stage := Stage_Exchanging, co_verifier := []\<rparr>)])"
    unfolding demo_state
    by (simp add: consent_claim_def demo_consent_def consent_live_def sat64_def CONSENT_TTL_MS_def MS_PER_MINUTE_def)
  from consents_are_handed_once [OF this] show ?thesis
    by (elim exE conjE) (rule exI, rule exI, rule exI, rule exI, auto)
qed

lemma consents_give_way_witness:
  "length (consents_of (consent_insert (consent_state [Op_Insert (demo_start ''s'') 1000]) (demo_start ''u'') 2000) ''mira'') \<le> 4 \<and>
   map_of (consent_insert (consent_state [Op_Insert (demo_start ''s'') 1000]) (demo_start ''u'') 2000) ''u'' \<noteq> None"
proof -
  have "map_of (consent_state [Op_Insert (demo_start ''s'') 1000]) ''s'' = Some demo_consent" by (simp add: demo_state)
  moreover have "consent_live demo_consent 2000"
    by (simp add: demo_consent_def consent_live_def sat64_def CONSENT_TTL_MS_def MS_PER_MINUTE_def)
  moreover have "''s'' \<noteq> nc_state (demo_start ''u'')" "nc_state (demo_start ''u'') = ''u''" by (simp_all add: demo_start_def)
  ultimately show ?thesis using consents_give_way [of "[Op_Insert (demo_start ''s'') 1000]" "''s''" demo_consent 2000 "demo_start ''u''" "''mira''"]
    by simp
qed

end
