(* ===== verification/Sync_Walk.thy ===== *)
theory Sync_Walk
  imports Mailbox_Rights Keyword_Flags
begin

text \<open>
  How the sync walks the UIDs of one folder (\<open>sync/mod.rs\<close>, \<open>sync/walk.rs\<close>) and what the store
  records of it (\<open>store/progress.rs\<close>, the writes of \<open>store/emails.rs\<close> and \<open>store/refresh.rs\<close> on the
  rows of a folder account). A vector is a list in the same order, its end the last element. The
  server is what one call of it answers.
\<close>

subsection \<open>What the store holds of a folder\<close>

record synced =
  sy_uid_next :: "nat option"
  sy_modseq :: "nat option"
  sy_messages :: "nat option"

definition synced_default :: synced where
  "synced_default = \<lparr>sy_uid_next = None, sy_modseq = None, sy_messages = None\<rparr>"

text \<open>A row of \<open>bridge_sync\<close>.\<close>

record sync_row =
  sr_lowest :: "nat option"
  sr_done :: bool
  sr_uid_next :: "nat option"
  sr_modseq :: "nat option"
  sr_messages :: "nat option"

record progress =
  pg_lowest :: "nat option"
  pg_done :: bool
  pg_synced :: synced

datatype walk_advance = Adv_Down "nat option" bool synced | Adv_Up nat nat | Adv_Beside

record email_row =
  er_uid :: nat
  er_keywords :: "(string, bool) bt"

text \<open>The folder's row and what stands under it: no row, a row without a UIDVALIDITY, or one.\<close>

record folder_store =
  st_validity :: "nat option option"
  st_row :: "sync_row option"
  st_mail :: "email_row list"

definition sync_progress :: "folder_store \<Rightarrow> progress" where
  "sync_progress st =
     (case st_row st of
        None \<Rightarrow> \<lparr>pg_lowest = None, pg_done = False, pg_synced = synced_default\<rparr>
      | Some r \<Rightarrow> \<lparr>pg_lowest = sr_lowest r, pg_done = sr_done r,
                  pg_synced = (if sr_done r then \<lparr>sy_uid_next = sr_uid_next r, sy_modseq = sr_modseq r, sy_messages = sr_messages r\<rparr>
                               else synced_default)\<rparr>)"

definition coalesce :: "'a option \<Rightarrow> 'a option \<Rightarrow> 'a option" where
  "coalesce a b = (case a of Some _ \<Rightarrow> a | None \<Rightarrow> b)"

definition save_progress :: "sync_row option \<Rightarrow> walk_advance \<Rightarrow> sync_row option \<times> bool" where
  "save_progress row adv =
     (case adv of
        Adv_Down lowest fin s \<Rightarrow>
          (Some (case row of
             None \<Rightarrow> \<lparr>sr_lowest = lowest, sr_done = fin, sr_uid_next = sy_uid_next s, sr_modseq = sy_modseq s, sr_messages = sy_messages s\<rparr>
           | Some r \<Rightarrow> \<lparr>sr_lowest = coalesce lowest (sr_lowest r), sr_done = fin,
               sr_uid_next = (if sr_messages r = None then sy_uid_next s else sr_uid_next r),
               sr_modseq = (if sr_messages r = None then sy_modseq s else sr_modseq r),
               sr_messages = coalesce (sr_messages r) (sy_messages s)\<rparr>),
           fin \<and> map_option sr_done row \<noteq> Some True)
      | Adv_Up next arrived \<Rightarrow>
          (map_option (\<lambda>r. r\<lparr>sr_uid_next := Some (max (case sr_uid_next r of None \<Rightarrow> 0 | Some n \<Rightarrow> n) next),
             sr_messages := map_option (\<lambda>n. n + arrived) (sr_messages r)\<rparr>) row, False)
      | Adv_Beside \<Rightarrow> (row, False))"

definition pinned :: "folder_store \<Rightarrow> nat \<Rightarrow> bool \<times> folder_store" where
  "pinned st validity =
     (case st_validity st of
        None \<Rightarrow> (False, st)
      | Some None \<Rightarrow> (True, st\<lparr>st_validity := Some (Some validity)\<rparr>)
      | Some (Some v) \<Rightarrow> (v = validity, st))"

definition stored_uids :: "folder_store \<Rightarrow> nat list" where
  "stored_uids st = sort (map er_uid (st_mail st))"

text \<open>One fetched message: the UID, its flags and the mod-sequence of its last change.\<close>

record message =
  ms_uid :: nat
  ms_flags :: "string list"
  ms_modseq :: nat

definition message_email :: "message \<Rightarrow> email_row option" where
  "message_email m =
     (if is_deleted (ms_flags m) then None
      else Some \<lparr>er_uid = ms_uid m, er_keywords = labeled_keywords (ms_flags m) None\<rparr>)"

definition write_email :: "email_row list \<Rightarrow> email_row \<Rightarrow> email_row list" where
  "write_email rows e = (if er_uid e \<in> er_uid ` set rows then rows else rows @ [e])"

definition apply_batch :: "folder_store \<Rightarrow> nat \<Rightarrow> email_row list \<Rightarrow> walk_advance \<Rightarrow> bool \<times> folder_store" where
  "apply_batch st validity emails adv =
     (let (stands, st) = pinned st validity
      in if \<not> stands then (False, st)
         else (True, st\<lparr>st_mail := foldl write_email (st_mail st) emails, st_row := fst (save_progress (st_row st) adv)\<rparr>))"

definition store_advance :: "folder_store \<Rightarrow> nat \<Rightarrow> synced \<Rightarrow> folder_store" where
  "store_advance st validity s =
     (let (stands, st) = pinned st validity
      in if \<not> stands then st
         else st\<lparr>st_row := map_option (\<lambda>r. r\<lparr>sr_uid_next := coalesce (sy_uid_next s) (sr_uid_next r),
                   sr_modseq := coalesce (sy_modseq s) (sr_modseq r), sr_messages := coalesce (sy_messages s) (sr_messages r)\<rparr>) (st_row st)\<rparr>)"

definition remove_uids :: "folder_store \<Rightarrow> nat \<Rightarrow> nat list \<Rightarrow> folder_store" where
  "remove_uids st validity uids =
     (let (stands, st) = pinned st validity
      in if \<not> stands then st
         else st\<lparr>st_mail := foldl (\<lambda>rows u. filter (\<lambda>e. er_uid e \<noteq> u) rows) (st_mail st) uids\<rparr>)"

definition apply_flags :: "folder_store \<Rightarrow> nat \<Rightarrow> (nat \<times> (string, bool) bt) list \<Rightarrow> folder_store" where
  "apply_flags st validity changes =
     (let (stands, st) = pinned st validity
      in if \<not> stands then st
         else st\<lparr>st_mail := foldl (\<lambda>rows (u, ks). map (\<lambda>e. if er_uid e = u \<and> er_keywords e \<noteq> ks then e\<lparr>er_keywords := ks\<rparr> else e) rows)
                   (st_mail st) changes\<rparr>)"

subsection \<open>The walk\<close>

definition SYNC_BATCH :: nat where "SYNC_BATCH = 500"
definition NARROWING_BUDGET :: nat where "NARROWING_BUDGET = 64"
definition REFRESH_GAP :: nat where "REFRESH_GAP = 10000"

datatype folder_walk = Down synced | Up | Beside

definition downward :: "folder_walk \<Rightarrow> bool" where
  "downward w = (case w of Down _ \<Rightarrow> True | Up \<Rightarrow> False | Beside \<Rightarrow> False)"

record slice =
  sl_uids :: "nat list"
  sl_structure :: bool

definition slice_range :: "slice \<Rightarrow> (nat \<times> nat) option" where
  "slice_range s = (case sl_uids s of [] \<Rightarrow> None | u # us \<Rightarrow> Some (u, last (u # us)))"

record folder_sync =
  fs_folder :: mailbox_id
  fs_imap_name :: string
  fs_validity :: nat
  fs_walk :: folder_walk
  fs_gmail :: bool
  fs_remaining :: "nat list"
  fs_narrowed :: "slice list"
  fs_pending :: "slice option"
  fs_budget :: nat
  fs_top :: nat
  fs_answered :: nat

datatype walk_step = More | Done | Stale

text \<open>The folder as EXAMINE shows it, and what a fetch comes back with: an answer, an answer that
  breaks a bound or a rule, a lost session, or a turn cut short before the answer.\<close>

record selected =
  se_validity :: nat
  se_modseq :: "nat option"
  se_uid_next :: "nat option"
  se_messages :: nat

datatype fetched = Answered "message list" | Broken | Lost | Cut_Short

type_synonym fetch = "nat \<times> nat \<Rightarrow> bool \<Rightarrow> fetched"

definition sync_of :: "mailbox_row \<Rightarrow> folder_walk \<Rightarrow> folder_sync option" where
  "sync_of row w =
     (let f = facts row
      in case uid_validity f of
           None \<Rightarrow> None
         | Some v \<Rightarrow>
             if selectable f \<and> store f
             then Some \<lparr>fs_folder = row_id row, fs_imap_name = imap_name f, fs_validity = v, fs_walk = w, fs_gmail = False,
                        fs_remaining = [], fs_narrowed = [], fs_pending = None, fs_budget = NARROWING_BUDGET, fs_top = 0, fs_answered = 0\<rparr>
             else None)"

text \<open>\<open>confirmed\<close> says whether the Gmail items are asked for; a refused EXAMINE selects nothing.\<close>

definition sync_open :: "folder_store \<Rightarrow> mailbox_row \<Rightarrow> bool \<Rightarrow> selected option \<Rightarrow> nat list \<Rightarrow> folder_sync option" where
  "sync_open st row confirmed examined listed =
     (case sync_of row (Down synced_default) of
        None \<Rightarrow> None
      | Some f \<Rightarrow>
          let p = sync_progress st
          in if pg_done p then None
             else let f = f\<lparr>fs_gmail := confirmed\<rparr>
                  in case examined of
                       None \<Rightarrow> None
                     | Some se \<Rightarrow>
                         if se_validity se \<noteq> fs_validity f then None
                         else let uids = (case pg_lowest p of Some lowest \<Rightarrow> filter (\<lambda>u. u < lowest) listed | None \<Rightarrow> listed)
                              in Some (f\<lparr>fs_walk := Down \<lparr>sy_uid_next = se_uid_next se, sy_modseq = se_modseq se, sy_messages = Some (se_messages se)\<rparr>,
                                         fs_remaining := rev uids\<rparr>))"

definition sync_above :: "mailbox_row \<Rightarrow> nat \<times> nat \<Rightarrow> bool \<Rightarrow> nat list \<Rightarrow> folder_sync option" where
  "sync_above row span gm listed =
     (let (first, through) = span; first = max first 1
      in case sync_of row Up of
           None \<Rightarrow> None
         | Some f \<Rightarrow>
             if first \<le> through
             then Some (f\<lparr>fs_gmail := gm, fs_top := through,
                          fs_remaining := (if through - first < REFRESH_GAP then rev [first..<Suc through]
                                           else filter (\<lambda>u. first \<le> u \<and> u \<le> through) listed)\<rparr>)
             else None)"

definition beside_walk :: "folder_sync \<Rightarrow> folder_sync" where
  "beside_walk f = f\<lparr>fs_walk := Beside\<rparr>"

definition extend_to :: "folder_sync \<Rightarrow> nat \<Rightarrow> bool \<times> folder_sync" where
  "extend_to f through =
     (if fs_walk f \<noteq> Up \<or> through \<le> fs_top f then (True, f)
      else if through - fs_top f \<ge> REFRESH_GAP then (False, f)
      else (True, f\<lparr>fs_remaining := rev [Suc (fs_top f)..<Suc through] @ fs_remaining f, fs_top := through\<rparr>))"

definition sync_resume :: "folder_sync \<Rightarrow> selected option \<Rightarrow> bool" where
  "sync_resume f examined = (case examined of None \<Rightarrow> False | Some se \<Rightarrow> se_validity se = fs_validity f)"

definition next_slice :: "folder_sync \<Rightarrow> slice option \<times> folder_sync" where
  "next_slice f =
     (if fs_narrowed f \<noteq> [] then (Some (last (fs_narrowed f)), f\<lparr>fs_narrowed := butlast (fs_narrowed f)\<rparr>)
      else if fs_remaining f = [] then (None, f)
      else let at = length (fs_remaining f) - SYNC_BATCH; uids = drop at (fs_remaining f)
           in (Some \<lparr>sl_uids = (if downward (fs_walk f) then uids else rev uids), sl_structure = True\<rparr>,
               f\<lparr>fs_remaining := take at (fs_remaining f)\<rparr>))"

definition narrow :: "folder_sync \<Rightarrow> slice \<Rightarrow> nat option \<times> folder_sync" where
  "narrow f s =
     (if fs_budget f = 0 then (None, f\<lparr>fs_narrowed := fs_narrowed f @ [s]\<rparr>)
      else let f = f\<lparr>fs_budget := fs_budget f - 1\<rparr>
           in if length (sl_uids s) > 1
              then let half = length (sl_uids s) div 2;
                       upper = \<lparr>sl_uids = drop half (sl_uids s), sl_structure = sl_structure s\<rparr>;
                       lower = s\<lparr>sl_uids := take half (sl_uids s)\<rparr>;
                       (first, second) = (if downward (fs_walk f) then (upper, lower) else (lower, upper))
                   in (None, f\<lparr>fs_narrowed := fs_narrowed f @ [second, first]\<rparr>)
              else if sl_structure s
              then (None, f\<lparr>fs_narrowed := fs_narrowed f @ [s\<lparr>sl_structure := False\<rparr>]\<rparr>)
              else (case sl_uids s of [] \<Rightarrow> None | u # _ \<Rightarrow> Some u, f))"

definition walk_write :: "folder_sync \<Rightarrow> folder_store \<Rightarrow> message list \<Rightarrow> (nat \<times> nat) option \<Rightarrow> walk_step \<times> folder_store" where
  "walk_write f st messages passed =
     (let fin = (fs_narrowed f = [] \<and> fs_remaining f = []);
          write = (\<lambda>adv. let (stands, st) = apply_batch st (fs_validity f) (List.map_filter message_email messages) adv
                        in (if \<not> stands then Stale else if fin then Done else More, st))
      in case (fs_walk f, passed) of
           (Down s, _) \<Rightarrow> write (Adv_Down (map_option fst passed) fin s)
         | (Up, Some span) \<Rightarrow> write (Adv_Up (min (snd span + 1) u32_max) (min (length messages) u32_max))
         | (Beside, Some span) \<Rightarrow> write Adv_Beside
         | (_, None) \<Rightarrow> (Done, st))"

datatype turn = Stepped walk_step | Session_Failed | Turn_Cut

definition walk_batch :: "folder_sync \<Rightarrow> folder_store \<Rightarrow> fetch \<Rightarrow> turn \<times> folder_sync \<times> folder_store" where
  "walk_batch f st fetch =
     (let (s, f) = (case fs_pending f of Some s \<Rightarrow> (Some s, f\<lparr>fs_pending := None\<rparr>) | None \<Rightarrow> next_slice f)
      in case s of
           None \<Rightarrow> let (step, st) = walk_write f st [] None in (Stepped step, f, st)
         | Some s \<Rightarrow>
             (case slice_range s of
                None \<Rightarrow> (Stepped More, f, st)
              | Some span \<Rightarrow>
                  (case fetch span (sl_structure s) of
                     Cut_Short \<Rightarrow> (Turn_Cut, f\<lparr>fs_pending := Some s\<rparr>, st)
                   | Answered messages \<Rightarrow>
                       let f = f\<lparr>fs_answered := min (fs_answered f + min (length messages) u32_max) u32_max\<rparr>;
                           (step, st) = walk_write f st messages (Some span)
                       in (Stepped step, f, st)
                   | Broken \<Rightarrow>
                       let (left_out, f) = narrow f s
                       in (Session_Failed, f, case left_out of None \<Rightarrow> st | Some u \<Rightarrow> snd (walk_write f st [] (Some (u, u))))
                   | Lost \<Rightarrow> (Session_Failed, f\<lparr>fs_narrowed := fs_narrowed f @ [s]\<rparr>, st))))"

text \<open>\<open>finish\<close>: batches until a step that is not \<open>More\<close> or a failure; one fetch function per batch.
  Running out of them is the fuel running out.\<close>

fun walk_finish :: "folder_sync \<Rightarrow> folder_store \<Rightarrow> fetch list \<Rightarrow> turn \<times> folder_sync \<times> folder_store" where
  "walk_finish f st [] = (Turn_Cut, f, st)"
| "walk_finish f st (fetch # fetches) =
     (case walk_batch f st fetch of
        (Stepped More, f, st) \<Rightarrow> walk_finish f st fetches
      | r \<Rightarrow> r)"

text \<open>\<open>attempt\<close> of \<open>runtime/worker.rs\<close>: the folder opened or selected again, then one batch.\<close>

definition attempt :: "folder_store \<Rightarrow> mailbox_row \<Rightarrow> bool \<Rightarrow> selected option \<Rightarrow> nat list \<Rightarrow> fetch \<Rightarrow> folder_sync option \<Rightarrow>
    turn \<times> folder_sync option \<times> folder_store" where
  "attempt st row confirmed examined listed fetch sync =
     (case (case sync of None \<Rightarrow> sync_open st row confirmed examined listed
                       | Some f \<Rightarrow> if sync_resume f examined then Some f else None) of
        None \<Rightarrow> (Stepped Stale, sync, st)
      | Some f \<Rightarrow> (case walk_batch f st fetch of (t, f, st) \<Rightarrow> (t, Some f, st)))"

subsection \<open>What waits\<close>

text \<open>The slices put back and the one whose fetch is out, the next last; the UIDs no answer covers yet,
  lowest first.\<close>

definition stack :: "folder_sync \<Rightarrow> slice list" where
  "stack f = fs_narrowed f @ (case fs_pending f of None \<Rightarrow> [] | Some s \<Rightarrow> [s])"

definition unasked :: "folder_sync \<Rightarrow> nat list" where
  "unasked f =
     (if downward (fs_walk f) then fs_remaining f @ concat (map sl_uids (stack f))
      else concat (map sl_uids (rev (stack f))) @ rev (fs_remaining f))"

definition walk_ok :: "folder_sync \<Rightarrow> bool" where
  "walk_ok f \<longleftrightarrow> list_all (\<lambda>s. sl_uids s \<noteq> []) (stack f)"

definition ahead :: "folder_sync \<Rightarrow> nat list \<Rightarrow> nat list \<Rightarrow> nat list" where
  "ahead f uids rest = (if downward (fs_walk f) then rest @ uids else uids @ rest)"

definition same_walk :: "folder_sync \<Rightarrow> folder_sync \<Rightarrow> bool" where
  "same_walk f f' \<longleftrightarrow> fs_walk f' = fs_walk f \<and> fs_validity f' = fs_validity f \<and> fs_top f' = fs_top f \<and> fs_folder f' = fs_folder f \<and>
     fs_imap_name f' = fs_imap_name f"

definition slice_weight :: "slice \<Rightarrow> nat" where
  "slice_weight s = 3 * length (sl_uids s) - 2 + (if sl_structure s then 1 else 0)"

definition walk_weight :: "folder_sync \<Rightarrow> nat" where
  "walk_weight f = 3 * length (fs_remaining f) + sum_list (map slice_weight (stack f))"

definition taken :: "folder_sync \<Rightarrow> slice option \<times> folder_sync" where
  "taken f = (case fs_pending f of Some s \<Rightarrow> (Some s, f\<lparr>fs_pending := None\<rparr>) | None \<Rightarrow> next_slice f)"

lemma ahead_same: "same_walk f f' \<Longrightarrow> ahead f' = ahead f"
  by (intro ext) (simp add: same_walk_def ahead_def)

lemma taken_none:
  assumes "taken f = (None, f')"
  shows "f' = f" "unasked f = []" "fs_pending f = None" "fs_narrowed f = []" "fs_remaining f = []"
  using assms by (auto simp: taken_def next_slice_def Let_def unasked_def stack_def split: option.splits if_splits)

lemma taken_some:
  assumes "walk_ok f" "taken f = (Some s, f')"
  shows "sl_uids s \<noteq> [] \<and> walk_ok f' \<and> fs_pending f' = None \<and> same_walk f f' \<and> fs_budget f' = fs_budget f \<and>
    unasked f = ahead f (sl_uids s) (unasked f') \<and> walk_weight f' + slice_weight s \<le> walk_weight f"
proof (cases "fs_pending f")
  case (Some p)
  then show ?thesis using assms
    by (auto simp: taken_def walk_ok_def stack_def same_walk_def unasked_def ahead_def walk_weight_def)
next
  case None
  show ?thesis
  proof (cases "fs_narrowed f = []")
    case False
    then have f: "fs_narrowed f = butlast (fs_narrowed f) @ [s]" and f': "f' = f\<lparr>fs_narrowed := butlast (fs_narrowed f)\<rparr>"
      using assms(2) None by (auto simp: taken_def next_slice_def)
    have "stack f = butlast (fs_narrowed f) @ [s]" "stack f' = butlast (fs_narrowed f)"
      using f f' None by (simp_all add: stack_def)
    then show ?thesis using assms(1) None by (auto simp: f' walk_ok_def same_walk_def unasked_def ahead_def walk_weight_def)
  next
    case True
    let ?at = "length (fs_remaining f) - SYNC_BATCH"
    have ne: "fs_remaining f \<noteq> []"
      and s: "s = \<lparr>sl_uids = (if downward (fs_walk f) then drop ?at (fs_remaining f) else rev (drop ?at (fs_remaining f))), sl_structure = True\<rparr>"
      and f': "f' = f\<lparr>fs_remaining := take ?at (fs_remaining f)\<rparr>"
      using assms(2) None True by (auto simp: taken_def next_slice_def Let_def split: if_splits)
    have len: "length (drop ?at (fs_remaining f)) > 0" using ne by (simp add: SYNC_BATCH_def)
    have st: "stack f = []" "stack f' = []" using None True by (simp_all add: stack_def f')
    have "rev (fs_remaining f) = rev (drop ?at (fs_remaining f)) @ rev (take ?at (fs_remaining f))"
      by (metis append_take_drop_id rev_append)
    moreover have "3 * length (take ?at (fs_remaining f)) + (3 * length (drop ?at (fs_remaining f)) - 2 + 1) \<le> 3 * length (fs_remaining f)"
      using len by simp
    ultimately show ?thesis
      using ne len st None by (auto simp: s f' walk_ok_def same_walk_def unasked_def ahead_def walk_weight_def slice_weight_def)
  qed
qed

lemma narrow_spec:
  assumes "walk_ok f" "fs_pending f = None" "sl_uids s \<noteq> []" "narrow f s = (left, f')"
  shows "walk_ok f' \<and> fs_pending f' = None \<and> same_walk f f' \<and> fs_budget f' = fs_budget f - 1 \<and>
    (case left of None \<Rightarrow> unasked f' = ahead f (sl_uids s) (unasked f) | Some u \<Rightarrow> sl_uids s = [u] \<and> \<not> sl_structure s \<and> unasked f' = unasked f) \<and>
    walk_weight f' \<le> walk_weight f + slice_weight s \<and> (0 < fs_budget f \<longrightarrow> walk_weight f' < walk_weight f + slice_weight s)"
proof (cases "fs_budget f = 0")
  case True
  then show ?thesis using assms by (auto simp: narrow_def walk_ok_def stack_def same_walk_def unasked_def ahead_def walk_weight_def)
next
  case False
  show ?thesis
  proof (cases "length (sl_uids s) > 1")
    case True
    define a b where "a = take (length (sl_uids s) div 2) (sl_uids s)" and "b = drop (length (sl_uids s) div 2) (sl_uids s)"
    let ?a = "\<lparr>sl_uids = a, sl_structure = sl_structure s\<rparr>" and ?b = "\<lparr>sl_uids = b, sl_structure = sl_structure s\<rparr>"
    let ?two = "if downward (fs_walk f) then [?a, ?b] else [?b, ?a]"
    have ab: "sl_uids s = a @ b" "a \<noteq> []" "b \<noteq> []" using True by (auto simp: a_def b_def)
    have lower: "s\<lparr>sl_uids := take (length (sl_uids s) div 2) (sl_uids s)\<rparr> = ?a" by (simp add: a_def)
    have r: "left = None" "f' = f\<lparr>fs_budget := fs_budget f - 1, fs_narrowed := fs_narrowed f @ ?two\<rparr>"
      using assms(4) True \<open>fs_budget f \<noteq> 0\<close> unfolding narrow_def Let_def lower b_def [symmetric] by (auto split: if_splits)
    have st: "stack f' = stack f @ ?two" "stack f = fs_narrowed f" using assms(2) by (simp_all add: stack_def r(2))
    have fld: "fs_walk f' = fs_walk f" "fs_remaining f' = fs_remaining f" by (simp_all add: r(2))
    have small: "slice_weight ?a + slice_weight ?b < slice_weight s"
      using ab(2,3) unfolding slice_weight_def ab(1) by (cases a; cases b) simp_all
    have "walk_ok f'" using assms(1) ab(2,3) unfolding walk_ok_def st(1) by simp
    moreover have "unasked f' = ahead f (sl_uids s) (unasked f)"
      by (simp add: unasked_def st(1) ahead_def ab(1) fld)
    moreover have "walk_weight f' < walk_weight f + slice_weight s"
      using small unfolding walk_weight_def st(1) by (simp add: fld)
    ultimately show ?thesis by (simp add: r assms(2) same_walk_def)
  next
    case short: False
    then obtain u where u: "sl_uids s = [u]" using assms(3) by (cases "sl_uids s") auto
    then show ?thesis using assms False short
      by (cases "sl_structure s") (auto simp: narrow_def Let_def walk_ok_def stack_def same_walk_def unasked_def ahead_def walk_weight_def slice_weight_def)
  qed
qed

lemma write_steps:
  assumes "walk_ok f" "fs_pending f = None" "walk_write f st ms passed = (step, st')"
  shows "unasked f = [] \<Longrightarrow> step \<noteq> More" "passed \<noteq> None \<Longrightarrow> step = Done \<Longrightarrow> unasked f = []"
proof -
  have fin: "fs_narrowed f = [] \<and> fs_remaining f = [] \<longleftrightarrow> unasked f = []"
    using assms(1,2) by (cases "fs_narrowed f") (auto simp: unasked_def stack_def walk_ok_def)
  show "unasked f = [] \<Longrightarrow> step \<noteq> More" "passed \<noteq> None \<Longrightarrow> step = Done \<Longrightarrow> unasked f = []"
    using assms(3) unfolding walk_write_def fin by (auto simp: Let_def split: folder_walk.splits option.splits prod.splits if_splits)
qed

lemma walk_batch_taken:
  "walk_batch f st fetch =
     (let (s, f) = taken f
      in case s of
           None \<Rightarrow> let (step, st) = walk_write f st [] None in (Stepped step, f, st)
         | Some s \<Rightarrow>
             (case slice_range s of
                None \<Rightarrow> (Stepped More, f, st)
              | Some span \<Rightarrow>
                  (case fetch span (sl_structure s) of
                     Cut_Short \<Rightarrow> (Turn_Cut, f\<lparr>fs_pending := Some s\<rparr>, st)
                   | Answered messages \<Rightarrow>
                       let f = f\<lparr>fs_answered := min (fs_answered f + min (length messages) u32_max) u32_max\<rparr>;
                           (step, st) = walk_write f st messages (Some span)
                       in (Stepped step, f, st)
                   | Broken \<Rightarrow>
                       let (left_out, f) = narrow f s
                       in (Session_Failed, f, case left_out of None \<Rightarrow> st | Some u \<Rightarrow> snd (walk_write f st [] (Some (u, u))))
                   | Lost \<Rightarrow> (Session_Failed, f\<lparr>fs_narrowed := fs_narrowed f @ [s]\<rparr>, st))))"
  by (simp only: walk_batch_def taken_def)

text \<open>What one batch does: nothing waits; the next UIDs are answered and leave what waits; a lone one is
  left out; or the failure changes nothing but how the UIDs are cut into slices.\<close>

lemma batch_cases:
  assumes ok: "walk_ok f" and b: "walk_batch f st fetch = (t, f', st')"
  obtains
    (Idle) step where "unasked f = []" "f' = f" "fs_pending f = None" "t = Stepped step" "walk_write f st [] None = (step, st')"
  | (Answer) uids full ms step where "uids \<noteq> []" "unasked f = ahead f uids (unasked f')"
      "fetch (hd uids, last uids) full = Answered ms" "t = Stepped step" "walk_write f' st ms (Some (hd uids, last uids)) = (step, st')"
      "walk_ok f'" "fs_pending f' = None" "same_walk f f'" "fs_budget f' = fs_budget f" "walk_weight f' < walk_weight f"
  | (Skip) u where "unasked f = ahead f [u] (unasked f')" "fetch (u, u) False = Broken" "t = Session_Failed"
      "st' = snd (walk_write f' st [] (Some (u, u)))"
      "walk_ok f'" "fs_pending f' = None" "same_walk f f'" "fs_budget f' = fs_budget f - 1" "walk_weight f' < walk_weight f"
  | (Stay) uids full where "fetch (hd uids, last uids) full \<in> {Broken, Lost, Cut_Short}" "unasked f' = unasked f" "st' = st"
      "t \<in> {Session_Failed, Turn_Cut}" "walk_ok f'" "same_walk f f'" "walk_weight f' \<le> walk_weight f"
      "fetch (hd uids, last uids) full = Broken \<Longrightarrow> fs_budget f' = fs_budget f - 1 \<and> (0 < fs_budget f \<longrightarrow> walk_weight f' < walk_weight f)"
proof -
  obtain s f1 where tk: "taken f = (s, f1)" by (cases "taken f")
  show thesis
  proof (cases s)
    case None
    note t = taken_none [OF tk [unfolded None]]
    obtain step st2 where w: "walk_write f st [] None = (step, st2)" by (cases "walk_write f st [] None")
    have "t = Stepped step \<and> f' = f \<and> st' = st2" using b by (simp add: walk_batch_taken tk None t(1) w)
    then show thesis using Idle t(2,3) w by blast
  next
    case (Some sl)
    note t = taken_some [OF ok tk [unfolded Some]]
    define uids where "uids = sl_uids sl"
    have ne: "uids \<noteq> []" and span: "slice_range sl = Some (hd uids, last uids)"
      using t by (auto simp: uids_def slice_range_def split: list.split)
    have low: "slice_weight sl > 0" using ne by (cases uids) (auto simp: slice_weight_def uids_def)
    let ?ans = "fetch (hd uids, last uids) (sl_structure sl)"
    note b = b [unfolded walk_batch_taken tk Some, simplified, unfolded span, simplified]
    show thesis
    proof (cases ?ans)
      case (Answered ms)
      define f2 where "f2 = f1\<lparr>fs_answered := min (fs_answered f1 + min (length ms) u32_max) u32_max\<rparr>"
      obtain step st2 where w: "walk_write f2 st ms (Some (hd uids, last uids)) = (step, st2)" by fastforce
      have r: "t = Stepped step" "f' = f2" "st' = st2" using b w unfolding Answered by (simp_all add: Let_def flip: f2_def)
      have "unasked f2 = unasked f1" "walk_ok f2 = walk_ok f1" "fs_pending f2 = fs_pending f1" "same_walk f f2 = same_walk f f1"
        "fs_budget f2 = fs_budget f1" "walk_weight f2 = walk_weight f1"
        by (simp_all add: f2_def unasked_def walk_ok_def stack_def same_walk_def walk_weight_def)
      then show thesis using Answer [OF ne _ Answered r(1)] w r t low by (simp add: uids_def)
    next
      case Broken
      obtain left f2 where nw: "narrow f1 sl = (left, f2)" by (cases "narrow f1 sl")
      have pre: "walk_ok f1" "fs_pending f1 = None" "sl_uids sl \<noteq> []" using t by blast+
      note n = narrow_spec [OF pre nw, folded uids_def]
      have walks: "same_walk f f1" "same_walk f1 f2" using t n by blast+
      have same: "same_walk f f2" "ahead f1 = ahead f"
        using walks(1,2) unfolding same_walk_def by simp (rule ahead_same [OF walks(1)])
      have r: "t = Session_Failed" "f' = f2" "st' = (case left of None \<Rightarrow> st | Some u \<Rightarrow> snd (walk_write f2 st [] (Some (u, u))))"
        using b unfolding Broken by (simp_all add: nw)
      show thesis
      proof (cases left)
        case None
        show thesis
          by (rule Stay [of uids "sl_structure sl"]) (use n t r same None Broken in \<open>auto simp: uids_def\<close>)
      next
        case (Some u)
        then have u: "uids = [u]" "\<not> sl_structure sl" "unasked f2 = unasked f1" using n by simp_all
        have "fs_budget f1 \<noteq> 0"
        proof
          assume "fs_budget f1 = 0"
          then show False using nw Some by (simp add: narrow_def)
        qed
        then show thesis
          by (intro Skip [of u]) (use n t r same Some Broken u in \<open>auto simp: uids_def\<close>)
      qed
    next
      case Lost
      have r: "t = Session_Failed" "f' = f1\<lparr>fs_narrowed := fs_narrowed f1 @ [sl]\<rparr>" "st' = st" using b unfolding Lost by simp_all
      show thesis
        by (rule Stay [of uids "sl_structure sl"])
          (use t r Lost ne in \<open>auto simp: uids_def walk_ok_def stack_def same_walk_def unasked_def ahead_def walk_weight_def [of f1] walk_weight_def [of "fs_narrowed_update _ f1"]\<close>)
    next
      case Cut_Short
      have r: "t = Turn_Cut" "f' = f1\<lparr>fs_pending := Some sl\<rparr>" "st' = st" using b unfolding Cut_Short by simp_all
      show thesis
        by (rule Stay [of uids "sl_structure sl"])
          (use t r Cut_Short ne in \<open>auto simp: uids_def walk_ok_def stack_def same_walk_def unasked_def ahead_def walk_weight_def [of f1] walk_weight_def [of "fs_pending_update _ f1"]\<close>)
    qed
  qed
qed

subsection \<open>The worker\<close>

definition FOLDER_FAILURE_BOUND :: nat where "FOLDER_FAILURE_BOUND = NARROWING_BUDGET + 16"

text \<open>What one turn of the loop in \<open>folder\<close> meets: the host holds the account back, no session, a
  session that fails on EXAMINE or the UID list, or answers to them and to the fetch.\<close>

datatype wire = Held_Back | No_Session | Select_Failed | Answers "selected option" "nat list" fetch

datatype worker_outcome = Folder_Done | Folder_Held | Folder_Given_Up

definition wire_turn :: "folder_store \<Rightarrow> mailbox_row \<Rightarrow> bool \<Rightarrow> wire \<Rightarrow> folder_sync option \<Rightarrow> turn \<times> folder_sync option \<times> folder_store" where
  "wire_turn st row confirmed w sync =
     (case w of Answers examined listed fetch \<Rightarrow> attempt st row confirmed examined listed fetch sync | _ \<Rightarrow> (Session_Failed, sync, st))"

fun worker_folder :: "mailbox_row \<Rightarrow> bool \<Rightarrow> nat \<Rightarrow> folder_sync option \<Rightarrow> folder_store \<Rightarrow> wire list \<Rightarrow>
    worker_outcome option \<times> folder_sync option \<times> folder_store" where
  "worker_folder row confirmed failures sync st [] = (None, sync, st)"
| "worker_folder row confirmed failures sync st (w # ws) =
     (if w = Held_Back then (Some Folder_Held, sync, st)
      else case wire_turn st row confirmed w sync of
        (Stepped More, sync, st) \<Rightarrow> worker_folder row confirmed failures sync st ws
      | (Stepped _, sync, st) \<Rightarrow> (Some Folder_Done, sync, st)
      | (_, sync, st) \<Rightarrow>
          if failures + 1 \<ge> FOLDER_FAILURE_BOUND then (Some Folder_Given_Up, sync, st)
          else worker_folder row confirmed (failures + 1) sync st ws)"

lemma sync_open_ok:
  assumes "sync_open st row confirmed examined listed = Some f"
  shows "walk_ok f \<and> fs_pending f = None \<and> walk_weight f \<le> 3 * length listed \<and> fs_budget f = NARROWING_BUDGET"
  using assms
  by (auto simp: sync_open_def sync_of_def Let_def walk_ok_def stack_def walk_weight_def split: option.splits if_splits
    intro: length_filter_le)

text \<open>What a turn leaves of the work: the weight falls with every step and never rises with a failure.\<close>

lemma batch_weight:
  assumes "walk_ok f" "walk_batch f st fetch = (t, f', st')"
  shows "walk_ok f' \<and> walk_weight f' \<le> walk_weight f \<and> (t = Stepped More \<longrightarrow> walk_weight f' < walk_weight f)"
  using assms
proof (cases rule: batch_cases)
  case (Idle step)
  then show ?thesis using assms(1) write_steps(1) [OF assms(1) Idle(3,5)] by auto
qed auto

definition work_left :: "nat \<Rightarrow> folder_sync option \<Rightarrow> nat" where
  "work_left most sync = (case sync of None \<Rightarrow> 3 * most + 1 | Some f \<Rightarrow> walk_weight f)"

definition sync_ok :: "folder_sync option \<Rightarrow> bool" where
  "sync_ok sync = (case sync of None \<Rightarrow> True | Some f \<Rightarrow> walk_ok f)"

lemma turn_work:
  assumes "sync_ok sync" "wire_turn st row confirmed w sync = (t, sync', st')"
    and listed: "\<And>e l fetch. w = Answers e l fetch \<Longrightarrow> length l \<le> most"
  shows "sync_ok sync' \<and> work_left most sync' \<le> work_left most sync \<and> (t = Stepped More \<longrightarrow> work_left most sync' < work_left most sync)"
proof (cases w)
  case (Answers e l fetch)
  let ?f = "case sync of None \<Rightarrow> sync_open st row confirmed e l | Some f \<Rightarrow> if sync_resume f e then Some f else None"
  show ?thesis
  proof (cases ?f)
    case None
    then show ?thesis using assms(1,2) by (auto simp: wire_turn_def Answers attempt_def)
  next
    case (Some f)
    obtain t2 f2 st2 where b: "walk_batch f st fetch = (t2, f2, st2)" by (metis prod_cases3)
    have r: "t = t2" "sync' = Some f2" using assms(2) by (simp_all add: wire_turn_def Answers attempt_def Some b)
    have f: "walk_ok f \<and> walk_weight f \<le> work_left most sync"
      using Some assms(1) sync_open_ok [of st row confirmed e l f] listed [OF Answers]
      by (auto simp: work_left_def sync_ok_def split: option.splits if_splits)
    then show ?thesis using batch_weight [OF _ b] by (fastforce simp: r sync_ok_def work_left_def)
  qed
qed (use assms in \<open>auto simp: wire_turn_def\<close>)

text \<open>C11: whatever the server answers to each of its commands, refuses or breaks, a folder takes a bounded
  number of turns: three for each UID of its list and one for each failure up to the bound, after which
  the worker has done it, given it up or been held back.\<close>
theorem folder_turns_end:
  assumes "sync_ok sync" "failures < FOLDER_FAILURE_BOUND"
    and "\<forall>w\<in>set ws. \<forall>e l fetch. w = Answers e l fetch \<longrightarrow> length l \<le> most"
    and "length ws > work_left most sync + (FOLDER_FAILURE_BOUND - failures)"
  shows "fst (worker_folder row confirmed failures sync st ws) \<noteq> None"
  using assms
proof (induction ws arbitrary: failures sync st)
  case (Cons w ws)
  obtain t sync' st' where turn: "wire_turn st row confirmed w sync = (t, sync', st')" by (metis prod_cases3)
  have work: "sync_ok sync' \<and> work_left most sync' \<le> work_left most sync \<and> (t = Stepped More \<longrightarrow> work_left most sync' < work_left most sync)"
    using turn_work [OF Cons.prems(1) turn, of most] Cons.prems(3) by auto
  have rest: "\<forall>w\<in>set ws. \<forall>e l fetch. w = Answers e l fetch \<longrightarrow> length l \<le> most" using Cons.prems(3) by simp
  have failed: "fst (worker_folder row confirmed (failures + 1) sync' st' ws) \<noteq> None" if "failures + 1 < FOLDER_FAILURE_BOUND"
  proof -
    have "work_left most sync' + (FOLDER_FAILURE_BOUND - (failures + 1)) < length ws"
      using conjunct1 [OF conjunct2 [OF work]] Cons.prems(4) that unfolding list.size by linarith
    then show ?thesis using Cons.IH [OF conjunct1 [OF work] that rest] by blast
  qed
  have more: "fst (worker_folder row confirmed failures sync' st' ws) \<noteq> None" if "t = Stepped More"
  proof -
    have "work_left most sync' + (FOLDER_FAILURE_BOUND - failures) < length ws" using work Cons.prems(4) that by simp
    then show ?thesis using Cons.IH [OF conjunct1 [OF work] Cons.prems(2) rest] by blast
  qed
  show ?case
    using failed more by (auto simp: turn split: turn.split walk_step.split)
qed simp

theorem folder_turns_end_witness:
  "fst (worker_folder demo_row False 0 None \<lparr>st_validity = None, st_row = None, st_mail = []\<rparr> (replicate 100 No_Session)) \<noteq> None"
proof (rule folder_turns_end [where most = 0])
  show "\<forall>w\<in>set (replicate 100 No_Session). \<forall>e l fetch. w = Answers e l fetch \<longrightarrow> length l \<le> 0"
    by (simp add: in_set_replicate)
qed (simp_all add: sync_ok_def work_left_def FOLDER_FAILURE_BOUND_def NARROWING_BUDGET_def)

end
