(* ===== verification/Sync_Refresh.thy ===== *)
theory Sync_Refresh
  imports Sync_Walk
begin

text \<open>
  The refresh of one folder that is done (\<open>sync/refresh.rs\<close>, \<open>sync/refresh/folder.rs\<close>) on a folder
  account: its new mail, the flags that changed, the messages that left and how far it stands. Each
  command of the refresh meets the server as it is then, so every reply is an argument of its own.
\<close>

text \<open>What one command comes back with: an answer, a tagged NO, an answer past its bound, or another failure.\<close>

datatype 'a reply = Reply 'a | Refused | Past_Limit | Failed_Session

datatype flag_fetch = ChangedSince nat | Flag_Range nat nat

record given =
  gv_condstore :: bool
  gv_viewed :: "mailbox_id option"

record calls =
  ca_examine :: "selected reply"
  ca_list :: "nat list reply"
  ca_fetches :: "fetch list"
  ca_flags :: "flag_fetch \<Rightarrow> message list reply"
  ca_present :: "nat list reply"

text \<open>What a refresh has of one folder: whether its flags are scanned, the walk a failure cut short, and the store.\<close>

record refreshing =
  rf_scanned :: bool
  rf_pending :: "folder_sync option"
  rf_store :: folder_store

datatype sync_error = Err_Refused | Err_Limit | Err_Session | Err_Dropped

fun reply_error :: "'a reply \<Rightarrow> sync_error" where
  "reply_error Refused = Err_Refused"
| "reply_error Past_Limit = Err_Limit"
| "reply_error _ = Err_Session"

function chunks_of :: "'a list \<Rightarrow> 'a list list" where
  "chunks_of [] = []"
| "chunks_of (x # xs) = take SYNC_BATCH (x # xs) # chunks_of (drop SYNC_BATCH (x # xs))"
  by pat_completeness auto
termination by (relation "measure length") (simp_all add: SYNC_BATCH_def)

text \<open>The flags of one answer: what is deleted leaves, the keywords of the rest are compared.\<close>

definition apply_flagged :: "folder_store \<Rightarrow> nat \<Rightarrow> message list \<Rightarrow> folder_store" where
  "apply_flagged st validity flagged =
     (let deleted = map ms_uid (filter (\<lambda>m. is_deleted (ms_flags m)) flagged);
          st = foldl (\<lambda>st uids. remove_uids st validity uids) st (chunks_of deleted);
          changes = map (\<lambda>m. (ms_uid m, labeled_keywords (ms_flags m) None)) (filter (\<lambda>m. \<not> is_deleted (ms_flags m)) flagged)
      in foldl (\<lambda>st batch. apply_flags st validity batch) st (chunks_of changes))"

definition uid_ranges :: "nat list \<Rightarrow> (nat \<times> nat) list" where
  "uid_ranges uids = map (\<lambda>chunk. (hd chunk, last chunk)) (chunks_of uids)"

fun scan_ranges :: "folder_store \<Rightarrow> nat \<Rightarrow> (flag_fetch \<Rightarrow> message list reply) \<Rightarrow> (nat \<times> nat) list \<Rightarrow> (sync_error + unit) \<times> folder_store" where
  "scan_ranges st validity ask [] = (Inr (), st)"
| "scan_ranges st validity ask ((low, high) # spans) =
     (case ask (Flag_Range low high) of
        Reply flagged \<Rightarrow> scan_ranges (apply_flagged st validity flagged) validity ask spans
      | other \<Rightarrow> (Inl (reply_error other), st))"

definition refresh_flags :: "given \<Rightarrow> mailbox_id \<Rightarrow> nat \<Rightarrow> progress \<Rightarrow> (flag_fetch \<Rightarrow> message list reply) \<Rightarrow> bool \<Rightarrow> folder_store \<Rightarrow>
    (sync_error + unit) \<times> bool \<times> folder_store" where
  "refresh_flags gv folder validity p ask scanned st =
     (if scanned \<or> \<not> gv_condstore gv \<and> gv_viewed gv = Some folder
      then (case scan_ranges st validity ask (uid_ranges (stored_uids st)) of (r, st) \<Rightarrow> (r, scanned, st))
      else case sy_modseq (pg_synced p) of
             None \<Rightarrow> (Inr (), scanned, st)
           | Some since \<Rightarrow>
               if \<not> gv_condstore gv then (Inr (), scanned, st)
               else (case ask (ChangedSince since) of
                       Reply flagged \<Rightarrow> (Inr (), scanned, apply_flagged st validity flagged)
                     | Past_Limit \<Rightarrow> (Inl Err_Limit, True, st)
                     | other \<Rightarrow> (Inl (reply_error other), scanned, st)))"

definition refresh_expunged :: "nat \<Rightarrow> nat list reply \<Rightarrow> folder_store \<Rightarrow> (sync_error + unit) \<times> folder_store" where
  "refresh_expunged validity listed st =
     (case listed of
        Reply present \<Rightarrow>
          (Inr (), foldl (\<lambda>st uids. remove_uids st validity uids) st (chunks_of (filter (\<lambda>u. u \<notin> set present) (stored_uids st))))
      | other \<Rightarrow> (Inl (reply_error other), st))"

text \<open>The new mail, up to the UID before the server's next: \<open>Inr (Some n)\<close> for \<open>n\<close> messages answered, \<open>Inr None\<close> when the folder went stale.\<close>

definition opened_above :: "mailbox_row \<Rightarrow> progress \<Rightarrow> nat \<Rightarrow> calls \<Rightarrow> folder_store \<Rightarrow> sync_error + folder_sync option" where
  "opened_above row p through ca st =
     (let first = (case sy_uid_next (pg_synced p) of
            Some n \<Rightarrow> n
          | None \<Rightarrow> (case stored_uids st of [] \<Rightarrow> 1 | u # us \<Rightarrow> last (u # us) + 1))
      in if sync_of row Up \<noteq> None \<and> max first 1 \<le> through \<and> through - max first 1 \<ge> REFRESH_GAP
         then (case ca_list ca of Reply listed \<Rightarrow> Inr (sync_above row (first, through) False listed) | other \<Rightarrow> Inl (reply_error other))
         else Inr (sync_above row (first, through) False []))"

text \<open>A walk a failure ended is kept with its narrowing; a refresh dropped in the middle of a fetch loses it.\<close>

definition run_above :: "folder_sync \<Rightarrow> fetch list \<Rightarrow> refreshing \<Rightarrow> (sync_error + nat option) \<times> refreshing" where
  "run_above f fetches s =
     (case walk_finish f (rf_store s) fetches of
        (Stepped Stale, _, st) \<Rightarrow> (Inr None, s\<lparr>rf_pending := None, rf_store := st\<rparr>)
      | (Stepped _, f', st) \<Rightarrow> (Inr (Some (fs_answered f' - fs_answered f)), s\<lparr>rf_pending := None, rf_store := st\<rparr>)
      | (Session_Failed, f', st) \<Rightarrow> (Inl Err_Session, s\<lparr>rf_pending := Some f', rf_store := st\<rparr>)
      | (Turn_Cut, _, st) \<Rightarrow> (Inl Err_Dropped, s\<lparr>rf_pending := None, rf_store := st\<rparr>))"

definition new_mail :: "mailbox_row \<Rightarrow> progress \<Rightarrow> nat \<Rightarrow> calls \<Rightarrow> refreshing \<Rightarrow> (sync_error + nat option) \<times> refreshing" where
  "new_mail row p server_next ca s =
     (if server_next = 0 then (Inr (Some 0), s)
      else let through = server_next - 1;
               kept = (case rf_pending s of
                    None \<Rightarrow> None
                  | Some f \<Rightarrow> (case extend_to f through of (wide, f) \<Rightarrow> if wide then Some f else None));
               s = s\<lparr>rf_pending := None\<rparr>
           in case kept of
                Some f \<Rightarrow> run_above f (ca_fetches ca) s
              | None \<Rightarrow>
                  (case opened_above row p through ca (rf_store s) of
                     Inl e \<Rightarrow> (Inl e, s)
                   | Inr None \<Rightarrow> (Inr (Some 0), s)
                   | Inr (Some f) \<Rightarrow> run_above f (ca_fetches ca) s))"

definition unchanged :: "given \<Rightarrow> mailbox_row \<Rightarrow> progress \<Rightarrow> refreshing \<Rightarrow> bool" where
  "unchanged gv row p s \<longleftrightarrow>
     pg_synced p = \<lparr>sy_uid_next = uid_next (facts row), sy_modseq = highest_modseq (facts row), sy_messages = Some (total_emails (facts row))\<rparr> \<and>
     \<not> (\<not> gv_condstore gv \<and> gv_viewed gv = Some (row_id row)) \<and> rf_pending s = None"

definition refresh_folder :: "given \<Rightarrow> mailbox_row \<Rightarrow> calls \<Rightarrow> refreshing \<Rightarrow> (sync_error + unit) \<times> refreshing" where
  "refresh_folder gv row ca s =
     (case (uid_validity (facts row), uid_next (facts row)) of
        (Some validity, Some server_next) \<Rightarrow>
          (let p = sync_progress (rf_store s)
           in if unchanged gv row p s then (Inr (), s)
              else case ca_examine ca of
                Refused \<Rightarrow> (Inr (), s)
              | Reply selected \<Rightarrow>
                  if se_validity selected \<noteq> validity then (Inr (), s)
                  else (case new_mail row p server_next ca s of
                     (Inl e, s) \<Rightarrow> (Inl e, s)
                   | (Inr None, s) \<Rightarrow> (Inr (), s)
                   | (Inr (Some arrived), s) \<Rightarrow>
                       (case refresh_flags gv (row_id row) validity p (ca_flags ca) (rf_scanned s) (rf_store s) of
                          (Inl e, scanned, st) \<Rightarrow> (Inl e, s\<lparr>rf_scanned := scanned, rf_store := st\<rparr>)
                        | (Inr _, scanned, st) \<Rightarrow>
                            (let s = s\<lparr>rf_scanned := scanned, rf_store := st\<rparr>;
                                 counted = (case sy_messages (pg_synced p) of Some n \<Rightarrow> n | None \<Rightarrow> total_emails (facts row));
                                 (r, st) = (if total_emails (facts row) < min (counted + arrived) u32_max
                                            then refresh_expunged validity (ca_present ca) st else (Inr (), st))
                             in case r of
                                  Inl e \<Rightarrow> (Inl e, s\<lparr>rf_store := st\<rparr>)
                                | Inr _ \<Rightarrow>
                                    (Inr (), s\<lparr>rf_store := store_advance st validity
                                       \<lparr>sy_uid_next = Some server_next, sy_modseq = se_modseq selected, sy_messages = Some (total_emails (facts row))\<rparr>\<rparr>))))
              | other \<Rightarrow> (Inl (reply_error other), s))
      | _ \<Rightarrow> (Inr (), s))"

subsection \<open>The folders of one refresh\<close>

text \<open>The rows of the pass from the one the last refresh stopped before, and a failure of one of them, which
  ends the refresh and names the row after it as the next start; a refresh dropped in a fetch names none.\<close>

definition rotated :: "mailbox_row list \<Rightarrow> mailbox_id option \<Rightarrow> mailbox_row list" where
  "rotated rows first =
     (case first of
        None \<Rightarrow> rows
      | Some start \<Rightarrow> (case find_index (\<lambda>row. row_id row = start) rows of None \<Rightarrow> rows | Some i \<Rightarrow> drop i rows @ take i rows))"

fun refresh_rows :: "(mailbox_row \<Rightarrow> 's \<Rightarrow> (sync_error + unit) \<times> 's) \<Rightarrow> mailbox_row list \<Rightarrow> 's \<Rightarrow> (mailbox_id option \<times> sync_error option) \<times> 's" where
  "refresh_rows folder [] s = ((None, None), s)"
| "refresh_rows folder (row # rows) s =
     (case folder row s of
        (Inl Err_Dropped, s) \<Rightarrow> ((None, Some Err_Dropped), s)
      | (Inl e, s) \<Rightarrow> ((case rows of [] \<Rightarrow> None | r # _ \<Rightarrow> Some (row_id r), Some e), s)
      | (Inr _, s) \<Rightarrow> refresh_rows folder rows s)"

end
