(* ===== verification/Sync_Mirror.thy ===== *)
theory Sync_Mirror
  imports Sync_Refresh
begin

text \<open>
  The store of a folder as a mirror of the server: a server whose mailbox moves on between the commands,
  what its answers say, and what the first sync and the refreshes keep of it through failures, restarts
  and messages no answer describes.
\<close>

subsection \<open>The server\<close>

record mail_server =
  sv_validity :: nat
  sv_next :: nat
  sv_modseq :: nat
  sv_mail :: "message list"

definition server_ok :: "mail_server \<Rightarrow> bool" where
  "server_ok b \<longleftrightarrow> sorted_wrt (<) (map ms_uid (sv_mail b)) \<and> sv_next b \<le> u32_max \<and>
     (\<forall>m\<in>set (sv_mail b). 0 < ms_uid m \<and> ms_uid m < sv_next b \<and> ms_modseq m \<le> sv_modseq b)"

text \<open>The mailbox later: UIDs are handed out once, and a message with other flags has a mod-sequence of its
  own. The flag of a deleted message may be taken back, by any client: \<open>h\<close> holds of the UIDs where it is.\<close>

definition server_later :: "(nat \<Rightarrow> bool) \<Rightarrow> mail_server \<Rightarrow> mail_server \<Rightarrow> bool" where
  "server_later h b b' \<longleftrightarrow> server_ok b' \<and> sv_validity b' = sv_validity b \<and> sv_next b \<le> sv_next b' \<and> sv_modseq b \<le> sv_modseq b' \<and>
     (\<forall>m\<in>set (sv_mail b'). ms_uid m < sv_next b \<longrightarrow>
        (\<exists>m0\<in>set (sv_mail b). ms_uid m0 = ms_uid m \<and> (is_deleted (ms_flags m0) \<and> \<not> h (ms_uid m) \<longrightarrow> is_deleted (ms_flags m)) \<and>
           (m = m0 \<or> sv_modseq b < ms_modseq m)))"

definition shown :: "mail_server \<Rightarrow> selected" where
  "shown b = \<lparr>se_validity = sv_validity b, se_modseq = Some (sv_modseq b), se_uid_next = Some (sv_next b), se_messages = length (sv_mail b)\<rparr>"

definition uid_listing :: "mail_server \<Rightarrow> nat list" where
  "uid_listing b = rev (map ms_uid (sv_mail b))"

text \<open>A fetch answers the messages of its range, breaks or fails; \<open>h\<close> holds also of the UIDs whose message the
  server cannot describe even without its structure.\<close>

definition in_range :: "nat \<times> nat \<Rightarrow> message \<Rightarrow> bool" where
  "in_range span m \<longleftrightarrow> fst span \<le> ms_uid m \<and> ms_uid m \<le> snd span"

definition fetch_ok :: "(nat \<Rightarrow> bool) \<Rightarrow> mail_server \<Rightarrow> fetch \<Rightarrow> bool" where
  "fetch_ok h b fetch \<longleftrightarrow>
     (\<forall>span full. (case fetch span full of
        Answered ms \<Rightarrow> ms = filter (in_range span) (sv_mail b)
      | Broken \<Rightarrow> fst span = snd span \<and> \<not> full \<longrightarrow> h (fst span)
      | _ \<Rightarrow> True))"

lemma server_later_ok: "server_later h b b' \<Longrightarrow> server_ok b'"
  by (simp add: server_later_def)

lemma same_message:
  assumes "server_ok b" "m \<in> set (sv_mail b)" "m' \<in> set (sv_mail b)" "ms_uid m = ms_uid m'"
  shows "m = m'"
proof -
  have "distinct (map ms_uid (sv_mail b))"
    using assms(1) by (simp add: server_ok_def strict_sorted_iff)
  then show ?thesis using assms(2-4) by (simp add: distinct_map inj_on_def)
qed

lemma server_later_refl: "server_ok b \<Longrightarrow> server_later h b b"
  unfolding server_later_def by blast

lemma server_laterD:
  assumes "server_later h b b'" "m \<in> set (sv_mail b')" "ms_uid m < sv_next b"
  shows "\<exists>m0\<in>set (sv_mail b). ms_uid m0 = ms_uid m \<and> (is_deleted (ms_flags m0) \<and> \<not> h (ms_uid m) \<longrightarrow> is_deleted (ms_flags m)) \<and>
     (m = m0 \<or> sv_modseq b < ms_modseq m)"
  using assms unfolding server_later_def by blast

lemma server_later_trans:
  assumes "server_later h a b" "server_later h b c"
  shows "server_later h a c"
proof -
  have "\<exists>m0\<in>set (sv_mail a). ms_uid m0 = ms_uid m \<and> (is_deleted (ms_flags m0) \<and> \<not> h (ms_uid m) \<longrightarrow> is_deleted (ms_flags m)) \<and>
      (m = m0 \<or> sv_modseq a < ms_modseq m)" if m: "m \<in> set (sv_mail c)" "ms_uid m < sv_next a" for m
  proof -
    have below: "ms_uid m < sv_next b" and le: "sv_modseq a \<le> sv_modseq b" using m(2) assms(1) by (simp_all add: server_later_def)
    obtain m1 where m1: "m1 \<in> set (sv_mail b)" "ms_uid m1 = ms_uid m" "is_deleted (ms_flags m1) \<and> \<not> h (ms_uid m) \<longrightarrow> is_deleted (ms_flags m)"
        "m = m1 \<or> sv_modseq b < ms_modseq m"
      using server_laterD [OF assms(2) m(1) below] by blast
    have "ms_uid m1 < sv_next a" using m1(2) m(2) by simp
    then obtain m0 where "m0 \<in> set (sv_mail a)" "ms_uid m0 = ms_uid m1" "is_deleted (ms_flags m0) \<and> \<not> h (ms_uid m1) \<longrightarrow> is_deleted (ms_flags m1)"
        "m1 = m0 \<or> sv_modseq a < ms_modseq m1"
      using server_laterD [OF assms(1) m1(1)] by blast
    then show ?thesis using m1 le by (intro bexI [of _ m0]) auto
  qed
  then show ?thesis using assms unfolding server_later_def by auto
qed

subsection \<open>What the store owes the server\<close>

text \<open>The UIDs the row says have been asked for.\<close>

definition reached :: "folder_store \<Rightarrow> nat \<Rightarrow> bool" where
  "reached st u =
     (case st_row st of
        None \<Rightarrow> False
      | Some r \<Rightarrow> (case sr_uid_next r of None \<Rightarrow> False | Some n \<Rightarrow> u < n) \<and>
          (sr_done r \<or> (case sr_lowest r of None \<Rightarrow> False | Some l \<Rightarrow> l \<le> u)))"

definition row_fits :: "mail_server \<Rightarrow> sync_row \<Rightarrow> bool" where
  "row_fits b r \<longleftrightarrow> sr_messages r \<noteq> None \<and> (\<exists>n. sr_uid_next r = Some n \<and> n \<le> sv_next b) \<and>
     (\<exists>q. sr_modseq r = Some q \<and> q \<le> sv_modseq b) \<and> (\<not> sr_done r \<longrightarrow> sr_lowest r \<noteq> None)"

definition known_modseq :: "folder_store \<Rightarrow> nat" where
  "known_modseq st = (case st_row st of None \<Rightarrow> 0 | Some r \<Rightarrow> (case sr_modseq r of None \<Rightarrow> 0 | Some q \<Rightarrow> q))"

definition message_keywords :: "message \<Rightarrow> (string, bool) bt" where
  "message_keywords m = labeled_keywords (ms_flags m) None"

text \<open>The rows carry the keywords of their messages, but for changes past a mod-sequence.\<close>

definition fresh_to :: "nat \<Rightarrow> mail_server \<Rightarrow> email_row list \<Rightarrow> bool" where
  "fresh_to q b rows \<longleftrightarrow>
     (\<forall>e\<in>set rows. \<forall>m\<in>set (sv_mail b). ms_uid m = er_uid e \<and> \<not> is_deleted (ms_flags m) \<longrightarrow>
        er_keywords e = message_keywords m \<or> q < ms_modseq m)"

definition complete_for :: "(nat \<Rightarrow> bool) \<Rightarrow> mail_server \<Rightarrow> (nat \<Rightarrow> bool) \<Rightarrow> email_row list \<Rightarrow> bool" where
  "complete_for h b asked rows \<longleftrightarrow>
     (\<forall>m\<in>set (sv_mail b). asked (ms_uid m) \<and> \<not> is_deleted (ms_flags m) \<and> \<not> h (ms_uid m) \<longrightarrow> ms_uid m \<in> er_uid ` set rows)"

definition mirrored :: "(nat \<Rightarrow> bool) \<Rightarrow> mail_server \<Rightarrow> folder_store \<Rightarrow> bool" where
  "mirrored h b st \<longleftrightarrow> server_ok b \<and> st_validity st = Some (Some (sv_validity b)) \<and>
     distinct (map er_uid (st_mail st)) \<and> (\<forall>e\<in>set (st_mail st). er_uid e < sv_next b) \<and>
     (case st_row st of None \<Rightarrow> st_mail st = [] | Some r \<Rightarrow> row_fits b r) \<and>
     complete_for h b (reached st) (st_mail st) \<and> fresh_to (known_modseq st) b (st_mail st)"

lemma complete_later:
  assumes "complete_for h b asked rows" "server_later h b b'" "\<And>u. asked u \<Longrightarrow> u < sv_next b"
  shows "complete_for h b' asked rows"
  unfolding complete_for_def
proof (intro ballI impI, elim conjE)
  fix m assume m: "m \<in> set (sv_mail b')" "asked (ms_uid m)" "\<not> is_deleted (ms_flags m)" "\<not> h (ms_uid m)"
  obtain m0 where "m0 \<in> set (sv_mail b)" "ms_uid m0 = ms_uid m" "is_deleted (ms_flags m0) \<and> \<not> h (ms_uid m) \<longrightarrow> is_deleted (ms_flags m)"
    using server_laterD [OF assms(2) m(1) assms(3) [OF m(2)]] by blast
  then show "ms_uid m \<in> er_uid ` set rows" using assms(1) m unfolding complete_for_def by metis
qed

lemma fresh_later:
  assumes "fresh_to q b rows" "server_later h b b'" "q \<le> sv_modseq b" "\<And>e. e \<in> set rows \<Longrightarrow> er_uid e < sv_next b"
  shows "fresh_to q b' rows"
  unfolding fresh_to_def
proof (intro ballI impI, elim conjE)
  fix e m assume m: "e \<in> set rows" "m \<in> set (sv_mail b')" "ms_uid m = er_uid e" "\<not> is_deleted (ms_flags m)"
  have "ms_uid m < sv_next b" using assms(4) [OF m(1)] m(3) by simp
  then obtain m0 where m0: "m0 \<in> set (sv_mail b)" "m = m0 \<or> sv_modseq b < ms_modseq m"
    using server_laterD [OF assms(2) m(2)] by blast
  then show "er_keywords e = message_keywords m \<or> q < ms_modseq m"
    using assms(1,3) m unfolding fresh_to_def by (metis le_less_trans)
qed

lemma mirroredD:
  assumes "mirrored h b st"
  shows "server_ok b" "st_validity st = Some (Some (sv_validity b))" "distinct (map er_uid (st_mail st))"
    "e \<in> set (st_mail st) \<Longrightarrow> er_uid e < sv_next b" "st_row st = None \<Longrightarrow> st_mail st = []"
    "st_row st = Some r \<Longrightarrow> row_fits b r" "complete_for h b (reached st) (st_mail st)"
    "fresh_to (known_modseq st) b (st_mail st)"
  using assms unfolding mirrored_def by auto

lemma reached_below: "mirrored h b st \<Longrightarrow> reached st u \<Longrightarrow> u < sv_next b"
  using mirroredD(6) [of h b st] by (force simp: reached_def row_fits_def split: option.splits)

lemma known_below: "mirrored h b st \<Longrightarrow> known_modseq st \<le> sv_modseq b"
  using mirroredD(6) [of h b st] by (force simp: known_modseq_def row_fits_def split: option.splits)

lemma mirrors_later:
  assumes "mirrored h b st" "server_later h b b'"
  shows "mirrored h b' st"
proof -
  note d = mirroredD [OF assms(1)]
  have rows: "case st_row st of None \<Rightarrow> st_mail st = [] | Some r \<Rightarrow> row_fits b' r"
    using d(5,6) assms(2) by (fastforce simp: row_fits_def server_later_def split: option.split)
  have "er_uid e < sv_next b'" if "e \<in> set (st_mail st)" for e
    using d(4) [OF that] assms(2) by (simp add: server_later_def)
  then show ?thesis
    using d(2,3) rows assms(2) server_later_ok [OF assms(2)]
      complete_later [OF d(7) assms(2) reached_below [OF assms(1)]]
      fresh_later [OF d(8) assms(2) known_below [OF assms(1)] d(4)]
    unfolding mirrored_def by (simp add: server_later_def)
qed

subsection \<open>Writes\<close>

lemma written_emails:
  "er_uid ` set (foldl write_email rows es) = er_uid ` set rows \<union> er_uid ` set es"
  "e \<in> set (foldl write_email rows es) \<Longrightarrow> e \<in> set rows \<or> e \<in> set es"
  "distinct (map er_uid rows) \<Longrightarrow> distinct (map er_uid (foldl write_email rows es))"
proof -
  show "er_uid ` set (foldl write_email rows es) = er_uid ` set rows \<union> er_uid ` set es"
    "distinct (map er_uid rows) \<Longrightarrow> distinct (map er_uid (foldl write_email rows es))"
    by (induction es arbitrary: rows) (auto simp: write_email_def image_iff split: if_splits)
  show "e \<in> set (foldl write_email rows es) \<Longrightarrow> e \<in> set rows \<or> e \<in> set es"
  proof (induction es arbitrary: rows)
    case (Cons a es)
    have "set (write_email rows a) \<subseteq> insert a (set rows)" by (auto simp: write_email_def)
    then show ?case using Cons.IH [of "write_email rows a"] Cons.prems by auto
  qed simp
qed

lemma emails_of:
  "e \<in> set (List.map_filter message_email ms) \<longleftrightarrow>
     (\<exists>m\<in>set ms. \<not> is_deleted (ms_flags m) \<and> e = \<lparr>er_uid = ms_uid m, er_keywords = message_keywords m\<rparr>)"
  by (induction ms) (auto simp: message_email_def message_keywords_def)

lemma mirrors_write:
  assumes m: "mirrored h b st" and ms: "set ms \<subseteq> set (sv_mail b)" and r: "row_fits b r"
    and st': "st' = st\<lparr>st_mail := foldl write_email (st_mail st) (List.map_filter message_email ms), st_row := Some r\<rparr>"
    and known: "known_modseq st' = known_modseq st \<or> st_mail st = []"
    and asked: "\<And>m. m \<in> set (sv_mail b) \<Longrightarrow> reached st' (ms_uid m) \<Longrightarrow> \<not> reached st (ms_uid m) \<Longrightarrow> m \<in> set ms \<or> h (ms_uid m)"
  shows "mirrored h b st'"
proof -
  note d = mirroredD [OF m]
  let ?es = "List.map_filter message_email ms"
  have es: "er_uid e < sv_next b" if "e \<in> set ?es" for e
    using that ms d(1) by (auto simp: emails_of server_ok_def)
  have "complete_for h b (reached st') (st_mail st')"
    unfolding complete_for_def
  proof (intro ballI impI, elim conjE)
    fix x assume x: "x \<in> set (sv_mail b)" "reached st' (ms_uid x)" "\<not> is_deleted (ms_flags x)" "\<not> h (ms_uid x)"
    show "ms_uid x \<in> er_uid ` set (st_mail st')"
    proof (cases "reached st (ms_uid x)")
      case True
      then show ?thesis using d(7) x unfolding complete_for_def by (simp add: st' written_emails(1))
    next
      case False
      then have "x \<in> set ms" using asked x by blast
      then have "\<lparr>er_uid = ms_uid x, er_keywords = message_keywords x\<rparr> \<in> set ?es" using x(3) by (auto simp: emails_of)
      then have "ms_uid x \<in> er_uid ` set ?es" by force
      then show ?thesis by (simp add: st' written_emails(1))
    qed
  qed
  moreover have "fresh_to (known_modseq st') b (st_mail st')"
    unfolding fresh_to_def
  proof (intro ballI impI, elim conjE)
    fix e x assume x: "e \<in> set (st_mail st')" "x \<in> set (sv_mail b)" "ms_uid x = er_uid e" "\<not> is_deleted (ms_flags x)"
    consider "e \<in> set (st_mail st)" | "e \<in> set ?es" using x(1) written_emails(2) by (fastforce simp: st')
    then show "er_keywords e = message_keywords x \<or> known_modseq st' < ms_modseq x"
    proof cases
      case 1
      then have "known_modseq st' = known_modseq st" using known by auto
      then show ?thesis using d(8) 1 x unfolding fresh_to_def by simp
    next
      case 2
      then obtain y where y: "y \<in> set ms" "e = \<lparr>er_uid = ms_uid y, er_keywords = message_keywords y\<rparr>"
        by (auto simp: emails_of)
      then have "x = y" using same_message [OF d(1) x(2), of y] ms x(3) by auto
      then show ?thesis using y(2) by simp
    qed
  qed
  moreover have "er_uid e < sv_next b" if "e \<in> set (st_mail st')" for e
    using written_emails(2) [of e "st_mail st" ?es] that d(4) es by (auto simp: st')
  ultimately show ?thesis
    using d(1,2,3) r written_emails(3) [OF d(3)] unfolding mirrored_def by (simp add: st')
qed

text \<open>Removing rows and writing keywords.\<close>

lemma removed_rows:
  "set (foldl (\<lambda>rows u. filter (\<lambda>e. er_uid e \<noteq> u) rows) rows us) = {e \<in> set rows. er_uid e \<notin> set us}"
  "distinct (map er_uid rows) \<Longrightarrow> distinct (map er_uid (foldl (\<lambda>rows u. filter (\<lambda>e. er_uid e \<noteq> u) rows) rows us))"
  by (induction us arbitrary: rows) (auto simp: distinct_map_filter)

lemma chunks_concat: "concat (chunks_of xs) = xs"
  by (induction xs rule: chunks_of.induct) simp_all

lemma remove_chunks:
  assumes "st_validity st = Some (Some v)"
  shows "foldl (\<lambda>st us. remove_uids st v us) st uss =
    st\<lparr>st_mail := foldl (\<lambda>rows u. filter (\<lambda>e. er_uid e \<noteq> u) rows) (st_mail st) (concat uss)\<rparr>"
  using assms by (induction uss arbitrary: st) (simp_all add: remove_uids_def pinned_def)

definition rekeyed :: "email_row list \<Rightarrow> nat \<times> (string, bool) bt \<Rightarrow> email_row list" where
  "rekeyed rows c = (case c of (u, ks) \<Rightarrow> map (\<lambda>e. if er_uid e = u \<and> er_keywords e \<noteq> ks then e\<lparr>er_keywords := ks\<rparr> else e) rows)"

lemma flag_chunks:
  assumes "st_validity st = Some (Some v)"
  shows "foldl (\<lambda>st cs. apply_flags st v cs) st css = st\<lparr>st_mail := foldl rekeyed (st_mail st) (concat css)\<rparr>"
proof -
  have "apply_flags st v cs = st\<lparr>st_mail := foldl rekeyed (st_mail st) cs\<rparr>" if "st_validity st = Some (Some v)" for st cs
    using that by (simp add: apply_flags_def pinned_def rekeyed_def [abs_def])
  then show ?thesis using assms by (induction css arbitrary: st) simp_all
qed

lemma rekeyed_rows:
  "map er_uid (foldl rekeyed rows cs) = map er_uid rows"
  "e \<in> set (foldl rekeyed rows cs) \<Longrightarrow>
     (\<exists>e0\<in>set rows. er_uid e0 = er_uid e \<and> (er_uid e \<notin> fst ` set cs \<longrightarrow> e = e0)) \<and>
     (er_uid e \<in> fst ` set cs \<longrightarrow> (er_uid e, er_keywords e) \<in> set cs)"
proof -
  show "map er_uid (foldl rekeyed rows cs) = map er_uid rows"
    by (induction cs arbitrary: rows) (auto simp: rekeyed_def)
  show "e \<in> set (foldl rekeyed rows cs) \<Longrightarrow>
     (\<exists>e0\<in>set rows. er_uid e0 = er_uid e \<and> (er_uid e \<notin> fst ` set cs \<longrightarrow> e = e0)) \<and>
     (er_uid e \<in> fst ` set cs \<longrightarrow> (er_uid e, er_keywords e) \<in> set cs)"
  proof (induction cs arbitrary: e rule: rev_induct)
    case (snoc c cs)
    obtain u ks where c: "c = (u, ks)" by (cases c)
    obtain e1 where e1: "e1 \<in> set (foldl rekeyed rows cs)"
        "e = (if er_uid e1 = u \<and> er_keywords e1 \<noteq> ks then e1\<lparr>er_keywords := ks\<rparr> else e1)"
    proof -
      have "e \<in> (\<lambda>e. if er_uid e = u \<and> er_keywords e \<noteq> ks then e\<lparr>er_keywords := ks\<rparr> else e) ` set (foldl rekeyed rows cs)"
        using snoc.prems by (simp add: c rekeyed_def [of _ "(u, ks)"])
      then show ?thesis using that by (elim imageE) blast
    qed
    have "er_uid e = er_uid e1" using e1(2) by simp
    then show ?case using snoc.IH [OF e1(1)] e1(2) by (auto simp: c split: if_splits)
  qed auto
qed

subsection \<open>The first sync\<close>

text \<open>The UIDNEXT a first sync goes by: that of the row, else that of its opening.\<close>

definition down_bound :: "folder_store \<Rightarrow> synced \<Rightarrow> nat" where
  "down_bound st s = (case st_row st of None \<Rightarrow> (case sy_uid_next s of None \<Rightarrow> 0 | Some n \<Rightarrow> n)
     | Some r \<Rightarrow> (case sr_uid_next r of None \<Rightarrow> 0 | Some n \<Rightarrow> n))"

definition opening_fits :: "mail_server \<Rightarrow> synced \<Rightarrow> bool" where
  "opening_fits b s \<longleftrightarrow> sy_messages s \<noteq> None \<and> (\<exists>n. sy_uid_next s = Some n \<and> n \<le> sv_next b) \<and> (\<exists>q. sy_modseq s = Some q \<and> q \<le> sv_modseq b)"

definition down_ok :: "mail_server \<Rightarrow> folder_store \<Rightarrow> folder_sync \<Rightarrow> bool" where
  "down_ok b st f \<longleftrightarrow> walk_ok f \<and> fs_validity f = sv_validity b \<and> sorted_wrt (<) (unasked f) \<and>
     (\<exists>s. fs_walk f = Down s \<and> opening_fits b s \<and>
        (\<forall>m\<in>set (sv_mail b). ms_uid m < down_bound st s \<and> \<not> reached st (ms_uid m) \<longrightarrow> ms_uid m \<in> set (unasked f))) \<and>
     (case st_row st of None \<Rightarrow> True
      | Some r \<Rightarrow> if sr_done r then unasked f = [] else (\<forall>l. sr_lowest r = Some l \<longrightarrow> (\<forall>u\<in>set (unasked f). u < l)))"

lemma down_later:
  assumes "down_ok b st f" "mirrored h b st" "server_later h b b'"
  shows "down_ok b' st f"
proof -
  obtain s where s: "fs_walk f = Down s" "opening_fits b s"
      "\<forall>m\<in>set (sv_mail b). ms_uid m < down_bound st s \<and> \<not> reached st (ms_uid m) \<longrightarrow> ms_uid m \<in> set (unasked f)"
    using assms(1) unfolding down_ok_def by blast
  have bound: "down_bound st s \<le> sv_next b"
    using s(2) mirroredD(6) [OF assms(2)] by (force simp: down_bound_def opening_fits_def row_fits_def split: option.split)
  have fits: "opening_fits b' s" using s(2) assms(3) unfolding opening_fits_def server_later_def by (meson le_trans)
  have "ms_uid m \<in> set (unasked f)" if m: "m \<in> set (sv_mail b')" "ms_uid m < down_bound st s" "\<not> reached st (ms_uid m)" for m
  proof -
    obtain m0 where "m0 \<in> set (sv_mail b)" "ms_uid m0 = ms_uid m"
      using server_laterD [OF assms(3) m(1)] m(2) bound by fastforce
    then show ?thesis using s(3) m by metis
  qed
  moreover have "sv_validity b' = sv_validity b" using assms(3) by (simp add: server_later_def)
  ultimately show ?thesis using assms(1) s(1) fits unfolding down_ok_def by auto
qed

text \<open>What a write of a walk down leaves in the row.\<close>

lemma written_down:
  assumes m: "mirrored h b st" and s: "opening_fits b s" and f: "fs_walk f = Down s" "fs_validity f = sv_validity b"
    and w: "walk_write f st ms passed = (step, st')"
  obtains r where "st' = st\<lparr>st_mail := foldl write_email (st_mail st) (List.map_filter message_email ms), st_row := Some r\<rparr>"
    "sr_uid_next r = Some (down_bound st s)" "sr_done r = (fs_narrowed f = [] \<and> fs_remaining f = [])"
    "sr_lowest r = coalesce (map_option fst passed) (case st_row st of None \<Rightarrow> None | Some r0 \<Rightarrow> sr_lowest r0)"
    "sr_messages r \<noteq> None" "\<exists>q. sr_modseq r = Some q \<and> q \<le> sv_modseq b" "down_bound st s \<le> sv_next b"
    "known_modseq st' = known_modseq st \<or> st_mail st = []"
proof -
  define r where "r = the (fst (save_progress (st_row st) (Adv_Down (map_option fst passed) (fs_narrowed f = [] \<and> fs_remaining f = []) s)))"
  have st': "st' = st\<lparr>st_mail := foldl write_email (st_mail st) (List.map_filter message_email ms), st_row := Some r\<rparr>"
    using w mirroredD(2) [OF m] by (auto simp: walk_write_def f Let_def apply_batch_def pinned_def save_progress_def r_def split: prod.splits)
  show thesis
  proof (cases "st_row st")
    case None
    then show thesis using s mirroredD(5) [OF m None]
      by (intro that [OF st']) (auto simp: r_def save_progress_def down_bound_def opening_fits_def coalesce_def split: option.splits)
  next
    case (Some r0)
    then have "row_fits b r0" using mirroredD(6) [OF m] by blast
    then show thesis using Some
      by (intro that [OF st']) (auto simp: r_def save_progress_def down_bound_def row_fits_def coalesce_def known_modseq_def st' split: option.splits)
  qed
qed

lemma down_write:
  assumes m: "mirrored h b st" and ms: "set ms \<subseteq> set (sv_mail b)"
    and s: "opening_fits b s" and f: "fs_walk f = Down s" "fs_validity f = sv_validity b" "walk_ok f" "fs_pending f = None"
    and asc: "sorted_wrt (<) (unasked f @ uids)" and fin: "unasked f @ uids = [] \<or> passed = Some (hd uids, hi) \<and> uids \<noteq> []"
    and idle: "passed = None \<Longrightarrow> unasked f = []"
    and unreached: "\<And>x. x \<in> set (sv_mail b) \<Longrightarrow> ms_uid x < down_bound st s \<Longrightarrow> \<not> reached st (ms_uid x) \<Longrightarrow> ms_uid x \<in> set (unasked f @ uids)"
    and got: "\<And>x. x \<in> set (sv_mail b) \<Longrightarrow> ms_uid x \<in> set uids \<Longrightarrow> x \<in> set ms \<or> h (ms_uid x)"
    and row: "\<And>r. st_row st = Some r \<Longrightarrow> \<not> sr_done r \<and> uids \<noteq> [] \<Longrightarrow> \<forall>l. sr_lowest r = Some l \<longrightarrow> (\<forall>u\<in>set uids. u < l)"
    and old: "\<And>r. st_row st = Some r \<Longrightarrow> sr_done r \<Longrightarrow> unasked f @ uids = []"
    and w: "walk_write f st ms passed = (step, st')"
  shows "mirrored h b st' \<and> down_ok b st' f"
proof -
  obtain r where r: "st' = st\<lparr>st_mail := foldl write_email (st_mail st) (List.map_filter message_email ms), st_row := Some r\<rparr>"
      "sr_uid_next r = Some (down_bound st s)" "sr_done r = (fs_narrowed f = [] \<and> fs_remaining f = [])"
      "sr_lowest r = coalesce (map_option fst passed) (case st_row st of None \<Rightarrow> None | Some r0 \<Rightarrow> sr_lowest r0)"
      "sr_messages r \<noteq> None" "\<exists>q. sr_modseq r = Some q \<and> q \<le> sv_modseq b" "down_bound st s \<le> sv_next b"
      "known_modseq st' = known_modseq st \<or> st_mail st = []"
    using written_down [OF m s f(1,2) w] by blast
  have empty: "sr_done r \<longleftrightarrow> unasked f = []"
    using f(3,4) unfolding r(3) by (cases "fs_narrowed f") (auto simp: unasked_def stack_def walk_ok_def f(1) downward_def)
  have low: "passed = Some (hd uids, hi) \<and> uids \<noteq> []" "sr_lowest r = Some (hd uids)" if "\<not> sr_done r"
    using that fin empty by (auto simp: r(4) coalesce_def)
  have here: "reached st' u \<longleftrightarrow> u < down_bound st s \<and> (unasked f = [] \<or> hd uids \<le> u)" for u
    using low by (cases "sr_done r") (auto simp: reached_def r(1,2) empty)
  have bound: "down_bound st' s' = down_bound st s" for s' by (simp add: down_bound_def r(1,2))
  have mono: "reached st' u" if past: "reached st u" for u
  proof -
    obtain r0 where r0: "st_row st = Some r0" "u < down_bound st s" "sr_done r0 \<or> (\<exists>l. sr_lowest r0 = Some l \<and> l \<le> u)"
      using past by (auto simp: reached_def down_bound_def split: option.splits)
    show ?thesis
    proof (cases "sr_done r0 \<or> unasked f = []")
      case True
      then show ?thesis using r0(2) old [OF r0(1)] by (auto simp: here)
    next
      case False
      then have "uids \<noteq> []" using fin by auto
      obtain l where l: "sr_lowest r0 = Some l" "l \<le> u" using False r0(3) by blast
      have "hd uids < l" using row [OF r0(1)] False \<open>uids \<noteq> []\<close> l(1) by simp
      then have "hd uids \<le> u" using l(2) by simp
      then show ?thesis using r0(2) by (simp add: here)
    qed
  qed
  have split: "x \<in> set uids \<longleftrightarrow> x \<in> set (unasked f @ uids) \<and> (unasked f = [] \<or> hd uids \<le> x)" if "uids \<noteq> [] \<or> unasked f = []" for x
  proof -
    have "\<forall>y\<in>set (unasked f). uids \<noteq> [] \<longrightarrow> y < hd uids" using asc by (auto simp: sorted_wrt_append)
    moreover have "\<forall>y\<in>set uids. hd uids \<le> y" using asc by (cases uids) (auto simp: sorted_wrt_append)
    ultimately show ?thesis using that by (metis Un_iff empty_iff empty_set leD set_append)
  qed
  have some: "uids \<noteq> [] \<or> unasked f = []" using fin by auto
  have "mirrored h b st'"
  proof (rule mirrors_write [OF m ms _ r(1) r(8)])
    show "row_fits b r" using r(2,5,6,7) low(2) by (auto simp: row_fits_def)
    show "x \<in> set ms \<or> h (ms_uid x)" if "x \<in> set (sv_mail b)" "reached st' (ms_uid x)" "\<not> reached st (ms_uid x)" for x
    proof -
      have "ms_uid x < down_bound st s" and low: "unasked f = [] \<or> hd uids \<le> ms_uid x" using that(2) unfolding here by blast+
      then have "ms_uid x \<in> set (unasked f @ uids)" using unreached [OF that(1) _ that(3)] by blast
      then show ?thesis using got [OF that(1)] split [OF some] low by blast
    qed
  qed
  moreover have "down_ok b st' f"
    unfolding down_ok_def
  proof (intro conjI exI [of _ s] ballI impI, goal_cases)
    case 3
    then show ?case using asc by (simp add: sorted_wrt_append)
  next
    case (6 x)
    then have x: "x \<in> set (sv_mail b)" "ms_uid x < down_bound st s" "\<not> reached st' (ms_uid x)" by (simp_all add: bound)
    then have "\<not> reached st (ms_uid x)" using mono by blast
    then have "ms_uid x \<in> set (unasked f @ uids)" by (rule unreached [OF x(1,2)])
    moreover have "\<not> (unasked f = [] \<or> hd uids \<le> ms_uid x)" using x(2,3) unfolding here by blast
    ultimately show ?case using split [OF some, of "ms_uid x"] unfolding set_append by blast
  next
    case 7
    show ?case
    proof (cases "sr_done r")
      case False
      then have "\<forall>u\<in>set (unasked f). u < hd uids" using asc low(1) by (auto simp: sorted_wrt_append)
      then show ?thesis using False low(2) by (simp add: r(1))
    qed (simp add: r(1) empty)
  qed (use f s in simp_all)
  ultimately show ?thesis ..
qed

text \<open>One batch of a walk down, whatever the server answers.\<close>

lemma fetch_okD:
  assumes "fetch_ok h b fetch"
  shows "fetch span full = Answered ms \<Longrightarrow> ms = filter (in_range span) (sv_mail b)"
    "fetch (u, u) False = Broken \<Longrightarrow> h u"
proof -
  have c: "case fetch span full of Answered ms \<Rightarrow> ms = filter (in_range span) (sv_mail b)
      | Broken \<Rightarrow> fst span = snd span \<and> \<not> full \<longrightarrow> h (fst span) | _ \<Rightarrow> True" for span full
    using assms unfolding fetch_ok_def by blast
  show "fetch span full = Answered ms \<Longrightarrow> ms = filter (in_range span) (sv_mail b)" using c [of span full] by simp
  show "fetch (u, u) False = Broken \<Longrightarrow> h u" using c [of "(u, u)" False] by simp
qed

lemma fetched_in_range:
  assumes "fetch_ok h b fetch" "fetch (lo, hi) full = Answered ms"
  shows "set ms \<subseteq> set (sv_mail b)" "\<And>x. x \<in> set (sv_mail b) \<Longrightarrow> lo \<le> ms_uid x \<Longrightarrow> ms_uid x \<le> hi \<Longrightarrow> x \<in> set ms"
  using fetch_okD(1) [OF assms] by (auto simp: in_range_def)

lemma ascending_bounds:
  "sorted_wrt (<) (us :: nat list) \<Longrightarrow> u \<in> set us \<Longrightarrow> hd us \<le> u"
  "sorted_wrt (<) (us :: nat list) \<Longrightarrow> u \<in> set us \<Longrightarrow> u \<le> last us"
  by (induction us) (auto intro: less_imp_le)

lemma down_batch:
  assumes m: "mirrored h b st" and f: "down_ok b st f" and fetch: "fetch_ok h b fetch" and b: "walk_batch f st fetch = (t, f', st')"
  shows "mirrored h b st' \<and> down_ok b st' f'"
proof -
  obtain s where s: "fs_walk f = Down s" "opening_fits b s"
      "\<forall>m\<in>set (sv_mail b). ms_uid m < down_bound st s \<and> \<not> reached st (ms_uid m) \<longrightarrow> ms_uid m \<in> set (unasked f)"
    using f unfolding down_ok_def by blast
  have ok: "walk_ok f" "fs_validity f = sv_validity b" and asc: "sorted_wrt (<) (unasked f)" using f by (simp_all add: down_ok_def)
  have row: "if sr_done r then unasked f = [] else (\<forall>l. sr_lowest r = Some l \<longrightarrow> (\<forall>u\<in>set (unasked f). u < l))" if "st_row st = Some r" for r
    using f that unfolding down_ok_def by simp
  have same: "fs_walk f' = Down s" "fs_validity f' = sv_validity b" if "same_walk f f'"
    using that s(1) ok(2) by (simp_all add: same_walk_def)
  have down: "ahead f us rest = rest @ us" for us rest by (simp add: ahead_def s(1) downward_def)
  show ?thesis
    using ok(1) b
  proof (cases rule: batch_cases)
    case (Idle step)
    show ?thesis
      using down_write [OF m, of "[]" s f "[]" None 0 step st'] Idle s ok row by (auto simp: walk_ok_def)
  next
    case (Answer uids full ms step)
    have w: "unasked f = unasked f' @ uids" using Answer(2) by (simp add: down)
    have asc': "sorted_wrt (<) (unasked f' @ uids)" using asc w by simp
    then have "sorted_wrt (<) uids" by (simp add: sorted_wrt_append)
    note got = fetched_in_range [OF fetch Answer(3)] ascending_bounds [OF this]
    show ?thesis
    proof (rule down_write [OF m got(1) s(2) same(1) [OF Answer(8)] same(2) [OF Answer(8)] Answer(6,7) asc' _ _ _ _ _ _ Answer(5)], goal_cases)
      case (3 x) then show ?case using s(3) w by auto
    next
      case (4 x) then show ?case using got(2-4) by blast
    next
      case (5 r) then show ?case using row [OF 5(1)] w by auto
    next
      case (6 r) then show ?case using row [OF 6(1)] w by auto
    qed (use Answer(1) in auto)
  next
    case (Skip u)
    have w: "unasked f = unasked f' @ [u]" using Skip(1) by (simp add: down)
    have asc': "sorted_wrt (<) (unasked f' @ [u])" using asc w by simp
    have "h u" using fetch_okD(2) [OF fetch Skip(2)] .
    obtain step where wr: "walk_write f' st [] (Some (u, u)) = (step, st')" using Skip(4) by (cases "walk_write f' st [] (Some (u, u))") simp
    show ?thesis
    proof (rule down_write [OF m _ s(2) same(1) [OF Skip(7)] same(2) [OF Skip(7)] Skip(5,6) asc' _ _ _ _ _ _ wr], goal_cases)
      case (4 x) then show ?case using s(3) w by auto
    next
      case (6 r) then show ?case using row [OF 6(1)] w by auto
    next
      case (7 r) then show ?case using row [OF 7(1)] w by auto
    qed (use \<open>h u\<close> in auto)
  next
    case (Stay uids full)
    then have "down_ok b st f'"
      using f same [OF Stay(6)] unfolding down_ok_def Stay(2) s(1) by simp
    then show ?thesis using m Stay(3) by simp
  qed
qed

lemma opened_down:
  assumes m: "mirrored h b' st" and later: "server_later h b b'"
    and f: "sync_open st row confirmed (Some (shown b)) (uid_listing b') = Some f"
  shows "down_ok b' st f"
proof -
  let ?s = "\<lparr>sy_uid_next = Some (sv_next b), sy_modseq = Some (sv_modseq b), sy_messages = Some (length (sv_mail b))\<rparr>"
  let ?all = "map ms_uid (sv_mail b')"
  note d = mirroredD [OF m]
  have done_not: "\<not> pg_done (sync_progress st)" and val: "fs_validity f = sv_validity b" and w: "fs_walk f = Down ?s"
    and rem: "fs_remaining f = (case pg_lowest (sync_progress st) of Some l \<Rightarrow> filter (\<lambda>u. u < l) ?all | None \<Rightarrow> ?all)"
    and st: "stack f = []"
    using f by (auto simp: sync_open_def sync_of_def Let_def shown_def uid_listing_def rev_filter [symmetric] stack_def split: option.splits if_splits)
  have unasked: "unasked f = fs_remaining f" by (simp add: unasked_def w downward_def st)
  have asc: "sorted_wrt (<) ?all" using d(1) by (simp add: server_ok_def)
  then have "sorted_wrt (<) (unasked f)" unfolding unasked rem by (auto simp: sorted_wrt_filter split: option.split)
  moreover have "opening_fits b' ?s" using later by (simp add: opening_fits_def server_later_def)
  moreover have "\<forall>x\<in>set (sv_mail b'). ms_uid x < down_bound st ?s \<and> \<not> reached st (ms_uid x) \<longrightarrow> ms_uid x \<in> set (unasked f)"
    using done_not by (auto simp: unasked rem sync_progress_def down_bound_def reached_def split: option.splits)
  moreover have "case st_row st of None \<Rightarrow> True
      | Some r \<Rightarrow> if sr_done r then unasked f = [] else (\<forall>l. sr_lowest r = Some l \<longrightarrow> (\<forall>u\<in>set (unasked f). u < l))"
    using done_not by (auto simp: unasked rem sync_progress_def split: option.splits)
  ultimately show ?thesis
    using w val later st unfolding down_ok_def by (auto simp: walk_ok_def server_later_def)
qed

subsection \<open>New mail\<close>

definition up_ok :: "mail_server \<Rightarrow> folder_store \<Rightarrow> folder_sync \<Rightarrow> bool" where
  "up_ok b st f \<longleftrightarrow> walk_ok f \<and> fs_validity f = sv_validity b \<and> fs_walk f = Up \<and> sorted_wrt (<) (unasked f) \<and> fs_top f < sv_next b \<and>
     (\<forall>u\<in>set (unasked f). u \<le> fs_top f) \<and>
     (\<exists>r n. st_row st = Some r \<and> sr_done r \<and> sr_uid_next r = Some n \<and>
        (\<forall>m\<in>set (sv_mail b). n \<le> ms_uid m \<and> ms_uid m \<le> fs_top f \<longrightarrow> ms_uid m \<in> set (unasked f)))"

lemma up_okI:
  assumes "walk_ok f" "fs_validity f = sv_validity b" "fs_walk f = Up" "sorted_wrt (<) (unasked f)" "fs_top f < sv_next b"
    "\<forall>u\<in>set (unasked f). u \<le> fs_top f" "st_row st = Some r" "sr_done r" "sr_uid_next r = Some n"
    "\<And>m. m \<in> set (sv_mail b) \<Longrightarrow> n \<le> ms_uid m \<Longrightarrow> ms_uid m \<le> fs_top f \<Longrightarrow> ms_uid m \<in> set (unasked f)"
  shows "up_ok b st f"
  using assms unfolding up_ok_def by blast

lemma up_later:
  assumes "up_ok b st f" "server_later h b b'"
  shows "up_ok b' st f"
proof -
  obtain r n where r: "st_row st = Some r" "sr_done r" "sr_uid_next r = Some n"
      "\<forall>m\<in>set (sv_mail b). n \<le> ms_uid m \<and> ms_uid m \<le> fs_top f \<longrightarrow> ms_uid m \<in> set (unasked f)"
    using assms(1) unfolding up_ok_def by blast
  have "ms_uid m \<in> set (unasked f)" if m: "m \<in> set (sv_mail b')" "n \<le> ms_uid m" "ms_uid m \<le> fs_top f" for m
  proof -
    have "ms_uid m < sv_next b" using m(3) assms(1) by (simp add: up_ok_def)
    then obtain m0 where "m0 \<in> set (sv_mail b)" "ms_uid m0 = ms_uid m" using server_laterD [OF assms(2) m(1)] by blast
    then show ?thesis using r(4) m by metis
  qed
  then show ?thesis using assms r(1-3) unfolding up_ok_def server_later_def by auto
qed

lemma up_write:
  assumes m: "mirrored h b st" and ms: "set ms \<subseteq> set (sv_mail b)"
    and f: "fs_walk f = Up" "fs_validity f = sv_validity b" "walk_ok f" "fs_top f < sv_next b"
    and asc: "sorted_wrt (<) (uids @ unasked f)" and ne: "uids \<noteq> []" and top: "\<forall>u\<in>set (uids @ unasked f). u \<le> fs_top f"
    and row: "st_row st = Some r" "sr_done r" "sr_uid_next r = Some n"
    and ahead: "\<And>x. x \<in> set (sv_mail b) \<Longrightarrow> n \<le> ms_uid x \<Longrightarrow> ms_uid x \<le> fs_top f \<Longrightarrow> ms_uid x \<in> set (uids @ unasked f)"
    and got: "\<And>x. x \<in> set (sv_mail b) \<Longrightarrow> ms_uid x \<in> set uids \<Longrightarrow> x \<in> set ms \<or> h (ms_uid x)"
    and w: "walk_write f st ms (Some (lo, last uids)) = (step, st')"
  shows "mirrored h b st' \<and> up_ok b st' f"
proof -
  note d = mirroredD [OF m]
  have fits: "row_fits b r" using d(6) row(1) by blast
  have lu: "last uids \<le> fs_top f" using top last_in_set [OF ne] by simp
  then have cap: "min (Suc (last uids)) u32_max = Suc (last uids)" using f(4) d(1) by (simp add: server_ok_def)
  define r' where "r' = r\<lparr>sr_uid_next := Some (max n (last uids + 1)), sr_messages := map_option (\<lambda>k. k + min (length ms) u32_max) (sr_messages r)\<rparr>"
  have st': "st' = st\<lparr>st_mail := foldl write_email (st_mail st) (List.map_filter message_email ms), st_row := Some r'\<rparr>"
    using w d(2) row by (auto simp: walk_write_def f(1,2) Let_def apply_batch_def pinned_def save_progress_def r'_def cap simp del: min_def split: prod.splits)
  have fits': "row_fits b r'" using fits row(2,3) lu f(4) by (auto simp: row_fits_def r'_def)
  have below: "\<forall>u\<in>set uids. u \<le> last uids" and above: "\<forall>u\<in>set (unasked f). last uids < u"
    using asc ne ascending_bounds(2) [of uids] by (auto simp: sorted_wrt_append)
  have "mirrored h b st'"
  proof (rule mirrors_write [OF m ms fits' st'])
    show "known_modseq st' = known_modseq st \<or> st_mail st = []" by (simp add: known_modseq_def st' r'_def row(1))
    fix x assume x: "x \<in> set (sv_mail b)" "reached st' (ms_uid x)" "\<not> reached st (ms_uid x)"
    then have "n \<le> ms_uid x" "ms_uid x \<le> last uids" using row by (auto simp: reached_def st' r'_def)
    then have "ms_uid x \<in> set uids" using ahead [OF x(1)] lu above by fastforce
    then show "x \<in> set ms \<or> h (ms_uid x)" by (rule got [OF x(1)])
  qed
  moreover have "ms_uid x \<in> set (unasked f)" if "x \<in> set (sv_mail b)" "max n (last uids + 1) \<le> ms_uid x" "ms_uid x \<le> fs_top f" for x
    using ahead [OF that(1) _ that(3)] that(2) below by fastforce
  ultimately show ?thesis
    using f asc top row(2) unfolding up_ok_def by (auto simp: sorted_wrt_append st' r'_def)
qed

lemma up_batch:
  assumes m: "mirrored h b st" and f: "up_ok b st f" and fetch: "fetch_ok h b fetch" and b: "walk_batch f st fetch = (t, f', st')"
  shows "mirrored h b st' \<and> up_ok b st' f' \<and> fs_top f' = fs_top f \<and> (t = Stepped Done \<longrightarrow> unasked f' = []) \<and> t \<noteq> Stepped Stale"
proof -
  obtain r n where r: "st_row st = Some r" "sr_done r" "sr_uid_next r = Some n"
      "\<forall>m\<in>set (sv_mail b). n \<le> ms_uid m \<and> ms_uid m \<le> fs_top f \<longrightarrow> ms_uid m \<in> set (unasked f)"
    using f unfolding up_ok_def by blast
  have ok: "walk_ok f" "fs_validity f = sv_validity b" "fs_walk f = Up" "sorted_wrt (<) (unasked f)" "fs_top f < sv_next b"
      "\<forall>u\<in>set (unasked f). u \<le> fs_top f"
    using f by (simp_all add: up_ok_def)
  have up: "ahead f us rest = us @ rest" for us rest by (simp add: ahead_def ok(3) downward_def)
  have same: "fs_walk f' = Up" "fs_validity f' = sv_validity b" "fs_top f' = fs_top f" if "same_walk f f'"
    using that ok by (simp_all add: same_walk_def)
  have stands: "fst (walk_write f' st ms passed) \<noteq> Stale" if "fs_validity f' = sv_validity b" "fs_walk f' = Up" for ms passed
    using that mirroredD(2) [OF m] by (auto simp: walk_write_def apply_batch_def pinned_def Let_def split: option.split)
  show ?thesis
    using ok(1) b
  proof (cases rule: batch_cases)
    case (Idle step)
    then show ?thesis using m f ok(3) by (auto simp: walk_write_def)
  next
    case (Answer uids full ms step)
    have w: "unasked f = uids @ unasked f'" using Answer(2) by (simp add: up)
    note sm = same [OF Answer(8)]
    have asc': "sorted_wrt (<) (uids @ unasked f')" using ok(4) w by simp
    then have "sorted_wrt (<) uids" by (simp add: sorted_wrt_append)
    note got = fetched_in_range [OF fetch Answer(3)] ascending_bounds [OF this]
    have "mirrored h b st' \<and> up_ok b st' f'"
      by (rule up_write [OF m got(1) sm(1,2) Answer(6) _ asc' Answer(1) _ r(1-3) _ _ Answer(5)])
        (use ok(5,6) sm(3) w r(4) got(2-4) in auto)
    moreover have "step = Done \<longrightarrow> unasked f' = []" using write_steps(2) [OF Answer(6,7,5)] by simp
    moreover have "step \<noteq> Stale" using stands [OF sm(2,1), of ms "Some (hd uids, last uids)"] Answer(5) by simp
    ultimately show ?thesis using Answer(4) sm(3) by simp
  next
    case (Skip u)
    have w: "unasked f = [u] @ unasked f'" using Skip(1) by (simp add: up)
    note sm = same [OF Skip(7)]
    have asc': "sorted_wrt (<) ([u] @ unasked f')" using ok(4) w by simp
    have "h u" using fetch_okD(2) [OF fetch Skip(2)] .
    obtain step where wr: "walk_write f' st [] (Some (u, last [u])) = (step, st')" using Skip(4) by (cases "walk_write f' st [] (Some (u, u))") simp
    have "mirrored h b st' \<and> up_ok b st' f'"
      by (rule up_write [OF m _ sm(1,2) Skip(5) _ asc' _ _ r(1-3) _ _ wr])
        (use ok(5,6) sm(3) w r(4) \<open>h u\<close> in auto)
    then show ?thesis using Skip(3) sm(3) by simp
  next
    case (Stay uids full)
    then have "up_ok b st f'"
      using f same [OF Stay(6)] unfolding up_ok_def Stay(2) by simp
    then show ?thesis using m Stay(3,4) same(3) [OF Stay(6)] by auto
  qed
qed

text \<open>A walk downward that is over stays over, whatever the refreshes write.\<close>

definition row_done :: "folder_store \<Rightarrow> bool" where
  "row_done st = (case st_row st of None \<Rightarrow> False | Some r \<Rightarrow> sr_done r)"

lemma down_idle:
  assumes "down_ok b st f" "mirrored h b st" "row_done st" "server_later h b b'" "mirrored h b' st'" "row_done st'"
  shows "down_ok b' st' f"
proof -
  have "unasked f = []" using assms(1,3) by (auto simp: down_ok_def row_done_def split: option.splits)
  moreover have "reached st' u" if "u < down_bound st' s" for s u
    using that assms(6) by (auto simp: reached_def down_bound_def row_done_def split: option.splits)
  ultimately show ?thesis
    using down_later [OF assms(1,2,4)] assms(6) unfolding down_ok_def row_done_def by (auto split: option.splits)
qed

text \<open>The fetches of a walk, each met by the server as it is then.\<close>

inductive stream_ok :: "(nat \<Rightarrow> bool) \<Rightarrow> mail_server \<Rightarrow> fetch list \<Rightarrow> mail_server \<Rightarrow> bool" for h where
  stream_end: "stream_ok h b [] b"
| stream_fetch: "server_later h b b1 \<Longrightarrow> fetch_ok h b1 fetch \<Longrightarrow> stream_ok h b1 fetches b' \<Longrightarrow> stream_ok h b (fetch # fetches) b'"

inductive_cases stream_endE: "stream_ok h b [] b'"
inductive_cases stream_fetchE: "stream_ok h b (fetch # fetches) b'"

lemma stream_later: "stream_ok h b fetches b' \<Longrightarrow> server_ok b \<Longrightarrow> server_later h b b'"
  by (induction rule: stream_ok.induct) (blast intro: server_later_refl server_later_trans server_later_ok)+

lemma up_finish:
  assumes "mirrored h b st" "up_ok b st f" "stream_ok h b fetches b'" "walk_finish f st fetches = (t, f', st')"
  shows "mirrored h b' st' \<and> up_ok b' st' f' \<and> fs_top f' = fs_top f \<and> (t = Stepped Done \<longrightarrow> unasked f' = []) \<and>
    t \<noteq> Stepped Stale \<and> t \<noteq> Stepped More"
  using assms
proof (induction fetches arbitrary: b st f)
  case Nil
  then show ?case by (auto elim: stream_endE)
next
  case (Cons fetch fetches)
  obtain b1 where b1: "server_later h b b1" "fetch_ok h b1 fetch" "stream_ok h b1 fetches b'" using Cons.prems(3) by (elim stream_fetchE)
  obtain t1 f1 st1 where w: "walk_batch f st fetch = (t1, f1, st1)" by (metis prod_cases3)
  have step: "mirrored h b1 st1 \<and> up_ok b1 st1 f1 \<and> fs_top f1 = fs_top f \<and> (t1 = Stepped Done \<longrightarrow> unasked f1 = []) \<and> t1 \<noteq> Stepped Stale"
    by (rule up_batch [OF mirrors_later [OF Cons.prems(1) b1(1)] up_later [OF Cons.prems(2) b1(1)] b1(2) w])
  have rest: "server_later h b1 b'" using stream_later [OF b1(3)] b1(1) server_later_ok by blast
  show ?case
  proof (cases "t1 = Stepped More")
    case True
    then show ?thesis using Cons.IH [OF _ _ b1(3), of st1 f1] step Cons.prems(4) by (simp add: w)
  next
    case False
    then have "t = t1" "f' = f1" "st' = st1" using Cons.prems(4) by (auto simp: w split: turn.splits walk_step.splits)
    then show ?thesis using step False mirrors_later [OF _ rest] up_later [OF _ rest] by blast
  qed
qed

text \<open>Where a walk upward opens or widens.\<close>

definition row_serves :: "mailbox_row \<Rightarrow> nat \<Rightarrow> bool" where
  "row_serves row v \<longleftrightarrow> uid_validity (facts row) = Some v \<and> selectable (facts row) \<and> store (facts row)"

lemma opened_up:
  assumes m: "mirrored h b st" and row: "row_serves row (sv_validity b)"
    and r: "st_row st = Some r" "sr_done r" "sr_uid_next r = Some n" and through: "through < sv_next b"
    and listed: "through - max n 1 \<ge> REFRESH_GAP \<Longrightarrow> listed = uid_listing b"
  shows "case sync_above row (n, through) gm listed of None \<Rightarrow> through < max n 1 | Some f \<Rightarrow> up_ok b st f \<and> fs_top f = through"
proof -
  let ?wait = "if through - max n 1 < REFRESH_GAP then [max n 1..<Suc through] else filter (\<lambda>u. max n 1 \<le> u \<and> u \<le> through) (map ms_uid (sv_mail b))"
  have ok: "server_ok b" by (rule mirroredD(1) [OF m])
  have asc: "sorted_wrt (<) ?wait" using ok by (simp add: server_ok_def sorted_wrt_filter del: upt_Suc)
  have top: "\<forall>u\<in>set ?wait. u \<le> through" by auto
  have all: "ms_uid x \<in> set ?wait" if "x \<in> set (sv_mail b)" "n \<le> ms_uid x" "ms_uid x \<le> through" for x
    using that ok by (force simp: server_ok_def)
  have "up_ok b st f \<and> fs_top f = through" if f: "sync_above row (n, through) gm listed = Some f" for f
  proof -
    have fields: "fs_walk f = Up" "fs_validity f = sv_validity b" "fs_top f = through" "stack f = []" "fs_remaining f = rev ?wait"
      using f row listed
      by (auto simp: sync_above_def sync_of_def Let_def row_serves_def stack_def uid_listing_def rev_filter [symmetric] simp del: upt_Suc
        split: option.splits if_splits)
    have "unasked f = ?wait" by (simp add: unasked_def fields downward_def del: upt_Suc)
    moreover have "up_ok b st f"
    proof (rule up_okI [OF _ fields(2,1) _ _ _ r])
      show "walk_ok f" by (simp add: walk_ok_def fields(4))
      show "fs_top f < sv_next b" using through fields(3) by simp
      show "sorted_wrt (<) (unasked f)" using asc calculation by simp
      show "\<forall>u\<in>set (unasked f). u \<le> fs_top f" unfolding calculation fields(3) by (rule top)
      show "ms_uid m \<in> set (unasked f)" if "m \<in> set (sv_mail b)" "n \<le> ms_uid m" "ms_uid m \<le> fs_top f" for m
        unfolding calculation using all that fields(3) by metis
    qed
    ultimately show ?thesis using fields(3) by blast
  qed
  moreover have "through < max n 1" if "sync_above row (n, through) gm listed = None"
    using that row by (auto simp: sync_above_def sync_of_def Let_def row_serves_def split: if_splits)
  ultimately show ?thesis by (cases "sync_above row (n, through) gm listed") auto
qed

lemma widened_up:
  assumes f: "up_ok b st f" and through: "through < sv_next b" and w: "extend_to f through = (True, f')"
  shows "up_ok b st f' \<and> through \<le> fs_top f'"
proof (cases "through \<le> fs_top f")
  case True
  then show ?thesis using f w by (simp add: extend_to_def)
next
  case False
  let ?more = "[Suc (fs_top f)..<Suc through]"
  have f': "f' = f\<lparr>fs_remaining := rev ?more @ fs_remaining f, fs_top := through\<rparr>"
    using f w False by (auto simp: extend_to_def up_ok_def simp del: upt_Suc split: if_splits)
  have wait: "unasked f' = unasked f @ ?more"
    using f by (simp add: f' unasked_def up_ok_def downward_def stack_def del: upt_Suc)
  obtain r n where r: "st_row st = Some r" "sr_done r" "sr_uid_next r = Some n"
      "\<forall>m\<in>set (sv_mail b). n \<le> ms_uid m \<and> ms_uid m \<le> fs_top f \<longrightarrow> ms_uid m \<in> set (unasked f)"
    using f unfolding up_ok_def by blast
  have asc: "sorted_wrt (<) (unasked f')" using f unfolding wait by (fastforce simp: up_ok_def sorted_wrt_append simp del: upt_Suc)
  have top: "\<forall>u\<in>set (unasked f'). u \<le> through" using f False unfolding wait by (auto simp: up_ok_def)
  have all: "ms_uid x \<in> set (unasked f')" if "x \<in> set (sv_mail b)" "n \<le> ms_uid x" "ms_uid x \<le> through" for x
    using r(4) that unfolding wait by (cases "ms_uid x \<le> fs_top f") auto
  have fields: "walk_ok f'" "fs_validity f' = sv_validity b" "fs_walk f' = Up" "fs_top f' = through"
    using f by (simp_all add: f' up_ok_def walk_ok_def stack_def)
  have "up_ok b st f'"
    by (rule up_okI [OF fields(1-3) asc _ _ r(1-3)]) (use fields(4) through top all in simp_all)
  then show ?thesis using fields(4) by simp
qed

end
