(* ===== verification/Refresh_Mirror.thy ===== *)
theory Refresh_Mirror
  imports Sync_Mirror
begin

text \<open>
  What a refresh of a folder that is done leaves of the mirror: the new mail, the flags, the messages that
  left and the values it records, each command met by the server as it is then.
\<close>

subsection \<open>New mail\<close>

lemma done_row:
  assumes "mirrored h b st" "row_done st"
  obtains r n q where "st_row st = Some r" "sr_done r" "sr_uid_next r = Some n" "n \<le> sv_next b" "sr_modseq r = Some q" "q \<le> sv_modseq b"
    "sr_messages r \<noteq> None" "reached st = (\<lambda>u. u < n)" "known_modseq st = q"
    "pg_synced (sync_progress st) = \<lparr>sy_uid_next = Some n, sy_modseq = Some q, sy_messages = sr_messages r\<rparr>"
proof -
  obtain r where r: "st_row st = Some r" "sr_done r" using assms(2) by (auto simp: row_done_def split: option.splits)
  have "row_fits b r" using mirroredD(6) [OF assms(1) r(1)] .
  then obtain n q where "sr_uid_next r = Some n" "n \<le> sv_next b" "sr_modseq r = Some q" "q \<le> sv_modseq b" "sr_messages r \<noteq> None"
    by (auto simp: row_fits_def)
  then show thesis
    by (intro that [OF r]) (auto simp: reached_def [abs_def] known_modseq_def sync_progress_def r)
qed

definition pending_ok :: "mail_server \<Rightarrow> refreshing \<Rightarrow> bool" where
  "pending_ok b s = (case rf_pending s of None \<Rightarrow> True | Some f \<Rightarrow> up_ok b (rf_store s) f)"

lemma up_done: "up_ok b st f \<Longrightarrow> row_done st"
  by (auto simp: up_ok_def row_done_def)

text \<open>A walk that ends has asked for everything up to its top.\<close>

lemma ran_above:
  assumes "mirrored h b (rf_store s)" "up_ok b (rf_store s) f" "stream_ok h b fetches b'" "run_above f fetches s = (r, s')"
  shows "mirrored h b' (rf_store s') \<and> row_done (rf_store s') \<and> pending_ok b' s' \<and> rf_scanned s' = rf_scanned s \<and> r \<noteq> Inr None \<and>
    (r = Inr (Some k) \<longrightarrow> rf_pending s' = None \<and> (\<forall>m\<in>set (sv_mail b'). ms_uid m \<le> fs_top f \<longrightarrow> reached (rf_store s') (ms_uid m)))"
proof -
  obtain t f' st where w: "walk_finish f (rf_store s) fetches = (t, f', st)" by (metis prod_cases3)
  note fin = up_finish [OF assms(1-3) w]
  have asked: "reached st (ms_uid m)" if "unasked f' = []" "m \<in> set (sv_mail b')" "ms_uid m \<le> fs_top f" for m
  proof -
    obtain r n where r: "st_row st = Some r" "sr_done r" "sr_uid_next r = Some n"
        "\<forall>m\<in>set (sv_mail b'). n \<le> ms_uid m \<and> ms_uid m \<le> fs_top f' \<longrightarrow> ms_uid m \<in> set (unasked f')"
      using fin unfolding up_ok_def by blast
    then show ?thesis using that fin by (fastforce simp: reached_def)
  qed
  have done_st: "row_done st" using fin up_done by blast
  show ?thesis
  proof (cases t)
    case (Stepped step)
    then have "step = Done" using fin by (cases step) auto
    then show ?thesis using assms(4) Stepped fin done_st asked by (auto simp: run_above_def w pending_ok_def)
  qed (use assms(4) fin done_st in \<open>auto simp: run_above_def w pending_ok_def\<close>)
qed

text \<open>New mail leaves the recorded mod-sequence alone.\<close>

definition upward :: "folder_sync \<Rightarrow> bool" where
  "upward f \<longleftrightarrow> walk_ok f \<and> fs_walk f = Up"

lemma upward_write: "fs_walk f = Up \<Longrightarrow> walk_write f st ms passed = (step, st') \<Longrightarrow> known_modseq st' = known_modseq st"
  by (auto simp: walk_write_def apply_batch_def pinned_def save_progress_def known_modseq_def Let_def
    split: option.splits if_splits)

lemma upward_batch:
  assumes "upward f" "walk_batch f st fetch = (t, f', st')"
  shows "upward f' \<and> known_modseq st' = known_modseq st"
proof -
  have f: "walk_ok f" "fs_walk f = Up" using assms(1) by (simp_all add: upward_def)
  show ?thesis
    using f(1) assms(2)
  proof (cases rule: batch_cases)
    case (Idle step)
    then show ?thesis using f upward_write by (simp add: upward_def)
  next
    case (Answer uids full ms step)
    then show ?thesis using f upward_write by (auto simp: upward_def same_walk_def)
  next
    case (Skip u)
    then have "fs_walk f' = Up" using f by (simp add: same_walk_def)
    then have "known_modseq (snd (walk_write f' st [] (Some (u, u)))) = known_modseq st"
      using upward_write [of f' st "[]" "Some (u, u)"] by (metis surj_pair snd_conv)
    then show ?thesis using Skip \<open>fs_walk f' = Up\<close> by (simp add: upward_def)
  next
    case (Stay uids full)
    then show ?thesis using f by (simp add: upward_def same_walk_def)
  qed
qed

lemma upward_finish: "upward f \<Longrightarrow> walk_finish f st fetches = (t, f', st') \<Longrightarrow> known_modseq st' = known_modseq st"
proof (induction fetches arbitrary: f st)
  case (Cons fetch fetches)
  obtain t1 f1 st1 where w: "walk_batch f st fetch = (t1, f1, st1)" by (metis prod_cases3)
  note one = upward_batch [OF Cons.prems(1) w]
  show ?case
  proof (cases "t1 = Stepped More")
    case True
    then show ?thesis using Cons.IH [of f1 st1] one Cons.prems(2) by (simp add: w)
  next
    case False
    then have "st' = st1" using Cons.prems(2) by (auto simp: w split: turn.splits walk_step.splits)
    then show ?thesis using one by simp
  qed
qed simp

lemma upward_run:
  assumes "upward f" "run_above f fetches s = (r, s')"
  shows "known_modseq (rf_store s') = known_modseq (rf_store s)"
proof -
  obtain t f' st where w: "walk_finish f (rf_store s) fetches = (t, f', st)" by (metis prod_cases3)
  show ?thesis using upward_finish [OF assms(1) w] assms(2) by (auto simp: run_above_def w split: turn.splits walk_step.splits)
qed

lemma upward_opened: "sync_above row span gm listed = Some f \<Longrightarrow> upward f"
  by (auto simp: sync_above_def sync_of_def upward_def walk_ok_def stack_def Let_def split: prod.splits option.splits if_splits)

lemma upward_extended: "upward f \<Longrightarrow> upward (snd (extend_to f through))"
  by (auto simp: extend_to_def upward_def walk_ok_def stack_def)

lemma new_mail_modseq:
  assumes pend: "pending_ok b s" and run: "new_mail row p server_next ca s = (r, s')"
  shows "known_modseq (rf_store s') = known_modseq (rf_store s)"
proof (cases "server_next = 0")
  case False
  let ?kept = "case rf_pending s of None \<Rightarrow> None | Some f \<Rightarrow> (case extend_to f (server_next - 1) of (wide, f) \<Rightarrow> if wide then Some f else None)"
  note run = run [unfolded new_mail_def Let_def if_not_P [OF False]]
  show ?thesis
  proof (cases ?kept)
    case (Some f)
    obtain f0 where f0: "rf_pending s = Some f0" "f = snd (extend_to f0 (server_next - 1))"
      using Some by (auto split: option.splits prod.splits if_splits)
    have "upward f0" using pend f0(1) by (auto simp: pending_ok_def up_ok_def upward_def)
    then show ?thesis using upward_run [OF upward_extended] run Some f0(2) by fastforce
  next
    case None
    note run = run [unfolded None option.case]
    show ?thesis
    proof (cases "opened_above row p (server_next - 1) ca (rf_store s)")
      case (Inr opened)
      then have "upward f" if "opened = Some f" for f
        using that upward_opened by (auto simp: opened_above_def Let_def split: if_splits reply.splits)
      then show ?thesis using run Inr upward_run by (cases opened) fastforce+
    qed (use run in auto)
  qed
qed (use run in \<open>simp add: new_mail_def\<close>)

lemma new_mail_mirrors:
  assumes m: "mirrored h b (rf_store s)" and d: "row_done (rf_store s)" and pend: "pending_ok b s"
    and row: "row_serves row (sv_validity b)" and limit: "server_next \<le> sv_next b"
    and listed: "\<And>l. ca_list ca = Reply l \<Longrightarrow> l = uid_listing b" and stream: "stream_ok h b (ca_fetches ca) b'"
    and run: "new_mail row (sync_progress (rf_store s)) server_next ca s = (r, s')"
  shows "mirrored h b' (rf_store s') \<and> row_done (rf_store s') \<and> pending_ok b' s' \<and> rf_scanned s' = rf_scanned s \<and> r \<noteq> Inr None \<and>
    (r = Inr (Some k) \<longrightarrow> (0 < server_next \<longrightarrow> rf_pending s' = None) \<and>
       (\<forall>m\<in>set (sv_mail b'). ms_uid m < server_next \<longrightarrow> reached (rf_store s') (ms_uid m)))"
proof -
  obtain r0 n where r0: "st_row (rf_store s) = Some r0" "sr_done r0" "sr_uid_next r0 = Some n"
      "reached (rf_store s) = (\<lambda>u. u < n)" "sy_uid_next (pg_synced (sync_progress (rf_store s))) = Some n"
    using done_row [OF m d] by (metis synced.select_convs(1))
  have later: "server_later h b b'" using stream_later [OF stream mirroredD(1) [OF m]] .
  note m' = mirrors_later [OF m later]
  have none: "mirrored h b' (rf_store s') \<and> row_done (rf_store s') \<and> pending_ok b' s' \<and> rf_scanned s' = rf_scanned s"
    if "s' = s\<lparr>rf_pending := None\<rparr>"
    using that m' d by (simp add: pending_ok_def)
  show ?thesis
  proof (cases "server_next = 0")
    case True
    then have "s' = s" "r = Inr (Some 0)" using run by (simp_all add: new_mail_def)
    moreover have "pending_ok b' s" using pend up_later [OF _ later] by (auto simp: pending_ok_def split: option.splits)
    ultimately show ?thesis using m' d True by simp
  next
    case False
    let ?through = "server_next - 1" and ?s = "s\<lparr>rf_pending := None\<rparr>"
    have through: "?through < sv_next b" using False limit by simp
    let ?kept = "case rf_pending s of None \<Rightarrow> None | Some f \<Rightarrow> (case extend_to f ?through of (wide, f) \<Rightarrow> if wide then Some f else None)"
    have ms: "mirrored h b (rf_store ?s)" using m by simp
    show ?thesis
    proof (cases ?kept)
      case (Some f)
      obtain f0 where f0: "rf_pending s = Some f0" "extend_to f0 ?through = (True, f)"
        using Some by (auto split: option.splits prod.splits if_splits)
      have "up_ok b (rf_store s) f \<and> ?through \<le> fs_top f"
        using pend f0 by (intro widened_up [OF _ through f0(2)]) (simp add: pending_ok_def)
      then have f: "up_ok b (rf_store ?s) f" "?through \<le> fs_top f" by simp_all
      have "run_above f (ca_fetches ca) ?s = (r, s')" using run unfolding new_mail_def Let_def Some if_not_P [OF False] by simp
      from ran_above [OF ms f(1) stream this, of k] show ?thesis using f(2) by fastforce
    next
      case None
      note run2 = run [unfolded new_mail_def Let_def None if_not_P [OF False]]
      show ?thesis
      proof (cases "opened_above row (sync_progress (rf_store s)) ?through ca (rf_store s)")
        case (Inl e)
        then show ?thesis using run2 none by auto
      next
        case (Inr opened)
        have serves: "sync_of row Up \<noteq> None" using row by (auto simp: sync_of_def row_serves_def)
        obtain l where l: "opened = sync_above row (n, ?through) False l" "?through - max n 1 \<ge> REFRESH_GAP \<Longrightarrow> l = uid_listing b"
        proof (cases "max n 1 \<le> ?through \<and> ?through - max n 1 \<ge> REFRESH_GAP")
          case True
          then show thesis using Inr that listed serves by (auto simp: opened_above_def r0(5) split: reply.splits)
        next
          case False
          then show thesis using Inr that serves by (auto simp: opened_above_def r0(5) REFRESH_GAP_def)
        qed
        have up: "case opened of None \<Rightarrow> ?through < max n 1 | Some f \<Rightarrow> up_ok b (rf_store s) f \<and> fs_top f = ?through"
          unfolding l(1) by (rule opened_up [OF m row r0(1-3) through l(2)])
        show ?thesis
        proof (cases opened)
          case None
          have "ms_uid x < n" if "x \<in> set (sv_mail b')" "ms_uid x < server_next" for x
            using up None that mirroredD(1) [OF m'] False by (force simp: server_ok_def)
          then show ?thesis using run2 Inr None none r0(4) by auto
        next
          case (Some f)
          then have f: "up_ok b (rf_store ?s) f" "fs_top f = ?through" using up by simp_all
          have "run_above f (ca_fetches ca) ?s = (r, s')" using run2 Inr Some by simp
          from ran_above [OF ms f(1) stream this, of k] show ?thesis using f(2) by fastforce
        qed
      qed
    qed
  qed
qed

subsection \<open>Flags\<close>

text \<open>A row is current for a mod-sequence when its message, unless deleted, has its keywords or a later change.\<close>

definition current :: "nat \<Rightarrow> mail_server \<Rightarrow> email_row \<Rightarrow> bool" where
  "current q b e \<longleftrightarrow>
     (\<forall>m\<in>set (sv_mail b). ms_uid m = er_uid e \<and> \<not> is_deleted (ms_flags m) \<longrightarrow> er_keywords e = message_keywords m \<or> q < ms_modseq m)"

lemma fresh_current: "fresh_to q b rows \<longleftrightarrow> (\<forall>e\<in>set rows. current q b e)"
  by (simp add: fresh_to_def current_def)

definition deleted_uids :: "message list \<Rightarrow> nat list" where
  "deleted_uids ms = map ms_uid (filter (\<lambda>m. is_deleted (ms_flags m)) ms)"

definition flag_changes :: "message list \<Rightarrow> (nat \<times> (string, bool) bt) list" where
  "flag_changes ms = map (\<lambda>m. (ms_uid m, message_keywords m)) (filter (\<lambda>m. \<not> is_deleted (ms_flags m)) ms)"

lemma flagged_rows:
  assumes "st_validity st = Some (Some v)"
  shows "apply_flagged st v ms =
    st\<lparr>st_mail := foldl rekeyed (foldl (\<lambda>rows u. filter (\<lambda>e. er_uid e \<noteq> u) rows) (st_mail st) (deleted_uids ms)) (flag_changes ms)\<rparr>"
  unfolding apply_flagged_def Let_def
  by (simp add: remove_chunks [OF assms] flag_chunks chunks_concat assms deleted_uids_def flag_changes_def message_keywords_def)

lemma flagged_row:
  assumes "st_validity st = Some (Some v)" "e \<in> set (st_mail (apply_flagged st v ms))"
  shows "\<exists>e0\<in>set (st_mail st). er_uid e0 = er_uid e \<and> er_uid e \<notin> set (deleted_uids ms) \<and>
    (e = e0 \<or> (\<exists>m\<in>set ms. ms_uid m = er_uid e \<and> er_keywords e = message_keywords m))"
    "m \<in> set ms \<Longrightarrow> \<not> is_deleted (ms_flags m) \<Longrightarrow> ms_uid m = er_uid e \<Longrightarrow>
     \<exists>m'\<in>set ms. ms_uid m' = er_uid e \<and> er_keywords e = message_keywords m'"
proof -
  have e: "e \<in> set (foldl rekeyed (foldl (\<lambda>rows u. filter (\<lambda>e. er_uid e \<noteq> u) rows) (st_mail st) (deleted_uids ms)) (flag_changes ms))"
    using assms(2) unfolding flagged_rows [OF assms(1)] by simp
  note rows = rekeyed_rows(2) [OF e]
  have changed: "\<exists>m'\<in>set ms. ms_uid m' = er_uid e \<and> er_keywords e = message_keywords m'" if "er_uid e \<in> fst ` set (flag_changes ms)"
    using rows that by (auto simp: flag_changes_def)
  show "\<exists>m'\<in>set ms. ms_uid m' = er_uid e \<and> er_keywords e = message_keywords m'"
    if "m \<in> set ms" "\<not> is_deleted (ms_flags m)" "ms_uid m = er_uid e"
  proof (rule changed)
    have "(ms_uid m, message_keywords m) \<in> set (flag_changes ms)" using that(1,2) by (auto simp: flag_changes_def)
    then show "er_uid e \<in> fst ` set (flag_changes ms)" using that(3) by (metis fst_conv image_eqI)
  qed
  show "\<exists>e0\<in>set (st_mail st). er_uid e0 = er_uid e \<and> er_uid e \<notin> set (deleted_uids ms) \<and>
    (e = e0 \<or> (\<exists>m\<in>set ms. ms_uid m = er_uid e \<and> er_keywords e = message_keywords m))"
  proof -
    obtain e0 where "e0 \<in> {e \<in> set (st_mail st). er_uid e \<notin> set (deleted_uids ms)}" and e0: "er_uid e0 = er_uid e"
        "er_uid e \<notin> fst ` set (flag_changes ms) \<longrightarrow> e = e0"
      using rows unfolding removed_rows(1) by blast
    then have "e0 \<in> set (st_mail st)" "er_uid e \<notin> set (deleted_uids ms)" by auto
    then show ?thesis using e0 changed by (intro bexI [of _ e0]) auto
  qed
qed

lemma flagged_uids:
  assumes "st_validity st = Some (Some v)"
  shows "er_uid ` set (st_mail (apply_flagged st v ms)) = er_uid ` set (st_mail st) - set (deleted_uids ms)"
    "distinct (map er_uid (st_mail st)) \<Longrightarrow> distinct (map er_uid (st_mail (apply_flagged st v ms)))"
proof -
  have "er_uid ` set (foldl rekeyed rows cs) = er_uid ` set rows" for rows cs
    using arg_cong [OF rekeyed_rows(1) [of rows cs], of set] by simp
  then show "er_uid ` set (st_mail (apply_flagged st v ms)) = er_uid ` set (st_mail st) - set (deleted_uids ms)"
    by (auto simp: flagged_rows [OF assms] removed_rows(1))
  show "distinct (map er_uid (st_mail st)) \<Longrightarrow> distinct (map er_uid (st_mail (apply_flagged st v ms)))"
    by (simp add: flagged_rows [OF assms] rekeyed_rows(1) removed_rows(2))
qed

text \<open>One answer of flags, given by a server the store has met, and the server later.\<close>

lemma flagged_mirrors:
  assumes m: "mirrored h b st" and later: "server_later h a b" and ok: "server_ok a" and ms: "set ms \<subseteq> set (sv_mail a)"
    and known: "known_modseq st \<le> sv_modseq a" and met: "\<forall>e\<in>set (st_mail st). er_uid e < sv_next a" and q: "q \<le> sv_modseq a"
  shows "mirrored h b (apply_flagged st (sv_validity b) ms)"
    "st_row (apply_flagged st (sv_validity b) ms) = st_row st"
    "e \<in> set (st_mail (apply_flagged st (sv_validity b) ms)) \<Longrightarrow>
       \<exists>e0\<in>set (st_mail st). er_uid e0 = er_uid e \<and> (current q b e0 \<longrightarrow> current q b e) \<and>
         ((\<forall>y\<in>set (sv_mail a). ms_uid y = er_uid e \<longrightarrow> y \<in> set ms) \<longrightarrow> current q b e)"
proof -
  let ?st = "apply_flagged st (sv_validity b) ms"
  note d = mirroredD [OF m]
  note row = flagged_row [OF d(2), of _ ms]
  show same: "st_row ?st = st_row st" by (simp add: flagged_rows [OF d(2)])
  have here: "\<exists>m0\<in>set (sv_mail a). ms_uid m0 = ms_uid x \<and> (is_deleted (ms_flags m0) \<and> \<not> h (ms_uid x) \<longrightarrow> is_deleted (ms_flags x)) \<and> (x = m0 \<or> sv_modseq a < ms_modseq x)"
    if "x \<in> set (sv_mail b)" "ms_uid x < sv_next a" for x
    by (rule server_laterD [OF later that])
  have told: "current q' b e" if e: "y \<in> set ms" "ms_uid y = er_uid e" "er_keywords e = message_keywords y" and "q' \<le> sv_modseq a" for q' y e
    unfolding current_def
  proof (intro ballI impI, elim conjE)
    fix x assume x: "x \<in> set (sv_mail b)" "ms_uid x = er_uid e" "\<not> is_deleted (ms_flags x)"
    have ya: "y \<in> set (sv_mail a)" using e(1) ms by blast
    then have "ms_uid x < sv_next a" using ok e(2) x(2) by (auto simp: server_ok_def)
    then obtain m0 where m0: "m0 \<in> set (sv_mail a)" "ms_uid m0 = ms_uid x" "x = m0 \<or> sv_modseq a < ms_modseq x"
      using here [OF x(1)] by blast
    have "m0 = y" using same_message [OF ok m0(1) ya] m0(2) e(2) x(2) by simp
    then show "er_keywords e = message_keywords x \<or> q' < ms_modseq x" using m0(3) e(3) \<open>q' \<le> sv_modseq a\<close> by auto
  qed
  have keeps: "current q' b e" if "e \<in> set (st_mail ?st)" "\<forall>e0\<in>set (st_mail st). er_uid e0 = er_uid e \<longrightarrow> current q' b e0" "q' \<le> sv_modseq a" for q' e
    using row(1) [OF that(1)] told [OF _ _ _ that(3)] that(2) by blast
  show "mirrored h b ?st"
    unfolding mirrored_def
  proof (intro conjI)
    show "complete_for h b (reached ?st) (st_mail ?st)"
      unfolding complete_for_def
    proof (intro ballI impI, elim conjE)
      fix x assume x: "x \<in> set (sv_mail b)" "reached ?st (ms_uid x)" "\<not> is_deleted (ms_flags x)" "\<not> h (ms_uid x)"
      then have stored: "ms_uid x \<in> er_uid ` set (st_mail st)" using d(7) same unfolding complete_for_def reached_def by auto
      have "ms_uid x \<notin> set (deleted_uids ms)"
      proof
        assume "ms_uid x \<in> set (deleted_uids ms)"
        then obtain y where y: "y \<in> set ms" "is_deleted (ms_flags y)" "ms_uid y = ms_uid x" by (auto simp: deleted_uids_def)
        then have ya: "y \<in> set (sv_mail a)" using ms by blast
        then have "ms_uid x < sv_next a" using ok y(3) by (auto simp: server_ok_def)
        then obtain m0 where "m0 \<in> set (sv_mail a)" "ms_uid m0 = ms_uid x" "is_deleted (ms_flags m0) \<and> \<not> h (ms_uid x) \<longrightarrow> is_deleted (ms_flags x)"
          using here [OF x(1)] by blast
        then show False using same_message [OF ok _ ya] y(2,3) x(3,4) by auto
      qed
      then show "ms_uid x \<in> er_uid ` set (st_mail ?st)" using stored by (simp add: flagged_uids(1) [OF d(2)])
    qed
    have "known_modseq ?st = known_modseq st" by (simp add: known_modseq_def same)
    then show "fresh_to (known_modseq ?st) b (st_mail ?st)"
      using keeps [OF _ _ known] d(8) unfolding fresh_current by auto
    show "case st_row ?st of None \<Rightarrow> st_mail ?st = [] | Some r \<Rightarrow> row_fits b r"
      using d(5,6) flagged_uids(1) [OF d(2), of ms] by (auto simp: same split: option.split)
    show "\<forall>e\<in>set (st_mail ?st). er_uid e < sv_next b" using d(4) row(1) by fastforce
  qed (use d flagged_uids(2) [OF d(2,3)] in \<open>simp_all add: flagged_rows [OF d(2)]\<close>)
  assume e: "e \<in> set (st_mail ?st)"
  obtain e0 where e0: "e0 \<in> set (st_mail st)" "er_uid e0 = er_uid e" "er_uid e \<notin> set (deleted_uids ms)"
      "e = e0 \<or> (\<exists>y\<in>set ms. ms_uid y = er_uid e \<and> er_keywords e = message_keywords y)"
    using row(1) [OF e] by blast
  have all: "current q b e" if listed: "\<forall>y\<in>set (sv_mail a). ms_uid y = er_uid e \<longrightarrow> y \<in> set ms"
    unfolding current_def
  proof (intro ballI impI, elim conjE)
    fix x assume x: "x \<in> set (sv_mail b)" "ms_uid x = er_uid e" "\<not> is_deleted (ms_flags x)"
    have "ms_uid x < sv_next a" using bspec [OF met e0(1)] e0(2) x(2) by simp
    then obtain m0 where m0: "m0 \<in> set (sv_mail a)" "ms_uid m0 = ms_uid x" "x = m0 \<or> sv_modseq a < ms_modseq x"
      using here [OF x(1)] by blast
    show "er_keywords e = message_keywords x \<or> q < ms_modseq x"
    proof (cases "x = m0")
      case True
      then have "m0 \<in> set ms" "\<not> is_deleted (ms_flags m0)" using listed m0(1) x(2,3) by auto
      then obtain y where "y \<in> set ms" "ms_uid y = er_uid e" "er_keywords e = message_keywords y"
        using row(2) [OF e] m0(2) x(2) by metis
      then show ?thesis using told [OF _ _ _ q] x unfolding current_def by blast
    qed (use m0(3) q in auto)
  qed
  show "\<exists>e0\<in>set (st_mail st). er_uid e0 = er_uid e \<and> (current q b e0 \<longrightarrow> current q b e) \<and>
         ((\<forall>y\<in>set (sv_mail a). ms_uid y = er_uid e \<longrightarrow> y \<in> set ms) \<longrightarrow> current q b e)"
    using e0 all told [OF _ _ _ q] by (intro bexI [of _ e0]) auto
qed

text \<open>What the server answers to the two flag fetches, at some time between two of its states.\<close>

fun asked_flags :: "flag_fetch \<Rightarrow> message \<Rightarrow> bool" where
  "asked_flags (ChangedSince q) m = (q < ms_modseq m)"
| "asked_flags (Flag_Range low high) m = (low \<le> ms_uid m \<and> ms_uid m \<le> high)"

definition flags_ok :: "(nat \<Rightarrow> bool) \<Rightarrow> mail_server \<Rightarrow> mail_server \<Rightarrow> (flag_fetch \<Rightarrow> message list reply) \<Rightarrow> bool" where
  "flags_ok h a b ask \<longleftrightarrow>
     (\<forall>fetch ms. ask fetch = Reply ms \<longrightarrow>
        (\<exists>x. server_later h a x \<and> server_later h x b \<and> set ms = {m \<in> set (sv_mail x). asked_flags fetch m}))"

lemma range_covers:
  assumes "sorted (us :: nat list)" "u \<in> set us"
  shows "\<exists>span\<in>set (uid_ranges us). fst span \<le> u \<and> u \<le> snd span"
  using assms
proof (induction us rule: chunks_of.induct)
  case (2 x xs)
  let ?now = "take SYNC_BATCH (x # xs)" and ?later = "drop SYNC_BATCH (x # xs)"
  have now: "?now \<noteq> []" "sorted ?now" using 2(2) by (simp add: SYNC_BATCH_def, blast intro: sorted_wrt_take)
  show ?case
  proof (cases "u \<in> set ?now")
    case True
    have "hd ?now \<le> u" using now True by (cases ?now) auto
    moreover have "u \<le> last ?now"
    proof -
      have "sorted (butlast ?now @ [last ?now])" using now by simp
      then have "\<forall>y\<in>set (butlast ?now). y \<le> last ?now" unfolding sorted_append by simp
      moreover have "set ?now = insert (last ?now) (set (butlast ?now))" using now(1) by (metis append_butlast_last_id list.simps(15) rotate1.simps(2) set_rotate1)
      ultimately show ?thesis using True by auto
    qed
    ultimately show ?thesis by (auto simp: uid_ranges_def)
  next
    case False
    have "u \<in> set (?now @ ?later)" using 2(3) by (simp only: append_take_drop_id)
    then have "u \<in> set ?later" using False by (simp only: set_append) blast
    then have "\<exists>span\<in>set (uid_ranges ?later). fst span \<le> u \<and> u \<le> snd span"
      using 2(1) 2(2) sorted_wrt_drop by blast
    then show ?thesis by (simp add: uid_ranges_def)
  qed
qed simp

lemma scanned_mirrors:
  assumes a: "flags_ok h a b ask" and run: "scan_ranges st (sv_validity b) ask spans = (r, st')"
    and st: "mirrored h b st" "known_modseq st \<le> sv_modseq a" "\<forall>e\<in>set (st_mail st). er_uid e < sv_next a"
  shows "mirrored h b st' \<and> st_row st' = st_row st \<and>
    (\<forall>e\<in>set (st_mail st'). \<exists>e0\<in>set (st_mail st). er_uid e0 = er_uid e \<and> (current (sv_modseq a) b e0 \<longrightarrow> current (sv_modseq a) b e)) \<and>
    (r = Inr () \<longrightarrow> (\<forall>e\<in>set (st_mail st'). (\<exists>span\<in>set spans. fst span \<le> er_uid e \<and> er_uid e \<le> snd span) \<longrightarrow> current (sv_modseq a) b e))"
  using run st
proof (induction spans arbitrary: st)
  case (Cons span spans)
  obtain low high where span: "span = (low, high)" by (cases span)
  let ?q = "sv_modseq a"
  show ?case
  proof (cases "ask (Flag_Range low high)")
    case (Reply ms)
    let ?st = "apply_flagged st (sv_validity b) ms"
    obtain x where x: "server_later h a x" "server_later h x b" "set ms = {m \<in> set (sv_mail x). asked_flags (Flag_Range low high) m}"
      using a Reply unfolding flags_ok_def by blast
    have le: "?q \<le> sv_modseq x" "sv_next a \<le> sv_next x" using x(1) by (simp_all add: server_later_def)
    have pre: "set ms \<subseteq> set (sv_mail x)" "known_modseq st \<le> sv_modseq x" "\<forall>e\<in>set (st_mail st). er_uid e < sv_next x"
      using x(3) Cons.prems(3,4) le by auto
    note one = flagged_mirrors [OF Cons.prems(2) x(2) server_later_ok [OF x(1)] pre le(1)]
    have "er_uid e < sv_next a" if e: "e \<in> set (st_mail ?st)" for e
    proof -
      obtain e0 where "e0 \<in> set (st_mail st)" "er_uid e0 = er_uid e" using one(3) [OF e] by blast
      then show ?thesis using bspec [OF Cons.prems(4)] by metis
    qed
    then have "\<forall>e\<in>set (st_mail ?st). er_uid e < sv_next a" by blast
    moreover have "known_modseq ?st \<le> ?q" using Cons.prems(3) one(2) by (simp add: known_modseq_def)
    moreover have run': "scan_ranges ?st (sv_validity b) ask spans = (r, st')" using Cons.prems(1) by (simp add: span Reply)
    ultimately have ih: "mirrored h b st' \<and> st_row st' = st_row ?st \<and>
      (\<forall>e\<in>set (st_mail st'). \<exists>e0\<in>set (st_mail ?st). er_uid e0 = er_uid e \<and> (current ?q b e0 \<longrightarrow> current ?q b e)) \<and>
      (r = Inr () \<longrightarrow> (\<forall>e\<in>set (st_mail st'). (\<exists>span\<in>set spans. fst span \<le> er_uid e \<and> er_uid e \<le> snd span) \<longrightarrow> current ?q b e))"
      using Cons.IH [OF run' one(1)] by blast
    note kept = conjunct1 [OF ih] and rest = conjunct2 [OF ih]
    note same = conjunct1 [OF rest] and trace = bspec [OF conjunct1 [OF conjunct2 [OF rest]]] and told = conjunct2 [OF conjunct2 [OF rest]]
    have covered: "current ?q b e" if e: "e \<in> set (st_mail st')" "low \<le> er_uid e" "er_uid e \<le> high" for e
    proof -
      obtain e1 where e1: "e1 \<in> set (st_mail ?st)" "er_uid e1 = er_uid e" "current ?q b e1 \<longrightarrow> current ?q b e"
        using trace [OF e(1)] by (elim bexE conjE)
      have "\<forall>y\<in>set (sv_mail x). ms_uid y = er_uid e1 \<longrightarrow> y \<in> set ms" using e(2,3) e1(2) by (auto simp: x(3))
      then show ?thesis using one(3) [OF e1(1)] e1(3) by blast
    qed
    have origin: "\<exists>e0\<in>set (st_mail st). er_uid e0 = er_uid e \<and> (current ?q b e0 \<longrightarrow> current ?q b e)" if e: "e \<in> set (st_mail st')" for e
    proof -
      obtain e1 where e1: "e1 \<in> set (st_mail ?st)" "er_uid e1 = er_uid e" "current ?q b e1 \<longrightarrow> current ?q b e"
        using trace [OF e] by (elim bexE conjE)
      obtain e0 where "e0 \<in> set (st_mail st)" "er_uid e0 = er_uid e1" "current ?q b e0 \<longrightarrow> current ?q b e1"
        using one(3) [OF e1(1)] by blast
      then show ?thesis using e1(2,3) by (intro bexI [of _ e0]) auto
    qed
    show ?thesis unfolding span
    proof (intro conjI impI ballI)
      fix e assume r: "r = Inr ()" and e: "e \<in> set (st_mail st')"
        and inside: "\<exists>span\<in>set ((low, high) # spans). fst span \<le> er_uid e \<and> er_uid e \<le> snd span"
      show "current ?q b e"
      proof (cases "low \<le> er_uid e \<and> er_uid e \<le> high")
        case False
        then show ?thesis using mp [OF told r] e inside by auto
      qed (use covered [OF e] in blast)
    qed (use kept same one(2) origin in simp_all)
  qed (use Cons.prems in \<open>auto simp: span\<close>)
qed auto

lemma flags_mirror:
  assumes m: "mirrored h a st" and d: "row_done st" and later: "server_later h a b" and ask: "flags_ok h a b ask" and cs: "gv_condstore gv"
    and run: "refresh_flags gv folder (sv_validity b) (sync_progress st0) ask scanned st = (r, scanned', st')"
    and row: "sy_modseq (pg_synced (sync_progress st0)) = Some (known_modseq st)"
  shows "mirrored h b st' \<and> st_row st' = st_row st \<and> (r = Inr () \<longrightarrow> fresh_to (sv_modseq a) b (st_mail st'))"
proof -
  let ?q = "sv_modseq a"
  note mb = mirrors_later [OF m later]
  have known: "known_modseq st \<le> ?q" by (rule known_below [OF m])
  have met: "\<forall>e\<in>set (st_mail st). er_uid e < sv_next a" using mirroredD(4) [OF m] by blast
  show ?thesis
  proof (cases scanned)
    case True
    obtain r1 st1 where s: "scan_ranges st (sv_validity b) ask (uid_ranges (stored_uids st)) = (r1, st1)" by (metis surj_pair)
    have eq: "r = r1" "st' = st1" using run True by (auto simp: refresh_flags_def s)
    note sc = scanned_mirrors [OF ask s mb known met]
    have "fresh_to ?q b (st_mail st1)" if "r1 = Inr ()"
      unfolding fresh_current
    proof
      fix e assume e: "e \<in> set (st_mail st1)"
      then obtain e0 where "e0 \<in> set (st_mail st)" "er_uid e0 = er_uid e" using sc by blast
      then have "er_uid e \<in> set (stored_uids st)" by (metis image_eqI list.set_map set_sort stored_uids_def)
      then have "\<exists>span\<in>set (uid_ranges (stored_uids st)). fst span \<le> er_uid e \<and> er_uid e \<le> snd span"
        by (intro range_covers) (simp add: stored_uids_def)
      then show "current ?q b e" using sc e that by blast
    qed
    then show ?thesis using sc eq by blast
  next
    case False
    note run = run [unfolded refresh_flags_def row]
    show ?thesis
    proof (cases "ask (ChangedSince (known_modseq st))")
      case (Reply ms)
      then have eq: "r = Inr ()" "st' = apply_flagged st (sv_validity b) ms" using run False cs by auto
      obtain x where x: "server_later h a x" "server_later h x b" "set ms = {m \<in> set (sv_mail x). asked_flags (ChangedSince (known_modseq st)) m}"
        using ask Reply unfolding flags_ok_def by blast
      have le: "?q \<le> sv_modseq x" "sv_next a \<le> sv_next x" using x(1) by (simp_all add: server_later_def)
      have pre: "set ms \<subseteq> set (sv_mail x)" "known_modseq st \<le> sv_modseq x" "\<forall>e\<in>set (st_mail st). er_uid e < sv_next x"
        using x(3) known met le by auto
      note one = flagged_mirrors [OF mb x(2) server_later_ok [OF x(1)] pre le(1)]
      have "current ?q b e" if e: "e \<in> set (st_mail st')" for e
      proof -
        obtain e0 where e0: "e0 \<in> set (st_mail st)" "er_uid e0 = er_uid e" "current ?q b e0 \<longrightarrow> current ?q b e"
            "(\<forall>y\<in>set (sv_mail x). ms_uid y = er_uid e \<longrightarrow> y \<in> set ms) \<longrightarrow> current ?q b e"
          using one(3) e eq(2) by blast
        show ?thesis
        proof (cases "\<forall>y\<in>set (sv_mail x). ms_uid y = er_uid e \<longrightarrow> y \<in> set ms")
          case False
          then obtain y where y: "y \<in> set (sv_mail x)" "ms_uid y = er_uid e" "ms_modseq y \<le> known_modseq st" by (auto simp: x(3))
          have "current ?q b e0"
            unfolding current_def
          proof (intro ballI impI, elim conjE)
            fix z assume z: "z \<in> set (sv_mail b)" "ms_uid z = er_uid e0" "\<not> is_deleted (ms_flags z)"
            have "er_uid e0 < sv_next x" using bspec [OF pre(3) e0(1)] .
            then obtain z0 where z0: "z0 \<in> set (sv_mail x)" "ms_uid z0 = ms_uid z" "z = z0 \<or> sv_modseq x < ms_modseq z"
              using server_laterD [OF x(2) z(1)] z(2) by auto
            have plain: "\<not> is_deleted (ms_flags z0)" if "z = z0" using z(3) that by simp
            have "z0 = y" using same_message [OF server_later_ok [OF x(1)] z0(1) y(1)] z0(2) z(2) y(2) e0(2) by simp
            moreover have "er_keywords e0 = message_keywords z0 \<or> known_modseq st < ms_modseq z0" if "z = z0"
              using mirroredD(8) [OF mirrors_later [OF m x(1)]] e0(1) z0(1,2) z(2) plain [OF that] unfolding fresh_to_def by metis
            ultimately show "er_keywords e0 = message_keywords z \<or> ?q < ms_modseq z" using z0(3) y(3) le(1) by auto
          qed
          then show ?thesis using e0(3) by blast
        qed (use e0(4) in blast)
      qed
      then show ?thesis using one(1,2) eq by (simp add: fresh_current)
    qed (use run False cs mb in auto)
  qed
qed

subsection \<open>What left, and how far the folder stands\<close>

lemma expunged_mirrors:
  assumes m: "mirrored h b st" and listed: "\<And>l. listed = Reply l \<Longrightarrow> l = uid_listing b"
    and run: "refresh_expunged (sv_validity b) listed st = (r, st')"
  shows "mirrored h b st' \<and> st_row st' = st_row st \<and> set (st_mail st') \<subseteq> set (st_mail st) \<and>
    (r = Inr () \<longrightarrow> er_uid ` set (st_mail st') \<subseteq> ms_uid ` set (sv_mail b))"
proof (cases listed)
  case (Reply l)
  note d = mirroredD [OF m]
  let ?gone = "filter (\<lambda>u. u \<notin> set l) (stored_uids st)"
  have r: "r = Inr ()" using run by (simp add: refresh_expunged_def Reply)
  have st': "st' = st\<lparr>st_mail := foldl (\<lambda>rows u. filter (\<lambda>e. er_uid e \<noteq> u) rows) (st_mail st) ?gone\<rparr>"
    using run by (simp add: refresh_expunged_def Reply remove_chunks [OF d(2)] chunks_concat)
  have "set l = ms_uid ` set (sv_mail b)" by (simp add: listed [OF Reply] uid_listing_def)
  then have rows: "set (st_mail st') = {e \<in> set (st_mail st). er_uid e \<in> ms_uid ` set (sv_mail b)}"
    by (auto simp: st' removed_rows(1) stored_uids_def)
  have same: "reached st' = reached st" "known_modseq st' = known_modseq st" "st_row st' = st_row st"
    by (simp_all add: reached_def [abs_def] known_modseq_def st')
  have "complete_for h b (reached st') (st_mail st')"
    unfolding complete_for_def same(1)
  proof (intro ballI impI, elim conjE)
    fix x assume x: "x \<in> set (sv_mail b)" "reached st (ms_uid x)" "\<not> is_deleted (ms_flags x)" "\<not> h (ms_uid x)"
    then obtain e where "e \<in> set (st_mail st)" "er_uid e = ms_uid x" using d(7) unfolding complete_for_def by force
    then show "ms_uid x \<in> er_uid ` set (st_mail st')" using x(1) by (intro image_eqI [of _ _ e]) (auto simp: rows)
  qed
  moreover have "fresh_to (known_modseq st') b (st_mail st')"
    using d(8) unfolding fresh_to_def same(2) rows by blast
  moreover have "distinct (map er_uid (st_mail st'))" by (simp add: st' removed_rows(2) d(3))
  moreover have "case st_row st' of None \<Rightarrow> st_mail st' = [] | Some r \<Rightarrow> row_fits b r"
    using d(5,6) rows by (auto simp: same(3) split: option.split)
  ultimately have "mirrored h b st'"
    unfolding mirrored_def using d(1,2,4) rows by (auto simp: st')
  then show ?thesis using rows same(3) by auto
qed (use m run in \<open>auto simp: refresh_expunged_def\<close>)

lemma advanced_mirrors:
  assumes m: "mirrored h b st" and d: "row_done st" and n: "n \<le> sv_next b" and q: "q \<le> sv_modseq b"
    and fresh: "fresh_to q b (st_mail st)" and all: "\<forall>x\<in>set (sv_mail b). ms_uid x < n \<longrightarrow> reached st (ms_uid x)"
    and st': "st' = store_advance st (sv_validity b) \<lparr>sy_uid_next = Some n, sy_modseq = Some q, sy_messages = Some c\<rparr>"
  shows "mirrored h b st' \<and> row_done st' \<and> st_mail st' = st_mail st \<and> reached st' = (\<lambda>u. u < n) \<and> known_modseq st' = q \<and>
    pg_synced (sync_progress st') = \<lparr>sy_uid_next = Some n, sy_modseq = Some q, sy_messages = Some c\<rparr>"
proof -
  note m' = mirroredD [OF m]
  obtain r where r: "st_row st = Some r" "sr_done r" by (rule done_row [OF m d])
  have eq: "st' = st\<lparr>st_row := Some (r\<lparr>sr_uid_next := Some n, sr_modseq := Some q, sr_messages := Some c\<rparr>)\<rparr>"
    by (simp add: st' store_advance_def pinned_def m'(2) r coalesce_def)
  have asked: "reached st' = (\<lambda>u. u < n)" and known: "known_modseq st' = q"
    by (simp_all add: reached_def [abs_def] known_modseq_def eq r)
  have "complete_for h b (reached st') (st_mail st')"
    using m'(7) all unfolding complete_for_def asked by (auto simp: eq)
  then show ?thesis
    using m' fresh n q asked known r unfolding mirrored_def
    by (auto simp: eq row_fits_def row_done_def sync_progress_def)
qed

end
