(* ===== verification/Sync_Life.thy ===== *)
theory Sync_Life
  imports Refresh_Mirror
begin

text \<open>
  The life of one folder in the cache: it is walked down in turns and refreshed once it is done, while its
  mailbox changes between the commands. Whatever the server answers, refuses or breaks, the cache mirrors
  the part of the mailbox it has asked for, and a refresh that returns leaves it as new as the STATUS the
  pass read.
\<close>

subsection \<open>The commands of one refresh\<close>

text \<open>The row of a pass that read the mailbox, on a server that advertises CONDSTORE and names its UIDNEXT.\<close>

definition row_reads :: "mail_server \<Rightarrow> mailbox_row \<Rightarrow> bool" where
  "row_reads b row \<longleftrightarrow> row_serves row (sv_validity b) \<and> uid_next (facts row) = Some (sv_next b) \<and> 0 < sv_next b \<and>
     highest_modseq (facts row) = Some (sv_modseq b) \<and> total_emails (facts row) = length (sv_mail b)"

text \<open>Each command meets the mailbox as it is then, in the order the refresh sends them.\<close>

definition calls_ok :: "(nat \<Rightarrow> bool) \<Rightarrow> mail_server \<Rightarrow> calls \<Rightarrow> mail_server \<Rightarrow> bool" where
  "calls_ok h b ca b' \<longleftrightarrow>
     (\<exists>b1 b2 b3 b4. server_later h b b1 \<and> server_later h b1 b2 \<and> server_later h b3 b4 \<and> server_later h b4 b' \<and>
        (\<forall>se. ca_examine ca = Reply se \<longrightarrow> se = shown b1) \<and>
        (\<forall>l. ca_list ca = Reply l \<longrightarrow> l = uid_listing b2) \<and>
        stream_ok h b2 (ca_fetches ca) b3 \<and>
        flags_ok h b3 b4 (ca_flags ca) \<and>
        (\<forall>l. ca_present ca = Reply l \<longrightarrow> l = uid_listing b'))"

lemma calls_later:
  assumes "calls_ok h b ca b'" "server_ok b"
  shows "server_later h b b'"
proof -
  obtain b1 b2 b3 b4 where b: "server_later h b b1" "server_later h b1 b2" "server_later h b3 b4" "server_later h b4 b'" "stream_ok h b2 (ca_fetches ca) b3"
    using assms(1) unfolding calls_ok_def by blast
  then have "server_later h b2 b3" using stream_later server_later_ok by blast
  then show ?thesis using b server_later_trans by meson
qed

text \<open>What a refresh that reached the folder leaves: everything below the UIDNEXT of the pass is there, and
  the keywords are those of the pass or newer.\<close>

definition as_read :: "(nat \<Rightarrow> bool) \<Rightarrow> mail_server \<Rightarrow> mail_server \<Rightarrow> folder_store \<Rightarrow> bool" where
  "as_read h b b' st \<longleftrightarrow>
     complete_for h b' (\<lambda>u. u < sv_next b) (st_mail st) \<and> fresh_to (sv_modseq b) b' (st_mail st)"

lemma fresh_less: "fresh_to q b rows \<Longrightarrow> q' \<le> q \<Longrightarrow> fresh_to q' b rows"
  unfolding fresh_to_def by (meson le_less_trans)

lemma pending_same:
  assumes "pending_ok b s" "st_row (rf_store s') = st_row (rf_store s)" "rf_pending s' = rf_pending s"
  shows "pending_ok b s'"
  using assms by (auto simp: pending_ok_def up_ok_def split: option.splits)

lemma pending_later: "pending_ok b s \<Longrightarrow> server_later h b b' \<Longrightarrow> pending_ok b' s"
  using up_later by (auto simp: pending_ok_def split: option.splits)

lemma row_done_same: "st_row st' = st_row st \<Longrightarrow> row_done st' = row_done st"
  by (simp add: row_done_def)

text \<open>The end of a refresh whose new mail and flags went through.\<close>

lemma closing_mirrors:
  assumes m: "mirrored h c st" and d: "row_done st" and n: "n \<le> sv_next c" and q: "q \<le> sv_modseq c"
    and fresh: "fresh_to q c (st_mail st)" and all: "\<forall>x\<in>set (sv_mail c). ms_uid x < n \<longrightarrow> reached st (ms_uid x)"
    and later: "server_later h c b'" and listed: "\<And>l. listed = Reply l \<Longrightarrow> l = uid_listing b'"
    and run: "(if short then refresh_expunged (sv_validity b') listed st else (Inr (), st)) = (r, st1)"
  shows "mirrored h b' st1 \<and> st_row st1 = st_row st \<and>
    (let st2 = store_advance st1 (sv_validity b') \<lparr>sy_uid_next = Some n, sy_modseq = Some q, sy_messages = Some k\<rparr>
     in mirrored h b' st2 \<and> row_done st2 \<and> complete_for h b' (\<lambda>u. u < n) (st_mail st2) \<and> fresh_to q b' (st_mail st2))"
proof -
  note m' = mirrors_later [OF m later]
  have fresh': "fresh_to q b' (st_mail st)" by (rule fresh_later [OF fresh later q mirroredD(4) [OF m]])
  have one: "mirrored h b' st1 \<and> st_row st1 = st_row st \<and> set (st_mail st1) \<subseteq> set (st_mail st)"
  proof (cases short)
    case True
    then have "refresh_expunged (sv_validity b') listed st = (r, st1)" using run by simp
    from expunged_mirrors [OF m' listed this] show ?thesis by blast
  qed (use run m' in simp)
  have le: "n \<le> sv_next b'" "q \<le> sv_modseq b'" using n q later by (auto simp: server_later_def)
  have same: "reached st1 = reached st" using one by (simp add: reached_def [abs_def])
  have "fresh_to q b' (st_mail st1)" using fresh' one unfolding fresh_to_def by blast
  moreover have "\<forall>x\<in>set (sv_mail b'). ms_uid x < n \<longrightarrow> reached st1 (ms_uid x)"
  proof (intro ballI impI)
    fix x assume x: "x \<in> set (sv_mail b')" "ms_uid x < n"
    then obtain x0 where "x0 \<in> set (sv_mail c)" "ms_uid x0 = ms_uid x" using server_laterD [OF later x(1)] n by auto
    then show "reached st1 (ms_uid x)" using all x(2) same by metis
  qed
  moreover have "row_done st1" using one d row_done_same by blast
  ultimately have adv: "mirrored h b' st2 \<and> row_done st2 \<and> st_mail st2 = st_mail st1 \<and> reached st2 = (\<lambda>u. u < n) \<and> known_modseq st2 = q"
    if "st2 = store_advance st1 (sv_validity b') \<lparr>sy_uid_next = Some n, sy_modseq = Some q, sy_messages = Some k\<rparr>" for st2
    using advanced_mirrors [OF conjunct1 [OF one] _ le _ _ that] by blast
  show ?thesis
    unfolding Let_def
    using one adv [OF refl] mirroredD(7,8) [OF conjunct1 [OF adv [OF refl]]] by simp
qed

lemma unchanged_as_read:
  assumes m: "mirrored h b (rf_store s)" and d: "row_done (rf_store s)" and row: "row_reads b row" and later: "server_later h b b'"
    and same: "unchanged gv row (sync_progress (rf_store s)) s"
  shows "as_read h b b' (rf_store s)"
proof -
  obtain n q where n: "reached (rf_store s) = (\<lambda>u. u < n)" "known_modseq (rf_store s) = q"
      "sy_uid_next (pg_synced (sync_progress (rf_store s))) = Some n" "sy_modseq (pg_synced (sync_progress (rf_store s))) = Some q"
    using done_row [OF m d] by (metis synced.select_convs(1,2))
  have "n = sv_next b" "q = sv_modseq b" using same row n(3,4) by (simp_all add: unchanged_def row_reads_def)
  then show ?thesis using mirroredD(7,8) [OF mirrors_later [OF m later]] n by (simp add: as_read_def)
qed

lemma refresh_mirrors:
  assumes m: "mirrored h b (rf_store s)" and d: "row_done (rf_store s)" and pend: "pending_ok b s" and row: "row_reads b row"
    and calls: "calls_ok h b ca b'" and cs: "gv_condstore gv" and run: "refresh_folder gv row ca s = (r, s')"
  shows "mirrored h b' (rf_store s') \<and> row_done (rf_store s') \<and> pending_ok b' s' \<and>
    (r = Inr () \<and> ca_examine ca \<noteq> Refused \<longrightarrow> as_read h b b' (rf_store s'))"
proof -
  obtain b1 b2 b3 b4 where b: "server_later h b b1" "server_later h b1 b2" "server_later h b3 b4" "server_later h b4 b'"
      and se: "\<And>se. ca_examine ca = Reply se \<Longrightarrow> se = shown b1" and li: "\<And>l. ca_list ca = Reply l \<Longrightarrow> l = uid_listing b2"
      and stream: "stream_ok h b2 (ca_fetches ca) b3" and ask: "flags_ok h b3 b4 (ca_flags ca)"
      and present: "\<And>l. ca_present ca = Reply l \<Longrightarrow> l = uid_listing b'"
    using calls unfolding calls_ok_def by blast
  let ?p = "sync_progress (rf_store s)" and ?v = "sv_validity b" and ?n = "sv_next b"
  have l2: "server_later h b b2" by (rule server_later_trans [OF b(1,2)])
  have l23: "server_later h b2 b3" by (rule stream_later [OF stream server_later_ok [OF b(2)]])
  have l3': "server_later h b3 b'" by (rule server_later_trans [OF b(3,4)])
  have l': "server_later h b b'" by (rule server_later_trans [OF server_later_trans [OF l2 l23] l3'])
  have v: "sv_validity b1 = ?v" "sv_validity b2 = ?v" "sv_validity b3 = ?v" "sv_validity b4 = ?v" "sv_validity b' = ?v"
    using b(1,3) l2 l23 l3' l' by (simp_all add: server_later_def)
  have facts: "uid_validity (facts row) = Some ?v" "uid_next (facts row) = Some ?n" "0 < ?n"
    using row by (simp_all add: row_reads_def row_serves_def)
  note run = run [unfolded refresh_folder_def facts Let_def prod.case option.case]
  have stays: ?thesis if "s' = s" "unchanged gv row ?p s \<or> r \<noteq> Inr () \<or> ca_examine ca = Refused"
    using that mirrors_later [OF m l'] d pending_later [OF pend l'] unchanged_as_read [OF m d row l'] by auto
  show ?thesis
  proof (cases "unchanged gv row ?p s")
    case True
    then show ?thesis using run stays by simp
  next
    case False
    note run = run [unfolded if_not_P [OF False]]
    show ?thesis
    proof (cases "ca_examine ca")
      case (Reply sel)
      have sel: "se_validity sel = ?v" "se_modseq sel = Some (sv_modseq b1)" using se [OF Reply] v by (simp_all add: shown_def)
      obtain r1 s1 where nm: "new_mail row ?p ?n ca s = (r1, s1)" by (metis surj_pair)
      have "row_serves row (sv_validity b2)" "?n \<le> sv_next b2" using row v l2 by (simp_all add: row_reads_def server_later_def)
      note mail = new_mail_mirrors [OF mirrors_later [OF m l2] d pending_later [OF pend l2] this li stream nm]
      note m1 = conjunct1 [OF mail] and d1 = conjunct1 [OF conjunct2 [OF mail]] and p1 = conjunct1 [OF conjunct2 [OF conjunct2 [OF mail]]]
      note run = run [unfolded Reply reply.case sel(1) nm prod.case simp_thms if_False]
      show ?thesis
      proof (cases r1)
        case (Inl e)
        then have "r = Inl e" "s' = s1" using run by simp_all
        then show ?thesis using mirrors_later [OF m1 l3'] d1 pending_later [OF p1 l3'] by simp
      next
        case (Inr found)
        then obtain k where k: "r1 = Inr (Some k)" using mail by (cases found) auto
        have got: "rf_pending s1 = None" "\<forall>x\<in>set (sv_mail b3). ms_uid x < ?n \<longrightarrow> reached (rf_store s1) (ms_uid x)"
          using mail [of k] k facts(3) by blast+
        have row1: "sy_modseq (pg_synced ?p) = Some (known_modseq (rf_store s1))"
          using done_row [OF m d] new_mail_modseq [OF pend nm] by (metis synced.select_convs(2))
        obtain r2 scanned st2 where fl: "refresh_flags gv (row_id row) (sv_validity b4) ?p (ca_flags ca) (rf_scanned s1) (rf_store s1) = (r2, scanned, st2)"
          by (metis prod_cases3)
        note flags = flags_mirror [OF m1 d1 b(3) ask cs fl row1]
        have st2: "mirrored h b4 st2" "st_row st2 = st_row (rf_store s1)" using flags by blast+
        note run = run [unfolded k sum.case option.case prod.case fl [unfolded v]]
        show ?thesis
        proof (cases r2)
          case (Inl e)
          then have "r = Inl e" "s' = s1\<lparr>rf_scanned := scanned, rf_store := st2\<rparr>" using run by simp_all
          then show ?thesis
            using mirrors_later [OF st2(1) b(4)] d1 row_done_same [OF st2(2)] got(1) by (simp add: pending_ok_def)
        next
          case (Inr u)
          have q: "sv_modseq b1 \<le> sv_modseq b3" "sv_modseq b3 \<le> sv_modseq b4" "?n \<le> sv_next b3" "sv_next b3 \<le> sv_next b4"
            "sv_modseq b \<le> sv_modseq b1"
            using b l2 l23 by (auto simp: server_later_def)
          have fresh: "fresh_to (sv_modseq b1) b4 (st_mail st2)" using flags Inr q(1) fresh_less by auto
          have all: "\<forall>x\<in>set (sv_mail b4). ms_uid x < ?n \<longrightarrow> reached st2 (ms_uid x)"
          proof (intro ballI impI)
            fix x assume x: "x \<in> set (sv_mail b4)" "ms_uid x < ?n"
            then obtain x0 where "x0 \<in> set (sv_mail b3)" "ms_uid x0 = ms_uid x" using server_laterD [OF b(3) x(1)] q(3) by auto
            then show "reached st2 (ms_uid x)" using got(2) x(2) st2(2) unfolding reached_def by metis
          qed
          define counted where "counted = (case sy_messages (pg_synced ?p) of Some n \<Rightarrow> n | None \<Rightarrow> total_emails (facts row))"
          let ?short = "total_emails (facts row) < min (counted + k) u32_max"
          obtain r3 st3 where ex: "(if ?short then refresh_expunged (sv_validity b') (ca_present ca) st2 else (Inr (), st2)) = (r3, st3)"
            by (metis surj_pair)
          have "row_done st2" using d1 row_done_same [OF st2(2)] by blast
          note close = closing_mirrors [OF st2(1) this _ _ fresh all b(4) present ex, where k = "total_emails (facts row)"]
          have c: "mirrored h b' st3 \<and> st_row st3 = st_row st2 \<and>
              (let st4 = store_advance st3 (sv_validity b') \<lparr>sy_uid_next = Some ?n, sy_modseq = Some (sv_modseq b1), sy_messages = Some (total_emails (facts row))\<rparr>
               in mirrored h b' st4 \<and> row_done st4 \<and> complete_for h b' (\<lambda>u. u < ?n) (st_mail st4) \<and> fresh_to (sv_modseq b1) b' (st_mail st4))"
            using q by (intro close) simp_all
          note run = run [unfolded Inr sum.case counted_def [symmetric] ex [unfolded v] sel(2)]
          show ?thesis
          proof (cases r3)
            case (Inl e)
            then have "r = Inl e" "rf_store s' = st3" "rf_pending s' = None" using run ex got(1) v(5) by (auto split: if_splits)
            then show ?thesis using c d1 row_done_same [of st3 st2] row_done_same [OF st2(2)] by (simp add: pending_ok_def)
          next
            case (Inr w)
            let ?st4 = "store_advance st3 ?v \<lparr>sy_uid_next = Some ?n, sy_modseq = Some (sv_modseq b1), sy_messages = Some (total_emails (facts row))\<rparr>"
            have "rf_store s' = ?st4" "rf_pending s' = None" using run ex Inr got(1) v(5) by (auto split: if_splits)
            then show ?thesis using c fresh_less [OF _ q(5)] by (simp add: Let_def v(5) pending_ok_def as_read_def)
          qed
        qed
      qed
    qed (use run stays in auto)
  qed
qed

subsection \<open>The life of a folder\<close>

text \<open>The mailbox, the walk the worker holds, and what a refresh has of the folder. The worker walks a
  folder turn by turn, drops a walk at any time and keeps one whose turn failed; a refresh takes the folders
  whose row is done; a restart forgets the walk a refresh kept and which flags are scanned.\<close>

inductive folder_life :: "(nat \<Rightarrow> bool) \<Rightarrow> mail_server \<Rightarrow> folder_sync option \<Rightarrow> refreshing \<Rightarrow> bool" for h where
  life_found: "server_ok b \<Longrightarrow>
    folder_life h b None \<lparr>rf_scanned = False, rf_pending = None, rf_store = \<lparr>st_validity = Some (Some (sv_validity b)), st_row = None, st_mail = []\<rparr>\<rparr>"
| life_change: "folder_life h b w s \<Longrightarrow> server_later h b b' \<Longrightarrow> folder_life h b' w s"
| life_turn: "folder_life h b w s \<Longrightarrow> examined = None \<or> examined = Some (shown b) \<Longrightarrow> server_later h b b1 \<Longrightarrow> server_later h b1 b2 \<Longrightarrow>
    fetch_ok h b2 fetch \<Longrightarrow> attempt (rf_store s) row confirmed examined (uid_listing b1) fetch w = (t, w', st') \<Longrightarrow>
    folder_life h b2 w' (s\<lparr>rf_store := st'\<rparr>)"
| life_drop: "folder_life h b w s \<Longrightarrow> folder_life h b None s"
| life_refresh: "folder_life h b w s \<Longrightarrow> row_done (rf_store s) \<Longrightarrow> row_reads b row \<Longrightarrow> gv_condstore gv \<Longrightarrow> calls_ok h b ca b' \<Longrightarrow>
    refresh_folder gv row ca s = (r, s') \<Longrightarrow> folder_life h b' w s'"
| life_restart: "folder_life h b w s \<Longrightarrow> folder_life h b None \<lparr>rf_scanned = False, rf_pending = None, rf_store = rf_store s\<rparr>"

definition life_ok :: "(nat \<Rightarrow> bool) \<Rightarrow> mail_server \<Rightarrow> folder_sync option \<Rightarrow> refreshing \<Rightarrow> bool" where
  "life_ok h b w s \<longleftrightarrow> mirrored h b (rf_store s) \<and> pending_ok b s \<and> (case w of None \<Rightarrow> True | Some f \<Rightarrow> down_ok b (rf_store s) f)"

lemma life_later: "life_ok h b w s \<Longrightarrow> server_later h b b' \<Longrightarrow> life_ok h b' w s"
  using mirrors_later pending_later down_later by (auto simp: life_ok_def split: option.splits)

text \<open>A turn on a folder that is done has nothing left to ask for and changes nothing.\<close>

lemma idle_batch:
  assumes m: "mirrored h b st" and d: "row_done st" and f: "down_ok b st f" and w: "walk_batch f st fetch = (t, f', st')"
  shows "st' = st"
proof -
  obtain r where r: "st_row st = Some r" "sr_done r" "sr_messages r \<noteq> None" by (rule done_row [OF m d]) auto
  obtain s where s: "fs_walk f = Down s" and ok: "walk_ok f" "unasked f = []" "fs_validity f = sv_validity b"
    using f r by (auto simp: down_ok_def)
  show ?thesis
    using ok(1) w
  proof (cases rule: batch_cases)
    case (Idle step)
    have "fs_narrowed f = []" "fs_remaining f = []"
      using ok(1,2) s Idle(3) by (cases "fs_narrowed f"; auto simp: unasked_def stack_def walk_ok_def downward_def)+
    then show ?thesis
      using Idle(5) s r mirroredD(2) [OF m] ok(3)
      by (auto simp: walk_write_def apply_batch_def pinned_def save_progress_def coalesce_def Let_def List.map_filter_def)
  next
    case (Stay uids full)
    then show ?thesis by simp
  qed (use ok(2) in \<open>auto simp: ahead_def split: if_splits\<close>)
qed

lemma life_turns:
  assumes l: "life_ok h b w s" and ex: "examined = None \<or> examined = Some (shown b)" and later: "server_later h b b1" "server_later h b1 b2"
    and fetch: "fetch_ok h b2 fetch" and t: "attempt (rf_store s) row confirmed examined (uid_listing b1) fetch w = (t, w', st')"
  shows "life_ok h b2 w' (s\<lparr>rf_store := st'\<rparr>)"
proof -
  have l2: "server_later h b b2" by (rule server_later_trans [OF later])
  note here = life_later [OF l l2]
  let ?f = "case w of None \<Rightarrow> sync_open (rf_store s) row confirmed examined (uid_listing b1) | Some f \<Rightarrow> if sync_resume f examined then Some f else None"
  show ?thesis
  proof (cases ?f)
    case None
    then have "w' = w" "st' = rf_store s" using t by (simp_all add: attempt_def)
    then show ?thesis using here by simp
  next
    case (Some f)
    obtain t1 f1 st1 where b: "walk_batch f (rf_store s) fetch = (t1, f1, st1)" by (metis prod_cases3)
    have eq: "w' = Some f1" "st' = st1" using t by (simp_all add: attempt_def Some b)
    have f: "down_ok b2 (rf_store s) f"
    proof (cases w)
      case None
      have "sync_open (rf_store s) row confirmed examined (uid_listing b1) = Some f" using Some None by simp
      moreover from this have "examined = Some (shown b)" using ex by (auto simp: sync_open_def Let_def split: option.splits if_splits)
      moreover have "mirrored h b1 (rf_store s)" using l later(1) mirrors_later by (auto simp: life_ok_def)
      ultimately show ?thesis using opened_down later down_later by metis
    next
      case (Some g)
      then have "f = g" using \<open>?f = Some f\<close> by (auto split: if_splits)
      then show ?thesis using here Some by (simp add: life_ok_def)
    qed
    have m: "mirrored h b2 (rf_store s)" using here by (simp add: life_ok_def)
    have "pending_ok b2 (s\<lparr>rf_store := st1\<rparr>)"
    proof (cases "rf_pending s")
      case (Some g)
      then have "up_ok b2 (rf_store s) g" using here by (simp add: life_ok_def pending_ok_def)
      then have "st1 = rf_store s" using idle_batch [OF m up_done f b] by simp
      then show ?thesis using here by (simp add: life_ok_def)
    qed (simp add: pending_ok_def)
    then show ?thesis using down_batch [OF m f fetch b] by (simp add: life_ok_def eq)
  qed
qed

lemma life_kept: "folder_life h b w s \<Longrightarrow> life_ok h b w s"
proof (induction rule: folder_life.induct)
  case (life_found b)
  then show ?case by (simp add: life_ok_def mirrored_def pending_ok_def complete_for_def fresh_to_def reached_def)
next
  case (life_refresh b w s row gv ca b' r s')
  then have m: "mirrored h b (rf_store s)" "pending_ok b s" by (simp_all add: life_ok_def)
  note r = refresh_mirrors [OF m(1) life_refresh(2) m(2) life_refresh(3,5,4,6)]
  note later = calls_later [OF life_refresh(5) mirroredD(1) [OF m(1)]]
  have "down_ok b' (rf_store s') f" if w: "w = Some f" for f
  proof -
    have "down_ok b (rf_store s) f" using life_refresh w by (simp add: life_ok_def)
    from down_idle [OF this m(1) life_refresh(2) later] show ?thesis using r by blast
  qed
  then show ?case using r by (simp add: life_ok_def split: option.split)
next
  case (life_turn b w s examined b1 b2 fetch row confirmed t w' st')
  then show ?case by (intro life_turns [of h b w s])
next
  case (life_change b w s b')
  then show ?case using life_later by blast
qed (simp_all add: life_ok_def pending_ok_def)

text \<open>C3: whatever a server with CONDSTORE answers, breaks or refuses, in turns, refreshes and restarts, while
  mail arrives, changes and leaves between the commands: every message the cache has asked for has one row,
  with its keywords or those before a change past the recorded mod-sequence, unless the message is flagged as
  deleted, had that flag taken back, or is beyond the server's own power to describe.\<close>
theorem the_cache_mirrors_the_folder:
  assumes "folder_life h b w s"
    and "m \<in> set (sv_mail b)" "\<not> is_deleted (ms_flags m)" "\<not> h (ms_uid m)" "reached (rf_store s) (ms_uid m)"
  shows "(\<exists>!e. e \<in> set (st_mail (rf_store s)) \<and> er_uid e = ms_uid m) \<and>
    (\<exists>e\<in>set (st_mail (rf_store s)). er_uid e = ms_uid m \<and>
       (er_keywords e = labeled_keywords (ms_flags m) None \<or> known_modseq (rf_store s) < ms_modseq m))"
proof -
  have "mirrored h b (rf_store s)" using life_kept [OF assms(1)] by (simp add: life_ok_def)
  note d = mirroredD [OF this]
  obtain e where e: "e \<in> set (st_mail (rf_store s))" "er_uid e = ms_uid m"
    using d(7) assms(2-5) unfolding complete_for_def by force
  have "e' = e" if "e' \<in> set (st_mail (rf_store s))" "er_uid e' = ms_uid m" for e'
    using d(3) e that by (simp add: distinct_map inj_on_def)
  moreover have "er_keywords e = message_keywords m \<or> known_modseq (rf_store s) < ms_modseq m"
    using d(8) e assms(2,3) unfolding fresh_to_def by simp
  ultimately show ?thesis using e unfolding message_keywords_def by blast
qed

text \<open>C4: on a server with CONDSTORE, a refresh that returns from a folder it could select leaves every message
  below the UIDNEXT of its pass in the cache, with its keywords or a change after that pass, unless the message
  is flagged as deleted, had that flag taken back, or is beyond the server's own power to describe.\<close>
theorem a_refresh_catches_up:
  assumes "folder_life h b w s" "row_done (rf_store s)" "row_reads b row" "gv_condstore gv" "calls_ok h b ca b'"
    and "refresh_folder gv row ca s = (Inr (), s')" "ca_examine ca \<noteq> Refused"
    and "m \<in> set (sv_mail b')" "ms_uid m < sv_next b" "\<not> is_deleted (ms_flags m)" "\<not> h (ms_uid m)"
  shows "\<exists>e\<in>set (st_mail (rf_store s')). er_uid e = ms_uid m \<and>
    (er_keywords e = labeled_keywords (ms_flags m) None \<or> sv_modseq b < ms_modseq m)"
proof -
  have m: "mirrored h b (rf_store s)" "pending_ok b s" using life_kept [OF assms(1)] by (simp_all add: life_ok_def)
  have "as_read h b b' (rf_store s')" using refresh_mirrors [OF m(1) assms(2) m(2) assms(3,5,4,6)] assms(7) by blast
  then have c: "complete_for h b' (\<lambda>u. u < sv_next b) (st_mail (rf_store s'))" "fresh_to (sv_modseq b) b' (st_mail (rf_store s'))"
    by (simp_all add: as_read_def)
  obtain e where e: "e \<in> set (st_mail (rf_store s'))" "er_uid e = ms_uid m"
    using c(1) assms(8-11) unfolding complete_for_def by force
  then have "er_keywords e = message_keywords m \<or> sv_modseq b < ms_modseq m"
    using c(2) assms(8,10) unfolding fresh_to_def by simp
  then show ?thesis using e unfolding message_keywords_def by blast
qed

subsection \<open>A folder with one message\<close>

definition one_message :: "nat \<Rightarrow> string list \<Rightarrow> nat \<Rightarrow> message" where
  "one_message u flags q = \<lparr>ms_uid = u, ms_flags = flags, ms_modseq = q\<rparr>"

definition small_box :: "nat \<Rightarrow> nat \<Rightarrow> message list \<Rightarrow> mail_server" where
  "small_box n q ms = \<lparr>sv_validity = 7, sv_next = n, sv_modseq = q, sv_mail = ms\<rparr>"

definition small_row :: "nat \<Rightarrow> nat \<Rightarrow> nat \<Rightarrow> mailbox_row" where
  "small_row n q k = demo_row\<lparr>facts := (facts demo_row)\<lparr>selectable := True, store := True, uid_validity := Some 7,
     uid_next := Some n, highest_modseq := Some q, total_emails := k\<rparr>\<rparr>"

definition empty_cache :: refreshing where
  "empty_cache = \<lparr>rf_scanned = False, rf_pending = None, rf_store = \<lparr>st_validity = Some (Some 7), st_row = None, st_mail = []\<rparr>\<rparr>"

definition walked_cache :: "nat \<Rightarrow> nat \<Rightarrow> nat \<Rightarrow> email_row list \<Rightarrow> refreshing" where
  "walked_cache n q k rows = \<lparr>rf_scanned = False, rf_pending = None, rf_store = \<lparr>st_validity = Some (Some 7),
     st_row = Some \<lparr>sr_lowest = Some 1, sr_done = True, sr_uid_next = Some n, sr_modseq = Some q, sr_messages = Some k\<rparr>, st_mail = rows\<rparr>\<rparr>"

definition box_fetch :: "mail_server \<Rightarrow> fetch" where
  "box_fetch b span full = Answered (filter (in_range span) (sv_mail b))"

lemma box_fetch_ok: "fetch_ok h b (box_fetch b)"
  by (simp add: fetch_ok_def box_fetch_def)

lemmas store_eval = sync_progress_def synced_default_def apply_batch_def pinned_def write_email_def message_email_def save_progress_def
  store_advance_def coalesce_def apply_flags_def remove_uids_def is_deleted_def List.map_filter_def Let_def

lemmas walk_eval = sync_of_def sync_open_def sync_above_def walk_batch_def next_slice_def narrow_def slice_range_def downward_def walk_write_def
  extend_to_def SYNC_BATCH_def NARROWING_BUDGET_def REFRESH_GAP_def u32_max_def

lemmas box_eval = small_row_def demo_row_def small_box_def one_message_def shown_def uid_listing_def box_fetch_def in_range_def
  empty_cache_def walked_cache_def

lemma two_below_three: "[Suc (Suc 0)..<3] = [2]"
  by (simp add: upt_rec)

lemma first_turn:
  "attempt (rf_store empty_cache) (small_row 2 5 1) False (Some (shown (small_box 2 5 [one_message 1 [] 5])))
     (uid_listing (small_box 2 5 [one_message 1 [] 5])) (box_fetch (small_box 2 5 [one_message 1 [] 5])) None =
   (Stepped Done, Some \<lparr>fs_folder = ''m1'', fs_imap_name = ''Work'', fs_validity = 7,
      fs_walk = Down \<lparr>sy_uid_next = Some 2, sy_modseq = Some 5, sy_messages = Some 1\<rparr>, fs_gmail = False, fs_remaining = [], fs_narrowed = [],
      fs_pending = None, fs_budget = 64, fs_top = 0, fs_answered = 1\<rparr>,
    rf_store (walked_cache 2 5 1 [\<lparr>er_uid = 1, er_keywords = labeled_keywords [] None\<rparr>]))"
  by (simp add: attempt_def store_eval walk_eval box_eval)

lemma small_life:
  "\<exists>f. folder_life h (small_box 2 5 [one_message 1 [] 5]) (Some f) (walked_cache 2 5 1 [\<lparr>er_uid = 1, er_keywords = labeled_keywords [] None\<rparr>])"
proof -
  let ?b = "small_box 2 5 [one_message 1 [] 5]"
  have ok: "server_ok ?b" by (simp add: server_ok_def small_box_def one_message_def u32_max_def)
  have "folder_life h ?b None empty_cache" using life_found [OF ok] by (simp add: empty_cache_def small_box_def)
  from life_turn [OF this _ server_later_refl [OF ok] server_later_refl [OF ok] box_fetch_ok first_turn]
  show ?thesis by (auto simp: walked_cache_def empty_cache_def)
qed

theorem the_cache_mirrors_the_folder_witness:
  "(\<exists>!e. e \<in> set (st_mail (rf_store (walked_cache 2 5 1 [\<lparr>er_uid = 1, er_keywords = labeled_keywords [] None\<rparr>]))) \<and> er_uid e = 1) \<and>
   (\<exists>e\<in>set (st_mail (rf_store (walked_cache 2 5 1 [\<lparr>er_uid = 1, er_keywords = labeled_keywords [] None\<rparr>]))). er_uid e = 1 \<and>
     (er_keywords e = labeled_keywords [] None \<or>
      known_modseq (rf_store (walked_cache 2 5 1 [\<lparr>er_uid = 1, er_keywords = labeled_keywords [] None\<rparr>])) < 5))"
proof -
  obtain f where f: "folder_life (\<lambda>u. False) (small_box 2 5 [one_message 1 [] 5]) (Some f)
      (walked_cache 2 5 1 [\<lparr>er_uid = 1, er_keywords = labeled_keywords [] None\<rparr>])"
    using small_life by blast
  show ?thesis
    using the_cache_mirrors_the_folder [OF f, of "one_message 1 [] 5"]
    by (simp add: small_box_def one_message_def is_deleted_def walked_cache_def reached_def)
qed

definition small_calls :: "mail_server \<Rightarrow> fetch \<Rightarrow> calls" where
  "small_calls b fetch = \<lparr>ca_examine = Reply (shown b), ca_list = Reply (uid_listing b), ca_fetches = [fetch],
     ca_flags = (\<lambda>f. Reply (filter (asked_flags f) (sv_mail b))), ca_present = Reply (uid_listing b)\<rparr>"

lemma small_calls_ok:
  assumes "server_ok b" "fetch_ok h b fetch"
  shows "calls_ok h b (small_calls b fetch) b"
proof -
  have "server_later h b b" by (rule server_later_refl [OF assms(1)])
  moreover from this have "stream_ok h b [fetch] b" by (rule stream_fetch [OF _ assms(2) stream_end])
  moreover have "flags_ok h b b (ca_flags (small_calls b fetch))"
    using \<open>server_later h b b\<close> by (auto simp: flags_ok_def small_calls_def)
  ultimately show ?thesis
    unfolding calls_ok_def by (intro exI [of _ b] conjI) (auto simp: small_calls_def)
qed

definition grown_box :: mail_server where
  "grown_box = small_box 3 7 [one_message 1 [bs ''Seen''] 7, one_message 2 [] 6]"

lemma seen_differs: "labeled_keywords [] None \<noteq> labeled_keywords [bs ''Seen''] None" "\<not> eq_ignore_ascii_case (bs ''Seen'') (bs ''Deleted'')"
  by code_simp+

lemma grown_refresh:
  "refresh_folder \<lparr>gv_condstore = True, gv_viewed = None\<rparr> (small_row 3 7 2) (small_calls grown_box (box_fetch grown_box))
     (walked_cache 2 5 1 [\<lparr>er_uid = 1, er_keywords = labeled_keywords [] None\<rparr>]) =
   (Inr (), walked_cache 3 7 2 [\<lparr>er_uid = 1, er_keywords = labeled_keywords [bs ''Seen''] None\<rparr>, \<lparr>er_uid = 2, er_keywords = labeled_keywords [] None\<rparr>])"
  using seen_differs
  by (simp add: refresh_folder_def small_calls_def grown_box_def unchanged_def new_mail_def opened_above_def run_above_def refresh_flags_def
    apply_flagged_def two_below_three store_eval walk_eval box_eval)

theorem a_refresh_catches_up_witness:
  "\<exists>e\<in>set (st_mail (rf_store (walked_cache 3 7 2 [\<lparr>er_uid = 1, er_keywords = labeled_keywords [bs ''Seen''] None\<rparr>,
       \<lparr>er_uid = 2, er_keywords = labeled_keywords [] None\<rparr>]))). er_uid e = 1 \<and>
     (er_keywords e = labeled_keywords [bs ''Seen''] None \<or> (7::nat) < 7)"
proof -
  let ?b = "small_box 2 5 [one_message 1 [] 5]" and ?cache = "walked_cache 2 5 1 [\<lparr>er_uid = 1, er_keywords = labeled_keywords [] None\<rparr>]"
  let ?h = "\<lambda>u. False" and ?row = "small_row 3 7 2"
  obtain f where "folder_life ?h ?b (Some f) ?cache" using small_life by blast
  moreover have grown: "server_later ?h ?b grown_box"
    by (simp add: server_later_def server_ok_def grown_box_def small_box_def one_message_def u32_max_def is_deleted_def)
  ultimately have life: "folder_life ?h grown_box (Some f) ?cache" by (rule life_change)
  have calls: "calls_ok ?h grown_box (small_calls grown_box (box_fetch grown_box)) grown_box"
    by (rule small_calls_ok [OF server_later_ok [OF grown] box_fetch_ok])
  have row: "row_done (rf_store ?cache)" "row_reads grown_box ?row" "gv_condstore \<lparr>gv_condstore = True, gv_viewed = None\<rparr>"
    "ca_examine (small_calls grown_box (box_fetch grown_box)) \<noteq> Refused"
    by (simp_all add: row_done_def walked_cache_def row_reads_def row_serves_def small_row_def grown_box_def small_box_def small_calls_def)
  show ?thesis
    using a_refresh_catches_up [OF life row(1-3) calls grown_refresh row(4), of "one_message 1 [bs ''Seen''] 7"] seen_differs(2)
    by (simp add: grown_box_def small_box_def one_message_def is_deleted_def)
qed

subsection \<open>A message that leaves while one comes that cannot be described\<close>

text \<open>The message that stood in the cache is expunged while one arrives that no fetch can describe: the count
  of the folder stands still, so the third refresh, which has left the new message out, records the folder as
  it is and keeps the row of the message that is gone.\<close>

definition hostile_box :: mail_server where
  "hostile_box = small_box 3 6 [one_message 2 [] 6]"

definition hostile_refresh :: "refreshing \<Rightarrow> (sync_error + unit) \<times> refreshing" where
  "hostile_refresh = refresh_folder \<lparr>gv_condstore = True, gv_viewed = None\<rparr> (small_row 3 6 1) (small_calls hostile_box (\<lambda>span full. Broken))"

lemma expunge_missed:
  "hostile_refresh (snd (hostile_refresh (snd (hostile_refresh (walked_cache 2 5 1 [\<lparr>er_uid = 1, er_keywords = labeled_keywords [] None\<rparr>]))))) =
   (Inr (), walked_cache 3 6 1 [\<lparr>er_uid = 1, er_keywords = labeled_keywords [] None\<rparr>])"
  by (simp add: hostile_refresh_def refresh_folder_def small_calls_def hostile_box_def unchanged_def new_mail_def opened_above_def run_above_def
    refresh_flags_def apply_flagged_def two_below_three store_eval walk_eval box_eval)

subsection \<open>A message whose deletion is taken back\<close>

text \<open>A message flagged as deleted leaves the cache. When the flag is taken back its UID is below the recorded
  UIDNEXT and it has no row whose keywords could change, so the refresh records the folder without it.\<close>

definition quick_refresh :: "mail_server \<Rightarrow> refreshing \<Rightarrow> (sync_error + unit) \<times> refreshing" where
  "quick_refresh b = refresh_folder \<lparr>gv_condstore = True, gv_viewed = None\<rparr> (small_row (sv_next b) (sv_modseq b) (length (sv_mail b)))
     (small_calls b (box_fetch b))"

lemma deleted_flag: "eq_ignore_ascii_case (bs ''Deleted'') (bs ''Deleted'')"
  by code_simp

lemma undeleted_stays_away:
  "quick_refresh (small_box 2 7 [one_message 1 [] 7]) (snd (quick_refresh (small_box 2 6 [one_message 1 [bs ''Deleted''] 6])
     (walked_cache 2 5 1 [\<lparr>er_uid = 1, er_keywords = labeled_keywords [] None\<rparr>]))) =
   (Inr (), walked_cache 2 7 1 [])"
  using deleted_flag
  by (simp add: quick_refresh_def refresh_folder_def small_calls_def unchanged_def new_mail_def opened_above_def run_above_def
    refresh_flags_def apply_flagged_def two_below_three store_eval walk_eval box_eval)

end
