(* ===== verification/Refresh_Turns.thy ===== *)
theory Refresh_Turns
  imports Sync_Refresh
begin

text \<open>
  The refreshes of one account, one after the other: a refresh a folder ends names the folder after it as
  the start of the next one, so a folder that fails every time still lets the others through. One that is
  cut off at its deadline names none.
\<close>

text \<open>
  The work on a folder is any function of the row and the state; with it goes the list of the folders
  visited so far. Between two refreshes the state may become any other.
\<close>

definition visit :: "(mailbox_row \<Rightarrow> 's \<Rightarrow> (sync_error + unit) \<times> 's) \<Rightarrow> mailbox_row \<Rightarrow> 's \<times> mailbox_id list \<Rightarrow>
    (sync_error + unit) \<times> 's \<times> mailbox_id list" where
  "visit folder row s = (case folder row (fst s) of (r, t) \<Rightarrow> (r, t, snd s @ [row_id row]))"

fun refreshes :: "(mailbox_row \<Rightarrow> 's \<Rightarrow> (sync_error + unit) \<times> 's) \<Rightarrow> ('s \<Rightarrow> 's) \<Rightarrow> mailbox_row list \<Rightarrow> nat \<Rightarrow> mailbox_id option \<Rightarrow>
    's \<times> mailbox_id list \<Rightarrow> mailbox_id list" where
  "refreshes folder between rows 0 first s = snd s"
| "refreshes folder between rows (Suc n) first s =
     (case refresh_rows (visit folder) (rotated rows first) s of
        ((first, _), s) \<Rightarrow> refreshes folder between rows n first (between (fst s), snd s))"










text \<open>
  A refresh cut off at its deadline leaves no start for the next one, so every refresh begins at the
  first folder again: one that holds its refresh up to the deadline each time starves the ones behind it.
\<close>

lemma a_hanging_folder_starves:
  assumes "\<And>s. fst (folder row s) = Inl Err_Dropped"
  shows "set (refreshes folder between (row # rows) n None (s, [])) \<subseteq> {row_id row}"
proof -
  have "set (refreshes folder between (row # rows) n None (s, v)) \<subseteq> {row_id row}" if "set v \<subseteq> {row_id row}" for v s
    using that
  proof (induction n arbitrary: s v)
    case (Suc n)
    obtain t where t: "folder row s = (Inl Err_Dropped, t)" using assms [of s] by (metis prod.collapse)
    have "set (refreshes folder between (row # rows) n None (between t, v @ [row_id row])) \<subseteq> {row_id row}"
      using Suc.prems by (intro Suc.IH) simp
    then show ?case by (simp add: rotated_def visit_def t)
  qed simp
  then show ?thesis by simp
qed

end
