(* ===== verification/Query_Window.thy ===== *)
theory Query_Window
  imports Bridge_Prelude
begin

text \<open>
  One window of the emails of a mailbox (\<open>store/query.rs\<close>), or of a search over the account
  (\<open>store/search.rs\<close>): which rows the SQL takes, their order, where a window starts and what it holds.
  A table is the list of its rows in no order the answers depend on; a statement is what it selects.
\<close>

subsection \<open>The rows\<close>

type_synonym row_id = string

record mail =
  ml_id :: row_id
  ml_thread :: string
  ml_folder :: string
  ml_uid :: nat
  ml_keywords :: "string list"
  ml_received :: int
  ml_attachment :: bool

record membership =
  me_email :: row_id
  me_mailbox :: string
  me_received :: int

record mail_tables =
  mt_state :: nat
  mt_emails :: "mail list"
  mt_memberships :: "membership list"

text \<open>What an answer sorts by: the time received, then the id.\<close>

type_synonym sort_key = "int \<times> row_id"

definition precedes :: "bool \<Rightarrow> sort_key \<Rightarrow> sort_key \<Rightarrow> bool" where
  "precedes ascending n m =
     (if ascending then fst n < fst m \<or> fst n = fst m \<and> snd n > snd m
      else fst n > fst m \<or> fst n = fst m \<and> snd n < snd m)"

fun put_in_order :: "bool \<Rightarrow> sort_key \<Rightarrow> sort_key list \<Rightarrow> sort_key list" where
  "put_in_order ascending k [] = [k]"
| "put_in_order ascending k (x # xs) = (if precedes ascending x k then x # put_in_order ascending k xs else k # x # xs)"

definition in_order :: "bool \<Rightarrow> sort_key list \<Rightarrow> sort_key list" where
  "in_order ascending ks = foldr (put_in_order ascending) ks []"

subsection \<open>The window\<close>

datatype window_start = Start_Position int | Start_Anchor row_id int

record list_window =
  wi_start :: window_start
  wi_limit :: nat
  wi_total :: bool

record queried =
  qd_state :: nat
  qd_position :: nat
  qd_ids :: "row_id list"
  qd_total :: "nat option"

definition i64_max :: nat where "i64_max = 2 ^ 63 - 1"

definition needs_total :: "list_window \<Rightarrow> bool" where
  "needs_total w \<longleftrightarrow> wi_total w \<or> (case wi_start w of Start_Position i \<Rightarrow> i < 0 | _ \<Rightarrow> False)"

definition window_position :: "list_window \<Rightarrow> nat option \<Rightarrow> (row_id \<Rightarrow> nat option) \<Rightarrow> nat option" where
  "window_position w all index_of =
     (case wi_start w of
        Start_Position i \<Rightarrow> Some (if 0 \<le> i then nat i else (case all of None \<Rightarrow> 0 | Some n \<Rightarrow> n) - nat (- i))
      | Start_Anchor a offset \<Rightarrow>
          map_option (\<lambda>index. if offset < 0 then index - nat (- offset) else min (index + nat offset) u64_max) (index_of a))"

text \<open>What both statements come to: a window over the ids of a result, its anchor found on its own.\<close>

definition window_over :: "nat \<Rightarrow> row_id list \<Rightarrow> (row_id \<Rightarrow> nat option) \<Rightarrow> list_window \<Rightarrow> queried option" where
  "window_over state ids index_of w =
     (let all = (if needs_total w then Some (length ids) else None)
      in map_option (\<lambda>position. \<lparr>qd_state = state, qd_position = position,
             qd_ids = take (wi_limit w) (drop (min position i64_max) ids),
             qd_total = (if wi_total w then all else None)\<rparr>)
           (window_position w all index_of))"

subsection \<open>The emails of a mailbox\<close>

record mailbox_query =
  mq_mailbox :: string
  mq_has :: "string option"
  mq_not :: "string option"
  mq_ascending :: bool
  mq_collapse :: bool

definition carries :: "mail_tables \<Rightarrow> row_id \<Rightarrow> string \<Rightarrow> bool" where
  "carries t email kw = list_ex (\<lambda>k. ml_id k = email \<and> kw \<in> set (ml_keywords k)) (mt_emails t)"

definition keyword_test :: "mail_tables \<Rightarrow> mailbox_query \<Rightarrow> row_id \<Rightarrow> bool" where
  "keyword_test t q email \<longleftrightarrow>
     (case mq_has q of None \<Rightarrow> True | Some kw \<Rightarrow> carries t email kw) \<and> (case mq_not q of None \<Rightarrow> True | Some kw \<Rightarrow> \<not> carries t email kw)"

definition me_key :: "membership \<Rightarrow> sort_key" where
  "me_key m = (me_received m, me_email m)"

text \<open>Whether an email of the same thread in the mailbox that passes the conditions sorts ahead.\<close>

definition thread_ahead :: "mail_tables \<Rightarrow> mailbox_query \<Rightarrow> membership \<Rightarrow> bool" where
  "thread_ahead t q m =
     list_ex (\<lambda>e. ml_id e = me_email m \<and>
       list_ex (\<lambda>other. ml_thread other = ml_thread e \<and>
         list_ex (\<lambda>n. me_email n = ml_id other \<and> me_mailbox n = me_mailbox m \<and> keyword_test t q (ml_id other) \<and>
             precedes (mq_ascending q) (me_key n) (me_key m)) (mt_memberships t)) (mt_emails t)) (mt_emails t)"

definition query_rows :: "mail_tables \<Rightarrow> mailbox_query \<Rightarrow> membership list" where
  "query_rows t q =
     filter (\<lambda>m. me_mailbox m = mq_mailbox q \<and> keyword_test t q (me_email m) \<and> (mq_collapse q \<longrightarrow> \<not> thread_ahead t q m)) (mt_memberships t)"

definition query_ids :: "mail_tables \<Rightarrow> mailbox_query \<Rightarrow> row_id list" where
  "query_ids t q = map snd (in_order (mq_ascending q) (map me_key (query_rows t q)))"

text \<open>An anchor is found by counting the rows that sort before it.\<close>

definition query_index :: "mail_tables \<Rightarrow> mailbox_query \<Rightarrow> row_id \<Rightarrow> nat option" where
  "query_index t q anchor =
     map_option (\<lambda>m. length (filter (\<lambda>r. precedes (mq_ascending q) (me_key r) (me_received m, anchor)) (query_rows t q)))
       (List.find (\<lambda>m. me_email m = anchor) (query_rows t q))"

definition store_query :: "mail_tables \<Rightarrow> mailbox_query \<Rightarrow> list_window \<Rightarrow> queried option" where
  "store_query t q w = window_over (mt_state t) (query_ids t q) (query_index t q) w"

subsection \<open>A search\<close>

record folder_hits =
  fh_folder :: string
  fh_uids :: "nat list"

record search =
  se_hits :: "folder_hits list option"
  se_mailbox :: "string option"
  se_other_than :: "string list option"
  se_has :: "string option"
  se_not :: "string option"
  se_after :: "int option"
  se_before :: "int option"
  se_attachment :: "bool option"
  se_ascending :: bool
  se_collapse :: bool

text \<open>The hits as a table: a folder named twice keeps the UIDs of its last entry.\<close>

definition hit_rows :: "folder_hits list \<Rightarrow> (string \<times> nat) list" where
  "hit_rows hits =
     (let m = map_of (rev (map (\<lambda>h. (fh_folder h, fh_uids h)) hits))
      in concat (map (\<lambda>f. map (\<lambda>u. (f, u)) (the (m f))) (remdups (map fh_folder hits))))"

definition search_passes :: "mail_tables \<Rightarrow> search \<Rightarrow> mail \<Rightarrow> bool" where
  "search_passes t s e \<longleftrightarrow>
     list_ex (\<lambda>m. me_email m = ml_id e \<and> (case se_mailbox s of None \<Rightarrow> True | Some b \<Rightarrow> me_mailbox m = b)) (mt_memberships t) \<and>
     (case se_other_than s of None \<Rightarrow> True
      | Some bs \<Rightarrow> list_ex (\<lambda>m. me_email m = ml_id e \<and> me_mailbox m \<notin> set bs) (mt_memberships t)) \<and>
     (case se_after s of None \<Rightarrow> True | Some a \<Rightarrow> a \<le> ml_received e) \<and>
     (case se_before s of None \<Rightarrow> True | Some b \<Rightarrow> ml_received e < b) \<and>
     (case se_attachment s of None \<Rightarrow> True | Some a \<Rightarrow> ml_attachment e = a) \<and>
     (case se_has s of None \<Rightarrow> True | Some kw \<Rightarrow> kw \<in> set (ml_keywords e)) \<and>
     (case se_not s of None \<Rightarrow> True | Some kw \<Rightarrow> kw \<notin> set (ml_keywords e))"

definition search_matched :: "mail_tables \<Rightarrow> search \<Rightarrow> mail list" where
  "search_matched t s =
     filter (search_passes t s)
       (case se_hits s of
          None \<Rightarrow> mt_emails t
        | Some hits \<Rightarrow> concat (map (\<lambda>(f, u). filter (\<lambda>e. ml_folder e = f \<and> ml_uid e = u) (mt_emails t)) (hit_rows hits)))"

definition ml_key :: "mail \<Rightarrow> sort_key" where
  "ml_key e = (ml_received e, ml_id e)"

text \<open>The rank of a row inside its thread, in the order of the result.\<close>

definition thread_rank :: "bool \<Rightarrow> mail list \<Rightarrow> mail \<Rightarrow> nat" where
  "thread_rank ascending matched e =
     Suc (length (filter (\<lambda>o'. ml_thread o' = ml_thread e \<and> precedes ascending (ml_key o') (ml_key e)) matched))"

definition search_kept :: "mail_tables \<Rightarrow> search \<Rightarrow> mail list" where
  "search_kept t s =
     (let matched = search_matched t s
      in filter (\<lambda>e. \<not> se_collapse s \<or> thread_rank (se_ascending s) matched e = 1) matched)"

definition search_ids :: "mail_tables \<Rightarrow> search \<Rightarrow> row_id list" where
  "search_ids t s = map snd (in_order (se_ascending s) (map ml_key (search_kept t s)))"

definition search_index :: "mail_tables \<Rightarrow> search \<Rightarrow> row_id \<Rightarrow> nat option" where
  "search_index t s anchor = find_index (\<lambda>i. i = anchor) (search_ids t s)"

definition store_search :: "mail_tables \<Rightarrow> search \<Rightarrow> list_window \<Rightarrow> queried option" where
  "store_search t s w = window_over (mt_state t) (search_ids t s) (search_index t s) w"

subsection \<open>The order of an answer\<close>

fun firsts :: "('k \<Rightarrow> 'g) \<Rightarrow> 'k list \<Rightarrow> 'k list" where
  "firsts th [] = []"
| "firsts th (k # ks) = k # filter (\<lambda>x. th x \<noteq> th k) (firsts th ks)"

text \<open>What paging rests on: an order in which every two rows are apart.\<close>

locale answer_order =
  fixes before :: "'k \<Rightarrow> 'k \<Rightarrow> bool"
  assumes before_irrefl: "\<not> before x x"
    and before_trans: "before x y \<Longrightarrow> before y z \<Longrightarrow> before x z"
    and before_total: "x \<noteq> y \<Longrightarrow> before x y \<or> before y x"
begin

lemma before_asym: "before x y \<Longrightarrow> \<not> before y x"
  using before_irrefl before_trans by blast

lemma in_order_distinct: "sorted_wrt before xs \<Longrightarrow> distinct xs"
  by (induction xs) (auto simp: before_irrefl)

lemma one_order: "sorted_wrt before xs \<Longrightarrow> sorted_wrt before ys \<Longrightarrow> set xs = set ys \<Longrightarrow> xs = ys"
proof (induction xs arbitrary: ys)
  case (Cons x xs)
  then obtain y ys' where ys: "ys = y # ys'" by (cases ys) auto
  have "x = y"
  proof (rule ccontr)
    assume "x \<noteq> y"
    then have "before x y" "before y x" using Cons.prems ys by (metis insert_iff list.simps(15) sorted_wrt.simps(2))+
    then show False using before_asym by blast
  qed
  moreover have "set xs = set ys'"
    using Cons.prems in_order_distinct [OF Cons.prems(1)] in_order_distinct [OF Cons.prems(2)] \<open>x = y\<close> ys by auto
  ultimately show ?case using Cons.IH [of ys'] Cons.prems(1,2) ys by simp
qed simp

text \<open>The first of each group, in the order of the list.\<close>

lemma firsts_in_order:
  assumes "sorted_wrt before ks"
  shows "sorted_wrt before (firsts th ks) \<and> set (firsts th ks) = {k \<in> set ks. \<not> (\<exists>k'\<in>set ks. th k' = th k \<and> before k' k)}"
  using assms
proof (induction ks)
  case (Cons k ks)
  have "set (firsts th ks) \<subseteq> set ks" by (induction ks) auto
  then have "sorted_wrt before (firsts th (k # ks))" using Cons by (auto simp: sorted_wrt_filter)
  moreover have "set (firsts th (k # ks)) = {x \<in> set (k # ks). \<not> (\<exists>k'\<in>set (k # ks). th k' = th x \<and> before k' x)}"
    using Cons before_irrefl before_asym by (auto dest: before_asym)
  ultimately show ?case by blast
qed simp

lemma rank_counts: "sorted_wrt before xs \<Longrightarrow> i < length xs \<Longrightarrow> length (filter (\<lambda>x. before x (xs ! i)) xs) = i"
proof (induction xs arbitrary: i)
  case (Cons x xs)
  show ?case
  proof (cases i)
    case 0
    then have "filter (\<lambda>y. before y ((x # xs) ! i)) (x # xs) = []"
      using Cons.prems(1) before_asym before_irrefl by (auto simp: filter_empty_conv)
    then show ?thesis using 0 by simp
  next
    case (Suc j)
    then show ?thesis using Cons by simp
  qed
qed simp

end

interpretation answers: answer_order "precedes ascending" for ascending
  by unfold_locales (auto simp: precedes_def prod_eq_iff split: if_splits)

lemma put_in_order_rows:
  "set (put_in_order ascending k xs) = insert k (set xs)"
  "length (filter P (put_in_order ascending k xs)) = length (filter P (k # xs))"
  by (induction xs) auto

lemma put_in_order_sorted:
  "sorted_wrt (precedes ascending) xs \<Longrightarrow> k \<notin> set xs \<Longrightarrow> sorted_wrt (precedes ascending) (put_in_order ascending k xs)"
proof (induction xs)
  case (Cons x xs)
  show ?case
  proof (cases "precedes ascending x k")
    case True
    then show ?thesis using Cons by (auto simp: put_in_order_rows(1))
  next
    case False
    then have "precedes ascending k x" using answers.before_total [of k x ascending] Cons.prems(2) by auto
    then show ?thesis using Cons.prems(1) False answers.before_trans [of ascending k x] by auto
  qed
qed simp

lemma in_order_rows:
  "set (in_order ascending ks) = set ks"
  "length (filter P (in_order ascending ks)) = length (filter P ks)"
  by (induction ks) (auto simp: in_order_def put_in_order_rows)

lemma in_order_sorted: "distinct ks \<Longrightarrow> sorted_wrt (precedes ascending) (in_order ascending ks)"
  by (induction ks) (simp_all add: in_order_def put_in_order_sorted in_order_rows(1) [unfolded in_order_def])

lemma in_order_length: "length (in_order ascending ks) = length ks"
  using in_order_rows(2) [of "\<lambda>_. True"] by simp

lemma same_rows_same_order:
  assumes "distinct ks" "distinct ks'" "set ks = set ks'"
  shows "in_order ascending ks = in_order ascending ks'"
  by (rule answers.one_order [OF in_order_sorted [OF assms(1)] in_order_sorted [OF assms(2)]]) (simp add: in_order_rows assms(3))

subsection \<open>An anchor is found where it stands\<close>

text \<open>The keys of the two tables: one row per id, one membership per email and mailbox, each with its email.\<close>

definition tables_ok :: "mail_tables \<Rightarrow> bool" where
  "tables_ok t \<longleftrightarrow> distinct (map ml_id (mt_emails t)) \<and> distinct (map (\<lambda>m. (me_email m, me_mailbox m)) (mt_memberships t)) \<and>
     list_all (\<lambda>m. list_ex (\<lambda>e. ml_id e = me_email m \<and> ml_received e = me_received m) (mt_emails t)) (mt_memberships t)"

lemma query_rows_distinct:
  assumes "tables_ok t"
  shows "distinct (map me_email (query_rows t q))"
proof -
  have "distinct (map (\<lambda>m. (me_email m, me_mailbox m)) (query_rows t q))"
    using assms by (simp add: tables_ok_def query_rows_def distinct_map_filter)
  moreover have "\<forall>m\<in>set (query_rows t q). me_mailbox m = mq_mailbox q" by (simp add: query_rows_def)
  ultimately show ?thesis by (auto simp: distinct_map inj_on_def)
qed

lemma find_index_at: "distinct xs \<Longrightarrow> i < length xs \<Longrightarrow> find_index (\<lambda>x. x = xs ! i) xs = Some i"
  by (auto simp: find_index_Some nth_eq_iff_index_eq)

lemma in_order_ids:
  assumes "distinct (map snd ks)"
  shows "distinct (map snd (in_order ascending ks))"
proof -
  have "distinct ks" using assms by (simp add: distinct_map)
  then have "distinct (in_order ascending ks)" using answers.in_order_distinct [OF in_order_sorted] by blast
  then show ?thesis using assms by (auto simp: distinct_map in_order_rows(1))
qed

lemma anchor_counts:
  assumes "distinct (map snd ks)" "k \<in> set ks"
  shows "find_index (\<lambda>i. i = snd k) (map snd (in_order ascending ks)) = Some (length (filter (\<lambda>r. precedes ascending r k) ks))"
proof -
  have ks: "distinct ks" using assms(1) by (simp add: distinct_map)
  note sorted = in_order_sorted [OF ks, of ascending]
  obtain i where i: "i < length (in_order ascending ks)" "in_order ascending ks ! i = k"
    using assms(2) in_order_rows(1) [of ascending ks] by (metis in_set_conv_nth)
  have "distinct (map snd (in_order ascending ks))" by (rule in_order_ids [OF assms(1)])
  then have "find_index (\<lambda>x. x = snd k) (map snd (in_order ascending ks)) = Some i"
    using find_index_at [of "map snd (in_order ascending ks)" i] i by simp
  then show ?thesis using answers.rank_counts [OF sorted i(1)] i(2) by (simp add: in_order_rows(2))
qed

lemma query_index_spec:
  assumes "tables_ok t"
  shows "query_index t q a = find_index (\<lambda>i. i = a) (query_ids t q)"
proof (cases "List.find (\<lambda>m. me_email m = a) (query_rows t q)")
  case None
  then have "a \<notin> set (query_ids t q)"
    by (auto simp: find_None_iff query_ids_def in_order_rows(1) me_key_def)
  then have "find_index (\<lambda>i. i = a) (query_ids t q) = None" by (auto simp: find_index_None)
  then show ?thesis by (simp add: query_index_def None)
next
  case (Some m)
  then have m: "m \<in> set (query_rows t q)" "me_email m = a" by (auto simp: find_Some_iff)
  have "distinct (map snd (map me_key (query_rows t q)))"
    using query_rows_distinct [OF assms] by (simp add: me_key_def comp_def)
  from anchor_counts [OF this, of "me_key m" "mq_ascending q"] m(1)
  have "find_index (\<lambda>i. i = snd (me_key m)) (query_ids t q) =
      Some (length (filter (\<lambda>r. precedes (mq_ascending q) r (me_key m)) (map me_key (query_rows t q))))"
    unfolding query_ids_def by simp
  then show ?thesis using m(2) by (simp add: query_index_def Some filter_map comp_def) (simp add: me_key_def)
qed

text \<open>Paging by anchor: each page starts one past the last id of the page before.\<close>

fun pages :: "(list_window \<Rightarrow> queried option) \<Rightarrow> nat \<Rightarrow> nat \<Rightarrow> window_start \<Rightarrow> row_id list" where
  "pages ask limit 0 start = []"
| "pages ask limit (Suc n) start =
     (case ask \<lparr>wi_start = start, wi_limit = limit, wi_total = False\<rparr> of
        None \<Rightarrow> []
      | Some a \<Rightarrow> if qd_ids a = [] then [] else qd_ids a @ pages ask limit n (Start_Anchor (last (qd_ids a)) 1))"

lemma pages_over:
  assumes ids: "distinct ids" and fits: "length ids \<le> i64_max" and limit: "0 < limit"
    and ask: "\<And>w. ask w = window_over state ids (\<lambda>a. find_index (\<lambda>i. i = a) ids) w"
    and at: "window_position \<lparr>wi_start = start, wi_limit = limit, wi_total = False\<rparr> None (\<lambda>a. find_index (\<lambda>i. i = a) ids) = Some p"
    and forward: "\<forall>i. start = Start_Position i \<longrightarrow> 0 \<le> i" and p: "p \<le> length ids" and n: "length ids - p \<le> n"
  shows "pages ask limit n start = drop p ids"
  using at forward p n
proof (induction n arbitrary: start p)
  case (Suc n)
  have small: "min p i64_max = p" using Suc.prems(3) fits by simp
  have "needs_total \<lparr>wi_start = start, wi_limit = limit, wi_total = False\<rparr> = False"
    using Suc.prems(2) by (auto simp: needs_total_def split: window_start.split)
  then have a: "ask \<lparr>wi_start = start, wi_limit = limit, wi_total = False\<rparr> =
      Some \<lparr>qd_state = state, qd_position = p, qd_ids = take limit (drop p ids), qd_total = None\<rparr>"
    using Suc.prems(1) small by (simp add: ask window_over_def)
  show ?case
  proof (cases "p = length ids")
    case True
    then show ?thesis by (simp add: a)
  next
    case False
    let ?page = "take limit (drop p ids)" and ?p = "p + min limit (length ids - p)"
    have len: "length ?page = min limit (length ids - p)" by simp
    have ne: "?page \<noteq> []" using False Suc.prems(3) limit by simp
    have l: "?p - 1 < length ids" "?p \<le> length ids" "p < ?p" using False Suc.prems(3) limit by auto
    have "last ?page = ?page ! (length ?page - 1)" by (rule last_conv_nth [OF ne])
    also have "\<dots> = ids ! (?p - 1)" using l(3) limit Suc.prems(3) False unfolding len by (simp add: nth_take nth_drop)
    finally have "find_index (\<lambda>i. i = last ?page) ids = Some (?p - 1)" using find_index_at [OF ids l(1)] by simp
    moreover have "?p \<le> u64_max" using l(2) fits by (simp add: i64_max_def u64_max_def)
    ultimately have "window_position \<lparr>wi_start = Start_Anchor (last ?page) 1, wi_limit = limit, wi_total = False\<rparr> None
        (\<lambda>a. find_index (\<lambda>i. i = a) ids) = Some ?p"
      using l(3) by (simp add: window_position_def)
    moreover have "length ids - ?p \<le> n" using l(2,3) Suc.prems(4) by linarith
    ultimately have "pages ask limit n (Start_Anchor (last ?page) 1) = drop ?p ids" using l(2) by (intro Suc.IH) simp_all
    moreover have "drop p ids = ?page @ drop ?p ids"
      using append_take_drop_id [of limit "drop p ids"] by (cases "limit \<le> length ids - p") (auto simp: add.commute)
    ultimately show ?thesis using ne by (simp add: a)
  qed
qed simp

subsection \<open>The index of a mailbox and the search agree\<close>

definition search_of :: "mailbox_query \<Rightarrow> search" where
  "search_of q = \<lparr>se_hits = None, se_mailbox = Some (mq_mailbox q), se_other_than = None, se_has = mq_has q, se_not = mq_not q,
     se_after = None, se_before = None, se_attachment = None, se_ascending = mq_ascending q, se_collapse = mq_collapse q\<rparr>"

definition member :: "mail_tables \<Rightarrow> string \<Rightarrow> mail \<Rightarrow> bool" where
  "member t b e \<longleftrightarrow> list_ex (\<lambda>m. me_email m = ml_id e \<and> me_mailbox m = b) (mt_memberships t)"

lemma one_email:
  assumes "tables_ok t" "e \<in> set (mt_emails t)" "e' \<in> set (mt_emails t)" "ml_id e = ml_id e'"
  shows "e = e'"
  using assms by (auto simp: tables_ok_def distinct_map inj_on_def)

lemma email_of:
  assumes "tables_ok t" "m \<in> set (mt_memberships t)"
  obtains e where "e \<in> set (mt_emails t)" "ml_id e = me_email m" "me_key m = ml_key e"
  using assms by (auto simp: tables_ok_def list_all_iff list_ex_iff me_key_def ml_key_def)

lemma carries_own: "tables_ok t \<Longrightarrow> e \<in> set (mt_emails t) \<Longrightarrow> carries t (ml_id e) kw \<longleftrightarrow> kw \<in> set (ml_keywords e)"
  using one_email by (fastforce simp: carries_def list_ex_iff)

lemma passes_own:
  assumes "tables_ok t" "e \<in> set (mt_emails t)"
  shows "search_passes t (search_of q) e \<longleftrightarrow> member t (mq_mailbox q) e \<and> keyword_test t q (ml_id e)"
  by (simp add: search_passes_def search_of_def member_def keyword_test_def carries_own [OF assms] split: option.split)

lemma matched_of: "tables_ok t \<Longrightarrow> e \<in> set (search_matched t (search_of q)) \<longleftrightarrow>
    e \<in> set (mt_emails t) \<and> member t (mq_mailbox q) e \<and> keyword_test t q (ml_id e)"
  using passes_own by (auto simp: search_matched_def search_of_def)

lemma ahead_own:
  assumes t: "tables_ok t" and m: "m \<in> set (mt_memberships t)" "me_mailbox m = mq_mailbox q" and e: "e \<in> set (mt_emails t)" "ml_id e = me_email m"
  shows "thread_ahead t q m \<longleftrightarrow> (\<exists>e'\<in>set (search_matched t (search_of q)). ml_thread e' = ml_thread e \<and> precedes (mq_ascending q) (ml_key e') (ml_key e))"
proof -
  have key: "me_key n = ml_key e'" if n: "n \<in> set (mt_memberships t)" "e' \<in> set (mt_emails t)" "me_email n = ml_id e'" for n e'
  proof -
    obtain x where x: "x \<in> set (mt_emails t)" "ml_id x = me_email n" "me_key n = ml_key x" by (rule email_of [OF t n(1)])
    have "ml_id x = ml_id e'" using x(2) n(3) by (rule trans)
    then have "x = e'" by (rule one_email [OF t x(1) n(2)])
    then show ?thesis using x(3) by simp
  qed
  have own: "(\<exists>x\<in>set (mt_emails t). ml_id x = me_email m \<and> P x) \<longleftrightarrow> P e" for P
  proof
    assume "\<exists>x\<in>set (mt_emails t). ml_id x = me_email m \<and> P x"
    then obtain x where x: "x \<in> set (mt_emails t)" "ml_id x = me_email m" "P x" by blast
    have "ml_id e = ml_id x" using e(2) x(2) by (rule trans [OF _ sym])
    then have "e = x" by (rule one_email [OF t e(1) x(1)])
    then show "P e" using x(3) by simp
  qed (use e in blast)
  have "thread_ahead t q m \<longleftrightarrow> (\<exists>e'\<in>set (mt_emails t). ml_thread e' = ml_thread e \<and>
      (\<exists>n\<in>set (mt_memberships t). me_email n = ml_id e' \<and> me_mailbox n = mq_mailbox q \<and> keyword_test t q (ml_id e') \<and>
         precedes (mq_ascending q) (me_key n) (me_key m)))"
    unfolding thread_ahead_def list_ex_iff m(2) by (rule own)
  also have "\<dots> \<longleftrightarrow> (\<exists>e'\<in>set (search_matched t (search_of q)). ml_thread e' = ml_thread e \<and> precedes (mq_ascending q) (ml_key e') (ml_key e))"
  proof -
    have "(\<exists>n\<in>set (mt_memberships t). me_email n = ml_id e' \<and> me_mailbox n = mq_mailbox q \<and> keyword_test t q (ml_id e') \<and>
          precedes (mq_ascending q) (me_key n) (me_key m)) \<longleftrightarrow>
        member t (mq_mailbox q) e' \<and> keyword_test t q (ml_id e') \<and> precedes (mq_ascending q) (ml_key e') (ml_key e)" if "e' \<in> set (mt_emails t)" for e'
      using key [OF _ that] key [OF m(1) e(1)] e(2) by (auto simp: member_def list_ex_iff)
    then show ?thesis by (auto simp: matched_of [OF t])
  qed
  finally show ?thesis .
qed

lemma rank_one: "thread_rank asc matched e = 1 \<longleftrightarrow> \<not> (\<exists>e'\<in>set matched. ml_thread e' = ml_thread e \<and> precedes asc (ml_key e') (ml_key e))"
  by (auto simp: thread_rank_def filter_empty_conv)

lemma kept_own: "e \<in> set (search_kept t s) \<longleftrightarrow> e \<in> set (search_matched t s) \<and>
    (se_collapse s \<longrightarrow> \<not> (\<exists>e'\<in>set (search_matched t s). ml_thread e' = ml_thread e \<and> precedes (se_ascending s) (ml_key e') (ml_key e)))"
  by (simp add: search_kept_def Let_def rank_one [simplified])

lemma query_is_search:
  assumes t: "tables_ok t"
  shows "query_ids t q = search_ids t (search_of q)"
proof -
  have "distinct (map (snd \<circ> me_key) (query_rows t q))" using query_rows_distinct [OF t] by (simp add: me_key_def comp_def)
  then have d: "distinct (map me_key (query_rows t q))" by (metis distinct_map map_map)
  have "distinct (map ml_id (search_kept t (search_of q)))"
    using t by (simp add: tables_ok_def search_kept_def search_matched_def search_of_def Let_def distinct_map_filter)
  then have "distinct (map snd (map ml_key (search_kept t (search_of q))))" by (simp add: ml_key_def comp_def)
  then have d': "distinct (map ml_key (search_kept t (search_of q)))" by (metis distinct_map)
  have rows: "m \<in> set (query_rows t q) \<longleftrightarrow> m \<in> set (mt_memberships t) \<and> me_mailbox m = mq_mailbox q \<and> e \<in> set (search_kept t (search_of q))"
    if m: "m \<in> set (mt_memberships t)" and e: "e \<in> set (mt_emails t)" "ml_id e = me_email m" for m e
  proof (cases "me_mailbox m = mq_mailbox q")
    case True
    have "member t (mq_mailbox q) e" using m e(2) True by (auto simp: member_def list_ex_iff)
    moreover have "se_collapse (search_of q) = mq_collapse q" "se_ascending (search_of q) = mq_ascending q" by (simp_all add: search_of_def)
    ultimately show ?thesis
      using m True e unfolding kept_own query_rows_def by (simp add: matched_of [OF t] ahead_own [OF t m True e])
  qed (simp add: query_rows_def)
  have "set (map me_key (query_rows t q)) = set (map ml_key (search_kept t (search_of q)))"
  proof (intro set_eqI iffI)
    fix k assume "k \<in> set (map me_key (query_rows t q))"
    then obtain m where m: "m \<in> set (query_rows t q)" "k = me_key m" by auto
    then have mm: "m \<in> set (mt_memberships t)" by (simp add: query_rows_def)
    obtain e where e: "e \<in> set (mt_emails t)" "ml_id e = me_email m" "me_key m = ml_key e" by (rule email_of [OF t mm])
    then show "k \<in> set (map ml_key (search_kept t (search_of q)))" using rows [OF mm e(1,2)] m by auto
  next
    fix k assume "k \<in> set (map ml_key (search_kept t (search_of q)))"
    then obtain e where k: "e \<in> set (search_kept t (search_of q))" "k = ml_key e" by auto
    then have e: "e \<in> set (mt_emails t)" "member t (mq_mailbox q) e"
      using matched_of [OF t, of e q] by (auto simp: search_kept_def Let_def)
    then obtain m where m: "m \<in> set (mt_memberships t)" "me_email m = ml_id e" "me_mailbox m = mq_mailbox q"
      by (auto simp: member_def list_ex_iff)
    obtain e' where e': "e' \<in> set (mt_emails t)" "ml_id e' = me_email m" "me_key m = ml_key e'" by (rule email_of [OF t m(1)])
    have "e' = e" using one_email [OF t e'(1) e(1)] e'(2) m(2) by simp
    then show "k \<in> set (map me_key (query_rows t q))" using rows [OF m(1) e(1)] m k e'(3) by force
  qed
  from same_rows_same_order [OF d d' this] show ?thesis by (simp add: query_ids_def search_ids_def search_of_def)
qed

lemma firsts_map: "map g (firsts (\<lambda>k. th (g k)) ks) = firsts th (map g ks)"
proof (induction ks)
  case (Cons k ks)
  have "map g (filter (\<lambda>x. th (g x) \<noteq> th (g k)) ys) = filter (\<lambda>x. th x \<noteq> th (g k)) (map g ys)" for ys
    by (simp add: filter_map comp_def)
  then show ?case using Cons by simp
qed simp

definition thread_held :: "mail_tables \<Rightarrow> row_id \<Rightarrow> string" where
  "thread_held t i = (case List.find (\<lambda>e. ml_id e = i) (mt_emails t) of None \<Rightarrow> [] | Some e \<Rightarrow> ml_thread e)"

lemma thread_held_own:
  assumes "tables_ok t" "e \<in> set (mt_emails t)"
  shows "thread_held t (ml_id e) = ml_thread e"
proof -
  obtain x where x: "List.find (\<lambda>x. ml_id x = ml_id e) (mt_emails t) = Some x"
    using assms(2) by (cases "List.find (\<lambda>x. ml_id x = ml_id e) (mt_emails t)") (auto simp: find_None_iff)
  then have "x \<in> set (mt_emails t)" "ml_id x = ml_id e" by (auto simp: find_Some_iff)
  then have "x = e" using one_email [OF assms(1) _ assms(2)] by blast
  then show ?thesis by (simp add: thread_held_def x)
qed

lemma matched_keys_distinct:
  assumes "tables_ok t" "se_hits s = None"
  shows "distinct (map ml_key (search_matched t s))" "distinct (map ml_key (search_kept t s))"
proof -
  have m: "distinct (map ml_id (search_matched t s))"
    using assms by (simp add: tables_ok_def search_matched_def distinct_map_filter)
  then have "distinct (map snd (map ml_key (search_matched t s)))" by (simp add: ml_key_def comp_def)
  then show "distinct (map ml_key (search_matched t s))" by (metis distinct_map)
  then show "distinct (map ml_key (search_kept t s))" by (simp add: search_kept_def Let_def distinct_map_filter)
qed

lemma collapsed_search:
  assumes t: "tables_ok t" and s: "se_hits s = None"
  shows "search_ids t (s\<lparr>se_collapse := True\<rparr>) = firsts (thread_held t) (search_ids t (s\<lparr>se_collapse := False\<rparr>))"
proof -
  let ?asc = "se_ascending s" and ?ms = "search_matched t s"
  have same: "search_matched t (s\<lparr>se_collapse := c\<rparr>) = ?ms" for c by (simp add: search_matched_def search_passes_def [abs_def])
  let ?all = "in_order ?asc (map ml_key ?ms)"
  have sorted: "sorted_wrt (precedes ?asc) ?all" by (rule in_order_sorted [OF matched_keys_distinct(1) [OF t s]])
  have emails: "set ?ms \<subseteq> set (mt_emails t)" by (auto simp: search_matched_def s)
  have th: "thread_held t (snd (ml_key e)) = ml_thread e" if "e \<in> set ?ms" for e
    using thread_held_own [OF t] emails that by (auto simp: ml_key_def)
  note firsts = answers.firsts_in_order [OF sorted, of "\<lambda>k. thread_held t (snd k)"]
  have "set (map ml_key (search_kept t (s\<lparr>se_collapse := True\<rparr>))) = set (firsts (\<lambda>k. thread_held t (snd k)) ?all)"
    unfolding conjunct2 [OF firsts] in_order_rows(1)
    using th by (auto simp: kept_own same)
  moreover have "distinct (map ml_key (search_kept t (s\<lparr>se_collapse := True\<rparr>)))" by (rule matched_keys_distinct(2)) (simp_all add: t s)
  ultimately have "in_order ?asc (map ml_key (search_kept t (s\<lparr>se_collapse := True\<rparr>))) = firsts (\<lambda>k. thread_held t (snd k)) ?all"
    using firsts in_order_sorted by (intro answers.one_order [where ascending = ?asc]) (auto simp: in_order_rows(1))
  moreover have "search_kept t (s\<lparr>se_collapse := False\<rparr>) = ?ms" by (simp add: search_kept_def Let_def same)
  ultimately show ?thesis by (simp add: search_ids_def firsts_map)
qed

text \<open>C34: paging by anchor, each page after the last id of the one before, reads the whole result of a query
  once and in order, and so it does for a search; as many pages as the result has ids are enough.\<close>
theorem paging_reads_the_whole_result:
  assumes "tables_ok t" "0 < limit" "length (query_ids t q) \<le> n" "length (query_ids t q) \<le> i64_max"
  shows "pages (store_query t q) limit n (Start_Position 0) = query_ids t q \<and>
    pages (store_search t (search_of q)) limit n (Start_Position 0) = query_ids t q \<and> distinct (query_ids t q)"
proof -
  have "distinct (map snd (map me_key (query_rows t q)))"
    using query_rows_distinct [OF assms(1)] by (simp add: me_key_def comp_def)
  from in_order_ids [OF this] have d: "distinct (query_ids t q)" unfolding query_ids_def .
  have at: "window_position \<lparr>wi_start = Start_Position 0, wi_limit = limit, wi_total = False\<rparr> None f = Some 0" for f
    by (simp add: window_position_def)
  note all = pages_over [OF d assms(4,2) _ at, of _ _ n]
  have "store_query t q w = window_over (mt_state t) (query_ids t q) (\<lambda>a. find_index (\<lambda>i. i = a) (query_ids t q)) w" for w
    by (simp add: store_query_def query_index_spec [OF assms(1), abs_def])
  moreover have "store_search t (search_of q) w = window_over (mt_state t) (query_ids t q) (\<lambda>a. find_index (\<lambda>i. i = a) (query_ids t q)) w" for w
    by (simp add: store_search_def search_index_def [abs_def] query_is_search [OF assms(1)])
  ultimately show ?thesis using all assms(3) d by simp
qed

text \<open>C13: the window index of a mailbox, which counts the rows before an anchor and drops a row when one of
  its thread sorts ahead, answers every window exactly as the search over the emails does, which numbers the
  rows and ranks each thread.\<close>
theorem the_index_answers_as_the_search:
  assumes "tables_ok t"
  shows "store_query t q w = store_search t (search_of q) w"
  by (simp add: store_query_def store_search_def query_index_spec [OF assms, abs_def] search_index_def [abs_def] query_is_search [OF assms])

text \<open>C35: a collapsed result is the result with the first email of each thread kept.\<close>
theorem collapse_keeps_the_first_of_each_thread:
  assumes "tables_ok t"
  shows "query_ids t (q\<lparr>mq_collapse := True\<rparr>) = firsts (thread_held t) (query_ids t (q\<lparr>mq_collapse := False\<rparr>))"
proof -
  have "search_of (q\<lparr>mq_collapse := c\<rparr>) = (search_of q)\<lparr>se_collapse := c\<rparr>" for c by (simp add: search_of_def)
  then show ?thesis using collapsed_search [OF assms, of "search_of q"] by (simp add: query_is_search [OF assms] search_of_def)
qed

definition two_mails :: mail_tables where
  "two_mails = \<lparr>mt_state = 4, mt_emails = [\<lparr>ml_id = ''a'', ml_thread = ''t'', ml_folder = ''m1'', ml_uid = 1, ml_keywords = [], ml_received = 5, ml_attachment = False\<rparr>,
      \<lparr>ml_id = ''b'', ml_thread = ''t'', ml_folder = ''m1'', ml_uid = 2, ml_keywords = [''$seen''], ml_received = 7, ml_attachment = False\<rparr>],
     mt_memberships = [\<lparr>me_email = ''a'', me_mailbox = ''m1'', me_received = 5\<rparr>, \<lparr>me_email = ''b'', me_mailbox = ''m1'', me_received = 7\<rparr>]\<rparr>"

definition newest_first :: mailbox_query where
  "newest_first = \<lparr>mq_mailbox = ''m1'', mq_has = None, mq_not = None, mq_ascending = False, mq_collapse = False\<rparr>"

lemma two_mails_ok: "tables_ok two_mails" "query_ids two_mails newest_first = [''b'', ''a'']"
  by (simp_all add: tables_ok_def two_mails_def newest_first_def query_ids_def query_rows_def keyword_test_def in_order_def me_key_def precedes_def)

theorem paging_reads_the_whole_result_witness:
  "pages (store_query two_mails newest_first) 1 2 (Start_Position 0) = [''b'', ''a''] \<and>
   pages (store_search two_mails (search_of newest_first)) 1 2 (Start_Position 0) = [''b'', ''a''] \<and> distinct [''b'', ''a'']"
  using paging_reads_the_whole_result [OF two_mails_ok(1), of 1 newest_first 2] two_mails_ok(2) by (simp add: i64_max_def)

theorem the_index_answers_as_the_search_witness:
  "store_query two_mails newest_first \<lparr>wi_start = Start_Anchor ''b'' 1, wi_limit = 1, wi_total = True\<rparr> =
   store_search two_mails (search_of newest_first) \<lparr>wi_start = Start_Anchor ''b'' 1, wi_limit = 1, wi_total = True\<rparr>"
  by (rule the_index_answers_as_the_search [OF two_mails_ok(1)])

theorem collapse_keeps_the_first_of_each_thread_witness:
  "query_ids two_mails (newest_first\<lparr>mq_collapse := True\<rparr>) = [''b'']"
proof -
  have "newest_first\<lparr>mq_collapse := False\<rparr> = newest_first" by (simp add: newest_first_def)
  then show ?thesis
    using collapse_keeps_the_first_of_each_thread [OF two_mails_ok(1), of newest_first] two_mails_ok(2) by (simp add: thread_held_def two_mails_def)
qed

end
