(* ===== verification/Search_Line.thy ===== *)
theory Search_Line
  imports Mailbox_Name
begin

text \<open>
  A search as it goes to the server (\<open>session/read/search.rs\<close>): the terms of what the user typed, the keys
  of the command, the command of one window of sequence numbers with its literals, and the walk over the
  windows. What the server reads of a command is in \<open>read_command\<close>.
\<close>

subsection \<open>What is asked\<close>

datatype literals = Plus | Minus | Synchronizing

definition LITERAL_MINUS_BYTES :: nat where "LITERAL_MINUS_BYTES = 4096"

definition unsynchronized :: "literals \<Rightarrow> nat \<Rightarrow> bool" where
  "unsynchronized l bytes = (case l of Plus \<Rightarrow> True | Minus \<Rightarrow> bytes \<le> LITERAL_MINUS_BYTES | Synchronizing \<Rightarrow> False)"

record searching =
  sg_gmail :: bool
  sg_literals :: literals

text \<open>A day as its year, month and day of the month.\<close>

type_synonym imap_day = "int \<times> nat \<times> nat"

text \<open>\<open>sk_gmail\<close> is the Gmail form with the label of the search, if any.\<close>

record search_ask =
  sk_text :: utext
  sk_from :: utext
  sk_unseen :: bool
  sk_flagged :: bool
  sk_since :: "imap_day option"
  sk_before :: "imap_day option"
  sk_gmail :: "string option option"
  sk_server :: searching

definition SEARCH_TERM_BYTES :: nat where "SEARCH_TERM_BYTES = 256"
definition SEARCH_TERMS :: nat where "SEARCH_TERMS = 8"
definition SEARCH_WINDOW :: nat where "SEARCH_WINDOW = 5000"
definition MAX_FOLDER_UIDS :: nat where "MAX_FOLDER_UIDS = 3000000"
definition MAX_YEAR :: int where "MAX_YEAR = 9999"
definition MONTHS :: "string list" where
  "MONTHS = [''Jan'', ''Feb'', ''Mar'', ''Apr'', ''May'', ''Jun'', ''Jul'', ''Aug'', ''Sep'', ''Oct'', ''Nov'', ''Dec'']"

definition UID_LIMIT :: string where "UID_LIMIT = ''the folder passes the UID limit''"
definition TERM_LIMIT :: string where "TERM_LIMIT = ''a search passes the term limit''"
definition NUL_TERM :: string where "NUL_TERM = ''a search term holds a NUL''"
definition NO_KEY :: string where "NO_KEY = ''a search names no key''"
definition NO_GMAIL :: string where "NO_GMAIL = ''the server does not search as Gmail does''"
definition NO_SEARCH_LABEL :: string where "NO_SEARCH_LABEL = ''a search label cannot be sent''"
definition NO_DATE :: string where "NO_DATE = ''a search date cannot be written''"

abbreviation quote_mark :: uchar where "quote_mark \<equiv> 34"

definition bare :: "utext \<Rightarrow> utext" where
  "bare w = filter (\<lambda>c. c \<noteq> quote_mark) w"

fun terms_loop :: "utext option \<Rightarrow> bool \<Rightarrow> utext \<Rightarrow> utext list" where
  "terms_loop cur inside [] = (case cur of None \<Rightarrow> [] | Some w \<Rightarrow> [w])"
| "terms_loop cur inside (c # cs) =
     (if is_whitespace c \<and> \<not> inside
      then (case cur of None \<Rightarrow> [] | Some w \<Rightarrow> [w]) @ terms_loop None inside cs
      else terms_loop (Some ((case cur of None \<Rightarrow> [] | Some w \<Rightarrow> w) @ [c])) (if c = quote_mark then \<not> inside else inside) cs)"

definition search_terms :: "utext \<Rightarrow> utext list" where
  "search_terms text = filter (\<lambda>w. bare w \<noteq> []) (terms_loop None False text)"

definition ask_check :: "search_ask \<Rightarrow> session_error + unit" where
  "ask_check ask =
     (let found = search_terms (sk_text ask) @ search_terms (sk_from ask)
      in if length found > SEARCH_TERMS \<or> list_ex (\<lambda>w. length (utf8 w) > SEARCH_TERM_BYTES) found then Inl (Protocol TERM_LIMIT)
         else if list_ex (\<lambda>w. 0 \<in> set w) found then Inl (Protocol NUL_TERM)
         else if sk_gmail ask \<noteq> None \<and> \<not> sg_gmail (sk_server ask) then Inl (Protocol NO_GMAIL)
         else if found = [] \<and> \<not> (case sk_gmail ask of Some (Some _) \<Rightarrow> True | _ \<Rightarrow> False) \<and>
                 \<not> (sk_unseen ask \<or> sk_flagged ask \<or> sk_since ask \<noteq> None \<or> sk_before ask \<noteq> None) then Inl (Protocol NO_KEY)
         else Inr ())"

definition ask_terms :: "search_ask \<Rightarrow> nat" where
  "ask_terms ask = length (search_terms (sk_text ask)) + length (search_terms (sk_from ask))"

subsection \<open>The keys\<close>

datatype piece = Words string | Literal string

definition raw_search :: "utext list \<Rightarrow> utext list \<Rightarrow> string" where
  "raw_search text sender =
     (let raw = join_with (CHR '' '') (map utf8 text)
      in if sender = [] then raw
         else (if raw = [] then raw else raw @ '' '') @ ''from:'' @ [CHR 0x22] @ join_with (CHR '' '') (map (\<lambda>w. utf8 (bare w)) sender) @ [CHR 0x22])"

definition four_digits :: "nat \<Rightarrow> string" where
  "four_digits n = replicate (4 - length (digits n)) (CHR ''0'') @ digits n"

definition imap_date :: "imap_day \<Rightarrow> string option" where
  "imap_date d =
     (case d of (year, month, day) \<Rightarrow>
        if year < 0 \<or> MAX_YEAR < year \<or> month = 0 \<or> length MONTHS < month then None
        else Some (digits day @ ''-'' @ MONTHS ! (month - 1) @ ''-'' @ four_digits (nat year)))"

text \<open>\<open>keys\<close>; the label of a mailbox is read from its wire name by \<open>utf7::decode\<close>.\<close>

definition day_key :: "string \<Rightarrow> imap_day option \<Rightarrow> session_error + piece list" where
  "day_key key day =
     (case day of None \<Rightarrow> Inr []
      | Some d \<Rightarrow> (case imap_date d of None \<Rightarrow> Inl (Protocol NO_DATE) | Some date \<Rightarrow> Inr [Words (key @ '' '' @ date)]))"

definition term_keys :: "text_lib \<Rightarrow> search_ask \<Rightarrow> session_error + piece list" where
  "term_keys lib ask =
     (let text = search_terms (sk_text ask); sender = search_terms (sk_from ask)
      in case sk_gmail ask of
           Some label \<Rightarrow>
             (let raw = (if text = [] \<and> sender = [] then [] else [Words ''X-GM-RAW'', Literal (raw_search text sender)])
              in case label of
                   None \<Rightarrow> Inr raw
                 | Some wire \<Rightarrow>
                     (let found = utf7_read lib wire
                      in if wire_label found = None then Inl (Protocol NO_SEARCH_LABEL)
                         else Inr (raw @ [Words ''X-GM-LABELS'', Literal found])))
         | None \<Rightarrow>
             Inr (concat (map (\<lambda>w. [Words ''TEXT'', Literal (utf8 (bare w))]) text) @
                  concat (map (\<lambda>w. [Words ''FROM'', Literal (utf8 (bare w))]) sender)))"

definition search_keys :: "text_lib \<Rightarrow> search_ask \<Rightarrow> session_error + piece list" where
  "search_keys lib ask =
     and_then (ask_check ask) (\<lambda>_.
     and_then (term_keys lib ask) (\<lambda>found.
     and_then (day_key ''SINCE'' (sk_since ask)) (\<lambda>since.
     and_then (day_key ''BEFORE'' (sk_before ask)) (\<lambda>before.
       Inr (found @ (if sk_unseen ask then [Words ''UNSEEN''] else []) @ (if sk_flagged ask then [Words ''FLAGGED''] else []) @ since @ before)))))"

subsection \<open>The command\<close>

definition crlf :: string where "crlf = [CHR 0x0D, CHR 0x0A]"

text \<open>What is open of the current segment and the segments done; each piece goes after a space.\<close>

definition put_piece :: "literals \<Rightarrow> string \<times> string list \<Rightarrow> piece \<Rightarrow> string \<times> string list" where
  "put_piece l s p =
     (case s of (current, done_segments) \<Rightarrow>
        case p of
          Words w \<Rightarrow> (current @ '' '' @ w, done_segments)
        | Literal x \<Rightarrow>
            if \<not> unsynchronized l (length x)
            then (x, done_segments @ [current @ '' '' @ ''{'' @ digits (length x) @ ''}''])
            else (current @ '' '' @ ''{'' @ digits (length x) @ ''+}'' @ crlf @ x, done_segments))"

definition search_head :: "piece list \<Rightarrow> nat \<times> nat \<Rightarrow> string" where
  "search_head ks span =
     ''UID SEARCH'' @ (if list_ex (\<lambda>p. case p of Literal _ \<Rightarrow> True | _ \<Rightarrow> False) ks then '' CHARSET UTF-8'' else []) @
     '' '' @ digits (fst span) @ '':'' @ digits (snd span)"

definition search_segments :: "piece list \<Rightarrow> nat \<times> nat \<Rightarrow> literals \<Rightarrow> session_error + string list" where
  "search_segments ks span l =
     (case foldl (put_piece l) (search_head ks span, []) ks of (current, done_segments) \<Rightarrow>
        let all = done_segments @ [current]
        in if sum_list (map length all) > MAX_COMMAND_BYTES then Inl (Protocol LINE_LIMIT) else Inr all)"

text \<open>Every segment goes out with a line end behind it, the first under a tag of its own.\<close>

definition sent_bytes :: "string list \<Rightarrow> string" where
  "sent_bytes segments = concat (map (\<lambda>s. s @ crlf) segments)"

subsection \<open>What the server reads\<close>

text \<open>A line of words and literals (RFC 3501 section 4.3, RFC 7888): a literal is its byte count in braces, a
  line end and that many bytes; a line end anywhere else ends the command.\<close>

definition literal_head :: "string \<Rightarrow> (nat \<times> string) option" where
  "literal_head s =
     (let ds = takeWhile is_ascii_digit s; r = dropWhile is_ascii_digit s;
          r = (if take 1 r = ''+'' then drop 1 r else r)
      in if ds \<noteq> [] \<and> take 3 r = ''}'' @ crlf then Some (digits_value ds, drop 3 r) else None)"

lemma literal_head_shorter: "literal_head s = Some (n, r) \<Longrightarrow> length r < length s"
proof -
  assume h: "literal_head s = Some (n, r)"
  have "length (dropWhile is_ascii_digit s) \<le> length s" by (rule length_dropWhile_le)
  then show ?thesis using h
    by (auto simp: literal_head_def Let_def crlf_def split: if_splits dest!: arg_cong [of "take 3 _" _ length])
qed

function read_command :: "string \<Rightarrow> string \<Rightarrow> (piece list \<times> string) option" where
  "read_command acc [] = None"
| "read_command acc (c # r) =
     (if c = CRb then (if take 1 r = [LFb] then Some ([Words acc], drop 1 r) else None)
      else if c = CHR ''{'' then
        (case literal_head r of
           None \<Rightarrow> None
         | Some (n, rest) \<Rightarrow>
             if n \<le> length rest
             then map_option (\<lambda>(ps, left). (Words acc # Literal (take n rest) # ps, left)) (read_command [] (drop n rest))
             else None)
      else read_command (acc @ [c]) r)"
  by pat_completeness auto
termination
  by (relation "measure (\<lambda>(acc, s). length s)") (auto dest: literal_head_shorter)

fun read_as :: "string \<Rightarrow> piece list \<Rightarrow> piece list" where
  "read_as acc [] = [Words acc]"
| "read_as acc (Words w # ps) = read_as (acc @ '' '' @ w) ps"
| "read_as acc (Literal x # ps) = Words (acc @ '' '') # Literal x # read_as [] ps"

definition clean_words :: "string \<Rightarrow> bool" where
  "clean_words w \<longleftrightarrow> CRb \<notin> set w \<and> CHR ''{'' \<notin> set w"

lemma read_words: "clean_words w \<Longrightarrow> read_command acc (w @ s) = read_command (acc @ w) s"
  by (induction w arbitrary: acc) (auto simp: clean_words_def)

lemma digits_span:
  assumes "\<not> is_ascii_digit c"
  shows "takeWhile is_ascii_digit (digits n @ c # s) = digits n" "dropWhile is_ascii_digit (digits n @ c # s) = c # s"
  using digits_all [of n] assms by (simp_all add: takeWhile_append2 dropWhile_append2 list_all_iff)

lemma literal_heads:
  "literal_head (digits n @ ''}'' @ crlf @ s) = Some (n, s)" "literal_head (digits n @ ''+}'' @ crlf @ s) = Some (n, s)"
proof -
  have "digits n \<noteq> []" using digits_all by blast
  moreover have "\<not> is_ascii_digit (CHR ''}'')" "\<not> is_ascii_digit (CHR ''+'')" by (simp_all add: is_ascii_digit_def)
  ultimately show "literal_head (digits n @ ''}'' @ crlf @ s) = Some (n, s)" "literal_head (digits n @ ''+}'' @ crlf @ s) = Some (n, s)"
    by (simp_all add: literal_head_def Let_def digits_span crlf_def)
qed

lemma read_literal:
  "read_command acc (''{'' @ digits (length x) @ ''}'' @ crlf @ x @ s) = map_option (\<lambda>(ps, left). (Words acc # Literal x # ps, left)) (read_command [] s)"
  "read_command acc (''{'' @ digits (length x) @ ''+}'' @ crlf @ x @ s) = map_option (\<lambda>(ps, left). (Words acc # Literal x # ps, left)) (read_command [] s)"
  using literal_heads(1) [of "length x" "x @ s"] literal_heads(2) [of "length x" "x @ s"] by simp_all

definition rendered :: "literals \<Rightarrow> piece \<Rightarrow> string" where
  "rendered l p = (case p of Words w \<Rightarrow> '' '' @ w
     | Literal x \<Rightarrow> '' {'' @ digits (length x) @ (if unsynchronized l (length x) then ''+}'' else ''}'') @ crlf @ x)"

lemma segments_sent:
  assumes "foldl (put_piece l) (current, finished) ks = (current', finished')"
  shows "sent_bytes (finished' @ [current']) = sent_bytes finished @ current @ concat (map (rendered l) ks) @ crlf"
  using assms
proof (induction ks arbitrary: current finished)
  case (Cons p ks)
  then show ?case
    by (cases p) (auto simp: put_piece_def rendered_def sent_bytes_def split: if_splits)
qed (simp add: sent_bytes_def)

lemma rendered_read:
  assumes "\<forall>p\<in>set ks. case p of Words w \<Rightarrow> clean_words w | _ \<Rightarrow> True"
  shows "read_command acc (concat (map (rendered l) ks) @ crlf) = Some (read_as acc ks, [])"
  using assms
proof (induction ks arbitrary: acc)
  case Nil
  then show ?case by (simp add: crlf_def)
next
  case (Cons p ks)
  let ?s = "concat (map (rendered l) ks) @ crlf"
  show ?case
  proof (cases p)
    case (Words w)
    then have "clean_words ('' '' @ w)" using Cons.prems by (simp add: clean_words_def)
    moreover have "rendered l p = '' '' @ w" by (simp add: rendered_def Words)
    ultimately show ?thesis using read_words [of "'' '' @ w" acc ?s] Words Cons by simp
  next
    case (Literal x)
    have "read_command acc (rendered l p @ ?s) = read_command (acc @ '' '') (''{'' @ digits (length x) @
        (if unsynchronized l (length x) then ''+}'' else ''}'') @ crlf @ x @ ?s)"
      by (simp add: rendered_def Literal)
    also have "\<dots> = map_option (\<lambda>(ps, left). (Words (acc @ '' '') # Literal x # ps, left)) (read_command [] ?s)"
      using read_literal [of "acc @ '' ''" x ?s] by simp
    finally show ?thesis using Cons Literal by simp
  qed
qed

lemma clean_digits: "clean_words (digits n)"
  using digits_all [of n] by (auto simp: clean_words_def list_all_iff is_ascii_digit_def)

lemma clean_append: "clean_words (u @ v) \<longleftrightarrow> clean_words u \<and> clean_words v"
  by (auto simp: clean_words_def)

lemma clean_Cons: "clean_words (c # w) \<longleftrightarrow> c \<noteq> CRb \<and> c \<noteq> CHR ''{'' \<and> clean_words w"
  by (auto simp: clean_words_def)

lemma clean_date: "imap_date d = Some date \<Longrightarrow> clean_words date"
proof -
  assume d: "imap_date d = Some date"
  have "\<forall>m\<in>set MONTHS. clean_words m" by (simp add: MONTHS_def clean_words_def)
  moreover have "clean_words (replicate k (CHR ''0''))" for k by (auto simp: clean_words_def)
  ultimately show ?thesis using d
    by (auto simp: imap_date_def four_digits_def clean_append clean_Cons clean_digits split: prod.splits if_splits)
qed

lemma clean_day_key:
  assumes "day_key key day = Inr ks" "clean_words key"
  shows "\<forall>p\<in>set ks. \<exists>w. p = Words w \<and> clean_words w"
  using assms clean_date by (auto simp: day_key_def clean_append split: option.splits) (auto simp: clean_words_def)

definition literals_of :: "piece list \<Rightarrow> string list" where
  "literals_of ks = List.map_filter (\<lambda>p. case p of Literal x \<Rightarrow> Some x | _ \<Rightarrow> None) ks"

lemma literals_of_simps [simp]:
  "literals_of [] = []" "literals_of (Words w # ks) = literals_of ks" "literals_of (Literal x # ks) = x # literals_of ks"
  "literals_of (ks @ ks') = literals_of ks @ literals_of ks'"
  by (simp_all add: literals_of_def List.map_filter_def)

lemma literals_of_words: "\<forall>p\<in>set ks. \<exists>w. p = Words w \<and> clean_words w \<Longrightarrow> literals_of ks = []"
  by (induction ks) auto

lemma literals_of_read: "literals_of (read_as acc ks) = literals_of ks"
  by (induction acc ks rule: read_as.induct) simp_all

text \<open>What goes to the server of what the user typed.\<close>

definition asked_literals :: "text_lib \<Rightarrow> search_ask \<Rightarrow> string list" where
  "asked_literals lib ask =
     (let text = search_terms (sk_text ask); sender = search_terms (sk_from ask)
      in case sk_gmail ask of
           None \<Rightarrow> map (\<lambda>w. utf8 (bare w)) (text @ sender)
         | Some label \<Rightarrow> (if text @ sender = [] then [] else [raw_search text sender]) @ (case label of None \<Rightarrow> [] | Some wire \<Rightarrow> [utf7_read lib wire]))"

lemma term_keys_read:
  assumes "term_keys lib ask = Inr ks"
  shows "literals_of ks = asked_literals lib ask" "\<forall>p\<in>set ks. case p of Words w \<Rightarrow> clean_words w | _ \<Rightarrow> True"
proof -
  have "literals_of (concat (map (\<lambda>w. [Words key, Literal (f w)]) ws)) = map f ws" for key ws and f :: "utext \<Rightarrow> string"
    by (induction ws) simp_all
  then show "literals_of ks = asked_literals lib ask"
    using assms by (auto simp: term_keys_def asked_literals_def Let_def split: option.splits if_splits)
  show "\<forall>p\<in>set ks. case p of Words w \<Rightarrow> clean_words w | _ \<Rightarrow> True"
    using assms by (auto simp: term_keys_def Let_def clean_words_def split: option.splits if_splits)
qed

lemma search_keys_read:
  assumes "search_keys lib ask = Inr ks"
  shows "literals_of ks = asked_literals lib ask" "\<forall>p\<in>set ks. case p of Words w \<Rightarrow> clean_words w | _ \<Rightarrow> True"
proof -
  obtain found since until where f: "term_keys lib ask = Inr found" "day_key ''SINCE'' (sk_since ask) = Inr since"
      "day_key ''BEFORE'' (sk_before ask) = Inr until"
      "ks = found @ (if sk_unseen ask then [Words ''UNSEEN''] else []) @ (if sk_flagged ask then [Words ''FLAGGED''] else []) @ since @ until"
    using assms by (auto simp: search_keys_def and_then_Inr_eq)
  have "clean_words ''SINCE''" "clean_words ''BEFORE''" by (simp_all add: clean_words_def)
  note days = clean_day_key [OF f(2) this(1)] clean_day_key [OF f(3) this(2)]
  show "literals_of ks = asked_literals lib ask"
    using term_keys_read(1) [OF f(1)] literals_of_words [OF days(1)] literals_of_words [OF days(2)] by (simp add: f(4))
  have "case p of Words w \<Rightarrow> clean_words w | _ \<Rightarrow> True" if "p \<in> set since \<union> set until" for p
    using days that by fastforce
  then show "\<forall>p\<in>set ks. case p of Words w \<Rightarrow> clean_words w | _ \<Rightarrow> True"
    using term_keys_read(2) [OF f(1)] by (auto simp: f(4) clean_words_def)
qed

lemma clean_head: "clean_words (search_head ks span)"
  unfolding search_head_def clean_append using clean_digits by (simp add: clean_words_def)

text \<open>C10: whatever the user typed, the server reads one command and nothing after it, and the strings in it
  are the terms of what was typed (on Gmail their one raw string and the label), byte for byte: no byte of
  them ends the command or opens another.\<close>
theorem search_text_stays_a_literal:
  assumes "search_keys lib ask = Inr ks" "search_segments ks span l = Inr segments"
  shows "\<exists>read. read_command [] (sent_bytes segments) = Some (read, []) \<and> literals_of read = asked_literals lib ask"
proof -
  obtain current finished where f: "foldl (put_piece l) (search_head ks span, []) ks = (current, finished)" by fastforce
  have "segments = finished @ [current]" using assms(2) by (simp add: search_segments_def f Let_def split: if_splits)
  then have "sent_bytes segments = search_head ks span @ concat (map (rendered l) ks) @ crlf"
    using segments_sent [OF f] by (simp add: sent_bytes_def)
  moreover have "read_command [] (search_head ks span @ concat (map (rendered l) ks) @ crlf) = Some (read_as (search_head ks span) ks, [])"
    using read_words [OF clean_head] rendered_read [OF search_keys_read(2) [OF assms(1)]] by simp
  ultimately show ?thesis using search_keys_read(1) [OF assms(1)] literals_of_read by simp
qed

definition typed_ask :: search_ask where
  "typed_ask = \<lparr>sk_text = [97, 32, 34, 98, 32, 99, 34], sk_from = [], sk_unseen = True, sk_flagged = False, sk_since = None, sk_before = None,
     sk_gmail = None, sk_server = \<lparr>sg_gmail = False, sg_literals = Synchronizing\<rparr>\<rparr>"

lemma typed_chars:
  "char_of (97::nat) = CHR ''a''" "char_of (98::nat) = CHR ''b''" "char_of (99::nat) = CHR ''c''" "char_of (32::nat) = CHR '' ''"
  "char_of (49::nat) = CHR ''1''" "char_of (51::nat) = CHR ''3''" "char_of (57::nat) = CHR ''9''"
  by code_simp+

lemma typed_keys:
  "search_keys lib typed_ask = Inr [Words ''TEXT'', Literal ''a'', Words ''TEXT'', Literal ''b c'', Words ''UNSEEN'']"
  by (simp add: search_keys_def typed_ask_def ask_check_def search_terms_def is_whitespace_def bare_def utf8_def utf8_char_def
    SEARCH_TERMS_def SEARCH_TERM_BYTES_def term_keys_def day_key_def typed_chars)

lemma typed_segments:
  "search_segments [Words ''TEXT'', Literal ''a'', Words ''TEXT'', Literal ''b c'', Words ''UNSEEN''] (1, 9) Synchronizing =
   Inr [''UID SEARCH CHARSET UTF-8 1:9 TEXT {1}'', ''a TEXT {3}'', ''b c UNSEEN'']"
  by (simp add: search_segments_def search_head_def put_piece_def unsynchronized_def digits.simps MAX_COMMAND_BYTES_def typed_chars)

theorem search_text_stays_a_literal_witness:
  "\<exists>read. read_command [] (sent_bytes [''UID SEARCH CHARSET UTF-8 1:9 TEXT {1}'', ''a TEXT {3}'', ''b c UNSEEN'']) = Some (read, []) \<and>
     literals_of read = [''a'', ''b c'']"
  using search_text_stays_a_literal [OF typed_keys typed_segments, of undefined]
  by (simp add: asked_literals_def typed_ask_def search_terms_def is_whitespace_def bare_def utf8_def utf8_char_def typed_chars)

subsection \<open>The windows\<close>

definition search_start :: "nat \<Rightarrow> session_error + nat" where
  "search_start messages = (if messages \<le> MAX_FOLDER_UIDS then Inr messages else Inl (Protocol UID_LIMIT))"

definition search_window :: "nat \<Rightarrow> nat \<Rightarrow> (nat \<times> nat) option" where
  "search_window below messages =
     (let high = min below messages in if high > 0 then Some (max (high - (SEARCH_WINDOW - 1)) 1, high) else None)"

definition hold_uids :: "nat list \<Rightarrow> nat list \<Rightarrow> session_error + nat list" where
  "hold_uids uids found =
     (if length uids + length found > MAX_FOLDER_UIDS then Inl (Protocol UID_LIMIT) else Inr (uids @ filter (\<lambda>u. u \<noteq> 0) found))"

text \<open>One round is the count the client knows before its command and the answer to it; out of rounds is \<open>None\<close>.\<close>

type_synonym search_round = "nat \<times> (nat \<times> nat \<Rightarrow> session_error + nat list)"

fun walk_windows :: "nat \<Rightarrow> nat list \<Rightarrow> search_round list \<Rightarrow> (session_error + nat list) option" where
  "walk_windows below uids [] = None"
| "walk_windows below uids ((messages, ask) # rounds) =
     (case search_window below messages of
        None \<Rightarrow> Some (Inr (rev (sort (remdups uids))))
      | Some span \<Rightarrow>
          (case and_then (ask span) (hold_uids uids) of
             Inl e \<Rightarrow> Some (Inl e)
           | Inr uids \<Rightarrow> walk_windows (fst span - 1) uids rounds))"

definition search_walk :: "search_round list \<Rightarrow> (session_error + nat list) option" where
  "search_walk rounds =
     (case rounds of
        [] \<Rightarrow> None
      | (messages, _) # _ \<Rightarrow> (case search_start messages of Inl e \<Rightarrow> Some (Inl e) | Inr below \<Rightarrow> walk_windows below [] rounds))"

text \<open>The mailbox from one command to the next: messages leave, others come at its end. A sequence number is a
  place in it.\<close>

definition box_after :: "nat list \<Rightarrow> nat list \<Rightarrow> bool" where
  "box_after box box' \<longleftrightarrow> (\<exists>stay come. box' = stay @ come \<and> subseq stay box \<and> set come \<inter> set box = {})"

definition at_places :: "nat list \<Rightarrow> nat \<times> nat \<Rightarrow> nat list" where
  "at_places box span = take (snd span + 1 - fst span) (drop (fst span - 1) box)"

fun rounds_of :: "(nat \<Rightarrow> bool) \<Rightarrow> nat list list \<Rightarrow> search_round list \<Rightarrow> bool" where
  "rounds_of matches [] [] = True"
| "rounds_of matches (box # boxes) ((messages, ask) # rounds) =
     (messages = length box \<and> (case boxes of [] \<Rightarrow> True | later # _ \<Rightarrow> box_after box later) \<and>
      (\<forall>span found. ask span = Inr found \<longrightarrow> set found = {u \<in> set (at_places box span). matches u}) \<and>
      rounds_of matches boxes rounds)"
| "rounds_of matches _ _ = False"

lemma subseq_places: "subseq ys xs \<Longrightarrow> u \<in> set (drop k ys) \<Longrightarrow> u \<in> set (drop k xs)"
proof (induction arbitrary: k rule: list_emb.induct)
  case (list_emb_Cons xs ys y)
  then have "u \<in> set (drop k ys)" by blast
  then show ?case using set_drop_subset_set_drop [of "k - 1" k ys] by (cases k) auto
next
  case (list_emb_Cons2 x y xs ys)
  have "subseq xs ys" by (rule list_emb_Cons2.hyps(2))
  then show ?case using list_emb_Cons2 list_emb_set [of "(=)" xs ys u] by (cases k) auto
qed simp

lemma places_shrink:
  assumes "box_after box box'" "u \<in> set box" "u \<in> set (drop k box')"
  shows "u \<in> set (drop k box)"
proof -
  obtain stay come where b: "box' = stay @ come" "subseq stay box" "u \<notin> set come" using assms(1,2) by (auto simp: box_after_def)
  then have "u \<in> set (drop k stay)" using assms(3) in_set_dropD by fastforce
  then show ?thesis by (rule subseq_places [OF b(2)])
qed

lemma windows_find:
  assumes "rounds_of matches boxes rounds" "walk_windows below uids rounds = Some (Inr found)"
    and "\<forall>box\<in>set boxes. u \<in> set box" "matches u" "u \<noteq> 0" "u \<in> set (drop below (hd boxes)) \<longrightarrow> u \<in> set uids"
  shows "u \<in> set found"
  using assms(1-4,6)
proof (induction matches boxes rounds arbitrary: below uids rule: rounds_of.induct)
  case (2 m box boxes messages ask rounds)
  have u: "u \<in> set box" "messages = length box" using 2 by auto
  show ?case
  proof (cases "search_window below messages")
    case None
    then have "below = 0" using u by (cases box) (auto simp: search_window_def Let_def split: if_splits)
    moreover have "found = rev (sort (remdups uids))" using 2(3) None by simp
    ultimately show ?thesis using 2(6) u(1) by simp
  next
    case (Some span)
    define high where "high = min below (length box)"
    have span: "span = (max (high - 4999) 1, high)" "0 < high"
      using Some u(2) by (auto simp: search_window_def Let_def SEARCH_WINDOW_def high_def split: if_splits)
    obtain answer where a: "ask span = Inr answer" "hold_uids uids answer = Inr (uids @ filter (\<lambda>u. u \<noteq> 0) answer)"
        "walk_windows (fst span - 1) (uids @ filter (\<lambda>u. u \<noteq> 0) answer) rounds = Some (Inr found)"
      using 2(3) Some by (auto simp: and_then_def hold_uids_def split: sum.splits if_splits)
    have "set answer = {v \<in> set (at_places box span). m v}" using 2(2) a(1) unfolding rounds_of.simps by blast
    moreover have "u \<in> set (drop (fst span - 1) box) \<Longrightarrow> u \<in> set (at_places box span) \<or> u \<in> set (drop below box)"
    proof -
      assume in_drop: "u \<in> set (drop (fst span - 1) box)"
      have "drop (fst span - 1) box = at_places box span @ drop high box"
        using span append_take_drop_id [of "high + 1 - fst span" "drop (fst span - 1) box"] by (simp add: at_places_def)
      moreover have "drop high box = drop below box" by (simp add: high_def min_def)
      ultimately show "u \<in> set (at_places box span) \<or> u \<in> set (drop below box)" using in_drop by auto
    qed
    ultimately have now: "u \<in> set (drop (fst span - 1) box) \<longrightarrow> u \<in> set (uids @ filter (\<lambda>u. u \<noteq> 0) answer)"
      using 2(5,6) assms(5) by auto
    show ?thesis
    proof (cases boxes)
      case Nil
      then show ?thesis using 2(2) a(3) by (cases rounds) auto
    next
      case (Cons later boxes')
      then have "box_after box later" "rounds_of m boxes rounds" using 2(2) by auto
      moreover have "u \<in> set (drop (fst span - 1) later) \<longrightarrow> u \<in> set (drop (fst span - 1) box)"
        using places_shrink [OF \<open>box_after box later\<close> u(1)] by blast
      ultimately show ?thesis using "2.IH" [OF _ a(3)] 2(4,5) now Cons by auto
    qed
  qed
qed simp_all

lemma windows_sound:
  assumes "rounds_of matches boxes rounds" "walk_windows below uids rounds = Some (Inr found)"
  shows "sorted_wrt (>) found \<and> (\<forall>u\<in>set found. u \<in> set uids \<or> matches u \<and> (\<exists>box\<in>set boxes. u \<in> set box))"
  using assms
proof (induction matches boxes rounds arbitrary: below uids rule: rounds_of.induct)
  case (2 m box boxes messages ask rounds)
  show ?case
  proof (cases "search_window below messages")
    case None
    then have "found = rev (sort (remdups uids))" using 2(3) by simp
    moreover have "sorted_wrt (<) (sort (remdups uids))" by (simp add: strict_sorted_iff)
    ultimately show ?thesis by (simp add: sorted_wrt_rev)
  next
    case (Some span)
    obtain answer where a: "ask span = Inr answer"
        "walk_windows (fst span - 1) (uids @ filter (\<lambda>u. u \<noteq> 0) answer) rounds = Some (Inr found)"
      using 2(3) Some by (auto simp: and_then_def hold_uids_def split: sum.splits if_splits)
    have "set answer = {v \<in> set (at_places box span). m v}" using 2(2) a(1) unfolding rounds_of.simps by blast
    moreover have "set (at_places box span) \<subseteq> set box" unfolding at_places_def using in_set_takeD in_set_dropD by fast
    moreover have "rounds_of m boxes rounds" using 2(2) by simp
    ultimately show ?thesis using "2.IH" [OF _ a(2)] by fastforce
  qed
qed simp_all

lemma windows_end:
  assumes "length rounds > (below + 4999) div 5000"
  shows "walk_windows below uids rounds \<noteq> None"
  using assms
proof (induction rounds arbitrary: below uids)
  case (Cons round rounds)
  obtain messages ask where round: "round = (messages, ask)" by (cases round)
  show ?case
  proof (cases "search_window below messages")
    case (Some span)
    then have "fst span - 1 = min below messages - 5000" "0 < below"
      by (auto simp: search_window_def Let_def SEARCH_WINDOW_def split: if_splits)
    then have "(fst span - 1 + 4999) div 5000 < (below + 4999) div 5000"
    proof -
      have "5000 + (fst span - 1 + 4999) \<le> below + 4999 \<or> fst span - 1 = 0 \<and> 5000 \<le> below + 4999"
        using \<open>fst span - 1 = min below messages - 5000\<close> \<open>0 < below\<close> by linarith
      then show ?thesis
        using div_le_mono [of "5000 + (fst span - 1 + 4999)" "below + 4999" 5000] div_le_mono [of 5000 "below + 4999" 5000] by auto
    qed
    then have "(fst span - 1 + 4999) div 5000 < length rounds" using Cons.prems by simp
    then show ?thesis using Cons.IH [of "fst span - 1"] Some by (simp add: round split: sum.split)
  qed (simp add: round)
qed simp

text \<open>C15: while messages leave and others come between its commands, the walk over the windows of a search
  ends, after a command for each window at most, and what it answers is in strictly falling order, holds every
  match that stayed from its first command to its last, and nothing that never was a match in the mailbox.\<close>
theorem the_windows_find_what_stays:
  assumes "rounds_of matches (box # boxes) rounds" "length rounds > (length box + 4999) div 5000"
  shows "case search_walk rounds of None \<Rightarrow> False | Some (Inl e) \<Rightarrow> True
    | Some (Inr found) \<Rightarrow> sorted_wrt (>) found \<and> {u. u \<noteq> 0 \<and> matches u \<and> (\<forall>b\<in>set (box # boxes). u \<in> set b)} \<subseteq> set found \<and>
        set found \<subseteq> {u. matches u \<and> (\<exists>b\<in>set (box # boxes). u \<in> set b)}"
proof -
  obtain ask rounds' where r: "rounds = (length box, ask) # rounds'"
    using assms(1) by (cases rounds) (auto split: prod.splits)
  show ?thesis
  proof (cases "length box \<le> MAX_FOLDER_UIDS")
    case True
    then have w: "search_walk rounds = walk_windows (length box) [] rounds" by (simp add: search_walk_def search_start_def r)
    obtain result where res: "walk_windows (length box) [] rounds = Some result" using windows_end [OF assms(2)] by blast
    show ?thesis
    proof (cases result)
      case (Inr found)
      have "u \<in> set found" if "u \<noteq> 0" "matches u" "\<forall>b\<in>set (box # boxes). u \<in> set b" for u
        using windows_find [OF assms(1) res [unfolded Inr], of u] that by simp
      then show ?thesis using windows_sound [OF assms(1) res [unfolded Inr]] by (auto simp: w res Inr)
    qed (simp add: w res)
  qed (simp add: search_walk_def search_start_def r)
qed

theorem the_windows_find_what_stays_witness:
  "case search_walk [(3, \<lambda>span. Inr (filter (\<lambda>u. u \<noteq> 4) (at_places [2, 4, 6] span))), (2, \<lambda>span. Inr (at_places [2, 6] span))] of
     None \<Rightarrow> False | Some (Inl e) \<Rightarrow> True | Some (Inr found) \<Rightarrow> sorted_wrt (>) found \<and> {2, 6} \<subseteq> set found \<and> 4 \<notin> set found"
proof -
  have "rounds_of (\<lambda>u. u \<noteq> 4) [[2, 4, 6], [2, 6]]
     [(3, \<lambda>span. Inr (filter (\<lambda>u. u \<noteq> 4) (at_places [2, 4, 6] span))), (2, \<lambda>span. Inr (at_places [2, 6] span))]"
  proof -
    have "box_after [2, 4, 6] [2, 6]" unfolding box_after_def by (intro exI [of _ "[2, 6]"] exI [of _ "[]"]) simp
    moreover have "(4 :: nat) \<notin> set (at_places [2, 6] span)" for span
      unfolding at_places_def using in_set_takeD in_set_dropD by fastforce
    ultimately show ?thesis by auto
  qed
  from the_windows_find_what_stays [OF this] show ?thesis
    by (auto split: option.splits sum.splits)
qed

end
