(* ===== verification/Search_Plan.thy ===== *)
theory Search_Plan
  imports Query_Window Search_Line Mailbox_Rights
begin

text \<open>
  \<open>Email/query\<close> (\<open>jmap/query.rs\<close>), the plan of the folders a search asks (\<open>jmap/query/plan.rs\<close>) and the run
  of one plan on a session (\<open>runtime/search.rs\<close>). JSON and the parsing of a date are not under \<open>src/\<close>: an
  argument record is the call as the library read it, and a date is what the \<open>time\<close> crate made of it.
\<close>

subsection \<open>The filter\<close>

record mail_condition =
  cn_mailbox :: "string option"
  cn_other_than :: "string list option"
  cn_has :: "string option"
  cn_not :: "string option"
  cn_text :: "utext option"
  cn_from :: "utext option"
  cn_after :: "string option"
  cn_before :: "string option"
  cn_attachment :: "bool option"

record mail_filter =
  fi_mailbox :: "string option"
  fi_other_than :: "string list option"
  fi_has :: "string option"
  fi_not :: "string option"
  fi_text :: utext
  fi_from :: utext
  fi_after :: "int option"
  fi_before :: "int option"
  fi_attachment :: "bool option"

definition filter_default :: mail_filter where
  "filter_default = \<lparr>fi_mailbox = None, fi_other_than = None, fi_has = None, fi_not = None, fi_text = [], fi_from = [],
     fi_after = None, fi_before = None, fi_attachment = None\<rparr>"

definition QUERY_LIMIT :: nat where "QUERY_LIMIT = 200"
definition SEEN_KEYWORD :: string where "SEEN_KEYWORD = ''$seen''"
definition FLAGGED_KEYWORD :: string where "FLAGGED_KEYWORD = ''$flagged''"
definition RECEIVED_AT :: string where "RECEIVED_AT = ''receivedAt''"
definition UNSERVED :: string where "UNSERVED = ''the filter names an operator or a property the bridge does not serve''"
definition NO_KEYWORD :: string where "NO_KEYWORD = ''a keyword of the filter is no keyword''"
definition NO_UTC_DATE :: string where "NO_UTC_DATE = ''a date of the filter is no UTCDate''"
definition NO_CHARSET :: string where "NO_CHARSET = ''the server cannot search in UTF-8''"

definition filter_ask :: "mail_filter \<Rightarrow> search_ask" where
  "filter_ask f = \<lparr>sk_text = fi_text f, sk_from = fi_from f, sk_unseen = False, sk_flagged = False, sk_since = None, sk_before = None,
     sk_gmail = None, sk_server = \<lparr>sg_gmail = False, sg_literals = Synchronizing\<rparr>\<rparr>"

definition filter_searches :: "mail_filter \<Rightarrow> bool" where
  "filter_searches f \<longleftrightarrow> ask_terms (filter_ask f) > 0"

definition is_window :: "mail_filter \<Rightarrow> bool" where
  "is_window f \<longleftrightarrow> fi_mailbox f \<noteq> None \<and> fi_other_than f = None \<and> fi_after f = None \<and> fi_before f = None \<and> fi_attachment f = None \<and>
     \<not> filter_searches f"

text \<open>A parsed date is its whole seconds and the nanoseconds past them.\<close>

definition whole_seconds :: "(string \<Rightarrow> (int \<times> nat) option) \<Rightarrow> string option \<Rightarrow> method_error + int option" where
  "whole_seconds parse date =
     (case date of
        None \<Rightarrow> Inr None
      | Some d \<Rightarrow>
          (case parse d of
             Some (whole, nanos) \<Rightarrow>
               if d \<noteq> [] \<and> last d \<in> {CHR ''Z'', CHR ''z''} then Inr (Some (if nanos > 0 then whole + 1 else whole))
               else Inl (InvalidArguments NO_UTC_DATE)
           | None \<Rightarrow> Inl (InvalidArguments NO_UTC_DATE)))"

definition filter_keyword :: "string option \<Rightarrow> method_error + string option" where
  "filter_keyword named =
     (case named of None \<Rightarrow> Inr None
      | Some n \<Rightarrow> (case canonical_keyword n of None \<Rightarrow> Inl (InvalidArguments NO_KEYWORD) | Some k \<Rightarrow> Inr (Some k)))"

text \<open>The filter of a call: none, a value the condition cannot hold, or a condition.\<close>

definition filter_of :: "(string \<Rightarrow> (int \<times> nat) option) \<Rightarrow> mail_condition option option \<Rightarrow> method_error + mail_filter" where
  "filter_of parse given =
     (case given of
        None \<Rightarrow> Inr filter_default
      | Some None \<Rightarrow> Inl (UnsupportedFilter UNSERVED)
      | Some (Some c) \<Rightarrow>
          and_then (filter_keyword (cn_has c)) (\<lambda>has.
          and_then (filter_keyword (cn_not c)) (\<lambda>hasnt.
          and_then (whole_seconds parse (cn_after c)) (\<lambda>after.
          and_then (whole_seconds parse (cn_before c)) (\<lambda>before.
            Inr \<lparr>fi_mailbox = cn_mailbox c, fi_other_than = cn_other_than c, fi_has = has, fi_not = hasnt,
                 fi_text = (case cn_text c of None \<Rightarrow> [] | Some t \<Rightarrow> t), fi_from = (case cn_from c of None \<Rightarrow> [] | Some t \<Rightarrow> t),
                 fi_after = after, fi_before = before, fi_attachment = cn_attachment c\<rparr>)))))"

record comparator =
  cm_property :: string
  cm_ascending :: bool
  cm_collation :: "string option"

definition sort_ascending :: "comparator list option \<Rightarrow> method_error + bool" where
  "sort_ascending asked =
     (case asked of
        None \<Rightarrow> Inr False
      | Some [] \<Rightarrow> Inr False
      | Some [one] \<Rightarrow> if cm_property one = RECEIVED_AT \<and> cm_collation one = None then Inr (cm_ascending one) else Inl UnsupportedSort
      | _ \<Rightarrow> Inl UnsupportedSort)"

definition query_limit :: "nat option \<Rightarrow> nat \<times> bool" where
  "query_limit asked = (case asked of Some n \<Rightarrow> if n \<le> QUERY_LIMIT then (n, False) else (QUERY_LIMIT, True) | None \<Rightarrow> (QUERY_LIMIT, True))"

subsection \<open>The plan\<close>

record search_folder =
  sf_id :: string
  sf_name :: string
  sf_validity :: nat
  sf_label :: "string option"

record search_plan =
  pn_text :: utext
  pn_from :: utext
  pn_unseen :: bool
  pn_flagged :: bool
  pn_since :: "imap_day option"
  pn_before :: "imap_day option"
  pn_gmail :: bool
  pn_folders :: "search_folder list"

text \<open>The calendar of the \<open>time\<close> crate: the day of a timestamp in UTC, the next day and the one before.\<close>

record calendar =
  ca_day :: "int \<Rightarrow> imap_day option"
  ca_next :: "imap_day \<Rightarrow> imap_day option"
  ca_previous :: "imap_day \<Rightarrow> imap_day option"

definition LAST_ROLES :: "string list" where "LAST_ROLES = [''junk'', ''trash'']"

definition writable_day :: "imap_day \<Rightarrow> bool" where
  "writable_day d \<longleftrightarrow> imap_date d \<noteq> None"

definition since_day :: "calendar \<Rightarrow> int \<Rightarrow> imap_day option" where
  "since_day cal after =
     Option.bind (ca_day cal after) (\<lambda>d. Option.bind (ca_previous cal d) (\<lambda>d. if writable_day d then Some d else None))"

definition i64_min :: int where "i64_min = - (2 ^ 63)"

definition before_day :: "calendar \<Rightarrow> int \<Rightarrow> imap_day option" where
  "before_day cal before =
     (if before - 1 < i64_min then None
      else Option.bind (ca_day cal (before - 1)) (\<lambda>d. Option.bind (ca_next cal d) (\<lambda>d. Option.bind (ca_next cal d)
             (\<lambda>d. if writable_day d then Some d else None))))"

definition searched_folder :: "mailbox_row \<Rightarrow> string option \<Rightarrow> search_folder option" where
  "searched_folder row label =
     (case uid_validity (facts row) of
        Some v \<Rightarrow> if selectable (facts row) \<and> store (facts row)
                  then Some \<lparr>sf_id = row_id row, sf_name = imap_name (facts row), sf_validity = v, sf_label = label\<rparr> else None
      | None \<Rightarrow> None)"

definition with_folder :: "mailbox_row \<Rightarrow> string option \<Rightarrow> (mailbox_row \<times> search_folder) option" where
  "with_folder row label = map_option (\<lambda>f. (row, f)) (searched_folder row label)"

definition folder_account_plan :: "mail_filter \<Rightarrow> mailbox_row list \<Rightarrow> (mailbox_row \<times> search_folder) list" where
  "folder_account_plan f rows =
     List.map_filter (\<lambda>row. with_folder row None)
       (filter (\<lambda>row. case (fi_mailbox f, fi_other_than f) of
          (Some mailbox, _) \<Rightarrow> row_id row = mailbox
        | (None, Some left_out) \<Rightarrow> row_id row \<notin> set left_out
        | (None, None) \<Rightarrow> True) rows)"

definition is_all_mail :: "mailbox_row \<Rightarrow> bool" where
  "is_all_mail row \<longleftrightarrow> store (facts row) \<and> role (facts row) = Some ALL_MAIL_ROLE"

definition gmail_account_plan :: "mail_filter \<Rightarrow> mailbox_row list \<Rightarrow> (mailbox_row \<times> search_folder) list" where
  "gmail_account_plan f rows =
     (case fi_mailbox f of
        Some mailbox \<Rightarrow>
          (case List.find (\<lambda>row. row_id row = mailbox) rows of
             None \<Rightarrow> []
           | Some row \<Rightarrow>
               (let (st, label) = (if store (facts row) then (Some row, None)
                    else case gmail_label (facts row) of
                           Some l \<Rightarrow> (List.find is_all_mail rows, Some (written_label l))
                         | None \<Rightarrow> (None, None))
                in case Option.bind st (\<lambda>s. with_folder s label) of None \<Rightarrow> [] | Some found \<Rightarrow> [found]))
      | None \<Rightarrow>
          List.map_filter (\<lambda>row. with_folder row None)
            (filter (\<lambda>row. is_all_mail row \<or> row_id row \<notin> set (case fi_other_than f of None \<Rightarrow> [] | Some l \<Rightarrow> l))
               (filter (\<lambda>row. store (facts row)) rows)))"

definition last_roles_last :: "(mailbox_row \<times> search_folder) list \<Rightarrow> search_folder list" where
  "last_roles_last found =
     (let at_end = (\<lambda>(row, _). case role (facts row) of None \<Rightarrow> False | Some r \<Rightarrow> r \<in> set LAST_ROLES)
      in map snd (filter (\<lambda>x. \<not> at_end x) found @ filter at_end found))"

definition search_plan_of :: "calendar \<Rightarrow> mail_filter \<Rightarrow> bool \<Rightarrow> mailbox_row list \<Rightarrow> search_plan" where
  "search_plan_of cal f gmail rows =
     \<lparr>pn_text = fi_text f, pn_from = fi_from f, pn_unseen = (fi_not f = Some SEEN_KEYWORD), pn_flagged = (fi_has f = Some FLAGGED_KEYWORD),
      pn_since = Option.bind (fi_after f) (since_day cal), pn_before = Option.bind (fi_before f) (before_day cal), pn_gmail = gmail,
      pn_folders = last_roles_last (if gmail then gmail_account_plan f rows else folder_account_plan f rows)\<rparr>"

subsection \<open>The call\<close>

datatype search_failure = Search_Unavailable | Search_Charset | Search_Unreadable

fun failed_search :: "search_failure \<Rightarrow> method_error" where
  "failed_search Search_Unavailable = ServerUnavailable"
| "failed_search Search_Charset = UnsupportedFilter NO_CHARSET"
| "failed_search Search_Unreadable = ServerFail"

definition refused_search :: "session_error \<Rightarrow> method_error" where
  "refused_search e = (case e of Protocol words \<Rightarrow> InvalidArguments words | _ \<Rightarrow> ServerFail)"

definition search_with :: "mail_filter \<Rightarrow> folder_hits list option \<Rightarrow> bool \<Rightarrow> bool \<Rightarrow> search" where
  "search_with f hits ascending collapse =
     \<lparr>se_hits = hits, se_mailbox = fi_mailbox f, se_other_than = fi_other_than f, se_has = fi_has f, se_not = fi_not f,
      se_after = fi_after f, se_before = fi_before f, se_attachment = fi_attachment f, se_ascending = ascending, se_collapse = collapse\<rparr>"

text \<open>What a call sees of the account, and what the search of its plan came to, if it ran.\<close>

record query_context =
  qc_key :: string
  qc_tables :: mail_tables
  qc_rows :: "mailbox_row list"
  qc_gmail :: bool
  qc_searched :: "(search_failure + folder_hits list) option"

record query_arguments =
  qa_account :: string
  qa_filter :: "mail_condition option option"
  qa_sort :: "comparator list option"
  qa_position :: int
  qa_anchor :: "row_id option"
  qa_anchor_offset :: int
  qa_limit :: "nat option"
  qa_total :: bool
  qa_collapse :: bool

text \<open>The answer of the window and the plan a first pass leaves for the request.\<close>

definition searched_window :: "calendar \<Rightarrow> query_context \<Rightarrow> mail_filter \<Rightarrow> bool \<Rightarrow> bool \<Rightarrow> list_window \<Rightarrow> (method_error + queried option) \<times> search_plan option" where
  "searched_window cal ctx f ascending collapse w =
     (if filter_searches f then
        (case ask_check (filter_ask f) of
           Inl e \<Rightarrow> (Inl (refused_search e), None)
         | Inr _ \<Rightarrow>
             (case qc_searched ctx of
                Some (Inr hits) \<Rightarrow> (Inr (store_search (qc_tables ctx) (search_with f (Some hits) ascending collapse) w), None)
              | Some (Inl failure) \<Rightarrow> (Inl (failed_search failure), None)
              | None \<Rightarrow> (Inl ServerUnavailable, Some (search_plan_of cal f (qc_gmail ctx) (qc_rows ctx)))))
      else (Inr (store_search (qc_tables ctx) (search_with f None ascending collapse) w), None))"

definition email_window :: "query_arguments \<Rightarrow> list_window \<times> bool" where
  "email_window args =
     (let (limit, lowered) = query_limit (qa_limit args);
          start = (case qa_anchor args of Some a \<Rightarrow> Start_Anchor a (qa_anchor_offset args) | None \<Rightarrow> Start_Position (qa_position args))
      in (\<lparr>wi_start = start, wi_limit = limit, wi_total = qa_total args\<rparr>, lowered))"

text \<open>The call: its answer, the plan a first pass leaves, and the mailbox an answered call has viewed, whose
  flags the refresh of a server without CONDSTORE rescans.\<close>

definition email_query :: "calendar \<Rightarrow> (string \<Rightarrow> (int \<times> nat) option) \<Rightarrow> query_context \<Rightarrow> query_arguments \<Rightarrow>
    (method_error + (queried \<times> bool)) \<times> search_plan option \<times> string option" where
  "email_query cal parse ctx args =
     (case and_then (account_check (qc_key ctx) (qa_account args)) (\<lambda>_.
           and_then (filter_of parse (qa_filter args)) (\<lambda>f.
           and_then (sort_ascending (qa_sort args)) (\<lambda>ascending. Inr (f, ascending)))) of
        Inl e \<Rightarrow> (Inl e, None, None)
      | Inr (f, ascending) \<Rightarrow>
          (let (w, lowered) = email_window args;
               (found, plan) =
                 (case fi_mailbox f of
                    Some mailbox \<Rightarrow>
                      if is_window f
                      then (Inr (store_query (qc_tables ctx) \<lparr>mq_mailbox = mailbox, mq_has = fi_has f, mq_not = fi_not f, mq_ascending = ascending,
                              mq_collapse = qa_collapse args\<rparr> w), None)
                      else searched_window cal ctx f ascending (qa_collapse args) w
                  | None \<Rightarrow> searched_window cal ctx f ascending (qa_collapse args) w);
               answered = and_then found (\<lambda>q. map_sum id (\<lambda>q. (q, lowered)) (ok_or AnchorNotFound q))
           in (answered, plan, (case answered of Inl _ \<Rightarrow> None | Inr _ \<Rightarrow> fi_mailbox f))))"

subsection \<open>The run of a plan\<close>

definition plan_ask :: "searching \<Rightarrow> search_plan \<Rightarrow> search_folder \<Rightarrow> search_ask" where
  "plan_ask server plan folder = \<lparr>sk_text = pn_text plan, sk_from = pn_from plan, sk_unseen = pn_unseen plan, sk_flagged = pn_flagged plan,
     sk_since = pn_since plan, sk_before = pn_before plan, sk_gmail = (if pn_gmail plan then Some (sf_label folder) else None), sk_server = server\<rparr>"

text \<open>A folder the server refuses or shows under another UIDVALIDITY is passed over.\<close>

fun run_plan :: "(search_folder \<Rightarrow> session_error + nat) \<Rightarrow> (search_folder \<Rightarrow> session_error + nat list) \<Rightarrow> search_folder list \<Rightarrow>
    session_error + folder_hits list" where
  "run_plan examine uid_search [] = Inr []"
| "run_plan examine uid_search (folder # folders) =
     (case examine folder of
        Inr v \<Rightarrow>
          if v = sf_validity folder
          then and_then (uid_search folder) (\<lambda>uids.
               and_then (run_plan examine uid_search folders) (\<lambda>found. Inr (\<lparr>fh_folder = sf_id folder, fh_uids = uids\<rparr> # found)))
          else run_plan examine uid_search folders
      | Inl Refused \<Rightarrow> run_plan examine uid_search folders
      | Inl e \<Rightarrow> Inl e)"

definition search_failed :: "session_error \<Rightarrow> search_failure \<times> bool" where
  "search_failed e = (case e of BadCharset \<Rightarrow> (Search_Charset, True) | Refused \<Rightarrow> (Search_Unavailable, True)
     | Protocol _ \<Rightarrow> (Search_Unreadable, False) | _ \<Rightarrow> (Search_Unavailable, False))"

subsection \<open>What the server finds\<close>

text \<open>The mail of the account as the server searches it, by folder and UID: whether the text and the sender
  match, the flags, the day of the internal date as written and the labels of Gmail.\<close>

record searched_server =
  ss_matches :: "string \<Rightarrow> nat \<Rightarrow> bool"
  ss_seen :: "string \<Rightarrow> nat \<Rightarrow> bool"
  ss_flagged :: "string \<Rightarrow> nat \<Rightarrow> bool"
  ss_day :: "string \<Rightarrow> nat \<Rightarrow> int"
  ss_label :: "string \<Rightarrow> nat \<Rightarrow> string \<Rightarrow> bool"

definition server_finds :: "(imap_day \<Rightarrow> int) \<Rightarrow> searched_server \<Rightarrow> search_ask \<Rightarrow> string \<Rightarrow> nat \<Rightarrow> bool" where
  "server_finds num srv ask folder u \<longleftrightarrow>
     ss_matches srv folder u \<and> (sk_unseen ask \<longrightarrow> \<not> ss_seen srv folder u) \<and> (sk_flagged ask \<longrightarrow> ss_flagged srv folder u) \<and>
     (case sk_since ask of None \<Rightarrow> True | Some d \<Rightarrow> num d \<le> ss_day srv folder u) \<and>
     (case sk_before ask of None \<Rightarrow> True | Some d \<Rightarrow> ss_day srv folder u < num d) \<and>
     (case sk_gmail ask of Some (Some l) \<Rightarrow> ss_label srv folder u l | _ \<Rightarrow> True)"

definition calendar_ok :: "(imap_day \<Rightarrow> int) \<Rightarrow> calendar \<Rightarrow> bool" where
  "calendar_ok num cal \<longleftrightarrow>
     (\<forall>at d. ca_day cal at = Some d \<longrightarrow> num d = at div 86400) \<and>
     (\<forall>d d'. ca_next cal d = Some d' \<longrightarrow> num d' = num d + 1) \<and> (\<forall>d d'. ca_previous cal d = Some d' \<longrightarrow> num d' = num d - 1)"

text \<open>The rows as the sync files them: an email in a folder that can be searched, with its one membership; on
  Gmail an email of All Mail also under its labels, each of which the server has on its message.\<close>

definition filed :: "bool \<Rightarrow> mailbox_row list \<Rightarrow> searched_server \<Rightarrow> mail_tables \<Rightarrow> bool" where
  "filed gmail rows srv t \<longleftrightarrow> distinct (map row_id rows) \<and>
     (\<forall>r\<in>set rows. \<forall>r'\<in>set rows. is_all_mail r \<and> is_all_mail r' \<longrightarrow> r = r') \<and>
     (\<forall>e\<in>set (mt_emails t).
        (\<exists>r\<in>set rows. row_id r = ml_folder e \<and> store (facts r) \<and> selectable (facts r) \<and> uid_validity (facts r) \<noteq> None \<and>
           (\<forall>m\<in>set (mt_memberships t). me_email m = ml_id e \<longrightarrow> me_mailbox m = ml_folder e \<or>
              gmail \<and> is_all_mail r \<and> (\<exists>b\<in>set rows. row_id b = me_mailbox m \<and> \<not> store (facts b) \<and>
                 (\<exists>l. gmail_label (facts b) = Some l \<and> ss_label srv (ml_folder e) (ml_uid e) (written_label l))))) \<and>
        (ss_seen srv (ml_folder e) (ml_uid e) \<longleftrightarrow> SEEN_KEYWORD \<in> set (ml_keywords e)) \<and>
        (ss_flagged srv (ml_folder e) (ml_uid e) \<longleftrightarrow> FLAGGED_KEYWORD \<in> set (ml_keywords e)) \<and>
        \<bar>ss_day srv (ml_folder e) (ml_uid e) - ml_received e div 86400\<bar> \<le> 1)"

subsection \<open>The plan misses nothing\<close>

lemma planned_folders: "set (last_roles_last found) = snd ` set found"
  by (auto simp: last_roles_last_def Let_def)

lemma with_folder_of:
  assumes "store (facts r)" "selectable (facts r)" "uid_validity (facts r) \<noteq> None"
  obtains folder where "with_folder r label = Some (r, folder)" "sf_id folder = row_id r" "sf_label folder = label"
  using assms by (auto simp: with_folder_def searched_folder_def)

lemma found_row:
  assumes "distinct (map row_id rows)" "r \<in> set rows"
  shows "List.find (\<lambda>x. row_id x = row_id r) rows = Some r"
proof -
  obtain x where x: "List.find (\<lambda>x. row_id x = row_id r) rows = Some x"
    using assms(2) by (cases "List.find (\<lambda>x. row_id x = row_id r) rows") (auto simp: find_None_iff)
  then have "x \<in> set rows" "row_id x = row_id r" by (auto simp: find_Some_iff)
  then have "x = r" using assms by (auto simp: distinct_map inj_on_def)
  then show ?thesis using x by simp
qed

lemma found_all_mail:
  assumes "r \<in> set rows" "is_all_mail r" "\<forall>r\<in>set rows. \<forall>r'\<in>set rows. is_all_mail r \<and> is_all_mail r' \<longrightarrow> r = r'"
  shows "List.find is_all_mail rows = Some r"
proof -
  obtain x where x: "List.find is_all_mail rows = Some x"
    using assms(1,2) by (cases "List.find is_all_mail rows") (auto simp: find_None_iff)
  then have "x \<in> set rows" "is_all_mail x" by (auto simp: find_Some_iff)
  then have "x = r" using assms by blast
  then show ?thesis using x by simp
qed

lemma map_filter_member: "x \<in> set xs \<Longrightarrow> g x = Some y \<Longrightarrow> y \<in> set (List.map_filter g xs)"
  by (induction xs) (auto simp: List.map_filter_def)

lemma scope_of:
  assumes "search_passes t (search_with f hits asc c) e"
  obtains m where "m \<in> set (mt_memberships t)" "me_email m = ml_id e" "\<And>b. fi_mailbox f = Some b \<Longrightarrow> me_mailbox m = b"
  using assms by (auto simp: search_passes_def search_with_def list_ex_iff split: option.splits)

lemma scope_outside:
  assumes "search_passes t (search_with f hits asc c) e" "fi_other_than f = Some outs"
  obtains m where "m \<in> set (mt_memberships t)" "me_email m = ml_id e" "me_mailbox m \<notin> set outs"
  using assms by (auto simp: search_passes_def search_with_def list_ex_iff)

text \<open>The folder of an email that passes is planned, under a label its message has.\<close>

lemma planned_folder:
  assumes filed: "filed gmail rows srv t" and e: "e \<in> set (mt_emails t)" and pass: "search_passes t (search_with f hits asc c) e"
  shows "\<exists>folder\<in>set (pn_folders (search_plan_of cal f gmail rows)). sf_id folder = ml_folder e \<and>
    (case sf_label folder of None \<Rightarrow> True | Some l \<Rightarrow> gmail \<longrightarrow> ss_label srv (ml_folder e) (ml_uid e) l)"
proof -
  have ids: "distinct (map row_id rows)" and one: "\<forall>r\<in>set rows. \<forall>r'\<in>set rows. is_all_mail r \<and> is_all_mail r' \<longrightarrow> r = r'"
    using filed by (simp_all add: filed_def)
  obtain r where r: "r \<in> set rows" "row_id r = ml_folder e" "store (facts r)" "selectable (facts r)" "uid_validity (facts r) \<noteq> None"
      and lies: "\<And>m. m \<in> set (mt_memberships t) \<Longrightarrow> me_email m = ml_id e \<Longrightarrow> me_mailbox m = ml_folder e \<or>
              gmail \<and> is_all_mail r \<and> (\<exists>b\<in>set rows. row_id b = me_mailbox m \<and> \<not> store (facts b) \<and>
                 (\<exists>l. gmail_label (facts b) = Some l \<and> ss_label srv (ml_folder e) (ml_uid e) (written_label l)))"
    using filed e unfolding filed_def by meson
  obtain m where m: "m \<in> set (mt_memberships t)" "me_email m = ml_id e" "\<And>b. fi_mailbox f = Some b \<Longrightarrow> me_mailbox m = b"
    by (rule scope_of [OF pass]) blast
  have kept: "is_all_mail r \<or> row_id r \<notin> set outs" if other: "fi_other_than f = Some outs" for outs
  proof -
    obtain n where n: "n \<in> set (mt_memberships t)" "me_email n = ml_id e" "me_mailbox n \<notin> set outs" by (rule scope_outside [OF pass other]) blast
    then show ?thesis using lies [OF n(1,2)] r(2) by auto
  qed
  obtain plain where plain: "with_folder r None = Some (r, plain)" "sf_id plain = row_id r" "sf_label plain = None"
    by (rule with_folder_of [OF r(3-5)])
  show ?thesis
  proof (cases gmail)
    case False
    then have own: "me_mailbox n = row_id r" if "n \<in> set (mt_memberships t)" "me_email n = ml_id e" for n
      using lies [OF that] r(2) by simp
    have "row_id r \<notin> set outs" if other: "fi_other_than f = Some outs" for outs
    proof -
      obtain n where n: "n \<in> set (mt_memberships t)" "me_email n = ml_id e" "me_mailbox n \<notin> set outs" by (rule scope_outside [OF pass other]) blast
      then show ?thesis using own [OF n(1,2)] by simp
    qed
    then have "r \<in> set (filter (\<lambda>row. case (fi_mailbox f, fi_other_than f) of (Some mailbox, _) \<Rightarrow> row_id row = mailbox
        | (None, Some left_out) \<Rightarrow> row_id row \<notin> set left_out | (None, None) \<Rightarrow> True) rows)"
      using r(1) own [OF m(1,2)] m(3) by (auto split: option.split)
    then have "(r, plain) \<in> set (folder_account_plan f rows)"
      unfolding folder_account_plan_def by (rule map_filter_member) (rule plain(1))
    then have "plain \<in> snd ` set (folder_account_plan f rows)" by force
    then show ?thesis using False plain r(2) by (intro bexI [of _ plain]) (simp_all add: search_plan_of_def planned_folders)
  next
    case True
    show ?thesis
    proof (cases "fi_mailbox f")
      case None
      have "r \<in> set (filter (\<lambda>row. is_all_mail row \<or> row_id row \<notin> set (case fi_other_than f of None \<Rightarrow> [] | Some l \<Rightarrow> l))
          (filter (\<lambda>row. store (facts row)) rows))"
        using r(1,3) kept by (auto split: option.split)
      then have "(r, plain) \<in> set (gmail_account_plan f rows)"
        unfolding gmail_account_plan_def None option.case by (rule map_filter_member) (rule plain(1))
      then have "plain \<in> snd ` set (gmail_account_plan f rows)" by force
      then show ?thesis using True plain r(2) by (intro bexI [of _ plain]) (simp_all add: search_plan_of_def planned_folders)
    next
      case (Some b)
      have mb: "me_mailbox m = b" by (rule m(3) [OF Some])
      show ?thesis
      proof (cases "b = ml_folder e")
        case own: True
        have "List.find (\<lambda>row. row_id row = b) rows = Some r" using found_row [OF ids r(1)] own r(2) by simp
        then have "gmail_account_plan f rows = [(r, plain)]" using Some r(3) plain(1) by (simp add: gmail_account_plan_def)
        then show ?thesis using True plain r(2) by (simp add: search_plan_of_def planned_folders)
      next
        case False
        then obtain x l where x: "x \<in> set rows" "row_id x = b" "\<not> store (facts x)" "gmail_label (facts x) = Some l"
            "ss_label srv (ml_folder e) (ml_uid e) (written_label l)" "is_all_mail r"
          using lies [OF m(1,2)] mb by auto
        obtain labeled where labeled: "with_folder r (Some (written_label l)) = Some (r, labeled)" "sf_id labeled = row_id r"
            "sf_label labeled = Some (written_label l)"
          by (rule with_folder_of [OF r(3-5)])
        have "List.find (\<lambda>row. row_id row = b) rows = Some x" using found_row [OF ids x(1)] x(2) by simp
        then have "gmail_account_plan f rows = [(r, labeled)]"
          using Some x(3,4) labeled(1) found_all_mail [OF r(1) x(6) one] by (simp add: gmail_account_plan_def)
        then show ?thesis using True labeled r(2) x(5) by (simp add: search_plan_of_def planned_folders)
      qed
    qed
  qed
qed

text \<open>The coarse keys let every message of the scope through.\<close>

lemma since_lets_through:
  assumes "calendar_ok num cal" "since_day cal after = Some d" "after \<le> at" "\<bar>day - at div 86400\<bar> \<le> 1"
  shows "num d \<le> day"
proof -
  obtain d0 where d0: "ca_day cal after = Some d0" "ca_previous cal d0 = Some d"
    using assms(2) by (auto simp: since_day_def Option.bind_eq_Some_conv split: if_splits)
  then have "num d = after div 86400 - 1" using assms(1) unfolding calendar_ok_def by metis
  moreover have "after div 86400 \<le> at div 86400" using assms(3) by (intro zdiv_mono1) simp_all
  ultimately show ?thesis using assms(4) by linarith
qed

lemma before_lets_through:
  assumes "calendar_ok num cal" "before_day cal before = Some d" "at < before" "\<bar>day - at div 86400\<bar> \<le> 1"
  shows "day < num d"
proof -
  obtain d0 d1 where d0: "ca_day cal (before - 1) = Some d0" "ca_next cal d0 = Some d1" "ca_next cal d1 = Some d"
    using assms(2) by (auto simp: before_day_def Option.bind_eq_Some_conv split: if_splits)
  then have "num d = (before - 1) div 86400 + 1 + 1" using assms(1) unfolding calendar_ok_def by metis
  moreover have "at div 86400 \<le> (before - 1) div 86400" using assms(3) by (intro zdiv_mono1) simp_all
  ultimately show ?thesis using assms(4) by linarith
qed

lemma planned_finds:
  assumes cal: "calendar_ok num cal" and filed: "filed gmail rows srv t" and e: "e \<in> set (mt_emails t)"
    and pass: "search_passes t (search_with f hits asc c) e" and match: "ss_matches srv (ml_folder e) (ml_uid e)"
  shows "\<exists>folder\<in>set (pn_folders (search_plan_of cal f gmail rows)). sf_id folder = ml_folder e \<and>
    server_finds num srv (plan_ask server (search_plan_of cal f gmail rows) folder) (ml_folder e) (ml_uid e)"
proof -
  obtain folder where folder: "folder \<in> set (pn_folders (search_plan_of cal f gmail rows))" "sf_id folder = ml_folder e"
      "case sf_label folder of None \<Rightarrow> True | Some l \<Rightarrow> gmail \<longrightarrow> ss_label srv (ml_folder e) (ml_uid e) l"
    using planned_folder [OF filed e pass] by blast
  have srv: "ss_seen srv (ml_folder e) (ml_uid e) \<longleftrightarrow> SEEN_KEYWORD \<in> set (ml_keywords e)"
      "ss_flagged srv (ml_folder e) (ml_uid e) \<longleftrightarrow> FLAGGED_KEYWORD \<in> set (ml_keywords e)"
      "\<bar>ss_day srv (ml_folder e) (ml_uid e) - ml_received e div 86400\<bar> \<le> 1"
    using filed e by (simp_all add: filed_def)
  have p: "case fi_after f of None \<Rightarrow> True | Some a \<Rightarrow> a \<le> ml_received e" "case fi_before f of None \<Rightarrow> True | Some b \<Rightarrow> ml_received e < b"
      "case fi_has f of None \<Rightarrow> True | Some kw \<Rightarrow> kw \<in> set (ml_keywords e)" "case fi_not f of None \<Rightarrow> True | Some kw \<Rightarrow> kw \<notin> set (ml_keywords e)"
    using pass by (simp_all add: search_passes_def search_with_def)
  have "server_finds num srv (plan_ask server (search_plan_of cal f gmail rows) folder) (ml_folder e) (ml_uid e)"
    unfolding server_finds_def
  proof (intro conjI)
    show "case sk_since (plan_ask server (search_plan_of cal f gmail rows) folder) of None \<Rightarrow> True | Some d \<Rightarrow> num d \<le> ss_day srv (ml_folder e) (ml_uid e)"
      using p(1) since_lets_through [OF cal _ _ srv(3)] by (auto simp: plan_ask_def search_plan_of_def split: option.splits)
    show "case sk_before (plan_ask server (search_plan_of cal f gmail rows) folder) of None \<Rightarrow> True | Some d \<Rightarrow> ss_day srv (ml_folder e) (ml_uid e) < num d"
      using p(2) before_lets_through [OF cal _ _ srv(3)] by (auto simp: plan_ask_def search_plan_of_def split: option.splits)
    show "case sk_gmail (plan_ask server (search_plan_of cal f gmail rows) folder) of Some (Some l) \<Rightarrow> ss_label srv (ml_folder e) (ml_uid e) l | _ \<Rightarrow> True"
      using folder(3) by (auto simp: plan_ask_def search_plan_of_def split: option.splits)
  qed (use match p(3,4) srv in \<open>auto simp: plan_ask_def search_plan_of_def\<close>)
  then show ?thesis using folder(1,2) by blast
qed

subsection \<open>The hits as rows\<close>

lemma hit_rows_flat:
  assumes "distinct (map fh_folder hits)"
  shows "hit_rows hits = concat (map (\<lambda>h. map (Pair (fh_folder h)) (fh_uids h)) hits)"
proof -
  let ?m = "map_of (rev (map (\<lambda>h. (fh_folder h, fh_uids h)) hits))"
  have "distinct (map fst (rev (map (\<lambda>h. (fh_folder h, fh_uids h)) hits)))" using assms by (simp add: rev_map comp_def flip: rev_map)
  then have "?m (fh_folder h) = Some (fh_uids h)" if "h \<in> set hits" for h
    using that by (intro map_of_is_SomeI) auto
  then have "concat (map (\<lambda>h. map (\<lambda>u. (fh_folder h, u)) (the (?m (fh_folder h)))) hits) = concat (map (\<lambda>h. map (Pair (fh_folder h)) (fh_uids h)) hits)"
    by (intro arg_cong [of _ _ concat] map_cong) auto
  moreover have "hit_rows hits = concat (map (\<lambda>h. map (\<lambda>u. (fh_folder h, u)) (the (?m (fh_folder h)))) hits)"
    unfolding hit_rows_def Let_def distinct_remdups_id [OF assms] by (simp only: map_map comp_def)
  ultimately show ?thesis by (rule trans [rotated])
qed

lemma hit_rows_set:
  assumes "distinct (map fh_folder hits)" "\<forall>h\<in>set hits. distinct (fh_uids h)"
  shows "distinct (hit_rows hits)" "(g, u) \<in> set (hit_rows hits) \<longleftrightarrow> (\<exists>h\<in>set hits. fh_folder h = g \<and> u \<in> set (fh_uids h))"
proof -
  have "distinct (concat (map (\<lambda>h. map (Pair (fh_folder h)) (fh_uids h)) hits))"
    using assms by (induction hits) (auto simp: distinct_map inj_on_def)
  then show "distinct (hit_rows hits)" using hit_rows_flat [OF assms(1)] by simp
  show "(g, u) \<in> set (hit_rows hits) \<longleftrightarrow> (\<exists>h\<in>set hits. fh_folder h = g \<and> u \<in> set (fh_uids h))"
    by (auto simp: hit_rows_flat [OF assms(1)])
qed

lemma rows_at_distinct:
  assumes "distinct es" "distinct rs"
  shows "distinct (concat (map (\<lambda>(g, u). filter (\<lambda>e. ml_folder e = g \<and> ml_uid e = u) es) rs))"
  using assms(2) by (induction rs) (use assms(1) in auto)

lemma matched_hits:
  assumes t: "tables_ok t" and h: "distinct (map fh_folder hits)" "\<forall>h\<in>set hits. distinct (fh_uids h)" and s: "se_hits s = Some hits"
  shows "e \<in> set (search_matched t s) \<longleftrightarrow> e \<in> set (mt_emails t) \<and> search_passes t s e \<and>
      (\<exists>h\<in>set hits. fh_folder h = ml_folder e \<and> ml_uid e \<in> set (fh_uids h))"
    "distinct (map ml_key (search_kept t s))"
proof -
  note rows = hit_rows_set [OF h]
  show "e \<in> set (search_matched t s) \<longleftrightarrow> e \<in> set (mt_emails t) \<and> search_passes t s e \<and>
      (\<exists>h\<in>set hits. fh_folder h = ml_folder e \<and> ml_uid e \<in> set (fh_uids h))"
    by (auto simp: search_matched_def s rows(2) split: prod.splits)
  have "distinct (mt_emails t)" using t by (simp add: tables_ok_def distinct_map)
  from rows_at_distinct [OF this rows(1)] have "distinct (search_kept t s)"
    by (simp add: search_kept_def search_matched_def s Let_def)
  moreover have "set (search_kept t s) \<subseteq> set (mt_emails t)"
    by (auto simp: search_kept_def search_matched_def s Let_def split: prod.splits)
  moreover have "inj_on ml_id (set (mt_emails t))" using t by (simp add: tables_ok_def distinct_map)
  ultimately show "distinct (map ml_key (search_kept t s))"
    by (auto simp: distinct_map inj_on_def ml_key_def)
qed

text \<open>The tables with the emails alone whose text and sender match.\<close>

definition matching_tables :: "searched_server \<Rightarrow> mail_tables \<Rightarrow> mail_tables" where
  "matching_tables srv t = t\<lparr>mt_emails := filter (\<lambda>e. ss_matches srv (ml_folder e) (ml_uid e)) (mt_emails t)\<rparr>"

definition hits_answer :: "(imap_day \<Rightarrow> int) \<Rightarrow> searched_server \<Rightarrow> searching \<Rightarrow> search_plan \<Rightarrow> mail_tables \<Rightarrow>
    (search_folder \<Rightarrow> session_error + nat list) \<Rightarrow> bool" where
  "hits_answer num srv server plan t uid_search \<longleftrightarrow>
     (\<forall>folder uids. uid_search folder = Inr uids \<longrightarrow> distinct uids \<and>
        (\<forall>u\<in>set uids. server_finds num srv (plan_ask server plan folder) (sf_id folder) u) \<and>
        (\<forall>e\<in>set (mt_emails t). ml_folder e = sf_id folder \<and> server_finds num srv (plan_ask server plan folder) (sf_id folder) (ml_uid e) \<longrightarrow>
           ml_uid e \<in> set uids))"

lemma ran_plan:
  assumes "run_plan (\<lambda>folder. Inr (sf_validity folder)) uid_search folders = Inr hits"
  shows "list_all2 (\<lambda>folder h. fh_folder h = sf_id folder \<and> uid_search folder = Inr (fh_uids h)) folders hits"
  using assms
proof (induction folders arbitrary: hits)
  case (Cons folder folders)
  then show ?case by (auto simp: and_then_Inr_eq)
qed simp

lemma split_distinct: "distinct (map f (filter (\<lambda>x. \<not> P x) xs) @ map f (filter P xs)) \<longleftrightarrow> distinct (map f xs)"
  by (induction xs) auto

lemma planned_once:
  assumes "distinct (map row_id rows)"
  shows "distinct (map sf_id (pn_folders (search_plan_of cal f gmail rows)))"
proof -
  have ids: "distinct (map (\<lambda>x. sf_id (snd x)) (List.map_filter (\<lambda>row. with_folder row None) xs)) \<and>
      (\<lambda>x. sf_id (snd x)) ` set (List.map_filter (\<lambda>row. with_folder row None) xs) \<subseteq> row_id ` set xs"
    if "distinct (map row_id xs)" for xs
    using that by (induction xs) (auto simp: List.map_filter_def with_folder_def searched_folder_def split: option.splits if_splits)
  have ends: "distinct (map sf_id (last_roles_last found)) \<longleftrightarrow> distinct (map (\<lambda>x. sf_id (snd x)) found)" for found
    using split_distinct [of "\<lambda>x. sf_id (snd x)"] by (simp add: last_roles_last_def Let_def comp_def)
  have "distinct (map row_id (filter P rows))" for P using assms by (simp add: distinct_map_filter)
  then show ?thesis
    using ids by (auto simp: search_plan_of_def ends folder_account_plan_def gmail_account_plan_def Let_def split: option.splits if_splits)
qed

lemma all2_members:
  assumes "list_all2 P xs ys"
  shows "y \<in> set ys \<Longrightarrow> \<exists>x\<in>set xs. P x y" "x \<in> set xs \<Longrightarrow> \<exists>y\<in>set ys. P x y"
  using assms by (induction) auto

lemma plan_is_exact:
  assumes t: "tables_ok t" and filed: "filed gmail rows srv t" and cal: "calendar_ok num cal"
    and ans: "hits_answer num srv server (search_plan_of cal f gmail rows) t uid_search"
    and run: "run_plan (\<lambda>folder. Inr (sf_validity folder)) uid_search (pn_folders (search_plan_of cal f gmail rows)) = Inr hits"
  shows "search_ids t (search_with f (Some hits) asc c) = search_ids (matching_tables srv t) (search_with f None asc c)"
proof -
  let ?plan = "search_plan_of cal f gmail rows" and ?s = "search_with f (Some hits) asc c" and ?s' = "search_with f None asc c"
  note all2 = ran_plan [OF run]
  have "map fh_folder hits = map sf_id (pn_folders ?plan)" using all2 by (auto simp: list_all2_conv_all_nth intro!: nth_equalityI)
  moreover have "distinct (map sf_id (pn_folders ?plan))" by (rule planned_once) (use filed in \<open>simp add: filed_def\<close>)
  ultimately have d: "distinct (map fh_folder hits)" by simp
  have each: "\<exists>folder\<in>set (pn_folders ?plan). fh_folder h = sf_id folder \<and> uid_search folder = Inr (fh_uids h)" if "h \<in> set hits" for h
    using all2_members(1) [OF all2 that] .
  have du: "\<forall>h\<in>set hits. distinct (fh_uids h)" using each ans unfolding hits_answer_def by blast
  have s: "se_hits ?s = Some hits" "se_hits ?s' = None" "se_collapse ?s' = se_collapse ?s" "se_ascending ?s' = se_ascending ?s"
    by (simp_all add: search_with_def)
  note hits = matched_hits [OF t d du s(1)]
  have same: "search_passes (matching_tables srv t) ?s' = search_passes t ?s"
  proof (intro ext)
    have "mt_memberships (matching_tables srv t) = mt_memberships t" by (simp add: matching_tables_def)
    then show "search_passes (matching_tables srv t) ?s' e = search_passes t ?s e" for e
      unfolding search_passes_def by (simp add: search_with_def cong: option.case_cong)
  qed
  have "(\<exists>h\<in>set hits. fh_folder h = ml_folder e \<and> ml_uid e \<in> set (fh_uids h)) \<longleftrightarrow> ss_matches srv (ml_folder e) (ml_uid e)"
    if e: "e \<in> set (mt_emails t)" "search_passes t ?s e" for e
  proof
    assume "\<exists>h\<in>set hits. fh_folder h = ml_folder e \<and> ml_uid e \<in> set (fh_uids h)"
    then obtain h where h0: "h \<in> set hits" "fh_folder h = ml_folder e" "ml_uid e \<in> set (fh_uids h)" by blast
    obtain folder where "fh_folder h = sf_id folder" and h: "uid_search folder = Inr (fh_uids h)" "ml_uid e \<in> set (fh_uids h)"
      using each [OF h0(1)] h0(3) by blast
    then have h3: "ml_folder e = sf_id folder" using h0(2) by simp
    have "server_finds num srv (plan_ask server ?plan folder) (sf_id folder) (ml_uid e)"
      using h ans unfolding hits_answer_def by blast
    then show "ss_matches srv (ml_folder e) (ml_uid e)" using h3 by (simp add: server_finds_def)
  next
    assume "ss_matches srv (ml_folder e) (ml_uid e)"
    then obtain folder where f: "folder \<in> set (pn_folders ?plan)" "sf_id folder = ml_folder e"
        "server_finds num srv (plan_ask server ?plan folder) (ml_folder e) (ml_uid e)"
      using planned_finds [OF cal filed e] by blast
    obtain h where h: "h \<in> set hits" "fh_folder h = sf_id folder" "uid_search folder = Inr (fh_uids h)"
      using all2_members(2) [OF all2 f(1)] by blast
    then have "ml_uid e \<in> set (fh_uids h)" using ans f(2,3) e(1) unfolding hits_answer_def by metis
    then show "\<exists>h\<in>set hits. fh_folder h = ml_folder e \<and> ml_uid e \<in> set (fh_uids h)" using h f(2) by metis
  qed
  then have matched: "set (search_matched t ?s) = set (search_matched (matching_tables srv t) ?s')"
    using hits(1) same by (auto simp: search_matched_def [of "matching_tables srv t"] s(2)) (auto simp: matching_tables_def)
  then have kept: "set (search_kept t ?s) = set (search_kept (matching_tables srv t) ?s')"
    by (auto simp: kept_own s)
  have "distinct (map ml_id (search_kept (matching_tables srv t) ?s'))"
    using t by (simp add: search_kept_def search_matched_def s Let_def matching_tables_def tables_ok_def distinct_map_filter)
  then have "distinct (map snd (map ml_key (search_kept (matching_tables srv t) ?s')))" by (simp add: ml_key_def comp_def)
  then have "distinct (map ml_key (search_kept (matching_tables srv t) ?s'))" by (metis distinct_map)
  from same_rows_same_order [OF hits(2) this] kept show ?thesis by (simp add: search_ids_def s)
qed

text \<open>C5: a search in two passes answers each window as SQL alone would over the emails whose text and sender
  match: the folders the first pass plans, the labels and the coarse keys lose no email of the scope, and the
  server's hits bring in none of another, on a folder account and on a Gmail account.\<close>
theorem a_search_answers_every_match:
  assumes "tables_ok (qc_tables ctx)" "filed (qc_gmail ctx) (qc_rows ctx) srv (qc_tables ctx)" "calendar_ok num cal"
    and "email_query cal parse ctx args = (Inl ServerUnavailable, Some plan, None)"
    and "hits_answer num srv server plan (qc_tables ctx) uid_search"
    and "run_plan (\<lambda>folder. Inr (sf_validity folder)) uid_search (pn_folders plan) = Inr hits"
    and "filter_of parse (qa_filter args) = Inr f" "sort_ascending (qa_sort args) = Inr ascending"
  shows "email_query cal parse (ctx\<lparr>qc_searched := Some (Inr hits)\<rparr>) args =
    (let found = store_search (matching_tables srv (qc_tables ctx)) (search_with f None ascending (qa_collapse args)) (fst (email_window args))
     in (map_sum id (\<lambda>q. (q, snd (email_window args))) (ok_or AnchorNotFound found), None, if found = None then None else fi_mailbox f))"
proof -
  obtain w lowered where w: "email_window args = (w, lowered)" by fastforce
  have acc: "account_check (qc_key ctx) (qa_account args) = Inr ()"
    using assms(4) by (auto simp: email_query_def account_check_def split: if_splits)
  have first: "searched_window cal ctx f ascending (qa_collapse args) w = (Inl ServerUnavailable, Some plan)" "\<not> (fi_mailbox f \<noteq> None \<and> is_window f)"
    using assms(4) by (auto simp: email_query_def acc assms(7,8) w and_then_def Let_def ok_or_def split: option.splits if_splits prod.splits sum.splits)
  then have s: "filter_searches f" "ask_check (filter_ask f) = Inr ()" "plan = search_plan_of cal f (qc_gmail ctx) (qc_rows ctx)"
    by (auto simp: searched_window_def split: if_splits sum.splits option.splits)
  have "search_ids (qc_tables ctx) (search_with f (Some hits) ascending (qa_collapse args)) =
      search_ids (matching_tables srv (qc_tables ctx)) (search_with f None ascending (qa_collapse args))"
    by (rule plan_is_exact [OF assms(1-3) assms(5,6) [unfolded s(3)]])
  then have "store_search (qc_tables ctx) (search_with f (Some hits) ascending (qa_collapse args)) w =
      store_search (matching_tables srv (qc_tables ctx)) (search_with f None ascending (qa_collapse args)) w"
    by (simp add: store_search_def search_index_def [abs_def] matching_tables_def)
  then have "searched_window cal (ctx\<lparr>qc_searched := Some (Inr hits)\<rparr>) f ascending (qa_collapse args) w =
      (Inr (store_search (matching_tables srv (qc_tables ctx)) (search_with f None ascending (qa_collapse args)) w), None)"
    by (simp add: searched_window_def s(1,2))
  then show ?thesis using first(2)
    by (auto simp: email_query_def acc assms(7,8) w Let_def ok_or_def split: option.split)
qed

definition plain_days :: calendar where
  "plain_days = \<lparr>ca_day = \<lambda>at. Some (at div 86400, 1, 1), ca_next = \<lambda>(n, m, d). Some (n + 1, m, d), ca_previous = \<lambda>(n, m, d). Some (n - 1, m, d)\<rparr>"

definition typed_args :: query_arguments where
  "typed_args = \<lparr>qa_account = ''u'', qa_filter = Some (Some \<lparr>cn_mailbox = None, cn_other_than = None, cn_has = None, cn_not = None, cn_text = Some [97],
     cn_from = None, cn_after = None, cn_before = None, cn_attachment = None\<rparr>), qa_sort = None, qa_position = 0, qa_anchor = None,
     qa_anchor_offset = 0, qa_limit = Some 10, qa_total = False, qa_collapse = False\<rparr>"

definition typed_context :: query_context where
  "typed_context = \<lparr>qc_key = ''u'', qc_tables = two_mails, qc_rows = [demo_row], qc_gmail = False, qc_searched = None\<rparr>"

definition second_matches :: searched_server where
  "second_matches = \<lparr>ss_matches = \<lambda>g u. u = 2, ss_seen = \<lambda>g u. u = 2, ss_flagged = \<lambda>g u. False, ss_day = \<lambda>g u. 0, ss_label = \<lambda>g u l. False\<rparr>"

definition typed_filter :: mail_filter where
  "typed_filter = filter_default\<lparr>fi_text := [97]\<rparr>"

definition typed_plan :: search_plan where
  "typed_plan = \<lparr>pn_text = [97], pn_from = [], pn_unseen = False, pn_flagged = False, pn_since = None, pn_before = None, pn_gmail = False,
     pn_folders = [\<lparr>sf_id = ''m1'', sf_name = ''Work'', sf_validity = 1, sf_label = None\<rparr>]\<rparr>"

lemma typed_filter_of: "filter_of parse (qa_filter typed_args) = Inr typed_filter" "sort_ascending (qa_sort typed_args) = Inr False"
  by (simp_all add: filter_of_def typed_args_def typed_filter_def filter_default_def filter_keyword_def whole_seconds_def sort_ascending_def)

lemma typed_first_pass: "email_query plain_days parse typed_context typed_args = (Inl ServerUnavailable, Some typed_plan, None)"
proof -
  have "filter_searches typed_filter" "ask_check (filter_ask typed_filter) = Inr ()" "fi_mailbox typed_filter = None"
    by (simp_all add: filter_searches_def ask_terms_def filter_ask_def typed_filter_def filter_default_def search_terms_def is_whitespace_def bare_def
      ask_check_def utf8_def utf8_char_def SEARCH_TERMS_def SEARCH_TERM_BYTES_def)
  moreover have "search_plan_of plain_days typed_filter False [demo_row] = typed_plan"
    by (simp add: search_plan_of_def typed_filter_def filter_default_def typed_plan_def folder_account_plan_def List.map_filter_def with_folder_def
      searched_folder_def demo_row_def last_roles_last_def)
  moreover have "account_check (qc_key typed_context) (qa_account typed_args) = Inr ()" "qc_searched typed_context = None" "qc_gmail typed_context = False"
    "qc_rows typed_context = [demo_row]"
    by (simp_all add: account_check_def typed_context_def typed_args_def)
  ultimately show ?thesis
    by (simp add: email_query_def typed_filter_of searched_window_def split: prod.split)
qed

theorem a_search_answers_every_match_witness:
  "email_query plain_days (\<lambda>_. None) (typed_context\<lparr>qc_searched := Some (Inr [\<lparr>fh_folder = ''m1'', fh_uids = [2]\<rparr>])\<rparr>) typed_args =
   (Inr (\<lparr>qd_state = 4, qd_position = 0, qd_ids = [''b''], qd_total = None\<rparr>, False), None, None)"
proof -
  have t: "tables_ok (qc_tables typed_context)" using two_mails_ok(1) by (simp add: typed_context_def)
  have filed: "filed (qc_gmail typed_context) (qc_rows typed_context) second_matches (qc_tables typed_context)"
    by (simp add: filed_def typed_context_def two_mails_def second_matches_def demo_row_def SEEN_KEYWORD_def FLAGGED_KEYWORD_def)
  have cal: "calendar_ok fst plain_days" by (auto simp: calendar_ok_def plain_days_def)
  have ans: "hits_answer fst second_matches \<lparr>sg_gmail = False, sg_literals = Plus\<rparr> typed_plan (qc_tables typed_context) (\<lambda>folder. Inr [2])"
    by (simp add: hits_answer_def server_finds_def second_matches_def plan_ask_def typed_plan_def typed_context_def two_mails_def)
  have run: "run_plan (\<lambda>folder. Inr (sf_validity folder)) (\<lambda>folder. Inr [2]) (pn_folders typed_plan) = Inr [\<lparr>fh_folder = ''m1'', fh_uids = [2]\<rparr>]"
    by (simp add: typed_plan_def)
  have window: "email_window typed_args = (\<lparr>wi_start = Start_Position 0, wi_limit = 10, wi_total = False\<rparr>, False)"
    by (simp add: email_window_def typed_args_def query_limit_def QUERY_LIMIT_def)
  have "store_search (matching_tables second_matches two_mails) (search_with typed_filter None False False)
      \<lparr>wi_start = Start_Position 0, wi_limit = 10, wi_total = False\<rparr> = Some \<lparr>qd_state = 4, qd_position = 0, qd_ids = [''b''], qd_total = None\<rparr>"
    by (simp add: store_search_def search_ids_def search_kept_def search_matched_def search_passes_def matching_tables_def second_matches_def two_mails_def
      search_with_def typed_filter_def filter_default_def in_order_def ml_key_def window_over_def needs_total_def window_position_def)
  then show ?thesis
    using a_search_answers_every_match [OF t filed cal typed_first_pass ans run typed_filter_of]
    by (simp add: window ok_or_def) (simp add: typed_context_def typed_args_def typed_filter_def filter_default_def)
qed

end
