(* ===== verification/Search_Cache.thy ===== *)
theory Search_Cache
  imports Search_Plan
begin

text \<open>
  The searches of one account (\<open>runtime/search.rs\<close>): the hits of the last few plans, kept until the bridge
  moves mail, and one search at a time on a connection of its own. A moment is in milliseconds.
\<close>

definition SEARCH_CACHE_TTL :: nat where "SEARCH_CACHE_TTL = 5 * 60 * 1000"
definition SEARCH_CACHE_ENTRIES :: nat where "SEARCH_CACHE_ENTRIES = 4"

record search_entry =
  en_plan :: search_plan
  en_hits :: "folder_hits list"
  en_read_at :: nat

record kept_searches =
  ks_entries :: "search_entry list"
  ks_forgets :: nat

definition forget_searches :: "kept_searches \<Rightarrow> kept_searches" where
  "forget_searches ks = ks\<lparr>ks_entries := [], ks_forgets := ks_forgets ks + 1\<rparr>"

definition kept_at :: "kept_searches \<Rightarrow> search_plan \<Rightarrow> nat \<Rightarrow> folder_hits list option \<times> kept_searches" where
  "kept_at ks plan now =
     (let ks = ks\<lparr>ks_entries := filter (\<lambda>e. now - en_read_at e < SEARCH_CACHE_TTL) (ks_entries ks)\<rparr>
      in (map_option en_hits (List.find (\<lambda>e. en_plan e = plan) (ks_entries ks)), ks))"

definition keep_search :: "kept_searches \<Rightarrow> search_plan \<Rightarrow> folder_hits list \<Rightarrow> nat \<Rightarrow> nat \<Rightarrow> kept_searches" where
  "keep_search ks plan hits forgets now =
     (if ks_forgets ks \<noteq> forgets then ks
      else let entries = filter (\<lambda>e. en_plan e \<noteq> plan) (ks_entries ks);
               entries = (if length entries \<ge> SEARCH_CACHE_ENTRIES then tl entries else entries)
           in ks\<lparr>ks_entries := entries @ [\<lparr>en_plan = plan, en_hits = hits, en_read_at = now\<rparr>]\<rparr>)"

text \<open>\<open>found\<close> before it waits for the connection: what an equal plan or no folder answers at once, the
  deadline that is spent, else the wait.\<close>

datatype search_begun = Found_Kept "folder_hits list" | Found_Late | Search_Waits | Session_Waits | Search_Begins nat

definition found_asks :: "kept_searches \<Rightarrow> search_plan \<Rightarrow> nat \<Rightarrow> nat \<Rightarrow> search_begun \<times> kept_searches" where
  "found_asks ks plan now until =
     (case kept_at ks plan now of
        (Some hits, ks) \<Rightarrow> (Found_Kept hits, ks)
      | (None, ks) \<Rightarrow>
          if pn_folders plan = [] then (Found_Kept [], ks)
          else if until \<le> now then (Found_Late, ks)
          else (Search_Waits, ks))"

text \<open>The connection came: the search ahead may have read the same plan, else a session is taken.\<close>

definition found_locked :: "kept_searches \<Rightarrow> search_plan \<Rightarrow> nat \<Rightarrow> search_begun \<times> kept_searches" where
  "found_locked ks plan now =
     (case kept_at ks plan now of
        (Some hits, ks) \<Rightarrow> (Found_Kept hits, ks)
      | (None, ks) \<Rightarrow> (Session_Waits, ks))"

text \<open>The session came or could not be had in time: the search begins under the count of forgets of this
  moment.\<close>

definition found_begins :: "kept_searches \<Rightarrow> bool \<Rightarrow> search_begun" where
  "found_begins ks session_had = (if session_had then Search_Begins (ks_forgets ks) else Found_Late)"

text \<open>The rest of \<open>found\<close>: hits are kept, a failure keeps nothing, and the session goes back unless it broke
  or the deadline cut the search.\<close>

definition found_ends :: "kept_searches \<Rightarrow> search_plan \<Rightarrow> nat \<Rightarrow> (session_error + folder_hits list) option \<Rightarrow> nat \<Rightarrow>
    (search_failure + folder_hits list) \<times> bool \<times> kept_searches" where
  "found_ends ks plan forgets outcome now =
     (case outcome of
        None \<Rightarrow> (Inl Search_Unavailable, False, ks)
      | Some (Inl e) \<Rightarrow> (case search_failed e of (failure, stands) \<Rightarrow> (Inl failure, stands, ks))
      | Some (Inr hits) \<Rightarrow> (Inr hits, True, keep_search ks plan hits forgets now))"

subsection \<open>Searches and moves of mail, in any order\<close>

text \<open>One search ran for a plan: its hits, the forgets before it began, when it ended.\<close>

record ran_search =
  rs_plan :: search_plan
  rs_hits :: "folder_hits list"
  rs_forgets :: nat
  rs_ended :: nat

text \<open>The one search that holds the connection takes a session, then runs under the forgets it began under.\<close>

datatype search_held = Takes_Session search_plan | Runs_Under search_plan nat

text \<open>The moment, what is kept, the search that holds the connection, and every search that ran. The request of a
  search may be dropped wherever it waits.\<close>

inductive searches_run :: "nat \<Rightarrow> kept_searches \<Rightarrow> search_held option \<Rightarrow> ran_search list \<Rightarrow> bool" where
  no_search: "searches_run now \<lparr>ks_entries = [], ks_forgets = 0\<rparr> None []"
| time_passes: "searches_run now ks busy runs \<Longrightarrow> now \<le> later \<Longrightarrow> searches_run later ks busy runs"
| mail_moves: "searches_run now ks busy runs \<Longrightarrow> searches_run now (forget_searches ks) busy runs"
| search_asks: "searches_run now ks busy runs \<Longrightarrow> searches_run now (snd (found_asks ks plan now until)) busy runs"
| search_locks: "searches_run now ks None runs \<Longrightarrow> found_locked ks plan now = (begun, ks') \<Longrightarrow>
    searches_run now ks' (case begun of Session_Waits \<Rightarrow> Some (Takes_Session plan) | _ \<Rightarrow> None) runs"
| search_begins: "searches_run now ks (Some (Takes_Session plan)) runs \<Longrightarrow>
    searches_run now ks (case found_begins ks session_had of Search_Begins forgets \<Rightarrow> Some (Runs_Under plan forgets) | _ \<Rightarrow> None) runs"
| search_dropped: "searches_run now ks busy runs \<Longrightarrow> searches_run now ks None runs"
| search_ends: "searches_run now ks (Some (Runs_Under plan forgets)) runs \<Longrightarrow> found_ends ks plan forgets outcome now = (answer, stands, ks') \<Longrightarrow>
    runs' = (case outcome of Some (Inr hits) \<Rightarrow> \<lparr>rs_plan = plan, rs_hits = hits, rs_forgets = forgets, rs_ended = now\<rparr> # runs | _ \<Rightarrow> runs) \<Longrightarrow>
    searches_run now ks' None runs'"

definition kept_ok :: "nat \<Rightarrow> kept_searches \<Rightarrow> ran_search list \<Rightarrow> bool" where
  "kept_ok now ks runs \<longleftrightarrow> length (ks_entries ks) \<le> SEARCH_CACHE_ENTRIES \<and> distinct (map en_plan (ks_entries ks)) \<and>
     (\<forall>e\<in>set (ks_entries ks). en_read_at e \<le> now \<and>
        \<lparr>rs_plan = en_plan e, rs_hits = en_hits e, rs_forgets = ks_forgets ks, rs_ended = en_read_at e\<rparr> \<in> set runs)"

lemma found_in: "List.find P xs = Some x \<Longrightarrow> x \<in> set xs \<and> P x"
  by (auto simp: find_Some_iff)

lemma kept_at_ok: "kept_ok now ks runs \<Longrightarrow> kept_ok now (snd (kept_at ks plan at)) runs"
  by (auto simp: kept_ok_def kept_at_def Let_def distinct_map_filter intro: le_trans [OF length_filter_le])

lemma keep_ok:
  assumes "kept_ok now ks runs"
  shows "kept_ok now (keep_search ks plan hits forgets now) (\<lparr>rs_plan = plan, rs_hits = hits, rs_forgets = forgets, rs_ended = now\<rparr> # runs)"
proof (cases "ks_forgets ks = forgets")
  case True
  define others where "others = filter (\<lambda>e. en_plan e \<noteq> plan) (ks_entries ks)"
  define room where "room = (if length others \<ge> SEARCH_CACHE_ENTRIES then tl others else others)"
  have "length others \<le> SEARCH_CACHE_ENTRIES"
    using assms by (auto simp: kept_ok_def others_def intro: le_trans [OF length_filter_le])
  then have "length room < SEARCH_CACHE_ENTRIES" by (auto simp: room_def SEARCH_CACHE_ENTRIES_def)
  moreover have sub: "set room \<subseteq> set others" by (cases others) (auto simp: room_def)
  moreover have "distinct (map en_plan others)" using assms by (simp add: kept_ok_def others_def distinct_map_filter)
  then have "distinct (map en_plan room)" by (cases others) (auto simp: room_def)
  moreover have "keep_search ks plan hits forgets now = ks\<lparr>ks_entries := room @ [\<lparr>en_plan = plan, en_hits = hits, en_read_at = now\<rparr>]\<rparr>"
    using True by (simp add: keep_search_def Let_def room_def others_def)
  ultimately show ?thesis using assms True by (auto simp: kept_ok_def others_def subset_iff)
next
  case False
  then show ?thesis using assms by (auto simp: keep_search_def kept_ok_def)
qed

lemma searches_kept: "searches_run now ks busy runs \<Longrightarrow> kept_ok now ks runs"
proof (induction rule: searches_run.induct)
  case (time_passes now ks busy runs later)
  then show ?case by (auto simp: kept_ok_def)
next
  case (search_asks now ks busy runs plan until)
  then show ?case using kept_at_ok [of now ks runs plan now] by (auto simp: found_asks_def split: prod.splits option.splits)
next
  case (search_locks now ks runs plan begun ks')
  then have "ks' = snd (kept_at ks plan now)" by (auto simp: found_locked_def split: prod.splits option.splits)
  then show ?case using search_locks kept_at_ok by simp
next
  case (search_ends now ks plan forgets runs outcome answer stands ks' runs')
  then show ?case
    using keep_ok by (auto simp: found_ends_def split: option.splits sum.splits prod.splits)
qed (simp_all add: kept_ok_def forget_searches_def)

text \<open>C18: however searches, their ends and moves of mail interleave, hits are answered from memory only when a
  search of an equal plan read them, began after the last move and ended inside the time they are kept; at
  most four searches are kept, one per plan.\<close>
theorem kept_hits_are_fresh:
  assumes "searches_run now ks busy runs" "kept_at ks plan now = (Some hits, ks')"
  shows "\<exists>r\<in>set runs. rs_plan r = plan \<and> rs_hits r = hits \<and> rs_forgets r = ks_forgets ks \<and> rs_ended r \<le> now \<and>
    now - rs_ended r < SEARCH_CACHE_TTL \<and> length (ks_entries ks') \<le> SEARCH_CACHE_ENTRIES \<and> distinct (map en_plan (ks_entries ks'))"
proof -
  have ok: "kept_ok now ks runs" by (rule searches_kept [OF assms(1)])
  obtain e where e: "e \<in> set (ks_entries ks)" "now - en_read_at e < SEARCH_CACHE_TTL" "en_plan e = plan" "en_hits e = hits"
    using assms(2) by (auto simp: kept_at_def Let_def dest!: found_in)
  have "kept_ok now ks' runs" using kept_at_ok [OF ok, of plan now] assms(2) by simp
  then show ?thesis using ok e
    by (intro bexI [of _ "\<lparr>rs_plan = en_plan e, rs_hits = en_hits e, rs_forgets = ks_forgets ks, rs_ended = en_read_at e\<rparr>"])
      (auto simp: kept_ok_def)
qed

lemma typed_run:
  "searches_run 7 \<lparr>ks_entries = [\<lparr>en_plan = typed_plan, en_hits = [], en_read_at = 7\<rparr>], ks_forgets = 0\<rparr> None
     [\<lparr>rs_plan = typed_plan, rs_hits = [], rs_forgets = 0, rs_ended = 7\<rparr>]"
proof -
  have "found_locked \<lparr>ks_entries = [], ks_forgets = 0\<rparr> typed_plan 7 = (Session_Waits, \<lparr>ks_entries = [], ks_forgets = 0\<rparr>)"
    by (simp add: found_locked_def kept_at_def)
  from search_begins [OF search_locks [OF no_search this, simplified], of True]
  have "searches_run 7 \<lparr>ks_entries = [], ks_forgets = 0\<rparr> (Some (Runs_Under typed_plan 0)) []" by (simp add: found_begins_def)
  from search_ends [OF this, of "Some (Inr [])"] show ?thesis
    by (simp add: found_ends_def keep_search_def SEARCH_CACHE_ENTRIES_def)
qed

theorem kept_hits_are_fresh_witness:
  "\<exists>r\<in>set [\<lparr>rs_plan = typed_plan, rs_hits = [], rs_forgets = 0, rs_ended = 7\<rparr>]. rs_plan r = typed_plan \<and> rs_hits r = [] \<and>
     rs_forgets r = 0 \<and> rs_ended r \<le> 7 \<and> 7 - rs_ended r < SEARCH_CACHE_TTL"
proof -
  have "kept_at \<lparr>ks_entries = [\<lparr>en_plan = typed_plan, en_hits = [], en_read_at = 7\<rparr>], ks_forgets = 0\<rparr> typed_plan 7 =
     (Some [], \<lparr>ks_entries = [\<lparr>en_plan = typed_plan, en_hits = [], en_read_at = 7\<rparr>], ks_forgets = 0\<rparr>)"
    by (simp add: kept_at_def SEARCH_CACHE_TTL_def)
  from kept_hits_are_fresh [OF typed_run this] show ?thesis by auto
qed

end
