(* ===== verification/Spec2Isabelle.thy ===== *)
theory Spec2Isabelle
  imports Guard_Reader Change_Sync Modified_Utf7 Result_Reference Send_Safety Mail_Threads Mailbox_Mapping Folder_Reach Folder_Answers Consent_Flow Sync_Life Refresh_Turns Search_Cache
begin

text \<open>
  Huliho serves mail over JMAP. A crate \<open>imap-bridge\<close> (\<open>src/crates/imap-bridge/src\<close>) speaks JMAP to the
  client and IMAP and SMTP to the mail provider, with the rows of each account in SQLite between the two; a
  crate \<open>server\<close> (\<open>src/crates/server/src\<close>) holds the users, their accounts and the HTTP interface. This
  development models the core of the bridge and the two state machines of the server that guard its doors.
  Paths below are relative to \<open>imap-bridge/src\<close> where no crate is named.

  How the parts meet. A worker walks each folder down once (\<open>Sync_Walk\<close>) and refreshes it from then on
  (\<open>Sync_Refresh\<close>); every line it reads passes the guard (\<open>Guard_*\<close>). What it writes goes to the rows and,
  through the ledger of the write, to the change log (\<open>Change_Log\<close>), from which \<open>/changes\<close> answers
  (\<open>Changes_Window\<close>). Arrivals join threads (\<open>Mail_Threads\<close>); the mailbox rows come from LIST and STATUS
  (\<open>Mailbox_Mapping\<close>, \<open>Mailbox_Rights\<close>) and their names from \<open>Modified_Utf7\<close>. An \<open>Email/set\<close> is read
  (\<open>Set_Patch\<close>), planned against the rows (\<open>Email_Set_Plan\<close>, \<open>Gmail_Labels\<close>), run on the session
  (\<open>Email_Set_Send\<close>, \<open>Wire_Commands\<close>) and what the server acknowledged is written back; a \<open>Mailbox/set\<close> goes
  the same way (\<open>Folder_Plan\<close>, \<open>Folder_Step\<close>, \<open>Folder_Send\<close>, \<open>Folder_Apply\<close>, \<open>Folder_Rows\<close>). An \<open>Email/query\<close>
  is answered from the rows (\<open>Query_Window\<close>), after a SEARCH at the server where text is asked
  (\<open>Search_Plan\<close>, \<open>Search_Line\<close>, \<open>Search_Cache\<close>). Calls of one request refer to each other
  (\<open>Result_Reference\<close>). In the server crate a sign-in passes the limits (\<open>Rate_Limits\<close>) and a consent at a
  provider its store (\<open>Consent_Flow\<close>).

  \<^bold>\<open>Theories and sources.\<close>

  \<^item> \<open>Bridge_Prelude\<close>, \<open>Ordered_Map\<close>: the machine bounds, the parts of the Rust library the sources call
    (saturating and checked arithmetic, ASCII case, splitting and joining, decimal text, \<open>BTreeMap\<close>), the
    rules and collections the component proofs share.
  \<^item> \<open>Jmap_Method\<close> (\<open>jmap/mod.rs\<close>): JSON values and the errors of a method.
  \<^item> \<open>Guard_Lexer\<close>, \<open>Guard_Nesting\<close>, \<open>Guard_Reader\<close> (\<open>session/guard.rs\<close>, \<open>session/guard/lexer.rs\<close>): the record
    \<open>lexer\<close> and its step, the reader that trips. The verdict depends on the stream alone and not on the cuts
    of the network, the counters stay below their bounds, and the depth is the nesting of the data, stated
    against \<open>render\<close>, an independent writer of nested values.
  \<^item> \<open>Change_Log\<close>, \<open>Changes_Window\<close> (\<open>store/changes.rs\<close>, \<open>store/ledger.rs\<close>, \<open>jmap/changes.rs\<close>) with
    \<open>Change_History\<close>, \<open>Change_Store\<close>, \<open>Change_Sync\<close>: the log, its pruning, the fold of its rows into created,
    updated and destroyed, and the specification they implement: the set of objects at each state.
    \<open>log_step\<close> is any run of writes; an answer of \<open>/changes\<close> is the difference of two such sets, and a client
    that folds capped answers ends with the objects of now.
  \<^item> \<open>Modified_Utf7\<close> (\<open>utf7.rs\<close>), \<open>Mailbox_Name\<close> (\<open>session/mailbox.rs\<close>): names on the wire and back.
  \<^item> \<open>Result_Reference\<close> (\<open>jmap/references.rs\<close>): pointers into earlier answers and the weight they may copy.
  \<^item> \<open>Wire_Commands\<close>, \<open>Keyword_Flags\<close> (\<open>session/write.rs\<close>, \<open>session/write/copyuid.rs\<close>, \<open>sync/mapping.rs\<close>): the
    text of STORE, MOVE, COPY and the rest, the pairs of COPYUID, flags and keywords.
  \<^item> \<open>Mailbox_Rights\<close>, \<open>Mailbox_Mapping\<close> (\<open>mailboxes/\<close>, \<open>store/mailboxes.rs\<close>): the letters of MYRIGHTS and
    what they grant, LIST and STATUS to mailbox facts, roles handed out.
  \<^item> \<open>Set_Patch\<close>, \<open>Gmail_Labels\<close>, \<open>Email_Set_Plan\<close>, \<open>Plan_Work\<close>, \<open>Plan_Meaning\<close> (\<open>jmap/set/patch.rs\<close>, \<open>gmail.rs\<close>,
    \<open>jmap/write/plan.rs\<close>): what an update asks; the plan does to an email what the patch says, asks nothing
    the rights do not grant, and its tallies count what each update waits on.
  \<^item> \<open>Email_Set_Send\<close>, \<open>Send_Acks\<close>, \<open>Send_Progress\<close>, \<open>Send_Safety\<close> (\<open>jmap/write.rs\<close> and \<open>jmap/write/\<close>): the run over a
    log of commands and answers, the lines of a COPYUID read as they come (\<open>noted\<close>). Every command keeps to
    the open folder and its bound on messages, nothing is stored the server did not acknowledge, the labels
    read back for a moved message included, and what is answered as done is stored.
  \<^item> \<open>Mail_Threads\<close> (\<open>store/threads.rs\<close>): two tables kept as a union-find. Threads are the connected messages.
  \<^item> \<open>Folder_Names\<close>, \<open>Folder_Plan\<close>, \<open>Folder_Step\<close>, \<open>Folder_Send\<close>, \<open>Folder_Rows\<close>, \<open>Folder_Apply\<close> (\<open>runtime/folders/\<close>,
    \<open>store/mailboxes/set.rs\<close>): a \<open>Mailbox/set\<close> from its objects to the rows. \<open>Folder_Tree\<close>, \<open>Folder_Run\<close>,
    \<open>Folder_Reach\<close>: the tree of mailboxes as a specification and the steps legal on it one after the other; no
    move goes under a mailbox that lay below it when the moves began (\<open>step_clear\<close>), which keeps a call with
    one change of parent (\<open>moves_made\<close>) free of circles. \<open>Wire_Paths\<close>, \<open>Folder_Runs\<close>, \<open>Folder_Follow\<close>,
    \<open>Rows_Follow\<close>, \<open>Folder_Answers\<close>: the rows name what the server holds and each answer rests on accepted
    commands (\<open>backed_by\<close>).
  \<^item> \<open>Sync_Walk\<close>, \<open>Sync_Refresh\<close> (\<open>sync/mod.rs\<close>, \<open>sync/walk.rs\<close>, \<open>sync/refresh.rs\<close>, \<open>sync/refresh/folder.rs\<close>,
    \<open>store/progress.rs\<close>, \<open>store/refresh.rs\<close>, \<open>runtime/worker.rs\<close>): the walk over the UIDs with its narrowing, the
    progress on record, the refresh. \<open>Sync_Mirror\<close>, \<open>Refresh_Mirror\<close>, \<open>Sync_Life\<close>: a server whose mailbox
    changes between the commands and the cache as a mirror of the part it has asked for, kept through
    failures and restarts (\<open>folder_life\<close>). \<open>Refresh_Turns\<close>: a folder that fails starves no other, unless it holds
    its refresh to the deadline.
  \<^item> \<open>Query_Window\<close> (\<open>store/query.rs\<close>, \<open>store/search.rs\<close>), \<open>Search_Line\<close> (\<open>session/read/search.rs\<close>),
    \<open>Search_Plan\<close> (\<open>jmap/query.rs\<close>, \<open>jmap/query/plan.rs\<close>, \<open>runtime/search.rs\<close>), \<open>Search_Cache\<close>
    (\<open>runtime/search.rs\<close>): the two statements and their equivalence, a search command that keeps what the user
    typed inside its literals (against \<open>read_command\<close>, a server's reader), the walk over windows of sequence
    numbers, the plan of folders, the two passes of a call and the hits kept between them.
  \<^item> \<open>Rate_Limits\<close> (\<open>server/src/rate.rs\<close>), \<open>Consent_Flow\<close> (\<open>server/src/oauth/consents.rs\<close>).

  \<^bold>\<open>Interfaces.\<close> A locale stands where one part relies on another or several share a contract; each is
  interpreted on the definitions of the code in the theory that provides them, and the properties rest on
  those interpretations (for instance \<open>answer_order\<close> of \<open>Query_Window\<close>, interpreted on the order of both
  statements).

  \<^bold>\<open>Bounds and fuel.\<close> The loops of the source are recursions that end by themselves, with these measures.
  \<open>lies_under\<close> and \<open>depth\<close> count down a bound of the source, the number of rows, which no path in a
  tree passes (\<open>Folder_Reach\<close>). The passes of \<open>creation_order\<close> end once one places nothing. A folder takes at most
  three turns per UID listed and one per failure up to \<open>FOLDER_FAILURE_BOUND\<close> (\<open>folder_turns_end\<close>). A search
  sends one command per window of 5000 sequence numbers below the first count, so a list of rounds one longer
  is never used up. Pages end after as many windows as the result has rows, and a
  client of \<open>/changes\<close> (\<open>sync_client\<close>, no code of the repository) after one call per state it is behind and one
  more. Naturals stand for unsigned integers where the source checks or
  saturates, which the model writes out, or where a bound of the source keeps them in range; words stand where
  the value wraps.

  \<^bold>\<open>What is relied on.\<close> Named hypotheses say what code outside the repository promises.
  \<open>server_holds\<close>, \<open>pathed\<close>: an IMAP server does what it accepts, makes no mailbox that is there, and its
  listing has one delimiter and every parent. Of a command that failed nothing is assumed: either it left
  the names alone (\<open>clean\<close>) or the run marks the tree as refused. \<open>call_ok\<close>: the rows form a tree, ids are not
  creation ids, and the objects of a call name mailboxes of their own. \<open>Sync_Life\<close>: the server advertises
  CONDSTORE and names UIDNEXT; a message whose \<open>\Deleted\<close> flag is taken back is left out like one that cannot be
  described (the lemma \<open>undeleted_stays_away\<close> runs what happens to it). \<open>never_dropped\<close>: no refresh is cut off
  at its deadline (\<open>a_hanging_folder_starves\<close> runs one that is). \<open>calendar_ok\<close>: the days of the time crate are numbered as days follow each other. \<open>filed\<close>,
  \<open>tables_ok\<close>: the rows a query reads have the keys of the schema and each hit a row of the folder it lies in.
  Parameters of the definitions (\<open>text_lib\<close>, \<open>calendar\<close>, the parser of dates, base64, random ids) stand
  for libraries; every property that takes a hypothesis about one has a witness that instantiates it.

  \<^bold>\<open>Findings.\<close> Modelling showed that one call can close a circle of mailboxes (\<open>two_moves_close_a_cycle\<close>) and
  count a child out twice (\<open>aliased_destroys_miss_a_child\<close>), that an expunge can be missed after a message no
  answer could describe (\<open>expunge_missed\<close>), that a message whose \<open>\Deleted\<close> is taken back never returns
  (\<open>undeleted_stays_away\<close>), that a folder which hangs to the deadline of every refresh starves those behind it
  (\<open>a_hanging_folder_starves\<close>) and that the delay of the sign-in limiter falls below zero and to zero between 57 and
  67 failures in a row (\<open>delay_wraps\<close>). The properties state what holds beside these.

  \<^bold>\<open>Not modelled.\<close> The sockets, TLS, timers and the client libraries below the session, which answer with a
  value or an error here; SQLite itself, whose statements are modelled as what they select; the reading of
  FETCH bodies, structures and headers and the building of messages (\<open>session/read/\<close>, \<open>jmap/body\<close>, \<open>message/\<close>),
  which are long projections of a parsed message; drafts, submission and SMTP; uploads and blobs; quotas; the
  request loop and the connections of \<open>runtime/\<close>; of a Gmail account the sync of its labels; in the server
  crate the HTTP handlers, sessions, passwords, discovery, probing, the proxy and the stores of preferences;
  and \<open>testing/\<close>, the fake server of the tests. The manifest lists each with its reason.
\<close>

end
